(* ===== verification/Kv_Prelude.thy ===== *)
theory Kv_Prelude
  imports Main "HOL-Library.Word" "HOL-Library.List_Lexorder"
begin

text \<open>
  Shared ground of the KVDB development.

  It names the machine types of the C++ sources (\<open>uint8_t\<close> to \<open>uint64_t\<close> as words,
  \<open>std::string\<close> and byte buffers as lists of bytes), gives the little-endian integer
  encoding that every file format and the wire protocol use, and states the two interfaces
  that the formats share as locales: \<open>byte_codec\<close>, an encoder with a decoder that undoes
  it in front of any rest, and \<open>record_log\<close>, a scanner of an append-only sequence of records
  that stops at a torn tail.

  Strings are ordered by \<open>HOL-Library.List_Lexorder\<close> on bytes read as unsigned numbers,
  which is what \<open>std::string::compare\<close> and \<open>memcmp\<close> compute.
\<close>

unbundle bit_operations_syntax

type_synonym u8 = "8 word"
type_synonym u16 = "16 word"
type_synonym u32 = "32 word"
type_synonym u64 = "64 word"
type_synonym bytes = "u8 list"

named_theorems codec_simps \<open>round trips of the fixed-width integer encodings\<close>
named_theorems ext_intros \<open>readers that do not look beyond what they consume\<close>

section \<open>Little-endian integers\<close>

text \<open>The \<open>i\<close>-th byte of a value: \<^verbatim>\<open>static_cast<char>((v >> 8*i) & 0xFF)\<close>.\<close>

definition byte_at :: "nat \<Rightarrow> 'a::len word \<Rightarrow> u8" where
  "byte_at i v = ucast (drop_bit (8 * i) v AND 0xFF)"

definition WriteUint16LE :: "u16 \<Rightarrow> bytes" where
  "WriteUint16LE v = [byte_at 0 v, byte_at 1 v]"

definition WriteUint32LE :: "u32 \<Rightarrow> bytes" where
  "WriteUint32LE v = [byte_at 0 v, byte_at 1 v, byte_at 2 v, byte_at 3 v]"

definition WriteUint64LE :: "u64 \<Rightarrow> bytes" where
  "WriteUint64LE v = [byte_at 0 v, byte_at 1 v, byte_at 2 v, byte_at 3 v,
     byte_at 4 v, byte_at 5 v, byte_at 6 v, byte_at 7 v]"

definition le16 :: "u8 \<Rightarrow> u8 \<Rightarrow> u16" where
  "le16 a b = ucast a OR push_bit 8 (ucast b)"

definition le32 :: "u8 \<Rightarrow> u8 \<Rightarrow> u8 \<Rightarrow> u8 \<Rightarrow> u32" where
  "le32 a b c d = ucast a OR push_bit 8 (ucast b) OR push_bit 16 (ucast c)
     OR push_bit 24 (ucast d)"

definition le64 :: "u8 \<Rightarrow> u8 \<Rightarrow> u8 \<Rightarrow> u8 \<Rightarrow> u8 \<Rightarrow> u8 \<Rightarrow> u8 \<Rightarrow> u8 \<Rightarrow> u64" where
  "le64 a b c d e f g h = ucast a OR push_bit 8 (ucast b) OR push_bit 16 (ucast c)
     OR push_bit 24 (ucast d) OR push_bit 32 (ucast e) OR push_bit 40 (ucast f)
     OR push_bit 48 (ucast g) OR push_bit 56 (ucast h)"

text \<open>
  Reading from a stream (\<^verbatim>\<open>fread\<close>, \<^verbatim>\<open>recv\<close>): \<open>None\<close> when fewer bytes are left than the
  integer needs, otherwise the value and the rest of the stream.
\<close>

fun ReadUint16LE :: "bytes \<Rightarrow> (u16 \<times> bytes) option" where
  "ReadUint16LE (a # b # r) = Some (le16 a b, r)"
| "ReadUint16LE _ = None"

fun ReadUint32LE :: "bytes \<Rightarrow> (u32 \<times> bytes) option" where
  "ReadUint32LE (a # b # c # d # r) = Some (le32 a b c d, r)"
| "ReadUint32LE _ = None"

fun ReadUint64LE :: "bytes \<Rightarrow> (u64 \<times> bytes) option" where
  "ReadUint64LE (a # b # c # d # e # f # g # h # r) = Some (le64 a b c d e f g h, r)"
| "ReadUint64LE _ = None"

text \<open>\<open>n\<close> raw bytes from a stream: \<^verbatim>\<open>fread(buf, 1, n, f) != n\<close> is \<open>None\<close>.\<close>

definition read_bytes :: "nat \<Rightarrow> bytes \<Rightarrow> (bytes \<times> bytes) option" where
  "read_bytes n bs = (if length bs < n then None else Some (take n bs, drop n bs))"

text \<open>Reading at a position of a buffer, as the parsers that hold a \<^verbatim>\<open>const unsigned char* p\<close> do.\<close>

definition rd16 :: "bytes \<Rightarrow> nat \<Rightarrow> u16" where
  "rd16 p i = le16 (p ! i) (p ! (i + 1))"

definition rd32 :: "bytes \<Rightarrow> nat \<Rightarrow> u32" where
  "rd32 p i = le32 (p ! i) (p ! (i + 1)) (p ! (i + 2)) (p ! (i + 3))"

definition rd64 :: "bytes \<Rightarrow> nat \<Rightarrow> u64" where
  "rd64 p i = le64 (p ! i) (p ! (i + 1)) (p ! (i + 2)) (p ! (i + 3))
     (p ! (i + 4)) (p ! (i + 5)) (p ! (i + 6)) (p ! (i + 7))"

section \<open>Bits of a byte and their recombination\<close>

lemma mask_8_numeral: "(0xFF :: 'b::len word) = mask 8"
  by (simp add: mask_eq_exp_minus_1)

lemma bit_byte_at: "bit (byte_at i v) n \<longleftrightarrow> n < 8 \<and> bit v (8 * i + n)"
  unfolding byte_at_def mask_8_numeral
  by (auto simp: bit_simps dest: bit_imp_le_length)

lemma drop_bit_split_byte:
  "drop_bit (8 * i) (v :: 'a::len word)
   = ucast (byte_at i v) OR push_bit 8 (drop_bit (8 * Suc i) v)"
proof (rule bit_word_eqI)
  fix n
  assume "n < LENGTH('a)"
  then show "bit (drop_bit (8 * i) v) n
      = bit (ucast (byte_at i v) OR push_bit 8 (drop_bit (8 * Suc i) v)) n"
    by (cases "n < 8") (auto simp: bit_simps bit_byte_at dest: bit_imp_le_length)
qed

lemma drop_bit_beyond_length: "LENGTH('a) \<le> k \<Longrightarrow> drop_bit k (v :: 'a::len word) = 0"
  by (rule bit_word_eqI) (auto simp: bit_simps dest: bit_imp_le_length)

lemma xor_right_cancel: "x XOR k = y XOR k \<longleftrightarrow> x = (y :: 'a::len word)"
  by (metis xor.assoc xor_self_eq xor.right_neutral)

lemma xor_left_cancel: "k XOR x = k XOR y \<longleftrightarrow> x = (y :: 'a::len word)"
  by (metis xor.assoc xor_self_eq xor.left_neutral)

lemma ucast_u8_u32_inject: "(ucast b :: u32) = ucast c \<longleftrightarrow> b = (c :: u8)"
proof
  assume "(ucast b :: u32) = ucast c"
  then have "(ucast (ucast b :: u32) :: u8) = ucast (ucast c :: u32)" by simp
  moreover have "(ucast (ucast x :: u32) :: u8) = x" for x
    by (rule bit_word_eqI) (auto simp: bit_simps)
  ultimately show "b = c" by simp
qed simp

lemma le16_bytes [codec_simps]: "le16 (byte_at 0 v) (byte_at (Suc 0) v) = v"
  using drop_bit_split_byte [of 0 v] drop_bit_split_byte [of 1 v]
  by (simp add: le16_def drop_bit_beyond_length or.assoc numeral_2_eq_2)

lemma le32_bytes [codec_simps]:
  "le32 (byte_at 0 v) (byte_at (Suc 0) v) (byte_at 2 v) (byte_at 3 v) = v"
  using drop_bit_split_byte [of 0 v] drop_bit_split_byte [of 1 v]
    drop_bit_split_byte [of 2 v] drop_bit_split_byte [of 3 v]
  by (simp add: le32_def drop_bit_beyond_length or.assoc)

lemma le64_bytes [codec_simps]:
  "le64 (byte_at 0 v) (byte_at (Suc 0) v) (byte_at 2 v) (byte_at 3 v)
     (byte_at 4 v) (byte_at 5 v) (byte_at 6 v) (byte_at 7 v) = v"
  using drop_bit_split_byte [of 0 v] drop_bit_split_byte [of 1 v]
    drop_bit_split_byte [of 2 v] drop_bit_split_byte [of 3 v]
    drop_bit_split_byte [of 4 v] drop_bit_split_byte [of 5 v]
    drop_bit_split_byte [of 6 v] drop_bit_split_byte [of 7 v]
  by (simp add: le64_def drop_bit_beyond_length or.assoc)

lemma length_WriteUint16LE [simp]: "length (WriteUint16LE v) = 2"
  by (simp add: WriteUint16LE_def)

lemma length_WriteUint32LE [simp]: "length (WriteUint32LE v) = 4"
  by (simp add: WriteUint32LE_def)

lemma length_WriteUint64LE [simp]: "length (WriteUint64LE v) = 8"
  by (simp add: WriteUint64LE_def)

lemma ReadUint16LE_Write [codec_simps]: "ReadUint16LE (WriteUint16LE v @ r) = Some (v, r)"
  by (simp add: WriteUint16LE_def codec_simps)

lemma ReadUint32LE_Write [codec_simps]: "ReadUint32LE (WriteUint32LE v @ r) = Some (v, r)"
  by (simp add: WriteUint32LE_def codec_simps)

lemma ReadUint64LE_Write [codec_simps]: "ReadUint64LE (WriteUint64LE v @ r) = Some (v, r)"
  by (simp add: WriteUint64LE_def codec_simps)

lemma ReadUint16LE_short: "length bs < 2 \<Longrightarrow> ReadUint16LE bs = None"
  by (cases bs rule: ReadUint16LE.cases) auto

lemma ReadUint32LE_short: "length bs < 4 \<Longrightarrow> ReadUint32LE bs = None"
  by (cases bs rule: ReadUint32LE.cases) auto

lemma ReadUint64LE_short: "length bs < 8 \<Longrightarrow> ReadUint64LE bs = None"
  by (cases bs rule: ReadUint64LE.cases) auto

lemma read_bytes_append [codec_simps]: "length xs = n \<Longrightarrow> read_bytes n (xs @ r) = Some (xs, r)"
  by (simp add: read_bytes_def)

lemma read_bytes_short: "length bs < n \<Longrightarrow> read_bytes n bs = None"
  by (simp add: read_bytes_def)

text \<open>What a successful read consumed, for the termination of the scanning loops.\<close>

lemma ReadUint16LE_length: "ReadUint16LE bs = Some (v, r) \<Longrightarrow> length bs = length r + 2"
  by (cases bs rule: ReadUint16LE.cases) auto

lemma ReadUint32LE_length: "ReadUint32LE bs = Some (v, r) \<Longrightarrow> length bs = length r + 4"
  by (cases bs rule: ReadUint32LE.cases) auto

lemma ReadUint64LE_length: "ReadUint64LE bs = Some (v, r) \<Longrightarrow> length bs = length r + 8"
  by (cases bs rule: ReadUint64LE.cases) auto

lemma read_bytes_length: "read_bytes n bs = Some (v, r) \<Longrightarrow> length bs = length r + n"
  by (auto simp: read_bytes_def split: if_splits)

lemmas read_lengths =
  ReadUint16LE_length ReadUint32LE_length ReadUint64LE_length read_bytes_length

lemmas read_shorts =
  ReadUint16LE_short ReadUint32LE_short ReadUint64LE_short read_bytes_short

lemma ReadUint16LE_ext: "ReadUint16LE xs = Some (v, r) \<Longrightarrow> ReadUint16LE (xs @ ys) = Some (v, r @ ys)"
  by (cases xs rule: ReadUint16LE.cases) auto

lemma ReadUint32LE_ext: "ReadUint32LE xs = Some (v, r) \<Longrightarrow> ReadUint32LE (xs @ ys) = Some (v, r @ ys)"
  by (cases xs rule: ReadUint32LE.cases) auto

lemma ReadUint64LE_ext: "ReadUint64LE xs = Some (v, r) \<Longrightarrow> ReadUint64LE (xs @ ys) = Some (v, r @ ys)"
  by (cases xs rule: ReadUint64LE.cases) auto

lemma read_bytes_ext: "read_bytes n xs = Some (v, r) \<Longrightarrow> read_bytes n (xs @ ys) = Some (v, r @ ys)"
  by (auto simp: read_bytes_def split: if_splits)


text \<open>A reader that does not look beyond what it consumes. It fails on every strict prefix of an
  encoding that it consumes completely.\<close>

definition reader_ext :: "(bytes \<Rightarrow> ('a \<times> bytes) option) \<Rightarrow> bool" where
  "reader_ext rd = (\<forall>xs ys v r. rd xs = Some (v, r) \<longrightarrow> rd (xs @ ys) = Some (v, r @ ys))"

lemma reader_ext_prims [ext_intros]:
  "reader_ext ReadUint16LE" "reader_ext ReadUint32LE" "reader_ext ReadUint64LE"
  "reader_ext (read_bytes n)" "reader_ext (\<lambda>r. Some (x, r))" "reader_ext (\<lambda>r. None)"
  by (auto simp: reader_ext_def ReadUint16LE_ext ReadUint32LE_ext ReadUint64LE_ext read_bytes_ext)

lemma reader_ext_bind [ext_intros]:
  assumes "reader_ext rd" and "\<And>v. reader_ext (k v)"
  shows "reader_ext (\<lambda>xs. Option.bind (rd xs) (\<lambda>(v, r). k v r))"
  using assms by (fastforce simp: reader_ext_def bind_eq_Some_conv)

lemma reader_torn:
  assumes "reader_ext rd" and "rd p = Some (w, [])" and "n < length p"
  shows "rd (take n p) = None"
proof (rule ccontr)
  assume "rd (take n p) \<noteq> None"
  then obtain v r where "rd (take n p) = Some (v, r)" by auto
  then have "rd (take n p @ drop n p) = Some (v, r @ drop n p)"
    using assms(1) unfolding reader_ext_def by blast
  with assms(2,3) show False by simp
qed

lemma rd16_at [codec_simps]: "length xs = i \<Longrightarrow> rd16 (xs @ WriteUint16LE v @ ys) i = v"
  by (simp add: rd16_def WriteUint16LE_def nth_append codec_simps)

lemma rd32_at [codec_simps]: "length xs = i \<Longrightarrow> rd32 (xs @ WriteUint32LE v @ ys) i = v"
  by (simp add: rd32_def WriteUint32LE_def nth_append codec_simps)

lemma rd64_at [codec_simps]: "length xs = i \<Longrightarrow> rd64 (xs @ WriteUint64LE v @ ys) i = v"
  by (simp add: rd64_def WriteUint64LE_def nth_append codec_simps)

text \<open>A read at an offset of a suffix is a read further into the buffer.\<close>

lemma rd16_drop: "k + i + 1 < length p \<Longrightarrow> rd16 (drop k p) i = rd16 p (k + i)"
  by (simp add: rd16_def add.assoc)

lemma rd32_drop: "k + i + 3 < length p \<Longrightarrow> rd32 (drop k p) i = rd32 p (k + i)"
  by (simp add: rd32_def add.assoc)

lemma rd64_drop: "k + i + 7 < length p \<Longrightarrow> rd64 (drop k p) i = rd64 p (k + i)"
  by (simp add: rd64_def add.assoc)

lemma unat_of_nat_small: "n < 2 ^ LENGTH('a) \<Longrightarrow> unat (of_nat n :: 'a::len word) = n"
  by (simp add: unat_of_nat take_bit_nat_eq_self)

lemma unat_less32: "unat (w :: u32) < 2 ^ 32"
  using unsigned_less [of w] by simp

lemma len32: "LENGTH(32) = 32"
  by simp

lemma set_fold_insert: "set (fold List.insert xs ys) = set xs \<union> set ys"
  by (induction xs arbitrary: ys) auto

section \<open>The codec interface\<close>

text \<open>
  An encoder \<open>enc\<close> and a decoder \<open>dec\<close> of one value in front of an arbitrary rest;
  \<open>ok\<close> says which values the format can carry (a length that fits its field, say).
\<close>

locale byte_codec =
  fixes enc :: "'a \<Rightarrow> bytes"
    and dec :: "bytes \<Rightarrow> ('a \<times> bytes) option"
    and ok :: "'a \<Rightarrow> bool"
  assumes dec_enc: "ok x \<Longrightarrow> dec (enc x @ r) = Some (x, r)"
begin

primrec dec_many :: "nat \<Rightarrow> bytes \<Rightarrow> ('a list \<times> bytes) option" where
  "dec_many 0 bs = Some ([], bs)"
| "dec_many (Suc n) bs = (case dec bs of None \<Rightarrow> None
     | Some (x, r) \<Rightarrow> (case dec_many n r of None \<Rightarrow> None
         | Some (xs, r') \<Rightarrow> Some (x # xs, r')))"

lemma dec_many_enc:
  "(\<forall>x \<in> set xs. ok x) \<Longrightarrow> dec_many (length xs) (concat (map enc xs) @ r) = Some (xs, r)"
  by (induction xs) (auto simp: dec_enc)

lemma enc_prefix_free:
  assumes "ok x" and "ok y" and "enc x @ r = enc y @ s"
  shows "x = y \<and> r = s"
proof -
  have "Some (x, r) = dec (enc y @ s)"
    using dec_enc [OF assms(1), of r] by (simp only: assms(3))
  also have "\<dots> = Some (y, s)"
    by (rule dec_enc [OF assms(2)])
  finally show ?thesis by simp
qed

end

interpretation u16c: byte_codec WriteUint16LE ReadUint16LE "\<lambda>_. True"
  by unfold_locales (rule ReadUint16LE_Write)

interpretation u32c: byte_codec WriteUint32LE ReadUint32LE "\<lambda>_. True"
  by unfold_locales (rule ReadUint32LE_Write)

interpretation u64c: byte_codec WriteUint64LE ReadUint64LE "\<lambda>_. True"
  by unfold_locales (rule ReadUint64LE_Write)

section \<open>The append-only log interface\<close>

text \<open>
  A log is a concatenation of encoded records; \<open>scan\<close> returns the records it recognises
  from the front of a byte string. The provider promises that a complete record is taken
  (\<open>record_stream\<close>) and that a strict prefix of a record, which is what an interrupted append leaves behind,
  is not. The client lemmas say what a crash can do: cutting the log at any byte yields a
  prefix of the records appended.
\<close>

locale record_stream =
  fixes enc :: "'r \<Rightarrow> bytes"
    and scan :: "bytes \<Rightarrow> 'r list"
    and ok :: "'r \<Rightarrow> bool"
  assumes scan_record: "ok r \<Longrightarrow> scan (enc r @ bs) = r # scan bs"
    and scan_empty: "scan [] = []"
begin

lemma scan_append:
  "(\<forall>r \<in> set rs. ok r) \<Longrightarrow> scan (concat (map enc rs) @ bs) = rs @ scan bs"
  by (induction rs) (auto simp: scan_record)

lemma scan_log: "(\<forall>r \<in> set rs. ok r) \<Longrightarrow> scan (concat (map enc rs)) = rs"
  using scan_append [of rs "[]"] by (simp add: scan_empty)

end

locale record_log = record_stream +
  assumes scan_torn: "ok r \<Longrightarrow> n < length (enc r) \<Longrightarrow> scan (take n (enc r)) = []"
begin

lemma scan_cut:
  assumes "\<forall>r \<in> set rs. ok r"
  shows "\<exists>m \<le> length rs. scan (take k (concat (map enc rs))) = take m rs"
  using assms
proof (induction rs arbitrary: k)
  case Nil
  then show ?case by (simp add: scan_empty)
next
  case (Cons r rs)
  show ?case
  proof (cases "k < length (enc r)")
    case True
    with Cons.prems have "scan (take k (concat (map enc (r # rs)))) = []"
      by (simp add: scan_torn)
    then show ?thesis by (intro exI [of _ 0]) simp
  next
    case False
    from Cons obtain m where "m \<le> length rs"
      and "scan (take (k - length (enc r)) (concat (map enc rs))) = take m rs"
      by auto
    with False Cons.prems have "scan (take k (concat (map enc (r # rs)))) = take (Suc m) (r # rs)"
      by (simp add: scan_record)
    with \<open>m \<le> length rs\<close> show ?thesis by (intro exI [of _ "Suc m"]) simp
  qed
qed

end

end
