(* ===== verification/Crc32.thy ===== *)
theory Crc32
  imports Kv_Prelude
begin

text \<open>
  The checksum of \<^verbatim>\<open>include/kvdb/internal/crc32.hpp\<close>: the 256-entry table as the header
  lists it, the table-driven \<open>Update\<close>, and \<open>Finalize\<close>.

  The lemmas show that the table is the table of the reflected polynomial \<open>0xEDB88320\<close>, that
  the table-driven update equals the bit-by-bit one, and that the checksum detects every
  corruption confined to four consecutive bytes. The WAL, the manifest and the SSTable rely
  on it through the locale \<open>record_checksum\<close>.
\<close>

section \<open>Definitions from the source\<close>

definition kTable :: "u32 list" where
  "kTable = [
   0x00000000, 0x77073096, 0xEE0E612C, 0x990951BA, 0x076DC419, 0x706AF48F, 0xE963A535, 0x9E6495A3,
   0x0EDB8832, 0x79DCB8A4, 0xE0D5E91E, 0x97D2D988, 0x09B64C2B, 0x7EB17CBD, 0xE7B82D07, 0x90BF1D91,
   0x1DB71064, 0x6AB020F2, 0xF3B97148, 0x84BE41DE, 0x1ADAD47D, 0x6DDDE4EB, 0xF4D4B551, 0x83D385C7,
   0x136C9856, 0x646BA8C0, 0xFD62F97A, 0x8A65C9EC, 0x14015C4F, 0x63066CD9, 0xFA0F3D63, 0x8D080DF5,
   0x3B6E20C8, 0x4C69105E, 0xD56041E4, 0xA2677172, 0x3C03E4D1, 0x4B04D447, 0xD20D85FD, 0xA50AB56B,
   0x35B5A8FA, 0x42B2986C, 0xDBBBC9D6, 0xACBCF940, 0x32D86CE3, 0x45DF5C75, 0xDCD60DCF, 0xABD13D59,
   0x26D930AC, 0x51DE003A, 0xC8D75180, 0xBFD06116, 0x21B4F4B5, 0x56B3C423, 0xCFBA9599, 0xB8BDA50F,
   0x2802B89E, 0x5F058808, 0xC60CD9B2, 0xB10BE924, 0x2F6F7C87, 0x58684C11, 0xC1611DAB, 0xB6662D3D,
   0x76DC4190, 0x01DB7106, 0x98D220BC, 0xEFD5102A, 0x71B18589, 0x06B6B51F, 0x9FBFE4A5, 0xE8B8D433,
   0x7807C9A2, 0x0F00F934, 0x9609A88E, 0xE10E9818, 0x7F6A0DBB, 0x086D3D2D, 0x91646C97, 0xE6635C01,
   0x6B6B51F4, 0x1C6C6162, 0x856530D8, 0xF262004E, 0x6C0695ED, 0x1B01A57B, 0x8208F4C1, 0xF50FC457,
   0x65B0D9C6, 0x12B7E950, 0x8BBEB8EA, 0xFCB9887C, 0x62DD1DDF, 0x15DA2D49, 0x8CD37CF3, 0xFBD44C65,
   0x4DB26158, 0x3AB551CE, 0xA3BC0074, 0xD4BB30E2, 0x4ADFA541, 0x3DD895D7, 0xA4D1C46D, 0xD3D6F4FB,
   0x4369E96A, 0x346ED9FC, 0xAD678846, 0xDA60B8D0, 0x44042D73, 0x33031DE5, 0xAA0A4C5F, 0xDD0D7CC9,
   0x5005713C, 0x270241AA, 0xBE0B1010, 0xC90C2086, 0x5768B525, 0x206F85B3, 0xB966D409, 0xCE61E49F,
   0x5EDEF90E, 0x29D9C998, 0xB0D09822, 0xC7D7A8B4, 0x59B33D17, 0x2EB40D81, 0xB7BD5C3B, 0xC0BA6CAD,
   0xEDB88320, 0x9ABFB3B6, 0x03B6E20C, 0x74B1D29A, 0xEAD54739, 0x9DD277AF, 0x04DB2615, 0x73DC1683,
   0xE3630B12, 0x94643B84, 0x0D6D6A3E, 0x7A6A5AA8, 0xE40ECF0B, 0x9309FF9D, 0x0A00AE27, 0x7D079EB1,
   0xF00F9344, 0x8708A3D2, 0x1E01F268, 0x6906C2FE, 0xF762575D, 0x806567CB, 0x196C3671, 0x6E6B06E7,
   0xFED41B76, 0x89D32BE0, 0x10DA7A5A, 0x67DD4ACC, 0xF9B9DF6F, 0x8EBEEFF9, 0x17B7BE43, 0x60B08ED5,
   0xD6D6A3E8, 0xA1D1937E, 0x38D8C2C4, 0x4FDFF252, 0xD1BB67F1, 0xA6BC5767, 0x3FB506DD, 0x48B2364B,
   0xD80D2BDA, 0xAF0A1B4C, 0x36034AF6, 0x41047A60, 0xDF60EFC3, 0xA867DF55, 0x316E8EEF, 0x4669BE79,
   0xCB61B38C, 0xBC66831A, 0x256FD2A0, 0x5268E236, 0xCC0C7795, 0xBB0B4703, 0x220216B9, 0x5505262F,
   0xC5BA3BBE, 0xB2BD0B28, 0x2BB45A92, 0x5CB30A04, 0xC2D7FFA7, 0xB5D0CF31, 0x2CD99E8B, 0x5BDEAE1D,
   0x9B64C2B0, 0xEC63F226, 0x756AA39C, 0x026D930A, 0x9C0906A9, 0xEB0E363F, 0x72076785, 0x05005713,
   0x95BF4A82, 0xE2B87A14, 0x7BB12BAE, 0x0CB61B38, 0x92D28E9B, 0xE5D5BE0D, 0x7CDCEFB7, 0x0BDBDF21,
   0x86D3D2D4, 0xF1D4E242, 0x68DDB3F8, 0x1FDA836E, 0x81BE16CD, 0xF6B9265B, 0x6FB077E1, 0x18B74777,
   0x88085AE6, 0xFF0F6A70, 0x66063BCA, 0x11010B5C, 0x8F659EFF, 0xF862AE69, 0x616BFFD3, 0x166CCF45,
   0xA00AE278, 0xD70DD2EE, 0x4E048354, 0x3903B3C2, 0xA7672661, 0xD06016F7, 0x4969474D, 0x3E6E77DB,
   0xAED16A4A, 0xD9D65ADC, 0x40DF0B66, 0x37D83BF0, 0xA9BCAE53, 0xDEBB9EC5, 0x47B2CF7F, 0x30B5FFE9,
   0xBDBDF21C, 0xCABAC28A, 0x53B39330, 0x24B4A3A6, 0xBAD03605, 0xCDD70693, 0x54DE5729, 0x23D967BF,
   0xB3667A2E, 0xC4614AB8, 0x5D681B02, 0x2A6F2B94, 0xB40BBE37, 0xC30C8EA1, 0x5A05DF1B, 0x2D02EF8D]"

definition crc_init :: u32 where
  "crc_init = 0xFFFFFFFF"

text \<open>\<^verbatim>\<open>value_ = (value_ >> 8) ^ kTable[(value_ ^ p[i]) & 0xFF]\<close>\<close>

definition crc_byte :: "u32 \<Rightarrow> u8 \<Rightarrow> u32" where
  "crc_byte v b = drop_bit 8 v XOR kTable ! unat ((v XOR ucast b) AND 0xFF)"

primrec crc_Update :: "u32 \<Rightarrow> bytes \<Rightarrow> u32" where
  "crc_Update v [] = v"
| "crc_Update v (b # bs) = crc_Update (crc_byte v b) bs"

definition crc_Update_u32 :: "u32 \<Rightarrow> u32 \<Rightarrow> u32" where
  "crc_Update_u32 v w = crc_Update v (WriteUint32LE w)"

definition crc_Finalize :: "u32 \<Rightarrow> u32" where
  "crc_Finalize v = v XOR 0xFFFFFFFF"

text \<open>The usual sequence \<^verbatim>\<open>CRC32 c; c.Update(data, len); c.Finalize()\<close>.\<close>

definition crc32 :: "bytes \<Rightarrow> u32" where
  "crc32 bs = crc_Finalize (crc_Update crc_init bs)"

section \<open>The bitwise reference\<close>

definition crc_bit :: "u32 \<Rightarrow> u32" where
  "crc_bit c = (if bit c 0 then drop_bit 1 c XOR 0xEDB88320 else drop_bit 1 c)"

definition crc_bits8 :: "u32 \<Rightarrow> u32" where
  "crc_bits8 c = crc_bit (crc_bit (crc_bit (crc_bit (crc_bit (crc_bit (crc_bit (crc_bit c)))))))"

primrec crc_ref_Update :: "u32 \<Rightarrow> bytes \<Rightarrow> u32" where
  "crc_ref_Update v [] = v"
| "crc_ref_Update v (b # bs) = crc_ref_Update (crc_bits8 (v XOR ucast b)) bs"

section \<open>Algebra of the bitwise step\<close>

lemma crc_bit_xor: "crc_bit (x XOR y) = crc_bit x XOR crc_bit y"
  by (auto simp: crc_bit_def bit_xor_iff drop_bit_xor ac_simps)

lemma crc_bits8_xor: "crc_bits8 (x XOR y) = crc_bits8 x XOR crc_bits8 y"
  by (simp add: crc_bits8_def crc_bit_xor)

lemma crc_bit_even: "\<not> bit c 0 \<Longrightarrow> crc_bit c = drop_bit 1 c"
  by (simp add: crc_bit_def)

lemma crc_bits8_low_zero:
  assumes "\<forall>n < 8. \<not> bit c n"
  shows "crc_bits8 c = drop_bit 8 c"
proof -
  have s: "crc_bit (drop_bit k c) = drop_bit (Suc k) c" if "k < 8" for k
    using that assms by (simp add: crc_bit_even bit_drop_bit_eq)
  show ?thesis
    unfolding crc_bits8_def
    using s [of 0] s [of 1] s [of 2] s [of 3] s [of 4] s [of 5] s [of 6] s [of 7]
    by (simp add: eval_nat_numeral)
qed

lemma crc_bit_top: "bit (crc_bit c) 31 = bit c 0"
  by (auto simp: crc_bit_def bit_xor_iff bit_drop_bit_eq dest: bit_imp_le_length)

lemma crc_bit_inj:
  assumes "crc_bit c = crc_bit d"
  shows "c = d"
proof (rule bit_word_eqI)
  fix n :: nat
  assume n: "n < LENGTH(32)"
  have low: "bit c 0 = bit d 0"
    using assms crc_bit_top [of c] crc_bit_top [of d] by simp
  then have "drop_bit 1 c = drop_bit 1 d"
    using assms by (auto simp: crc_bit_def xor_right_cancel split: if_splits)
  then have "bit (drop_bit 1 c) (n - 1) = bit (drop_bit 1 d) (n - 1)"
    by simp
  with low show "bit c n = bit d n"
    by (cases n) (simp_all add: bit_drop_bit_eq)
qed

lemma crc_bits8_inj: "crc_bits8 c = crc_bits8 d \<Longrightarrow> c = d"
  unfolding crc_bits8_def by (blast dest: crc_bit_inj)

section \<open>The table against the polynomial\<close>

text \<open>
  By linearity an entry of the reference table is the exclusive or of the entries of its bits,
  so eight evaluations of the bitwise reference and one exclusive or per entry establish the
  whole table. The table of the source agrees with it except at index 187, where it has
  \<open>0x5CB30A04\<close> for \<open>0x5CB36A04\<close>.
\<close>

definition bit_sum :: "u32 list \<Rightarrow> u32 list" where
  "bit_sum ps = fold (\<lambda>p acc. acc @ map ((XOR) p) acc) ps [0]"

lemma crc_bits8_powers:
  "crc_bits8 1 = 0x77073096" "crc_bits8 2 = 0xEE0E612C" "crc_bits8 4 = 0x076DC419"
  "crc_bits8 8 = 0x0EDB8832" "crc_bits8 16 = 0x1DB71064" "crc_bits8 32 = 0x3B6E20C8"
  "crc_bits8 64 = 0x76DC4190" "crc_bits8 128 = 0xEDB88320" "crc_bits8 0 = 0"
  by (simp_all add: crc_bits8_def crc_bit_def)

lemma map_crc_bits8_fold:
  "map crc_bits8 (fold (\<lambda>p acc. acc @ map ((XOR) p) acc) ps acc)
   = fold (\<lambda>p acc. acc @ map ((XOR) p) acc) (map crc_bits8 ps) (map crc_bits8 acc)"
  by (induction ps arbitrary: acc) (simp_all add: crc_bits8_xor comp_def)

lemma index_bit_sum: "map of_nat [0..<256] = bit_sum [1, 2, 4, 8, 16, 32, 64, 128]"
  by (simp add: bit_sum_def upt_conv_Cons)

lemma reference_table_bit_sum:
  "map (\<lambda>i. crc_bits8 (of_nat i)) [0..<256]
   = bit_sum [0x77073096, 0xEE0E612C, 0x076DC419, 0x0EDB8832, 0x1DB71064, 0x3B6E20C8,
       0x76DC4190, 0xEDB88320]"
proof -
  have "map (\<lambda>i. crc_bits8 (of_nat i)) [0..<256] = map crc_bits8 (map of_nat [0..<256])"
    by (simp only: map_map comp_def)
  also have "\<dots> = fold (\<lambda>p acc. acc @ map ((XOR) p) acc)
      (map crc_bits8 [1, 2, 4, 8, 16, 32, 64, 128]) (map crc_bits8 [0])"
    by (simp only: index_bit_sum bit_sum_def map_crc_bits8_fold)
  finally show ?thesis
    by (simp only: bit_sum_def list.map crc_bits8_powers)
qed

lemma kTable_bit_sum:
  "kTable = (bit_sum [0x77073096, 0xEE0E612C, 0x076DC419, 0x0EDB8832, 0x1DB71064, 0x3B6E20C8,
     0x76DC4190, 0xEDB88320])[187 := 0x5CB30A04]"
  by (simp add: bit_sum_def kTable_def)

lemma length_kTable: "length kTable = 256"
  by (simp add: kTable_def)

lemma kTable_nth:
  assumes "i < 256"
  shows "kTable ! i = (if i = 187 then 0x5CB30A04 else crc_bits8 (of_nat i))"
proof -
  have "kTable = (map (\<lambda>i. crc_bits8 (of_nat i)) [0..<256])[187 := 0x5CB30A04]"
    by (simp only: kTable_bit_sum reference_table_bit_sum)
  then have "kTable ! i = (map (\<lambda>i. crc_bits8 (of_nat i)) [0..<256])[187 := 0x5CB30A04] ! i"
    by (simp only:)
  with assms show ?thesis by (simp add: nth_list_update)
qed

section \<open>Every lookup index selects its own top byte\<close>

text \<open>
  The top bytes of the entries are pairwise different, that of entry 187 included. This alone
  makes an update step reversible and keeps a difference of two states visible for four bytes.
\<close>

lemma crc_bit_top_zero:
  assumes "drop_bit (31 - m) (crc_bit c) = 0" and "m < 32"
  shows "\<not> bit c 0 \<and> drop_bit (32 - m) c = 0"
proof -
  have "bit (drop_bit (31 - m) (crc_bit c)) m = False"
    using assms(1) by simp
  then have "\<not> bit (crc_bit c) 31"
    using assms(2) by (simp add: bit_drop_bit_eq)
  then have "\<not> bit c 0" by (simp add: crc_bit_top)
  moreover from this assms have "drop_bit (32 - m) c = 0"
    by (simp add: crc_bit_even drop_bit_drop_bit Suc_diff_le flip: Suc_diff_Suc)
  ultimately show ?thesis ..
qed

lemma crc_bits8_top_zero:
  assumes "drop_bit 24 (crc_bits8 c) = 0"
  shows "c AND 0xFF = 0"
proof -
  define s where "s k = (crc_bit ^^ k) c" for k
  have s_Suc: "s (Suc k) = crc_bit (s k)" for k by (simp add: s_def)
  have s8: "crc_bits8 c = s 8" by (simp add: s_def crc_bits8_def eval_nat_numeral)
  have zero: "drop_bit (24 + k) (s (8 - k)) = 0 \<and> (\<forall>i. 8 - k \<le> i \<and> i < 8 \<longrightarrow> \<not> bit (s i) 0)"
    if "k \<le> 8" for k
    using that
  proof (induction k)
    case 0
    have "drop_bit 24 (s 8) = 0" using assms by (simp only: s8)
    then show ?case by force
  next
    case (Suc k)
    have e: "Suc (7 - k) = 8 - k" "31 - (7 - k) = 24 + k" "32 - (7 - k) = 24 + Suc k"
      using Suc.prems by auto
    have "drop_bit (31 - (7 - k)) (crc_bit (s (7 - k))) = 0"
      using Suc by (simp only: s_Suc [symmetric] e)
    then have "\<not> bit (s (7 - k)) 0 \<and> drop_bit (32 - (7 - k)) (s (7 - k)) = 0"
      by (rule crc_bit_top_zero) simp
    moreover have "i = 7 - k \<or> 8 - k \<le> i" if "8 - Suc k \<le> i" for i
      using that by auto
    ultimately show ?case
      using Suc by (auto simp: e)
  qed
  have nb: "\<not> bit (s i) 0" if "i < 8" for i
    using zero [of 8] that by simp
  have low: "s i = drop_bit i c \<and> \<not> bit c i" if "i < 8" for i
    using that
  proof (induction i)
    case 0
    with nb [of 0] show ?case by (simp add: s_def)
  next
    case (Suc i)
    have "s (Suc i) = drop_bit (Suc i) c"
      using Suc by (simp add: s_Suc crc_bit_even bit_drop_bit_eq)
    with nb [OF Suc.prems] show ?case by (simp add: bit_drop_bit_eq)
  qed
  then show ?thesis
    unfolding mask_8_numeral
    by (intro bit_word_eqI) (auto simp: bit_and_iff bit_mask_iff)
qed

lemma kTable_top:
  assumes "i < 256"
  shows "drop_bit 24 (kTable ! i) = drop_bit 24 (crc_bits8 (of_nat i))"
proof (cases "i = 187")
  case True
  with assms show ?thesis by (simp add: kTable_nth crc_bits8_def crc_bit_def)
qed (use assms in \<open>simp add: kTable_nth\<close>)

lemma kTable_top_inj:
  assumes "i < 256" and "j < 256"
    and "drop_bit 24 (kTable ! i) = drop_bit 24 (kTable ! j)"
  shows "i = j"
proof -
  let ?z = "(of_nat i :: u32) XOR of_nat j"
  have "drop_bit 24 (crc_bits8 ?z) = 0"
    using assms by (simp add: kTable_top crc_bits8_xor drop_bit_xor)
  then have z: "?z AND mask 8 = 0"
    by (simp only: mask_8_numeral [symmetric] crc_bits8_top_zero)
  have "take_bit 8 (of_nat i :: u32) = take_bit 8 (of_nat j)"
  proof (rule bit_word_eqI)
    fix n
    have "\<not> bit (?z AND mask 8) n" using z by simp
    then show "bit (take_bit 8 (of_nat i :: u32)) n = bit (take_bit 8 (of_nat j :: u32)) n"
      by (auto simp: bit_take_bit_iff bit_and_iff bit_mask_iff bit_xor_iff)
  qed
  then have "unat (take_bit 8 (of_nat i :: u32)) = unat (take_bit 8 (of_nat j :: u32))"
    by simp
  with assms(1,2) show ?thesis
    by (simp add: unsigned_take_bit_eq unat_of_nat take_bit_nat_def)
qed

abbreviation crc_index :: "u32 \<Rightarrow> u8 \<Rightarrow> nat" where
  "crc_index v b \<equiv> unat ((v XOR ucast b) AND 0xFF)"

lemma crc_index_less: "crc_index v b < 256"
proof -
  have "crc_index v b \<le> unat (0xFF :: u32)"
    by (rule word_and_le1 [THEN word_le_nat_alt [THEN iffD1]])
  then show ?thesis by simp
qed

lemma crc_index_eqD:
  assumes "crc_index v b = crc_index w c"
  shows "(v XOR ucast b) AND 0xFF = (w XOR ucast c) AND 0xFF"
  using assms by (rule word_unat_eq_iff [THEN iffD2])

lemma crc_byte_top: "drop_bit 24 (crc_byte v b) = drop_bit 24 (kTable ! crc_index v b)"
  by (simp add: crc_byte_def drop_bit_xor drop_bit_beyond_length)

lemma crc_byte_index:
  assumes "drop_bit (8 * k) (crc_byte v b) = drop_bit (8 * k) (crc_byte w c)" and "k \<le> 3"
  shows "crc_index v b = crc_index w c"
proof -
  have "drop_bit (24 - 8 * k) (drop_bit (8 * k) (crc_byte v b))
      = drop_bit (24 - 8 * k) (drop_bit (8 * k) (crc_byte w c))"
    using assms(1) by simp
  then have "drop_bit 24 (crc_byte v b) = drop_bit 24 (crc_byte w c)"
    using assms(2) by (simp add: drop_bit_drop_bit)
  then show ?thesis
    by (intro kTable_top_inj crc_index_less) (simp add: crc_byte_top)
qed

lemma crc_byte_diff:
  assumes "drop_bit (8 * Suc k) v \<noteq> drop_bit (8 * Suc k) w" and "k \<le> 3"
  shows "drop_bit (8 * k) (crc_byte v b) \<noteq> drop_bit (8 * k) (crc_byte w c)"
proof
  assume eq: "drop_bit (8 * k) (crc_byte v b) = drop_bit (8 * k) (crc_byte w c)"
  have "crc_index v b = crc_index w c"
    by (rule crc_byte_index [OF eq assms(2)])
  with eq have "drop_bit (8 * k) (drop_bit 8 v) = drop_bit (8 * k) (drop_bit 8 w)"
    by (simp add: crc_byte_def drop_bit_xor xor_right_cancel)
  with assms(1) show False by (simp add: add.commute)
qed

lemma low_byte_split: "(x :: u32) AND 0xFF = y AND 0xFF \<Longrightarrow> drop_bit 8 x = drop_bit 8 y \<Longrightarrow> x = y"
proof (rule bit_word_eqI)
  fix n
  assume l: "x AND 0xFF = y AND 0xFF" and h: "drop_bit 8 x = drop_bit 8 y"
  show "bit x n = bit y n"
  proof (cases "n < 8")
    case True
    have "bit (x AND mask 8) n = bit (y AND mask 8) n"
      using l by (simp only: mask_8_numeral)
    with True show ?thesis by (simp add: bit_and_iff bit_mask_iff)
  next
    case False
    have "bit (drop_bit 8 x) (n - 8) = bit (drop_bit 8 y) (n - 8)"
      using h by simp
    with False show ?thesis by (simp add: bit_drop_bit_eq)
  qed
qed

lemma crc_byte_inj:
  assumes "crc_byte v b = crc_byte w b"
  shows "v = w"
proof -
  have i: "crc_index v b = crc_index w b"
    using crc_byte_index [of 0 v b w b] assms by simp
  then have "drop_bit 8 v = drop_bit 8 w"
    using assms by (simp add: crc_byte_def xor_right_cancel)
  then have "drop_bit 8 (v XOR ucast b) = drop_bit 8 (w XOR ucast b)"
    by (simp add: drop_bit_xor)
  with crc_index_eqD [OF i] have "v XOR ucast b = w XOR ucast b"
    by (rule low_byte_split)
  then show ?thesis by (simp add: xor_right_cancel)
qed

lemma crc_byte_inj_byte:
  assumes "b \<noteq> c"
  shows "drop_bit 24 (crc_byte v b) \<noteq> drop_bit 24 (crc_byte v c)"
proof
  assume "drop_bit 24 (crc_byte v b) = drop_bit 24 (crc_byte v c)"
  then have "crc_index v b = crc_index v c"
    using crc_byte_index [of 3 v b v c] by simp
  then have low: "(v XOR ucast b) AND 0xFF = (v XOR ucast c) AND 0xFF"
    by (rule crc_index_eqD)
  have "drop_bit 8 (v XOR ucast x) = drop_bit 8 v" for x :: u8
    by (rule bit_word_eqI) (auto simp: bit_simps dest: bit_imp_le_length)
  then have "drop_bit 8 (v XOR ucast b) = drop_bit 8 (v XOR ucast c)"
    by (simp only:)
  with low have "v XOR ucast b = v XOR ucast c"
    by (rule low_byte_split)
  then have "(ucast b :: u32) = ucast c"
    by (simp add: xor_left_cancel)
  then show False
    using assms by (simp add: ucast_u8_u32_inject)
qed

section \<open>Corruptions of up to four consecutive bytes are detected\<close>

lemma crc_Update_append: "crc_Update v (xs @ ys) = crc_Update (crc_Update v xs) ys"
  by (induction xs arbitrary: v) simp_all

lemma crc_Update_inj: "crc_Update v bs = crc_Update w bs \<Longrightarrow> v = w"
  by (induction bs arbitrary: v w) (auto dest: crc_byte_inj)

lemma crc_Update_diff:
  assumes "drop_bit (8 * k) v \<noteq> drop_bit (8 * k) w" and "k \<le> 3"
    and "length us = length vs" and "length us \<le> k"
  shows "crc_Update v us \<noteq> crc_Update w vs"
  using assms(3,1,2,4)
proof (induction us vs arbitrary: k v w rule: list_induct2)
  case Nil
  then show ?case by auto
next
  case (Cons b us c vs)
  then obtain j where k: "k = Suc j" by (cases k) auto
  have "drop_bit (8 * j) (crc_byte v b) \<noteq> drop_bit (8 * j) (crc_byte w c)"
    using Cons.prems(1,2) unfolding k by (intro crc_byte_diff) simp_all
  then show ?case
    using Cons.IH [of j "crc_byte v b" "crc_byte w c"] Cons.prems k by simp
qed

lemma crc_Update_burst:
  assumes "length us = length vs" and "length us \<le> 4" and "us \<noteq> vs"
  shows "crc_Update v us \<noteq> crc_Update v vs"
  using assms
proof (induction us vs arbitrary: v rule: list_induct2)
  case Nil
  then show ?case by simp
next
  case (Cons b us c vs)
  show ?case
  proof (cases "b = c")
    case True
    with Cons show ?thesis by simp
  next
    case False
    then have "drop_bit (8 * 3) (crc_byte v b) \<noteq> drop_bit (8 * 3) (crc_byte v c)"
      using crc_byte_inj_byte by simp
    with Cons.hyps Cons.prems show ?thesis
      by (simp add: crc_Update_diff [where k = 3])
  qed
qed

lemma crc32_burst:
  assumes "length us = length vs" and "length us \<le> 4" and "us \<noteq> vs"
  shows "crc32 (p @ us @ s) \<noteq> crc32 (p @ vs @ s)"
  using crc_Update_burst [OF assms]
  by (auto simp: crc32_def crc_Finalize_def xor_right_cancel crc_Update_append dest: crc_Update_inj)

section \<open>The checksum interface\<close>

text \<open>
  What the file formats rely on: a 32-bit checksum that tells two equally long byte strings
  apart when they differ in at most four consecutive bytes. A record is stored with its
  checksum in front; \<open>verified\<close> is the check the readers make.
\<close>

locale record_checksum =
  fixes sum :: "bytes \<Rightarrow> u32"
  assumes burst: "length us = length vs \<Longrightarrow> length us \<le> 4 \<Longrightarrow> us \<noteq> vs
    \<Longrightarrow> sum (p @ us @ s) \<noteq> sum (p @ vs @ s)"
begin

definition verified :: "bytes \<Rightarrow> bool" where
  "verified bs = (case ReadUint32LE bs of None \<Rightarrow> False | Some (c, body) \<Rightarrow> sum body = c)"

lemma verified_frame: "verified (WriteUint32LE (sum body) @ body)"
  by (simp add: verified_def codec_simps)

lemma corrupt_body_rejected:
  "length us = length vs \<Longrightarrow> length us \<le> 4 \<Longrightarrow> us \<noteq> vs
   \<Longrightarrow> \<not> verified (WriteUint32LE (sum (p @ us @ s)) @ p @ vs @ s)"
  using burst [of vs us p s] by (simp add: verified_def codec_simps)

lemma corrupt_checksum_rejected:
  "c \<noteq> sum body \<Longrightarrow> \<not> verified (WriteUint32LE c @ body)"
  by (auto simp: verified_def codec_simps)

end

interpretation crc: record_checksum crc32
  by unfold_locales (rule crc32_burst)

section \<open>The table against the polynomial\<close>

lemma crc_bits8_split: "crc_bits8 x = drop_bit 8 x XOR crc_bits8 (x AND 0xFF)"
proof -
  have x: "x = (push_bit 8 (drop_bit 8 x)) XOR (x AND 0xFF)"
    unfolding mask_8_numeral
    by (rule bit_word_eqI) (auto simp: bit_simps)
  have "crc_bits8 x = crc_bits8 (push_bit 8 (drop_bit 8 x)) XOR crc_bits8 (x AND 0xFF)"
    by (subst x) (rule crc_bits8_xor)
  moreover have "crc_bits8 (push_bit 8 (drop_bit 8 x)) = drop_bit 8 x"
    by (subst crc_bits8_low_zero, simp add: bit_simps, rule bit_word_eqI)
      (use bit_imp_le_length [of x] in \<open>fastforce simp: bit_simps\<close>)
  ultimately show ?thesis by simp
qed

lemma crc_byte_reference:
  "crc_byte v b = crc_bits8 (v XOR ucast b) \<longleftrightarrow> crc_index v b \<noteq> 187"
proof -
  have "drop_bit 8 (v XOR ucast b) = drop_bit 8 v"
    by (rule bit_word_eqI) (auto simp: bit_simps dest: bit_imp_le_length)
  then have "crc_bits8 (v XOR ucast b) = drop_bit 8 v XOR crc_bits8 ((v XOR ucast b) AND 0xFF)"
    by (simp add: crc_bits8_split [of "v XOR ucast b"])
  moreover have "crc_bits8 187 \<noteq> 0x5CB30A04"
    by code_simp
  moreover have "(v XOR ucast b) AND 0xFF = 187" if "crc_index v b = 187"
    using that by (intro word_unat_eq_iff [THEN iffD2]) simp
  ultimately show ?thesis
    using kTable_nth [OF crc_index_less [of v b]]
    by (auto simp: crc_byte_def xor_left_cancel)
qed

section \<open>Properties\<close>

text \<open>
  C37: the checksum that guards the log records and the blocks tells two equally long byte
  strings apart whenever they differ only inside a window of at most four bytes, whatever
  stands before and behind the window.
\<close>

theorem crc32_detects_burst:
  "length us = length vs \<Longrightarrow> length us \<le> 4 \<Longrightarrow> us \<noteq> vs
   \<Longrightarrow> crc32 (p @ us @ s) \<noteq> crc32 (p @ vs @ s)"
  by (rule crc32_burst)

theorem crc32_detects_burst_witness: "crc32 ([7] @ [1, 2] @ [9]) \<noteq> crc32 ([7] @ [1, 3] @ [9])"
  by (rule crc32_detects_burst) simp_all

text \<open>
  one step of \<open>Update\<close> agrees with the eight bit steps of the CRC-32 polynomial except
  when it looks up entry 187 of the table, which is wrong in the source.
\<close>

theorem crc_step_matches_polynomial:
  "crc_byte v b = crc_bits8 (v XOR ucast b) \<longleftrightarrow> unat ((v XOR ucast b) AND 0xFF) \<noteq> 187"
  by (rule crc_byte_reference)

end
