(* ===== verification/Kv_Types.thy ===== *)
theory Kv_Types
  imports Kv_Prelude
begin

text \<open>
  The data shared by all components: \<open>KeyValuePair\<close> and \<open>RangeBound\<close> of
  \<^verbatim>\<open>include/kvdb/types.hpp\<close> and the constants of \<^verbatim>\<open>include/kvdb/config.hpp\<close> that the
  modelled code uses.
\<close>

section \<open>Values\<close>

record KeyValuePair =
  kv_key :: bytes
  kv_value :: bytes
  kv_timestamp :: u64
  kv_is_tombstone :: bool

text \<open>The aggregate initialisation \<^verbatim>\<open>{key, value, timestamp}\<close>: the flag keeps its default.\<close>

definition mk_kv :: "bytes \<Rightarrow> bytes \<Rightarrow> u64 \<Rightarrow> KeyValuePair" where
  "mk_kv k v ts = \<lparr>kv_key = k, kv_value = v, kv_timestamp = ts, kv_is_tombstone = False\<rparr>"

record RangeBound =
  rb_key :: bytes
  rb_inclusive :: bool

definition rb_Inclusive :: "bytes \<Rightarrow> RangeBound" where
  "rb_Inclusive k = \<lparr>rb_key = k, rb_inclusive = True\<rparr>"

definition rb_Exclusive :: "bytes \<Rightarrow> RangeBound" where
  "rb_Exclusive k = \<lparr>rb_key = k, rb_inclusive = False\<rparr>"

definition rb_Unbounded :: RangeBound where
  "rb_Unbounded = \<lparr>rb_key = [], rb_inclusive = True\<rparr>"

definition IsUnbounded :: "RangeBound \<Rightarrow> bool" where
  "IsUnbounded b = (rb_key b = [])"

text \<open>
  \<open>SSTable::Metadata\<close>, the fields that the manifest stores; \<open>level\<close> is an \<^verbatim>\<open>int\<close>, kept as its
  32 bits. \<open>aborted_batch_ts\<close> is an \<^verbatim>\<open>unordered_set\<close>, a list without repetition here.
\<close>

record Metadata =
  md_filepath :: bytes
  manifest_seq :: u64
  entry_count :: u64
  min_key_len :: u32
  max_key_len :: u32
  md_file_size :: u64
  md_level :: u32
  aborted_batch_ts :: "u64 list"

text \<open>The outcome of a file write: complete, or failed after \<open>n\<close> bytes.\<close>

datatype io_result = Io_ok | Io_err nat

section \<open>Constants\<close>

definition kSSTableMagic :: u32 where
  "kSSTableMagic = 0x4B535354"

definition kSSTableFooterMagic :: u32 where
  "kSSTableFooterMagic = 0x4B454E44"

definition kSSTableVersion :: u32 where
  "kSSTableVersion = 6"

definition kSSTableBlockSize :: nat where
  "kSSTableBlockSize = 4096"

definition kCompressionNone :: u8 where
  "kCompressionNone = 0"

definition kCompressionSnappy :: u8 where
  "kCompressionSnappy = 1"

definition kMaxKeyValuePairBytes :: nat where
  "kMaxKeyValuePairBytes = 4 * 1024 * 1024"

definition kPageSize :: nat where
  "kPageSize = 4096"

definition kMaxKeyBytes :: nat where
  "kMaxKeyBytes = 1024"

definition kMemTableEntryOverheadBytes :: nat where
  "kMemTableEntryOverheadBytes = 64"

definition kWALCheckpointSentinel :: u32 where
  "kWALCheckpointSentinel = 0xFFFFFFFF"

definition kWALMinSyncBytes :: nat where
  "kWALMinSyncBytes = 4 * 1024 * 1024"

definition kMaxLevel :: nat where
  "kMaxLevel = 7"

definition kDefaultCompactionThreshold :: nat where
  "kDefaultCompactionThreshold = 8"

definition kLevelSizeMultiplier :: nat where
  "kLevelSizeMultiplier = 10"

definition kLevelBaseSSTableSize :: nat where
  "kLevelBaseSSTableSize = 4 * 1024 * 1024"

definition kDefaultBatchIncrementGap :: u64 where
  "kDefaultBatchIncrementGap = 1000000"

section \<open>Text\<close>

definition str :: "string \<Rightarrow> bytes" where
  "str s = map (of_nat \<circ> of_char) s"

text \<open>\<^verbatim>\<open>std::to_string\<close> of an unsigned number.\<close>

fun dec_digits :: "nat \<Rightarrow> bytes" where
  "dec_digits n = (if n < 10 then [of_nat (48 + n)] else dec_digits (n div 10) @ [of_nat (48 + n mod 10)])"

declare dec_digits.simps [simp del]

definition is_digit :: "u8 \<Rightarrow> bool" where
  "is_digit b \<longleftrightarrow> 48 \<le> b \<and> b \<le> 57"

text \<open>
  \<^verbatim>\<open>std::stoull\<close> on text without leading blanks or sign: the digits at the front; \<open>None\<close> is an
  exception, for no digit at all or a number that does not fit 64 bits.
\<close>

definition stoull :: "bytes \<Rightarrow> nat option" where
  "stoull s = (let ds = takeWhile is_digit s; n = foldl (\<lambda>n b. 10 * n + (unat b - 48)) 0 ds
     in if ds = [] \<or> n \<ge> 2 ^ 64 then None else Some n)"

lemma digit_byte:
  assumes "d < 10"
  shows "is_digit (of_nat (48 + d))" "unat (of_nat (48 + d) :: u8) = 48 + d"
proof -
  show u: "unat (of_nat (48 + d) :: u8) = 48 + d" using assms by (intro unat_of_nat_small) simp
  show "is_digit (of_nat (48 + d))" using assms unfolding is_digit_def word_le_nat_alt u by simp
qed

lemma dec_digits_value:
  "foldl (\<lambda>n b. 10 * n + (unat b - 48)) 0 (dec_digits n) = n" "\<forall>b \<in> set (dec_digits n). is_digit b" "dec_digits n \<noteq> []"
proof (induction n rule: dec_digits.induct)
  case (1 n)
  {
    case 1
    show ?case using "1.IH"(1) digit_byte [of n] digit_byte [of "n mod 10"] by (subst dec_digits.simps) (simp del: of_nat_add)
  next
    case 2
    show ?case using "1.IH"(2) digit_byte [of n] digit_byte [of "n mod 10"] by (subst dec_digits.simps) (simp del: of_nat_add)
  next
    case 3
    show ?case by (subst dec_digits.simps) simp
  }
qed

lemma stoull_dec_digits:
  assumes "n < 2 ^ 64" and "r = [] \<or> \<not> is_digit (hd r)"
  shows "stoull (dec_digits n @ r) = Some n"
proof -
  have "takeWhile is_digit r = []" using assms(2) by (cases r) auto
  then have "takeWhile is_digit (dec_digits n @ r) = dec_digits n" using dec_digits_value(2) [of n] by simp
  with assms(1) dec_digits_value(1,3) [of n] show ?thesis by (simp add: stoull_def Let_def)
qed

end
