(* ===== verification/Wal.thy ===== *)
theory Wal
  imports Crc32 Kv_Types "HOL-Library.Monad_Syntax"
begin

text \<open>
  The write-ahead log of \<^verbatim>\<open>src/wal.cpp\<close>: the state of \<^verbatim>\<open>class WAL\<close>, the operations that
  append records to its buffer, \<open>Sync\<close>, the two passes of \<open>Recover\<close>, \<open>Clear\<close> and
  \<open>TrimToLastCheckpoint\<close>.

  The parsers of the source hold the file in a buffer and a position \<^verbatim>\<open>pos\<close>; here the
  cursor is the suffix of the buffer at \<^verbatim>\<open>pos\<close>, so \<^verbatim>\<open>pos + n > file_data.size()\<close> is
  \<^verbatim>\<open>length rest < n\<close>. The file system is explicit: a write can fail after some bytes, an open
  can fail. Hosts are little-endian, so \<^verbatim>\<open>crc.Update(&key_len, 4)\<close> feeds the same four bytes
  that \<open>WriteUint32LE\<close> stores.
\<close>

section \<open>State and records\<close>

record wal =
  wal_file :: bytes
  write_buf :: bytes
  batch_seq :: u64
  synced_seq :: u64
  buffered_entries :: u64
  synced_entries :: u64

definition wal_open :: "bytes \<Rightarrow> wal" where
  "wal_open f = \<lparr>wal_file = f, write_buf = [], batch_seq = 0, synced_seq = 0,
     buffered_entries = 0, synced_entries = 0\<rparr>"

definition wal_body :: "bytes \<Rightarrow> bytes \<Rightarrow> u64 \<Rightarrow> bytes" where
  "wal_body k v ts = WriteUint32LE (of_nat (length k)) @ k
     @ WriteUint32LE (of_nat (length v)) @ v @ WriteUint64LE ts"

definition SerializeRecord :: "bytes \<Rightarrow> bytes \<Rightarrow> bytes \<Rightarrow> u64 \<Rightarrow> bytes" where
  "SerializeRecord buf k v ts
   = buf @ WriteUint32LE (crc32 (wal_body k v ts)) @ wal_body k v ts"

definition WriteSentinelRecord :: "u32 \<Rightarrow> u64 \<Rightarrow> bytes \<Rightarrow> bytes" where
  "WriteSentinelRecord sentinel ts buf_out =
     (let body = WriteUint32LE sentinel @ WriteUint64LE ts
      in buf_out @ WriteUint32LE (crc32 body) @ body)"

section \<open>Appending to the buffer\<close>

definition wal_Buffer :: "bytes \<Rightarrow> bytes \<Rightarrow> u64 \<Rightarrow> wal \<Rightarrow> wal" where
  "wal_Buffer k v ts w = w\<lparr>write_buf := SerializeRecord (write_buf w) k v ts,
     batch_seq := batch_seq w + 1, buffered_entries := buffered_entries w + 1\<rparr>"

definition wal_BufferAbort :: "u64 \<Rightarrow> wal \<Rightarrow> wal" where
  "wal_BufferAbort ts w = w\<lparr>write_buf := WriteSentinelRecord 0xFFFFFFFE ts (write_buf w)\<rparr>"

definition wal_BufferBatchBegin :: "u64 \<Rightarrow> wal \<Rightarrow> wal" where
  "wal_BufferBatchBegin ts w = w\<lparr>write_buf := WriteSentinelRecord 0xFFFFFFFA ts (write_buf w)\<rparr>"

definition wal_BufferBatchCommit :: "u64 \<Rightarrow> wal \<Rightarrow> wal" where
  "wal_BufferBatchCommit ts w = w\<lparr>write_buf := WriteSentinelRecord 0xFFFFFFFC ts (write_buf w),
     batch_seq := batch_seq w + 1\<rparr>"

definition wal_WriteCheckpoint :: "u64 \<Rightarrow> u64 \<Rightarrow> wal \<Rightarrow> wal" where
  "wal_WriteCheckpoint ts batch_ts w =
     (let body = WriteUint32LE kWALCheckpointSentinel @ WriteUint64LE ts @ WriteUint64LE batch_ts
      in w\<lparr>write_buf := write_buf w @ WriteUint32LE (crc32 body) @ body,
           batch_seq := batch_seq w + 1\<rparr>)"

section \<open>Sync\<close>

text \<open>
  \<open>Sync\<close> releases the mutex while it writes, so it is two atomic steps: \<open>wal_Sync_begin\<close> up to
  \<^verbatim>\<open>lock.unlock()\<close>, which returns early or takes the buffer out, and \<open>wal_Sync_end\<close> from
  \<^verbatim>\<open>lock.lock()\<close> on. The write in between appends to the file; \<open>Io_err n\<close> is a write that
  fails after \<open>n\<close> bytes, on which \<open>Sync\<close> throws.
\<close>

record sync_result =
  sr_seq :: u64
  sr_persisted :: bool

record sync_job =
  sj_data :: bytes
  sj_batch :: u64
  sj_entries :: u64

datatype wal_error = WalWriteFailed | WalReopenFailed

definition wal_Sync_begin :: "bool \<Rightarrow> wal \<Rightarrow> wal \<times> (sync_result + sync_job)" where
  "wal_Sync_begin force w =
     (if write_buf w = [] then (w, Inl \<lparr>sr_seq = synced_seq w, sr_persisted = False\<rparr>)
      else if \<not> force \<and> length (write_buf w) < kWALMinSyncBytes
        then (w\<lparr>synced_seq := batch_seq w\<rparr>, Inl \<lparr>sr_seq = batch_seq w, sr_persisted = False\<rparr>)
      else (w\<lparr>write_buf := []\<rparr>,
            Inr \<lparr>sj_data = write_buf w, sj_batch = batch_seq w, sj_entries = buffered_entries w\<rparr>))"

definition wal_Sync_write :: "sync_job \<Rightarrow> io_result \<Rightarrow> wal \<Rightarrow> wal" where
  "wal_Sync_write j io w = w\<lparr>wal_file := wal_file w
     @ (case io of Io_ok \<Rightarrow> sj_data j | Io_err n \<Rightarrow> take n (sj_data j))\<rparr>"

definition wal_Sync_end :: "sync_job \<Rightarrow> wal \<Rightarrow> wal \<times> sync_result" where
  "wal_Sync_end j w =
     (let w' = w\<lparr>synced_seq := sj_batch j, synced_entries := synced_entries w + sj_entries j,
                 buffered_entries := 0\<rparr>
      in (w', \<lparr>sr_seq = synced_seq w', sr_persisted = True\<rparr>))"

text \<open>One call with nothing interleaved.\<close>

definition wal_Sync :: "bool \<Rightarrow> io_result \<Rightarrow> wal \<Rightarrow> wal \<times> (wal_error + sync_result)" where
  "wal_Sync force io w =
     (case wal_Sync_begin force w of
        (w1, Inl r) \<Rightarrow> (w1, Inr r)
      | (w1, Inr j) \<Rightarrow>
          (let w2 = wal_Sync_write j io w1
           in case io of
                Io_err _ \<Rightarrow> (w2, Inl WalWriteFailed)
              | Io_ok \<Rightarrow> (case wal_Sync_end j w2 of (w3, r) \<Rightarrow> (w3, Inr r))))"

definition wal_CurrentBatchSeq :: "wal \<Rightarrow> u64" where
  "wal_CurrentBatchSeq w = batch_seq w"

definition wal_IsSynced :: "u64 \<Rightarrow> wal \<Rightarrow> bool" where
  "wal_IsSynced seq w = (seq \<le> synced_seq w)"

definition wal_EntryCount :: "wal \<Rightarrow> u64" where
  "wal_EntryCount w = synced_entries w + buffered_entries w"

definition wal_HasData :: "wal \<Rightarrow> bool" where
  "wal_HasData w = (synced_entries w > 0 \<or> write_buf w \<noteq> [])"

section \<open>Recovery: first pass\<close>

text \<open>
  One key-value record behind its checksum and key length: the lengths are checked against the
  bytes left, then the checksum. Both passes contain this code.
\<close>

definition wal_entry :: "u32 \<Rightarrow> u32 \<Rightarrow> bytes \<Rightarrow> (KeyValuePair \<times> bytes) option" where
  "wal_entry checksum key_len r = do {
     (key, r1) \<leftarrow> read_bytes (unat key_len) r;
     (value_len, r2) \<leftarrow> ReadUint32LE r1;
     (val, r3) \<leftarrow> read_bytes (unat value_len) r2;
     (tsb, r4) \<leftarrow> read_bytes 8 r3;
     if crc32 (WriteUint32LE key_len @ key @ WriteUint32LE value_len @ val @ tsb) \<noteq> checksum
     then None else Some (mk_kv key val (rd64 tsb 0), r4) }"

text \<open>What the first pass keeps: where the second one starts (the bytes behind the last
  checkpoint, \<^verbatim>\<open>last_checkpoint_end\<close>), the checkpoint's timestamp and its open batch.\<close>

record wal_ckpt =
  ck_rest :: bytes
  ck_found_ts :: u64
  ck_batch_ts :: u64

text \<open>One iteration: \<open>None\<close> is \<^verbatim>\<open>break\<close>; otherwise the new state and the new cursor.\<close>

definition wal_read1 :: "wal_ckpt \<Rightarrow> bytes \<Rightarrow> (wal_ckpt \<times> bytes) option" where
  "wal_read1 st rest = do {
     (checksum, r0) \<leftarrow> ReadUint32LE rest;
     (key_len, r) \<leftarrow> ReadUint32LE r0;
     if key_len = kWALCheckpointSentinel then
       (if length r < 8 then None
        else if 16 \<le> length r
             \<and> crc32 (WriteUint32LE key_len @ take 16 r) = checksum
        then Some (st\<lparr>ck_rest := drop 16 r, ck_found_ts := rd64 r 0, ck_batch_ts := rd64 r 8\<rparr>,
                   drop 16 r)
        else if crc32 (WriteUint32LE key_len @ take 8 r) = checksum
        then Some (st\<lparr>ck_rest := drop 8 r, ck_found_ts := rd64 r 0\<rparr>, drop 8 r)
        else Some (st, drop 8 r))
     else if key_len = 0xFFFFFFFE then
       (if length r < 8 then None else Some (st, drop 8 r))
     else map_option (\<lambda>(_, r4). (st, r4)) (wal_entry checksum key_len r) }"

lemma wal_entry_length: "wal_entry c kl r = Some (kv, r') \<Longrightarrow> length r' < length r"
  by (auto simp: wal_entry_def bind_eq_Some_conv split: if_splits dest!: read_lengths)

lemma wal_read1_length: "wal_read1 st rest = Some (st', rest') \<Longrightarrow> length rest' < length rest"
  by (auto simp: wal_read1_def bind_eq_Some_conv split: if_splits
      dest!: read_lengths wal_entry_length)

function wal_pass1 :: "wal_ckpt \<Rightarrow> bytes \<Rightarrow> wal_ckpt" where
  "wal_pass1 st rest = (case wal_read1 st rest of
     None \<Rightarrow> st | Some (st', rest') \<Rightarrow> wal_pass1 st' rest')"
  by pat_completeness auto
termination
  by (relation "measure (length \<circ> snd)") (auto dest: wal_read1_length)

declare wal_pass1.simps [simp del]

section \<open>Recovery: second pass\<close>

text \<open>
  The accumulators; the \<^verbatim>\<open>unordered_set\<close>s are lists without repetition, iterated in insertion
  order (the source's order is unspecified and only membership is used by the caller).
\<close>

record wal_scan =
  ws_results :: "KeyValuePair list"
  ws_opened :: "u64 list"
  ws_closed :: "u64 list"
  ws_has_entries :: "u64 list"
  ws_aborted :: "u64 list"

text \<open>The records of the log.\<close>

datatype wal_rec =
    WPut bytes bytes u64
  | WCkpt u64 u64
  | WBegin u64
  | WCommit u64
  | WAbort u64

text \<open>
  One iteration reads a record (\<open>None\<close> is \<^verbatim>\<open>break\<close>). On a checkpoint header it continues
  behind the header, without a record and without skipping the checkpoint's body.
\<close>

definition wal_next2 :: "bytes \<Rightarrow> (wal_rec option \<times> bytes) option" where
  "wal_next2 rest = do {
     (checksum, r0) \<leftarrow> ReadUint32LE rest;
     (key_len, r) \<leftarrow> ReadUint32LE r0;
     if key_len = kWALCheckpointSentinel then Some (None, r)
     else if key_len = 0xFFFFFFFA then
       map_option (\<lambda>(bts, r'). (Some (WBegin bts), r')) (ReadUint64LE r)
     else if key_len = 0xFFFFFFFC then
       map_option (\<lambda>(bts, r'). (Some (WCommit bts), r')) (ReadUint64LE r)
     else if key_len = 0xFFFFFFFE then
       map_option (\<lambda>(bts, r'). (Some (WAbort bts), r')) (ReadUint64LE r)
     else map_option (\<lambda>(kv, r'). (Some (WPut (kv_key kv) (kv_value kv) (kv_timestamp kv)), r'))
       (wal_entry checksum key_len r) }"

lemma wal_next2_length: "wal_next2 rest = Some (e, rest') \<Longrightarrow> length rest' < length rest"
  by (auto simp: wal_next2_def bind_eq_Some_conv split: if_splits
      dest!: read_lengths wal_entry_length)

text \<open>What the loop body does with the record.\<close>

fun wal_apply2 :: "wal_rec \<Rightarrow> wal_scan \<Rightarrow> wal_scan" where
  "wal_apply2 (WPut k v ts) st = st\<lparr>ws_results := ws_results st @ [mk_kv k v ts],
     ws_has_entries := List.insert ts (ws_has_entries st)\<rparr>"
| "wal_apply2 (WCkpt _ _) st = st"
| "wal_apply2 (WBegin bts) st = st\<lparr>ws_opened := List.insert bts (ws_opened st)\<rparr>"
| "wal_apply2 (WCommit bts) st = st\<lparr>ws_opened := removeAll bts (ws_opened st),
     ws_closed := List.insert bts (ws_closed st)\<rparr>"
| "wal_apply2 (WAbort bts) st = st\<lparr>ws_opened := removeAll bts (ws_opened st),
     ws_closed := List.insert bts (ws_closed st), ws_aborted := ws_aborted st @ [bts]\<rparr>"

function wal_pass2 :: "wal_scan \<Rightarrow> bytes \<Rightarrow> wal_scan" where
  "wal_pass2 st rest = (case wal_next2 rest of
     None \<Rightarrow> st
   | Some (None, rest') \<Rightarrow> wal_pass2 st rest'
   | Some (Some e, rest') \<Rightarrow> wal_pass2 (wal_apply2 e st) rest')"
  by pat_completeness auto
termination
  by (relation "measure (length \<circ> snd)") (auto dest: wal_next2_length)

declare wal_pass2.simps [simp del]

text \<open>Batches that were opened, have entries and were never closed are aborted.\<close>

definition wal_auto_abort :: "wal_scan \<Rightarrow> u64 list" where
  "wal_auto_abort st = ws_aborted st
     @ filter (\<lambda>ts. ts \<notin> set (ws_closed st) \<and> ts \<in> set (ws_has_entries st)) (ws_opened st)"

record wal_recovery =
  wr_entries :: "KeyValuePair list"
  wr_checkpoint_ts :: u64
  wr_aborted :: "u64 list"

definition wal_recover_file :: "bytes \<Rightarrow> wal_recovery" where
  "wal_recover_file fd =
     (let ck = wal_pass1 \<lparr>ck_rest = fd, ck_found_ts = 0, ck_batch_ts = 0\<rparr> fd;
          st0 = \<lparr>ws_results = [], ws_opened = (if ck_batch_ts ck \<noteq> 0 then [ck_batch_ts ck] else []),
                 ws_closed = [], ws_has_entries = [], ws_aborted = []\<rparr>;
          st = wal_pass2 st0 (ck_rest ck)
      in \<lparr>wr_entries = ws_results st, wr_checkpoint_ts = ck_found_ts ck,
          wr_aborted = wal_auto_abort st\<rparr>)"

text \<open>
  \<open>Recover\<close>: sync, read the file, run the passes, reset the counters. \<open>rd\<close> and \<open>ab\<close> say whether
  the file opens for reading and again for appending. On an unreadable or empty file the
  counters keep their values, as in the early returns of the source.
\<close>

definition wal_no_recovery :: wal_recovery where
  "wal_no_recovery = \<lparr>wr_entries = [], wr_checkpoint_ts = 0, wr_aborted = []\<rparr>"

definition wal_Recover ::
  "io_result \<Rightarrow> bool \<Rightarrow> bool \<Rightarrow> wal \<Rightarrow> wal \<times> (wal_error + wal_recovery)" where
  "wal_Recover io rd ab w =
     (case wal_Sync True io w of
        (w1, Inl e) \<Rightarrow> (w1, Inl e)
      | (w1, Inr _) \<Rightarrow>
          if \<not> rd then (w1, Inr wal_no_recovery)
          else if wal_file w1 = [] then (w1, Inr wal_no_recovery)
          else if \<not> ab then (w1, Inl WalReopenFailed)
          else (w1\<lparr>batch_seq := 0, synced_seq := 0, buffered_entries := 0, synced_entries := 0,
                   write_buf := []\<rparr>,
                Inr (wal_recover_file (wal_file w1))))"

section \<open>Clear and trim\<close>

definition wal_Clear :: "io_result \<Rightarrow> bool \<Rightarrow> wal \<Rightarrow> wal \<times> wal_error option" where
  "wal_Clear io wb w =
     (case wal_Sync True io w of
        (w1, Inl e) \<Rightarrow> (w1, Some e)
      | (w1, Inr _) \<Rightarrow>
          if \<not> wb then (w1, Some WalReopenFailed)
          else (w1\<lparr>wal_file := [], batch_seq := 0, synced_seq := 0, buffered_entries := 0,
                   synced_entries := 0\<rparr>, None))"

text \<open>One iteration of the loop of \<open>TrimToLastCheckpoint\<close>: the bytes behind the last checkpoint
  seen so far (\<open>None\<close> inside: no checkpoint yet) and the cursor.\<close>

definition wal_skip_entry :: "u32 \<Rightarrow> bytes \<Rightarrow> bytes option" where
  "wal_skip_entry key_len r = do {
     (_, r1) \<leftarrow> read_bytes (unat key_len) r;
     (value_len, r2) \<leftarrow> ReadUint32LE r1;
     (_, r3) \<leftarrow> read_bytes (unat value_len) r2;
     map_option snd (read_bytes 8 r3) }"

definition wal_trim_read :: "bytes option \<Rightarrow> bytes \<Rightarrow> (bytes option \<times> bytes) option" where
  "wal_trim_read tail rest = do {
     (checksum, r0) \<leftarrow> ReadUint32LE rest;
     (key_len, r) \<leftarrow> ReadUint32LE r0;
     if key_len = kWALCheckpointSentinel then
       (if length r < 8 then None
        else if crc32 (WriteUint32LE key_len @ take 8 r) = checksum
        then Some (Some (drop 8 r), drop 8 r)
        else Some (tail, drop 8 r))
     else map_option (\<lambda>r4. (tail, r4)) (wal_skip_entry key_len r) }"

lemma wal_skip_entry_length: "wal_skip_entry kl r = Some r' \<Longrightarrow> length r' < length r"
  by (auto simp: wal_skip_entry_def bind_eq_Some_conv dest!: read_lengths)

lemma wal_trim_read_length:
  "wal_trim_read tail rest = Some (tail', rest') \<Longrightarrow> length rest' < length rest"
  by (auto simp: wal_trim_read_def bind_eq_Some_conv split: if_splits
      dest!: read_lengths wal_skip_entry_length)

function wal_trim_scan :: "bytes option \<Rightarrow> bytes \<Rightarrow> bytes option" where
  "wal_trim_scan tail rest = (case wal_trim_read tail rest of
     None \<Rightarrow> tail | Some (tail', rest') \<Rightarrow> wal_trim_scan tail' rest')"
  by pat_completeness auto
termination
  by (relation "measure (length \<circ> snd)") (auto dest: wal_trim_read_length)

declare wal_trim_scan.simps [simp del]

definition wal_TrimToLastCheckpoint ::
  "io_result \<Rightarrow> bool \<Rightarrow> bool \<Rightarrow> wal \<Rightarrow> wal \<times> wal_error option" where
  "wal_TrimToLastCheckpoint io rd ab w =
     (case wal_Sync True io w of
        (w1, Inl e) \<Rightarrow> (w1, Some e)
      | (w1, Inr _) \<Rightarrow>
          if \<not> rd then (w1, None)
          else if wal_file w1 = [] then (w1, None)
          else let t0 = wal_trim_scan None (wal_file w1);
                   w2 = (case t0 of None \<Rightarrow> w1 | Some t \<Rightarrow> w1\<lparr>wal_file := t\<rparr>)
               in if \<not> ab then (w2, Some WalReopenFailed)
                  else (w2\<lparr>batch_seq := 0, synced_seq := 0, buffered_entries := 0,
                           synced_entries := 0, write_buf := []\<rparr>, None))"

section \<open>The record format\<close>

text \<open>The bytes of each record: a checksum and the payload it covers.\<close>

fun wal_payload :: "wal_rec \<Rightarrow> bytes" where
  "wal_payload (WPut k v ts) = wal_body k v ts"
| "wal_payload (WCkpt ts bts) = WriteUint32LE kWALCheckpointSentinel @ WriteUint64LE ts @ WriteUint64LE bts"
| "wal_payload (WBegin ts) = WriteUint32LE 0xFFFFFFFA @ WriteUint64LE ts"
| "wal_payload (WCommit ts) = WriteUint32LE 0xFFFFFFFC @ WriteUint64LE ts"
| "wal_payload (WAbort ts) = WriteUint32LE 0xFFFFFFFE @ WriteUint64LE ts"

definition wal_enc :: "wal_rec \<Rightarrow> bytes" where
  "wal_enc r = WriteUint32LE (crc32 (wal_payload r)) @ wal_payload r"

definition wal_log :: "wal_rec list \<Rightarrow> bytes" where
  "wal_log rs = concat (map wal_enc rs)"

text \<open>Lengths fit their fields and a key length is not mistaken for a sentinel.\<close>

fun wal_ok :: "wal_rec \<Rightarrow> bool" where
  "wal_ok (WPut k v ts) = (length k < 0xFFFFFFFA \<and> length v < 2 ^ 32)"
| "wal_ok _ = True"

text \<open>The operation that appends a record.\<close>

fun wal_do :: "wal_rec \<Rightarrow> wal \<Rightarrow> wal" where
  "wal_do (WPut k v ts) = wal_Buffer k v ts"
| "wal_do (WCkpt ts bts) = wal_WriteCheckpoint ts bts"
| "wal_do (WBegin ts) = wal_BufferBatchBegin ts"
| "wal_do (WCommit ts) = wal_BufferBatchCommit ts"
| "wal_do (WAbort ts) = wal_BufferAbort ts"

lemma wal_log_simps [simp]:
  "wal_log [] = []" "wal_log (r # rs) = wal_enc r @ wal_log rs"
  "wal_log (xs @ ys) = wal_log xs @ wal_log ys"
  by (simp_all add: wal_log_def)

lemma wal_do_buf [simp]: "write_buf (wal_do r w) = write_buf w @ wal_enc r"
  by (cases r) (simp_all add: wal_enc_def wal_Buffer_def SerializeRecord_def
      wal_BufferAbort_def wal_BufferBatchBegin_def wal_BufferBatchCommit_def
      wal_WriteCheckpoint_def WriteSentinelRecord_def Let_def)

lemma wal_do_file [simp]:
  "wal_file (wal_do r w) = wal_file w" "synced_seq (wal_do r w) = synced_seq w"
  by (cases r; simp add: wal_Buffer_def wal_BufferAbort_def wal_BufferBatchBegin_def
      wal_BufferBatchCommit_def wal_WriteCheckpoint_def Let_def)+

declare wal_do.simps [simp del]

lemma wal_enc_not_Nil [simp]: "wal_enc r \<noteq> []"
  by (simp add: wal_enc_def WriteUint32LE_def)

lemma wal_body_entry:
  assumes "length k < 2 ^ 32" and "length v < 2 ^ 32"
  shows "wal_entry c (of_nat (length k)) (drop 4 (wal_body k v ts) @ bs)
    = (if crc32 (wal_body k v ts) = c then Some (mk_kv k v ts, bs) else None)"
proof -
  have "rd64 (WriteUint64LE ts) 0 = ts"
    using rd64_at [of "[]" 0 ts "[]"] by simp
  then show ?thesis
    using assms by (simp add: wal_entry_def wal_body_def unat_of_nat_small codec_simps)
qed

lemma wal_sentinel_free:
  assumes "n < 0xFFFFFFFA"
  shows "(of_nat n :: u32) \<noteq> 0xFFFFFFFA \<and> (of_nat n :: u32) \<noteq> 0xFFFFFFFC
    \<and> (of_nat n :: u32) \<noteq> 0xFFFFFFFE \<and> (of_nat n :: u32) \<noteq> 0xFFFFFFFF"
proof -
  have "unat (of_nat n :: u32) = n" using assms by (intro unat_of_nat_small) simp
  with assms show ?thesis by (auto dest: arg_cong [of _ _ unat])
qed

lemma wal_body_split: "wal_body k v ts = WriteUint32LE (of_nat (length k)) @ drop 4 (wal_body k v ts)"
  by (simp add: wal_body_def)

lemma wal_entry_torn:
  assumes "length k < 2 ^ 32" and "length v < 2 ^ 32" and "n < length k + length v + 12"
  shows "wal_entry c (of_nat (length k)) (take n (drop 4 (wal_body k v ts))) = None"
proof -
  consider "n < length k" | "length k \<le> n" "n < length k + 4"
    | "length k + 4 \<le> n" "n < length k + length v + 4" | "length k + length v + 4 \<le> n"
    by linarith
  then show ?thesis
    using assms
    by cases (simp_all add: wal_entry_def wal_body_def read_shorts codec_simps unat_of_nat_small)
qed

fun is_ckpt :: "wal_rec \<Rightarrow> bool" where
  "is_ckpt (WCkpt _ _) = True"
| "is_ckpt _ = False"

fun is_mark :: "wal_rec \<Rightarrow> bool" where
  "is_mark (WBegin _) = True"
| "is_mark (WCommit _) = True"
| "is_mark _ = False"

text \<open>The records that the second pass sees, for the proofs: the pass is a fold over them.\<close>

function wal_scan2 :: "bytes \<Rightarrow> wal_rec list" where
  "wal_scan2 rest = (case wal_next2 rest of
     None \<Rightarrow> [] | Some (None, rest') \<Rightarrow> wal_scan2 rest' | Some (Some e, rest') \<Rightarrow> e # wal_scan2 rest')"
  by pat_completeness auto
termination
  by (relation "measure length") (auto dest: wal_next2_length)

declare wal_scan2.simps [simp del]

lemma wal_pass2_fold: "wal_pass2 st bs = fold wal_apply2 (wal_scan2 bs) st"
  by (induction st bs rule: wal_pass2.induct)
    (subst wal_pass2.simps, subst wal_scan2.simps, auto split: option.splits)

lemma kWALCheckpointSentinel_num: "kWALCheckpointSentinel = 0xFFFFFFFF"
  by (simp add: kWALCheckpointSentinel_def)

lemma wal_next2_put:
  assumes "length k < 0xFFFFFFFA"
  shows "wal_next2 (WriteUint32LE c @ WriteUint32LE (of_nat (length k)) @ bs)
    = map_option (\<lambda>(kv, r'). (Some (WPut (kv_key kv) (kv_value kv) (kv_timestamp kv)), r'))
       (wal_entry c (of_nat (length k)) bs)"
  using wal_sentinel_free [OF assms]
  by (simp add: wal_next2_def codec_simps kWALCheckpointSentinel_num)

lemma wal_next2_enc:
  assumes "wal_ok r" and "\<not> is_ckpt r"
  shows "wal_next2 (wal_enc r @ bs) = Some (Some r, bs)"
proof (cases r)
  case (WPut k v ts)
  with assms have b: "length k < 0xFFFFFFFA" "length v < 2 ^ 32" by auto
  have "wal_enc r @ bs = WriteUint32LE (crc32 (wal_body k v ts))
      @ WriteUint32LE (of_nat (length k)) @ drop 4 (wal_body k v ts) @ bs"
    using WPut wal_body_split [of k v ts] by (simp add: wal_enc_def)
  with b WPut show ?thesis
    by (simp add: wal_next2_put wal_body_entry mk_kv_def)
qed (use assms in \<open>simp_all add: wal_enc_def wal_next2_def codec_simps kWALCheckpointSentinel_num\<close>)

lemma wal_next2_torn:
  assumes "wal_ok r" and "\<not> is_ckpt r" and "n < length (wal_enc r)"
  shows "wal_next2 (take n (wal_enc r)) = None"
proof -
  consider "n < 4" | "4 \<le> n" "n < 8" | "8 \<le> n" by linarith
  then show ?thesis
  proof cases
    case 1
    then show ?thesis by (simp add: wal_next2_def read_shorts)
  next
    case 2
    then show ?thesis by (simp add: wal_next2_def wal_enc_def codec_simps read_shorts)
  next
    case 3
    show ?thesis
    proof (cases r)
      case (WPut k v ts)
      with assms have b: "length k < 0xFFFFFFFA" "length v < 2 ^ 32" by auto
      have "take n (wal_enc r) = WriteUint32LE (crc32 (wal_body k v ts))
          @ WriteUint32LE (of_nat (length k)) @ take (n - 8) (drop 4 (wal_body k v ts))"
        using WPut 3 wal_body_split [of k v ts] by (simp add: wal_enc_def) (simp add: wal_body_def)
      moreover have "n - 8 < length k + length v + 12"
        using assms(3) WPut 3 by (simp add: wal_enc_def wal_body_def)
      ultimately show ?thesis
        using b by (simp add: wal_next2_put wal_entry_torn)
    qed (use assms 3 in \<open>simp_all add: wal_enc_def wal_next2_def codec_simps
        kWALCheckpointSentinel_num read_shorts\<close>)
  qed
qed

lemma wal_next2_nil: "wal_next2 [] = None"
  by (simp add: wal_next2_def)

interpretation wlog: record_log wal_enc wal_scan2 "\<lambda>r. wal_ok r \<and> \<not> is_ckpt r"
proof (unfold_locales, goal_cases)
  case (1 r bs)
  then show ?case by (subst wal_scan2.simps) (simp add: wal_next2_enc)
next
  case 2
  then show ?case by (subst wal_scan2.simps) (simp add: wal_next2_nil)
next
  case (3 r n)
  then show ?case by (subst wal_scan2.simps) (simp add: wal_next2_torn)
qed

lemma wal_read1_put:
  assumes "length k < 0xFFFFFFFA"
  shows "wal_read1 st (WriteUint32LE c @ WriteUint32LE (of_nat (length k)) @ bs)
    = map_option (\<lambda>(_, r4). (st, r4)) (wal_entry c (of_nat (length k)) bs)"
  using wal_sentinel_free [OF assms]
  by (simp add: wal_read1_def codec_simps kWALCheckpointSentinel_num)

lemma wal_read1_enc:
  assumes "wal_ok r" and "\<not> is_ckpt r" and "\<not> is_mark r"
  shows "wal_read1 st (wal_enc r @ bs) = Some (st, bs)"
proof (cases r)
  case (WPut k v ts)
  with assms have b: "length k < 0xFFFFFFFA" "length v < 2 ^ 32" by auto
  have "wal_enc r @ bs = WriteUint32LE (crc32 (wal_body k v ts))
      @ WriteUint32LE (of_nat (length k)) @ drop 4 (wal_body k v ts) @ bs"
    using WPut wal_body_split [of k v ts] by (simp add: wal_enc_def)
  with b show ?thesis
    by (simp add: wal_read1_put wal_body_entry)
qed (use assms in \<open>simp_all add: wal_enc_def wal_read1_def codec_simps kWALCheckpointSentinel_num\<close>)

lemma wal_read1_ckpt:
  "wal_read1 st (wal_enc (WCkpt ts bts) @ bs)
   = Some (st\<lparr>ck_rest := bs, ck_found_ts := ts, ck_batch_ts := bts\<rparr>, bs)"
  using rd64_at [of "[]" 0 ts "WriteUint64LE bts @ bs"] rd64_at [of "WriteUint64LE ts" 8 bts bs]
  by (simp add: wal_read1_def wal_enc_def codec_simps)

text \<open>The first pass takes a batch mark for an entry with a key of almost 4 GiB and stops there.\<close>

lemma wal_read1_mark:
  assumes "is_mark r" and "length bs + 8 < 0xFFFFFFFA"
  shows "wal_read1 st (wal_enc r @ bs) = None"
  using assms
  by (cases r) (simp_all add: wal_enc_def wal_read1_def codec_simps kWALCheckpointSentinel_num
      wal_entry_def read_shorts)

lemma wal_read1_short:
  assumes "length bs < 8"
  shows "wal_read1 st bs = None"
proof (cases "ReadUint32LE bs")
  case (Some p)
  obtain c r0 where p: "p = (c, r0)" by force
  with Some assms have "length r0 < 4" by (auto dest: read_lengths)
  with Some p show ?thesis by (simp add: wal_read1_def read_shorts)
qed (simp add: wal_read1_def)

lemma wal_read1_torn:
  assumes "wal_ok r" and "\<not> is_ckpt r" and "n < length (wal_enc r)" and "n < 0xFFFFFFFA"
  shows "wal_read1 st (take n (wal_enc r)) = None"
proof (cases "n < 8")
  case True
  then show ?thesis by (simp add: wal_read1_short)
next
  case n: False
  show ?thesis
  proof (cases r)
    case (WPut k v ts)
    with assms have b: "length k < 0xFFFFFFFA" "length v < 2 ^ 32" by auto
    have "take n (wal_enc r) = WriteUint32LE (crc32 (wal_body k v ts))
        @ WriteUint32LE (of_nat (length k)) @ take (n - 8) (drop 4 (wal_body k v ts))"
      using WPut n wal_body_split [of k v ts] by (simp add: wal_enc_def) (simp add: wal_body_def)
    moreover have "n - 8 < length k + length v + 12"
      using assms(3) WPut n by (simp add: wal_enc_def wal_body_def)
    ultimately show ?thesis
      using b by (simp add: wal_read1_put wal_entry_torn)
  qed (use assms n in \<open>simp_all add: wal_enc_def wal_read1_def codec_simps
      kWALCheckpointSentinel_num read_shorts wal_entry_def\<close>)
qed

lemma wal_pass1_pre:
  assumes "\<forall>r \<in> set pre. wal_ok r \<and> \<not> is_mark r"
  shows "wal_pass1 st (wal_log (pre @ [WCkpt ts bts]) @ bs)
    = wal_pass1 (st\<lparr>ck_rest := bs, ck_found_ts := ts, ck_batch_ts := bts\<rparr>) bs"
  using assms
proof (induction pre arbitrary: st)
  case Nil
  show ?case by (subst wal_pass1.simps) (simp add: wal_read1_ckpt)
next
  case (Cons r pre)
  show ?case
  proof (cases r)
    case (WCkpt t b)
    with Cons show ?thesis
      by (subst wal_pass1.simps) (simp add: wal_read1_ckpt)
  qed (use Cons in \<open>subst wal_pass1.simps, simp add: wal_read1_enc\<close>)+
qed

lemma wal_pass1_post:
  assumes "\<forall>r \<in> set post. wal_ok r \<and> \<not> is_ckpt r" and "length (wal_log post) < 0xFFFFFFFA"
  shows "wal_pass1 st (take k (wal_log post)) = st"
  using assms
proof (induction post arbitrary: k)
  case Nil
  show ?case by (subst wal_pass1.simps) (simp add: wal_read1_short)
next
  case (Cons r post)
  consider "k < length (wal_enc r)" | "length (wal_enc r) \<le> k" "is_mark r"
    | "length (wal_enc r) \<le> k" "\<not> is_mark r" by linarith
  then show ?case
  proof cases
    case 1
    with Cons.prems show ?thesis
      by (subst wal_pass1.simps) (simp add: wal_read1_torn)
  next
    case 2
    then have "length (wal_enc r) = 16" by (cases r) (simp_all add: wal_enc_def)
    with Cons.prems have "length (take (k - length (wal_enc r)) (wal_log post)) + 8 < 0xFFFFFFFA"
      by simp
    with 2 Cons.prems show ?thesis
      by (subst wal_pass1.simps) (simp add: wal_read1_mark)
  next
    case 3
    with Cons show ?thesis
      by (subst wal_pass1.simps) (simp add: wal_read1_enc)
  qed
qed

section \<open>What recovery promises\<close>

fun rec_entry :: "wal_rec \<Rightarrow> KeyValuePair list" where
  "rec_entry (WPut k v ts) = [mk_kv k v ts]"
| "rec_entry _ = []"

definition wal_spec_entries :: "wal_rec list \<Rightarrow> KeyValuePair list" where
  "wal_spec_entries rs = concat (map rec_entry rs)"

definition wal_spec_aborted :: "u64 \<Rightarrow> wal_rec list \<Rightarrow> u64 set" where
  "wal_spec_aborted bts rs = {t. WAbort t \<in> set rs}
     \<union> {t. (WBegin t \<in> set rs \<or> t = bts \<and> t \<noteq> 0) \<and> WCommit t \<notin> set rs \<and> WAbort t \<notin> set rs
           \<and> t \<in> kv_timestamp ` set (wal_spec_entries rs)}"

lemma wal_spec_entries_simps [simp]:
  "wal_spec_entries [] = []" "wal_spec_entries (r # rs) = rec_entry r @ wal_spec_entries rs"
  "wal_spec_entries (rs @ rs') = wal_spec_entries rs @ wal_spec_entries rs'"
  by (simp_all add: wal_spec_entries_def)

definition wal_scan0 :: "u64 \<Rightarrow> wal_scan" where
  "wal_scan0 bts = \<lparr>ws_results = [], ws_opened = (if bts \<noteq> 0 then [bts] else []),
     ws_closed = [], ws_has_entries = [], ws_aborted = []\<rparr>"

lemma fold_apply2:
  fixes bts rs
  defines "st \<equiv> fold wal_apply2 rs (wal_scan0 bts)"
  shows "ws_results st = wal_spec_entries rs"
    and "set (ws_aborted st) = {t. WAbort t \<in> set rs}"
    and "set (ws_closed st) = {t. WCommit t \<in> set rs \<or> WAbort t \<in> set rs}"
    and "set (ws_has_entries st) = kv_timestamp ` set (wal_spec_entries rs)"
    and "set (ws_opened st) - set (ws_closed st)
      = {t. (WBegin t \<in> set rs \<or> t = bts \<and> t \<noteq> 0) \<and> WCommit t \<notin> set rs \<and> WAbort t \<notin> set rs}"
  unfolding st_def
proof (induction rs rule: rev_induct)
  case (snoc r rs)
  case 1
  with snoc show ?case by (cases r) auto
next
  case (snoc r rs)
  case 2
  with snoc show ?case by (cases r) auto
next
  case (snoc r rs)
  case 3
  with snoc show ?case by (cases r) auto
next
  case (snoc r rs)
  case 4
  with snoc show ?case by (cases r) (auto simp: mk_kv_def)
next
  case (snoc r rs)
  case 5
  with snoc show ?case by (cases r) auto
qed (auto simp: wal_scan0_def)

lemma wal_auto_abort_set:
  "set (wal_auto_abort st) = set (ws_aborted st)
     \<union> ((set (ws_opened st) - set (ws_closed st)) \<inter> set (ws_has_entries st))"
  by (auto simp: wal_auto_abort_def)

lemma wal_auto_abort_fold:
  "set (wal_auto_abort (fold wal_apply2 rs (wal_scan0 bts))) = wal_spec_aborted bts rs"
  unfolding wal_auto_abort_set fold_apply2(2) fold_apply2(5) fold_apply2(4) wal_spec_aborted_def
  by auto

lemma wal_recover_file_scan:
  "wal_recover_file fd = (let ck = wal_pass1 \<lparr>ck_rest = fd, ck_found_ts = 0, ck_batch_ts = 0\<rparr> fd;
      st = fold wal_apply2 (wal_scan2 (ck_rest ck)) (wal_scan0 (ck_batch_ts ck))
    in \<lparr>wr_entries = ws_results st, wr_checkpoint_ts = ck_found_ts ck, wr_aborted = wal_auto_abort st\<rparr>)"
  by (simp add: wal_recover_file_def wal_scan0_def wal_pass2_fold Let_def)

text \<open>\<open>wal_recovered ts bts rs R\<close>: \<open>R\<close> is the outcome that the records \<open>rs\<close> behind the checkpoint
  \<open>(ts, bts)\<close> call for.\<close>

definition wal_recovered :: "u64 \<Rightarrow> u64 \<Rightarrow> wal_rec list \<Rightarrow> wal_recovery \<Rightarrow> bool" where
  "wal_recovered ts bts rs R \<longleftrightarrow> wr_entries R = wal_spec_entries rs
     \<and> wr_checkpoint_ts R = ts \<and> set (wr_aborted R) = wal_spec_aborted bts rs"

lemma wal_recover_from:
  assumes "wal_pass1 \<lparr>ck_rest = fd, ck_found_ts = 0, ck_batch_ts = 0\<rparr> fd
      = \<lparr>ck_rest = r, ck_found_ts = ts, ck_batch_ts = bts\<rparr>"
  shows "wal_recovered ts bts (wal_scan2 r) (wal_recover_file fd)"
  using assms
  by (simp add: wal_recovered_def wal_recover_file_scan Let_def fold_apply2(1) wal_auto_abort_fold)

lemma wal_cut_scan:
  assumes "\<forall>r \<in> set post. wal_ok r \<and> \<not> is_ckpt r"
  shows "\<exists>m \<le> length post. wal_scan2 (take k (wal_log post)) = take m post"
    and "length (wal_log post) \<le> k \<Longrightarrow> wal_scan2 (take k (wal_log post)) = post"
  using wlog.scan_cut [OF assms] wlog.scan_log [OF assms] by (simp_all add: wal_log_def)

lemma wal_recover_ckpt_cut:
  assumes "\<forall>r \<in> set pre. wal_ok r \<and> \<not> is_mark r"
    and "\<forall>r \<in> set post. wal_ok r \<and> \<not> is_ckpt r" and "length (wal_log post) < 0xFFFFFFFA"
  shows "wal_recovered ts bts (wal_scan2 (take k (wal_log post)))
    (wal_recover_file (wal_log (pre @ [WCkpt ts bts]) @ take k (wal_log post)))"
  using wal_pass1_pre [OF assms(1)] wal_pass1_post [OF assms(2,3)]
  by (intro wal_recover_from) simp

lemma wal_recover_cut:
  assumes "\<forall>r \<in> set post. wal_ok r \<and> \<not> is_ckpt r" and "length (wal_log post) < 0xFFFFFFFA"
  shows "wal_recovered 0 0 (wal_scan2 (take k (wal_log post))) (wal_recover_file (take k (wal_log post)))"
  using wal_pass1_post [OF assms] by (intro wal_recover_from) simp

section \<open>Concurrent appends and syncs\<close>

text \<open>
  The calls of \<^verbatim>\<open>class WAL\<close> as atomic steps of any number of threads: an append under the mutex, the
  locked part of \<open>Sync\<close> that returns early or takes the buffer out, the write without the mutex,
  which may fail and end the call, and the locked part behind it. \<open>js\<close> are the calls of \<open>Sync\<close> that
  have taken a buffer out, each with a flag that its write is done; at most \<open>m\<close> of them overlap.
  \<open>lost\<close> are the buffers whose write failed; the error flag of the stream, by which later calls can fail
  too, is left out, so the relation has more behaviours than the code. \<open>F\<close> holds the values of \<^verbatim>\<open>force\<close> the callers use, \<open>f0\<close>
  is the file at the start, \<open>rs\<close> the records appended so far.
\<close>

inductive wal_reach ::
  "bool set \<Rightarrow> nat \<Rightarrow> bytes \<Rightarrow> wal_rec list \<Rightarrow> wal \<Rightarrow> (sync_job \<times> bool) list \<Rightarrow> bytes list \<Rightarrow> bool"
  for F m f0 where
  start: "wal_reach F m f0 [] (wal_open f0) [] []"
| append: "wal_reach F m f0 rs w js lost \<Longrightarrow> wal_reach F m f0 (rs @ [r]) (wal_do r w) js lost"
| sync_skip: "wal_reach F m f0 rs w js lost \<Longrightarrow> force \<in> F \<Longrightarrow> wal_Sync_begin force w = (w', Inl res)
    \<Longrightarrow> wal_reach F m f0 rs w' js lost"
| sync_begin: "wal_reach F m f0 rs w js lost \<Longrightarrow> force \<in> F \<Longrightarrow> length js < m
    \<Longrightarrow> wal_Sync_begin force w = (w', Inr j) \<Longrightarrow> wal_reach F m f0 rs w' (js @ [(j, False)]) lost"
| sync_write: "wal_reach F m f0 rs w (js @ (j, False) # js') lost
    \<Longrightarrow> wal_reach F m f0 rs (wal_Sync_write j Io_ok w) (js @ (j, True) # js') lost"
| sync_fail: "wal_reach F m f0 rs w (js @ (j, False) # js') lost
    \<Longrightarrow> wal_reach F m f0 rs (wal_Sync_write j (Io_err n) w) (js @ js') (sj_data j # lost)"
| sync_end: "wal_reach F m f0 rs w (js @ (j, True) # js') lost
    \<Longrightarrow> wal_reach F m f0 rs (fst (wal_Sync_end j w)) (js @ js') lost"

fun bumps_seq :: "wal_rec \<Rightarrow> bool" where
  "bumps_seq (WBegin _) = False"
| "bumps_seq (WAbort _) = False"
| "bumps_seq _ = True"

definition seq_of :: "wal_rec list \<Rightarrow> nat" where
  "seq_of rs = length (filter bumps_seq rs)"

lemma seq_of_simps [simp]:
  "seq_of [] = 0" "seq_of (rs @ rs') = seq_of rs + seq_of rs'"
  "seq_of (r # rs) = (if bumps_seq r then 1 else 0) + seq_of rs"
  by (simp_all add: seq_of_def)

lemma seq_of_le: "seq_of rs \<le> length rs"
  by (simp add: seq_of_def)

lemma wal_do_batch_seq: "batch_seq (wal_do r w) = batch_seq w + (if bumps_seq r then 1 else 0)"
  by (cases r) (simp_all add: wal_do.simps wal_Buffer_def wal_BufferAbort_def wal_BufferBatchBegin_def
      wal_BufferBatchCommit_def wal_WriteCheckpoint_def Let_def)

lemmas wal_Sync_defs = wal_Sync_begin_def wal_Sync_write_def wal_Sync_end_def

lemma wal_Sync_begin_forced:
  "wal_Sync_begin True w = (w', Inl res) \<Longrightarrow> w' = w"
  "wal_Sync_begin True w = (w', Inr j)
    \<Longrightarrow> w' = w\<lparr>write_buf := []\<rparr> \<and> sj_data j = write_buf w \<and> sj_batch j = batch_seq w"
  by (auto simp: wal_Sync_begin_def split: if_splits)

text \<open>\<open>s\<close> is the number of one of the first \<open>n\<close> records, or none.\<close>

definition seq_upto :: "wal_rec list \<Rightarrow> nat \<Rightarrow> u64 \<Rightarrow> bool" where
  "seq_upto rs n s \<longleftrightarrow> (\<exists>k \<le> n. s = of_nat (seq_of (take k rs)))"

lemma seq_upto_all: "seq_upto rs (length rs) (of_nat (seq_of rs))"
  unfolding seq_upto_def by (intro exI [of _ "length rs"]) simp

lemma seq_upto_mono: "seq_upto rs n s \<Longrightarrow> n \<le> n' \<Longrightarrow> seq_upto rs n' s"
  unfolding seq_upto_def by (metis order_trans)

lemma seq_upto_append: "seq_upto rs n s \<Longrightarrow> n \<le> length rs \<Longrightarrow> seq_upto (rs @ [r]) n s"
  unfolding seq_upto_def by (metis append.right_neutral diff_is_0_eq order_trans take0 take_append)

definition contained :: "bytes \<Rightarrow> bytes \<Rightarrow> bool" where
  "contained x b \<longleftrightarrow> (\<exists>u v. b = u @ x @ v)"

lemma contained_append: "contained x b \<Longrightarrow> contained x (b @ c)" "contained x c \<Longrightarrow> contained x (b @ c)"
  unfolding contained_def by (metis append.assoc)+

text \<open>The record is in the file, in the buffer of a \<open>Sync\<close> that has not written yet, or in one whose write failed.\<close>

definition wal_kept :: "wal_rec \<Rightarrow> wal \<Rightarrow> (sync_job \<times> bool) list \<Rightarrow> bytes list \<Rightarrow> bool" where
  "wal_kept r w js lost \<longleftrightarrow> contained (wal_enc r) (wal_file w)
     \<or> (\<exists>j. (j, False) \<in> set js \<and> contained (wal_enc r) (sj_data j)) \<or> (\<exists>d \<in> set lost. contained (wal_enc r) d)"

text \<open>The invariant for any number of calls: \<open>n\<close> records have left the buffer.\<close>

definition wal_taken :: "wal_rec list \<Rightarrow> wal \<Rightarrow> (sync_job \<times> bool) list \<Rightarrow> bytes list \<Rightarrow> nat \<Rightarrow> bool" where
  "wal_taken rs w js lost n \<longleftrightarrow> n \<le> length rs \<and> write_buf w = wal_log (drop n rs) \<and> batch_seq w = of_nat (seq_of rs)
     \<and> seq_upto rs n (synced_seq w) \<and> (\<forall>(j, b) \<in> set js. seq_upto rs n (sj_batch j)) \<and> (\<forall>r \<in> set (take n rs). wal_kept r w js lost)"

lemma contained_wal_log: "r \<in> set rs \<Longrightarrow> contained (wal_enc r) (wal_log rs)"
  unfolding contained_def by (metis split_list wal_log_simps(2,3))

lemma wal_taken_begin:
  assumes "wal_taken rs w js lost n" and "wal_Sync_begin True w = (w', Inr j)"
  shows "wal_taken rs w' (js @ [(j, False)]) lost (length rs)"
proof -
  have w': "w' = w\<lparr>write_buf := []\<rparr>" "sj_data j = wal_log (drop n rs)" "sj_batch j = of_nat (seq_of rs)"
    using wal_Sync_begin_forced(2) [OF assms(2)] assms(1) by (simp_all add: wal_taken_def)
  have "wal_kept r w' (js @ [(j, False)]) lost" if "r \<in> set rs" for r
  proof (cases "r \<in> set (take n rs)")
    case True
    then show ?thesis using assms(1) unfolding w'(1) wal_taken_def wal_kept_def by auto
  next
    case False
    then have "r \<in> set (drop n rs)" using that by (metis Un_iff append_take_drop_id set_append)
    then show ?thesis using contained_wal_log [of r "drop n rs"] unfolding wal_kept_def w'(2) [symmetric] by auto
  qed
  with assms(1) show ?thesis
    unfolding wal_taken_def by (auto simp: w' seq_upto_all intro: seq_upto_mono)
qed

lemma wal_reach_taken:
  assumes "wal_reach {True} m f0 rs w js lost"
  shows "\<exists>n. wal_taken rs w js lost n"
  using assms
proof (induction rule: wal_reach.induct)
  case start
  show ?case by (intro exI [of _ 0]) (simp add: wal_taken_def wal_open_def seq_upto_def)
next
  case (append rs w js lost r)
  then obtain n where n: "wal_taken rs w js lost n" by blast
  then have "wal_taken (rs @ [r]) (wal_do r w) js lost n"
    by (auto simp: wal_taken_def wal_do_batch_seq wal_kept_def seq_upto_append)
  then show ?case ..
next
  case (sync_skip rs w js lost force w' res)
  then show ?case using wal_Sync_begin_forced(1) by blast
next
  case (sync_begin rs w js lost force w' j)
  then show ?case using wal_taken_begin by blast
next
  case (sync_write rs w js j js' lost)
  then obtain n where n: "wal_taken rs w (js @ (j, False) # js') lost n" by blast
  have "wal_kept r (wal_Sync_write j Io_ok w) (js @ (j, True) # js') lost" if "wal_kept r w (js @ (j, False) # js') lost" for r
    using that by (auto simp: wal_kept_def wal_Sync_write_def contained_append)
  then have "wal_taken rs (wal_Sync_write j Io_ok w) (js @ (j, True) # js') lost n"
    using n by (auto simp: wal_taken_def wal_Sync_write_def)
  then show ?case ..
next
  case (sync_fail rs w js j js' lost k)
  then obtain n where n: "wal_taken rs w (js @ (j, False) # js') lost n" by blast
  have "wal_kept r (wal_Sync_write j (Io_err k) w) (js @ js') (sj_data j # lost)" if "wal_kept r w (js @ (j, False) # js') lost" for r
    using that by (auto simp: wal_kept_def wal_Sync_write_def contained_append)
  then have "wal_taken rs (wal_Sync_write j (Io_err k) w) (js @ js') (sj_data j # lost) n"
    using n by (auto simp: wal_taken_def wal_Sync_write_def)
  then show ?case ..
next
  case (sync_end rs w js j js' lost)
  then obtain n where n: "wal_taken rs w (js @ (j, True) # js') lost n" by blast
  then have "wal_taken rs (fst (wal_Sync_end j w)) (js @ js') lost n"
    by (auto simp: wal_taken_def wal_Sync_end_def wal_kept_def Let_def)
  then show ?case ..
qed

text \<open>
  The invariant for calls that do not overlap: the file has the first \<open>n\<close> records, a call under way has those up to \<open>p\<close>.
\<close>

definition wal_in_order :: "bytes \<Rightarrow> wal_rec list \<Rightarrow> wal \<Rightarrow> (sync_job \<times> bool) list \<Rightarrow> nat \<Rightarrow> nat \<Rightarrow> bool" where
  "wal_in_order f0 rs w js n p \<longleftrightarrow> n \<le> p \<and> p \<le> length rs \<and> wal_file w = f0 @ wal_log (take n rs) \<and> write_buf w = wal_log (drop p rs)
     \<and> batch_seq w = of_nat (seq_of rs) \<and> seq_upto rs n (synced_seq w)
     \<and> (js = [] \<and> n = p
        \<or> (\<exists>j. js = [(j, False)] \<and> sj_data j = wal_log (drop n (take p rs)) \<and> sj_batch j = of_nat (seq_of (take p rs)))
        \<or> (\<exists>j. js = [(j, True)] \<and> n = p \<and> sj_batch j = of_nat (seq_of (take p rs))))"

lemma wal_log_take_drop: "n \<le> p \<Longrightarrow> wal_log (take n rs) @ wal_log (drop n (take p rs)) = wal_log (take p rs)"
  by (metis append_take_drop_id min.absorb1 take_take wal_log_simps(3))

lemma wal_reach_in_order:
  assumes "wal_reach {True} 1 f0 rs w js lost" and "lost = []"
  shows "\<exists>n p. wal_in_order f0 rs w js n p"
  using assms
proof (induction rule: wal_reach.induct)
  case start
  show ?case by (intro exI [of _ 0]) (simp add: wal_in_order_def wal_open_def seq_upto_def)
next
  case (append rs w js lost r)
  then obtain n p where n: "wal_in_order f0 rs w js n p" by blast
  then have "wal_in_order f0 (rs @ [r]) (wal_do r w) js n p"
    by (auto simp: wal_in_order_def wal_do_batch_seq seq_upto_append)
  then show ?case by blast
next
  case (sync_skip rs w js lost force w' res)
  then show ?case using wal_Sync_begin_forced(1) by blast
next
  case (sync_begin rs w js lost force w' j)
  then obtain n where n: "wal_in_order f0 rs w [] n n" and js: "js = []" by (auto simp: wal_in_order_def)
  have "wal_in_order f0 rs w' [(j, False)] n (length rs)"
    using n wal_Sync_begin_forced(2) [of w w' j] sync_begin.hyps by (auto simp: wal_in_order_def)
  then show ?case unfolding js by auto
next
  case (sync_write rs w js j js' lost)
  then obtain n p where n: "wal_in_order f0 rs w [(j, False)] n p" and js: "js = []" "js' = []"
    by (auto simp: wal_in_order_def Cons_eq_append_conv append_eq_Cons_conv)
  have "wal_in_order f0 rs (wal_Sync_write j Io_ok w) [(j, True)] p p"
    using n wal_log_take_drop [of n p rs] by (auto simp: wal_in_order_def wal_Sync_write_def intro: seq_upto_mono)
  then show ?case unfolding js by auto
next
  case (sync_end rs w js j js' lost)
  then obtain n where n: "wal_in_order f0 rs w [(j, True)] n n" and js: "js = []" "js' = []"
    by (auto simp: wal_in_order_def Cons_eq_append_conv append_eq_Cons_conv)
  have "wal_in_order f0 rs (fst (wal_Sync_end j w)) [] n n"
    using n by (auto simp: wal_in_order_def wal_Sync_end_def Let_def seq_upto_def)
  then show ?case unfolding js by auto
qed simp

lemma seq_upto_reached:
  assumes "seq_upto rs n s" and "of_nat (seq_of (take (Suc i) rs)) \<le> s" and "length rs < 2 ^ 64" and "i < length rs" and "bumps_seq (rs ! i)"
  shows "i < n"
proof -
  obtain k where k: "k \<le> n" "s = of_nat (seq_of (take k rs))" using assms(1) by (auto simp: seq_upto_def)
  have sm: "seq_of (take m rs) < 2 ^ 64" for m
    using seq_of_le [of "take m rs"] assms(3) by simp
  have "seq_of (take (Suc i) rs) \<le> seq_of (take k rs)"
    using assms(2) k(2) sm by (simp add: word_le_nat_alt unat_of_nat_small)
  moreover have "seq_of (take (Suc i) rs) = Suc (seq_of (take i rs))"
    using assms(4,5) by (simp add: take_Suc_conv_app_nth)
  moreover have "seq_of (take k rs) \<le> seq_of (take i rs)" if "k \<le> i"
  proof -
    have "take i rs = take k rs @ drop k (take i rs)"
      using that by (metis append_take_drop_id min.absorb1 take_take)
    then have "seq_of (take i rs) = seq_of (take k rs) + seq_of (drop k (take i rs))"
      by (metis seq_of_simps(2))
    then show ?thesis by simp
  qed
  ultimately show ?thesis using k(1) by linarith
qed

section \<open>Forced sync and recovery of one object\<close>

lemma wal_Sync_forced:
  "wal_Sync True Io_ok w = (if write_buf w = [] then (w, Inr \<lparr>sr_seq = synced_seq w, sr_persisted = False\<rparr>)
     else (w\<lparr>wal_file := wal_file w @ write_buf w, write_buf := [], synced_seq := batch_seq w,
             synced_entries := synced_entries w + buffered_entries w, buffered_entries := 0\<rparr>,
           Inr \<lparr>sr_seq = batch_seq w, sr_persisted = True\<rparr>))"
  by (simp add: wal_Sync_def wal_Sync_defs Let_def)

lemma wal_Recover_synced:
  assumes "wal_file w @ write_buf w \<noteq> []"
  shows "wal_Recover Io_ok True True w
    = (wal_open (wal_file w @ write_buf w), Inr (wal_recover_file (wal_file w @ write_buf w)))"
  using assms by (auto simp: wal_Recover_def wal_Sync_forced wal_open_def)

lemma wal_Trim_unchanged:
  assumes "wal_file w @ write_buf w \<noteq> []" and "wal_trim_scan None (wal_file w @ write_buf w) = None"
  shows "wal_TrimToLastCheckpoint Io_ok True True w = (wal_open (wal_file w @ write_buf w), None)"
  using assms by (auto simp: wal_TrimToLastCheckpoint_def wal_Sync_forced wal_open_def)

lemma fold_wal_do:
  "wal_file (fold wal_do rs w) = wal_file w \<and> write_buf (fold wal_do rs w) = write_buf w @ wal_log rs"
  by (induction rs arbitrary: w) (simp_all add: wal_do_buf)

fun ckpt_prefix :: "wal_rec list \<Rightarrow> u64 \<Rightarrow> u64 \<Rightarrow> bool" where
  "ckpt_prefix pre ts bts = ((\<forall>r \<in> set pre. wal_ok r \<and> \<not> is_mark r)
     \<and> (if pre = [] then ts = 0 \<and> bts = 0 else last pre = WCkpt ts bts))"

lemma wal_recover_log_cut:
  assumes "ckpt_prefix pre ts bts"
    and "\<forall>r \<in> set post. wal_ok r \<and> \<not> is_ckpt r" and "length (wal_log post) < 0xFFFFFFFA"
  shows "wal_recovered ts bts (wal_scan2 (take k (wal_log post)))
    (wal_recover_file (wal_log pre @ take k (wal_log post)))"
proof (cases "pre = []")
  case True
  with assms wal_recover_cut show ?thesis by simp
next
  case False
  with assms(1) have "pre = butlast pre @ [WCkpt ts bts]"
    by (metis append_butlast_last_id ckpt_prefix.simps)
  moreover have "\<forall>r \<in> set (butlast pre). wal_ok r \<and> \<not> is_mark r"
    using assms(1) by (auto dest: in_set_butlastD)
  ultimately show ?thesis
    using wal_recover_ckpt_cut [OF _ assms(2,3), of "butlast pre" ts bts k] by metis
qed

section \<open>Damaged records and misread checkpoints\<close>

lemma wal_damaged_put:
  assumes "length k' < 0xFFFFFFFA" and "length v' < 2 ^ 32"
    and "length k' = length k" and "length v' = length v"
    and "wal_body k v ts = p @ us @ s" and "wal_body k' v' ts' = p @ vs @ s"
    and "length us = length vs" and "length us \<le> 4" and "us \<noteq> vs"
  shows "wal_scan2 (WriteUint32LE (crc32 (wal_body k v ts)) @ wal_body k' v' ts' @ bs) = []"
proof -
  have "crc32 (wal_body k v ts) \<noteq> crc32 (wal_body k' v' ts')"
    unfolding assms(5,6) by (rule crc32_burst [OF assms(7-9)])
  then have "wal_next2 (WriteUint32LE (crc32 (wal_body k v ts)) @ wal_body k' v' ts' @ bs) = None"
    using assms(1,2) by (subst wal_body_split [of k']) (simp add: wal_next2_put wal_body_entry)
  then show ?thesis by (subst wal_scan2.simps) simp
qed

lemma wal_next2_ckpt:
  "wal_next2 (wal_enc (WCkpt ts bts) @ bs) = Some (None, WriteUint64LE ts @ WriteUint64LE bts @ bs)"
  by (simp add: wal_next2_def wal_enc_def codec_simps)

lemma WriteUint64LE_small:
  "WriteUint64LE (ucast (t :: u32)) = WriteUint32LE t @ [0, 0, 0, 0]"
proof -
  have h: "\<not> bit t (k + n)" if "32 \<le> k" for k n
    using bit_imp_le_length [of t "k + n"] that by auto
  show ?thesis
    using h [of 32] h [of 40] h [of 48] h [of 56]
    by (auto simp: WriteUint64LE_def WriteUint32LE_def bit_byte_at bit_simps intro!: bit_word_eqI)
qed

lemma WriteUint32LE_0: "WriteUint32LE 0 = [0, 0, 0, 0]"
  by (simp add: WriteUint32LE_def byte_at_def)

lemma WriteUint64LE_0: "WriteUint64LE 0 = [0, 0, 0, 0, 0, 0, 0, 0]"
  by (simp add: WriteUint64LE_def byte_at_def)

lemma wal_scan2_ckpt:
  assumes "4 \<le> length bs" and "crc32 (replicate 12 0 @ take 4 bs) \<noteq> t"
  shows "wal_scan2 (wal_enc (WCkpt (ucast t) 0) @ bs) = []"
proof -
  have z: "le32 0 0 0 0 = 0" by (simp add: le32_def)
  have "wal_entry t 0 (WriteUint64LE 0 @ bs) = None"
    using assms by (simp add: wal_entry_def WriteUint64LE_0 z read_bytes_def WriteUint32LE_0
        eval_nat_numeral)
  then have "wal_next2 (WriteUint64LE (ucast t) @ WriteUint64LE 0 @ bs) = None"
    by (simp add: WriteUint64LE_small wal_next2_def codec_simps z kWALCheckpointSentinel_num)
  then show ?thesis
    by (subst wal_scan2.simps) (simp add: wal_next2_ckpt, subst wal_scan2.simps, simp)
qed

lemma wal_pass1_mark:
  assumes "is_mark r" and "length bs + 8 < 0xFFFFFFFA"
  shows "wal_pass1 st (wal_enc r @ bs) = st"
  using assms by (subst wal_pass1.simps) (simp add: wal_read1_mark)

lemma length_ckpt: "length (wal_enc (WCkpt ts bts)) = 24"
  by (simp add: wal_enc_def)

lemma wal_batch_hides_ckpt:
  assumes "is_mark r" and "\<forall>r \<in> set pre. wal_ok r \<and> \<not> is_ckpt r"
    and "length (wal_log pre) + length bs + 36 < 0xFFFFFFFA"
    and "4 \<le> length bs" and "crc32 (replicate 12 0 @ take 4 bs) \<noteq> t"
  shows "wal_recovered 0 0 (r # pre) (wal_recover_file (wal_log (r # pre @ [WCkpt (ucast t) 0]) @ bs))"
proof -
  let ?f = "wal_log (r # pre @ [WCkpt (ucast t) 0]) @ bs"
  have "wal_pass1 \<lparr>ck_rest = ?f, ck_found_ts = 0, ck_batch_ts = 0\<rparr> ?f
      = \<lparr>ck_rest = ?f, ck_found_ts = 0, ck_batch_ts = 0\<rparr>"
    using assms(1,3) by (simp add: wal_pass1_mark length_ckpt)
  moreover have "wal_ok r \<and> \<not> is_ckpt r" using assms(1) by (cases r) auto
  then have "wal_scan2 ?f = r # pre"
    using assms(2) wlog.scan_append [of "r # pre" "wal_enc (WCkpt (ucast t) 0) @ bs"]
      wal_scan2_ckpt [OF assms(4,5)]
    by (simp add: wal_log_def)
  ultimately show ?thesis
    using wal_recover_from [of ?f ?f 0 0] by simp
qed

lemma wal_trim_put:
  assumes "length k < 0xFFFFFFFA" and "length v < 2 ^ 32"
  shows "wal_trim_scan t0 (wal_enc (WPut k v ts) @ bs) = wal_trim_scan t0 bs"
  using assms wal_sentinel_free [OF assms(1)]
  by (subst wal_trim_scan.simps)
    (simp add: wal_trim_read_def wal_enc_def wal_body_def wal_skip_entry_def codec_simps
      kWALCheckpointSentinel_num unat_of_nat_small)

lemma wal_trim_ckpt:
  assumes "crc32 (WriteUint32LE kWALCheckpointSentinel @ WriteUint64LE ts)
      \<noteq> crc32 (WriteUint32LE kWALCheckpointSentinel @ WriteUint64LE ts @ WriteUint64LE 0)"
  shows "wal_trim_scan None (wal_enc (WCkpt ts 0)) = None"
proof -
  have "wal_trim_read None (wal_enc (WCkpt ts 0)) = Some (None, WriteUint64LE 0)"
    using assms by (simp add: wal_trim_read_def wal_enc_def codec_simps)
  moreover have "wal_trim_read None (WriteUint64LE 0) = None"
    using ReadUint32LE_Write [of 0 "[0, 0, 0, 0]"] ReadUint32LE_Write [of 0 "[]"]
    by (simp add: wal_trim_read_def WriteUint64LE_0 WriteUint32LE_0 wal_skip_entry_def read_bytes_def
        kWALCheckpointSentinel_num)
  ultimately show ?thesis
    by (subst wal_trim_scan.simps) (simp, subst wal_trim_scan.simps, simp)
qed

section \<open>Properties\<close>

text \<open>
  C1: recovery after a crash. The file holds a complete prefix that ends in a checkpoint (or
  is empty) and has no batch begin or commit record (see \<open>wal_batch_hides_checkpoint\<close>), and, behind it, the
  records \<open>post\<close>, none of them a checkpoint, shorter than 0xFFFFFFFA bytes in all and cut at an arbitrary byte. Recovery returns the
  checkpoint's timestamp and exactly what the first \<open>m\<close> records of \<open>post\<close> call for: their
  entries in order, and as aborted the batches aborted explicitly and the open batches with
  entries and no commit. Nothing is lost when the cut is behind the last record.
\<close>

theorem wal_recovery_after_crash:
  assumes "ckpt_prefix pre ts bts"
    and "\<forall>r \<in> set post. wal_ok r \<and> \<not> is_ckpt r" and "length (wal_log post) < 0xFFFFFFFA"
  shows "\<exists>m \<le> length post. (length (wal_log post) \<le> k \<longrightarrow> m = length post)
    \<and> wal_recovered ts bts (take m post) (wal_recover_file (wal_log pre @ take k (wal_log post)))"
proof (cases "length (wal_log post) \<le> k")
  case True
  with wal_recover_log_cut [OF assms, of k] wal_cut_scan(2) [OF assms(2)] show ?thesis
    by (intro exI [of _ "length post"]) simp
next
  case False
  with wal_recover_log_cut [OF assms, of k] wal_cut_scan(1) [OF assms(2)] show ?thesis
    by (metis nle_le)
qed

theorem wal_recovery_after_crash_witness:
  "\<exists>m \<le> length [WPut [3] [4] 6, WAbort 6].
     (length (wal_log [WPut [3] [4] 6, WAbort 6]) \<le> 30 \<longrightarrow> m = length [WPut [3] [4] 6, WAbort 6])
   \<and> wal_recovered 5 0 (take m [WPut [3] [4] 6, WAbort 6])
     (wal_recover_file (wal_log [WPut [1] [2] 5, WCkpt 5 0]
        @ take 30 (wal_log [WPut [3] [4] 6, WAbort 6])))"
  by (rule wal_recovery_after_crash) (simp_all add: wal_enc_def wal_body_def)

text \<open>
  a \<open>WAL\<close> object replays what was appended to it. Append the records \<open>rs\<close> to a log that
  was empty and recover: the call succeeds, reports what \<open>rs\<close> calls for, and leaves the object
  as if freshly opened on the file with all of \<open>rs\<close>.
\<close>

theorem wal_append_recover:
  assumes "\<forall>r \<in> set rs. wal_ok r \<and> \<not> is_ckpt r" and "length (wal_log rs) < 0xFFFFFFFA" and "rs \<noteq> []"
  shows "\<exists>R. wal_Recover Io_ok True True (fold wal_do rs (wal_open [])) = (wal_open (wal_log rs), Inr R)
    \<and> wal_recovered 0 0 rs R"
proof -
  have "wal_log rs \<noteq> []" using assms(3) by (cases rs) (simp_all add: wal_enc_def WriteUint32LE_def)
  then show ?thesis
    using wal_Recover_synced [of "fold wal_do rs (wal_open [])"] fold_wal_do [of rs "wal_open []"]
      wal_recover_cut [OF assms(1,2), of "length (wal_log rs)"] wal_cut_scan(2) [OF assms(1), of "length (wal_log rs)"]
    by (simp add: wal_open_def)
qed

theorem wal_append_recover_witness:
  "\<exists>R. wal_Recover Io_ok True True (fold wal_do [WBegin 7, WPut [3] [4] 7] (wal_open []))
     = (wal_open (wal_log [WBegin 7, WPut [3] [4] 7]), Inr R)
    \<and> wal_recovered 0 0 [WBegin 7, WPut [3] [4] 7] R"
  by (rule wal_append_recover) (simp_all add: wal_enc_def wal_body_def)

text \<open>
  C11: what \<open>IsSynced\<close> confirms, for forced syncs. Let any number of threads append and call \<open>Sync(true)\<close>, with overlapping calls
  and writes that fail. When \<open>IsSynced\<close> confirms the sequence number that the append of record \<open>i\<close> produced, the record has left the buffer: it is in the file,
  or in the data of a \<open>Sync\<close> call whose write is still to come or has failed. When calls of \<open>Sync\<close> do not overlap and no write
  has failed, the file has this record and all before it, in order.
\<close>

theorem wal_acknowledged_is_durable:
  assumes "wal_reach {True} m f0 rs w js lost" and "length rs < 2 ^ 64" and "i < length rs"
    and "bumps_seq (rs ! i)" and "wal_IsSynced (of_nat (seq_of (take (Suc i) rs))) w"
  shows "wal_kept (rs ! i) w js lost
    \<and> (m = 1 \<and> lost = [] \<longrightarrow> (\<exists>n > i. n \<le> length rs \<and> wal_file w = f0 @ wal_log (take n rs)))"
proof
  note reached = seq_upto_reached [OF _ assms(5) [unfolded wal_IsSynced_def] assms(2-4)]
  obtain n where n: "wal_taken rs w js lost n" using wal_reach_taken [OF assms(1)] by blast
  then have "i < n" by (intro reached) (simp add: wal_taken_def)
  then have "rs ! i \<in> set (take n rs)" using assms(3) by (metis in_set_conv_nth length_take min_less_iff_conj nth_take)
  with n show "wal_kept (rs ! i) w js lost" by (simp add: wal_taken_def)
  show "m = 1 \<and> lost = [] \<longrightarrow> (\<exists>n > i. n \<le> length rs \<and> wal_file w = f0 @ wal_log (take n rs))"
  proof
    assume "m = 1 \<and> lost = []"
    then obtain n p where n: "wal_in_order f0 rs w js n p" using wal_reach_in_order assms(1) by blast
    then have "i < n" by (intro reached) (simp add: wal_in_order_def)
    moreover have "n \<le> length rs" "wal_file w = f0 @ wal_log (take n rs)" using n by (auto simp: wal_in_order_def)
    ultimately show "\<exists>n > i. n \<le> length rs \<and> wal_file w = f0 @ wal_log (take n rs)" by blast
  qed
qed

lemma wal_reach_example:
  "wal_reach {True} 1 [] [WAbort 1, WCommit 2]
     (fst (wal_Sync True Io_ok (wal_do (WCommit 2) (wal_do (WAbort 1) (wal_open []))))) [] []"
proof -
  let ?w = "wal_do (WCommit 2) (wal_do (WAbort 1) (wal_open []))"
  have r: "wal_reach {True} 1 [] [WAbort 1, WCommit 2] ?w [] []"
    using wal_reach.append [OF wal_reach.append [OF wal_reach.start],
        of "{True}" 1 "[]" "WAbort 1" "WCommit 2"] by simp
  obtain w' j where b: "wal_Sync_begin True ?w = (w', Inr j)"
    by (simp add: wal_Sync_begin_def)
  have "wal_reach {True} 1 [] [WAbort 1, WCommit 2] w' ([] @ (j, False) # []) []"
    using wal_reach.sync_begin [OF r _ _ b] by simp
  from wal_reach.sync_end [OF wal_reach.sync_write [OF this]] b show ?thesis
    by (auto simp: wal_Sync_def Let_def split: prod.splits)
qed

theorem wal_acknowledged_is_durable_witness:
  "\<exists>n > 1. n \<le> 2 \<and> wal_file (fst (wal_Sync True Io_ok (wal_do (WCommit 2) (wal_do (WAbort 1) (wal_open [])))))
     = wal_log (take n [WAbort 1, WCommit 2])"
proof -
  let ?w = "wal_do (WCommit 2) (wal_do (WAbort 1) (wal_open []))"
  have "wal_IsSynced 1 (fst (wal_Sync True Io_ok ?w))"
    by (simp add: wal_Sync_forced wal_IsSynced_def wal_do_batch_seq wal_open_def)
  then have "wal_kept ([WAbort 1, WCommit 2] ! 1) (fst (wal_Sync True Io_ok ?w)) [] []
    \<and> ((1 :: nat) = 1 \<and> [] = ([] :: bytes list) \<longrightarrow> (\<exists>n > 1. n \<le> length [WAbort 1, WCommit 2] \<and> wal_file (fst (wal_Sync True Io_ok ?w))
      = [] @ wal_log (take n [WAbort 1, WCommit 2])))"
    by (intro wal_acknowledged_is_durable [OF wal_reach_example]) simp_all
  then show ?thesis by (simp add: numeral_2_eq_2)
qed

text \<open>
  two overlapping calls of \<open>Sync(true)\<close> confirm too early: the second call finishes first and publishes its number,
  which covers the record that the first call has taken out of the buffer and not written yet. The sync thread and \<open>AbortBatch\<close> or \<open>TrimWAL\<close> can
  overlap in this way.
\<close>

theorem wal_overlapping_syncs_confirm_early:
  "\<exists>w js. wal_reach {True} 2 [] [WCommit 1, WCommit 2] w js [] \<and> wal_IsSynced 1 w \<and> wal_file w = wal_enc (WCommit 2)"
proof -
  let ?w1 = "wal_do (WCommit 1) (wal_open [])"
  define j1 where "j1 = \<lparr>sj_data = wal_enc (WCommit 1), sj_batch = 1, sj_entries = buffered_entries ?w1\<rparr>"
  have q: "batch_seq ?w1 = 1" "write_buf ?w1 = wal_enc (WCommit 1)" "wal_file ?w1 = []" by (simp_all add: wal_do_batch_seq wal_open_def)
  let ?w2 = "wal_do (WCommit 2) (?w1\<lparr>write_buf := []\<rparr>)"
  define j2 where "j2 = \<lparr>sj_data = wal_enc (WCommit 2), sj_batch = 2, sj_entries = buffered_entries ?w2\<rparr>"
  have q2: "batch_seq ?w2 = 2" "write_buf ?w2 = wal_enc (WCommit 2)" "wal_file ?w2 = []" using q by (simp_all add: wal_do_batch_seq)
  have "wal_reach {True} 2 [] ([] @ [WCommit 1]) ?w1 [] []" by (rule wal_reach.append [OF wal_reach.start])
  then have "wal_reach {True} 2 [] ([] @ [WCommit 1]) (?w1\<lparr>write_buf := []\<rparr>) ([] @ [(j1, False)]) []"
    by (rule wal_reach.sync_begin [where force = True]) (simp_all add: wal_Sync_begin_def j1_def wal_open_def wal_do_batch_seq)
  from wal_reach.append [OF this, of "WCommit 2"]
  have "wal_reach {True} 2 [] [WCommit 1, WCommit 2] ?w2 [(j1, False)] []" by simp
  then have "wal_reach {True} 2 [] [WCommit 1, WCommit 2] (?w2\<lparr>write_buf := []\<rparr>) ([(j1, False)] @ [(j2, False)]) []"
    by (rule wal_reach.sync_begin [where force = True]) (simp_all add: wal_Sync_begin_def q2 j2_def)
  from wal_reach.sync_end [OF wal_reach.sync_write [OF this]] show ?thesis
    by (intro exI conjI) (assumption, simp_all add: wal_Sync_write_def wal_Sync_end_def wal_IsSynced_def j2_def q2 Let_def wal_open_def)
qed

text \<open>
  acknowledged does not mean durable for \<open>Sync(false)\<close>: with less than the minimum number
  of bytes buffered it advances \<open>synced_seq_\<close> without writing, so \<open>IsSynced\<close> confirms a record
  that is not in the file.
\<close>

theorem wal_unforced_sync_not_durable:
  "\<exists>w. wal_reach {False} 1 [] [WCommit ts] w [] [] \<and> wal_IsSynced (wal_CurrentBatchSeq w) w
     \<and> wal_CurrentBatchSeq w = 1 \<and> wal_file w = []"
proof -
  let ?w = "wal_do (WCommit ts) (wal_open [])"
  have "wal_reach {False} 1 [] [WCommit ts] ?w [] []"
    using wal_reach.append [OF wal_reach.start, of "{False}" 1 "[]" "WCommit ts"] by simp
  moreover have q: "batch_seq ?w = 1" "wal_file ?w = []" "write_buf ?w = wal_enc (WCommit ts)"
    by (simp_all add: wal_do_batch_seq wal_open_def)
  moreover have "wal_Sync_begin False ?w
      = (?w\<lparr>synced_seq := 1\<rparr>, Inl \<lparr>sr_seq = 1, sr_persisted = False\<rparr>)"
    unfolding wal_Sync_begin_def q using wal_enc_not_Nil [of "WCommit ts"]
    by (simp add: kWALMinSyncBytes_def del: wal_enc_not_Nil) (simp add: wal_enc_def)
  ultimately have "wal_reach {False} 1 [] [WCommit ts] (?w\<lparr>synced_seq := 1\<rparr>) [] []"
    using wal_reach.sync_skip [of "{False}" 1 "[]" "[WCommit ts]" ?w "[]" "[]" False] by simp
  with q show ?thesis
    by (intro exI [of _ "?w\<lparr>synced_seq := 1\<rparr>"])
      (simp add: wal_IsSynced_def wal_CurrentBatchSeq_def)
qed

text \<open>
  C38: a damaged entry ends the replay. When a key, value or timestamp of an entry was changed
  inside a window of at most four bytes, recovery keeps the records before the entry and
  neither the entry nor anything behind it.
\<close>

theorem wal_damaged_entry_rejected:
  assumes "\<forall>r \<in> set pre. wal_ok r \<and> \<not> is_ckpt r" and "wal_ok (WPut k' v' ts')"
    and "length k' = length k" and "length v' = length v"
    and "wal_body k v ts = p @ us @ s" and "wal_body k' v' ts' = p @ vs @ s"
    and "length us = length vs" and "length us \<le> 4" and "us \<noteq> vs"
  shows "wal_pass2 st (wal_log pre @ WriteUint32LE (crc32 (wal_body k v ts)) @ wal_body k' v' ts' @ bs)
    = wal_pass2 st (wal_log pre)"
  using wlog.scan_append [OF assms(1)] wlog.scan_log [OF assms(1)] wal_damaged_put [OF _ _ assms(3-9)] assms(2)
  by (simp add: wal_pass2_fold wal_log_def)

theorem wal_damaged_entry_rejected_witness:
  "wal_pass2 (wal_scan0 0) (wal_log [WAbort 3] @ WriteUint32LE (crc32 (wal_body [1, 2] [] 7)) @ wal_body [1, 9] [] 7 @ [])
    = wal_pass2 (wal_scan0 0) (wal_log [WAbort 3])"
  by (rule wal_damaged_entry_rejected [where us = "[2]" and vs = "[9]"
        and p = "WriteUint32LE 2 @ [1]" and s = "WriteUint32LE 0 @ WriteUint64LE 7"])
    (simp_all add: wal_body_def)

text \<open>
  a batch hides later checkpoints. The first pass of \<open>Recover\<close> does not know the records of
  batches and stops at the first one; the second pass then reads the body of a checkpoint as
  records. So behind a log with a batch mark, a checkpoint and further records, recovery reports no
  checkpoint and loses everything behind it, unless a checksum agrees by coincidence.
\<close>

theorem wal_batch_hides_checkpoint:
  assumes "is_mark r" and "\<forall>r \<in> set pre. wal_ok r \<and> \<not> is_ckpt r"
    and "length (wal_log pre) + length (wal_log post) + 36 < 0xFFFFFFFA"
    and "4 \<le> length (wal_log post)" and "crc32 (replicate 12 0 @ take 4 (wal_log post)) \<noteq> t"
  shows "wal_recovered 0 0 (r # pre)
    (wal_recover_file (wal_log (r # pre @ [WCkpt (ucast t) 0]) @ wal_log post))"
  by (rule wal_batch_hides_ckpt [OF assms])

theorem wal_batch_hides_checkpoint_witness:
  "wal_recovered 0 0 [WBegin 5, WPut [1] [2] 5, WCommit 5] (wal_recover_file
     (wal_log ([WBegin 5, WPut [1] [2] 5, WCommit 5] @ [WCkpt (ucast (5 :: u32)) 0]) @ wal_log [WPut [3] [4] 6]))"
proof -
  have "crc32 (replicate 12 0 @ take 4 (wal_log [WPut [3] [4] 6])) \<noteq> 5" by code_simp
  then show ?thesis
    using wal_batch_hides_checkpoint [of "WBegin 5" "[WPut [1] [2] 5, WCommit 5]" "[WPut [3] [4] 6]" 5]
    by (simp add: wal_enc_def wal_body_def)
qed

text \<open>
  \<open>TrimToLastCheckpoint\<close> checks only the eight-byte body of the old checkpoint format, so
  it does not recognise the checkpoint that \<open>WriteCheckpoint\<close> writes and the file keeps all its
  entries (for a timestamp on which the two checksums do not coincide).
\<close>

theorem wal_trim_ignores_checkpoint:
  assumes "length k < 0xFFFFFFFA" and "length v < 2 ^ 32"
    and "crc32 (WriteUint32LE kWALCheckpointSentinel @ WriteUint64LE ts)
      \<noteq> crc32 (WriteUint32LE kWALCheckpointSentinel @ WriteUint64LE ts @ WriteUint64LE 0)"
  shows "wal_TrimToLastCheckpoint Io_ok True True (wal_WriteCheckpoint ts 0 (wal_Buffer k v ts (wal_open [])))
    = (wal_open (wal_log [WPut k v ts, WCkpt ts 0]), None)"
proof -
  let ?w = "fold wal_do [WPut k v ts, WCkpt ts 0] (wal_open [])"
  have "wal_file ?w @ write_buf ?w = wal_log [WPut k v ts, WCkpt ts 0]"
    unfolding fold_wal_do [THEN conjunct1] fold_wal_do [THEN conjunct2] by (simp add: wal_open_def)
  moreover have "wal_trim_scan None (wal_log [WPut k v ts, WCkpt ts 0]) = None"
    using assms by (simp add: wal_trim_put wal_trim_ckpt)
  ultimately have "wal_TrimToLastCheckpoint Io_ok True True ?w
      = (wal_open (wal_log [WPut k v ts, WCkpt ts 0]), None)"
    by (simp add: wal_Trim_unchanged)
  then show ?thesis by (simp add: wal_do.simps)
qed

theorem wal_trim_ignores_checkpoint_witness:
  "wal_TrimToLastCheckpoint Io_ok True True (wal_WriteCheckpoint 5 0 (wal_Buffer [1] [2] 5 (wal_open [])))
    = (wal_open (wal_log [WPut [1] [2] 5, WCkpt 5 0]), None)"
proof (rule wal_trim_ignores_checkpoint)
  show "crc32 (WriteUint32LE kWALCheckpointSentinel @ WriteUint64LE 5)
      \<noteq> crc32 (WriteUint32LE kWALCheckpointSentinel @ WriteUint64LE 5 @ WriteUint64LE 0)"
    by code_simp
qed simp_all

end
