(* ===== verification/Manifest.thy ===== *)
theory Manifest
  imports Crc32 Kv_Types "HOL-Library.Monad_Syntax"
begin

text \<open>
  The manifest of \<^verbatim>\<open>src/manifest.cpp\<close>: an append-only file of records that add a table, remove
  one, or mark a batch as aborted up to a fence. \<open>mf_next\<close> is one iteration of the reading loop,
  which the source has twice (in \<open>Recover\<close> and in \<open>Compact\<close>); the file cursor is the suffix of
  the file that is still unread, so \<^verbatim>\<open>ftell\<close> differences are differences of lengths.
\<close>

section \<open>Records\<close>

definition kTypeAddSSTable :: u8 where
  "kTypeAddSSTable = 1"

definition kTypeRemoveSSTable :: u8 where
  "kTypeRemoveSSTable = 2"

definition kTypeAbortBatch :: u8 where
  "kTypeAbortBatch = 3"

record manifest =
  mf_file :: bytes

datatype mf_error = MfWriteFailed | MfReopenFailed

text \<open>The bytes \<open>WriteRecord\<close> appends: the checksum of type and payload, then both.\<close>

definition mf_record :: "u8 \<Rightarrow> bytes \<Rightarrow> bytes" where
  "mf_record type payload = WriteUint32LE (crc32 (type # payload)) @ type # payload"

definition mf_WriteRecord :: "u8 \<Rightarrow> bytes \<Rightarrow> io_result \<Rightarrow> manifest \<Rightarrow> manifest \<times> mf_error option" where
  "mf_WriteRecord type payload io m =
     (case io of
        Io_ok \<Rightarrow> (m\<lparr>mf_file := mf_file m @ mf_record type payload\<rparr>, None)
      | Io_err n \<Rightarrow> (m\<lparr>mf_file := mf_file m @ take n (mf_record type payload)\<rparr>, Some MfWriteFailed))"

definition mf_add_payload :: "u64 \<Rightarrow> Metadata \<Rightarrow> bytes" where
  "mf_add_payload seq meta = WriteUint64LE seq @ WriteUint64LE (entry_count meta)
     @ WriteUint32LE (min_key_len meta) @ WriteUint32LE (max_key_len meta)
     @ WriteUint64LE (md_file_size meta) @ WriteUint32LE (md_level meta)
     @ WriteUint16LE (of_nat (length (md_filepath meta))) @ md_filepath meta"

definition mf_AddSSTable :: "u64 \<Rightarrow> Metadata \<Rightarrow> io_result \<Rightarrow> manifest \<Rightarrow> manifest \<times> mf_error option" where
  "mf_AddSSTable seq meta = mf_WriteRecord kTypeAddSSTable (mf_add_payload seq meta)"

definition mf_RemoveSSTable :: "u64 \<Rightarrow> io_result \<Rightarrow> manifest \<Rightarrow> manifest \<times> mf_error option" where
  "mf_RemoveSSTable seq = mf_WriteRecord kTypeRemoveSSTable (WriteUint64LE seq)"

definition mf_AddAbortBatch :: "u64 \<Rightarrow> u64 \<Rightarrow> io_result \<Rightarrow> manifest \<Rightarrow> manifest \<times> mf_error option" where
  "mf_AddAbortBatch batch_ts fence_seq =
     mf_WriteRecord kTypeAbortBatch (WriteUint64LE batch_ts @ WriteUint64LE fence_seq)"

section \<open>Reading\<close>

datatype mf_rec =
    MAdd Metadata
  | MRemove u64
  | MAbort u64 u64

text \<open>The fields behind the type byte of an added table.\<close>

definition mf_read_meta :: "bytes \<Rightarrow> (Metadata \<times> bytes) option" where
  "mf_read_meta r = do {
     (seq, r) \<leftarrow> ReadUint64LE r;
     (ec, r) \<leftarrow> ReadUint64LE r;
     (mkl, r) \<leftarrow> ReadUint32LE r;
     (mxl, r) \<leftarrow> ReadUint32LE r;
     (fsz, r) \<leftarrow> ReadUint64LE r;
     (lvl, r) \<leftarrow> ReadUint32LE r;
     (pl, r) \<leftarrow> ReadUint16LE r;
     (pb, r) \<leftarrow> read_bytes (unat pl) r;
     Some (\<lparr>md_filepath = pb, manifest_seq = seq, entry_count = ec, min_key_len = mkl,
            max_key_len = mxl, md_file_size = fsz, md_level = lvl, aborted_batch_ts = []\<rparr>, r) }"

text \<open>An aborted batch; where the fence cannot be read it is the batch timestamp and the cursor
  goes back behind the latter.\<close>

definition mf_read_abort :: "bytes \<Rightarrow> (u64 \<times> u64 \<times> bytes) option" where
  "mf_read_abort r = do {
     (batch_ts, r1) \<leftarrow> ReadUint64LE r;
     Some (case ReadUint64LE r1 of None \<Rightarrow> (batch_ts, batch_ts, r1)
       | Some (fence_seq, r2) \<Rightarrow> (batch_ts, fence_seq, r2)) }"

text \<open>The body is re-read from the type byte to the cursor and its checksum compared.\<close>

definition mf_check :: "u32 \<Rightarrow> u8 \<Rightarrow> bytes \<Rightarrow> bytes \<Rightarrow> bool" where
  "mf_check checksum type r r' = (crc32 (type # take (length r - length r') r) = checksum)"

definition mf_next :: "bytes \<Rightarrow> (mf_rec \<times> bytes) option" where
  "mf_next bs = do {
     (checksum, r0) \<leftarrow> ReadUint32LE bs;
     (case r0 of [] \<Rightarrow> None
      | type # r \<Rightarrow>
          if type = kTypeAddSSTable then do {
            (meta, r') \<leftarrow> mf_read_meta r;
            if mf_check checksum type r r' then Some (MAdd meta, r') else None }
          else if type = kTypeRemoveSSTable then do {
            (seq, r') \<leftarrow> ReadUint64LE r;
            if mf_check checksum type r r' then Some (MRemove seq, r') else None }
          else if type = kTypeAbortBatch then do {
            (batch_ts, fence_seq, r') \<leftarrow> mf_read_abort r;
            if mf_check checksum type r r' then Some (MAbort batch_ts fence_seq, r') else None }
          else None) }"

lemma mf_read_meta_length: "mf_read_meta r = Some (m, r') \<Longrightarrow> length r' < length r"
  by (auto simp: mf_read_meta_def bind_eq_Some_conv dest!: read_lengths)

lemma mf_read_abort_length:
  assumes "mf_read_abort r = Some (b, f, r')"
  shows "length r' < length r"
proof -
  from assms obtain b1 r1 where r1: "ReadUint64LE r = Some (b1, r1)"
    by (auto simp: mf_read_abort_def bind_eq_Some_conv)
  with assms show ?thesis
    by (cases "ReadUint64LE r1") (auto simp: mf_read_abort_def dest!: read_lengths)
qed

lemma mf_next_length:
  assumes "mf_next bs = Some (e, bs')"
  shows "length bs' < length bs"
proof -
  from assms obtain c r0 where "ReadUint32LE bs = Some (c, r0)"
    by (auto simp: mf_next_def bind_eq_Some_conv)
  with assms show ?thesis
    by (cases r0) (auto simp: mf_next_def bind_eq_Some_conv split: if_splits
        dest!: read_lengths mf_read_meta_length mf_read_abort_length)
qed

function mf_scan :: "bytes \<Rightarrow> mf_rec list" where
  "mf_scan bs = (case mf_next bs of None \<Rightarrow> [] | Some (e, bs') \<Rightarrow> e # mf_scan bs')"
  by pat_completeness auto
termination
  by (relation "measure length") (auto dest: mf_next_length)

declare mf_scan.simps [simp del]

text \<open>The three vectors that the loop fills.\<close>

fun mf_add1 :: "mf_rec \<Rightarrow> Metadata list" where
  "mf_add1 (MAdd m) = [m]" | "mf_add1 _ = []"

fun mf_removed1 :: "mf_rec \<Rightarrow> u64 list" where
  "mf_removed1 (MRemove s) = [s]" | "mf_removed1 _ = []"

fun mf_abort1 :: "mf_rec \<Rightarrow> (u64 \<times> u64) list" where
  "mf_abort1 (MAbort b f) = [(b, f)]" | "mf_abort1 _ = []"

definition mf_adds :: "mf_rec list \<Rightarrow> Metadata list" where
  "mf_adds rs = concat (map mf_add1 rs)"

definition mf_removed :: "mf_rec list \<Rightarrow> u64 list" where
  "mf_removed rs = concat (map mf_removed1 rs)"

definition mf_aborts :: "mf_rec list \<Rightarrow> (u64 \<times> u64) list" where
  "mf_aborts rs = concat (map mf_abort1 rs)"

definition mf_live :: "mf_rec list \<Rightarrow> Metadata list" where
  "mf_live rs = filter (\<lambda>m. manifest_seq m \<notin> set (mf_removed rs)) (mf_adds rs)"

section \<open>Recover\<close>

definition mf_apply_abort :: "u64 \<times> u64 \<Rightarrow> Metadata list \<Rightarrow> Metadata list" where
  "mf_apply_abort = (\<lambda>(batch_ts, fence_seq). map (\<lambda>m. if manifest_seq m \<le> fence_seq
     then m\<lparr>aborted_batch_ts := List.insert batch_ts (aborted_batch_ts m)\<rparr> else m))"

definition mf_catalog :: "mf_rec list \<Rightarrow> Metadata list" where
  "mf_catalog rs = fold mf_apply_abort (mf_aborts rs) (mf_live rs)"

text \<open>\<open>rd\<close> and \<open>ab\<close>: the file opens for reading, and again for appending.\<close>

definition mf_Recover :: "bool \<Rightarrow> bool \<Rightarrow> manifest \<Rightarrow> mf_error + Metadata list" where
  "mf_Recover rd ab m =
     (if \<not> rd then Inr []
      else if mf_file m = [] then Inr []
      else if \<not> ab then Inl MfReopenFailed
      else Inr (mf_catalog (mf_scan (mf_file m))))"

section \<open>Compact\<close>

definition mf_needed :: "Metadata list \<Rightarrow> (u64 \<times> u64) list \<Rightarrow> (u64 \<times> u64) list" where
  "mf_needed catalog aborts =
     filter (\<lambda>(_, fence_seq). list_ex (\<lambda>m. manifest_seq m \<le> fence_seq) catalog) aborts"

definition mf_compacted :: "mf_rec list \<Rightarrow> bytes" where
  "mf_compacted rs =
     concat (map (\<lambda>m. mf_record kTypeAddSSTable (mf_add_payload (manifest_seq m) m)) (mf_live rs))
     @ concat (map (\<lambda>(batch_ts, fence_seq).
         mf_record kTypeAbortBatch (WriteUint64LE batch_ts @ WriteUint64LE fence_seq))
         (mf_needed (mf_live rs) (mf_aborts rs)))"

text \<open>
  \<open>tmp\<close>: the temporary file opens; \<open>io\<close>: its writes, whose errors the source ignores; \<open>mv\<close>: the
  rename succeeds, without which the removed manifest is re-created empty.
\<close>

definition mf_Compact :: "bool \<Rightarrow> bool \<Rightarrow> io_result \<Rightarrow> bool \<Rightarrow> manifest \<Rightarrow> manifest" where
  "mf_Compact rd tmp io mv m =
     (if \<not> rd then m
      else if mf_file m = [] then m
      else if \<not> tmp then m
      else let out = mf_compacted (mf_scan (mf_file m));
               written = (case io of Io_ok \<Rightarrow> out | Io_err n \<Rightarrow> take n out)
           in m\<lparr>mf_file := (if mv then written else [])\<rparr>)"

section \<open>The record format\<close>

fun mf_enc :: "mf_rec \<Rightarrow> bytes" where
  "mf_enc (MAdd m) = mf_record kTypeAddSSTable (mf_add_payload (manifest_seq m) m)"
| "mf_enc (MRemove seq) = mf_record kTypeRemoveSSTable (WriteUint64LE seq)"
| "mf_enc (MAbort b f) = mf_record kTypeAbortBatch (WriteUint64LE b @ WriteUint64LE f)"

text \<open>Records that can be written and read back, and records that in addition are not mistaken
  for something else when torn.\<close>

fun mf_wf :: "mf_rec \<Rightarrow> bool" where
  "mf_wf (MAdd m) = (length (md_filepath m) < 2 ^ 16 \<and> aborted_batch_ts m = [])"
| "mf_wf _ = True"

fun mf_ok :: "mf_rec \<Rightarrow> bool" where
  "mf_ok (MAbort b f) = (crc32 (kTypeAbortBatch # WriteUint64LE b)
     \<noteq> crc32 (kTypeAbortBatch # WriteUint64LE b @ WriteUint64LE f))"
| "mf_ok r = mf_wf r"

lemma mf_ok_wf: "mf_ok r \<Longrightarrow> mf_wf r"
  by (cases r) auto

lemmas mf_types = kTypeAddSSTable_def kTypeRemoveSSTable_def kTypeAbortBatch_def

lemma mf_read_meta_payload:
  assumes "mf_wf (MAdd m)"
  shows "mf_read_meta (mf_add_payload (manifest_seq m) m @ bs) = Some (m, bs)"
  using assms
  by (cases m) (simp add: mf_read_meta_def mf_add_payload_def codec_simps unat_of_nat_small)

lemma mf_read_meta_ext: "reader_ext mf_read_meta"
  unfolding mf_read_meta_def by (intro ext_intros)

lemma mf_next_frame:
  "mf_next (WriteUint32LE c @ bs) = (case bs of [] \<Rightarrow> None
      | type # r \<Rightarrow>
          if type = kTypeAddSSTable then do {
            (meta, r') \<leftarrow> mf_read_meta r;
            if mf_check c type r r' then Some (MAdd meta, r') else None }
          else if type = kTypeRemoveSSTable then do {
            (seq, r') \<leftarrow> ReadUint64LE r;
            if mf_check c type r r' then Some (MRemove seq, r') else None }
          else if type = kTypeAbortBatch then do {
            (batch_ts, fence_seq, r') \<leftarrow> mf_read_abort r;
            if mf_check c type r r' then Some (MAbort batch_ts fence_seq, r') else None }
          else None)"
  by (simp add: mf_next_def codec_simps)

lemma mf_next_enc:
  assumes "mf_wf r"
  shows "mf_next (mf_enc r @ bs) = Some (r, bs)"
proof (cases r)
  case (MAdd m)
  with assms show ?thesis
    by (simp add: mf_record_def mf_next_frame mf_read_meta_payload mf_check_def)
qed (simp_all add: mf_record_def mf_next_frame mf_types mf_read_abort_def mf_check_def codec_simps)

lemma mf_next_torn_body:
  assumes "mf_ok (MAbort b f)" and "n < 16"
  shows "mf_next (WriteUint32LE (crc32 (kTypeAbortBatch # WriteUint64LE b @ WriteUint64LE f))
    @ kTypeAbortBatch # take n (WriteUint64LE b @ WriteUint64LE f)) = None"
proof (cases "n < 8")
  case True
  then show ?thesis by (simp add: mf_next_frame mf_types mf_read_abort_def read_shorts)
next
  case False
  with assms show ?thesis
    by (simp add: mf_next_frame mf_types mf_read_abort_def read_shorts codec_simps mf_check_def)
qed

lemma mf_next_torn:
  assumes "mf_ok r" and "n < length (mf_enc r)"
  shows "mf_next (take n (mf_enc r)) = None"
proof -
  obtain t p where enc: "mf_enc r = WriteUint32LE (crc32 (t # p)) @ t # p"
    by (cases r) (simp_all add: mf_record_def)
  consider "n < 4" | "n = 4" | "n > 4" by linarith
  then show ?thesis
  proof cases
    case 1
    then show ?thesis by (simp add: mf_next_def read_shorts)
  next
    case 2
    then show ?thesis using mf_next_frame [of _ "[]"] by (simp add: enc)
  next
    case 3
    then obtain m where n: "n = 5 + m" by (metis add.commute add_diff_inverse_nat less_Suc_eq_le numeral_nat(3) not_less_eq)
    show ?thesis
    proof (cases r)
      case (MAdd meta)
      with assms(2) n have "mf_read_meta (take m p) = None"
        using mf_read_meta_payload [of meta "[]"] assms(1) enc
        by (intro reader_torn [OF mf_read_meta_ext]) (auto simp: mf_record_def)
      with MAdd enc n show ?thesis by (simp add: mf_record_def mf_next_frame)
    next
      case (MRemove s)
      with assms(2) n enc show ?thesis
        by (auto simp: mf_record_def mf_next_frame mf_types read_shorts)
    next
      case (MAbort b f)
      with assms n show ?thesis
        using mf_next_torn_body [of b f m] by (simp add: mf_record_def del: mf_ok.simps)
    qed
  qed
qed

interpretation mstream: record_stream mf_enc mf_scan mf_wf
proof (unfold_locales, goal_cases)
  case (1 r bs)
  then show ?case by (subst mf_scan.simps) (simp add: mf_next_enc)
next
  case 2
  then show ?case by (subst mf_scan.simps) (simp add: mf_next_def)
qed

interpretation mlog: record_log mf_enc mf_scan mf_ok
proof (unfold_locales, goal_cases)
  case (1 r bs)
  then show ?case by (simp add: mf_ok_wf mstream.scan_record)
next
  case 2
  then show ?case by (rule mstream.scan_empty)
next
  case (3 r n)
  then show ?case by (subst mf_scan.simps) (simp add: mf_next_torn)
qed

section \<open>What the catalogue contains\<close>

lemma mf_read_meta_wf: "mf_read_meta r = Some (m, r') \<Longrightarrow> mf_wf (MAdd m)"
proof -
  have "unat pl < 65536" for pl :: u16
    using unsigned_less [of pl] by simp
  then show "mf_read_meta r = Some (m, r') \<Longrightarrow> mf_wf (MAdd m)"
    by (auto simp: mf_read_meta_def bind_eq_Some_conv read_bytes_def min_def split: if_splits)
qed

lemma mf_next_wf:
  assumes "mf_next bs = Some (e, bs')"
  shows "mf_wf e"
proof -
  from assms obtain c r0 where "ReadUint32LE bs = Some (c, r0)"
    by (auto simp: mf_next_def bind_eq_Some_conv)
  with assms show ?thesis
    by (cases r0) (auto simp: mf_next_def bind_eq_Some_conv simp del: mf_wf.simps(1)
        split: if_splits dest: mf_read_meta_wf)
qed

lemma mf_scan_wf: "\<forall>r \<in> set (mf_scan bs). mf_wf r"
proof (induction bs rule: mf_scan.induct)
  case (1 bs)
  then show ?case
    by (cases "mf_next bs"; subst mf_scan.simps) (auto dest: mf_next_wf)
qed

lemma mf_sets:
  "set (mf_adds rs) = {m. MAdd m \<in> set rs}"
  "set (mf_removed rs) = {s. MRemove s \<in> set rs}"
  "set (mf_aborts rs) = {(b, f). MAbort b f \<in> set rs}"
proof -
  have "set (mf_add1 r) = {m. r = MAdd m}" "set (mf_removed1 r) = {s. r = MRemove s}"
    "set (mf_abort1 r) = {(b, f). r = MAbort b f}" for r
    by (cases r; auto)+
  then show "set (mf_adds rs) = {m. MAdd m \<in> set rs}"
    "set (mf_removed rs) = {s. MRemove s \<in> set rs}"
    "set (mf_aborts rs) = {(b, f). MAbort b f \<in> set rs}"
    by (auto simp: mf_adds_def mf_removed_def mf_aborts_def)
qed

text \<open>What the aborts do to one table.\<close>

definition mf_marks :: "(u64 \<times> u64) list \<Rightarrow> Metadata \<Rightarrow> Metadata" where
  "mf_marks ab m = m\<lparr>aborted_batch_ts :=
     fold List.insert (map fst (filter (\<lambda>(_, f). manifest_seq m \<le> f) ab)) (aborted_batch_ts m)\<rparr>"

lemma mf_marks_simps:
  "mf_marks [] m = m"
  "mf_marks ((b, f) # ab) m = mf_marks ab (if manifest_seq m \<le> f
     then m\<lparr>aborted_batch_ts := List.insert b (aborted_batch_ts m)\<rparr> else m)"
  by (simp_all add: mf_marks_def)

lemma fold_mf_apply_abort: "fold mf_apply_abort ab ms = map (mf_marks ab) ms"
proof (induction ab arbitrary: ms)
  case Nil
  then show ?case by (simp add: mf_marks_simps)
next
  case (Cons a ab)
  then show ?case
    by (cases a) (simp add: mf_apply_abort_def mf_marks_simps)
qed

lemma mf_catalog_marks: "mf_catalog rs = map (mf_marks (mf_aborts rs)) (mf_live rs)"
  by (simp add: mf_catalog_def fold_mf_apply_abort)

lemma mf_marks_fields:
  "manifest_seq (mf_marks ab m) = manifest_seq m"
  "set (aborted_batch_ts (mf_marks ab m))
   = set (aborted_batch_ts m) \<union> {b. \<exists>f. (b, f) \<in> set ab \<and> manifest_seq m \<le> f}"
  by (force simp: mf_marks_def set_fold_insert)+

lemma mf_marks_needed:
  assumes "m \<in> set ms"
  shows "mf_marks (mf_needed ms ab) m = mf_marks ab m"
proof -
  have "filter (\<lambda>(_, f). manifest_seq m \<le> f) (mf_needed ms ab) = filter (\<lambda>(_, f). manifest_seq m \<le> f) ab"
    using assms by (auto simp: mf_needed_def list_ex_iff intro!: filter_cong)
  then show ?thesis by (simp add: mf_marks_def)
qed

section \<open>Compaction\<close>

text \<open>The records that the compacted file consists of.\<close>

definition mf_compact_recs :: "mf_rec list \<Rightarrow> mf_rec list" where
  "mf_compact_recs rs = map MAdd (mf_live rs)
     @ map (\<lambda>(b, f). MAbort b f) (mf_needed (mf_live rs) (mf_aborts rs))"

lemma mf_compacted_log: "mf_compacted rs = concat (map mf_enc (mf_compact_recs rs))"
  by (simp add: mf_compacted_def mf_compact_recs_def comp_def case_prod_unfold)

lemma mf_compact_recs_wf:
  assumes "\<forall>r \<in> set rs. mf_wf r"
  shows "\<forall>r \<in> set (mf_compact_recs rs). mf_wf r"
  using assms mf_sets(1) [of rs]
  by (auto simp: mf_compact_recs_def mf_live_def simp del: mf_wf.simps(1))

lemma mf_compact_recs_parts:
  "mf_adds (mf_compact_recs rs) = mf_live rs" "mf_removed (mf_compact_recs rs) = []"
  "mf_aborts (mf_compact_recs rs) = mf_needed (mf_live rs) (mf_aborts rs)"
  by (simp_all add: mf_compact_recs_def mf_adds_def mf_removed_def mf_aborts_def comp_def case_prod_unfold)

lemma mf_catalog_compact: "mf_catalog (mf_compact_recs rs) = mf_catalog rs"
  by (simp add: mf_catalog_marks mf_live_def [of "mf_compact_recs rs"] mf_compact_recs_parts
      mf_marks_needed)

lemma mf_scan_compacted: "mf_scan (mf_compacted (mf_scan bs)) = mf_compact_recs (mf_scan bs)"
  using mstream.scan_log [OF mf_compact_recs_wf [OF mf_scan_wf]] by (simp add: mf_compacted_log)

lemma mf_catalog_scan_nil: "mf_catalog (mf_scan []) = []"
  by (simp add: mlog.scan_empty mf_catalog_marks mf_live_def mf_adds_def)

lemma mf_Recover_ok: "mf_Recover True True m = Inr (mf_catalog (mf_scan (mf_file m)))"
  by (simp add: mf_Recover_def mf_catalog_scan_nil)

section \<open>Appending\<close>

text \<open>The operation that appends a record.\<close>

fun mf_do :: "mf_rec \<Rightarrow> io_result \<Rightarrow> manifest \<Rightarrow> manifest \<times> mf_error option" where
  "mf_do (MAdd m) = mf_AddSSTable (manifest_seq m) m"
| "mf_do (MRemove s) = mf_RemoveSSTable s"
| "mf_do (MAbort b f) = mf_AddAbortBatch b f"

lemma mf_do_file:
  "mf_do r Io_ok m = (m\<lparr>mf_file := mf_file m @ mf_enc r\<rparr>, None)"
  "mf_do r (Io_err n) m = (m\<lparr>mf_file := mf_file m @ take n (mf_enc r)\<rparr>, Some MfWriteFailed)"
  by (cases r; simp add: mf_AddSSTable_def mf_RemoveSSTable_def mf_AddAbortBatch_def mf_WriteRecord_def)+

declare mf_do.simps [simp del]

lemma fold_mf_do:
  "mf_file (fold (\<lambda>r m. fst (mf_do r Io_ok m)) rs m) = mf_file m @ concat (map mf_enc rs)"
  by (induction rs arbitrary: m) (simp_all add: mf_do_file)

section \<open>Properties\<close>

text \<open>
  C20: rewriting the manifest does not change what it means. For any file whatever, damaged or
  not, recovering the compacted manifest gives the same tables with the same aborted batches,
  in the same order, as recovering the original.
\<close>

theorem manifest_compact_preserves:
  "mf_Recover True True (mf_Compact True True Io_ok True m) = mf_Recover True True m"
  by (simp add: mf_Recover_ok mf_Compact_def mf_scan_compacted mf_catalog_compact Let_def)

text \<open>
  C21: recovery after a crash. Records \<open>rs\<close> are appended to an empty manifest and the file is
  cut at an arbitrary byte: recovery returns the catalogue of a prefix of \<open>rs\<close>, of all of \<open>rs\<close>
  when nothing is missing. (A torn abort record is read as one of the old format when the two
  checksums coincide; \<open>mf_ok\<close> excludes this.)
\<close>

theorem manifest_crash_recovery:
  assumes "\<forall>r \<in> set rs. mf_ok r"
    and "m = fold (\<lambda>r m. fst (mf_do r Io_ok m)) rs \<lparr>mf_file = []\<rparr>"
  shows "\<exists>n \<le> length rs. (length (mf_file m) \<le> k \<longrightarrow> n = length rs)
    \<and> mf_Recover True True \<lparr>mf_file = take k (mf_file m)\<rparr> = Inr (mf_catalog (take n rs))"
proof (cases "length (mf_file m) \<le> k")
  case True
  with mlog.scan_log [OF assms(1)] show ?thesis
    by (intro exI [of _ "length rs"]) (simp add: mf_Recover_ok assms(2) fold_mf_do)
next
  case False
  with mlog.scan_cut [OF assms(1), of k] show ?thesis
    by (auto simp: mf_Recover_ok assms(2) fold_mf_do)
qed

theorem manifest_crash_recovery_witness:
  "\<exists>n \<le> length [MRemove 1, MAbort 2 3]. (length (mf_file (fold (\<lambda>r m. fst (mf_do r Io_ok m))
        [MRemove 1, MAbort 2 3] \<lparr>mf_file = []\<rparr>)) \<le> 20 \<longrightarrow> n = length [MRemove 1, MAbort 2 3])
    \<and> mf_Recover True True \<lparr>mf_file = take 20 (mf_file (fold (\<lambda>r m. fst (mf_do r Io_ok m))
        [MRemove 1, MAbort 2 3] \<lparr>mf_file = []\<rparr>))\<rparr> = Inr (mf_catalog (take n [MRemove 1, MAbort 2 3]))"
proof (rule manifest_crash_recovery [OF _ refl])
  have "mf_ok (MAbort 2 3)" by code_simp
  then show "\<forall>r \<in> set [MRemove 1, MAbort 2 3]. mf_ok r" by simp
qed

text \<open>
  the meaning of the records, whatever their order. The catalogue lists the added
  tables, in order and with their fields, whose sequence number no record removes, and the
  aborted batches of each are those with a fence at or above that number.
\<close>

theorem manifest_catalog_meaning:
  assumes "\<forall>r \<in> set rs. mf_ok r"
    and "m = fold (\<lambda>r m. fst (mf_do r Io_ok m)) rs \<lparr>mf_file = []\<rparr>"
  shows "\<exists>ms. mf_Recover True True m = Inr ms
    \<and> map (\<lambda>t. t\<lparr>aborted_batch_ts := []\<rparr>) ms = filter (\<lambda>t. MRemove (manifest_seq t) \<notin> set rs) (mf_adds rs)
    \<and> (\<forall>t \<in> set ms. set (aborted_batch_ts t) = {b. \<exists>f. MAbort b f \<in> set rs \<and> manifest_seq t \<le> f})"
proof -
  have "mf_Recover True True m = Inr (mf_catalog rs)"
    using mlog.scan_log [OF assms(1)] by (simp add: mf_Recover_ok assms(2) fold_mf_do)
  moreover have ab: "aborted_batch_ts a = []" if "a \<in> set (mf_adds rs)" for a
    using assms(1) that by (fastforce simp: mf_sets)
  moreover have "map (\<lambda>t. t\<lparr>aborted_batch_ts := []\<rparr>) (mf_catalog rs)
      = filter (\<lambda>t. MRemove (manifest_seq t) \<notin> set rs) (mf_adds rs)"
    using ab by (auto simp: mf_catalog_marks mf_live_def mf_sets mf_marks_def intro!: map_idI)
  moreover from ab have "\<forall>t \<in> set (mf_catalog rs).
      set (aborted_batch_ts t) = {b. \<exists>f. MAbort b f \<in> set rs \<and> manifest_seq t \<le> f}"
    by (auto simp: mf_catalog_marks mf_live_def mf_sets mf_marks_fields)
  ultimately show ?thesis by blast
qed

theorem manifest_catalog_meaning_witness:
  "\<exists>ms. mf_Recover True True (fold (\<lambda>r m. fst (mf_do r Io_ok m)) [MRemove 1] \<lparr>mf_file = []\<rparr>) = Inr ms
    \<and> map (\<lambda>t. t\<lparr>aborted_batch_ts := []\<rparr>) ms
        = filter (\<lambda>t. MRemove (manifest_seq t) \<notin> set [MRemove 1]) (mf_adds [MRemove 1])
    \<and> (\<forall>t \<in> set ms. set (aborted_batch_ts t) = {b. \<exists>f. MAbort b f \<in> set [MRemove 1] \<and> manifest_seq t \<le> f})"
  by (rule manifest_catalog_meaning [OF _ refl]) simp

text \<open>
  an abort record of the old format, without a fence, is understood only as the last record
  of the file. With another record behind it the reader takes that record's first bytes for the
  fence, the checksum fails and the rest of the manifest is ignored (unless the checksums
  coincide).
\<close>

theorem manifest_old_abort_hides_rest:
  assumes "mf_wf r"
    and "crc32 (kTypeAbortBatch # WriteUint64LE b)
       \<noteq> crc32 (kTypeAbortBatch # WriteUint64LE b @ take 8 (mf_enc r))"
  shows "mf_Recover True True \<lparr>mf_file = mf_record kTypeAbortBatch (WriteUint64LE b) @ mf_enc r @ bs\<rparr> = Inr []"
proof -
  have "8 \<le> length (mf_enc r)"
    by (cases r) (simp_all add: mf_record_def mf_add_payload_def)
  then obtain f where "ReadUint64LE (mf_enc r @ bs) = Some (f, drop 8 (mf_enc r) @ bs)"
    by (cases "mf_enc r" rule: ReadUint64LE.cases) auto
  with assms \<open>8 \<le> length (mf_enc r)\<close>
  have "mf_next (mf_record kTypeAbortBatch (WriteUint64LE b) @ mf_enc r @ bs) = None"
    by (simp add: mf_record_def mf_next_frame mf_types mf_read_abort_def codec_simps mf_check_def)
  then have "mf_scan (mf_record kTypeAbortBatch (WriteUint64LE b) @ mf_enc r @ bs) = []"
    by (subst mf_scan.simps) simp
  then show ?thesis
    by (simp add: mf_Recover_ok mf_catalog_marks mf_live_def mf_adds_def)
qed

theorem manifest_old_abort_hides_rest_witness:
  "mf_Recover True True \<lparr>mf_file = mf_record kTypeAbortBatch (WriteUint64LE 5) @ mf_enc (MRemove 1) @ []\<rparr> = Inr []"
proof (rule manifest_old_abort_hides_rest)
  show "crc32 (kTypeAbortBatch # WriteUint64LE 5)
      \<noteq> crc32 (kTypeAbortBatch # WriteUint64LE 5 @ take 8 (mf_enc (MRemove 1)))"
    by code_simp
qed simp

end
