(* ===== verification/Bloom.thy ===== *)
theory Bloom
  imports Kv_Prelude
begin

text \<open>
  The Bloom filter of \<^verbatim>\<open>include/kvdb/bloom.hpp\<close>. The constructor computes the number of bits
  and of hash functions with floating-point logarithms; \<open>bf_new\<close> takes the two converted
  results as arguments and models the clamping that follows. Everything proved holds for any
  such results.
\<close>

record BloomFilter =
  bf_bits :: u64
  bf_hash_count :: u32
  bf_bytes :: bytes

definition bf_default :: BloomFilter where
  "bf_default = \<lparr>bf_bits = 0, bf_hash_count = 0, bf_bytes = []\<rparr>"

text \<open>
  The sum does not wrap for a vector that can be allocated: it does so only above 2^61 bytes, so the size is a natural number.
\<close>

definition bf_size :: "u64 \<Rightarrow> nat" where
  "bf_size bits = (unat bits + 7) div 8"

definition bf_new :: "u64 \<Rightarrow> u32 \<Rightarrow> BloomFilter" where
  "bf_new bits hashes =
     (let b = (if bits < 64 then 64 else bits);
          h1 = (if hashes < 1 then 1 else hashes);
          h2 = (if h1 > 30 then 30 else h1)
      in \<lparr>bf_bits = b, bf_hash_count = h2, bf_bytes = replicate (bf_size b) 0\<rparr>)"

primrec Hash1_from :: "u32 \<Rightarrow> bytes \<Rightarrow> u32" where
  "Hash1_from h [] = h"
| "Hash1_from h (c # cs) = Hash1_from ((h XOR ucast c) * 16777619) cs"

definition Hash1 :: "bytes \<Rightarrow> u32" where
  "Hash1 key = Hash1_from 2166136261 key"

primrec Hash2_from :: "u32 \<Rightarrow> bytes \<Rightarrow> u32" where
  "Hash2_from h [] = h"
| "Hash2_from h (c # cs) = Hash2_from (ucast c + push_bit 6 h + push_bit 16 h - h) cs"

definition Hash2 :: "bytes \<Rightarrow> u32" where
  "Hash2 key = Hash2_from 0 key"

text \<open>The bit that the \<open>i\<close>-th hash function selects.\<close>

definition bf_bit :: "BloomFilter \<Rightarrow> bytes \<Rightarrow> nat \<Rightarrow> nat" where
  "bf_bit bf key i = unat ((ucast (Hash1 key) + of_nat i * ucast (Hash2 key)) mod bf_bits bf)"

definition bf_set :: "nat \<Rightarrow> bytes \<Rightarrow> bytes" where
  "bf_set n bs = bs[n div 8 := (bs ! (n div 8)) OR push_bit (n mod 8) 1]"

definition bf_get :: "nat \<Rightarrow> bytes \<Rightarrow> bool" where
  "bf_get n bs = ((bs ! (n div 8)) AND push_bit (n mod 8) 1 \<noteq> 0)"

definition bf_Add :: "bytes \<Rightarrow> BloomFilter \<Rightarrow> BloomFilter" where
  "bf_Add key bf = bf\<lparr>bf_bytes :=
     fold (\<lambda>i. bf_set (bf_bit bf key i)) [0..<unat (bf_hash_count bf)] (bf_bytes bf)\<rparr>"

definition bf_MightContain :: "bytes \<Rightarrow> BloomFilter \<Rightarrow> bool" where
  "bf_MightContain key bf =
     list_all (\<lambda>i. bf_get (bf_bit bf key i) (bf_bytes bf)) [0..<unat (bf_hash_count bf)]"

definition bf_FromRaw :: "bytes \<Rightarrow> u64 \<Rightarrow> u32 \<Rightarrow> BloomFilter" where
  "bf_FromRaw data bit_count hash_count =
     \<lparr>bf_bits = bit_count, bf_hash_count = hash_count, bf_bytes = take (bf_size bit_count) data\<rparr>"

section \<open>Invariant\<close>

text \<open>Every selected bit lies inside the array.\<close>

definition bf_wf :: "BloomFilter \<Rightarrow> bool" where
  "bf_wf bf \<longleftrightarrow> 0 < bf_bits bf \<and> length (bf_bytes bf) = bf_size (bf_bits bf)"

lemma bf_bit_bound:
  assumes "bf_wf bf"
  shows "bf_bit bf key i div 8 < length (bf_bytes bf)"
proof -
  have "0 < unat (bf_bits bf)" using assms by (simp add: bf_wf_def unat_gt_0 word_greater_zero_iff)
  then have "bf_bit bf key i < unat (bf_bits bf)"
    by (simp add: bf_bit_def unat_mod_distrib)
  then show ?thesis using assms by (simp add: bf_wf_def bf_size_def)
qed

lemma length_bf_set [simp]: "length (bf_set n bs) = length bs"
  by (simp add: bf_set_def)

lemma length_fold_bf_set [simp]: "length (fold (\<lambda>i. bf_set (f i)) is bs) = length bs"
  by (induction "is" arbitrary: bs) simp_all

lemma bf_get_bit: "bf_get n bs \<longleftrightarrow> bit (bs ! (n div 8)) (n mod 8)"
  by (simp add: bf_get_def bit_iff_and_push_bit_not_eq_0)

lemma bf_get_set:
  assumes "n div 8 < length bs"
  shows "bf_get m (bf_set n bs) \<longleftrightarrow> m = n \<or> bf_get m bs"
proof -
  have "bit (b OR push_bit k 1) j \<longleftrightarrow> bit b j \<or> j = k" if "k < 8" "j < 8" for b :: u8 and j k
    using that by (auto simp: bit_simps)
  moreover have "m = n \<longleftrightarrow> m div 8 = n div 8 \<and> m mod 8 = n mod 8"
    by (metis div_mult_mod_eq)
  ultimately show ?thesis
    using assms by (auto simp: bf_get_bit bf_set_def nth_list_update)
qed

lemma bf_get_fold:
  assumes "\<forall>i \<in> set is. f i div 8 < length bs"
  shows "bf_get m (fold (\<lambda>i. bf_set (f i)) is bs) \<longleftrightarrow> m \<in> f ` set is \<or> bf_get m bs"
  using assms by (induction "is" arbitrary: bs) (auto simp: bf_get_set)

lemma bf_bit_Add [simp]: "bf_bit (bf_Add k bf) key i = bf_bit bf key i"
  by (simp add: bf_bit_def bf_Add_def)

lemma bf_Add_fields [simp]:
  "bf_bits (bf_Add k bf) = bf_bits bf" "bf_hash_count (bf_Add k bf) = bf_hash_count bf"
  "length (bf_bytes (bf_Add k bf)) = length (bf_bytes bf)"
  by (simp_all add: bf_Add_def)

lemma bf_wf_Add [simp]: "bf_wf (bf_Add k bf) = bf_wf bf"
  by (simp add: bf_wf_def)

lemma bf_wf_new: "bf_wf (bf_new bits hashes)"
  by (auto simp: bf_wf_def bf_new_def Let_def word_gt_0)

lemma bf_get_Add:
  assumes "bf_wf bf"
  shows "bf_get m (bf_bytes (bf_Add k bf))
    \<longleftrightarrow> m \<in> bf_bit bf k ` {0..<unat (bf_hash_count bf)} \<or> bf_get m (bf_bytes bf)"
  using bf_bit_bound [OF assms] by (simp add: bf_Add_def bf_get_fold)

lemma bf_MightContain_Add:
  assumes "bf_wf bf"
  shows "bf_MightContain k (bf_Add k bf)"
    and "bf_MightContain k' bf \<Longrightarrow> bf_MightContain k' (bf_Add k bf)"
  using assms by (auto simp: bf_MightContain_def list_all_iff bf_get_Add)

lemma bf_wf_fold: "bf_wf (fold bf_Add ks bf) = bf_wf bf"
  by (induction ks arbitrary: bf) simp_all

lemma bf_fold_fields:
  "bf_bits (fold bf_Add ks bf) = bf_bits bf" "bf_hash_count (fold bf_Add ks bf) = bf_hash_count bf"
  "length (bf_bytes (fold bf_Add ks bf)) = length (bf_bytes bf)"
  by (induction ks arbitrary: bf) simp_all

lemma bf_FromRaw_wf:
  "bf_wf bf \<Longrightarrow> bf_FromRaw (bf_bytes bf @ rest) (bf_bits bf) (bf_hash_count bf) = bf"
  by (cases bf) (simp add: bf_FromRaw_def bf_wf_def)

section \<open>The filter interface\<close>

text \<open>
  What the table reader relies on: a key that was added is never denied, whatever was added
  before or after it, and a stored filter answers as the original.
\<close>

locale key_filter =
  fixes inv :: "'f \<Rightarrow> bool"
    and add :: "bytes \<Rightarrow> 'f \<Rightarrow> 'f"
    and query :: "bytes \<Rightarrow> 'f \<Rightarrow> bool"
  assumes inv_add: "inv f \<Longrightarrow> inv (add k f)"
    and query_added: "inv f \<Longrightarrow> query k (add k f)"
    and query_kept: "inv f \<Longrightarrow> query k' f \<Longrightarrow> query k' (add k f)"
begin

lemma query_fold_kept: "inv f \<Longrightarrow> query k f \<Longrightarrow> query k (fold add ks f)"
  by (induction ks arbitrary: f) (simp_all add: inv_add query_kept)

lemma query_fold: "inv f \<Longrightarrow> k \<in> set ks \<Longrightarrow> query k (fold add ks f)"
  by (induction ks arbitrary: f) (auto simp: inv_add query_added query_fold_kept)

end

interpretation bloom: key_filter bf_wf bf_Add bf_MightContain
  by unfold_locales (simp_all add: bf_MightContain_Add)

section \<open>Properties\<close>

text \<open>
  C36: no false negatives. Whatever the constructor's arguments, after keys \<open>ks\<close> were added the
  filter admits each of them, and so does the filter rebuilt by \<open>FromRaw\<close> from the bytes and
  the two counts that the table file stores.
\<close>

theorem bloom_no_false_negatives:
  assumes "k \<in> set ks" and "bf = fold bf_Add ks (bf_new bits hashes)"
  shows "bf_MightContain k bf
    \<and> bf_MightContain k (bf_FromRaw (bf_bytes bf @ rest) (bf_bits bf) (bf_hash_count bf))"
proof -
  have "bf_MightContain k bf"
    unfolding assms(2) by (rule bloom.query_fold [OF bf_wf_new assms(1)])
  moreover have "bf_wf bf" unfolding assms(2) by (simp add: bf_wf_fold bf_wf_new)
  ultimately show ?thesis by (simp add: bf_FromRaw_wf)
qed

theorem bloom_no_false_negatives_witness:
  "bf_MightContain [1] (fold bf_Add [[2], [1]] (bf_new 100 7))
   \<and> bf_MightContain [1] (bf_FromRaw (bf_bytes (fold bf_Add [[2], [1]] (bf_new 100 7)) @ [0])
       (bf_bits (fold bf_Add [[2], [1]] (bf_new 100 7))) (bf_hash_count (fold bf_Add [[2], [1]] (bf_new 100 7))))"
  by (rule bloom_no_false_negatives [OF _ refl]) simp

end
