(* ===== verification/Block.thy ===== *)
theory Block
  imports Crc32 Kv_Types Bloom
begin

text \<open>
  The block format of the tables: the \<open>BlockBuilder\<close> and \<open>WriteBlock\<close> of \<^verbatim>\<open>src/sstable.cpp\<close>
  that produce a block, and the cursor \<open>class Block\<close> of \<^verbatim>\<open>include/kvdb/block.hpp\<close> that reads it.
  \<^verbatim>\<open>kCompression\<close> is \<^verbatim>\<open>kCompressionNone\<close>, so \<open>CompressBlock\<close> and \<open>DecompressBlock\<close> leave their
  buffer alone.
\<close>

section \<open>Building a block\<close>

definition kCompression :: u8 where
  "kCompression = kCompressionNone"

text \<open>A \<open>SerializedEntry\<close> holds 32-bit lengths beside the data; its size is a 32-bit sum.\<close>

definition se_key :: "KeyValuePair \<Rightarrow> bytes" where
  "se_key e = take (unat (of_nat (length (kv_key e)) :: u32)) (kv_key e)"

definition se_value :: "KeyValuePair \<Rightarrow> bytes" where
  "se_value e = take (unat (of_nat (length (kv_value e)) :: u32)) (kv_value e)"

definition WireSize :: "KeyValuePair \<Rightarrow> nat" where
  "WireSize e = unat (4 + of_nat (length (kv_key e)) + 4 + of_nat (length (kv_value e)) + 8 + 1 :: u32)"

record BlockBuilder =
  bb_block_size :: nat
  bb_entries :: "KeyValuePair list"
  bb_data_size :: nat
  bb_count :: u32

definition bb_new :: "nat \<Rightarrow> BlockBuilder" where
  "bb_new block_size = \<lparr>bb_block_size = block_size, bb_entries = [], bb_data_size = 0, bb_count = 0\<rparr>"

text \<open>\<open>None\<close> is \<^verbatim>\<open>false\<close>: the entry does not fit and the builder is unchanged.\<close>

definition bb_TryAppend :: "KeyValuePair \<Rightarrow> bool \<Rightarrow> BlockBuilder \<Rightarrow> BlockBuilder option" where
  "bb_TryAppend e allow_empty b =
     (let ns = bb_data_size b + WireSize e
      in if \<not> allow_empty \<and> bb_count b > 0 \<and> 4 + ns > bb_block_size b then None
         else Some (b\<lparr>bb_entries := bb_entries b @ [e], bb_data_size := ns, bb_count := bb_count b + 1\<rparr>))"

definition bb_Reset :: "BlockBuilder \<Rightarrow> BlockBuilder" where
  "bb_Reset b = b\<lparr>bb_entries := [], bb_data_size := 0, bb_count := 0\<rparr>"

definition se_enc :: "KeyValuePair \<Rightarrow> bytes" where
  "se_enc e = WriteUint32LE (of_nat (length (kv_key e))) @ se_key e
     @ WriteUint32LE (of_nat (length (kv_value e))) @ se_value e
     @ WriteUint64LE (kv_timestamp e) @ [if kv_is_tombstone e then 1 else 0]"

definition bb_payload :: "BlockBuilder \<Rightarrow> bytes" where
  "bb_payload b = WriteUint32LE (bb_count b) @ concat (map se_enc (bb_entries b))"

definition block_frame :: "bytes \<Rightarrow> bytes" where
  "block_frame cb = WriteUint32LE (crc32 cb) @ kCompression # WriteUint32LE (of_nat (length cb)) @ cb"

text \<open>\<open>FreezeBlock\<close> and \<open>WriteBlock\<close> produce the same bytes; both enter the keys into the filter.\<close>

definition bb_FreezeBlock :: "BlockBuilder \<Rightarrow> BloomFilter \<Rightarrow> bytes \<times> BloomFilter \<times> bytes" where
  "bb_FreezeBlock b bloom =
     (block_frame (bb_payload b), fold bf_Add (map se_key (bb_entries b)) bloom, bb_payload b)"

definition WriteBlock ::
  "bytes \<Rightarrow> BlockBuilder \<Rightarrow> u64 list \<Rightarrow> BloomFilter \<Rightarrow> bytes \<times> u64 list \<times> BloomFilter" where
  "WriteBlock file b offsets bloom =
     (file @ block_frame (bb_payload b), offsets @ [of_nat (length file)],
      fold bf_Add (map se_key (bb_entries b)) bloom)"

section \<open>Reading a block\<close>

record block =
  blk_data :: bytes
  blk_pos :: nat
  blk_count :: u32
  blk_idx :: u32

definition blk_new :: "bytes \<Rightarrow> block" where
  "blk_new d = \<lparr>blk_data = d, blk_pos = 4,
     blk_count = (if 4 \<le> length d then rd32 d 0 else 0), blk_idx = 0\<rparr>"

definition blk_Reset :: "block \<Rightarrow> block" where
  "blk_Reset b = b\<lparr>blk_pos := 4, blk_idx := 0\<rparr>"

text \<open>The loop of \<open>Seek\<close>; \<^verbatim>\<open>vl + 8 + 1\<close> is a 32-bit sum.\<close>

function blk_skip :: "u32 \<Rightarrow> block \<Rightarrow> block" where
  "blk_skip idx b =
     (if blk_idx b < idx \<and> blk_pos b + 4 \<le> length (blk_data b)
      then let p1 = blk_pos b + 4 + unat (rd32 (blk_data b) (blk_pos b))
           in if p1 + 4 > length (blk_data b) then b\<lparr>blk_pos := p1\<rparr>
              else blk_skip idx (b\<lparr>blk_pos := p1 + 4 + unat (rd32 (blk_data b) p1 + 8 + 1),
                                   blk_idx := blk_idx b + 1\<rparr>)
      else b)"
  by pat_completeness auto
termination
  by (relation "measure (\<lambda>(_, b). length (blk_data b) - blk_pos b)") (auto simp: Let_def)

declare blk_skip.simps [simp del]

definition blk_Seek :: "u32 \<Rightarrow> block \<Rightarrow> block" where
  "blk_Seek idx b = blk_skip idx (if idx < blk_idx b then b\<lparr>blk_pos := 4, blk_idx := 0\<rparr> else b)"

text \<open>\<open>None\<close> is \<^verbatim>\<open>false\<close>; the cursor stays where the reading stopped.\<close>

definition blk_Read :: "block \<Rightarrow> block \<times> KeyValuePair option" where
  "blk_Read b =
     (let d = blk_data b; p0 = blk_pos b
      in if blk_idx b \<ge> blk_count b \<or> p0 + 4 > length d then (b, None)
         else let kl = unat (rd32 d p0); p1 = p0 + 4
         in if p1 + kl > length d then (b\<lparr>blk_pos := p1\<rparr>, None)
         else let p2 = p1 + kl
         in if p2 + 4 > length d then (b\<lparr>blk_pos := p2\<rparr>, None)
         else let vl = unat (rd32 d p2); p3 = p2 + 4
         in if p3 + vl > length d then (b\<lparr>blk_pos := p3\<rparr>, None)
         else let p4 = p3 + vl
         in if p4 + 8 + 1 > length d then (b\<lparr>blk_pos := p4\<rparr>, None)
         else (b\<lparr>blk_pos := p4 + 9, blk_idx := blk_idx b + 1\<rparr>,
               Some \<lparr>kv_key = take kl (drop p1 d), kv_value = take vl (drop p3 d),
                     kv_timestamp = rd64 d p4, kv_is_tombstone = (d ! (p4 + 8) AND 1 \<noteq> 0)\<rparr>))"

lemma blk_count_skip [simp]: "blk_count (blk_skip idx b) = blk_count b"
  by (induction idx b rule: blk_skip.induct) (subst blk_skip.simps, simp add: Let_def)

lemma blk_count_Seek [simp]: "blk_count (blk_Seek idx b) = blk_count b"
  by (simp add: blk_Seek_def)

lemma blk_count_Read: "blk_Read b = (b', kv) \<Longrightarrow> blk_count b' = blk_count b"
  by (auto simp: blk_Read_def Let_def split: if_splits)

section \<open>Round trip\<close>

text \<open>Entries whose lengths fit the format, and entries whose whole size does.\<close>

definition kv_ok :: "KeyValuePair \<Rightarrow> bool" where
  "kv_ok e \<longleftrightarrow> length (kv_key e) + length (kv_value e) + 17 < 2 ^ 32"

lemma se_data_ok:
  assumes "kv_ok e"
  shows "se_key e = kv_key e" "se_value e = kv_value e"
    "unat (of_nat (length (kv_key e)) :: u32) = length (kv_key e)"
    "unat (of_nat (length (kv_value e)) :: u32) = length (kv_value e)"
proof -
  show u: "unat (of_nat (length (kv_key e)) :: u32) = length (kv_key e)"
    "unat (of_nat (length (kv_value e)) :: u32) = length (kv_value e)"
    using assms by (simp_all add: kv_ok_def unat_of_nat_small)
  then show "se_key e = kv_key e" "se_value e = kv_value e"
    by (simp_all add: se_key_def se_value_def)
qed

lemma length_se_enc:
  "kv_ok e \<Longrightarrow> length (se_enc e) = length (kv_key e) + length (kv_value e) + 17"
  by (simp add: se_enc_def se_data_ok)

lemma WireSize_ok:
  assumes "kv_ok e"
  shows "WireSize e = length (se_enc e)"
proof -
  have "(4 + of_nat (length (kv_key e)) + 4 + of_nat (length (kv_value e)) + 8 + 1 :: u32)
      = of_nat (length (kv_key e) + length (kv_value e) + 17)"
    by simp
  with assms show ?thesis
    unfolding WireSize_def length_se_enc [OF assms] by (simp only: unat_of_nat_small kv_ok_def len32)
qed

text \<open>Where the fields of an entry behind a prefix are.\<close>

lemma se_layout:
  assumes "kv_ok e"
  defines "d p post \<equiv> p @ se_enc e @ post" and "kl \<equiv> length (kv_key e)" and "vl \<equiv> length (kv_value e)"
  shows "rd32 (d p post) (length p) = of_nat kl"
    and "rd32 (d p post) (length p + 4 + kl) = of_nat vl"
    and "rd64 (d p post) (length p + 4 + kl + 4 + vl) = kv_timestamp e"
    and "(d p post ! (length p + 4 + kl + 4 + vl + 8) AND 1 \<noteq> 0) = kv_is_tombstone e"
    and "take kl (drop (length p + 4) (d p post)) = kv_key e"
    and "take vl (drop (length p + 4 + kl + 4) (d p post)) = kv_value e"
    and "length (d p post) = length p + 4 + kl + 4 + vl + 9 + length post"
proof -
  let ?fl = "if kv_is_tombstone e then 1 else 0 :: u8"
  have d: "d p post = p @ WriteUint32LE (of_nat kl) @ kv_key e @ WriteUint32LE (of_nat vl) @ kv_value e
      @ WriteUint64LE (kv_timestamp e) @ ?fl # post"
    by (simp add: d_def kl_def vl_def se_enc_def se_data_ok [OF assms(1)])
  show "rd32 (d p post) (length p) = of_nat kl"
    unfolding d by (rule rd32_at) simp
  show "rd32 (d p post) (length p + 4 + kl) = of_nat vl"
    unfolding d using rd32_at [of "p @ WriteUint32LE (of_nat kl) @ kv_key e"] by (simp add: kl_def)
  show "rd64 (d p post) (length p + 4 + kl + 4 + vl) = kv_timestamp e"
    unfolding d using rd64_at [of "p @ WriteUint32LE (of_nat kl) @ kv_key e
        @ WriteUint32LE (of_nat vl) @ kv_value e"] by (simp add: kl_def vl_def add.assoc)
  show "(d p post ! (length p + 4 + kl + 4 + vl + 8) AND 1 \<noteq> 0) = kv_is_tombstone e"
    unfolding d by (simp add: nth_append kl_def vl_def)
  show "take kl (drop (length p + 4) (d p post)) = kv_key e"
    "take vl (drop (length p + 4 + kl + 4) (d p post)) = kv_value e"
    "length (d p post) = length p + 4 + kl + 4 + vl + 9 + length post"
    unfolding d by (simp_all add: kl_def vl_def)
qed

lemma blk_Read_entry:
  assumes "kv_ok e" and "blk_data b = p @ se_enc e @ post" and "blk_pos b = length p"
    and "blk_idx b < blk_count b"
  shows "blk_Read b = (b\<lparr>blk_pos := length p + length (se_enc e), blk_idx := blk_idx b + 1\<rparr>, Some e)"
proof -
  have "\<lparr>kv_key = kv_key e, kv_value = kv_value e, kv_timestamp = kv_timestamp e,
      kv_is_tombstone = kv_is_tombstone e\<rparr> = e"
    by simp
  moreover have "length (p @ se_enc e @ post)
      = length p + 4 + length (kv_key e) + 4 + length (kv_value e) + 9 + length post"
    by (rule se_layout(7) [OF assms(1)])
  ultimately show ?thesis
    unfolding blk_Read_def Let_def assms(2,3) length_se_enc [OF assms(1)] se_layout(1) [OF assms(1)]
      se_data_ok(3) [OF assms(1)] se_layout(2) [OF assms(1)] se_data_ok(4) [OF assms(1)]
      se_layout(3-6) [OF assms(1)]
    using assms(4) by (simp add: not_le)
qed

lemma blk_skip_entry:
  assumes "kv_ok e" and "blk_data b = p @ se_enc e @ post" and "blk_pos b = length p"
    and "blk_idx b < idx"
  shows "blk_skip idx b
    = blk_skip idx (b\<lparr>blk_pos := length p + length (se_enc e), blk_idx := blk_idx b + 1\<rparr>)"
proof -
  have "(of_nat (length (kv_value e)) + 8 + 1 :: u32) = of_nat (length (kv_value e) + 9)"
    by simp
  then have "unat (of_nat (length (kv_value e)) + 8 + 1 :: u32) = length (kv_value e) + 9"
    using assms(1) by (simp only: unat_of_nat_small kv_ok_def len32)
  moreover have "length (p @ se_enc e @ post)
      = length p + 4 + length (kv_key e) + 4 + length (kv_value e) + 9 + length post"
    by (rule se_layout(7) [OF assms(1)])
  ultimately show ?thesis
    using assms(4)
    by (subst blk_skip.simps, unfold Let_def assms(2,3) length_se_enc [OF assms(1)]
        se_layout(1) [OF assms(1)] se_data_ok(3) [OF assms(1)] se_layout(2) [OF assms(1)]
        se_data_ok(4) [OF assms(1)])
      (simp add: ac_simps)
qed

text \<open>The cursor in front of entry \<open>i\<close> of a block with entries \<open>es\<close>.\<close>

definition blk_bytes :: "KeyValuePair list \<Rightarrow> bytes" where
  "blk_bytes es = WriteUint32LE (of_nat (length es)) @ concat (map se_enc es)"

definition blk_at :: "KeyValuePair list \<Rightarrow> nat \<Rightarrow> block" where
  "blk_at es i = \<lparr>blk_data = blk_bytes es, blk_pos = 4 + length (concat (map se_enc (take i es))),
     blk_count = of_nat (length es), blk_idx = of_nat i\<rparr>"

definition block_ok :: "KeyValuePair list \<Rightarrow> bool" where
  "block_ok es \<longleftrightarrow> length es < 2 ^ 32 \<and> (\<forall>e \<in> set es. kv_ok e)"

lemma blk_new_at: "blk_new (blk_bytes es) = blk_at es 0"
  using rd32_at [of "[]" 0] by (simp add: blk_new_def blk_at_def blk_bytes_def)

lemma blk_bytes_split:
  assumes "i < length es"
  shows "blk_bytes es = (WriteUint32LE (of_nat (length es)) @ concat (map se_enc (take i es)))
    @ se_enc (es ! i) @ concat (map se_enc (drop (Suc i) es))"
  using id_take_nth_drop [OF assms]
  by (metis (no_types, lifting) append.assoc blk_bytes_def concat.simps(2) concat_append
      list.simps(9) map_append)

lemma of_nat_u32_less: "i < n \<Longrightarrow> n < 2 ^ 32 \<Longrightarrow> (of_nat i :: u32) < of_nat n"
  by (simp add: word_less_nat_alt unat_of_nat_small)

lemma blk_at_Suc:
  assumes "i < length es"
  shows "blk_at es (Suc i) = (blk_at es i)\<lparr>blk_pos := blk_pos (blk_at es i) + length (se_enc (es ! i)),
    blk_idx := blk_idx (blk_at es i) + 1\<rparr>"
  using assms by (simp add: blk_at_def take_Suc_conv_app_nth add.commute)

lemma blk_at_split:
  assumes "i < length es"
  obtains p post where "blk_data (blk_at es i) = p @ se_enc (es ! i) @ post"
    and "blk_pos (blk_at es i) = length p"
proof (rule that)
  show "blk_data (blk_at es i) = (WriteUint32LE (of_nat (length es)) @ concat (map se_enc (take i es)))
      @ se_enc (es ! i) @ concat (map se_enc (drop (Suc i) es))"
    using blk_bytes_split [OF assms] by (simp add: blk_at_def)
qed (simp add: blk_at_def)

lemma blk_Read_at:
  assumes "block_ok es" and "i < length es"
  shows "blk_Read (blk_at es i) = (blk_at es (Suc i), Some (es ! i))"
proof -
  obtain p post where "blk_data (blk_at es i) = p @ se_enc (es ! i) @ post"
    and "blk_pos (blk_at es i) = length p"
    by (rule blk_at_split [OF assms(2)])
  moreover have "blk_idx (blk_at es i) < blk_count (blk_at es i)"
    using assms by (simp add: blk_at_def block_ok_def of_nat_u32_less)
  moreover have "kv_ok (es ! i)" using assms by (simp add: block_ok_def)
  ultimately show ?thesis
    by (simp add: blk_Read_entry blk_at_Suc [OF assms(2)])
qed

lemma blk_Read_end:
  assumes "length es \<le> i" and "i < 2 ^ 32"
  shows "snd (blk_Read (blk_at es i)) = None"
  using assms by (simp add: blk_Read_def blk_at_def Let_def word_le_nat_alt unat_of_nat_small)

lemma blk_skip_at:
  assumes "block_ok es" and "j \<le> i" and "i \<le> length es"
  shows "blk_skip (of_nat i) (blk_at es j) = blk_at es i"
  using assms(2)
proof (induction j rule: inc_induct)
  case base
  then show ?case by (subst blk_skip.simps) (simp add: blk_at_def)
next
  case (step j)
  have j: "j < length es" and e: "kv_ok (es ! j)" using step assms by (auto simp: block_ok_def)
  obtain p post where "blk_data (blk_at es j) = p @ se_enc (es ! j) @ post"
    and "blk_pos (blk_at es j) = length p"
    by (rule blk_at_split [OF j])
  moreover have "blk_idx (blk_at es j) < of_nat i"
    using step assms by (simp add: blk_at_def block_ok_def of_nat_u32_less)
  ultimately have "blk_skip (of_nat i) (blk_at es j) = blk_skip (of_nat i) (blk_at es (Suc j))"
    by (simp add: blk_skip_entry [OF e] blk_at_Suc [OF j])
  with step.IH show ?case by simp
qed

lemma blk_Seek_at:
  assumes "block_ok es" and "i \<le> length es" and "j \<le> length es"
  shows "blk_Seek (of_nat i) (blk_at es j) = blk_at es i"
proof (cases "i < j")
  case True
  then have "(of_nat i :: u32) < blk_idx (blk_at es j)"
    using assms by (simp add: blk_at_def block_ok_def of_nat_u32_less)
  moreover have "(blk_at es j)\<lparr>blk_pos := 4, blk_idx := 0\<rparr> = blk_at es 0"
    by (simp add: blk_at_def)
  ultimately show ?thesis
    using blk_skip_at [OF assms(1) _ assms(2), of 0] by (simp add: blk_Seek_def)
next
  case False
  then have "\<not> (of_nat i :: u32) < blk_idx (blk_at es j)"
    using assms by (auto simp: blk_at_def block_ok_def word_less_nat_alt unat_of_nat_small)
  with False show ?thesis
    using blk_skip_at [OF assms(1) _ assms(2), of j] by (simp add: blk_Seek_def)
qed

lemma bb_payload_bytes:
  assumes "bb_count b = of_nat (length (bb_entries b))"
  shows "bb_payload b = blk_bytes (bb_entries b)"
  using assms by (simp add: bb_payload_def blk_bytes_def)

section \<open>Properties\<close>

text \<open>
  random access into a block. The payload of a block with entries \<open>es\<close>, opened as a
  \<open>Block\<close> and read after \<open>Seek(i)\<close>, yields exactly entry \<open>i\<close> from whatever entry \<open>j\<close> the cursor
  stood at, and leaves the cursor in front of entry \<open>i + 1\<close>.
\<close>

theorem block_random_access:
  assumes "block_ok es" and "i < length es" and "j \<le> length es"
  shows "blk_Read (blk_Seek (of_nat i) (blk_Seek (of_nat j) (blk_new (blk_bytes es))))
    = (blk_Seek (of_nat (Suc i)) (blk_new (blk_bytes es)), Some (es ! i))"
  using assms blk_Seek_at [OF assms(1), of _ 0] blk_Seek_at [OF assms(1), of i j]
  by (simp add: blk_new_at blk_Read_at del: of_nat_Suc)

theorem block_random_access_witness:
  "blk_Read (blk_Seek (of_nat 1) (blk_Seek (of_nat 2) (blk_new (blk_bytes [mk_kv [1] [2] 3, mk_kv [4] [] 5]))))
   = (blk_Seek (of_nat (Suc 1)) (blk_new (blk_bytes [mk_kv [1] [2] 3, mk_kv [4] [] 5])), Some ([mk_kv [1] [2] 3, mk_kv [4] [] 5] ! 1))"
  by (rule block_random_access) (simp_all add: block_ok_def kv_ok_def mk_kv_def)

end
