(* ===== verification/Sstable.thy ===== *)
theory Sstable
  imports Block "HOL-Library.Monad_Syntax"
begin

text \<open>
  The sorted tables of \<^verbatim>\<open>src/sstable.cpp\<close>: \<open>Write\<close>, \<open>ReadMetadata\<close>, \<open>ReadAll\<close> and \<open>LookupKey\<close>.
  A file is its bytes. The Bloom filter's floating-point sizing is the parameter \<open>bsz\<close>, which
  gives the converted numbers of bits and of hash functions for a number of entries. A read
  through a pointer beyond the buffer is the error \<open>SstOutOfBounds\<close>; the C++ standard leaves it
  undefined. The block cache of the interface \<open>BlockReader\<close> is a pair of partial maps.
\<close>

section \<open>Metadata\<close>

text \<open>\<open>SSTable::Metadata\<close> with the fields that are read from the table itself.\<close>

record SstMetadata = Metadata +
  md_min_key :: bytes
  md_max_key :: bytes
  md_bloom :: BloomFilter
  md_block_offsets :: "u64 list"
  md_first_key_buf :: bytes
  md_first_key_offsets :: "u32 list"

record CachedHeavy =
  ch_bloom :: BloomFilter
  ch_block_offsets :: "u64 list"
  ch_first_key_buf :: bytes
  ch_first_key_offsets :: "u32 list"
  ch_aborted :: "u64 list"

record block_cache =
  bc_heavy :: "u64 \<Rightarrow> CachedHeavy option"
  bc_blocks :: "u64 \<times> u32 \<Rightarrow> bytes option"

section \<open>Write\<close>

record sst_writer =
  sw_file :: bytes
  sw_builder :: BlockBuilder
  sw_offsets :: "u64 list"
  sw_first_keys :: "bytes list"
  sw_bloom :: BloomFilter

definition sst_header :: "nat \<Rightarrow> bytes \<Rightarrow> bytes \<Rightarrow> bytes" where
  "sst_header n min_key max_key = WriteUint32LE kSSTableMagic @ WriteUint32LE kSSTableVersion
     @ WriteUint32LE (of_nat kSSTableBlockSize) @ WriteUint32LE (of_nat n)
     @ [kCompression, 0, 0, 0]
     @ WriteUint16LE (of_nat (length min_key)) @ WriteUint16LE (of_nat (length max_key))"

definition sw_flush :: "sst_writer \<Rightarrow> sst_writer" where
  "sw_flush w = (case WriteBlock (sw_file w) (sw_builder w) (sw_offsets w) (sw_bloom w) of
     (file, offsets, bloom) \<Rightarrow> w\<lparr>sw_file := file, sw_offsets := offsets, sw_bloom := bloom\<rparr>)"

text \<open>The loop \<^verbatim>\<open>while(!builder.TryAppend(se,allow))\<close>.\<close>

function sw_append :: "KeyValuePair \<Rightarrow> bool \<Rightarrow> sst_writer \<Rightarrow> sst_writer" where
  "sw_append kv allow w =
     (case bb_TryAppend kv allow (sw_builder w) of
        Some b \<Rightarrow> w\<lparr>sw_builder := b\<rparr>
      | None \<Rightarrow> (let w1 = sw_flush w
          in sw_append kv True (w1\<lparr>sw_builder := bb_Reset (sw_builder w1),
                                  sw_first_keys := sw_first_keys w1 @ [kv_key kv]\<rparr>)))"
  by pat_completeness auto
termination
  by (relation "measure (\<lambda>(_, allow, _). if allow then 0 else 1)")
    (auto simp: bb_TryAppend_def Let_def split: if_splits)

declare sw_append.simps [simp del]

definition sw_put :: "KeyValuePair \<Rightarrow> sst_writer \<Rightarrow> sst_writer" where
  "sw_put kv w =
     (let allow = (bb_count (sw_builder w) = 0)
      in sw_append kv allow
           (if allow then w\<lparr>sw_first_keys := sw_first_keys w @ [kv_key kv]\<rparr> else w))"

text \<open>The region that the metadata checksum covers.\<close>

definition fk_enc :: "bytes \<Rightarrow> bytes" where
  "fk_enc k = (let kl = of_nat (length k) :: u16 in WriteUint16LE kl @ take (unat kl) k)"

definition sst_meta_region ::
  "bytes \<Rightarrow> bytes \<Rightarrow> BloomFilter \<Rightarrow> u64 list option \<Rightarrow> u64 list \<Rightarrow> bytes list \<Rightarrow> bytes" where
  "sst_meta_region min_key max_key bloom aborted offsets first_keys =
     min_key @ max_key
     @ WriteUint32LE (ucast (bf_bits bloom)) @ WriteUint32LE (bf_hash_count bloom)
     @ WriteUint32LE (of_nat (length (bf_bytes bloom))) @ bf_bytes bloom
     @ (case aborted of None \<Rightarrow> WriteUint32LE 0
        | Some ab \<Rightarrow> WriteUint32LE (of_nat (length ab)) @ concat (map WriteUint64LE ab))
     @ WriteUint32LE (of_nat (length offsets)) @ concat (map WriteUint64LE offsets)
     @ concat (map fk_enc first_keys)"

definition sst_finish :: "bytes \<Rightarrow> bytes \<Rightarrow> bytes" where
  "sst_finish file meta = file @ meta @ WriteUint32LE (crc32 meta)
     @ WriteUint64LE (of_nat (length file)) @ WriteUint32LE kSSTableFooterMagic"

definition sst_start :: "(nat \<Rightarrow> u64 \<times> u32) \<Rightarrow> KeyValuePair list \<Rightarrow> bytes \<Rightarrow> bytes \<Rightarrow> sst_writer" where
  "sst_start bsz entries min_key max_key =
     \<lparr>sw_file = sst_header (length entries) min_key max_key, sw_builder = bb_new kSSTableBlockSize,
      sw_offsets = [], sw_first_keys = [],
      sw_bloom = case_prod bf_new (bsz (if entries = [] then 1 else length entries))\<rparr>"

definition sst_Write ::
  "(nat \<Rightarrow> u64 \<times> u32) \<Rightarrow> KeyValuePair list \<Rightarrow> u64 list option \<Rightarrow> bytes" where
  "sst_Write bsz entries aborted =
     (let min_key = (if entries = [] then [] else kv_key (hd entries));
          max_key = (if entries = [] then [] else kv_key (last entries));
          w1 = fold sw_put entries (sst_start bsz entries min_key max_key);
          w2 = (if bb_count (sw_builder w1) > 0 then sw_flush w1 else w1)
      in sst_finish (sw_file w2)
           (sst_meta_region min_key max_key (sw_bloom w2) aborted (sw_offsets w2) (sw_first_keys w2)))"

section \<open>ReadAll\<close>

text \<open>
  An \<^verbatim>\<open>istream\<close> whose rest is \<open>s\<close>: \<^verbatim>\<open>get\<close> at the end returns \<^verbatim>\<open>EOF\<close>, 255 as a byte; \<^verbatim>\<open>read\<close> into a
  zeroed buffer leaves the missing bytes zero.
\<close>

definition s_get :: "bytes \<Rightarrow> u8 \<times> bytes" where
  "s_get s = (case s of [] \<Rightarrow> (255, []) | c # s' \<Rightarrow> (c, s'))"

definition s_u32 :: "bytes \<Rightarrow> u32 \<times> bytes" where
  "s_u32 s = (let (a, s) = s_get s; (b, s) = s_get s; (c, s) = s_get s; (d, s) = s_get s
     in (le32 a b c d, s))"

definition s_u64 :: "bytes \<Rightarrow> u64 \<times> bytes" where
  "s_u64 s = (let (a, s) = s_get s; (b, s) = s_get s; (c, s) = s_get s; (d, s) = s_get s;
       (e, s) = s_get s; (f, s) = s_get s; (g, s) = s_get s; (h, s) = s_get s
     in (le64 a b c d e f g h, s))"

definition s_read :: "nat \<Rightarrow> bytes \<Rightarrow> bytes \<times> bytes" where
  "s_read n s = (take n s @ replicate (n - length s) 0, drop n s)"

definition ra_entry :: "bytes \<Rightarrow> KeyValuePair \<times> bytes" where
  "ra_entry bs =
     (let (kl, bs) = s_u32 bs; (k, bs) = s_read (unat kl) bs;
          (vl, bs) = s_u32 bs; (v, bs) = s_read (unat vl) bs;
          (ts, bs) = s_u64 bs; (fl, bs) = s_get bs
      in (\<lparr>kv_key = k, kv_value = v, kv_timestamp = ts, kv_is_tombstone = (fl AND 1 \<noteq> 0)\<rparr>, bs))"

primrec ra_entries :: "nat \<Rightarrow> bytes \<Rightarrow> KeyValuePair list" where
  "ra_entries 0 bs = []"
| "ra_entries (Suc n) bs = (let (e, bs') = ra_entry bs in e # ra_entries n bs')"

definition ra_block :: "bytes \<Rightarrow> KeyValuePair list \<times> bytes" where
  "ra_block s =
     (let (_, s) = s_u32 s; s = drop 1 s; (csz, s) = s_u32 s; (cbuf, s) = s_read (unat csz) s;
          (n, bs) = s_u32 cbuf
      in (ra_entries (unat n) bs, s))"

text \<open>The loop over the blocks may run forever (on a truncated file), hence \<open>option\<close>.\<close>

partial_function (option) ra_loop :: "nat \<Rightarrow> KeyValuePair list \<Rightarrow> bytes \<Rightarrow> KeyValuePair list option" where
  "ra_loop ec entries s = (if length entries < ec
     then (case ra_block s of (es, s') \<Rightarrow> ra_loop ec (entries @ es) s')
     else Some entries)"

datatype sst_error =
    SstOpenFailed
  | SstTooSmall
  | SstBadMagic
  | SstBadVersion
  | SstBadFooter
  | SstMetaCrc
  | SstOutOfBounds

definition sst_ReadAll :: "bytes option \<Rightarrow> (sst_error + KeyValuePair list) option" where
  "sst_ReadAll file =
     (case file of None \<Rightarrow> Some (Inl SstOpenFailed)
      | Some s \<Rightarrow>
          (let (magic, s) = s_u32 s; (version, s') = s_u32 s
           in if magic \<noteq> kSSTableMagic then Some (Inl SstBadMagic)
              else if version \<noteq> kSSTableVersion then Some (Inl SstBadVersion)
              else let (_, s) = s_u32 s'; (ec, s) = s_u32 s; s = drop 8 s
              in if ec = 0 then Some (Inr []) else map_option Inr (ra_loop (unat ec) [] s)))"

section \<open>ReadMetadata\<close>

text \<open>
  The lambda \<^verbatim>\<open>r32\<close> returns an \<^verbatim>\<open>int\<close>: converting it to 64 bits extends the sign, so the two
  halves of a 64-bit field are combined as \<open>join64\<close> says.
\<close>

definition join64 :: "u32 \<Rightarrow> u32 \<Rightarrow> u64" where
  "join64 lo hi = scast lo OR push_bit 32 (scast hi)"

definition read64i :: "bytes \<Rightarrow> (u64 \<times> bytes) option" where
  "read64i p = do { (lo, p) \<leftarrow> ReadUint32LE p; (hi, p) \<leftarrow> ReadUint32LE p; Some (join64 lo hi, p) }"

primrec read64i_many :: "nat \<Rightarrow> bytes \<Rightarrow> (u64 list \<times> bytes) option" where
  "read64i_many 0 p = Some ([], p)"
| "read64i_many (Suc n) p = do {
     (x, p) \<leftarrow> read64i p; (xs, p) \<leftarrow> read64i_many n p; Some (x # xs, p) }"

text \<open>The first keys: their offsets, and the least and greatest length.\<close>

primrec read_first_keys ::
  "nat \<Rightarrow> nat \<Rightarrow> u32 \<Rightarrow> u32 \<Rightarrow> bytes \<Rightarrow> (u32 list \<times> u32 \<times> u32 \<times> bytes) option" where
  "read_first_keys 0 off mn mx p = Some ([], mn, mx, p)"
| "read_first_keys (Suc n) off mn mx p = do {
     (kl, p) \<leftarrow> ReadUint16LE p;
     (_, p) \<leftarrow> read_bytes (unat kl) p;
     let mn' = (if ucast kl < mn then ucast kl else mn);
     let mx' = (if ucast kl > mx then ucast kl else mx);
     (offs, mn'', mx'', p) \<leftarrow> read_first_keys n (off + 2 + unat kl) mn' mx' p;
     Some (of_nat off # offs, mn'', mx'', p) }"

definition sst_parse_meta :: "u16 \<Rightarrow> u16 \<Rightarrow> bytes \<Rightarrow> SstMetadata \<Rightarrow> SstMetadata option" where
  "sst_parse_meta minkl maxkl buf meta = do {
     (mink, p) \<leftarrow> read_bytes (unat minkl) buf;
     (maxk, p) \<leftarrow> read_bytes (unat maxkl) p;
     (bb, p) \<leftarrow> ReadUint32LE p;
     (bh, p) \<leftarrow> ReadUint32LE p;
     (bz, p) \<leftarrow> ReadUint32LE p;
     (bloom, p) \<leftarrow> (if bz > 0 then
         (if length p < bf_size (ucast bb) \<or> length p < unat bz then None
          else Some (bf_FromRaw p (ucast bb) bh, drop (unat bz) p))
       else Some (bf_default, p));
     (na, p) \<leftarrow> ReadUint32LE p;
     (ab, p) \<leftarrow> read64i_many (unat na) p;
     (bc, p) \<leftarrow> ReadUint32LE p;
     (offs, p) \<leftarrow> read64i_many (unat bc) p;
     (fko, mn, mx, p') \<leftarrow> read_first_keys (unat bc) 0 0xFFFFFFFF 0 p;
     Some (meta\<lparr>md_min_key := mink, md_max_key := maxk, md_bloom := bloom,
        aborted_batch_ts := fold List.insert ab [], md_block_offsets := offs,
        md_first_key_buf := take (length p - length p') p, md_first_key_offsets := fko,
        min_key_len := (if mn = 0xFFFFFFFF then 0 else mn), max_key_len := mx\<rparr>) }"

definition sst_meta0 :: "bytes \<Rightarrow> SstMetadata" where
  "sst_meta0 path = \<lparr>md_filepath = path, manifest_seq = 0, entry_count = 0, min_key_len = 0,
     max_key_len = 0, md_file_size = 0, md_level = 0, aborted_batch_ts = [], md_min_key = [],
     md_max_key = [], md_bloom = bf_default, md_block_offsets = [], md_first_key_buf = [],
     md_first_key_offsets = []\<rparr>"

definition sst_read_meta_file :: "bytes \<Rightarrow> bytes option \<Rightarrow> sst_error + SstMetadata" where
  "sst_read_meta_file path file =
     (case file of None \<Rightarrow> Inl SstOpenFailed
      | Some f \<Rightarrow>
          if length f < 24 + 12 then Inl SstTooSmall
          else if rd32 f 0 \<noteq> kSSTableMagic then Inl SstBadMagic
          else if rd32 f 4 \<noteq> kSSTableVersion then Inl SstBadVersion
          else let ftr = length f - 12;
                   filter_off = unat (join64 (rd32 f ftr) (rd32 f (ftr + 4)))
          in if rd32 f (ftr + 8) \<noteq> kSSTableFooterMagic then Inl SstBadFooter
          else if ftr < filter_off then Inl SstOutOfBounds
          else let buf = take (ftr - filter_off) (drop filter_off f)
          in case sst_parse_meta (rd16 f 20) (rd16 f 22) buf
                 ((sst_meta0 path)\<lparr>entry_count := scast (rd32 f 12), md_file_size := of_nat (length f)\<rparr>) of
               None \<Rightarrow> Inl SstOutOfBounds
             | Some meta \<Rightarrow>
                 if 4 \<le> length buf
                    \<and> crc32 (take (length buf - 4) buf) \<noteq> rd32 buf (length buf - 4)
                 then Inl SstMetaCrc else Inr meta)"

text \<open>The lengths of the cached first keys; a key that runs over the end stops the loop.\<close>

fun fk_lengths :: "u32 \<Rightarrow> u32 \<Rightarrow> bytes \<Rightarrow> u32 \<times> u32" where
  "fk_lengths mn mx (a # b # p) =
     (let kl = ucast (le16 a b)
      in fk_lengths (if kl < mn then kl else mn) (if kl > mx then kl else mx) (drop (unat kl) p))"
| "fk_lengths mn mx _ = (mn, mx)"

definition heavy_of :: "SstMetadata \<Rightarrow> CachedHeavy" where
  "heavy_of m = \<lparr>ch_bloom = md_bloom m, ch_block_offsets = md_block_offsets m,
     ch_first_key_buf = md_first_key_buf m, ch_first_key_offsets = md_first_key_offsets m,
     ch_aborted = aborted_batch_ts m\<rparr>"

definition meta_of_heavy :: "bytes \<Rightarrow> CachedHeavy \<Rightarrow> SstMetadata" where
  "meta_of_heavy path h = (case fk_lengths 0xFFFFFFFF 0 (ch_first_key_buf h) of (mn, mx) \<Rightarrow>
     (sst_meta0 path)\<lparr>md_bloom := ch_bloom h, md_block_offsets := ch_block_offsets h,
        md_first_key_buf := ch_first_key_buf h, md_first_key_offsets := ch_first_key_offsets h,
        aborted_batch_ts := ch_aborted h,
        min_key_len := (if mn = 0xFFFFFFFF then 0 else mn), max_key_len := mx\<rparr>)"

definition sst_ReadMetadata ::
  "bytes \<Rightarrow> bytes option \<Rightarrow> block_cache option \<Rightarrow> u64
   \<Rightarrow> block_cache option \<times> (sst_error + SstMetadata)" where
  "sst_ReadMetadata path file cache seq =
     (case Option.bind cache (\<lambda>c. bc_heavy c seq) of
        Some h \<Rightarrow> (cache, Inr (meta_of_heavy path h))
      | None \<Rightarrow> (case sst_read_meta_file path file of
            Inl e \<Rightarrow> (cache, Inl e)
          | Inr meta \<Rightarrow> (map_option (\<lambda>c. c\<lparr>bc_heavy := (bc_heavy c)(seq \<mapsto> heavy_of meta)\<rparr>) cache,
                         Inr meta)))"

section \<open>LookupKey\<close>

text \<open>\<^verbatim>\<open>scanBlock\<close>: \<open>Some v\<close> is \<^verbatim>\<open>true\<close> with \<^verbatim>\<open>value_out = v\<close>; a tombstone clears it.\<close>

function scan_from :: "u64 list \<Rightarrow> bytes \<Rightarrow> u64 \<Rightarrow> nat \<Rightarrow> block \<Rightarrow> bytes option" where
  "scan_from aborted key read_ts i blk =
     (if i < unat (blk_count blk) then
        (case blk_Read (blk_Seek (of_nat i) blk) of
           (_, None) \<Rightarrow> None
         | (blk', Some kv) \<Rightarrow>
             if kv_timestamp kv \<in> set aborted then scan_from aborted key read_ts (Suc i) blk'
             else if kv_key kv = key \<and> kv_timestamp kv \<le> read_ts
             then Some (if kv_is_tombstone kv then [] else kv_value kv)
             else scan_from aborted key read_ts (Suc i) blk')
      else None)"
  by pat_completeness auto
termination
  by (relation "measure (\<lambda>(_, _, _, i, blk). unat (blk_count blk) - i)")
    (auto dest!: blk_count_Read [OF sym])

declare scan_from.simps [simp del]

definition scanBlock :: "u64 list \<Rightarrow> bytes \<Rightarrow> u64 \<Rightarrow> bytes \<Rightarrow> bytes option" where
  "scanBlock aborted key read_ts d = scan_from aborted key read_ts 0 (blk_new d)"

text \<open>
  The block to look into. \<open>koff\<close> non-empty: the binary search over the first keys, at offsets
  \<open>koff\<close> of the buffer (the 32-bit indices do not overflow below two thousand million blocks); otherwise the
  linear scan, which counts the first keys that are not above the key.
\<close>

definition fk_at :: "bytes \<Rightarrow> u32 \<Rightarrow> bytes" where
  "fk_at buf off = take (unat (rd16 buf (unat off))) (drop (unat off + 2) buf)"

function bs_target :: "bytes \<Rightarrow> bytes \<Rightarrow> u32 list \<Rightarrow> nat \<Rightarrow> nat \<Rightarrow> nat" where
  "bs_target key buf koff lo hi =
     (if lo < hi then
        let mid = (lo + hi) div 2
        in if key < fk_at buf (koff ! mid) then bs_target key buf koff lo mid
           else bs_target key buf koff (mid + 1) hi
      else lo)"
  by pat_completeness auto
termination
  by (relation "measure (\<lambda>(_, _, _, lo, hi). hi - lo)") auto

declare bs_target.simps [simp del]

fun lin_target :: "bytes \<Rightarrow> nat \<Rightarrow> bytes \<Rightarrow> nat" where
  "lin_target key target (a # b # p) =
     (let kl = unat (le16 a b)
      in if key < take kl p then target else lin_target key (target + 1) (drop kl p))"
| "lin_target key target _ = target"

definition sst_target :: "bytes \<Rightarrow> bytes \<Rightarrow> u32 list \<Rightarrow> nat" where
  "sst_target key buf koff =
     (if koff \<noteq> [] then (let lo = bs_target key buf koff 0 (length koff) in if lo > 0 then lo - 1 else 0)
      else lin_target key 0 buf)"

text \<open>One block through the cache; a miss reads the file at the block's offset.\<close>

definition sst_block_at :: "bytes option \<Rightarrow> u64 \<Rightarrow> bytes" where
  "sst_block_at file off =
     (let s = (case file of None \<Rightarrow> [] | Some f \<Rightarrow> drop (unat off) f);
          (_, s) = s_u32 s; s = drop 1 s; (csz, s) = s_u32 s
      in fst (s_read (unat csz) s))"

definition sst_search ::
  "bytes option \<Rightarrow> bytes \<Rightarrow> u64 \<Rightarrow> u64 \<Rightarrow> u64 list \<Rightarrow> u64 list \<Rightarrow> block_cache option \<Rightarrow> nat
   \<Rightarrow> block_cache option \<times> bytes option" where
  "sst_search file key read_ts seq aborted offsets cache idx =
     (if idx \<ge> length offsets then (cache, None)
      else case Option.bind cache (\<lambda>c. bc_blocks c (seq, of_nat idx)) of
             Some d \<Rightarrow> (cache, scanBlock aborted key read_ts d)
           | None \<Rightarrow>
               (let d = sst_block_at file (offsets ! idx)
                in (map_option (\<lambda>c. c\<lparr>bc_blocks := (bc_blocks c)((seq, of_nat idx) \<mapsto> d)\<rparr>) cache,
                    scanBlock aborted key read_ts d)))"

text \<open>The target block, then its neighbours; \<open>h\<close> is the cached or freshly read metadata.\<close>

definition sst_lookup_in ::
  "bytes option \<Rightarrow> bytes \<Rightarrow> u64 \<Rightarrow> u64 \<Rightarrow> CachedHeavy \<Rightarrow> block_cache option
   \<Rightarrow> block_cache option \<times> bytes option" where
  "sst_lookup_in file key read_ts seq h cache =
     (if ch_first_key_buf h = [] then (cache, None)
      else if bf_bits (ch_bloom h) > 0 \<and> \<not> bf_MightContain key (ch_bloom h) then (cache, None)
      else let offsets = ch_block_offsets h;
               search = sst_search file key read_ts seq (ch_aborted h) offsets;
               target = sst_target key (ch_first_key_buf h) (ch_first_key_offsets h)
      in case search cache target of
           (c1, Some v) \<Rightarrow> (c1, Some v)
         | (c1, None) \<Rightarrow>
             (case (if target > 0 then search c1 (target - 1) else (c1, None)) of
                (c2, Some v) \<Rightarrow> (c2, Some v)
              | (c2, None) \<Rightarrow>
                  if target + 1 < length offsets then search c2 (target + 1) else (c2, None)))"

definition sst_LookupKey ::
  "bytes \<Rightarrow> bytes option \<Rightarrow> bytes \<Rightarrow> u64 \<Rightarrow> block_cache option \<Rightarrow> u64
   \<Rightarrow> block_cache option \<times> (sst_error + bytes option)" where
  "sst_LookupKey path file key read_ts cache seq =
     (case Option.bind cache (\<lambda>c. bc_heavy c seq) of
        Some h \<Rightarrow> (case sst_lookup_in file key read_ts seq h cache of (c, r) \<Rightarrow> (c, Inr r))
      | None \<Rightarrow> (case sst_ReadMetadata path file cache seq of
            (c, Inl e) \<Rightarrow> (c, Inl e)
          | (c, Inr meta) \<Rightarrow>
              (case sst_lookup_in file key read_ts seq (heavy_of meta) c of (c', r) \<Rightarrow> (c', Inr r))))"

section \<open>The shape of a written table\<close>

definition frm :: "KeyValuePair list \<Rightarrow> bytes" where
  "frm es = block_frame (blk_bytes es)"

primrec offs :: "nat \<Rightarrow> KeyValuePair list list \<Rightarrow> nat list" where
  "offs n [] = []"
| "offs n (b # bs) = n # offs (n + length (frm b)) bs"

lemma offs_append: "offs n (bs @ [b]) = offs n bs @ [n + length (concat (map frm bs))]"
  by (induction bs arbitrary: n) (simp_all add: add.assoc)

lemma length_offs [simp]: "length (offs n bs) = length bs"
  by (induction bs arbitrary: n) simp_all

text \<open>A block stays within the block size unless it holds a single entry.\<close>

definition block_fits :: "KeyValuePair list \<Rightarrow> bool" where
  "block_fits es \<longleftrightarrow> es \<noteq> [] \<and> (length es = 1 \<or> length (blk_bytes es) \<le> kSSTableBlockSize)"

text \<open>The writer has written the blocks \<open>bs\<close> behind the header \<open>h\<close> and collected \<open>cur\<close>.\<close>

definition sw_inv :: "bytes \<Rightarrow> BloomFilter \<Rightarrow> KeyValuePair list list \<Rightarrow> KeyValuePair list \<Rightarrow> sst_writer \<Rightarrow> bool" where
  "sw_inv h bl bs cur w \<longleftrightarrow>
     sw_file w = h @ concat (map frm bs)
   \<and> bb_entries (sw_builder w) = cur \<and> bb_count (sw_builder w) = of_nat (length cur)
   \<and> bb_data_size (sw_builder w) = length (concat (map se_enc cur))
   \<and> bb_block_size (sw_builder w) = kSSTableBlockSize
   \<and> sw_offsets w = map of_nat (offs (length h) bs)
   \<and> sw_first_keys w = map (kv_key \<circ> hd) (bs @ (if cur = [] then [] else [cur]))
   \<and> sw_bloom w = fold bf_Add (map se_key (concat bs)) bl
   \<and> (\<forall>b \<in> set bs. block_fits b) \<and> (cur \<noteq> [] \<longrightarrow> block_fits cur)"

lemma sw_flush_inv:
  assumes "sw_inv h bl bs cur w" and "cur \<noteq> []"
  shows "sw_inv h bl (bs @ [cur]) [] ((sw_flush w)\<lparr>sw_builder := bb_Reset (sw_builder (sw_flush w))\<rparr>)"
  using assms
  by (simp add: sw_inv_def sw_flush_def WriteBlock_def bb_Reset_def offs_append frm_def
      bb_payload_bytes add.commute split: prod.splits)

lemma sw_flush_fields:
  "sw_file (w\<lparr>sw_builder := b\<rparr>) = sw_file w" "sw_offsets (w\<lparr>sw_builder := b\<rparr>) = sw_offsets w"
  "sw_first_keys (w\<lparr>sw_builder := b\<rparr>) = sw_first_keys w" "sw_bloom (w\<lparr>sw_builder := b\<rparr>) = sw_bloom w"
  by simp_all

lemma sw_append_first:
  assumes "sw_inv h bl bs [] w" and "kv_ok kv"
  shows "sw_inv h bl bs [kv]
    (sw_append kv True (w\<lparr>sw_first_keys := sw_first_keys w @ [kv_key kv]\<rparr>))"
  using assms
  by (subst sw_append.simps)
    (simp add: sw_inv_def bb_TryAppend_def Let_def WireSize_ok block_fits_def)

lemma sw_put_inv:
  assumes "sw_inv h bl bs cur w" and "kv_ok kv" and "length cur < 2 ^ 32 - 1"
  shows "\<exists>bs' cur'. sw_inv h bl bs' cur' (sw_put kv w) \<and> cur' \<noteq> []
    \<and> concat bs' @ cur' = concat bs @ cur @ [kv] \<and> length cur' \<le> Suc (length cur)"
proof (cases "cur = []")
  case True
  with assms have "bb_count (sw_builder w) = 0" by (simp add: sw_inv_def)
  with sw_append_first [of h bl bs w kv] assms True show ?thesis
    by (intro exI [of _ bs] exI [of _ "[kv]"]) (simp add: sw_put_def)
next
  case cur: False
  have "unat (bb_count (sw_builder w)) = length cur"
    using assms by (simp add: sw_inv_def unat_of_nat_small)
  with cur have nz: "bb_count (sw_builder w) \<noteq> 0" by auto
  show ?thesis
  proof (cases "bb_TryAppend kv False (sw_builder w)")
    case None
    have "sw_put kv w = sw_append kv True
        (((sw_flush w)\<lparr>sw_builder := bb_Reset (sw_builder (sw_flush w))\<rparr>)
          \<lparr>sw_first_keys := sw_first_keys ((sw_flush w)\<lparr>sw_builder := bb_Reset (sw_builder (sw_flush w))\<rparr>)
             @ [kv_key kv]\<rparr>)"
      using nz None by (simp add: sw_put_def, subst sw_append.simps) (simp add: Let_def)
    with sw_append_first [OF sw_flush_inv [OF assms(1) cur] assms(2)] show ?thesis
      by (intro exI [of _ "bs @ [cur]"] exI [of _ "[kv]"]) simp
  next
    case (Some b)
    then have w: "sw_put kv w = w\<lparr>sw_builder := b\<rparr>"
      using nz by (simp add: sw_put_def, subst sw_append.simps) simp
    have "bb_count (sw_builder w) > 0" using nz by (simp add: word_gt_0)
    with Some have b: "b = (sw_builder w)\<lparr>bb_entries := bb_entries (sw_builder w) @ [kv],
        bb_data_size := bb_data_size (sw_builder w) + WireSize kv, bb_count := bb_count (sw_builder w) + 1\<rparr>"
      "4 + (bb_data_size (sw_builder w) + WireSize kv) \<le> bb_block_size (sw_builder w)"
      by (auto simp: bb_TryAppend_def Let_def not_less split: if_splits)
    have "sw_inv h bl bs (cur @ [kv]) (sw_put kv w)"
      using assms(1,2) b cur unfolding w
      by (simp add: sw_inv_def WireSize_ok block_fits_def blk_bytes_def add.commute hd_append)
    then show ?thesis
      by (intro exI [of _ bs] exI [of _ "cur @ [kv]"]) simp
  qed
qed

lemma sw_fold_inv:
  assumes "sw_inv h bl bs cur w" and "\<forall>e \<in> set es. kv_ok e" and "length cur + length es < 2 ^ 32"
  shows "\<exists>bs' cur'. sw_inv h bl bs' cur' (fold sw_put es w) \<and> (es \<noteq> [] \<longrightarrow> cur' \<noteq> [])
    \<and> concat bs' @ cur' = concat bs @ cur @ es \<and> length cur' \<le> length cur + length es"
  using assms
proof (induction es arbitrary: bs cur w)
  case Nil
  then show ?case by auto
next
  case (Cons e es)
  obtain bs1 cur1 where 1: "sw_inv h bl bs1 cur1 (sw_put e w)" "cur1 \<noteq> []"
      "concat bs1 @ cur1 = concat bs @ cur @ [e]" "length cur1 \<le> Suc (length cur)"
    using sw_put_inv [OF Cons.prems(1), of e] Cons.prems(2,3) by auto
  then obtain bs2 cur2 where 2: "sw_inv h bl bs2 cur2 (fold sw_put es (sw_put e w))"
      "es \<noteq> [] \<longrightarrow> cur2 \<noteq> []" "concat bs2 @ cur2 = concat bs1 @ cur1 @ es"
      "length cur2 \<le> length cur1 + length es"
    using Cons.IH [OF 1(1)] Cons.prems by auto
  have "cur2 \<noteq> []"
  proof (cases "es = []")
    case True
    then show ?thesis using 2(1) 1(1,2) by (auto simp: sw_inv_def)
  qed (use 2 in simp)
  moreover have "concat bs2 @ cur2 = concat bs @ cur @ e # es"
    using 2(3) 1(3) by (metis append.assoc append_Cons append_Nil)
  ultimately show ?case
    using 1 2 by (intro exI [of _ bs2] exI [of _ cur2]) simp
qed

abbreviation es_min :: "KeyValuePair list \<Rightarrow> bytes" where
  "es_min es \<equiv> if es = [] then [] else kv_key (hd es)"

abbreviation es_max :: "KeyValuePair list \<Rightarrow> bytes" where
  "es_max es \<equiv> if es = [] then [] else kv_key (last es)"

definition es_hdr :: "KeyValuePair list \<Rightarrow> bytes" where
  "es_hdr es = sst_header (length es) (es_min es) (es_max es)"

definition es_bloom :: "(nat \<Rightarrow> u64 \<times> u32) \<Rightarrow> KeyValuePair list \<Rightarrow> BloomFilter" where
  "es_bloom bsz es = fold bf_Add (map se_key es) (case_prod bf_new (bsz (if es = [] then 1 else length es)))"

definition es_meta :: "(nat \<Rightarrow> u64 \<times> u32) \<Rightarrow> KeyValuePair list list \<Rightarrow> u64 list option \<Rightarrow> bytes" where
  "es_meta bsz bs ab = sst_meta_region (es_min (concat bs)) (es_max (concat bs)) (es_bloom bsz (concat bs)) ab
     (map of_nat (offs 24 bs)) (map (kv_key \<circ> hd) bs)"

lemma length_sst_header [simp]: "length (sst_header n a b) = 24"
  by (simp add: sst_header_def)

lemma length_es_hdr [simp]: "length (es_hdr es) = 24"
  by (simp add: es_hdr_def)

lemma sst_Write_shape:
  assumes "\<forall>e \<in> set es. kv_ok e" and "length es < 2 ^ 32"
  obtains bs where "concat bs = es" and "\<forall>b \<in> set bs. block_fits b"
    and "sst_Write bsz es ab = sst_finish (es_hdr es @ concat (map frm bs)) (es_meta bsz bs ab)"
proof -
  let ?start = "sst_start bsz es (es_min es) (es_max es)"
  let ?bl = "case_prod bf_new (bsz (if es = [] then 1 else length es))"
  let ?w = "fold sw_put es ?start"
  have "sw_inv (es_hdr es) ?bl [] [] ?start"
    by (simp add: sw_inv_def sst_start_def bb_new_def es_hdr_def)
  from sw_fold_inv [OF this assms(1)] assms(2) obtain bs cur
    where inv: "sw_inv (es_hdr es) ?bl bs cur ?w" and cur: "es \<noteq> [] \<longrightarrow> cur \<noteq> []"
      and es: "concat bs @ cur = es" and len: "length cur \<le> length es"
    by auto
  show thesis
  proof (cases "cur = []")
    case True
    with cur es inv have "es = []" and "bs = []"
      by (cases bs; force simp: sw_inv_def block_fits_def)+
    with inv True show thesis
      by (intro that [of "[]"])
        (simp_all add: sst_Write_def sw_inv_def es_meta_def es_bloom_def Let_def es_hdr_def)
  next
    case False
    have "unat (bb_count (sw_builder ?w)) = length cur"
      using inv len assms(2) by (simp add: sw_inv_def unat_of_nat_small)
    with False have "bb_count (sw_builder ?w) > 0" by (auto simp: word_gt_0)
    moreover from sw_flush_inv [OF inv False]
    have "sw_file (sw_flush ?w) = es_hdr es @ concat (map frm (bs @ [cur]))"
      "sw_offsets (sw_flush ?w) = map of_nat (offs 24 (bs @ [cur]))"
      "sw_first_keys (sw_flush ?w) = map (kv_key \<circ> hd) (bs @ [cur])"
      "sw_bloom (sw_flush ?w) = fold bf_Add (map se_key (concat (bs @ [cur]))) ?bl"
      by (simp_all add: sw_inv_def)
    ultimately show thesis
      using es inv False
      by (intro that [of "bs @ [cur]"])
        (auto simp: sst_Write_def sw_inv_def es_meta_def es_bloom_def Let_def)
  qed
qed

section \<open>Reading everything back\<close>

lemma s_u32_Write [codec_simps]: "s_u32 (WriteUint32LE v @ r) = (v, r)"
  by (simp add: s_u32_def s_get_def WriteUint32LE_def Let_def codec_simps)

lemma s_u64_Write [codec_simps]: "s_u64 (WriteUint64LE v @ r) = (v, r)"
  by (simp add: s_u64_def s_get_def WriteUint64LE_def Let_def codec_simps)

lemma s_read_append [codec_simps]: "length xs = n \<Longrightarrow> s_read n (xs @ r) = (xs, r)"
  by (simp add: s_read_def)

lemma ra_entry_enc:
  assumes "kv_ok e"
  shows "ra_entry (se_enc e @ r) = (e, r)"
  using se_data_ok [OF assms]
  by (simp add: ra_entry_def se_enc_def codec_simps Let_def s_get_def)

lemma ra_entries_enc:
  "\<forall>e \<in> set es. kv_ok e \<Longrightarrow> ra_entries (length es) (concat (map se_enc es) @ r) = es"
  by (induction es) (simp_all add: ra_entry_enc Let_def)

definition table_block_ok :: "KeyValuePair list \<Rightarrow> bool" where
  "table_block_ok b \<longleftrightarrow> b \<noteq> [] \<and> block_ok b \<and> length (blk_bytes b) < 2 ^ 32"

lemma ra_block_frm:
  assumes "table_block_ok b"
  shows "ra_block (frm b @ r) = (b, r)"
proof -
  have "unat (of_nat (length (blk_bytes b)) :: u32) = length (blk_bytes b)"
    "unat (of_nat (length b) :: u32) = length b"
    using assms by (simp_all add: table_block_ok_def block_ok_def unat_of_nat_small)
  then have "ra_block (frm b @ r) = (ra_entries (length b) (concat (map se_enc b)), r)"
    by (simp add: ra_block_def frm_def block_frame_def codec_simps Let_def) (simp add: blk_bytes_def codec_simps)
  then show ?thesis
    using assms ra_entries_enc [of b "[]"] by (simp add: table_block_ok_def block_ok_def)
qed

lemma ra_loop_frms:
  assumes "\<forall>b \<in> set bs. table_block_ok b"
  shows "ra_loop (length es + length (concat bs)) es (concat (map frm bs) @ r) = Some (es @ concat bs)"
  using assms
proof (induction bs arbitrary: es)
  case Nil
  then show ?case by (simp add: ra_loop.simps)
next
  case (Cons b bs)
  then have "0 < length b" by (simp add: table_block_ok_def)
  then show ?case
    using Cons Cons.IH [of "es @ b"] by (subst ra_loop.simps) (simp add: ra_block_frm add.assoc)
qed

lemma block_fits_table:
  assumes "block_fits b" and "\<forall>e \<in> set b. kv_ok e \<and> length (se_enc e) + 4 < 2 ^ 32" and "length b < 2 ^ 32"
  shows "table_block_ok b"
proof (cases "length b = 1")
  case True
  then obtain e where "b = [e]" by (metis One_nat_def length_0_conv length_Suc_conv)
  with assms show ?thesis by (simp add: table_block_ok_def block_ok_def blk_bytes_def block_fits_def)
next
  case False
  with assms show ?thesis by (auto simp: table_block_ok_def block_ok_def block_fits_def kSSTableBlockSize_def)
qed

definition entry_ok :: "KeyValuePair \<Rightarrow> bool" where
  "entry_ok e \<longleftrightarrow> length (kv_key e) < 2 ^ 16 \<and> length (kv_value e) < 2 ^ 31"

lemma entry_ok_kv: "entry_ok e \<Longrightarrow> kv_ok e \<and> length (se_enc e) + 4 < 2 ^ 32"
  using length_se_enc [of e] by (auto simp: entry_ok_def kv_ok_def)

lemma table_blocks_ok:
  assumes "\<forall>b \<in> set bs. block_fits b" and "\<forall>e \<in> set (concat bs). entry_ok e" and "length (concat bs) < 2 ^ 32"
  shows "\<forall>b \<in> set bs. table_block_ok b"
proof
  fix b
  assume b: "b \<in> set bs"
  then have "length b \<le> length (concat bs)"
    by (induction bs) auto
  moreover have "\<forall>e \<in> set b. entry_ok e" using b assms(2) by auto
  then have "\<forall>e \<in> set b. kv_ok e \<and> length (se_enc e) + 4 < 2 ^ 32" using entry_ok_kv by blast
  ultimately show "table_block_ok b"
    using b assms(1,3) by (intro block_fits_table) auto
qed

lemma sst_ReadAll_Write:
  assumes "\<forall>e \<in> set es. entry_ok e" and "length es < 2 ^ 32"
  shows "sst_ReadAll (Some (sst_Write bsz es ab)) = Some (Inr es)"
proof -
  obtain bs where bs: "concat bs = es" "\<forall>b \<in> set bs. block_fits b"
    "sst_Write bsz es ab = sst_finish (es_hdr es @ concat (map frm bs)) (es_meta bsz bs ab)"
    using sst_Write_shape [of es bsz ab] assms entry_ok_kv by blast
  have "\<forall>b \<in> set bs. table_block_ok b"
    using table_blocks_ok bs assms by blast
  from ra_loop_frms [OF this, of "[]"] have loop: "\<And>r. ra_loop (length es) [] (concat (map frm bs) @ r) = Some es"
    by (simp add: bs(1))
  have "(of_nat (length es) :: u32) = 0 \<longleftrightarrow> es = []" "unat (of_nat (length es) :: u32) = length es"
    using assms(2) unat_of_nat_small [where 'a = 32, of "length es"] by (auto simp: unat_eq_zero [symmetric])
  with loop show ?thesis
    by (simp add: sst_ReadAll_def bs(3) sst_finish_def es_hdr_def sst_header_def codec_simps Let_def)
qed

section \<open>Reading the metadata back\<close>

lemma WriteUint64LE_halves:
  "WriteUint64LE v = WriteUint32LE (ucast v) @ WriteUint32LE (ucast (drop_bit 32 v))"
  by (auto simp: WriteUint64LE_def WriteUint32LE_def bit_byte_at bit_simps intro!: bit_word_eqI)

lemma join64_halves:
  "join64 (ucast v) (ucast (drop_bit 32 v)) = (if bit v 31 then v OR 0xFFFFFFFF00000000 else v)"
proof -
  have b: "bit (join64 (ucast v) (ucast (drop_bit 32 v))) n \<longleftrightarrow> bit v n \<or> 32 \<le> n \<and> bit v 31"
    if n: "n < 64" for n
  proof -
    have "n < 31 \<or> n = 31 \<or> 32 \<le> n \<and> n - 32 < 31 \<or> n = 63" using n by linarith
    then consider "n < 31" | "n = 31" | m where "n = 32 + m" "m < 31" | "n = 63"
      by (metis le_add_diff_inverse)
    then show ?thesis
      by cases (auto simp: join64_def bit_simps min_def)
  qed
  have m: "(0xFFFFFFFF00000000 :: u64) = push_bit 32 (mask 32)"
    by (simp add: mask_eq_exp_minus_1 push_bit_eq_mult)
  show ?thesis
    unfolding m by (rule bit_word_eqI) (auto simp: b bit_push_bit_iff bit_mask_iff bit_or_iff split: if_splits)
qed

text \<open>What a 64-bit field becomes: bit 31 spreads into the upper half.\<close>

definition sext64 :: "u64 \<Rightarrow> u64" where
  "sext64 v = (if bit v 31 then v OR 0xFFFFFFFF00000000 else v)"

lemma read64i_Write: "read64i (WriteUint64LE v @ r) = Some (sext64 v, r)"
  by (simp add: read64i_def WriteUint64LE_halves codec_simps join64_halves sext64_def)

lemma read64i_many_Write:
  "read64i_many (length xs) (concat (map WriteUint64LE xs) @ r) = Some (map sext64 xs, r)"
  by (induction xs) (simp_all add: read64i_Write)

lemma sext64_id: "\<forall>x \<in> set xs. \<not> bit x 31 \<Longrightarrow> map sext64 xs = xs"
  by (simp add: sext64_def map_idI)

lemma bit_small: "v < 2 ^ 31 \<Longrightarrow> \<not> bit (of_nat v :: u64) 31"
  by (auto simp: bit_simps bit_nat_def)

primrec fk_offs :: "nat \<Rightarrow> bytes list \<Rightarrow> nat list" where
  "fk_offs n [] = []"
| "fk_offs n (k # ks) = n # fk_offs (n + 2 + length k) ks"

lemma length_fk_offs [simp]: "length (fk_offs n ks) = length ks"
  by (induction ks arbitrary: n) simp_all

lemma fk_enc_small: "length k < 2 ^ 16 \<Longrightarrow> fk_enc k = WriteUint16LE (of_nat (length k)) @ k"
  by (simp add: fk_enc_def Let_def unat_of_nat_small)

lemma read_first_keys_enc:
  assumes "\<forall>k \<in> set ks. length k < 2 ^ 16"
  shows "\<exists>mn' mx'. read_first_keys (length ks) off mn mx (concat (map fk_enc ks) @ r)
    = Some (map of_nat (fk_offs off ks), mn', mx', r)"
  using assms
proof (induction ks arbitrary: off mn mx)
  case Nil
  then show ?case by simp
next
  case (Cons k ks)
  then have u: "unat (of_nat (length k) :: u16) = length k" by (simp add: unat_of_nat_small)
  let ?l = "ucast (of_nat (length k) :: u16) :: u32"
  obtain mn' mx' where "read_first_keys (length ks) (off + 2 + length k) (if ?l < mn then ?l else mn)
      (if ?l > mx then ?l else mx) (concat (map fk_enc ks) @ r)
      = Some (map of_nat (fk_offs (off + 2 + length k) ks), mn', mx', r)"
    using Cons.IH [of "off + 2 + length k"] Cons.prems by (meson list.set_intros(2))
  with Cons.prems u show ?case
    by (simp add: fk_enc_small codec_simps Let_def)
qed

lemma fk_at_offs:
  assumes "\<forall>k \<in> set ks. length k < 2 ^ 16" and "i < length ks"
    and "length p + length (concat (map fk_enc ks)) < 2 ^ 32"
  shows "fk_at (p @ concat (map fk_enc ks) @ r) (of_nat (fk_offs (length p) ks ! i)) = ks ! i"
  using assms
proof (induction ks arbitrary: p i)
  case Nil
  then show ?case by simp
next
  case (Cons k ks)
  have u: "unat (of_nat (length k) :: u16) = length k" using Cons.prems by (simp add: unat_of_nat_small)
  show ?case
  proof (cases i)
    case 0
    have "unat (of_nat (length p) :: u32) = length p" using Cons.prems by (simp add: unat_of_nat_small)
    moreover have "rd16 (p @ WriteUint16LE (of_nat (length k)) @ k @ concat (map fk_enc ks) @ r) (length p)
        = of_nat (length k)"
      by (rule rd16_at) simp
    ultimately show ?thesis using 0 u Cons.prems
      by (simp add: fk_at_def fk_enc_small)
  next
    case (Suc j)
    with Cons.IH [of j "p @ fk_enc k"] Cons.prems show ?thesis
      by (simp add: fk_enc_small add.commute add.left_commute)
  qed
qed

definition ab_list :: "u64 list option \<Rightarrow> u64 list" where
  "ab_list ab = (case ab of None \<Rightarrow> [] | Some xs \<Rightarrow> xs)"

lemma ab_region: "(case ab of None \<Rightarrow> WriteUint32LE 0
    | Some ab \<Rightarrow> WriteUint32LE (of_nat (length ab)) @ concat (map WriteUint64LE ab))
  = WriteUint32LE (of_nat (length (ab_list ab))) @ concat (map WriteUint64LE (ab_list ab))"
  by (simp add: ab_list_def split: option.split)

lemma ucast_u32_u64: "(v :: u64) < 2 ^ 32 \<Longrightarrow> (ucast (ucast v :: u32) :: u64) = v"
proof -
  assume "v < 2 ^ 32"
  then have "take_bit 32 v = v"
    by (simp add: take_bit_eq_mod mod_word_less)
  then show ?thesis
    by (simp add: unsigned_ucast_eq)
qed

text \<open>What a reader of the metadata of a table with blocks \<open>bs\<close> gets.\<close>

definition heavy_spec :: "(nat \<Rightarrow> u64 \<times> u32) \<Rightarrow> KeyValuePair list list \<Rightarrow> u64 list option \<Rightarrow> CachedHeavy" where
  "heavy_spec bsz bs ab = \<lparr>ch_bloom = es_bloom bsz (concat bs), ch_block_offsets = map of_nat (offs 24 bs),
     ch_first_key_buf = concat (map fk_enc (map (kv_key \<circ> hd) bs)),
     ch_first_key_offsets = map of_nat (fk_offs 0 (map (kv_key \<circ> hd) bs)),
     ch_aborted = fold List.insert (map sext64 (ab_list ab)) []\<rparr>"

lemma parse_meta_region:
  assumes "length mink < 2 ^ 16" and "length maxk < 2 ^ 16"
    and "bf_wf bl" and "bf_bits bl < 2 ^ 32" and "length (bf_bytes bl) < 2 ^ 32"
    and "length (ab_list ab) < 2 ^ 32"
    and "length ofs < 2 ^ 32" and "\<forall>t \<in> set ofs. \<not> bit t 31"
    and "\<forall>k \<in> set ks. length k < 2 ^ 16" and "length ks = length ofs"
  shows "\<exists>m. sst_parse_meta (of_nat (length mink)) (of_nat (length maxk))
      (sst_meta_region mink maxk bl ab ofs ks @ r) meta = Some m
    \<and> md_min_key m = mink \<and> md_max_key m = maxk \<and> entry_count m = entry_count meta
    \<and> heavy_of m = \<lparr>ch_bloom = bl, ch_block_offsets = ofs, ch_first_key_buf = concat (map fk_enc ks),
        ch_first_key_offsets = map of_nat (fk_offs 0 ks), ch_aborted = fold List.insert (map sext64 (ab_list ab)) []\<rparr>"
proof -
  obtain mn mx where fk: "read_first_keys (length ks) 0 0xFFFFFFFF 0 (concat (map fk_enc ks) @ r)
      = Some (map of_nat (fk_offs 0 ks), mn, mx, r)"
    using read_first_keys_enc [OF assms(9)] by blast
  have u: "unat (of_nat (length mink) :: u16) = length mink" "unat (of_nat (length maxk) :: u16) = length maxk"
    "unat (of_nat (length (ab_list ab)) :: u32) = length (ab_list ab)"
    "unat (of_nat (length ofs) :: u32) = length ofs"
    "unat (of_nat (length (bf_bytes bl)) :: u32) = length (bf_bytes bl)"
    using assms by (simp_all add: unat_of_nat_small)
  have "0 < unat (bf_bits bl)" using assms(3) by (simp add: bf_wf_def unat_gt_0 word_greater_zero_iff)
  then have ne: "0 < length (bf_bytes bl)" using assms(3) by (simp add: bf_wf_def bf_size_def)
  have bz: "(of_nat (length (bf_bytes bl)) :: u32) > 0"
    using ne u(5) by (metis unat_0 word_gt_0 neq0_conv)
  have sz: "bf_size (bf_bits bl) = length (bf_bytes bl)" using assms(3) by (simp add: bf_wf_def)
  show ?thesis
    by (simp add: sst_parse_meta_def sst_meta_region_def ab_region codec_simps u bz sz ucast_u32_u64 [OF assms(4)]
        bf_FromRaw_wf [OF assms(3)] read64i_many_Write sext64_id [OF assms(8)]
        fk [unfolded assms(10)] heavy_of_def)
qed

lemma length_meta_region:
  "length (bf_bytes bl) + length ks + 8 * length (ab_list ab) + 8 * length ofs
   \<le> length (sst_meta_region mink maxk bl ab ofs ks)"
proof -
  have "length ks \<le> length (concat (map fk_enc ks))"
    by (induction ks) (auto simp: fk_enc_def Let_def)
  moreover have "length (concat (map WriteUint64LE xs)) = 8 * length xs" for xs
    by (induction xs) simp_all
  ultimately show ?thesis
    by (simp add: sst_meta_region_def ab_region)
qed

lemma length_sst_finish: "length (sst_finish f m) = length f + length m + 16"
  by (simp add: sst_finish_def)

lemma offs_bound: "x \<in> set (offs n bs) \<Longrightarrow> x \<le> n + length (concat (map frm bs))"
  by (induction bs arbitrary: n) (auto simp: add.assoc dest!: spec, fastforce)

lemma join64_W64:
  assumes "n < 2 ^ 31"
  shows "join64 (ucast (of_nat n :: u64)) (ucast (drop_bit 32 (of_nat n :: u64))) = of_nat n"
  using join64_halves [of "of_nat n"] bit_small [OF assms] by simp

lemma rd16_at0: "length xs = i \<Longrightarrow> rd16 (xs @ WriteUint16LE v) i = v"
  using rd16_at [of xs i v "[]"] by simp

lemma header_fields:
  assumes "length f0 = 24" and "f0 = sst_header n a b"
  shows "rd32 (f0 @ r) 0 = kSSTableMagic" "rd32 (f0 @ r) 4 = kSSTableVersion"
    "rd32 (f0 @ r) 12 = of_nat n" "rd16 (f0 @ r) 20 = of_nat (length a)" "rd16 (f0 @ r) 22 = of_nat (length b)"
proof -
  have f: "f0 @ r = WriteUint32LE kSSTableMagic @ WriteUint32LE kSSTableVersion
     @ WriteUint32LE (of_nat kSSTableBlockSize) @ WriteUint32LE (of_nat n) @ [kCompression, 0, 0, 0]
     @ WriteUint16LE (of_nat (length a)) @ WriteUint16LE (of_nat (length b)) @ r"
    by (simp add: assms(2) sst_header_def)
  show "rd32 (f0 @ r) 0 = kSSTableMagic" unfolding f using rd32_at [of "[]" 0] by simp
  show "rd32 (f0 @ r) 4 = kSSTableVersion" unfolding f by (rule rd32_at) simp
  show "rd32 (f0 @ r) 12 = of_nat n"
    unfolding f using rd32_at [of "WriteUint32LE kSSTableMagic @ WriteUint32LE kSSTableVersion
     @ WriteUint32LE (of_nat kSSTableBlockSize)" 12] by simp
  show "rd16 (f0 @ r) 20 = of_nat (length a)"
    unfolding f using rd16_at [of "WriteUint32LE kSSTableMagic @ WriteUint32LE kSSTableVersion
     @ WriteUint32LE (of_nat kSSTableBlockSize) @ WriteUint32LE (of_nat n) @ [kCompression, 0, 0, 0]" 20] by simp
  show "rd16 (f0 @ r) 22 = of_nat (length b)"
    unfolding f using rd16_at [of "WriteUint32LE kSSTableMagic @ WriteUint32LE kSSTableVersion
     @ WriteUint32LE (of_nat kSSTableBlockSize) @ WriteUint32LE (of_nat n) @ [kCompression, 0, 0, 0]
     @ WriteUint16LE (of_nat (length a))" 22] by simp
qed

lemma footer_fields:
  assumes "length f < 2 ^ 31"
  shows "rd32 (sst_finish f m) (length f + length m + 4) = ucast (of_nat (length f) :: u64)"
    "rd32 (sst_finish f m) (length f + length m + 8) = ucast (drop_bit 32 (of_nat (length f) :: u64))"
    "rd32 (sst_finish f m) (length f + length m + 12) = kSSTableFooterMagic"
  unfolding sst_finish_def WriteUint64LE_halves
  using rd32_at [of "f @ m @ WriteUint32LE (crc32 m)"]
    rd32_at [of "f @ m @ WriteUint32LE (crc32 m) @ WriteUint32LE (ucast (of_nat (length f) :: u64))"]
    rd32_at [of "f @ m @ WriteUint32LE (crc32 m) @ WriteUint32LE (ucast (of_nat (length f) :: u64))
      @ WriteUint32LE (ucast (drop_bit 32 (of_nat (length f) :: u64)))" _ _ "[]"]
  by simp_all

lemma scast_small: "n < 2 ^ 31 \<Longrightarrow> (scast (of_nat n :: u32) :: u64) = of_nat n"
proof (rule bit_word_eqI)
  fix m
  assume "n < 2 ^ 31" and "m < LENGTH(64)"
  have z: "\<not> bit n k" if "31 \<le> k" for k
    using \<open>n < 2 ^ 31\<close> that
    by (metis bit_take_bit_iff linorder_not_less take_bit_nat_eq_self_iff)
  show "bit (scast (of_nat n :: u32) :: u64) m = bit (of_nat n :: u64) m"
    using \<open>m < LENGTH(64)\<close> z [of m] z [of 31]
    by (cases "m < 31") (auto simp: bit_simps min_def)
qed

lemma read_meta_finish:
  assumes "f = sst_header n mink maxk @ body" and "m = sst_meta_region mink maxk bl ab ofs ks"
    and "length (sst_finish f m) < 2 ^ 31" and "n < 2 ^ 31"
    and "length mink < 2 ^ 16" and "length maxk < 2 ^ 16" and "bf_wf bl" and "bf_bits bl < 2 ^ 32"
    and "\<forall>t \<in> set ofs. \<not> bit t 31"
    and "\<forall>k \<in> set ks. length k < 2 ^ 16" and "length ks = length ofs"
  shows "\<exists>meta. sst_read_meta_file path (Some (sst_finish f m)) = Inr meta
    \<and> md_min_key meta = mink \<and> md_max_key meta = maxk \<and> entry_count meta = of_nat n
    \<and> heavy_of meta = \<lparr>ch_bloom = bl, ch_block_offsets = ofs, ch_first_key_buf = concat (map fk_enc ks),
        ch_first_key_offsets = map of_nat (fk_offs 0 ks), ch_aborted = fold List.insert (map sext64 (ab_list ab)) []\<rparr>"
proof -
  let ?F = "sst_finish f m"
  let ?m0 = "(sst_meta0 path)\<lparr>entry_count := scast (of_nat n :: u32), md_file_size := of_nat (length ?F)\<rparr>"
  have F: "?F = sst_header n mink maxk @ body @ m @ WriteUint32LE (crc32 m)
      @ WriteUint64LE (of_nat (length f)) @ WriteUint32LE kSSTableFooterMagic"
    by (simp add: sst_finish_def assms(1))
  have hdr: "rd32 ?F 0 = kSSTableMagic" "rd32 ?F 4 = kSSTableVersion" "rd32 ?F 12 = of_nat n"
    "rd16 ?F 20 = of_nat (length mink)" "rd16 ?F 22 = of_nat (length maxk)"
    unfolding F by (rule header_fields [OF length_sst_header refl])+
  have lf: "length f < 2 ^ 31" and lm: "length m < 2 ^ 31" and l36: "\<not> length ?F < 36"
    using assms(1,3) by (simp_all add: length_sst_finish)
  have ftr: "length ?F - 12 = length f + length m + 4" by (simp add: length_sst_finish)
  have off: "unat (join64 (rd32 ?F (length f + length m + 4)) (rd32 ?F (length f + length m + 4 + 4))) = length f"
  proof -
    have "length f + length m + 4 + 4 = length f + length m + 8" by simp
    then show ?thesis
      using lf by (simp only: footer_fields(1,2) [OF lf] join64_W64 [OF lf]) (simp add: unat_of_nat_small)
  qed
  have mag: "rd32 ?F (length f + length m + 4 + 8) = kSSTableFooterMagic"
    using footer_fields(3) [OF lf, of m] by (simp add: add.commute)
  have buf: "take (length f + length m + 4 - length f) (drop (length f) ?F) = m @ WriteUint32LE (crc32 m)"
    by (simp add: sst_finish_def)
  have "length (bf_bytes bl) < 2 ^ 32" "length (ab_list ab) < 2 ^ 32" "length ofs < 2 ^ 32"
    using lm length_meta_region [of bl ks ab ofs mink maxk] by (simp_all add: assms(2))
  then obtain meta where meta: "sst_parse_meta (of_nat (length mink)) (of_nat (length maxk))
      (m @ WriteUint32LE (crc32 m)) ?m0 = Some meta"
    and fields: "md_min_key meta = mink" "md_max_key meta = maxk" "entry_count meta = entry_count ?m0"
      "heavy_of meta = \<lparr>ch_bloom = bl, ch_block_offsets = ofs, ch_first_key_buf = concat (map fk_enc ks),
        ch_first_key_offsets = map of_nat (fk_offs 0 ks), ch_aborted = fold List.insert (map sext64 (ab_list ab)) []\<rparr>"
    using parse_meta_region [OF assms(5-8) _ _ _ assms(9-11), of ab "WriteUint32LE (crc32 m)" ?m0]
    unfolding assms(2) by auto
  have crc: "rd32 (m @ WriteUint32LE (crc32 m)) (length m) = crc32 m"
    using rd32_at [of m _ _ "[]"] by simp
  have "sst_read_meta_file path (Some ?F) = Inr meta"
    unfolding sst_read_meta_file_def option.case Let_def ftr off mag buf hdr meta
    using l36 crc by simp
  with fields assms(4) show ?thesis by (simp add: scast_small)
qed

section \<open>Lookup\<close>

definition visible :: "u64 list \<Rightarrow> bytes \<Rightarrow> u64 \<Rightarrow> KeyValuePair \<Rightarrow> bool" where
  "visible aborted key read_ts e \<longleftrightarrow>
     kv_timestamp e \<notin> set aborted \<and> kv_key e = key \<and> kv_timestamp e \<le> read_ts"

definition kv_result :: "KeyValuePair \<Rightarrow> bytes" where
  "kv_result e = (if kv_is_tombstone e then [] else kv_value e)"

lemma scan_from_at:
  assumes "block_ok es" and "i \<le> length es"
  shows "scan_from ab key ts i (blk_at es i) = map_option kv_result (find (visible ab key ts) (drop i es))"
  using assms(2)
proof (induction i rule: inc_induct)
  case base
  have "\<not> length es < unat (blk_count (blk_at es (length es)))"
    using assms(1) by (simp add: blk_at_def block_ok_def unat_of_nat_small)
  then show ?case by (subst scan_from.simps) simp
next
  case (step i)
  have "i < unat (blk_count (blk_at es i))"
    using assms(1) step by (simp add: blk_at_def block_ok_def unat_of_nat_small)
  moreover have "blk_Read (blk_Seek (of_nat i) (blk_at es i)) = (blk_at es (Suc i), Some (es ! i))"
    using assms(1) step by (simp add: blk_Seek_at blk_Read_at)
  moreover have "drop i es = es ! i # drop (Suc i) es"
    using step by (simp add: Cons_nth_drop_Suc)
  ultimately show ?case
    using step.IH by (subst scan_from.simps) (auto simp: visible_def [of _ _ _ "es ! i"] kv_result_def [of "es ! i"])
qed

lemma scanBlock_bytes:
  "block_ok es \<Longrightarrow> scanBlock ab key ts (blk_bytes es) = map_option kv_result (find (visible ab key ts) es)"
  using scan_from_at [of es 0] by (simp add: scanBlock_def blk_new_at)

text \<open>The binary search counts the first keys that are not above the key.\<close>

lemma bs_target_split:
  assumes "lo \<le> hi" and "hi \<le> length koff"
    and "\<And>i. i < length koff \<Longrightarrow> fk_at buf (koff ! i) = ks ! i"
    and "sorted ks" and "length ks = length koff"
    and "\<forall>i < lo. ks ! i \<le> key" and "\<forall>i. hi \<le> i \<and> i < length ks \<longrightarrow> key < ks ! i"
  shows "bs_target key buf koff lo hi \<le> length ks
    \<and> (\<forall>i < bs_target key buf koff lo hi. ks ! i \<le> key)
    \<and> (\<forall>i. bs_target key buf koff lo hi \<le> i \<and> i < length ks \<longrightarrow> key < ks ! i)"
  using assms(1,2,6,7)
proof (induction "hi - lo" arbitrary: lo hi rule: less_induct)
  case less
  show ?case
  proof (cases "lo < hi")
    case False
    with less.prems assms(5) show ?thesis by (subst (1 2 3) bs_target.simps) simp
  next
    case True
    define mid where "mid = (lo + hi) div 2"
    have mid: "lo \<le> mid" "mid < hi" using True by (auto simp: mid_def)
    then have ml: "mid < length ks" using less.prems assms(5) by simp
    then have at: "fk_at buf (koff ! mid) = ks ! mid" using assms(3,5) by simp
    have le: "ks ! i \<le> ks ! j" if "i \<le> j" "j < length ks" for i j
      using assms(4) that by (simp add: sorted_nth_mono)
    show ?thesis
    proof (cases "key < ks ! mid")
      case k: True
      have up: "\<forall>i. mid \<le> i \<and> i < length ks \<longrightarrow> key < ks ! i"
        using k le less_le_trans by blast
      have eq: "bs_target key buf koff lo hi = bs_target key buf koff lo mid"
        using True k at by (subst bs_target.simps) (simp add: mid_def [symmetric] Let_def)
      have "mid - lo < hi - lo" "mid \<le> length koff" using mid less.prems(2) by simp_all
      from less.hyps [OF this(1) mid(1) this(2) less.prems(3) up] show ?thesis unfolding eq .
    next
      case k: False
      have dn: "\<forall>i < mid + 1. ks ! i \<le> key"
      proof (intro allI impI)
        fix i
        assume "i < mid + 1"
        then have "ks ! i \<le> ks ! mid" using le ml by simp
        also have "\<dots> \<le> key" using k by simp
        finally show "ks ! i \<le> key" .
      qed
      have eq: "bs_target key buf koff lo hi = bs_target key buf koff (mid + 1) hi"
        using True k at by (subst bs_target.simps) (simp add: mid_def [symmetric] Let_def)
      have "hi - (mid + 1) < hi - lo" "mid + 1 \<le> hi" using mid True by simp_all
      from less.hyps [OF this less.prems(2) dn less.prems(4)] show ?thesis unfolding eq .
    qed
  qed
qed

text \<open>The block part of a cache agrees with the file.\<close>

definition blocks_agree :: "bytes option \<Rightarrow> u64 \<Rightarrow> u64 list \<Rightarrow> block_cache option \<Rightarrow> bool" where
  "blocks_agree file seq ofs cache \<longleftrightarrow> (\<forall>c i d. cache = Some c \<longrightarrow> i < length ofs
     \<longrightarrow> bc_blocks c (seq, of_nat i) = Some d \<longrightarrow> d = sst_block_at file (ofs ! i))"

lemma sst_search_spec:
  assumes "blocks_agree file seq ofs cache" and "length ofs < 2 ^ 32"
  shows "snd (sst_search file key ts seq ab ofs cache idx)
      = (if idx < length ofs then scanBlock ab key ts (sst_block_at file (ofs ! idx)) else None)"
    and "blocks_agree file seq ofs (fst (sst_search file key ts seq ab ofs cache idx))"
    and "map_option bc_heavy (fst (sst_search file key ts seq ab ofs cache idx)) = map_option bc_heavy cache"
proof -
  have inj: "(of_nat i :: u32) = of_nat idx \<Longrightarrow> i = idx" if "i < length ofs" "idx < length ofs" for i
    using that assms(2) by (metis less_trans unat_of_nat_small len32)
  show "snd (sst_search file key ts seq ab ofs cache idx)
      = (if idx < length ofs then scanBlock ab key ts (sst_block_at file (ofs ! idx)) else None)"
    using assms(1) by (auto simp: sst_search_def blocks_agree_def Let_def bind_eq_Some_conv split: option.split)
  show "blocks_agree file seq ofs (fst (sst_search file key ts seq ab ofs cache idx))"
    using assms(1)
    by (auto simp: sst_search_def blocks_agree_def Let_def split: option.split if_splits)
      (metis inj not_le)
  show "map_option bc_heavy (fst (sst_search file key ts seq ab ofs cache idx)) = map_option bc_heavy cache"
    by (auto simp: sst_search_def Let_def option.map_comp comp_def split: option.split)
qed

text \<open>The answer of \<open>LookupKey\<close> without the bookkeeping of the cache.\<close>

definition first_some :: "'a option list \<Rightarrow> 'a option" where
  "first_some xs = Option.bind (find (\<lambda>x. x \<noteq> None) xs) (\<lambda>x. x)"

lemma first_some_simps [simp]:
  "first_some [] = None" "first_some [y] = y" "first_some (Some x # xs) = Some x" "first_some (None # xs) = first_some xs"
  by (cases y; simp add: first_some_def)+

definition lookup_answer :: "bytes option \<Rightarrow> bytes \<Rightarrow> u64 \<Rightarrow> CachedHeavy \<Rightarrow> bytes option" where
  "lookup_answer file key ts h =
     (let ofs = ch_block_offsets h;
          t = sst_target key (ch_first_key_buf h) (ch_first_key_offsets h);
          at = (\<lambda>i. if i < length ofs then scanBlock (ch_aborted h) key ts (sst_block_at file (ofs ! i)) else None)
      in if ch_first_key_buf h = [] \<or> bf_bits (ch_bloom h) > 0 \<and> \<not> bf_MightContain key (ch_bloom h) then None
         else first_some [at t, if t > 0 then at (t - 1) else None, at (t + 1)])"

lemma sst_lookup_in_spec:
  assumes "blocks_agree file seq (ch_block_offsets h) cache" and "length (ch_block_offsets h) < 2 ^ 32"
  shows "snd (sst_lookup_in file key ts seq h cache) = lookup_answer file key ts h
    \<and> blocks_agree file seq (ch_block_offsets h) (fst (sst_lookup_in file key ts seq h cache))
    \<and> map_option bc_heavy (fst (sst_lookup_in file key ts seq h cache)) = map_option bc_heavy cache"
proof -
  let ?ofs = "ch_block_offsets h" and ?t = "sst_target key (ch_first_key_buf h) (ch_first_key_offsets h)"
  let ?s = "sst_search file key ts seq (ch_aborted h) ?ofs"
  let ?at = "\<lambda>i. if i < length ?ofs then scanBlock (ch_aborted h) key ts (sst_block_at file (?ofs ! i)) else None"
  obtain c1 r1 where 1: "?s cache ?t = (c1, r1)" by force
  obtain c2 r2 where 2: "(if ?t > 0 then ?s c1 (?t - 1) else (c1, None)) = (c2, r2)" by force
  obtain c3 r3 where 3: "?s c2 (?t + 1) = (c3, r3)" by force
  have a1: "r1 = ?at ?t" "blocks_agree file seq ?ofs c1" "map_option bc_heavy c1 = map_option bc_heavy cache"
    using sst_search_spec [OF assms, of key ts "ch_aborted h" ?t] 1 by simp_all
  have a2: "r2 = (if ?t > 0 then ?at (?t - 1) else None)" "blocks_agree file seq ?ofs c2"
    "map_option bc_heavy c2 = map_option bc_heavy cache"
    using sst_search_spec [OF a1(2) assms(2), of key ts "ch_aborted h" "?t - 1"] 2 a1 by (auto split: if_splits)
  have a3: "r3 = ?at (?t + 1)" "blocks_agree file seq ?ofs c3" "map_option bc_heavy c3 = map_option bc_heavy cache"
    using sst_search_spec [OF a2(2) assms(2), of key ts "ch_aborted h" "?t + 1"] 3 a2 by simp_all
  let ?skip = "ch_first_key_buf h = [] \<or> bf_bits (ch_bloom h) > 0 \<and> \<not> bf_MightContain key (ch_bloom h)"
  show ?thesis
  proof (cases ?skip)
    case True
    then show ?thesis using assms(1) by (auto simp: sst_lookup_in_def lookup_answer_def Let_def)
  next
    case False
    then have in_: "sst_lookup_in file key ts seq h cache = (case r1 of Some v \<Rightarrow> (c1, Some v) | None \<Rightarrow>
        (case r2 of Some v \<Rightarrow> (c2, Some v) | None \<Rightarrow> if ?t + 1 < length ?ofs then (c3, r3) else (c2, None)))"
      using 1 2 3 by (auto simp: sst_lookup_in_def Let_def split: option.split)
    have "lookup_answer file key ts h = first_some [r1, r2, r3]"
      using False a1(1) a2(1) a3(1) by (auto simp: lookup_answer_def Let_def)
    moreover have "r3 = None" if "\<not> ?t + 1 < length ?ofs" using a3(1) that by simp
    ultimately show ?thesis
      unfolding in_ using a1(2,3) a2(2,3) a3(2,3) by (auto split: option.split)
  qed
qed

lemma drop_offs:
  assumes "i < length bs"
  shows "\<exists>r'. drop (offs (length p) bs ! i) (p @ concat (map frm bs) @ r) = frm (bs ! i) @ r'"
  using assms
proof (induction bs arbitrary: p i)
  case (Cons b bs)
  then show ?case
    using Cons.IH [of "i - 1" "p @ frm b"] by (cases i) simp_all
qed simp

lemma sst_block_at_offs:
  assumes "i < length bs" and "length p = n" and "length (p @ concat (map frm bs) @ r) < 2 ^ 64"
    and "\<forall>b \<in> set bs. table_block_ok b"
  shows "sst_block_at (Some (p @ concat (map frm bs) @ r)) (map of_nat (offs n bs) ! i) = blk_bytes (bs ! i)"
proof -
  have tb: "length (blk_bytes (bs ! i)) < 2 ^ 32" using assms(1,4) by (simp add: table_block_ok_def)
  have "offs n bs ! i \<le> n + length (concat (map frm bs))"
    using assms(1) by (intro offs_bound) simp
  then have u: "unat (of_nat (offs n bs ! i) :: u64) = offs n bs ! i"
    using assms(2,3) by (intro unat_of_nat_small) simp
  obtain r' where r': "drop (offs n bs ! i) (p @ concat (map frm bs) @ r) = frm (bs ! i) @ r'"
    using drop_offs [OF assms(1), of p r] assms(2) by auto
  have "sst_block_at (Some (p @ concat (map frm bs) @ r)) (of_nat (offs n bs ! i)) = blk_bytes (bs ! i)"
    unfolding sst_block_at_def Let_def option.case u r'
    using tb by (simp add: frm_def block_frame_def codec_simps unat_of_nat_small)
  with assms(1) show ?thesis by simp
qed

definition strictly_sorted :: "KeyValuePair list \<Rightarrow> bool" where
  "strictly_sorted es \<longleftrightarrow> sorted_wrt (<) (map kv_key es)"

lemma find_unique:
  assumes "x \<in> set xs" and "P x" and "\<And>y. y \<in> set xs \<Longrightarrow> P y \<Longrightarrow> y = x"
  shows "find P xs = Some x"
  using assms
proof (induction xs)
  case (Cons a xs)
  show ?case
  proof (cases "P a")
    case True
    then have "a = x" by (intro Cons.prems(3)) simp_all
    then show ?thesis using True by simp
  next
    case False
    then have "x \<in> set xs" using Cons.prems(1,2) by auto
    then have "find P xs = Some x" using Cons.prems(3) by (intro Cons.IH [OF _ Cons.prems(2)]) simp_all
    then show ?thesis using False by simp
  qed
qed simp

lemma find_none_sub: "find P xs = None \<Longrightarrow> set ys \<subseteq> set xs \<Longrightarrow> find P ys = None"
  by (auto simp: find_None_iff)

lemma strictly_sorted_unique:
  assumes "strictly_sorted es" and "x \<in> set es" and "y \<in> set es" and "kv_key x = kv_key y"
  shows "x = y"
proof -
  have "distinct (map kv_key es)"
    using assms(1) by (simp add: strictly_sorted_def strict_sorted_iff)
  then show ?thesis using assms(2-4) by (meson distinct_map inj_onD)
qed

text \<open>In a sorted table the key's entry lies in the last block whose first key is not above it.\<close>

lemma strictly_sorted_blocks:
  assumes "strictly_sorted (concat bs)" and "\<forall>b \<in> set bs. b \<noteq> []" and "i < length bs" and "e \<in> set (bs ! i)"
  shows "\<forall>j < length bs. (j \<le> i \<longrightarrow> kv_key (hd (bs ! j)) \<le> kv_key e) \<and> (i < j \<longrightarrow> kv_key e < kv_key (hd (bs ! j)))"
  using assms
proof (induction bs arbitrary: i)
  case (Cons b bs)
  have cross: "\<forall>x \<in> set b. \<forall>y \<in> set (concat bs). kv_key x < kv_key y" and rest: "strictly_sorted (concat bs)"
    and inb: "sorted_wrt (<) (map kv_key b)"
    using Cons.prems(1) by (auto simp: strictly_sorted_def sorted_wrt_append)
  have b: "b \<noteq> []" using Cons.prems by simp
  have hdmin: "kv_key (hd b) \<le> kv_key x" if "x \<in> set b" for x
    using inb b that by (cases b) auto
  have hds: "hd (bs ! j) \<in> set (concat bs)" if "j < length bs" for j
    using that Cons.prems(2) by (auto intro!: bexI [of _ "bs ! j"])
  show ?case
  proof (cases i)
    case 0
    then have "e \<in> set b" using Cons.prems by simp
    then have "kv_key (hd b) \<le> kv_key e" "\<And>j. j < length bs \<Longrightarrow> kv_key e < kv_key (hd (bs ! j))"
      using hdmin cross hds by blast+
    then show ?thesis using 0 by (auto simp: nth_Cons split: nat.split)
  next
    case (Suc k)
    then have e: "k < length bs" "e \<in> set (bs ! k)" using Cons.prems by simp_all
    then have "e \<in> set (concat bs)" by auto
    then have "kv_key (hd b) \<le> kv_key e" using cross b by (meson hd_in_set order_less_imp_le)
    moreover have "\<forall>j < length bs. (j \<le> k \<longrightarrow> kv_key (hd (bs ! j)) \<le> kv_key e)
        \<and> (k < j \<longrightarrow> kv_key e < kv_key (hd (bs ! j)))"
      using Cons.IH [OF rest _ e] Cons.prems(2) by simp
    ultimately show ?thesis using Suc by (auto simp: nth_Cons split: nat.split)
  qed
qed simp

lemma sorted_first_keys:
  assumes "strictly_sorted (concat bs)" and "\<forall>b \<in> set bs. b \<noteq> []"
  shows "sorted (map (kv_key \<circ> hd) bs)"
proof (rule sorted_iff_nth_mono [THEN iffD2], intro allI impI)
  fix i j
  assume ij: "i \<le> j" "j < length (map (kv_key \<circ> hd) bs)"
  then have "hd (bs ! j) \<in> set (bs ! j)" using assms(2) by simp
  with strictly_sorted_blocks [OF assms, of j] ij show "map (kv_key \<circ> hd) bs ! i \<le> map (kv_key \<circ> hd) bs ! j"
    by simp
qed

lemma visible_set: "set ab = set ab' \<Longrightarrow> visible ab = visible ab'"
  by (simp add: visible_def fun_eq_iff)

lemma sst_target_block:
  assumes "strictly_sorted (concat bs)" and "\<forall>b \<in> set bs. b \<noteq> []" and "i < length bs" and "e \<in> set (bs ! i)"
    and "\<forall>b \<in> set bs. length (kv_key (hd b)) < 2 ^ 16"
    and "length (concat (map fk_enc (map (kv_key \<circ> hd) bs))) < 2 ^ 32"
  shows "sst_target (kv_key e) (concat (map fk_enc (map (kv_key \<circ> hd) bs)))
    (map of_nat (fk_offs 0 (map (kv_key \<circ> hd) bs))) = i"
proof -
  let ?ks = "map (kv_key \<circ> hd) bs"
  let ?buf = "concat (map fk_enc ?ks)" and ?koff = "map of_nat (fk_offs 0 ?ks) :: u32 list"
  let ?lo = "bs_target (kv_key e) ?buf ?koff 0 (length ?koff)"
  have "fk_at ?buf (?koff ! j) = ?ks ! j" if "j < length ?koff" for j
    using fk_at_offs [of ?ks j "[]" "[]"] that assms(5,6) by simp
  then have "?lo \<le> length ?ks \<and> (\<forall>j < ?lo. ?ks ! j \<le> kv_key e)
      \<and> (\<forall>j. ?lo \<le> j \<and> j < length ?ks \<longrightarrow> kv_key e < ?ks ! j)"
    by (intro bs_target_split sorted_first_keys [OF assms(1,2)]) auto
  then have lo: "?lo \<le> length bs" "\<forall>j < ?lo. ?ks ! j \<le> kv_key e"
    "\<forall>j. ?lo \<le> j \<and> j < length bs \<longrightarrow> kv_key e < ?ks ! j"
    unfolding length_map by blast+
  have at: "\<forall>j < length bs. (j \<le> i \<longrightarrow> kv_key (hd (bs ! j)) \<le> kv_key e) \<and> (i < j \<longrightarrow> kv_key e < kv_key (hd (bs ! j)))"
    by (rule strictly_sorted_blocks [OF assms(1-4)])
  have "i < ?lo"
  proof (rule ccontr)
    assume "\<not> i < ?lo"
    then have "kv_key e < ?ks ! i" using lo(3) assms(3) by simp
    moreover have "?ks ! i \<le> kv_key e" using at assms(3) by simp
    ultimately show False by simp
  qed
  moreover have "\<not> Suc i < ?lo"
  proof
    assume s: "Suc i < ?lo"
    then have "?ks ! Suc i \<le> kv_key e" "Suc i < length bs" using lo by auto
    moreover from this(2) have "kv_key e < ?ks ! Suc i" using at by simp
    ultimately show False by simp
  qed
  ultimately have "?lo = Suc i" by linarith
  moreover have "?koff \<noteq> []" using assms(3) by (metis length_fk_offs length_map list.size(3) not_less_zero)
  ultimately show ?thesis by (simp add: sst_target_def Let_def)
qed

lemma lookup_answer_sorted:
  assumes "strictly_sorted (concat bs)" and "\<forall>b \<in> set bs. table_block_ok b"
    and "\<forall>e \<in> set (concat bs). entry_ok e"
    and "length (concat (map fk_enc (map (kv_key \<circ> hd) bs))) < 2 ^ 32"
    and "\<And>i. i < length bs \<Longrightarrow> sst_block_at file (map of_nat (offs 24 bs) ! i) = blk_bytes (bs ! i)"
  shows "lookup_answer file key ts (heavy_spec bsz bs ab)
    = map_option kv_result (find (visible (map sext64 (ab_list ab)) key ts) (concat bs))"
proof -
  let ?ks = "map (kv_key \<circ> hd) bs" and ?P = "visible (map sext64 (ab_list ab)) key ts" and ?h = "heavy_spec bsz bs ab"
  let ?at = "\<lambda>i. if i < length (ch_block_offsets ?h)
    then scanBlock (ch_aborted ?h) key ts (sst_block_at file (ch_block_offsets ?h ! i)) else None"
  have ne: "\<forall>b \<in> set bs. b \<noteq> []" using assms(2) by (simp add: table_block_ok_def)
  have hdk: "\<forall>b \<in> set bs. length (kv_key (hd b)) < 2 ^ 16"
  proof
    fix b
    assume "b \<in> set bs"
    with ne have "hd b \<in> set (concat bs)" by (auto intro: hd_in_set)
    with assms(3) have "entry_ok (hd b)" by blast
    then show "length (kv_key (hd b)) < 2 ^ 16" by (simp add: entry_ok_def)
  qed
  have at: "?at i = (if i < length bs then map_option kv_result (find ?P (bs ! i)) else None)" for i
    using assms(2,5) visible_set [of "fold List.insert (map sext64 (ab_list ab)) []" "map sext64 (ab_list ab)"]
    by (simp add: heavy_spec_def scanBlock_bytes table_block_ok_def set_fold_insert)
  show ?thesis
  proof (cases "find ?P (concat bs)")
    case None
    have none: "?at i = None" for i
      unfolding at using find_none_sub [OF None, of "bs ! i"] nth_mem [of i bs] by fastforce
    show ?thesis unfolding lookup_answer_def Let_def none using None by simp
  next
    case (Some e)
    then have e: "?P e" "e \<in> set (concat bs)" unfolding find_Some_iff by (metis nth_mem)+
    then obtain b where "b \<in> set bs" "e \<in> set b" by auto
    then obtain i where i: "i < length bs" "e \<in> set (bs ! i)" by (metis in_set_conv_nth)
    have key: "kv_key e = key" using e(1) by (simp add: visible_def)
    have "se_key e = key" using e(2) assms(3) key entry_ok_kv se_data_ok(1) by metis
    then have "key \<in> set (map se_key (concat bs))" using e(2) by (metis image_eqI set_map)
    then have "bf_MightContain key (ch_bloom ?h)"
      unfolding heavy_spec_def es_bloom_def case_prod_beta CachedHeavy.simps
      by (rule bloom.query_fold [OF bf_wf_new])
    moreover have "ch_first_key_buf ?h \<noteq> []"
      using i by (cases bs) (auto simp: heavy_spec_def fk_enc_def Let_def WriteUint16LE_def)
    moreover have "sst_target key (ch_first_key_buf ?h) (ch_first_key_offsets ?h) = i"
      using sst_target_block [OF assms(1) ne i hdk assms(4)] by (simp add: heavy_spec_def key)
    moreover have "find ?P (bs ! i) = Some e"
    proof (rule find_unique)
      fix y
      assume "y \<in> set (bs ! i)" and "?P y"
      then have "y \<in> set (concat bs)" "kv_key y = kv_key e"
        using nth_mem [OF i(1)] key by (auto simp: visible_def)
      then show "y = e" by (intro strictly_sorted_unique [OF assms(1) _ e(2)])
    qed (use i e in simp_all)
    ultimately show ?thesis
      using Some i(1) unfolding lookup_answer_def Let_def at by (simp del: first_some_simps(2))
  qed
qed

section \<open>Tables that Write produces\<close>

definition table_ok :: "(nat \<Rightarrow> u64 \<times> u32) \<Rightarrow> KeyValuePair list \<Rightarrow> u64 list option \<Rightarrow> bool" where
  "table_ok bsz es ab \<longleftrightarrow> (\<forall>e \<in> set es. entry_ok e) \<and> length es < 2 ^ 31
     \<and> length (sst_Write bsz es ab) < 2 ^ 31
     \<and> fst (bsz (if es = [] then 1 else length es)) < 2 ^ 32"

lemma es_bloom_wf: "bf_wf (es_bloom bsz es)"
  by (simp add: es_bloom_def bf_wf_fold bf_wf_new case_prod_beta)

lemma es_bloom_bits:
  "fst (bsz (if es = [] then 1 else length es)) < 2 ^ 32 \<Longrightarrow> bf_bits (es_bloom bsz es) < 2 ^ 32"
  by (auto simp: es_bloom_def bf_fold_fields bf_new_def case_prod_beta Let_def)

lemma sst_table:
  assumes "table_ok bsz es ab"
  obtains bs meta where "concat bs = es" and "\<forall>b \<in> set bs. table_block_ok b" and "\<forall>b \<in> set bs. block_fits b"
    and "sst_read_meta_file path (Some (sst_Write bsz es ab)) = Inr meta"
    and "heavy_of meta = heavy_spec bsz bs ab"
    and "md_min_key meta = es_min es" and "md_max_key meta = es_max es" and "entry_count meta = of_nat (length es)"
    and "\<And>i. i < length bs \<Longrightarrow>
      sst_block_at (Some (sst_Write bsz es ab)) (map of_nat (offs 24 bs) ! i) = blk_bytes (bs ! i)"
    and "length (concat (map fk_enc (map (kv_key \<circ> hd) bs))) < 2 ^ 32" and "length bs < 2 ^ 32"
proof -
  have es: "\<forall>e \<in> set es. entry_ok e" "length es < 2 ^ 31" "length (sst_Write bsz es ab) < 2 ^ 31"
    "fst (bsz (if es = [] then 1 else length es)) < 2 ^ 32"
    using assms unfolding table_ok_def by blast+
  obtain bs where bs: "concat bs = es" "\<forall>b \<in> set bs. block_fits b"
    "sst_Write bsz es ab = sst_finish (es_hdr es @ concat (map frm bs)) (es_meta bsz bs ab)"
    by (rule sst_Write_shape [of es bsz ab]) (use es(1,2) in \<open>auto dest: entry_ok_kv\<close>)
  have tb: "\<forall>b \<in> set bs. table_block_ok b"
    using table_blocks_ok [of bs] bs(1,2) es(1,2) by simp
  let ?f = "es_hdr es @ concat (map frm bs)" and ?m = "es_meta bsz bs ab" and ?ks = "map (kv_key \<circ> hd) bs"
  have lens: "length ?f + length ?m < 2 ^ 31" using es(3) by (simp add: bs(3) length_sst_finish)
  have ml: "length ?ks + 8 * length bs \<le> length ?m"
    unfolding es_meta_def
    by (rule order_trans [OF _ length_meta_region]) simp
  have fkl: "length (concat (map fk_enc ?ks)) \<le> length ?m" by (simp add: es_meta_def sst_meta_region_def)
  have "length (kv_key e) < 2 ^ 16" if "e \<in> set es" for e using es(1) that by (simp add: entry_ok_def)
  moreover have "hd b \<in> set es" if "b \<in> set bs" for b
  proof -
    have "hd b \<in> set b" using that bs(2) by (simp add: block_fits_def)
    then show ?thesis using that bs(1) by auto
  qed
  ultimately have keys: "length (es_min es) < 2 ^ 16" "length (es_max es) < 2 ^ 16"
    "\<forall>k \<in> set ?ks. length k < 2 ^ 16"
    by simp_all
  have "\<not> bit t 31" if "t \<in> set (map of_nat (offs 24 bs))" for t :: u64
  proof -
    from that obtain x where "t = of_nat x" "x \<in> set (offs 24 bs)" by auto
    with offs_bound [of x 24 bs] lens show ?thesis by (simp add: bit_small)
  qed
  then have ob: "\<forall>t \<in> set (map of_nat (offs 24 bs) :: u64 list). \<not> bit t 31" by blast
  have W: "sst_Write bsz es ab = sst_finish (sst_header (length es) (es_min es) (es_max es) @ concat (map frm bs))
      (sst_meta_region (es_min es) (es_max es) (es_bloom bsz es) ab (map of_nat (offs 24 bs)) ?ks)"
    unfolding bs(3) es_hdr_def es_meta_def bs(1) ..
  have "\<exists>meta. sst_read_meta_file path (Some (sst_Write bsz es ab)) = Inr meta
      \<and> md_min_key meta = es_min es \<and> md_max_key meta = es_max es \<and> entry_count meta = of_nat (length es)
      \<and> heavy_of meta = \<lparr>ch_bloom = es_bloom bsz es, ch_block_offsets = map of_nat (offs 24 bs),
          ch_first_key_buf = concat (map fk_enc ?ks), ch_first_key_offsets = map of_nat (fk_offs 0 ?ks),
          ch_aborted = fold List.insert (map sext64 (ab_list ab)) []\<rparr>"
    unfolding W
    by (rule read_meta_finish [OF refl refl es(3) [unfolded W] es(2) keys(1,2) es_bloom_wf
          es_bloom_bits [of bsz es, OF es(4)] ob keys(3)]) simp
  then obtain meta where meta: "sst_read_meta_file path (Some (sst_Write bsz es ab)) = Inr meta"
      "heavy_of meta = heavy_spec bsz bs ab" "md_min_key meta = es_min es" "md_max_key meta = es_max es"
      "entry_count meta = of_nat (length es)"
    unfolding heavy_spec_def bs(1) by blast
  have "sst_block_at (Some (sst_Write bsz es ab)) (map of_nat (offs 24 bs) ! i) = blk_bytes (bs ! i)"
    if "i < length bs" for i
    using sst_block_at_offs [OF that, of "es_hdr es" 24] es(3) tb
    unfolding bs(3) by (simp add: sst_finish_def)
  moreover have "length (concat (map fk_enc ?ks)) < 2 ^ 32" "length bs < 2 ^ 32"
    using fkl ml lens by simp_all
  ultimately show thesis
    by (rule that [OF bs(1) tb bs(2) meta])
qed

text \<open>A cache that holds nothing but what is in the file, possibly less.\<close>

definition cache_agrees :: "bytes \<Rightarrow> bytes option \<Rightarrow> u64 \<Rightarrow> block_cache option \<Rightarrow> bool" where
  "cache_agrees path file seq cache \<longleftrightarrow> (\<forall>meta. sst_read_meta_file path file = Inr meta
     \<longrightarrow> (\<forall>c h. cache = Some c \<longrightarrow> bc_heavy c seq = Some h \<longrightarrow> h = heavy_of meta)
       \<and> blocks_agree file seq (md_block_offsets meta) cache)"

lemma sst_LookupKey_answer:
  assumes "sst_read_meta_file path file = Inr meta" and "cache_agrees path file seq cache"
    and "length (md_block_offsets meta) < 2 ^ 32"
  shows "\<exists>cache'. sst_LookupKey path file key ts cache seq = (cache', Inr (lookup_answer file key ts (heavy_of meta)))
    \<and> cache_agrees path file seq cache'"
proof -
  have ag: "blocks_agree file seq (ch_block_offsets (heavy_of meta)) cache"
    "\<And>c h. cache = Some c \<Longrightarrow> bc_heavy c seq = Some h \<Longrightarrow> h = heavy_of meta"
    using assms(1,2) by (auto simp: cache_agrees_def heavy_of_def)
  have l: "length (ch_block_offsets (heavy_of meta)) < 2 ^ 32" using assms(3) by (simp add: heavy_of_def)
  define c0 where "c0 = map_option (\<lambda>c. c\<lparr>bc_heavy := (bc_heavy c)(seq \<mapsto> heavy_of meta)\<rparr>) cache"
  define c1 where "c1 = (if Option.bind cache (\<lambda>c. bc_heavy c seq) = None then c0 else cache)"
  have c1: "blocks_agree file seq (ch_block_offsets (heavy_of meta)) c1"
    "\<And>c h. c1 = Some c \<Longrightarrow> bc_heavy c seq = Some h \<Longrightarrow> h = heavy_of meta"
    using ag unfolding c1_def c0_def by (auto simp: blocks_agree_def split: if_splits)
  let ?l = "sst_lookup_in file key ts seq (heavy_of meta) c1"
  have "sst_LookupKey path file key ts cache seq = (fst ?l, Inr (snd ?l))"
    using ag(2) assms(1)
    by (cases cache; cases "Option.bind cache (\<lambda>c. bc_heavy c seq)")
      (auto simp: sst_LookupKey_def sst_ReadMetadata_def c1_def c0_def split: prod.split)
  moreover have "cache_agrees path file seq (fst ?l)"
  proof -
    have "h = heavy_of meta" if "fst ?l = Some c" "bc_heavy c seq = Some h" for c h
    proof -
      have "map_option bc_heavy c1 = Some (bc_heavy c)"
        using sst_lookup_in_spec [OF c1(1) l, of key ts] that(1) by simp
      with that(2) c1(2) show ?thesis by (cases c1) auto
    qed
    then show ?thesis
      using sst_lookup_in_spec [OF c1(1) l, of key ts] assms(1) by (simp add: cache_agrees_def heavy_of_def)
  qed
  ultimately show ?thesis using sst_lookup_in_spec [OF c1(1) l, of key ts] by auto
qed

lemma sstable_lookup_in_table:
  assumes "table_ok bsz es ab" and "strictly_sorted es"
    and "\<forall>t \<in> set (ab_list ab). \<not> bit t 31"
    and "cache_agrees path (Some (sst_Write bsz es ab)) seq cache"
  shows "\<exists>cache'. sst_LookupKey path (Some (sst_Write bsz es ab)) key ts cache seq
      = (cache', Inr (map_option kv_result (find (visible (ab_list ab) key ts) es)))
    \<and> cache_agrees path (Some (sst_Write bsz es ab)) seq cache'"
proof -
  obtain bs meta where m: "concat bs = es" "\<forall>b \<in> set bs. table_block_ok b"
    "sst_read_meta_file path (Some (sst_Write bsz es ab)) = Inr meta" "heavy_of meta = heavy_spec bsz bs ab"
    "\<And>i. i < length bs \<Longrightarrow>
      sst_block_at (Some (sst_Write bsz es ab)) (map of_nat (offs 24 bs) ! i) = blk_bytes (bs ! i)"
    "length (concat (map fk_enc (map (kv_key \<circ> hd) bs))) < 2 ^ 32" "length bs < 2 ^ 32"
    by (rule sst_table [OF assms(1), of path]) blast
  have "length (md_block_offsets meta) < 2 ^ 32"
    using m(4,7) by (auto simp: heavy_of_def heavy_spec_def)
  moreover have "lookup_answer (Some (sst_Write bsz es ab)) key ts (heavy_of meta)
      = map_option kv_result (find (visible (ab_list ab) key ts) es)"
    using lookup_answer_sorted [of bs "Some (sst_Write bsz es ab)" key ts bsz ab] m assms(1,2)
    by (simp add: table_ok_def sext64_id [OF assms(3)])
  ultimately show ?thesis
    using sst_LookupKey_answer [OF m(3) assms(4), of key ts] by simp
qed

text \<open>A one-entry table, for the examples.\<close>

lemma concat_single: "concat bs = [e] \<Longrightarrow> \<forall>b \<in> set bs. b \<noteq> [] \<Longrightarrow> bs = [[e]]"
  by (cases bs) (auto simp: append_eq_Cons_conv Cons_eq_append_conv)

lemma table_ok_single:
  assumes "entry_ok e" and "length (ab_list ab) < 2 ^ 10" and "length (kv_value e) < 2 ^ 20"
  shows "table_ok (\<lambda>n. (10, 7)) [e] ab"
proof -
  obtain bs where bs: "concat bs = [e]" "\<forall>b \<in> set bs. block_fits b"
    "sst_Write (\<lambda>n. (10, 7)) [e] ab
     = sst_finish (es_hdr [e] @ concat (map frm bs)) (es_meta (\<lambda>n. (10, 7)) bs ab)"
    by (rule sst_Write_shape [of "[e]" "\<lambda>n. (10, 7)" ab]) (use entry_ok_kv [OF assms(1)] in simp_all)
  then have "bs = [[e]]" by (intro concat_single) (auto simp: block_fits_def)
  moreover have "length (frm [e]) = length (kv_key e) + length (kv_value e) + 30"
    using length_se_enc entry_ok_kv [OF assms(1)] by (simp add: frm_def block_frame_def blk_bytes_def)
  moreover have "length (concat (map WriteUint64LE (ab_list ab))) = 8 * length (ab_list ab)"
    by (induction "ab_list ab" arbitrary: ab) (simp_all add: length_concat comp_def sum_list_triv)
  moreover have "length (bf_bytes (es_bloom (\<lambda>n. (10, 7)) [e])) = 8"
    by (simp add: es_bloom_def bf_fold_fields bf_new_def bf_size_def)
  moreover have "length (kv_key e) < 2 ^ 16" using assms(1) by (simp add: entry_ok_def)
  ultimately have "length (sst_Write (\<lambda>n. (10, 7)) [e] ab) < 2 ^ 31"
    using assms(2,3) fk_enc_small [of "kv_key e"]
    by (simp add: bs(3) length_sst_finish es_meta_def sst_meta_region_def ab_region)
  then show ?thesis using assms(1) by (simp add: table_ok_def)
qed

section \<open>Properties\<close>

text \<open>
  C27: a table written by \<open>Write\<close> is read back by \<open>ReadAll\<close>: the loop over the blocks ends and
  returns exactly the entries, in order, tombstones included.
\<close>

theorem sstable_read_all_roundtrip:
  assumes "\<forall>e \<in> set es. entry_ok e" and "length es < 2 ^ 32"
  shows "sst_ReadAll (Some (sst_Write bsz es ab)) = Some (Inr es)"
  by (rule sst_ReadAll_Write [OF assms])

theorem sstable_read_all_roundtrip_witness:
  "sst_ReadAll (Some (sst_Write (\<lambda>n. (10, 7)) [mk_kv [1] [2] 3, mk_kv [4] [] 5] (Some [9])))
   = Some (Inr [mk_kv [1] [2] 3, mk_kv [4] [] 5])"
  by (rule sstable_read_all_roundtrip) (simp_all add: entry_ok_def mk_kv_def)

text \<open>
  the metadata of a written table. \<open>ReadMetadata\<close> accepts the file and returns the number
  of entries, the least and the greatest key, and a Bloom filter that admits every key of the
  table.
\<close>

theorem sstable_metadata_roundtrip:
  assumes "table_ok bsz es ab"
  shows "\<exists>meta. sst_ReadMetadata path (Some (sst_Write bsz es ab)) None seq = (None, Inr meta)
    \<and> entry_count meta = of_nat (length es)
    \<and> md_min_key meta = es_min es \<and> md_max_key meta = es_max es
    \<and> (\<forall>e \<in> set es. bf_MightContain (kv_key e) (md_bloom meta))
    \<and> set (aborted_batch_ts meta) = sext64 ` set (ab_list ab)"
proof -
  obtain bs meta where m: "concat bs = es" "sst_read_meta_file path (Some (sst_Write bsz es ab)) = Inr meta"
    "heavy_of meta = heavy_spec bsz bs ab" "md_min_key meta = es_min es" "md_max_key meta = es_max es"
    "entry_count meta = of_nat (length es)"
    by (rule sst_table [OF assms])
  have "md_bloom meta = es_bloom bsz es" and ab: "aborted_batch_ts meta = fold List.insert (map sext64 (ab_list ab)) []"
    using m(1,3) by (simp_all add: heavy_of_def heavy_spec_def)
  moreover have "bf_MightContain (kv_key e) (es_bloom bsz es)" if "e \<in> set es" for e
  proof -
    have "se_key e = kv_key e" using assms that entry_ok_kv se_data_ok(1) unfolding table_ok_def by metis
    then have "kv_key e \<in> set (map se_key es)" using that by (metis image_eqI set_map)
    then show ?thesis
      unfolding es_bloom_def case_prod_beta by (rule bloom.query_fold [OF bf_wf_new])
  qed
  ultimately show ?thesis
    using m by (intro exI [of _ meta]) (simp add: sst_ReadMetadata_def set_fold_insert)
qed

text \<open>
  C4: lookup in a table with one version per key and no aborted timestamp that has bit 31 set (see
  \<open>sstable_aborted_write_reappears\<close>), through any cache that agrees with the file.
  \<open>LookupKey\<close> succeeds and finds the entry with the key whose timestamp is not above the read
  timestamp and not among the aborted batches (an empty value for a tombstone), and reports
  absence exactly when there is none; the cache agrees with the file afterwards.
\<close>

theorem sstable_lookup_correct:
  assumes "table_ok bsz es ab" and "strictly_sorted es"
    and "\<forall>t \<in> set (ab_list ab). \<not> bit t 31"
    and "cache_agrees path (Some (sst_Write bsz es ab)) seq cache"
  shows "\<exists>cache'. sst_LookupKey path (Some (sst_Write bsz es ab)) key ts cache seq
      = (cache', Inr (map_option kv_result (find (visible (ab_list ab) key ts) es)))
    \<and> cache_agrees path (Some (sst_Write bsz es ab)) seq cache'"
  by (rule sstable_lookup_in_table [OF assms])

theorem sstable_metadata_roundtrip_witness:
  "\<exists>meta. sst_ReadMetadata [] (Some (sst_Write (\<lambda>n. (10, 7)) [mk_kv [1] [2] 3] (Some [9]))) None 1 = (None, Inr meta)
    \<and> entry_count meta = of_nat (length [mk_kv [1] [2] 3])
    \<and> md_min_key meta = es_min [mk_kv [1] [2] 3] \<and> md_max_key meta = es_max [mk_kv [1] [2] 3]
    \<and> (\<forall>e \<in> set [mk_kv [1] [2] 3]. bf_MightContain (kv_key e) (md_bloom meta))
    \<and> set (aborted_batch_ts meta) = sext64 ` set (ab_list (Some [9]))"
  by (rule sstable_metadata_roundtrip [OF table_ok_single]) (simp_all add: entry_ok_def mk_kv_def ab_list_def)

theorem sstable_lookup_correct_witness:
  "\<exists>cache'. sst_LookupKey [] (Some (sst_Write (\<lambda>n. (10, 7)) [mk_kv [1] [2] 3] (Some [9]))) [1] 7 None 1
      = (cache', Inr (map_option kv_result (find (visible (ab_list (Some [9])) [1] 7) [mk_kv [1] [2] 3])))
    \<and> cache_agrees [] (Some (sst_Write (\<lambda>n. (10, 7)) [mk_kv [1] [2] 3] (Some [9]))) 1 cache'"
proof (rule sstable_lookup_correct [OF table_ok_single])
  have "\<not> bit (9 :: u64) 31" by code_simp
  then show "\<forall>t \<in> set (ab_list (Some [9])). \<not> bit (t :: u64) 31" by (simp add: ab_list_def)
qed (simp_all add: entry_ok_def mk_kv_def ab_list_def strictly_sorted_def cache_agrees_def blocks_agree_def)

text \<open>
  an aborted write can come back. The timestamps of aborted batches are read through an
  \<^verbatim>\<open>int\<close>, so one with bit 31 set is read as another number, and a lookup returns the entry
  that was written by the aborted batch.
\<close>

theorem sstable_aborted_write_reappears:
  assumes "table_ok bsz [e] (Some [kv_timestamp e])"
    and "bit (kv_timestamp e) 31" and "kv_timestamp e < 2 ^ 32"
  shows "\<exists>cache'. sst_LookupKey path (Some (sst_Write bsz [e] (Some [kv_timestamp e])))
    (kv_key e) (kv_timestamp e) None seq = (cache', Inr (Some (kv_result e)))"
proof -
  let ?ab = "Some [kv_timestamp e]"
  let ?f = "Some (sst_Write bsz [e] ?ab)"
  obtain bs meta where m: "concat bs = [e]" "\<forall>b \<in> set bs. table_block_ok b"
    "sst_read_meta_file path ?f = Inr meta" "heavy_of meta = heavy_spec bsz bs ?ab"
    "\<And>i. i < length bs \<Longrightarrow> sst_block_at ?f (map of_nat (offs 24 bs) ! i) = blk_bytes (bs ! i)"
    "length (concat (map fk_enc (map (kv_key \<circ> hd) bs))) < 2 ^ 32" "length bs < 2 ^ 32"
    by (rule sst_table [OF assms(1), of path]) blast
  have "\<not> bit (kv_timestamp e) 63"
    using assms(3) by (metis bit_take_bit_iff mod_word_less not_less take_bit_eq_mod
        le_numeral_extra(4) nat_le_linear numeral_le_iff semiring_norm(69,71,72,73))
  moreover have "bit (sext64 (kv_timestamp e)) 63"
    using assms(2) by (simp add: sext64_def bit_or_iff)
  ultimately have "sext64 (kv_timestamp e) \<noteq> kv_timestamp e" by metis
  then have "lookup_answer ?f (kv_key e) (kv_timestamp e) (heavy_of meta) = Some (kv_result e)"
    using lookup_answer_sorted [of bs ?f "kv_key e" "kv_timestamp e" bsz ?ab] m assms(1)
    by (simp add: table_ok_def strictly_sorted_def ab_list_def visible_def)
  moreover have "length (md_block_offsets meta) < 2 ^ 32"
    using m(4,7) by (auto simp: heavy_of_def heavy_spec_def)
  ultimately show ?thesis
    using sst_LookupKey_answer [OF m(3), of seq None "kv_key e" "kv_timestamp e"]
    by (auto simp: cache_agrees_def blocks_agree_def)
qed

theorem sstable_aborted_write_reappears_witness:
  "\<exists>cache'. sst_LookupKey [] (Some (sst_Write (\<lambda>n. (10, 7)) [mk_kv [1] [2] 0x80000000]
      (Some [kv_timestamp (mk_kv [1] [2] 0x80000000)])))
    (kv_key (mk_kv [1] [2] 0x80000000)) (kv_timestamp (mk_kv [1] [2] 0x80000000)) None 1
   = (cache', Inr (Some (kv_result (mk_kv [1] [2] 0x80000000))))"
proof (rule sstable_aborted_write_reappears [OF table_ok_single])
  show "bit (kv_timestamp (mk_kv [1] [2] 0x80000000)) 31"
    by (simp add: mk_kv_def)
qed (simp_all add: entry_ok_def mk_kv_def ab_list_def)

end
