(* ===== verification/Bptree.thy ===== *)
theory Bptree
  imports Sstable
begin

text \<open>
  The B+-tree behind a memtable (\<^verbatim>\<open>include/kvdb/bptree.hpp\<close>). A leaf page is the list of its entries in slot
  order; its free space is computed from the record and slot sizes as in the page, and a value of more
  than half a page counts with the eight bytes of the pointer to its blob. Inner nodes are keys and
  children. An insertion copies the leaf and the nodes it changes, so the model returns a new tree. The bytes
  of leaves and nodes are the subject of \<open>Leaf_Page\<close> and \<open>Node_Store\<close>, the version locks of \<open>Node_Version\<close>, and the
  retirement of old pages of \<open>Page_Reclaim\<close>.

  The flat memtable, one sorted list of versions, is the specification of the tree.
\<close>

section \<open>The flat memtable\<close>

definition mt_insert :: "KeyValuePair \<Rightarrow> KeyValuePair list \<Rightarrow> KeyValuePair list" where
  "mt_insert kv es = takeWhile (\<lambda>e. kv_key e < kv_key kv) es @ kv # dropWhile (\<lambda>e. kv_key e < kv_key kv) es"

text \<open>
  The versions of a key are scanned from the first one; a tombstone and a missing key both
  count as \<^verbatim>\<open>false\<close>.
\<close>

fun mt_scan :: "bytes \<Rightarrow> u64 \<Rightarrow> u64 list \<Rightarrow> KeyValuePair list \<Rightarrow> bytes option" where
  "mt_scan key ts ab [] = None"
| "mt_scan key ts ab (e # es) =
     (if kv_key e \<noteq> key then None
      else if kv_timestamp e \<in> set ab then mt_scan key ts ab es
      else if kv_timestamp e \<le> ts then (if kv_is_tombstone e then None else Some (kv_value e))
      else mt_scan key ts ab es)"

definition mt_lookup :: "bytes \<Rightarrow> u64 \<Rightarrow> u64 list \<Rightarrow> KeyValuePair list \<Rightarrow> bytes option" where
  "mt_lookup key ts ab es = mt_scan key ts ab (dropWhile (\<lambda>e. kv_key e < key) es)"

section \<open>Leaf pages\<close>

definition kSlotSize :: nat where "kSlotSize = 14"
definition kInternalFanout :: nat where "kInternalFanout = 16"

definition is_large :: "KeyValuePair \<Rightarrow> bool" where
  "is_large kv \<longleftrightarrow> length (kv_value kv) > kPageSize div 2"

definition rec_size :: "KeyValuePair \<Rightarrow> nat" where
  "rec_size kv = length (kv_key kv) + (if is_large kv then 8 else length (kv_value kv))"

text \<open>\<^verbatim>\<open>data_start - slot_end\<close>: records grow down from the end of the page, slots up from byte 24.\<close>

definition leaf_Free :: "KeyValuePair list \<Rightarrow> nat" where
  "leaf_Free es = kPageSize - 24 - sum_list (map (\<lambda>e. rec_size e + kSlotSize) es)"

text \<open>The binary search of \<open>Find\<close>: the first slot whose key is not below the key.\<close>

function leaf_find :: "bytes \<Rightarrow> KeyValuePair list \<Rightarrow> int \<Rightarrow> int \<Rightarrow> int" where
  "leaf_find key es lo hi =
     (if lo \<le> hi then
        let mid = (lo + hi) div 2
        in if key \<le> kv_key (es ! nat mid) then leaf_find key es lo (mid - 1) else leaf_find key es (mid + 1) hi
      else lo)"
  by pat_completeness auto
termination
  by (relation "measure (\<lambda>(_, _, lo, hi). nat (hi - lo + 1))") auto

declare leaf_find.simps [simp del]

definition leaf_Find :: "bytes \<Rightarrow> KeyValuePair list \<Rightarrow> nat" where
  "leaf_Find key es = nat (leaf_find key es 0 (int (length es) - 1))"

text \<open>\<open>None\<close> is \<^verbatim>\<open>false\<close>: the page has no room.\<close>

definition leaf_InsertEntry :: "nat \<Rightarrow> KeyValuePair \<Rightarrow> KeyValuePair list \<Rightarrow> KeyValuePair list option" where
  "leaf_InsertEntry pos kv es =
     (if leaf_Free es < rec_size kv + kSlotSize then None else Some (take pos es @ kv # drop pos es))"

text \<open>\<open>CopyEntry\<close> appends an entry to a page and drops it when there is no room.\<close>

definition leaf_CopyEntry :: "KeyValuePair \<Rightarrow> KeyValuePair list \<Rightarrow> KeyValuePair list" where
  "leaf_CopyEntry e dst = (if leaf_Free dst < rec_size e + kSlotSize then dst else dst @ [e])"

text \<open>
  The leaf part of \<open>SplitCoW\<close>: the halves, and the new entry in its half; if it does not fit there it is
  appended to the other half.
\<close>

definition leaf_split ::
  "nat \<Rightarrow> KeyValuePair \<Rightarrow> KeyValuePair list \<Rightarrow> KeyValuePair list \<times> bytes \<times> KeyValuePair list" where
  "leaf_split pos kv es =
     (let mid = length es div 2;
          left = fold leaf_CopyEntry (take mid es) [];
          right = fold leaf_CopyEntry (drop mid es) [];
          (left, right) =
            (if pos < mid
             then case leaf_InsertEntry pos kv left of
                    Some l \<Rightarrow> (l, right)
                  | None \<Rightarrow> (left, case leaf_InsertEntry (length right) kv right of Some r \<Rightarrow> r | None \<Rightarrow> right)
             else case leaf_InsertEntry (pos - mid) kv right of
                    Some r \<Rightarrow> (left, r)
                  | None \<Rightarrow> (case leaf_InsertEntry (length left) kv left of Some l \<Rightarrow> l | None \<Rightarrow> left, right))
      in (left, kv_key (hd right), right))"

section \<open>The tree\<close>

datatype bnode = BLeaf "KeyValuePair list" | BNode "bytes list" "bnode list"

text \<open>\<open>FindChild\<close>: the number of separators that are not above the key, by binary search.\<close>

function find_child :: "bytes \<Rightarrow> bytes list \<Rightarrow> nat \<Rightarrow> nat \<Rightarrow> nat" where
  "find_child key ks lo hi =
     (if lo < hi then
        let mid = (lo + hi) div 2
        in if ks ! mid > key then find_child key ks lo mid else find_child key ks (mid + 1) hi
      else lo)"
  by pat_completeness auto
termination
  by (relation "measure (\<lambda>(_, _, lo, hi). hi - lo)") auto

declare find_child.simps [simp del]

definition FindChild :: "bytes \<Rightarrow> bytes list \<Rightarrow> nat" where
  "FindChild key ks = find_child key ks 0 (length ks)"

datatype ins_result = One bnode | Two bnode bytes bnode

definition ins_leaf :: "KeyValuePair \<Rightarrow> KeyValuePair list \<Rightarrow> ins_result" where
  "ins_leaf kv es =
     (let pos = leaf_Find (kv_key kv) es
      in case leaf_InsertEntry pos kv es of
           Some es' \<Rightarrow> One (BLeaf es')
         | None \<Rightarrow> (case leaf_split pos kv es of (l, sep, r) \<Rightarrow> Two (BLeaf l) sep (BLeaf r)))"

text \<open>One level of the ascent of \<open>SplitCoW\<close>: child \<open>i\<close> is replaced by what the insertion made of it.\<close>

definition ins_node :: "bytes list \<Rightarrow> bnode list \<Rightarrow> nat \<Rightarrow> ins_result \<Rightarrow> ins_result" where
  "ins_node ks cs i res =
     (case res of
        One c \<Rightarrow> One (BNode ks (cs[i := c]))
      | Two l sep r \<Rightarrow>
          (let ks' = take i ks @ sep # drop i ks;
               cs' = take i cs @ l # r # drop (Suc i) cs
           in if length ks' < kInternalFanout then One (BNode ks' cs')
              else let mid = length ks' div 2
                   in Two (BNode (take mid ks') (take (mid + 1) cs')) (ks' ! mid)
                          (BNode (drop (mid + 1) ks') (drop (mid + 1) cs'))))"

lemma FindChild_bound: "FindChild key ks \<le> length ks"
proof -
  have "lo \<le> hi \<Longrightarrow> find_child key ks lo hi \<le> hi" for lo hi
  proof (induction key ks lo hi rule: find_child.induct)
    case (1 key ks lo hi)
    then show ?case by (subst find_child.simps) (force simp: Let_def)
  qed
  then show ?thesis by (simp add: FindChild_def)
qed

lemma bnode_size_nth: "i < length cs \<Longrightarrow> size (cs ! i :: bnode) < Suc (size_list size cs)"
  by (simp add: less_Suc_eq_le size_list_estimation' [OF nth_mem])

text \<open>A node that has no child at the index is never met; the tree is then left as it is.\<close>

function bt_ins :: "KeyValuePair \<Rightarrow> bnode \<Rightarrow> ins_result" where
  "bt_ins kv (BLeaf es) = ins_leaf kv es"
| "bt_ins kv (BNode ks cs) =
     (let i = FindChild (kv_key kv) ks
      in if i < length cs then ins_node ks cs i (bt_ins kv (cs ! i)) else One (BNode ks cs))"
  by pat_completeness auto
termination
  by (relation "measure (\<lambda>(_, t). size t)") (auto simp: bnode_size_nth)

definition bt_empty :: bnode where
  "bt_empty = BNode [] [BLeaf []]"

definition bt_Insert :: "KeyValuePair \<Rightarrow> bnode \<Rightarrow> bnode" where
  "bt_Insert kv t = (case bt_ins kv t of One t' \<Rightarrow> t' | Two l sep r \<Rightarrow> BNode [sep] [l, r])"

function FindLeaf :: "bytes \<Rightarrow> bnode \<Rightarrow> KeyValuePair list" where
  "FindLeaf key (BLeaf es) = es"
| "FindLeaf key (BNode ks cs) =
     (let i = FindChild key ks in if i < length cs then FindLeaf key (cs ! i) else [])"
  by pat_completeness auto
termination
  by (relation "measure (\<lambda>(_, t). size t)") (auto simp: bnode_size_nth)

definition bt_Lookup :: "bytes \<Rightarrow> u64 \<Rightarrow> u64 list \<Rightarrow> bnode \<Rightarrow> bytes option" where
  "bt_Lookup key ts ab t =
     (let leaf = FindLeaf key t; idx = leaf_Find key leaf
      in if idx < length leaf \<and> kv_key (leaf ! idx) = key then mt_scan key ts ab (drop idx leaf) else None)"

text \<open>The chain of the leaves, which \<open>Export\<close> and \<open>MemTableWalk\<close> follow.\<close>

fun bt_entries :: "bnode \<Rightarrow> KeyValuePair list" where
  "bt_entries (BLeaf es) = es"
| "bt_entries (BNode ks cs) = concat (map bt_entries cs)"

section \<open>Searching\<close>

definition key_ordered :: "KeyValuePair list \<Rightarrow> bool" where
  "key_ordered es \<longleftrightarrow> sorted (map kv_key es)"

definition splits_at :: "(nat \<Rightarrow> bool) \<Rightarrow> nat \<Rightarrow> nat \<Rightarrow> bool" where
  "splits_at P n k \<longleftrightarrow> k \<le> n \<and> (\<forall>i < k. P i) \<and> (\<forall>i. k \<le> i \<longrightarrow> i < n \<longrightarrow> \<not> P i)"

lemma leaf_find_step:
  "lo \<le> hi \<Longrightarrow> key \<le> kv_key (es ! nat ((lo + hi) div 2)) \<Longrightarrow> leaf_find key es lo hi = leaf_find key es lo ((lo + hi) div 2 - 1)"
  "lo \<le> hi \<Longrightarrow> \<not> key \<le> kv_key (es ! nat ((lo + hi) div 2)) \<Longrightarrow> leaf_find key es lo hi = leaf_find key es ((lo + hi) div 2 + 1) hi"
  "\<not> lo \<le> hi \<Longrightarrow> leaf_find key es lo hi = lo"
  by (subst leaf_find.simps, simp add: Let_def)+

lemma leaf_find_range:
  assumes "key_ordered es" and "0 \<le> lo" and "lo \<le> hi + 1" and "hi < int (length es)"
    and "\<forall>i. int i < lo \<longrightarrow> kv_key (es ! i) < key" and "\<forall>i < length es. hi < int i \<longrightarrow> key \<le> kv_key (es ! i)"
  shows "splits_at (\<lambda>i. kv_key (es ! i) < key) (length es) (nat (leaf_find key es lo hi))"
  using assms(2-)
proof (induction "nat (hi - lo + 1)" arbitrary: lo hi rule: less_induct)
  case less
  let ?m = "(lo + hi) div 2"
  have mono: "kv_key (es ! i) \<le> kv_key (es ! j)" if "i \<le> j" "j < length es" for i j
    using assms(1) that by (auto simp: key_ordered_def sorted_iff_nth_mono)
  consider "\<not> lo \<le> hi" | "lo \<le> hi" "key \<le> kv_key (es ! nat ?m)" | "lo \<le> hi" "kv_key (es ! nat ?m) < key"
    by fastforce
  then show ?case
  proof cases
    case 1
    with less.prems(2) have "hi = lo - 1" by simp
    then show ?thesis using less.prems by (auto simp: leaf_find_step(3) splits_at_def not_less)
  next
    case 2
    then have m: "lo \<le> ?m" "?m \<le> hi" "nat (?m - 1 - lo + 1) < nat (hi - lo + 1)" by auto
    have "\<forall>i < length es. ?m - 1 < int i \<longrightarrow> key \<le> kv_key (es ! i)"
    proof (intro allI impI)
      fix i assume "i < length es" "?m - 1 < int i"
      then have "nat ?m \<le> i" by linarith
      from 2(2) mono [OF this \<open>i < length es\<close>] show "key \<le> kv_key (es ! i)" by (rule order_trans)
    qed
    with less.hyps [OF m(3)] less.prems(1,3,4) m show ?thesis unfolding leaf_find_step(1) [OF 2] by simp
  next
    case 3
    then have m: "lo \<le> ?m" "?m \<le> hi" "nat (hi - (?m + 1) + 1) < nat (hi - lo + 1)" by auto
    have "\<forall>i. int i < ?m + 1 \<longrightarrow> kv_key (es ! i) < key"
    proof (intro allI impI)
      fix i assume "int i < ?m + 1"
      then have "i \<le> nat ?m" "nat ?m < length es" using m less.prems(1,3) by linarith+
      from mono [OF this] 3(2) show "kv_key (es ! i) < key" by (rule le_less_trans)
    qed
    with less.hyps [OF m(3)] less.prems(1,3,5) m 3 show ?thesis
      by (subst leaf_find_step(2)) (simp_all add: not_le)
  qed
qed

lemma leaf_Find_takeWhile:
  assumes "key_ordered es"
  shows "leaf_Find key es = length (takeWhile (\<lambda>e. kv_key e < key) es)"
proof -
  let ?n = "leaf_Find key es"
  have r: "?n \<le> length es" "\<forall>i < ?n. kv_key (es ! i) < key" "\<forall>i < length es. ?n \<le> i \<longrightarrow> key \<le> kv_key (es ! i)"
    using leaf_find_range [OF assms, of 0 "int (length es) - 1" key]
    by (simp_all add: leaf_Find_def splits_at_def not_less)
  have "takeWhile (\<lambda>e. kv_key e < key) es = take ?n es"
  proof (cases "?n < length es")
    case True
    with r show ?thesis by (intro takeWhile_eq_take_P_nth) (auto simp: not_less)
  next
    case False
    then have "takeWhile (\<lambda>e. kv_key e < key) es = es" using r by (auto simp: takeWhile_eq_all_conv in_set_conv_nth)
    with False show ?thesis by simp
  qed
  with r show ?thesis by simp
qed

lemma leaf_Find_split:
  assumes "key_ordered es"
  shows "take (leaf_Find key es) es = takeWhile (\<lambda>e. kv_key e < key) es"
    "drop (leaf_Find key es) es = dropWhile (\<lambda>e. kv_key e < key) es"
  unfolding leaf_Find_takeWhile [OF assms]
  by (metis append_eq_conv_conj takeWhile_dropWhile_id)+

lemma find_child_step:
  "lo < hi \<Longrightarrow> ks ! ((lo + hi) div 2) > key \<Longrightarrow> find_child key ks lo hi = find_child key ks lo ((lo + hi) div 2)"
  "lo < hi \<Longrightarrow> \<not> ks ! ((lo + hi) div 2) > key \<Longrightarrow> find_child key ks lo hi = find_child key ks ((lo + hi) div 2 + 1) hi"
  "\<not> lo < hi \<Longrightarrow> find_child key ks lo hi = lo"
  by (subst find_child.simps, simp add: Let_def)+

lemma find_child_range:
  assumes "sorted ks" and "lo \<le> hi" "hi \<le> length ks" "\<forall>i < lo. ks ! i \<le> key" "\<forall>i < length ks. hi \<le> i \<longrightarrow> key < ks ! i"
  shows "splits_at (\<lambda>i. ks ! i \<le> key) (length ks) (find_child key ks lo hi)"
  using assms(2-)
proof (induction "hi - lo" arbitrary: lo hi rule: less_induct)
  case less
  let ?m = "(lo + hi) div 2"
  have mono: "ks ! i \<le> ks ! j" if "i \<le> j" "j < length ks" for i j
    using assms(1) that by (auto simp: sorted_iff_nth_mono)
  consider "\<not> lo < hi" | "lo < hi" "ks ! ?m > key" | "lo < hi" "ks ! ?m \<le> key" by fastforce
  then show ?case
  proof cases
    case 1
    with less.prems show ?thesis by (auto simp: find_child_step(3) splits_at_def not_le)
  next
    case 2
    then have m: "lo \<le> ?m" "?m < hi" "?m - lo < hi - lo" by auto
    have "\<forall>i < length ks. ?m \<le> i \<longrightarrow> key < ks ! i" using mono 2(2) by (blast intro: less_le_trans)
    with less.hyps [OF m(3)] less.prems(2,3) m show ?thesis unfolding find_child_step(1) [OF 2] by simp
  next
    case 3
    then have m: "lo \<le> ?m" "?m < hi" "hi - (?m + 1) < hi - lo" by auto
    have "\<forall>i < ?m + 1. ks ! i \<le> key"
    proof (intro allI impI)
      fix i assume "i < ?m + 1"
      then have "i \<le> ?m" "?m < length ks" using m(2) less.prems(2) by linarith+
      from mono [OF this] 3(2) show "ks ! i \<le> key" by (rule order_trans)
    qed
    with less.hyps [OF m(3)] less.prems(2,4) m 3 show ?thesis
      by (subst find_child_step(2)) (simp_all add: not_less)
  qed
qed

lemma FindChild_range:
  assumes "sorted ks"
  shows "splits_at (\<lambda>i. ks ! i \<le> key) (length ks) (FindChild key ks)"
  using find_child_range [OF assms, of 0 "length ks" key] by (simp add: FindChild_def)

section \<open>Separation\<close>

text \<open>
  Separator \<open>i\<close> lies above all entries of child \<open>i\<close>, at or below all entries of child \<open>i + 1\<close>, and is the
  key of one of the latter. So all versions of a key are in one leaf.
\<close>

fun separated :: "bytes list \<Rightarrow> KeyValuePair list list \<Rightarrow> bool" where
  "separated [] Es \<longleftrightarrow> length Es = 1"
| "separated (k # ks) (c # d # Es) \<longleftrightarrow> (\<forall>e \<in> set c. kv_key e < k) \<and> (\<forall>e \<in> set d. k \<le> kv_key e)
     \<and> k \<in> kv_key ` set d \<and> separated ks (d # Es)"
| "separated (k # ks) _ \<longleftrightarrow> False"

fun bt_sep :: "bnode \<Rightarrow> bool" where
  "bt_sep (BLeaf es) \<longleftrightarrow> key_ordered es"
| "bt_sep (BNode ks cs) \<longleftrightarrow> separated ks (map bt_entries cs) \<and> list_all bt_sep cs"

lemma separated_length: "separated ks Es \<Longrightarrow> length Es = Suc (length ks)"
  by (induction ks Es rule: separated.induct) auto

lemma separated_nth:
  assumes "separated ks Es" and "i < length ks"
  shows "\<forall>e \<in> set (Es ! i). kv_key e < ks ! i" "\<forall>e \<in> set (Es ! Suc i). ks ! i \<le> kv_key e"
    "ks ! i \<in> kv_key ` set (Es ! Suc i)"
proof -
  have "(\<forall>e \<in> set (Es ! i). kv_key e < ks ! i) \<and> (\<forall>e \<in> set (Es ! Suc i). ks ! i \<le> kv_key e)
      \<and> ks ! i \<in> kv_key ` set (Es ! Suc i)"
    using assms
  proof (induction ks Es arbitrary: i rule: separated.induct)
    case (2 k ks c d Es)
    then show ?case by (cases i) auto
  qed auto
  then show "\<forall>e \<in> set (Es ! i). kv_key e < ks ! i" "\<forall>e \<in> set (Es ! Suc i). ks ! i \<le> kv_key e"
    "ks ! i \<in> kv_key ` set (Es ! Suc i)" by auto
qed

lemma separated_sorted: "separated ks Es \<Longrightarrow> sorted ks"
proof (induction ks Es rule: separated.induct)
  case (2 k ks c d Es)
  then have s: "sorted ks" by simp
  show ?case
  proof (cases ks)
    case (Cons k' ks')
    then obtain d' Es' where "Es = d' # Es'" using 2(2) by (cases Es) auto
    with 2(2) Cons have "k < k'" by auto
    with s Cons show ?thesis by (auto intro: order_trans less_imp_le)
  qed simp
qed auto

text \<open>Two adjacent groups of children around a separator, and around a shared child.\<close>

lemma separated_append:
  "length Es1 = length ks1 \<Longrightarrow> separated (ks1 @ k # ks2) (Es1 @ c # d # Es2) \<longleftrightarrow>
     separated ks1 (Es1 @ [c]) \<and> (\<forall>e \<in> set c. kv_key e < k) \<and> (\<forall>e \<in> set d. k \<le> kv_key e)
     \<and> k \<in> kv_key ` set d \<and> separated ks2 (d # Es2)"
proof (induction Es1 ks1 rule: list_induct2)
  case (Cons a as b bs)
  then show ?case by (cases as) auto
qed simp

lemma separated_join:
  "length Es1 = length ks1 \<Longrightarrow> separated (ks1 @ ks2) (Es1 @ c # Es2) \<longleftrightarrow> separated ks1 (Es1 @ [c]) \<and> separated ks2 (c # Es2)"
proof (induction Es1 ks1 rule: list_induct2)
  case (Cons a as b bs)
  then show ?case by (cases as) auto
qed auto

lemma separated_last:
  assumes "separated ks (Es @ [c])" and "\<forall>k \<in> set ks. \<forall>e \<in> set c'. k \<le> kv_key e"
    and "\<forall>k \<in> set ks. k \<in> kv_key ` set c \<longrightarrow> k \<in> kv_key ` set c'"
  shows "separated ks (Es @ [c'])"
  using assms
proof (induction ks arbitrary: Es)
  case Nil
  then show ?case by simp
next
  case (Cons k ks)
  then obtain a as where Es: "Es = a # as" by (cases Es) auto
  show ?case
  proof (cases as)
    case Nil
    with Cons Es show ?thesis by (cases ks) auto
  next
    case (Cons b bs)
    with Cons.prems Es have "separated ks (as @ [c])" by simp
    then have "separated ks (as @ [c'])" using Cons.IH Cons.prems by auto
    with Cons Cons.prems Es show ?thesis by auto
  qed
qed

lemma separated_hd:
  "separated ks (c # Es) \<Longrightarrow> \<forall>k \<in> set ks. \<forall>e \<in> set c'. kv_key e < k \<Longrightarrow> separated ks (c' # Es)"
  by (cases ks; cases Es) auto

lemma concat_split_nth: "i < length xs \<Longrightarrow> concat xs = concat (take i xs) @ xs ! i @ concat (drop (Suc i) xs)"
  by (metis concat.simps(2) concat_append id_take_nth_drop)

text \<open>The entries left and right of the child that a key leads to.\<close>

lemma bt_sep_child:
  assumes "bt_sep (BNode ks cs)" and "i = FindChild key ks"
  shows "i < length cs" "bt_sep (cs ! i)"
    "\<forall>e \<in> set (concat (map bt_entries (take i cs))). kv_key e < key"
    "\<forall>e \<in> set (concat (map bt_entries (drop (Suc i) cs))). key < kv_key e"
    "bt_entries (BNode ks cs) = concat (map bt_entries (take i cs)) @ bt_entries (cs ! i) @ concat (map bt_entries (drop (Suc i) cs))"
proof -
  have f: "i \<le> length ks" "\<forall>j < i. ks ! j \<le> key" "\<forall>j < length ks. i \<le> j \<longrightarrow> key < ks ! j"
    using FindChild_range [of ks key] separated_sorted assms by (auto simp: splits_at_def not_le)
  have s: "separated ks (map bt_entries cs)" using assms(1) by simp
  note l = separated_length [OF s, simplified]
  have sep: "\<And>j e. j < length ks \<Longrightarrow> e \<in> set (bt_entries (cs ! j)) \<Longrightarrow> kv_key e < ks ! j"
    "\<And>j e. j < length ks \<Longrightarrow> e \<in> set (bt_entries (cs ! Suc j)) \<Longrightarrow> ks ! j \<le> kv_key e"
    using separated_nth(1,2) [OF s] l by auto
  show i: "i < length cs" using f l by simp
  then show "bt_sep (cs ! i)" using assms(1) by (simp add: list_all_length)
  show "bt_entries (BNode ks cs) = concat (map bt_entries (take i cs)) @ bt_entries (cs ! i) @ concat (map bt_entries (drop (Suc i) cs))"
    using concat_split_nth [of i "map bt_entries cs"] i by (simp add: take_map drop_map)
  show "\<forall>e \<in> set (concat (map bt_entries (take i cs))). kv_key e < key"
  proof
    fix e assume "e \<in> set (concat (map bt_entries (take i cs)))"
    then obtain j where j: "j < i" "j < length cs" "e \<in> set (bt_entries (cs ! j))"
      by (auto simp: in_set_conv_nth [of _ "take i cs"])
    with sep(1) [of j e] f i l show "kv_key e < key" by (auto intro: less_le_trans)
  qed
  show "\<forall>e \<in> set (concat (map bt_entries (drop (Suc i) cs))). key < kv_key e"
  proof
    fix e assume "e \<in> set (concat (map bt_entries (drop (Suc i) cs)))"
    then obtain k where "k < length cs - Suc i" "e \<in> set (bt_entries (cs ! Suc (i + k)))"
      by (auto simp: in_set_conv_nth [of _ "drop (Suc i) cs"])
    then obtain j where j: "i \<le> j" "Suc j < length cs" "e \<in> set (bt_entries (cs ! Suc j))"
      by (intro that [of "i + k"]) auto
    with sep(2) [of j e] f l show "key < kv_key e" by (auto intro: less_le_trans)
  qed
qed

lemma mt_scan_append:
  "\<forall>e \<in> set B. key < kv_key e \<Longrightarrow> mt_scan key ts ab (X @ B) = mt_scan key ts ab X"
  by (induction X) (cases B, auto)

lemma FindLeaf_context:
  assumes "bt_sep t"
  shows "key_ordered (FindLeaf key t) \<and> (\<exists>A B. bt_entries t = A @ FindLeaf key t @ B
    \<and> (\<forall>e \<in> set A. kv_key e < key) \<and> (\<forall>e \<in> set B. key < kv_key e))"
  using assms
proof (induction key t rule: FindLeaf.induct)
  case (1 key es)
  then show ?case by (intro conjI exI [of _ "[]"]) auto
next
  case (2 key ks cs)
  note c = bt_sep_child [OF 2(2) refl, of key]
  from 2(1) [OF refl c(1,2)] obtain A B where "key_ordered (FindLeaf key (cs ! FindChild key ks))"
    "bt_entries (cs ! FindChild key ks) = A @ FindLeaf key (cs ! FindChild key ks) @ B"
    "\<forall>e \<in> set A. kv_key e < key" "\<forall>e \<in> set B. key < kv_key e" by blast
  with c show ?case
    by (intro conjI exI [of _ "concat (map bt_entries (take (FindChild key ks) cs)) @ A"]
        exI [of _ "B @ concat (map bt_entries (drop (Suc (FindChild key ks)) cs))"]) (auto simp: Let_def)
qed

lemma bt_Lookup_flat:
  assumes "bt_sep t"
  shows "bt_Lookup key ts ab t = mt_lookup key ts ab (bt_entries t)"
proof -
  let ?l = "FindLeaf key t"
  obtain A B where c: "key_ordered ?l" "bt_entries t = A @ ?l @ B" "\<forall>e \<in> set A. kv_key e < key" "\<forall>e \<in> set B. key < kv_key e"
    using FindLeaf_context [OF assms, of key] by blast
  have "dropWhile (\<lambda>e. kv_key e < key) B = B" using c(4) by (cases B) auto
  then have "dropWhile (\<lambda>e. kv_key e < key) (bt_entries t) = dropWhile (\<lambda>e. kv_key e < key) ?l @ B"
    using c(2,3) by (simp add: dropWhile_append)
  then have "mt_lookup key ts ab (bt_entries t) = mt_scan key ts ab (dropWhile (\<lambda>e. kv_key e < key) ?l)"
    by (simp add: mt_lookup_def mt_scan_append [OF c(4)])
  also have "\<dots> = bt_Lookup key ts ab t"
    unfolding bt_Lookup_def Let_def leaf_Find_split(2) [OF c(1), symmetric]
    by (cases "leaf_Find key ?l < length ?l") (simp_all flip: Cons_nth_drop_Suc)
  finally show ?thesis by simp
qed

section \<open>Insertion refines the flat memtable\<close>

definition rec_cost :: "KeyValuePair \<Rightarrow> nat" where
  "rec_cost e = rec_size e + kSlotSize"

definition leaf_cost :: "KeyValuePair list \<Rightarrow> nat" where
  "leaf_cost es = sum_list (map rec_cost es)"

definition leaf_room :: nat where "leaf_room = kPageSize - 24"

lemma leaf_cost_simps [simp]:
  "leaf_cost [] = 0" "leaf_cost (e # es) = rec_cost e + leaf_cost es" "leaf_cost (es @ fs) = leaf_cost es + leaf_cost fs"
  by (simp_all add: leaf_cost_def)

lemma leaf_cost_take_drop: "leaf_cost (take n es) + leaf_cost (drop n es) = leaf_cost es"
  by (metis append_take_drop_id leaf_cost_simps(3))

lemma leaf_Free_cost: "leaf_Free es = leaf_room - leaf_cost es"
  by (simp add: leaf_Free_def leaf_cost_def leaf_room_def rec_cost_def [abs_def])

lemma leaf_CopyEntry_fold:
  "leaf_cost (dst @ es) \<le> leaf_room \<Longrightarrow> fold leaf_CopyEntry es dst = dst @ es"
proof (induction es arbitrary: dst)
  case (Cons e es)
  then have "leaf_CopyEntry e dst = dst @ [e]"
    by (simp add: leaf_CopyEntry_def leaf_Free_cost rec_cost_def not_less)
  with Cons show ?case by simp
qed simp

lemma leaf_InsertEntry_fits:
  assumes "leaf_cost es \<le> leaf_room"
  shows "leaf_InsertEntry pos kv es =
    (if leaf_cost es + rec_cost kv \<le> leaf_room then Some (take pos es @ kv # drop pos es) else None)"
  using assms by (auto simp: leaf_InsertEntry_def leaf_Free_cost rec_cost_def)

text \<open>
  Records whose sizes, slots included, lie between \<open>m\<close> and \<open>M\<close>: a page that has no room for one more then holds
  at least \<open>leaf_room div M\<close> records, and half of them weigh at least as much as the new record.
\<close>

definition split_ratio :: "nat \<Rightarrow> nat \<Rightarrow> bool" where
  "split_ratio m M \<longleftrightarrow> 0 < M \<and> M \<le> leaf_room div M div 2 * m"

definition sized :: "nat \<Rightarrow> nat \<Rightarrow> KeyValuePair list \<Rightarrow> bool" where
  "sized m M es \<longleftrightarrow> (\<forall>e \<in> set es. m \<le> rec_cost e \<and> rec_cost e \<le> M)"

lemma leaf_cost_bounds: "sized m M es \<Longrightarrow> length es * m \<le> leaf_cost es \<and> leaf_cost es \<le> length es * M"
  by (induction es) (auto simp: sized_def)

lemma sized_simps [simp]:
  "sized m M (e # es) \<longleftrightarrow> m \<le> rec_cost e \<and> rec_cost e \<le> M \<and> sized m M es" "sized m M []"
  "sized m M (es @ fs) \<longleftrightarrow> sized m M es \<and> sized m M fs"
  by (auto simp: sized_def)

lemma sized_take_drop: "sized m M es \<Longrightarrow> sized m M (take n es) \<and> sized m M (drop n es)"
  by (auto simp: sized_def dest: in_set_takeD in_set_dropD)

lemma full_leaf_halves:
  assumes "split_ratio m M" and "sized m M es" and "rec_cost kv \<le> M" and "leaf_room < leaf_cost es + rec_cost kv"
  shows "rec_cost kv \<le> leaf_cost (take (length es div 2) es)" "rec_cost kv \<le> leaf_cost (drop (length es div 2) es)"
    "1 \<le> length es div 2"
proof -
  let ?h = "length es div 2"
  have "leaf_room < length es * M + M" using leaf_cost_bounds [OF assms(2)] assms(3,4) by linarith
  then have "leaf_room < Suc (length es) * M" by simp
  then have "leaf_room div M < Suc (length es)" using assms(1) by (simp add: less_mult_imp_div_less)
  then have h: "leaf_room div M div 2 \<le> ?h" by (simp add: div_le_mono)
  then have "leaf_room div M div 2 * m \<le> ?h * m" by (rule mult_le_mono1)
  then have k: "rec_cost kv \<le> ?h * m" using assms(1,3) unfolding split_ratio_def by linarith
  have s: "sized m M (take ?h es)" "sized m M (drop ?h es)" using sized_take_drop [OF assms(2)] by simp_all
  have "?h * m \<le> (length es - ?h) * m" by (intro mult_le_mono1) linarith
  moreover have "?h * m \<le> leaf_cost (take ?h es)" "(length es - ?h) * m \<le> leaf_cost (drop ?h es)"
    using leaf_cost_bounds [OF s(1)] leaf_cost_bounds [OF s(2)] by (simp_all add: min_absorb2)
  ultimately show "rec_cost kv \<le> leaf_cost (take ?h es)" "rec_cost kv \<le> leaf_cost (drop ?h es)"
    using k by linarith+
  show "1 \<le> ?h" using assms(1) h by (cases "leaf_room div M div 2") (auto simp: split_ratio_def)
qed

lemma leaf_split_fits:
  assumes "split_ratio m M" and "sized m M es" and "rec_cost kv \<le> M" and "leaf_room < leaf_cost es + rec_cost kv"
    and "leaf_cost es \<le> leaf_room" and "pos \<le> length es"
  obtains l r where "leaf_split pos kv es = (l, kv_key (hd r), r)" "l @ r = take pos es @ kv # drop pos es"
    "l \<noteq> []" "r \<noteq> []" "leaf_cost l \<le> leaf_room" "leaf_cost r \<le> leaf_room"
proof -
  let ?h = "length es div 2"
  note half = full_leaf_halves [OF assms(1-4)]
  note sum = leaf_cost_take_drop [of ?h es]
  have l: "fold leaf_CopyEntry (take ?h es) [] = take ?h es" and r: "fold leaf_CopyEntry (drop ?h es) [] = drop ?h es"
    using sum assms(5) by (simp_all add: leaf_CopyEntry_fold)
  have room: "leaf_cost (take ?h es) + rec_cost kv \<le> leaf_room" "leaf_cost (drop ?h es) + rec_cost kv \<le> leaf_room"
    using half(1,2) sum assms(5) by linarith+
  have e: "es \<noteq> []" "take ?h es \<noteq> []" "drop ?h es \<noteq> []" using half(3) by auto
  have cost: "leaf_cost (take p xs @ kv # drop p xs) = leaf_cost xs + rec_cost kv" for p xs
    using leaf_cost_take_drop [of p xs] by simp
  show ?thesis
  proof (cases "pos < ?h")
    case True
    show ?thesis
    proof (rule that)
      show "leaf_split pos kv es = (take pos (take ?h es) @ kv # drop pos (take ?h es), kv_key (hd (drop ?h es)), drop ?h es)"
        using True room sum assms(5) by (simp add: leaf_split_def Let_def l r leaf_InsertEntry_fits)
      show "(take pos (take ?h es) @ kv # drop pos (take ?h es)) @ drop ?h es = take pos es @ kv # drop pos es"
        using True by (simp add: min_def drop_take) (metis append_take_drop_id drop_drop le_add_diff_inverse2 less_imp_le)
      show "leaf_cost (take pos (take ?h es) @ kv # drop pos (take ?h es)) \<le> leaf_room" unfolding cost by (rule room)
      show "leaf_cost (drop ?h es) \<le> leaf_room" using room by linarith
    qed (use e in auto)
  next
    case False
    let ?p = "pos - ?h"
    show ?thesis
    proof (rule that)
      show "leaf_split pos kv es = (take ?h es, kv_key (hd (take ?p (drop ?h es) @ kv # drop ?p (drop ?h es))), take ?p (drop ?h es) @ kv # drop ?p (drop ?h es))"
        using False room sum assms(5) by (simp add: leaf_split_def Let_def l r leaf_InsertEntry_fits)
      show "take ?h es @ take ?p (drop ?h es) @ kv # drop ?p (drop ?h es) = take pos es @ kv # drop pos es"
        using False by simp (metis append_assoc le_add_diff_inverse not_less take_add)
      show "leaf_cost (take ?p (drop ?h es) @ kv # drop ?p (drop ?h es)) \<le> leaf_room" unfolding cost by (rule room)
      show "leaf_cost (take ?h es) \<le> leaf_room" using room by linarith
    qed (use e in auto)
  qed
qed

text \<open>The sizes of the pages and of the inner nodes, whose keys share a buffer of 1024 bytes.\<close>

definition kMaxSep :: nat where "kMaxSep = 64"

fun bt_fits :: "bnode \<Rightarrow> bool" where
  "bt_fits (BLeaf es) \<longleftrightarrow> leaf_cost es \<le> leaf_room"
| "bt_fits (BNode ks cs) \<longleftrightarrow> length ks < kInternalFanout \<and> (\<forall>k \<in> set ks. length k \<le> kMaxSep) \<and> list_all bt_fits cs"

fun res_entries :: "ins_result \<Rightarrow> KeyValuePair list" where
  "res_entries (One t) = bt_entries t"
| "res_entries (Two l s r) = bt_entries l @ bt_entries r"

fun res_ok :: "ins_result \<Rightarrow> bool" where
  "res_ok (One t) \<longleftrightarrow> bt_sep t \<and> bt_fits t"
| "res_ok (Two l s r) \<longleftrightarrow> bt_sep l \<and> bt_fits l \<and> bt_sep r \<and> bt_fits r \<and> bt_entries l \<noteq> [] \<and> length s \<le> kMaxSep
     \<and> (\<forall>e \<in> set (bt_entries l). kv_key e < s) \<and> (\<forall>e \<in> set (bt_entries r). s \<le> kv_key e)
     \<and> s \<in> kv_key ` set (bt_entries r)"

text \<open>A split that does not go through the versions of one key.\<close>

definition split_clean :: "KeyValuePair \<Rightarrow> KeyValuePair list \<Rightarrow> bool" where
  "split_clean kv es \<longleftrightarrow> leaf_cost es + rec_cost kv \<le> leaf_room
     \<or> (case leaf_split (leaf_Find (kv_key kv) es) kv es of (l, s, r) \<Rightarrow> \<forall>e \<in> set l. kv_key e < s)"

lemma mt_insert_ordered: "key_ordered es \<Longrightarrow> key_ordered (mt_insert kv es)"
proof -
  assume o: "key_ordered es"
  let ?P = "\<lambda>e. kv_key e < kv_key kv"
  have "\<forall>e \<in> set (dropWhile ?P es). kv_key kv \<le> kv_key e"
  proof (cases "dropWhile ?P es")
    case (Cons a as)
    have "\<not> ?P a" using hd_dropWhile [of ?P es] Cons by simp
    moreover have "sorted (map kv_key (a # as))"
      using o sorted_append [of "map kv_key (takeWhile ?P es)"] unfolding key_ordered_def Cons [symmetric]
      by (metis map_append takeWhile_dropWhile_id)
    ultimately show ?thesis unfolding Cons by (auto simp: not_less intro: order_trans)
  qed (metis empty_iff empty_set)
  moreover have "sorted (map kv_key (takeWhile ?P es)) \<and> sorted (map kv_key (dropWhile ?P es))"
    using o unfolding key_ordered_def by (metis map_append sorted_append takeWhile_dropWhile_id)
  moreover have "\<forall>e \<in> set (takeWhile ?P es). kv_key e < kv_key kv" by (auto dest: set_takeWhileD)
  ultimately show ?thesis
    by (auto simp: mt_insert_def key_ordered_def sorted_append intro: less_imp_le order_trans less_le_trans)
qed

lemma mt_insert_context:
  assumes "\<forall>e \<in> set A. kv_key e < kv_key kv" and "\<forall>e \<in> set B. kv_key kv < kv_key e"
  shows "mt_insert kv (A @ X @ B) = A @ mt_insert kv X @ B"
proof -
  let ?P = "\<lambda>e. kv_key e < kv_key kv"
  have B: "takeWhile ?P B = []" "dropWhile ?P B = B" using assms(2) by (cases B; auto)+
  have A: "takeWhile ?P A = A" "dropWhile ?P A = []" using assms(1) by auto
  have "takeWhile ?P (X @ B) = takeWhile ?P X" "dropWhile ?P (X @ B) = dropWhile ?P X @ B"
    using B by (induction X) auto
  with A assms(1) show ?thesis by (simp add: mt_insert_def)
qed

lemma set_mt_insert: "set (mt_insert kv es) = insert kv (set es)"
proof -
  let ?P = "\<lambda>e. kv_key e < kv_key kv"
  have "set es = set (takeWhile ?P es) \<union> set (dropWhile ?P es)" by (metis set_append takeWhile_dropWhile_id)
  then show ?thesis by (auto simp: mt_insert_def)
qed

lemma ins_leaf_ok:
  assumes "split_ratio m M" and "sized m M es" and "rec_cost kv \<le> M" and "length (kv_key kv) \<le> kMaxSep"
    and "\<forall>e \<in> set es. length (kv_key e) \<le> kMaxSep" and "split_clean kv es" and "key_ordered es" and "leaf_cost es \<le> leaf_room"
  shows "res_ok (ins_leaf kv es) \<and> res_entries (ins_leaf kv es) = mt_insert kv es"
proof -
  let ?p = "leaf_Find (kv_key kv) es"
  have ins: "take ?p es @ kv # drop ?p es = mt_insert kv es" by (simp add: leaf_Find_split [OF assms(7)] mt_insert_def)
  have ord: "key_ordered (mt_insert kv es)" using mt_insert_ordered assms(7) .
  show ?thesis
  proof (cases "leaf_cost es + rec_cost kv \<le> leaf_room")
    case True
    moreover have "leaf_cost (take ?p es @ kv # drop ?p es) = leaf_cost es + rec_cost kv"
      using leaf_cost_take_drop [of ?p es] by simp
    ultimately show ?thesis using ord unfolding ins
      by (simp add: ins_leaf_def leaf_InsertEntry_fits [OF assms(8)] ins)
  next
    case False
    then have f: "leaf_room < leaf_cost es + rec_cost kv" by simp
    have "?p \<le> length es" using leaf_Find_takeWhile [OF assms(7)] length_takeWhile_le by metis
    from leaf_split_fits [OF assms(1-3) f assms(8) this] obtain l r where
      s: "leaf_split ?p kv es = (l, kv_key (hd r), r)" "l @ r = mt_insert kv es" "l \<noteq> []" "r \<noteq> []"
        "leaf_cost l \<le> leaf_room" "leaf_cost r \<le> leaf_room" unfolding ins by blast
    have o: "key_ordered l" "key_ordered r" using ord unfolding s(2) [symmetric] by (auto simp: key_ordered_def sorted_append)
    have "hd r \<in> set r" using s(4) by simp
    then have "hd r = kv \<or> hd r \<in> set es" using s(2) set_mt_insert [of kv es] by (metis UnCI insertE set_append)
    then have "length (kv_key (hd r)) \<le> kMaxSep" using assms(4,5) by auto
    moreover have "\<forall>e \<in> set l. kv_key e < kv_key (hd r)" using assms(6) False s(1) by (simp add: split_clean_def)
    moreover have "\<forall>e \<in> set r. kv_key (hd r) \<le> kv_key e" using o(2) s(4) by (cases r) (auto simp: key_ordered_def)
    moreover have "ins_leaf kv es = Two (BLeaf l) (kv_key (hd r)) (BLeaf r)"
      using False s(1) by (simp add: ins_leaf_def leaf_InsertEntry_fits [OF assms(8)])
    ultimately show ?thesis using s o by simp
  qed
qed

lemma separated_concat:
  assumes "separated ks Es" and "n < length ks"
  shows "\<forall>e \<in> set (concat (take (Suc n) Es)). kv_key e < ks ! n" "\<forall>e \<in> set (concat (drop (Suc n) Es)). ks ! n \<le> kv_key e"
proof -
  have mono: "ks ! i \<le> ks ! j" if "i \<le> j" "j < length ks" for i j
    using separated_sorted [OF assms(1)] that by (auto simp: sorted_iff_nth_mono)
  note l = separated_length [OF assms(1)]
  show "\<forall>e \<in> set (concat (take (Suc n) Es)). kv_key e < ks ! n"
  proof
    fix e assume "e \<in> set (concat (take (Suc n) Es))"
    then obtain j where j: "j \<le> n" "e \<in> set (Es ! j)" by (auto simp: in_set_conv_nth [of _ "take (Suc n) Es"] less_Suc_eq_le)
    then have "kv_key e < ks ! j" using separated_nth(1) [OF assms(1), of j] assms(2) by auto
    also have "\<dots> \<le> ks ! n" using mono j(1) assms(2) .
    finally show "kv_key e < ks ! n" .
  qed
  show "\<forall>e \<in> set (concat (drop (Suc n) Es)). ks ! n \<le> kv_key e"
  proof
    fix e assume "e \<in> set (concat (drop (Suc n) Es))"
    then obtain j where "j < length ks - n" and e: "e \<in> set (Es ! Suc (n + j))"
      using l by (auto simp: in_set_conv_nth [of _ "drop (Suc n) Es"])
    then have j: "n + j < length ks" by simp
    have "ks ! n \<le> ks ! (n + j)" using mono j by simp
    also have "\<dots> \<le> kv_key e" using separated_nth(2) [OF assms(1) j] e by auto
    finally show "ks ! n \<le> kv_key e" .
  qed
qed

lemma separated_outer:
  "separated ks (Es @ [c]) \<Longrightarrow> k \<in> set ks \<Longrightarrow> e \<in> set c \<Longrightarrow> k \<le> kv_key e"
  "separated ks (c # Es) \<Longrightarrow> k \<in> set ks \<Longrightarrow> e \<in> set c \<Longrightarrow> kv_key e < k"
proof -
  assume a: "separated ks (Es @ [c])" "k \<in> set ks" "e \<in> set c"
  then obtain n where n: "n < length ks" "k = ks ! n" by (auto simp: in_set_conv_nth)
  have "length Es = length ks" using separated_length [OF a(1)] by simp
  then have "e \<in> set (concat (drop (Suc n) (Es @ [c])))" using n a(3) by simp
  with separated_concat(2) [OF a(1) n(1)] n show "k \<le> kv_key e" by blast
next
  assume a: "separated ks (c # Es)" "k \<in> set ks" "e \<in> set c"
  then obtain n where n: "n < length ks" "k = ks ! n" by (auto simp: in_set_conv_nth)
  with separated_concat(1) [OF a(1) n(1)] a(3) show "kv_key e < k" by simp
qed

lemma split_node_ok:
  assumes "bt_sep (BNode ks cs)" and "list_all bt_fits cs" and "\<forall>k \<in> set ks. length k \<le> kMaxSep"
    and "length ks = kInternalFanout" and "n = length ks div 2"
  shows "res_ok (Two (BNode (take n ks) (take (n + 1) cs)) (ks ! n) (BNode (drop (n + 1) ks) (drop (n + 1) cs)))"
    "bt_entries (BNode (take n ks) (take (n + 1) cs)) @ bt_entries (BNode (drop (n + 1) ks) (drop (n + 1) cs)) = bt_entries (BNode ks cs)"
proof -
  let ?E = "map bt_entries cs"
  have s: "separated ks ?E" and c: "list_all bt_sep cs" using assms(1) by auto
  have n: "0 < n" "n < length ks" using assms(4,5) by (auto simp: kInternalFanout_def)
  have l: "length cs = Suc (length ks)" using separated_length [OF s] by simp
  have "length ?E = Suc (length ks)" using l by simp
  then have "?E = take n ?E @ ?E ! n # ?E ! Suc n # drop (Suc (Suc n)) ?E"
    using n(2) by (metis Cons_nth_drop_Suc Suc_less_eq append_take_drop_id less_SucI)
  moreover have "ks = take n ks @ ks ! n # drop (n + 1) ks" using id_take_nth_drop [OF n(2)] by simp
  ultimately have "separated (take n ks @ ks ! n # drop (n + 1) ks) (take n ?E @ ?E ! n # ?E ! Suc n # drop (Suc (Suc n)) ?E)"
    using s by simp
  then have "separated (take n ks) (take n ?E @ [?E ! n]) \<and> separated (drop (n + 1) ks) (?E ! Suc n # drop (Suc (Suc n)) ?E)"
    using n l by (subst (asm) separated_append) auto
  then have h: "separated (take n ks) (take (Suc n) ?E)" "separated (drop (n + 1) ks) (drop (Suc n) ?E)"
    using n l Cons_nth_drop_Suc [of "Suc n" ?E] by (simp_all add: take_Suc_conv_app_nth)
  have "ks ! 0 \<in> kv_key ` set (?E ! Suc 0)" using separated_nth(3) [OF s] n by (metis less_trans)
  then have "?E ! Suc 0 \<noteq> []" by auto
  moreover have "?E ! Suc 0 \<in> set (take (Suc n) ?E)" using n l by (auto simp: in_set_conv_nth)
  ultimately have ne: "concat (take (Suc n) ?E) \<noteq> []" by auto
  have "?E ! Suc n \<in> set (drop (Suc n) ?E)" using n l by (auto simp: in_set_conv_nth intro: exI [of _ 0])
  then have k: "ks ! n \<in> kv_key ` set (concat (drop (Suc n) ?E))" using separated_nth(3) [OF s n(2)] by auto
  have lens: "length (take n ks) < kInternalFanout" "length (drop (n + 1) ks) < kInternalFanout" using assms(4) n by auto
  have sub: "set (take n ks) \<subseteq> set ks" "set (drop (n + 1) ks) \<subseteq> set ks" "ks ! n \<in> set ks" "set (take (n + 1) cs) \<subseteq> set cs" "set (drop (n + 1) cs) \<subseteq> set cs"
    using n by (auto dest: in_set_takeD in_set_dropD)
  show "res_ok (Two (BNode (take n ks) (take (n + 1) cs)) (ks ! n) (BNode (drop (n + 1) ks) (drop (n + 1) cs)))"
    using h ne k separated_concat [OF s n(2)] lens sub c assms(2,3)
    unfolding res_ok.simps bt_sep.simps bt_fits.simps bt_entries.simps take_map drop_map list_all_iff Suc_eq_plus1 by blast
  show "bt_entries (BNode (take n ks) (take (n + 1) cs)) @ bt_entries (BNode (drop (n + 1) ks) (drop (n + 1) cs)) = bt_entries (BNode ks cs)"
    by (simp flip: concat_append map_append)
qed

lemma list_all_around:
  "i < length cs \<Longrightarrow> list_all P cs \<Longrightarrow> list_all P (take i cs) \<and> list_all P (drop (Suc i) cs)"
  by (auto simp: list_all_iff dest: in_set_takeD in_set_dropD)

lemma ins_node_ok:
  assumes "bt_sep (BNode ks cs)" and "bt_fits (BNode ks cs)" and "i = FindChild (kv_key kv) ks"
    and "res_ok res" and "res_entries res = mt_insert kv (bt_entries (cs ! i))"
  shows "res_ok (ins_node ks cs i res)" "res_entries (ins_node ks cs i res) = mt_insert kv (bt_entries (BNode ks cs))"
proof -
  let ?K1 = "take i ks" and ?K2 = "drop i ks" and ?C1 = "take i cs" and ?C2 = "drop (Suc i) cs" and ?c = "cs ! i"
  let ?E = "map bt_entries"
  note ch = bt_sep_child [OF assms(1,3)]
  have f: "\<forall>k \<in> set ?K1. k \<le> kv_key kv" "\<forall>k \<in> set ?K2. kv_key kv < k" "i \<le> length ks"
    using FindChild_range [of ks "kv_key kv"] separated_sorted assms(1,3)
    by (auto simp: splits_at_def not_le in_set_conv_nth)
  have cs: "cs = ?C1 @ ?c # ?C2" using id_take_nth_drop [OF ch(1)] .
  have len: "length (?E ?C1) = length ?K1" using f(3) ch(1) by simp
  have "separated (?K1 @ ?K2) (?E ?C1 @ bt_entries ?c # ?E ?C2)" using assms(1) cs by (metis append_take_drop_id bt_sep.simps(2) list.simps(9) map_append)
  then have s: "separated ?K1 (?E ?C1 @ [bt_entries ?c])" "separated ?K2 (bt_entries ?c # ?E ?C2)"
    unfolding separated_join [OF len] by blast+
  have new: "set (res_entries res) = insert kv (set (bt_entries ?c))" using assms(5) by (simp add: set_mt_insert)
  have lo: "k \<le> kv_key e" if "k \<in> set ?K1" "e \<in> set (res_entries res)" for k e
    using that separated_outer(1) [OF s(1)] f(1) new by auto
  have hi: "kv_key e < k" if "k \<in> set ?K2" "e \<in> set (res_entries res)" for k e
    using that separated_outer(2) [OF s(2)] f(2) new by auto
  have ins: "mt_insert kv (bt_entries (BNode ks cs)) = concat (?E ?C1) @ res_entries res @ concat (?E ?C2)"
    unfolding ch(5) assms(5) by (intro mt_insert_context ch)
  have ar: "list_all bt_sep ?C1" "list_all bt_sep ?C2" "list_all bt_fits ?C1" "list_all bt_fits ?C2"
    using list_all_around [OF ch(1)] assms(1,2) by auto
  show "res_ok (ins_node ks cs i res)" "res_entries (ins_node ks cs i res) = mt_insert kv (bt_entries (BNode ks cs))"
  proof (atomize (full), cases res)
    case (One c)
    then have c: "set (bt_entries c) = insert kv (set (bt_entries ?c))" using new by simp
    have "separated ?K1 (?E ?C1 @ [bt_entries c])" using s(1) lo One c by (intro separated_last [OF s(1)]) auto
    moreover have "separated ?K2 (bt_entries c # ?E ?C2)" using hi One by (intro separated_hd [OF s(2)]) auto
    ultimately have "separated ks (?E (?C1 @ c # ?C2))" using separated_join [OF len, of ?K2] by simp
    moreover have "cs[i := c] = ?C1 @ c # ?C2" using ch(1) by (rule upd_conv_take_nth_drop)
    ultimately show "res_ok (ins_node ks cs i res) \<and> res_entries (ins_node ks cs i res) = mt_insert kv (bt_entries (BNode ks cs))"
      using ins One assms(2,4) ar by (simp add: ins_node_def)
  next
    case (Two l sp r)
    let ?ks = "?K1 @ sp # ?K2" and ?cs = "?C1 @ l # r # ?C2"
    have lr: "bt_entries l \<noteq> []" "\<forall>e \<in> set (bt_entries l). kv_key e < sp" "\<forall>e \<in> set (bt_entries r). sp \<le> kv_key e"
      "sp \<in> kv_key ` set (bt_entries r)" "length sp \<le> kMaxSep" using assms(4) Two by auto
    have "\<forall>k \<in> set ?K1. k \<in> kv_key ` set (bt_entries ?c) \<longrightarrow> k \<in> kv_key ` set (bt_entries l)"
    proof (intro ballI impI)
      fix k assume k: "k \<in> set ?K1" "k \<in> kv_key ` set (bt_entries ?c)"
      obtain e where "e \<in> set (bt_entries l)" using lr(1) by (cases "bt_entries l") auto
      then have "k < sp" using lo [OF k(1), of e] lr(2) Two by (auto intro: le_less_trans)
      moreover have "k \<in> kv_key ` (set (bt_entries l) \<union> set (bt_entries r))" using k(2) new Two by auto
      ultimately show "k \<in> kv_key ` set (bt_entries l)" using lr(3) by auto
    qed
    then have "separated ?K1 (?E ?C1 @ [bt_entries l])" using lo Two by (intro separated_last [OF s(1)]) auto
    moreover have "separated ?K2 (bt_entries r # ?E ?C2)" using hi Two by (intro separated_hd [OF s(2)]) auto
    ultimately have "separated ?ks (?E ?cs)" using separated_append [OF len] lr by simp
    then have sep: "bt_sep (BNode ?ks ?cs)" using ar assms(4) Two by simp
    have fit: "list_all bt_fits ?cs" "\<forall>k \<in> set ?ks. length k \<le> kMaxSep" "length ?ks \<le> kInternalFanout"
      using ar assms(2,4) Two f(3) lr(5) by (auto dest: in_set_takeD in_set_dropD)
    have ent: "bt_entries (BNode ?ks ?cs) = mt_insert kv (bt_entries (BNode ks cs))" using ins Two by simp
    show "res_ok (ins_node ks cs i res) \<and> res_entries (ins_node ks cs i res) = mt_insert kv (bt_entries (BNode ks cs))"
    proof (cases "length ?ks < kInternalFanout")
      case True
      with sep fit ent Two show ?thesis by (simp add: ins_node_def Let_def)
    next
      case False
      with fit(3) have "length ?ks = kInternalFanout" by simp
      note sp = split_node_ok [OF sep fit(1,2) this refl]
      have "ins_node ks cs i res = Two (BNode (take (length ?ks div 2) ?ks) (take (length ?ks div 2 + 1) ?cs)) (?ks ! (length ?ks div 2))
          (BNode (drop (length ?ks div 2 + 1) ?ks) (drop (length ?ks div 2 + 1) ?cs))"
        using False unfolding ins_node_def Two Let_def by simp
      with sp ent show ?thesis by (metis res_entries.simps(2))
    qed
  qed
qed

lemma bt_ins_ok:
  assumes "split_ratio m M" and "rec_cost kv \<le> M" and "length (kv_key kv) \<le> kMaxSep"
    and "bt_sep t" and "bt_fits t" and "sized m M (bt_entries t)" and "\<forall>e \<in> set (bt_entries t). length (kv_key e) \<le> kMaxSep"
    and "split_clean kv (FindLeaf (kv_key kv) t)"
  shows "res_ok (bt_ins kv t) \<and> res_entries (bt_ins kv t) = mt_insert kv (bt_entries t)"
  using assms(2-)
proof (induction kv t rule: bt_ins.induct)
  case (1 kv es)
  then show ?case using ins_leaf_ok [OF assms(1), of es kv] by simp
next
  case (2 kv ks cs)
  let ?i = "FindChild (kv_key kv) ks"
  note ch = bt_sep_child [OF 2(4) refl, of "kv_key kv"]
  have "set (bt_entries (cs ! ?i)) \<subseteq> set (bt_entries (BNode ks cs))" unfolding ch(5) by auto
  moreover have "bt_fits (cs ! ?i)" using 2(5) ch(1) by (simp add: list_all_length)
  ultimately have "res_ok (bt_ins kv (cs ! ?i)) \<and> res_entries (bt_ins kv (cs ! ?i)) = mt_insert kv (bt_entries (cs ! ?i))"
    using 2(2,3,6-) ch(1,2) by (intro 2(1) [OF refl]) (auto simp: sized_def)
  then show ?case using ins_node_ok [OF 2(4,5) refl] ch(1) by (simp add: Let_def)
qed

definition bt_ok :: "nat \<Rightarrow> nat \<Rightarrow> bnode \<Rightarrow> bool" where
  "bt_ok m M t \<longleftrightarrow> bt_sep t \<and> bt_fits t \<and> sized m M (bt_entries t) \<and> (\<forall>e \<in> set (bt_entries t). length (kv_key e) \<le> kMaxSep)"

lemma bt_Insert_ok:
  assumes "split_ratio m M" and "bt_ok m M t" and "m \<le> rec_cost kv" "rec_cost kv \<le> M" "length (kv_key kv) \<le> kMaxSep"
    and "split_clean kv (FindLeaf (kv_key kv) t)"
  shows "bt_ok m M (bt_Insert kv t) \<and> bt_entries (bt_Insert kv t) = mt_insert kv (bt_entries t)"
proof -
  have r: "res_ok (bt_ins kv t)" "res_entries (bt_ins kv t) = mt_insert kv (bt_entries t)"
    using bt_ins_ok [OF assms(1,4,5)] assms(2,6) by (auto simp: bt_ok_def)
  have "bt_sep (bt_Insert kv t) \<and> bt_fits (bt_Insert kv t) \<and> bt_entries (bt_Insert kv t) = mt_insert kv (bt_entries t)"
    using r by (cases "bt_ins kv t") (auto simp: bt_Insert_def kInternalFanout_def)
  with assms(2-5) show ?thesis by (simp add: bt_ok_def sized_def set_mt_insert)
qed

lemma distinct_split_clean:
  assumes "key_ordered es" and "distinct (map kv_key es)" and "kv_key kv \<notin> kv_key ` set es" and "leaf_cost es \<le> leaf_room"
    and "split_ratio m M" and "sized m M es" and "rec_cost kv \<le> M"
  shows "split_clean kv es"
proof (cases "leaf_cost es + rec_cost kv \<le> leaf_room")
  case False
  let ?p = "leaf_Find (kv_key kv) es"
  have ins: "take ?p es @ kv # drop ?p es = mt_insert kv es" by (simp add: leaf_Find_split [OF assms(1)] mt_insert_def)
  have f: "leaf_room < leaf_cost es + rec_cost kv" using False by simp
  have "?p \<le> length es" using leaf_Find_takeWhile [OF assms(1)] length_takeWhile_le by metis
  from leaf_split_fits [OF assms(5-7) f assms(4) this] obtain l r where
    s: "leaf_split ?p kv es = (l, kv_key (hd r), r)" "l @ r = mt_insert kv es" "r \<noteq> []" unfolding ins by metis
  have "distinct (map kv_key (take ?p es @ drop ?p es))" using assms(2) by simp
  then have "distinct (map kv_key (mt_insert kv es))"
    using assms(3) unfolding ins [symmetric] map_append distinct_append list.map distinct.simps
    by (auto dest: in_set_takeD in_set_dropD)
  moreover have "sorted (map kv_key (mt_insert kv es))" using mt_insert_ordered [OF assms(1)] by (simp add: key_ordered_def)
  ultimately have "sorted (map kv_key (l @ r)) \<and> distinct (map kv_key (l @ r))" by (simp add: s(2))
  then have "\<forall>e \<in> set l. kv_key e < kv_key (hd r)"
    using hd_in_set [OF s(3)] unfolding map_append sorted_append distinct_append by (force simp: order_le_less)
  with s(1) show ?thesis by (simp add: split_clean_def)
qed (simp add: split_clean_def)

lemma FindLeaf_fits: "bt_sep t \<Longrightarrow> bt_fits t \<Longrightarrow> leaf_cost (FindLeaf key t) \<le> leaf_room"
proof (induction key t rule: FindLeaf.induct)
  case (2 key ks cs)
  note ch = bt_sep_child [OF 2(2) refl, of key]
  then show ?case using 2(1) [OF refl ch(1,2)] 2(3) by (simp add: Let_def list_all_length)
qed simp

lemma bt_Insert_new_key:
  assumes "split_ratio m M" and "bt_ok m M t" and "m \<le> rec_cost kv" "rec_cost kv \<le> M" "length (kv_key kv) \<le> kMaxSep"
    and "distinct (map kv_key (bt_entries t))" and "kv_key kv \<notin> kv_key ` set (bt_entries t)"
  shows "bt_ok m M (bt_Insert kv t) \<and> bt_entries (bt_Insert kv t) = mt_insert kv (bt_entries t)"
proof -
  let ?l = "FindLeaf (kv_key kv) t"
  have t: "bt_sep t" "bt_fits t" "sized m M (bt_entries t)" using assms(2) by (auto simp: bt_ok_def)
  obtain A B where "key_ordered ?l" "bt_entries t = A @ ?l @ B" using FindLeaf_context [OF t(1)] by metis
  then have "split_clean kv ?l"
    using assms(1,4,6,7) t FindLeaf_fits [OF t(1,2)] by (intro distinct_split_clean [where m = m and M = M]) auto
  then show ?thesis using bt_Insert_ok [OF assms(1-5)] by simp
qed

lemma mt_insert_sort_key:
  assumes "key_ordered es" and "kv_key kv \<notin> kv_key ` set es"
  shows "mt_insert kv es = insort_key kv_key kv es"
  using assms
proof (induction es)
  case (Cons e es)
  then show ?case by (auto simp: mt_insert_def key_ordered_def)
qed (simp add: mt_insert_def)

lemma bt_empty_ok: "bt_ok m M bt_empty \<and> bt_entries bt_empty = []"
  by (simp add: bt_ok_def bt_empty_def key_ordered_def kInternalFanout_def)

lemma bt_Insert_all:
  assumes "split_ratio m M" and "sized m M kvs" and "\<forall>e \<in> set kvs. length (kv_key e) \<le> kMaxSep" and "distinct (map kv_key kvs)"
  shows "bt_ok m M (fold bt_Insert kvs bt_empty) \<and> bt_entries (fold bt_Insert kvs bt_empty) = sort_key kv_key kvs"
  using assms(2-)
proof (induction kvs rule: rev_induct)
  case Nil
  then show ?case by (simp add: bt_empty_ok)
next
  case (snoc kv kvs)
  then have IH: "bt_ok m M (fold bt_Insert kvs bt_empty)" "bt_entries (fold bt_Insert kvs bt_empty) = sort_key kv_key kvs" by auto
  have "bt_ok m M (bt_Insert kv (fold bt_Insert kvs bt_empty)) \<and> bt_entries (bt_Insert kv (fold bt_Insert kvs bt_empty)) = mt_insert kv (sort_key kv_key kvs)"
    using snoc.prems IH bt_Insert_new_key [OF assms(1) IH(1), of kv] by (simp add: distinct_map)
  moreover have "mt_insert kv (sort_key kv_key kvs) = insort_key kv_key kv (sort_key kv_key kvs)"
    using snoc.prems by (intro mt_insert_sort_key) (auto simp: key_ordered_def)
  moreover have "insort_key kv_key kv (sort_key kv_key kvs) = sort_key kv_key (kvs @ [kv])"
    using snoc.prems
    by (intro map_sorted_distinct_set_unique [where f = kv_key]) (auto simp: sorted_insort_key set_insort_key distinct_map distinct_insort)
  ultimately show ?case by simp
qed

lemma mt_lookup_distinct:
  assumes "key_ordered es" and "distinct (map kv_key es)"
  shows "mt_lookup key ts ab es = (case find (\<lambda>e. kv_key e = key) es of
      None \<Rightarrow> None
    | Some e \<Rightarrow> if kv_timestamp e \<in> set ab \<or> ts < kv_timestamp e \<or> kv_is_tombstone e then None else Some (kv_value e))"
  using assms
proof (induction es)
  case (Cons e es)
  have hd: "kv_key (hd es) \<noteq> key \<Longrightarrow> mt_scan key ts ab es = None" by (cases es) auto
  consider "kv_key e < key" | "kv_key e = key" | "key < kv_key e" by fastforce
  then show ?case
  proof cases
    case 1
    with Cons show ?thesis by (auto simp: mt_lookup_def key_ordered_def)
  next
    case 2
    then have "mt_scan key ts ab es = None" using Cons.prems by (cases es) auto
    with 2 show ?thesis by (auto simp: mt_lookup_def not_le)
  next
    case 3
    then have "find (\<lambda>e. kv_key e = key) es = None" using Cons.prems by (auto simp: find_None_iff key_ordered_def)
    with 3 show ?thesis by (auto simp: mt_lookup_def)
  qed
qed (simp add: mt_lookup_def)

lemma find_distinct_key:
  assumes "set xs = set ys" and "distinct (map kv_key xs)"
  shows "find (\<lambda>e. kv_key e = key) xs = find (\<lambda>e. kv_key e = key) ys"
proof (cases "find (\<lambda>e. kv_key e = key) ys")
  case None
  with assms(1) show ?thesis by (metis find_None_iff)
next
  case (Some y)
  then have y: "y \<in> set ys" "kv_key y = key" by (auto simp: find_Some_iff)
  then obtain x where x: "find (\<lambda>e. kv_key e = key) xs = Some x"
    using assms(1) by (cases "find (\<lambda>e. kv_key e = key) xs") (auto simp: find_None_iff)
  then have "x \<in> set xs" "kv_key x = key" by (auto simp: find_Some_iff)
  with y assms have "x = y" by (auto simp: distinct_map inj_on_def)
  with x Some show ?thesis by simp
qed

fun bt_bytes_ok :: "bnode \<Rightarrow> bool" where
  "bt_bytes_ok (BLeaf es) \<longleftrightarrow> 24 + sum_list (map (\<lambda>e. rec_size e + kSlotSize) es) \<le> kPageSize"
| "bt_bytes_ok (BNode ks cs) \<longleftrightarrow> length ks < kInternalFanout \<and> sum_list (map length ks) \<le> 1024 \<and> list_all bt_bytes_ok cs"

lemma bt_fits_bytes: "bt_fits t \<Longrightarrow> bt_bytes_ok t"
proof (induction t rule: bt_fits.induct)
  case (1 es)
  then show ?case by (simp add: leaf_cost_def leaf_room_def kPageSize_def rec_cost_def [abs_def])
next
  case (2 ks cs)
  then have "\<forall>k \<in> set ks. length k \<le> 64" "length ks \<le> 15" by (auto simp: kMaxSep_def kInternalFanout_def)
  then have "sum_list (map length ks) \<le> length ks * 64" by (induction ks) auto
  with 2 show ?case by (auto simp: list_all_iff kInternalFanout_def)
qed

section \<open>Properties\<close>

text \<open>
  C5: an insertion into the B+-tree is an insertion into the flat memtable, before the versions that the key
  has already, and leaves a tree that lookups search correctly, whatever splits it makes at leaves and inner
  nodes. It is so for records whose sizes, slots included, lie between \<open>m\<close> and \<open>M\<close> with \<open>M\<close> at most what half of a full
  page weighs at least, for keys of at most 64 bytes, and if the split of the leaf does not go through the versions of one key.
\<close>
theorem bptree_insert_refines_flat:
  assumes "split_ratio m M" and "bt_ok m M t" and "m \<le> rec_cost kv" and "rec_cost kv \<le> M" and "length (kv_key kv) \<le> kMaxSep"
    and "split_clean kv (FindLeaf (kv_key kv) t)"
  shows "bt_ok m M (bt_Insert kv t) \<and> bt_entries (bt_Insert kv t) = mt_insert kv (bt_entries t)
    \<and> (\<forall>key ts ab. bt_Lookup key ts ab (bt_Insert kv t) = mt_lookup key ts ab (mt_insert kv (bt_entries t)))"
  using bt_Insert_ok [OF assms] bt_Lookup_flat by (auto simp: bt_ok_def)

definition page_third :: "u8 \<Rightarrow> KeyValuePair" where
  "page_third k = mk_kv [k] (replicate 2021 k) 1"

lemma page_third_simps:
  "kv_key (page_third k) = [k]" "rec_cost (page_third k) = 2036" "kv_value (page_third k) = replicate 2021 k"
  by (simp_all add: page_third_def mk_kv_def rec_cost_def rec_size_def is_large_def kPageSize_def kSlotSize_def)

lemmas bt_eval = page_third_simps leaf_cost_def leaf_room_def kPageSize_def kSlotSize_def split_ratio_def sized_def kMaxSep_def
  key_ordered_def kInternalFanout_def

lemma two_thirds_split:
  "split_ratio 2036 2036" "bt_ok 2036 2036 (BNode [] [BLeaf [page_third 1, page_third 3]])"
  "split_clean (page_third 2) (FindLeaf [2] (BNode [] [BLeaf [page_third 1, page_third 3]]))"
proof -
  let ?es = "[page_third 1, page_third 3]"
  have o: "key_ordered ?es" by (simp add: bt_eval)
  show r: "split_ratio 2036 2036" by (simp add: bt_eval)
  show "bt_ok 2036 2036 (BNode [] [BLeaf ?es])" by (simp add: bt_ok_def bt_eval)
  have "FindLeaf [2] (BNode [] [BLeaf ?es]) = ?es" by (simp add: FindChild_def find_child_step(3))
  moreover have "split_clean (page_third 2) ?es"
    by (rule distinct_split_clean [OF o _ _ _ r]) (simp_all add: bt_eval)
  ultimately show "split_clean (page_third 2) (FindLeaf [2] (BNode [] [BLeaf ?es]))" by simp
qed

theorem bptree_insert_refines_flat_witness:
  "bt_entries (bt_Insert (page_third 2) (BNode [] [BLeaf [page_third 1, page_third 3]])) = [page_third 1, page_third 2, page_third 3]"
  using bptree_insert_refines_flat [OF two_thirds_split(1,2), of "page_third 2"] two_thirds_split(3)
  by (simp add: bt_eval mt_insert_def)

text \<open>
  after any sequence of insertions of different keys into an empty tree, with records of the sizes of the
  property above, the chain of leaves is the sorted list of the records, and a lookup returns exactly the value of
  the record of its key if that is not aborted, not newer than the snapshot and not a tombstone.
\<close>
theorem bptree_stores_every_key:
  assumes "split_ratio m M" and "sized m M kvs" and "\<forall>e \<in> set kvs. length (kv_key e) \<le> kMaxSep" and "distinct (map kv_key kvs)"
  shows "bt_entries (fold bt_Insert kvs bt_empty) = sort_key kv_key kvs
    \<and> bt_Lookup key ts ab (fold bt_Insert kvs bt_empty) = (case find (\<lambda>e. kv_key e = key) kvs of
      None \<Rightarrow> None
    | Some e \<Rightarrow> if kv_timestamp e \<in> set ab \<or> ts < kv_timestamp e \<or> kv_is_tombstone e then None else Some (kv_value e))"
proof -
  let ?t = "fold bt_Insert kvs bt_empty"
  have t: "bt_sep ?t" "bt_entries ?t = sort_key kv_key kvs" using bt_Insert_all [OF assms] by (auto simp: bt_ok_def)
  have d: "distinct (map kv_key (sort_key kv_key kvs))" using assms(4) by (simp add: distinct_map)
  have "bt_Lookup key ts ab ?t = mt_lookup key ts ab (sort_key kv_key kvs)" using bt_Lookup_flat [OF t(1)] t(2) by simp
  also have "\<dots> = (case find (\<lambda>e. kv_key e = key) (sort_key kv_key kvs) of
      None \<Rightarrow> None
    | Some e \<Rightarrow> if kv_timestamp e \<in> set ab \<or> ts < kv_timestamp e \<or> kv_is_tombstone e then None else Some (kv_value e))"
    using d by (intro mt_lookup_distinct) (simp_all add: key_ordered_def)
  finally show ?thesis using t(2) find_distinct_key [OF _ d, of kvs key] by simp
qed

lemma three_thirds:
  "sized 2036 2036 [page_third 3, page_third 1, page_third 2]"
  "\<forall>e \<in> set [page_third 3, page_third 1, page_third 2]. length (kv_key e) \<le> kMaxSep"
  "distinct (map kv_key [page_third 3, page_third 1, page_third 2])"
  by (simp_all add: bt_eval)

theorem bptree_stores_every_key_witness:
  "bt_Lookup [2] 5 [] (fold bt_Insert [page_third 3, page_third 1, page_third 2] bt_empty) = Some (replicate 2021 2)"
  using bptree_stores_every_key [OF two_thirds_split(1) three_thirds, of "[2]" 5 "[]"]
  by (simp add: page_third_simps) (simp add: page_third_def mk_kv_def)

text \<open>
  C39: while records with different keys of at most 64 bytes, of sizes between \<open>m\<close> and \<open>M\<close> with the ratio of
  \<open>bptree_insert_refines_flat\<close>, are inserted into an empty tree, every leaf page stays within its 4096 bytes and every inner node within its 15
  separators and its 1024 bytes of separator text.
\<close>
theorem bptree_pages_in_bounds:
  assumes "split_ratio m M" and "sized m M kvs" and "\<forall>e \<in> set kvs. length (kv_key e) \<le> kMaxSep" and "distinct (map kv_key kvs)"
  shows "bt_bytes_ok (fold bt_Insert (take n kvs) bt_empty)"
proof (rule bt_fits_bytes)
  have "sized m M (take n kvs)" using sized_take_drop [OF assms(2)] by simp
  moreover have "distinct (map kv_key (take n kvs))" using assms(4) by (metis distinct_take take_map)
  ultimately show "bt_fits (fold bt_Insert (take n kvs) bt_empty)"
    using bt_Insert_all [OF assms(1)] assms(3) by (auto simp: bt_ok_def dest: in_set_takeD)
qed

theorem bptree_pages_in_bounds_witness:
  "bt_bytes_ok (fold bt_Insert (take 3 [page_third 3, page_third 1, page_third 2]) bt_empty)"
  by (rule bptree_pages_in_bounds [OF two_thirds_split(1) three_thirds])

text \<open>Evaluation of the operations on leaves whose records are known by key and size.\<close>

lemma leaf_Find_eval: "sorted (map kv_key es) \<Longrightarrow> leaf_Find key es = length (takeWhile (\<lambda>e. kv_key e < key) es)"
  by (simp add: leaf_Find_takeWhile key_ordered_def)

lemma find_child_eval: "FindChild key [] = 0" "FindChild key [k] = (if key < k then 0 else 1)"
  by (simp_all add: FindChild_def find_child_step(3) find_child.simps Let_def)

definition half_page :: "u8 \<Rightarrow> KeyValuePair" where
  "half_page k = mk_kv [k] (replicate 2040 k) 1"

lemma half_page_simps [simp]:
  "kv_key (half_page k) = [k]" "rec_size (half_page k) = 2041"
  by (simp_all add: half_page_def mk_kv_def rec_size_def is_large_def kPageSize_def)

definition hot_version :: "nat \<Rightarrow> KeyValuePair" where
  "hot_version i = mk_kv [1] (replicate 1000 (of_nat i)) (of_nat i)"

lemma hot_version_simps [simp]:
  "kv_key (hot_version i) = [1]" "rec_size (hot_version i) = 1001" "kv_timestamp (hot_version i) = of_nat i"
  "kv_value (hot_version i) = replicate 1000 (of_nat i)" "\<not> kv_is_tombstone (hot_version i)"
  by (simp_all add: hot_version_def mk_kv_def rec_size_def is_large_def kPageSize_def)

lemmas leaf_eval = bt_Insert_def bt_empty_def ins_leaf_def leaf_InsertEntry_def leaf_Free_def leaf_split_def leaf_CopyEntry_def
  ins_node_def kPageSize_def kSlotSize_def kInternalFanout_def Let_def leaf_Find_eval find_child_eval

text \<open>
  two records of 2041 bytes do not share a page, and the page with the first one is split into an empty left half
  and the first record. The second key belongs into the right half, does not fit and is appended to the left one, below
  the separator: it is in the tree, and no lookup finds it.
\<close>
theorem bptree_split_loses_key:
  "half_page 2 \<in> set (bt_entries (bt_Insert (half_page 2) (bt_Insert (half_page 1) bt_empty)))
    \<and> (\<forall>ts ab. bt_Lookup [2] ts ab (bt_Insert (half_page 2) (bt_Insert (half_page 1) bt_empty)) = None)"
proof -
  have 1: "bt_Insert (half_page 1) bt_empty = BNode [] [BLeaf [half_page 1]]" by (simp add: leaf_eval)
  have 2: "bt_Insert (half_page 2) (BNode [] [BLeaf [half_page 1]]) = BNode [[1]] [BLeaf [half_page 2], BLeaf [half_page 1]]"
    by (simp add: leaf_eval)
  show ?thesis unfolding 1 2 by (simp add: bt_Lookup_def leaf_eval)
qed

text \<open>
  five versions of one key of 1001 bytes each fill more than a page. The split goes through them: the newest three
  go to the left leaf and the separator is the key itself, so that lookups go right and return the second oldest
  version at every snapshot.
\<close>
theorem bptree_split_hides_versions:
  "5 \<le> ts \<Longrightarrow> bt_Lookup [1] ts [] (fold bt_Insert (map hot_version [1, 2, 3, 4, 5]) bt_empty) = Some (replicate 1000 2)"
proof -
  assume ts: "5 \<le> ts"
  have 1: "fold bt_Insert (map hot_version [1, 2, 3, 4]) bt_empty
      = BNode [] [BLeaf [hot_version 4, hot_version 3, hot_version 2, hot_version 1]]" by (simp add: leaf_eval)
  have 2: "bt_Insert (hot_version 5) (BNode [] [BLeaf [hot_version 4, hot_version 3, hot_version 2, hot_version 1]])
      = BNode [[1]] [BLeaf [hot_version 5, hot_version 4, hot_version 3], BLeaf [hot_version 2, hot_version 1]]"
    by (simp add: leaf_eval)
  have "(2 :: u64) \<le> ts" using ts by (rule order_trans [rotated]) simp
  moreover have "fold bt_Insert (map hot_version [1, 2, 3, 4, 5]) bt_empty
      = bt_Insert (hot_version 5) (fold bt_Insert (map hot_version [1, 2, 3, 4]) bt_empty)" by simp
  ultimately show ?thesis unfolding 1 2 by (simp add: bt_Lookup_def leaf_eval)
qed

theorem bptree_split_hides_versions_witness:
  "bt_Lookup [1] 9 [] (fold bt_Insert (map hot_version [1, 2, 3, 4, 5]) bt_empty) = Some (replicate 1000 2)"
  using bptree_split_hides_versions [of 9] by simp

end
