(* ===== verification/Memtable.thy ===== *)
theory Memtable
  imports Bptree
begin

text \<open>
  The memtable (\<^verbatim>\<open>src/memtable.cpp\<close>, \<^verbatim>\<open>include/kvdb/memtable.hpp\<close>): a B+-tree with its counters, a
  frozen flag and the set of aborted batches, and \<open>MemTableWalk\<close> (\<^verbatim>\<open>include/kvdb/bptree.hpp\<close>), the cursor
  that a flush moves along the chain of leaves. Sizes are unbounded.
\<close>

section \<open>Operations\<close>

record memtable =
  mt_tree :: bnode
  mt_count :: nat
  mt_usage :: nat
  mt_aborted :: "u64 list"
  mt_id :: u64
  mt_max_bytes :: nat
  mt_frozen :: bool

definition mt_new :: "u64 \<Rightarrow> nat \<Rightarrow> memtable" where
  "mt_new i max_bytes = \<lparr>mt_tree = bt_empty, mt_count = 0, mt_usage = 0, mt_aborted = [], mt_id = i,
     mt_max_bytes = max_bytes, mt_frozen = False\<rparr>"

text \<open>The flag \<^verbatim>\<open>found\<close> of \<open>BPlusTree::Insert\<close>: the target leaf has a version of the key.\<close>

definition bt_found :: "bytes \<Rightarrow> bnode \<Rightarrow> bool" where
  "bt_found key t \<longleftrightarrow> (let leaf = FindLeaf key t; idx = leaf_Find key leaf
     in idx < length leaf \<and> kv_key (leaf ! idx) = key)"

definition mt_Insert :: "KeyValuePair \<Rightarrow> memtable \<Rightarrow> memtable" where
  "mt_Insert kv m =
     (if mt_frozen m then m
      else m\<lparr>mt_tree := bt_Insert kv (mt_tree m),
             mt_count := mt_count m + (if bt_found (kv_key kv) (mt_tree m) then 0 else 1),
             mt_usage := mt_usage m + (length (kv_key kv) + length (kv_value kv) + kMemTableEntryOverheadBytes)\<rparr>)"

definition mt_Lookup :: "bytes \<Rightarrow> u64 \<Rightarrow> memtable \<Rightarrow> bytes option" where
  "mt_Lookup key read_ts m = bt_Lookup key read_ts (mt_aborted m) (mt_tree m)"

definition mt_IsFull :: "memtable \<Rightarrow> bool" where
  "mt_IsFull m \<longleftrightarrow> mt_usage m \<ge> mt_max_bytes m"

definition mt_Freeze :: "memtable \<Rightarrow> memtable" where
  "mt_Freeze m = m\<lparr>mt_frozen := True\<rparr>"

definition mt_AddAbortedBatch :: "u64 \<Rightarrow> memtable \<Rightarrow> memtable" where
  "mt_AddAbortedBatch ts m = m\<lparr>mt_aborted := List.insert ts (mt_aborted m)\<rparr>"

definition mt_ExportEntries :: "memtable \<Rightarrow> KeyValuePair list" where
  "mt_ExportEntries m = bt_entries (mt_tree m)"

section \<open>The walk over the leaves\<close>

text \<open>The chain of leaves, and a cursor: the rest of the chain from the current leaf on, and a slot.\<close>

fun bt_leaves :: "bnode \<Rightarrow> KeyValuePair list list" where
  "bt_leaves (BLeaf es) = [es]"
| "bt_leaves (BNode ks cs) = concat (map bt_leaves cs)"

type_synonym walk = "KeyValuePair list list \<times> nat"

definition walk_skip :: "u64 list \<Rightarrow> KeyValuePair list \<Rightarrow> nat \<Rightarrow> nat" where
  "walk_skip ab leaf p = p + length (takeWhile (\<lambda>e. kv_timestamp e \<in> set ab) (drop p leaf))"

definition walk_new :: "u64 list \<Rightarrow> bnode \<Rightarrow> walk" where
  "walk_new ab t =
     (case dropWhile (\<lambda>l. l = []) (bt_leaves t) of
        [] \<Rightarrow> ([], 0)
      | l # ls \<Rightarrow> (let p = walk_skip ab l 0 in if p \<ge> length l then (ls, 0) else (l # ls, p)))"

fun walk_Valid :: "walk \<Rightarrow> bool" where
  "walk_Valid ([], p) = False"
| "walk_Valid (l # ls, p) = (p < length l)"

fun walk_step :: "walk \<Rightarrow> walk" where
  "walk_step ([], p) = ([], p + 1)"
| "walk_step (l # ls, p) = (if p + 1 \<ge> length l then (dropWhile (\<lambda>l. l = []) ls, 0) else (l # ls, p + 1))"

fun walk_settle :: "u64 list \<Rightarrow> walk \<Rightarrow> walk" where
  "walk_settle ab ([], p) = ([], p)"
| "walk_settle ab (l # ls, p) =
     (let p = walk_skip ab l p in if p \<ge> length l then (dropWhile (\<lambda>l. l = []) ls, 0) else (l # ls, p))"

definition walk_Next :: "u64 list \<Rightarrow> walk \<Rightarrow> walk" where
  "walk_Next ab w = walk_settle ab (walk_step w)"

text \<open>What \<open>Load\<close> reads.\<close>

fun walk_Current :: "walk \<Rightarrow> KeyValuePair" where
  "walk_Current (ls, p) = hd ls ! p"

fun walk_rest :: "walk \<Rightarrow> KeyValuePair list" where
  "walk_rest ([], p) = []"
| "walk_rest (l # ls, p) = drop p l @ concat ls"

lemma concat_dropWhile_Nil: "concat (dropWhile (\<lambda>l. l = []) ls) = concat ls"
  by (induction ls) auto

lemma walk_rest_0: "walk_rest (ls, 0) = concat ls"
  by (cases ls) auto

lemma walk_rest_dropWhile: "walk_rest (dropWhile (\<lambda>l. l = []) ls, 0) = concat ls"
  by (simp add: walk_rest_0 concat_dropWhile_Nil)

lemma walk_rest_step: "walk_Valid w \<Longrightarrow> walk_rest w = walk_Current w # walk_rest (walk_step w)"
  by (cases w rule: walk_Valid.cases) (auto simp: walk_rest_dropWhile Cons_nth_drop_Suc [symmetric])

lemma walk_rest_settle: "length (walk_rest (walk_settle ab w)) \<le> length (walk_rest w)"
  by (cases "(ab, w)" rule: walk_settle.cases) (auto simp: walk_rest_dropWhile Let_def walk_skip_def)

function walk_all :: "u64 list \<Rightarrow> walk \<Rightarrow> KeyValuePair list" where
  "walk_all ab w = (if walk_Valid w then walk_Current w # walk_all ab (walk_Next ab w) else [])"
  by pat_completeness auto
termination
proof (relation "measure (\<lambda>(_, w). length (walk_rest w))")
  fix ab w assume "walk_Valid w"
  then have "length (walk_rest (walk_step w)) < length (walk_rest w)" by (simp add: walk_rest_step)
  with walk_rest_settle [of ab "walk_step w"] show "((ab, walk_Next ab w), ab, w) \<in> measure (\<lambda>(_, w). length (walk_rest w))"
    by (simp add: walk_Next_def)
qed simp

declare walk_all.simps [simp del]

lemma concat_concat_map: "concat (concat (map f xs)) = concat (map (\<lambda>x. concat (f x)) xs)"
  by (induction xs) auto

lemma bt_entries_leaves: "bt_entries t = concat (bt_leaves t)"
proof (induction t)
  case (BNode ks cs)
  then have "map bt_entries cs = map (\<lambda>c. concat (bt_leaves c)) cs" by simp
  then show ?case by (simp only: bt_entries.simps bt_leaves.simps concat_concat_map)
qed simp

section \<open>What the walk delivers\<close>

text \<open>Leaves that are not empty and, the first one apart, do not begin with an aborted entry.\<close>

definition leaf_clean :: "u64 list \<Rightarrow> KeyValuePair list \<Rightarrow> bool" where
  "leaf_clean ab l \<longleftrightarrow> l \<noteq> [] \<and> kv_timestamp (hd l) \<notin> set ab"

definition walk_settled :: "u64 list \<Rightarrow> walk \<Rightarrow> bool" where
  "walk_settled ab w \<longleftrightarrow> (walk_Valid w \<longrightarrow> kv_timestamp (walk_Current w) \<notin> set ab)
     \<and> (\<not> walk_Valid w \<longrightarrow> walk_rest w = []) \<and> list_all (leaf_clean ab) (tl (fst w))"

abbreviation kept :: "u64 list \<Rightarrow> KeyValuePair list \<Rightarrow> KeyValuePair list" where
  "kept ab es \<equiv> filter (\<lambda>e. kv_timestamp e \<notin> set ab) es"

lemma list_all_leaf_clean_dropWhile: "list_all (leaf_clean ab) ls \<Longrightarrow> dropWhile (\<lambda>l. l = []) ls = ls"
  by (cases ls) (auto simp: leaf_clean_def)

lemma walk_settled_next: "list_all (leaf_clean ab) ls \<Longrightarrow> walk_settled ab (ls, 0)"
  by (cases ls) (auto simp: walk_settled_def leaf_clean_def hd_conv_nth)

lemma filter_skip:
  "p \<le> length l \<Longrightarrow> kept ab (drop p l) = kept ab (drop (walk_skip ab l p) l)"
  "walk_skip ab l p < length l \<Longrightarrow> kv_timestamp (l ! walk_skip ab l p) \<notin> set ab"
proof -
  let ?P = "\<lambda>e. kv_timestamp e \<in> set ab"
  have d: "drop (walk_skip ab l p) l = dropWhile ?P (drop p l)"
    by (simp add: walk_skip_def dropWhile_eq_drop add.commute)
  have "filter (\<lambda>e. \<not> ?P e) (takeWhile ?P (drop p l)) = []" by (auto simp: filter_empty_conv dest: set_takeWhileD)
  then show "kept ab (drop p l) = kept ab (drop (walk_skip ab l p) l)"
    unfolding d using filter_append [of "\<lambda>e. \<not> ?P e" "takeWhile ?P (drop p l)" "dropWhile ?P (drop p l)"] by simp
  assume a: "walk_skip ab l p < length l"
  then have "dropWhile ?P (drop p l) \<noteq> []" "hd (dropWhile ?P (drop p l)) = l ! walk_skip ab l p"
    unfolding d [symmetric] by (simp_all add: hd_drop_conv_nth)
  then show "kv_timestamp (l ! walk_skip ab l p) \<notin> set ab" using hd_dropWhile [of ?P "drop p l"] by metis
qed

lemma walk_settle_ok:
  assumes "w = (l # ls, p)" and "p \<le> length l" and "list_all (leaf_clean ab) ls"
  shows "walk_settled ab (walk_settle ab w) \<and> kept ab (walk_rest (walk_settle ab w)) = kept ab (walk_rest w)"
proof (cases "walk_skip ab l p < length l")
  case True
  then show ?thesis using assms filter_skip(1) [of p l ab] filter_skip(2) [of ab l p] by (simp add: walk_settled_def Let_def)
next
  case False
  then have "kept ab (drop p l) = []" using filter_skip(1) [OF assms(2), of ab] by simp
  then show ?thesis using assms False walk_settled_next [OF assms(3)] list_all_leaf_clean_dropWhile [OF assms(3)]
    by (simp add: Let_def walk_rest_0)
qed

lemma walk_Next_ok:
  assumes "walk_settled ab w" and "walk_Valid w"
  shows "walk_settled ab (walk_Next ab w) \<and> kept ab (walk_rest (walk_Next ab w)) = kept ab (walk_rest (walk_step w))"
proof -
  obtain l ls p where w: "w = (l # ls, p)" "p < length l" using assms(2) by (cases w rule: walk_Valid.cases) auto
  have c: "list_all (leaf_clean ab) ls" using assms(1) w by (simp add: walk_settled_def)
  show ?thesis
  proof (cases "p + 1 < length l")
    case True
    with w walk_settle_ok [OF refl, of "p + 1" l ab ls] c show ?thesis by (simp add: walk_Next_def)
  next
    case False
    then have s: "walk_step w = (ls, 0)" using w list_all_leaf_clean_dropWhile [OF c] by simp
    show ?thesis
    proof (cases ls)
      case Nil
      with s show ?thesis by (simp add: walk_Next_def walk_settled_def)
    next
      case (Cons l' ls')
      with s walk_settle_ok [OF refl, of 0 l' ab ls'] c show ?thesis by (simp add: walk_Next_def)
    qed
  qed
qed

lemma walk_all_settled: "walk_settled ab w \<Longrightarrow> walk_all ab w = kept ab (walk_rest w)"
proof (induction ab w rule: walk_all.induct)
  case (1 ab w)
  show ?case
  proof (cases "walk_Valid w")
    case True
    then have "walk_all ab w = walk_Current w # kept ab (walk_rest (walk_step w))"
      using 1 walk_Next_ok [OF 1(2) True] by (subst walk_all.simps) simp
    moreover have "kv_timestamp (walk_Current w) \<notin> set ab" using 1(2) True by (simp add: walk_settled_def)
    ultimately show ?thesis using walk_rest_step [OF True] by simp
  next
    case False
    then show ?thesis using 1(2) by (subst walk_all.simps) (simp add: walk_settled_def)
  qed
qed

lemma walk_new_settled:
  assumes "bt_leaves t = l # ls" and "l \<noteq> []" and "list_all (leaf_clean ab) ls"
  shows "walk_settled ab (walk_new ab t) \<and> kept ab (walk_rest (walk_new ab t)) = kept ab (bt_entries t)"
proof -
  have "walk_new ab t = walk_settle ab (l # ls, 0)"
    using assms list_all_leaf_clean_dropWhile [OF assms(3)] by (simp add: walk_new_def Let_def)
  with walk_settle_ok [OF refl, of 0 l ab ls] assms show ?thesis by (simp add: bt_entries_leaves)
qed

lemma walk_all_entries:
  assumes "bt_leaves t = l # ls" and "l \<noteq> []" and "list_all (leaf_clean ab) ls"
  shows "walk_all ab (walk_new ab t) = kept ab (bt_entries t)"
  using walk_new_settled [OF assms] walk_all_settled by simp

section \<open>Properties\<close>

text \<open>
  the walk of a flush ends and delivers every entry of the memtable that no aborted batch wrote, in the order of the chain
  of leaves, if no leaf is empty and no leaf but the first begins with an aborted entry.
\<close>
theorem memtable_walk_delivers:
  assumes "bt_leaves t = l # ls" and "l \<noteq> []" and "list_all (leaf_clean ab) ls"
  shows "walk_all ab (walk_new ab t) = filter (\<lambda>e. kv_timestamp e \<notin> set ab) (bt_entries t)"
  by (rule walk_all_entries [OF assms])

theorem memtable_walk_delivers_witness:
  "walk_all [7] (walk_new [7] (BNode [[2]] [BLeaf [mk_kv [1] [5] 7], BLeaf [mk_kv [2] [6] 8, mk_kv [3] [6] 7]])) = [mk_kv [2] [6] 8]"
  using memtable_walk_delivers [of "BNode [[2]] [BLeaf [mk_kv [1] [5] 7], BLeaf [mk_kv [2] [6] 8, mk_kv [3] [6] 7]]"
      "[mk_kv [1] [5] 7]" "[[mk_kv [2] [6] 8, mk_kv [3] [6] 7]]" "[7]"]
  by (simp add: leaf_clean_def mk_kv_def)

text \<open>
  where a leaf ends in aborted entries, the walk goes on to the next leaf without looking at its first entry. Three insertions
  of a batch that fill two leaves and are then aborted: the walk, and so the table that the flush writes,
  has one of them.
\<close>
theorem memtable_walk_delivers_aborted:
  "walk_all [1] (walk_new [1] (fold bt_Insert [page_third 1, page_third 3, page_third 2] bt_empty)) = [page_third 2]"
proof -
  have sz: "rec_size (page_third k) = 2022" "kv_timestamp (page_third k) = 1" for k
    by (simp_all add: page_third_def mk_kv_def rec_size_def is_large_def kPageSize_def)
  have 1: "fold bt_Insert [page_third 1, page_third 3] bt_empty = BNode [] [BLeaf [page_third 1, page_third 3]]"
    by (simp add: leaf_eval page_third_simps sz)
  have 2: "bt_Insert (page_third 2) (BNode [] [BLeaf [page_third 1, page_third 3]])
      = BNode [[2]] [BLeaf [page_third 1], BLeaf [page_third 2, page_third 3]]"
    by (simp add: leaf_eval page_third_simps sz)
  have "fold bt_Insert [page_third 1, page_third 3, page_third 2] bt_empty
      = bt_Insert (page_third 2) (fold bt_Insert [page_third 1, page_third 3] bt_empty)" by simp
  then have t: "fold bt_Insert [page_third 1, page_third 3, page_third 2] bt_empty
      = BNode [[2]] [BLeaf [page_third 1], BLeaf [page_third 2, page_third 3]]" unfolding 1 2 .
  show ?thesis unfolding t
    by (simp add: walk_new_def walk_skip_def sz walk_all.simps walk_Next_def Let_def)
qed

end
