(* ===== verification/Flush.thy ===== *)
theory Flush
  imports Memtable
begin

text \<open>
  \<open>SSTable::WriteFromWalk\<close> (\<^verbatim>\<open>src/sstable.cpp\<close>), the writer of a flush: it takes the newest version of each
  key from the walk over a memtable, builds the blocks in memory, enters them in the block cache and writes the table.
\<close>

section \<open>WriteFromWalk\<close>

text \<open>\<open>BlockData\<close> is the framed block, its first key and the block before framing.\<close>

record walk_writer =
  ww_blocks :: "(bytes \<times> bytes \<times> bytes) list"
  ww_builder :: BlockBuilder
  ww_first :: bytes
  ww_bloom :: BloomFilter
  ww_min :: bytes
  ww_max :: bytes
  ww_written :: nat

definition ww_freeze :: "walk_writer \<Rightarrow> walk_writer" where
  "ww_freeze w = (case bb_FreezeBlock (ww_builder w) (ww_bloom w) of (data, bloom, raw) \<Rightarrow>
     w\<lparr>ww_blocks := ww_blocks w @ [(data, ww_first w, raw)], ww_bloom := bloom\<rparr>)"

text \<open>The loop \<^verbatim>\<open>while (!builder.TryAppend(se, builder.Count() == 0))\<close>.\<close>

function ww_append :: "KeyValuePair \<Rightarrow> walk_writer \<Rightarrow> walk_writer" where
  "ww_append kv w =
     (case bb_TryAppend kv (bb_count (ww_builder w) = 0) (ww_builder w) of
        Some b \<Rightarrow> w\<lparr>ww_builder := b\<rparr>
      | None \<Rightarrow> (let w1 = ww_freeze w
          in ww_append kv (w1\<lparr>ww_builder := bb_Reset (ww_builder w1), ww_first := kv_key kv\<rparr>)))"
  by pat_completeness auto
termination
  by (relation "measure (\<lambda>(_, w). if bb_count (ww_builder w) = 0 then 0 else 1)")
    (auto simp: bb_TryAppend_def bb_Reset_def Let_def split: if_splits)

declare ww_append.simps [simp del]

definition ww_put :: "KeyValuePair \<Rightarrow> walk_writer \<Rightarrow> walk_writer" where
  "ww_put kv w =
     (let w1 = ww_append kv (if bb_count (ww_builder w) = 0 then w\<lparr>ww_first := kv_key kv\<rparr> else w)
      in w1\<lparr>ww_min := (if ww_min w1 = [] then kv_key kv else ww_min w1), ww_max := kv_key kv,
            ww_written := ww_written w1 + 1\<rparr>)"

text \<open>
  The variables \<^verbatim>\<open>prev_key\<close>, \<^verbatim>\<open>best_val\<close>, \<^verbatim>\<open>best_ts\<close> and \<^verbatim>\<open>best_tomb\<close> are one entry, which is flushed only if
  \<^verbatim>\<open>has_best\<close> is set; at the start its key is empty.
\<close>

type_synonym walk_state = "KeyValuePair \<times> bool \<times> walk_writer"

fun flushBest :: "walk_state \<Rightarrow> walk_writer" where
  "flushBest (cur, has, w) = (if has then ww_put cur w else w)"

fun wfw_entry :: "KeyValuePair \<Rightarrow> walk_state \<Rightarrow> walk_state" where
  "wfw_entry e (cur, has, w) =
     (if kv_key e \<noteq> kv_key cur then (e, True, flushBest (cur, has, w))
      else if kv_timestamp e > kv_timestamp cur then (e, has, w) else (cur, has, w))"

definition ww_start :: "(nat \<Rightarrow> u64 \<times> u32) \<Rightarrow> nat \<Rightarrow> walk_writer" where
  "ww_start bsz n_entries =
     \<lparr>ww_blocks = [], ww_builder = bb_new kSSTableBlockSize, ww_first = [],
      ww_bloom = case_prod bf_new (bsz (if n_entries > 0 then n_entries else 1)),
      ww_min = [], ww_max = [], ww_written = 0\<rparr>"

text \<open>The loop over the blocks: the file behind the header, the offsets and the first keys.\<close>

fun ww_file :: "bytes \<Rightarrow> u64 list \<Rightarrow> bytes list \<Rightarrow> (bytes \<times> bytes \<times> bytes) list \<Rightarrow> bytes \<times> u64 list \<times> bytes list" where
  "ww_file file offsets fkeys [] = (file, offsets, fkeys)"
| "ww_file file offsets fkeys ((data, fk, raw) # bs) =
     ww_file (file @ data) (offsets @ [of_nat (length file)]) (fkeys @ [fk]) bs"

fun cache_put_blocks :: "u64 \<Rightarrow> nat \<Rightarrow> (bytes \<times> bytes \<times> bytes) list \<Rightarrow> block_cache \<Rightarrow> block_cache" where
  "cache_put_blocks seq i [] c = c"
| "cache_put_blocks seq i ((data, fk, raw) # bs) c =
     cache_put_blocks seq (i + 1) bs (if raw = [] then c else c\<lparr>bc_blocks := (bc_blocks c)((seq, of_nat i) \<mapsto> raw)\<rparr>)"

definition ww_finish :: "KeyValuePair list \<Rightarrow> walk_writer \<Rightarrow> walk_writer" where
  "ww_finish es w0 =
     (let w = flushBest (fold wfw_entry es (\<lparr>kv_key = [], kv_value = [], kv_timestamp = 0, kv_is_tombstone = False\<rparr>, False, w0))
      in if bb_count (ww_builder w) > 0 then ww_freeze w else w)"

text \<open>\<open>es\<close> are the entries that the walk delivers.\<close>

definition sst_WriteFromWalk ::
  "(nat \<Rightarrow> u64 \<times> u32) \<Rightarrow> KeyValuePair list \<Rightarrow> nat \<Rightarrow> block_cache option \<Rightarrow> u64 \<Rightarrow> u64 list option \<Rightarrow> bytes \<times> block_cache option" where
  "sst_WriteFromWalk bsz es n_entries cache seq aborted =
     (let w = ww_finish es (ww_start bsz n_entries)
      in case ww_file (sst_header (ww_written w) (ww_min w) (ww_max w)) [] [] (ww_blocks w) of
           (file, offsets, fkeys) \<Rightarrow>
             (sst_finish file (sst_meta_region (ww_min w) (ww_max w) (ww_bloom w) aborted offsets fkeys),
              map_option (cache_put_blocks seq 0 (ww_blocks w)) cache))"

section \<open>The entries that are flushed\<close>

text \<open>The newest version of each run of equal keys; the first of several equally new ones.\<close>

fun run_best :: "KeyValuePair \<Rightarrow> bool \<Rightarrow> KeyValuePair list \<Rightarrow> KeyValuePair list" where
  "run_best cur has [] = (if has then [cur] else [])"
| "run_best cur has (e # es) =
     (if kv_key e \<noteq> kv_key cur then (if has then [cur] else []) @ run_best e True es
      else run_best (if kv_timestamp e > kv_timestamp cur then e else cur) has es)"

lemma flushBest_run: "flushBest (fold wfw_entry es (cur, has, w)) = fold ww_put (run_best cur has es) w"
  by (induction es arbitrary: cur has w) auto

definition flush_entries :: "KeyValuePair list \<Rightarrow> KeyValuePair list" where
  "flush_entries es = run_best \<lparr>kv_key = [], kv_value = [], kv_timestamp = 0, kv_is_tombstone = False\<rparr> False es"

section \<open>Equality with Write\<close>

text \<open>The writer of \<open>Write\<close> that has the same blocks in its file.\<close>

definition ww_sim :: "bytes \<Rightarrow> nat \<Rightarrow> sst_writer \<Rightarrow> walk_writer \<Rightarrow> bool" where
  "ww_sim h n s w \<longleftrightarrow> sw_builder s = ww_builder w \<and> sw_bloom s = ww_bloom w
     \<and> bb_count (ww_builder w) = of_nat (length (bb_entries (ww_builder w))) \<and> length (bb_entries (ww_builder w)) \<le> n
     \<and> ww_file h [] [] (ww_blocks w) = (sw_file s, sw_offsets s, map (fst \<circ> snd) (ww_blocks w))
     \<and> sw_first_keys s = map (fst \<circ> snd) (ww_blocks w) @ (if bb_entries (ww_builder w) = [] then [] else [ww_first w])"

lemma ww_file_append:
  "ww_file h os fs (bs @ [(d, k, r)]) = (case ww_file h os fs bs of (f, os', fs') \<Rightarrow> (f @ d, os' @ [of_nat (length f)], fs' @ [k]))"
  by (induction bs arbitrary: h os fs) auto

lemma ww_count_zero:
  assumes "ww_sim h n s w" and "n < 2 ^ 32"
  shows "bb_count (ww_builder w) = 0 \<longleftrightarrow> bb_entries (ww_builder w) = []"
proof -
  have "unat (bb_count (ww_builder w)) = length (bb_entries (ww_builder w))"
    using assms by (simp add: ww_sim_def unat_of_nat_small)
  then show ?thesis by (metis length_0_conv unat_eq_zero)
qed

lemma ww_freeze_sim:
  assumes "ww_sim h n s w" and "bb_entries (ww_builder w) \<noteq> []"
  shows "ww_sim h 0 ((sw_flush s)\<lparr>sw_builder := bb_Reset (sw_builder (sw_flush s))\<rparr>)
    ((ww_freeze w)\<lparr>ww_builder := bb_Reset (ww_builder (ww_freeze w)), ww_first := k\<rparr>)"
  using assms
  by (auto simp: ww_sim_def sw_flush_def WriteBlock_def ww_freeze_def bb_FreezeBlock_def bb_Reset_def ww_file_append)

lemma ww_put_sim:
  assumes "ww_sim h n s w" and "n < 2 ^ 32"
  shows "ww_sim h (Suc n) (sw_put kv s) (ww_put kv w)"
proof (cases "bb_entries (ww_builder w) = []")
  case True
  then have "bb_count (ww_builder w) = 0" using ww_count_zero [OF assms] by simp
  with True assms(1) show ?thesis
    by (auto simp: sw_put_def ww_put_def Let_def sw_append.simps ww_append.simps bb_TryAppend_def ww_sim_def)
next
  case False
  then have nz: "bb_count (ww_builder w) \<noteq> 0" using ww_count_zero [OF assms] by simp
  have b: "sw_builder s = ww_builder w" using assms(1) by (simp add: ww_sim_def)
  show ?thesis
  proof (cases "bb_TryAppend kv False (ww_builder w)")
    case None
    let ?s = "(sw_flush s)\<lparr>sw_builder := bb_Reset (sw_builder (sw_flush s))\<rparr>"
    let ?w = "(ww_freeze w)\<lparr>ww_builder := bb_Reset (ww_builder (ww_freeze w)), ww_first := kv_key kv\<rparr>"
    note sim = ww_freeze_sim [OF assms(1) False, of "kv_key kv"]
    have "sw_put kv s = sw_append kv True (?s\<lparr>sw_first_keys := sw_first_keys ?s @ [kv_key kv]\<rparr>)"
      using nz b None by (simp add: sw_put_def, subst sw_append.simps) (simp add: Let_def)
    moreover have "ww_put kv w = (let w1 = ww_append kv ?w in w1\<lparr>ww_min := (if ww_min w1 = [] then kv_key kv else ww_min w1),
        ww_max := kv_key kv, ww_written := ww_written w1 + 1\<rparr>)"
      using nz None by (simp add: ww_put_def, subst ww_append.simps) (simp add: Let_def)
    moreover have "bb_count (bb_Reset x) = 0" "bb_entries (bb_Reset x) = []" for x by (simp_all add: bb_Reset_def)
    ultimately show ?thesis using sim
      by (simp add: sw_append.simps ww_append.simps bb_TryAppend_def Let_def ww_sim_def)
  next
    case (Some b')
    then have "sw_put kv s = s\<lparr>sw_builder := b'\<rparr>"
      using nz b by (simp add: sw_put_def, subst sw_append.simps) simp
    moreover have "ww_append kv w = w\<lparr>ww_builder := b'\<rparr>" using nz Some by (subst ww_append.simps) simp
    moreover have "bb_entries b' = bb_entries (ww_builder w) @ [kv]" "bb_count b' = bb_count (ww_builder w) + 1"
      using Some by (auto simp: bb_TryAppend_def Let_def split: if_splits)
    ultimately show ?thesis using assms(1) nz False by (simp add: ww_put_def Let_def ww_sim_def)
  qed
qed

lemma ww_fold_sim:
  "ww_sim h n s w \<Longrightarrow> n + length es < 2 ^ 32 \<Longrightarrow> ww_sim h (n + length es) (fold sw_put es s) (fold ww_put es w)"
proof (induction es arbitrary: n s w)
  case (Cons e es)
  then show ?case using Cons.IH [OF ww_put_sim [OF Cons.prems(1)], of e] by simp
qed simp

lemma ww_append_fields [simp]:
  "ww_min (ww_append kv w) = ww_min w" "ww_max (ww_append kv w) = ww_max w" "ww_written (ww_append kv w) = ww_written w"
proof -
  have "ww_min (ww_append kv w) = ww_min w \<and> ww_max (ww_append kv w) = ww_max w \<and> ww_written (ww_append kv w) = ww_written w"
  proof (induction kv w rule: ww_append.induct)
    case (1 kv w)
    then show ?case
      by (subst (1 2 3) ww_append.simps)
        (auto simp: ww_freeze_def bb_FreezeBlock_def Let_def split: option.split)
  qed
  then show "ww_min (ww_append kv w) = ww_min w" "ww_max (ww_append kv w) = ww_max w" "ww_written (ww_append kv w) = ww_written w"
    by auto
qed

lemma ww_fold_fields:
  "ww_written (fold ww_put es w) = ww_written w + length es"
  "es \<noteq> [] \<Longrightarrow> ww_max (fold ww_put es w) = kv_key (last es)"
  "ww_min w \<noteq> [] \<Longrightarrow> ww_min (fold ww_put es w) = ww_min w"
  "\<forall>e \<in> set es. kv_key e \<noteq> [] \<Longrightarrow> es \<noteq> [] \<Longrightarrow> ww_min w = [] \<Longrightarrow> ww_min (fold ww_put es w) = kv_key (hd es)"
proof -
  show "ww_written (fold ww_put es w) = ww_written w + length es"
    by (induction es arbitrary: w) (auto simp: ww_put_def Let_def)
  show "es \<noteq> [] \<Longrightarrow> ww_max (fold ww_put es w) = kv_key (last es)"
    by (induction es arbitrary: w) (auto simp: ww_put_def Let_def)
  show m: "ww_min w \<noteq> [] \<Longrightarrow> ww_min (fold ww_put es w) = ww_min w" for w es
    by (induction es arbitrary: w) (auto simp: ww_put_def Let_def)
  assume a: "\<forall>e \<in> set es. kv_key e \<noteq> []" "es \<noteq> []" "ww_min w = []"
  then obtain e es' where es: "es = e # es'" by (cases es) auto
  then show "ww_min (fold ww_put es w) = kv_key (hd es)" using a m [of "ww_put e w" es'] by (auto simp: ww_put_def Let_def)
qed

text \<open>The newest versions, by key, of a list that is ordered by key.\<close>

definition newest_in :: "KeyValuePair list \<Rightarrow> KeyValuePair \<Rightarrow> bool" where
  "newest_in es e \<longleftrightarrow> e \<in> set es \<and> (\<forall>e' \<in> set es. kv_key e' = kv_key e \<longrightarrow> kv_timestamp e' \<le> kv_timestamp e)"

lemma run_best_spec:
  assumes "key_ordered (cur # es)"
  shows "strictly_sorted (run_best cur has es)"
    "\<forall>e \<in> set (run_best cur True es). newest_in (cur # es) e"
    "\<forall>e \<in> set (cur # es). \<exists>f \<in> set (run_best cur True es). kv_key f = kv_key e"
    "run_best cur False es = filter (\<lambda>e. kv_key e \<noteq> kv_key cur) (run_best cur True es)"
proof -
  have "(\<forall>has. strictly_sorted (run_best cur has es)) \<and> (\<forall>e \<in> set (run_best cur True es). newest_in (cur # es) e)
    \<and> (\<forall>e \<in> set (cur # es). \<exists>f \<in> set (run_best cur True es). kv_key f = kv_key e)
    \<and> run_best cur False es = filter (\<lambda>e. kv_key e \<noteq> kv_key cur) (run_best cur True es)"
    using assms
  proof (induction es arbitrary: cur)
    case Nil
    then show ?case by (simp add: strictly_sorted_def newest_in_def)
  next
    case (Cons e es)
    let ?best = "if kv_timestamp e > kv_timestamp cur then e else cur"
    show ?case
    proof (cases "kv_key e = kv_key cur")
      case True
      have o: "key_ordered (?best # es)" using Cons.prems True by (auto simp: key_ordered_def)
      note IH = Cons.IH [OF o]
      have k: "kv_key ?best = kv_key cur" using True by simp
      have "newest_in (cur # e # es) f" if "newest_in (?best # es) f" for f
        using that True unfolding newest_in_def by (auto split: if_splits)
      then show ?thesis using IH True k by (auto split: if_splits)
    next
      case False
      have o: "key_ordered (e # es)" using Cons.prems by (simp add: key_ordered_def)
      note IH = Cons.IH [OF o]
      have lt: "\<forall>x \<in> set (e # es). kv_key cur < kv_key x"
        using Cons.prems False by (auto simp: key_ordered_def order_le_less)
      then have lt': "\<forall>x \<in> set (run_best e True es). kv_key cur < kv_key x" using IH by (auto simp: newest_in_def)
      have "strictly_sorted (cur # run_best e True es)" "strictly_sorted (run_best e True es)"
        using IH lt' by (auto simp: strictly_sorted_def)
      moreover have "newest_in (cur # e # es) f" if "newest_in (e # es) f" for f
        using that lt unfolding newest_in_def by auto
      moreover have "newest_in (cur # e # es) cur" using lt unfolding newest_in_def by auto
      moreover have "filter (\<lambda>x. kv_key x \<noteq> kv_key cur) (run_best e True es) = run_best e True es"
        using lt' by (intro filter_True) auto
      ultimately show ?thesis using IH False by auto
    qed
  qed
  then show "strictly_sorted (run_best cur has es)"
    "\<forall>e \<in> set (run_best cur True es). newest_in (cur # es) e"
    "\<forall>e \<in> set (cur # es). \<exists>f \<in> set (run_best cur True es). kv_key f = kv_key e"
    "run_best cur False es = filter (\<lambda>e. kv_key e \<noteq> kv_key cur) (run_best cur True es)" by auto
qed

lemma flush_entries_spec:
  assumes "key_ordered es"
  shows "strictly_sorted (flush_entries es)"
    "\<forall>e \<in> set (flush_entries es). kv_key e \<noteq> [] \<and> newest_in es e"
    "\<forall>e \<in> set es. kv_key e \<noteq> [] \<longrightarrow> (\<exists>f \<in> set (flush_entries es). kv_key f = kv_key e)"
    "length (flush_entries es) \<le> length es"
proof -
  let ?c = "\<lparr>kv_key = [], kv_value = [], kv_timestamp = 0, kv_is_tombstone = False\<rparr>"
  have o: "key_ordered (?c # es)" using assms by (simp add: key_ordered_def)
  note r = run_best_spec [OF o]
  show "strictly_sorted (flush_entries es)" using r(1) by (simp add: flush_entries_def)
  show "\<forall>e \<in> set (flush_entries es). kv_key e \<noteq> [] \<and> newest_in es e"
    using r(2,4) by (auto simp: flush_entries_def newest_in_def)
  show "\<forall>e \<in> set es. kv_key e \<noteq> [] \<longrightarrow> (\<exists>f \<in> set (flush_entries es). kv_key f = kv_key e)"
    using r(3,4) by (fastforce simp: flush_entries_def)
  have "length (run_best c has xs) \<le> length xs + (if has then 1 else 0)" for c has xs
    by (induction c has xs rule: run_best.induct) (auto split: if_splits)
  from this [of ?c False es] show "length (flush_entries es) \<le> length es" by (simp add: flush_entries_def)
qed

lemma sst_WriteFromWalk_Write:
  assumes "key_ordered es" and "length es < 2 ^ 32"
  shows "fst (sst_WriteFromWalk bsz es n cache seq ab) = sst_Write (\<lambda>_. bsz (if n > 0 then n else 1)) (flush_entries es) ab"
proof -
  let ?f = "flush_entries es" and ?bsz = "\<lambda>_. bsz (if n > 0 then n else 1)"
  note f = flush_entries_spec [OF assms(1)]
  let ?w = "fold ww_put ?f (ww_start bsz n)" and ?s = "fold sw_put ?f (sst_start ?bsz ?f (es_min ?f) (es_max ?f))"
  have fields: "ww_written ?w = length ?f" "ww_min ?w = es_min ?f" "ww_max ?w = es_max ?f"
    using ww_fold_fields(1) [of ?f "ww_start bsz n"] ww_fold_fields(2) [of ?f "ww_start bsz n"] ww_fold_fields(4) [of ?f "ww_start bsz n"] f(2)
    by (cases "?f = []"; simp add: ww_start_def)+
  let ?h = "sst_header (length ?f) (es_min ?f) (es_max ?f)"
  have "ww_sim ?h 0 (sst_start ?bsz ?f (es_min ?f) (es_max ?f)) (ww_start bsz n)"
    by (simp add: ww_sim_def sst_start_def ww_start_def bb_new_def)
  from ww_fold_sim [OF this, of ?f] f(4) assms(2) have sim: "ww_sim ?h (length ?f) ?s ?w" by simp
  have z: "bb_count (ww_builder ?w) = 0 \<longleftrightarrow> bb_entries (ww_builder ?w) = []"
    using ww_count_zero [OF sim] f(4) assms(2) by simp
  have w: "ww_finish es (ww_start bsz n) = (if bb_count (ww_builder ?w) > 0 then ww_freeze ?w else ?w)"
    by (simp add: ww_finish_def flushBest_run flush_entries_def Let_def)
  have fr: "ww_written (ww_freeze x) = ww_written x" "ww_min (ww_freeze x) = ww_min x" "ww_max (ww_freeze x) = ww_max x" for x
    by (simp_all add: ww_freeze_def bb_FreezeBlock_def)
  show ?thesis
  proof (cases "bb_entries (ww_builder ?w) = []")
    case True
    then show ?thesis using sim z w fields
      by (simp add: sst_WriteFromWalk_def sst_Write_def ww_sim_def Let_def)
  next
    case False
    then have c: "bb_count (ww_builder ?w) > 0" using z by (simp add: word_gt_0)
    from ww_freeze_sim [OF sim False, of "[]"] sim False
    have "ww_file ?h [] [] (ww_blocks (ww_freeze ?w)) = (sw_file (sw_flush ?s), sw_offsets (sw_flush ?s), sw_first_keys (sw_flush ?s))"
      "sw_bloom (sw_flush ?s) = ww_bloom (ww_freeze ?w)" "sw_builder ?s = ww_builder ?w"
      by (auto simp: ww_sim_def bb_Reset_def)
    then show ?thesis using c w fields fr
      by (simp add: sst_WriteFromWalk_def sst_Write_def Let_def)
  qed
qed

section \<open>Properties\<close>



text \<open>
  C12: a flush keeps the newest value of every non-empty key: for a walk in key order without entries of aborted batches, where no aborted
  timestamp has bit 31 set, a lookup in the flushed table, at a snapshot that is not older than any
  entry of the walk, returns the newest version of the key (an empty value for a tombstone), and finds nothing only if the walk
  has no version of it, through any cache that agrees with the file.
\<close>
theorem flush_preserves_lookup:
  assumes "key_ordered es" and "length es < 2 ^ 32" and "key \<noteq> []"
    and "\<forall>e \<in> set es. kv_timestamp e \<le> ts \<and> kv_timestamp e \<notin> set (ab_list ab)" and "\<forall>t \<in> set (ab_list ab). \<not> bit t 31"
    and "table_ok (\<lambda>_. bsz (if n > 0 then n else 1)) (flush_entries es) ab"
    and "file = fst (sst_WriteFromWalk bsz es n wcache seq ab)" and "cache_agrees path (Some file) seq cache"
  shows "\<exists>cache' r. sst_LookupKey path (Some file) key ts cache seq = (cache', Inr r)
    \<and> (case r of None \<Rightarrow> key \<notin> kv_key ` set es | Some v \<Rightarrow> \<exists>e. newest_in es e \<and> kv_key e = key \<and> v = kv_result e)"
proof -
  note f = flush_entries_spec [OF assms(1)]
  let ?F = "flush_entries es"
  have wr: "file = sst_Write (\<lambda>_. bsz (if n > 0 then n else 1)) ?F ab" using sst_WriteFromWalk_Write assms(1,2,7) by metis
  have "\<exists>cache'. sst_LookupKey path (Some file) key ts cache seq
      = (cache', Inr (map_option kv_result (find (visible (ab_list ab) key ts) ?F)))"
    using sstable_lookup_in_table [OF assms(6) f(1) assms(5), of path seq cache key ts] assms(8) unfolding wr by auto
  moreover have "visible (ab_list ab) key ts e \<longleftrightarrow> kv_key e = key" if "e \<in> set ?F" for e
    using that f(2) assms(4) by (auto simp: visible_def newest_in_def)
  then have "find (visible (ab_list ab) key ts) ?F = find (\<lambda>e. kv_key e = key) ?F" by (intro find_cong) auto
  moreover have "case map_option kv_result (find (\<lambda>e. kv_key e = key) ?F) of None \<Rightarrow> key \<notin> kv_key ` set es
      | Some v \<Rightarrow> \<exists>e. newest_in es e \<and> kv_key e = key \<and> v = kv_result e"
  proof (cases "find (\<lambda>e. kv_key e = key) ?F")
    case None
    then have "key \<notin> kv_key ` set es" using f(3) assms(3) unfolding find_None_iff by blast
    with None show ?thesis by simp
  next
    case (Some e)
    then have "e \<in> set ?F" "kv_key e = key" by (auto simp: find_Some_iff)
    then show ?thesis using Some f(2) by auto
  qed
  ultimately show ?thesis by auto
qed

theorem flush_preserves_lookup_witness:
  "\<exists>cache' r. sst_LookupKey [] (Some (fst (sst_WriteFromWalk (\<lambda>n. (10, 7)) [mk_kv [1] [2] 3] 1 None 1 None))) [1] 7 None 1 = (cache', Inr r)
    \<and> (case r of None \<Rightarrow> [1] \<notin> kv_key ` set [mk_kv [1] [2] 3] | Some v \<Rightarrow> \<exists>e. newest_in [mk_kv [1] [2] 3] e \<and> kv_key e = [1] \<and> v = kv_result e)"
proof (rule flush_preserves_lookup [OF _ _ _ _ _ _ refl])
  have "flush_entries [mk_kv [1] [2] 3] = [mk_kv [1] [2] 3]" by (simp add: flush_entries_def mk_kv_def)
  then show "table_ok (\<lambda>_. (10, 7)) (flush_entries [mk_kv [1] [2] 3]) None"
    using table_ok_single [of "mk_kv [1] [2] 3" None] by (simp add: entry_ok_def mk_kv_def ab_list_def)
qed (simp_all add: key_ordered_def mk_kv_def ab_list_def cache_agrees_def blocks_agree_def)

end
