(* ===== verification/Kv_Cache.thy ===== *)
theory Kv_Cache
  imports Kv_Types "HOL-Library.Monad_Syntax"
begin

text \<open>
  The cache of key-value pairs (\<^verbatim>\<open>include/kvdb/kv_cache.hpp\<close>): shards with an open-addressing table of buckets that
  refer to entries, and a doubly linked list in order of use. \<^verbatim>\<open>std::hash\<close> is the parameter \<open>hs\<close>; the number of buckets
  is a power of two, so that masking is the remainder. Pointers to entries are their numbers, \<open>None\<close> is the null pointer
  and the bucket value \<^verbatim>\<open>kEmpty\<close>. A loop over the buckets that has seen all of them never ends: the operation
  then has no result.
\<close>

section \<open>Shards\<close>

record kc_entry =
  ke_value :: bytes
  ke_key :: bytes
  ke_ts :: u64
  ke_prev :: "nat option"
  ke_next :: "nat option"

record kc_shard =
  ks_buckets :: "(u32 \<times> nat option) list"
  ks_entries :: "kc_entry list"
  ks_head :: "nat option"
  ks_tail :: "nat option"
  ks_count :: nat
  ks_max_entries :: nat
  ks_max_bytes :: nat
  ks_bytes :: u64

text \<open>\<^verbatim>\<open>while (bc < per_e * 2) bc *= 2;\<close>\<close>

function kc_bucket_count :: "nat \<Rightarrow> nat \<Rightarrow> nat" where
  "kc_bucket_count per_e bc = (if 0 < bc \<and> bc < per_e * 2 then kc_bucket_count per_e (bc * 2) else bc)"
  by pat_completeness auto
termination
  by (relation "measure (\<lambda>(e, bc). e * 2 - bc)") auto

declare kc_bucket_count.simps [simp del]

definition kc_Init :: "nat \<Rightarrow> nat \<Rightarrow> kc_shard" where
  "kc_Init per_e per_b = \<lparr>ks_buckets = replicate (kc_bucket_count per_e 1) (0, None),
     ks_entries = replicate per_e \<lparr>ke_value = [], ke_key = [], ke_ts = 0, ke_prev = None, ke_next = None\<rparr>,
     ks_head = None, ks_tail = None, ks_count = 0, ks_max_entries = per_e, ks_max_bytes = per_b, ks_bytes = 0\<rparr>"

section \<open>The list of entries in order of use\<close>

definition upd_entry :: "nat \<Rightarrow> (kc_entry \<Rightarrow> kc_entry) \<Rightarrow> kc_shard \<Rightarrow> kc_shard" where
  "upd_entry i f s = s\<lparr>ks_entries := (ks_entries s)[i := f (ks_entries s ! i)]\<rparr>"

definition LruRemove :: "nat \<Rightarrow> kc_shard \<Rightarrow> kc_shard" where
  "LruRemove i s =
     (let p = ke_prev (ks_entries s ! i); n = ke_next (ks_entries s ! i);
          s1 = (case p of Some j \<Rightarrow> upd_entry j (ke_next_update (\<lambda>_. n)) s | None \<Rightarrow> s\<lparr>ks_head := n\<rparr>)
      in case ke_next (ks_entries s1 ! i) of
           Some j \<Rightarrow> upd_entry j (ke_prev_update (\<lambda>_. ke_prev (ks_entries s1 ! i))) s1
         | None \<Rightarrow> s1\<lparr>ks_tail := ke_prev (ks_entries s1 ! i)\<rparr>)"

definition LruPushFront :: "nat \<Rightarrow> kc_shard \<Rightarrow> kc_shard" where
  "LruPushFront i s =
     (let s1 = upd_entry i (\<lambda>e. e\<lparr>ke_prev := None, ke_next := ks_head s\<rparr>) s;
          s2 = (case ks_head s1 of Some h \<Rightarrow> upd_entry h (ke_prev_update (\<lambda>_. Some i)) s1 | None \<Rightarrow> s1\<lparr>ks_tail := Some i\<rparr>)
      in s2\<lparr>ks_head := Some i\<rparr>)"

section \<open>The hash table\<close>

definition kc_hash :: "(bytes \<Rightarrow> u64) \<Rightarrow> bytes \<Rightarrow> u32" where
  "kc_hash hs key = ucast (hs key)"

definition kc_home :: "u32 \<Rightarrow> (u32 \<times> nat option) list \<Rightarrow> nat" where
  "kc_home h bs = unat h mod length bs"

fun kc_probe :: "nat \<Rightarrow> (u32 \<times> nat option) list \<Rightarrow> kc_entry list \<Rightarrow> bytes \<Rightarrow> u32 \<Rightarrow> nat \<Rightarrow> nat option option" where
  "kc_probe 0 bs es key h i = None"
| "kc_probe (Suc n) bs es key h i =
     (case bs ! i of
        (_, None) \<Rightarrow> Some None
      | (bh, Some j) \<Rightarrow> if bh = h \<and> ke_key (es ! j) = key then Some (Some i)
                      else kc_probe n bs es key h ((i + 1) mod length bs))"

text \<open>\<open>None\<close>: the loop does not end; \<open>Some None\<close>: \<^verbatim>\<open>kEmpty\<close>.\<close>

definition kc_FindSlot :: "bytes \<Rightarrow> u32 \<Rightarrow> kc_shard \<Rightarrow> nat option option" where
  "kc_FindSlot key h s = kc_probe (length (ks_buckets s)) (ks_buckets s) (ks_entries s) key h (kc_home h (ks_buckets s))"

text \<open>The loop that looks for an empty bucket.\<close>

fun kc_free :: "nat \<Rightarrow> (u32 \<times> nat option) list \<Rightarrow> nat \<Rightarrow> nat option" where
  "kc_free 0 bs i = None"
| "kc_free (Suc n) bs i = (if snd (bs ! i) = None then Some i else kc_free n bs ((i + 1) mod length bs))"

definition kc_place :: "u32 \<Rightarrow> nat \<Rightarrow> (u32 \<times> nat option) list \<Rightarrow> (u32 \<times> nat option) list option" where
  "kc_place h idx bs = map_option (\<lambda>i. bs[i := (h, Some idx)]) (kc_free (length bs) bs (kc_home h bs))"

fun kc_rehash_into :: "(u32 \<times> nat option) list \<Rightarrow> (u32 \<times> nat option) list \<Rightarrow> (u32 \<times> nat option) list option" where
  "kc_rehash_into [] bs = Some bs"
| "kc_rehash_into ((h, None) # old) bs = kc_rehash_into old bs"
| "kc_rehash_into ((h, Some j) # old) bs = Option.bind (kc_place h j bs) (kc_rehash_into old)"

definition kc_Rehash :: "kc_shard \<Rightarrow> kc_shard option" where
  "kc_Rehash s = map_option (\<lambda>bs. s\<lparr>ks_buckets := bs\<rparr>)
     (kc_rehash_into (ks_buckets s) (replicate (max (length (ks_buckets s) * 2) 8) (0, None)))"

section \<open>Operations\<close>

definition kc_val_size :: "nat \<Rightarrow> kc_shard \<Rightarrow> u64" where
  "kc_val_size i s = of_nat (length (ke_value (ks_entries s ! i)))"

definition kc_clear_bucket :: "nat \<Rightarrow> kc_shard \<Rightarrow> kc_shard" where
  "kc_clear_bucket slot s = s\<lparr>ks_buckets := (ks_buckets s)[slot := (fst (ks_buckets s ! slot), None)]\<rparr>"

text \<open>The entry that is freed, if any.\<close>

definition kc_Evict :: "(bytes \<Rightarrow> u64) \<Rightarrow> kc_shard \<Rightarrow> (kc_shard \<times> nat option) option" where
  "kc_Evict hs s =
     (case ks_tail s of
        None \<Rightarrow> Some (s, None)
      | Some t \<Rightarrow>
          (let key = ke_key (ks_entries s ! t)
           in do {
             slot \<leftarrow> kc_FindSlot key (kc_hash hs key) s;
             let (s1, idx) = (case slot of
                 None \<Rightarrow> (s, None)
               | Some sl \<Rightarrow> (kc_clear_bucket sl (s\<lparr>ks_bytes := ks_bytes s - kc_val_size t s\<rparr>), snd (ks_buckets s ! sl)));
             Some (LruRemove t s1, idx)
           }))"

definition kc_Get_nolock :: "(bytes \<Rightarrow> u64) \<Rightarrow> bytes \<Rightarrow> u64 \<Rightarrow> kc_shard \<Rightarrow> (kc_shard \<times> bytes option) option" where
  "kc_Get_nolock hs key read_ts s = do {
     slot \<leftarrow> kc_FindSlot key (kc_hash hs key) s;
     case slot of
       None \<Rightarrow> Some (s, None)
     | Some sl \<Rightarrow> (let i = the (snd (ks_buckets s ! sl)); e = ks_entries s ! i
         in if ke_ts e > read_ts then Some (s, None)
            else Some (LruPushFront i (LruRemove i s), Some (ke_value e)))
   }"

definition kc_insert_new :: "(bytes \<Rightarrow> u64) \<Rightarrow> bytes \<Rightarrow> bytes \<Rightarrow> u64 \<Rightarrow> nat option \<Rightarrow> kc_shard \<Rightarrow> kc_shard option" where
  "kc_insert_new hs key value ts freed s0 = do {
     s \<leftarrow> (if ks_count s0 * 2 \<ge> length (ks_buckets s0) then kc_Rehash s0 else Some s0);
     let idx = (case freed of None \<Rightarrow> ks_count s | Some i \<Rightarrow> i);
     let s1 = upd_entry idx (\<lambda>_. \<lparr>ke_value = value, ke_key = key, ke_ts = ts, ke_prev = None, ke_next = None\<rparr>)
                (s\<lparr>ks_count := ks_count s + 1\<rparr>);
     bs \<leftarrow> kc_place (kc_hash hs key) idx (ks_buckets s1);
     let s2 = LruPushFront idx (s1\<lparr>ks_buckets := bs\<rparr>);
     Some (s2\<lparr>ks_bytes := ks_bytes s2 + of_nat (length value)\<rparr>)
   }"

definition kc_full :: "bytes \<Rightarrow> kc_shard \<Rightarrow> bool" where
  "kc_full value s \<longleftrightarrow> ks_count s \<ge> ks_max_entries s \<or> unat (ks_bytes s + of_nat (length value)) > ks_max_bytes s"

definition kc_Put_nolock :: "(bytes \<Rightarrow> u64) \<Rightarrow> bytes \<Rightarrow> bytes \<Rightarrow> u64 \<Rightarrow> kc_shard \<Rightarrow> kc_shard option" where
  "kc_Put_nolock hs key value ts s = do {
     slot \<leftarrow> kc_FindSlot key (kc_hash hs key) s;
     case slot of
       Some sl \<Rightarrow> (let i = the (snd (ks_buckets s ! sl));
           s1 = (upd_entry i (\<lambda>e. e\<lparr>ke_value := value, ke_ts := ts\<rparr>) s)
                  \<lparr>ks_bytes := ks_bytes s - kc_val_size i s + of_nat (length value)\<rparr>
         in Some (LruPushFront i (LruRemove i s1)))
     | None \<Rightarrow>
         (if kc_full value s
          then do {
            (s1, freed) \<leftarrow> kc_Evict hs s;
            if freed = None then Some s1
            else kc_insert_new hs key value ts freed (s1\<lparr>ks_count := ks_count s1 - 1\<rparr>)
          }
          else kc_insert_new hs key value ts None s)
   }"

definition kc_Erase_nolock :: "(bytes \<Rightarrow> u64) \<Rightarrow> bytes \<Rightarrow> kc_shard \<Rightarrow> kc_shard option" where
  "kc_Erase_nolock hs key s = do {
     slot \<leftarrow> kc_FindSlot key (kc_hash hs key) s;
     case slot of
       None \<Rightarrow> Some s
     | Some sl \<Rightarrow> (let i = the (snd (ks_buckets s ! sl))
         in Some (kc_clear_bucket sl (LruRemove i (s\<lparr>ks_bytes := ks_bytes s - kc_val_size i s\<rparr>))))
   }"

definition kc_Clear_shard :: "kc_shard \<Rightarrow> kc_shard" where
  "kc_Clear_shard s = s\<lparr>ks_count := 0, ks_bytes := 0, ks_head := None, ks_tail := None,
     ks_buckets := map (\<lambda>(h, _). (h, None)) (ks_buckets s)\<rparr>"

section \<open>The sharded cache\<close>

type_synonym kv_cache = "kc_shard list"

definition kc_new :: "nat \<Rightarrow> nat \<Rightarrow> nat \<Rightarrow> kv_cache" where
  "kc_new max_entries max_bytes num_shards =
     replicate num_shards (kc_Init (max 1 (max_entries div num_shards)) (max 1 (max_bytes div num_shards)))"

definition ShardForKey :: "(bytes \<Rightarrow> u64) \<Rightarrow> bytes \<Rightarrow> kv_cache \<Rightarrow> nat" where
  "ShardForKey hs key c = unat (hs key) mod length c"

definition kc_Get :: "(bytes \<Rightarrow> u64) \<Rightarrow> bytes \<Rightarrow> u64 \<Rightarrow> kv_cache \<Rightarrow> (kv_cache \<times> bytes option) option" where
  "kc_Get hs key read_ts c = (let i = ShardForKey hs key c
     in map_option (\<lambda>(s, r). (c[i := s], r)) (kc_Get_nolock hs key read_ts (c ! i)))"

definition kc_Put :: "(bytes \<Rightarrow> u64) \<Rightarrow> bytes \<Rightarrow> bytes \<Rightarrow> u64 \<Rightarrow> kv_cache \<Rightarrow> kv_cache option" where
  "kc_Put hs key value ts c =
     (if length value > kPageSize div 2 then Some c
      else let i = ShardForKey hs key c in map_option (\<lambda>s. c[i := s]) (kc_Put_nolock hs key value ts (c ! i)))"

definition kc_Erase :: "(bytes \<Rightarrow> u64) \<Rightarrow> bytes \<Rightarrow> kv_cache \<Rightarrow> kv_cache option" where
  "kc_Erase hs key c = (let i = ShardForKey hs key c in map_option (\<lambda>s. c[i := s]) (kc_Erase_nolock hs key (c ! i)))"

definition kc_Size :: "kv_cache \<Rightarrow> nat" where
  "kc_Size c = sum_list (map ks_count c)"

definition kc_Clear :: "kv_cache \<Rightarrow> kv_cache" where
  "kc_Clear c = map kc_Clear_shard c"

section \<open>Well-formed shards\<close>

text \<open>An entry has at most one bucket, and only entries below the counter have one.\<close>

definition kc_uniq :: "(u32 \<times> nat option) list \<Rightarrow> nat \<Rightarrow> bool" where
  "kc_uniq bs c \<longleftrightarrow> (\<forall>i < length bs. \<forall>j. snd (bs ! i) = Some j \<longrightarrow> j < c)
     \<and> (\<forall>i < length bs. \<forall>i' < length bs. \<forall>j. snd (bs ! i) = Some j \<longrightarrow> snd (bs ! i') = Some j \<longrightarrow> i = i')"

definition kc_wf :: "kc_shard \<Rightarrow> bool" where
  "kc_wf s \<longleftrightarrow> kc_uniq (ks_buckets s) (ks_count s) \<and> ks_count s \<le> ks_max_entries s \<and> 0 < ks_max_entries s
     \<and> ks_max_entries s * 2 \<le> length (ks_buckets s) \<and> length (ks_entries s) = ks_max_entries s"

lemma kc_bucket_count_ge: "0 < bc \<Longrightarrow> per_e * 2 \<le> kc_bucket_count per_e bc"
  by (induction per_e bc rule: kc_bucket_count.induct) (subst kc_bucket_count.simps, auto)

lemma kc_wf_Init: "0 < per_e \<Longrightarrow> kc_wf (kc_Init per_e per_b)"
  using kc_bucket_count_ge [of 1 per_e] by (simp add: kc_wf_def kc_Init_def kc_uniq_def)

lemma kc_uniq_empty:
  assumes "kc_uniq bs c" and "c < length bs"
  shows "\<exists>i < length bs. snd (bs ! i) = None"
proof (rule ccontr)
  assume a: "\<not> ?thesis"
  let ?f = "\<lambda>i. the (snd (bs ! i))"
  have f: "snd (bs ! i) = Some (?f i)" if "i < length bs" for i using a that by (cases "snd (bs ! i)") auto
  have "inj_on ?f {..<length bs}"
  proof (rule inj_onI)
    fix i i' assume "i \<in> {..<length bs}" "i' \<in> {..<length bs}" "?f i = ?f i'"
    with f [of i] f [of i'] assms(1) show "i = i'" unfolding kc_uniq_def by simp
  qed
  moreover have "?f ` {..<length bs} \<subseteq> {..<c}"
  proof (rule image_subsetI)
    fix i assume "i \<in> {..<length bs}"
    with f [of i] assms(1) show "?f i \<in> {..<c}" unfolding kc_uniq_def by simp
  qed
  ultimately have "card {..<length bs} \<le> card {..<c}" by (intro card_inj_on_le [of ?f]) auto
  with assms(2) show False by simp
qed

lemma kc_reach_index:
  assumes "i < n" and "p < n"
  shows "\<exists>d < n. (i + d) mod n = (p :: nat)"
proof (cases "i \<le> p")
  case True
  with assms show ?thesis by (intro exI [of _ "p - i"]) auto
next
  case False
  with assms show ?thesis by (intro exI [of _ "n + p - i"]) auto
qed

lemma kc_free_some:
  "\<exists>d < m. snd (bs ! ((i + d) mod length bs)) = None \<Longrightarrow> i < length bs
   \<Longrightarrow> \<exists>k. kc_free m bs i = Some k \<and> k < length bs \<and> snd (bs ! k) = None"
proof (induction m arbitrary: i)
  case (Suc m)
  show ?case
  proof (cases "snd (bs ! i) = None")
    case True
    with Suc.prems show ?thesis by auto
  next
    case False
    from Suc.prems(1) obtain d where d: "d < Suc m" "snd (bs ! ((i + d) mod length bs)) = None" by blast
    with False Suc.prems(2) obtain d' where "d = Suc d'" by (cases d) auto
    with d have "d' < m" "snd (bs ! (((i + 1) mod length bs + d') mod length bs)) = None" by (simp_all add: mod_add_left_eq)
    moreover have "(i + 1) mod length bs < length bs" using Suc.prems(2) by (intro mod_less_divisor) linarith
    ultimately have "\<exists>k. kc_free m bs ((i + 1) mod length bs) = Some k \<and> k < length bs \<and> snd (bs ! k) = None" using Suc.IH by blast
    with False show ?thesis by auto
  qed
qed simp

lemma kc_probe_free:
  "kc_free m bs i = Some k \<Longrightarrow> \<exists>r. kc_probe m bs es key h i = Some r \<and> (\<forall>l. r = Some l \<longrightarrow> snd (bs ! l) \<noteq> None)"
  by (induction m arbitrary: i) (auto split: prod.splits option.splits if_splits)

lemma kc_probe_range: "kc_probe m bs es key h i = Some (Some l) \<Longrightarrow> i < length bs \<Longrightarrow> l < length bs"
proof (induction m arbitrary: i)
  case (Suc m)
  have "(i + 1) mod length bs < length bs" using Suc.prems(2) by (intro mod_less_divisor) linarith
  with Suc show ?case by (auto split: prod.splits option.splits if_splits)
qed simp

lemma kc_probe_found:
  "kc_probe m bs es key h i = Some (Some l) \<Longrightarrow> \<exists>j. bs ! l = (h, Some j) \<and> ke_key (es ! j) = key"
  by (induction m arbitrary: i) (auto split: prod.splits option.splits if_splits)

text \<open>A new entry in the first empty bucket of its path is found, and emptying a bucket leaves an absent key absent.\<close>

lemma kc_probe_placed:
  assumes "kc_free m bs i = Some k" and "kc_probe m bs es key h i = Some None" and "i < length bs"
    and "\<forall>l < length bs. \<forall>j. snd (bs ! l) = Some j \<longrightarrow> j \<noteq> idx" and "\<forall>j. j \<noteq> idx \<longrightarrow> ke_key (es' ! j) = ke_key (es ! j)"
    and "ke_key (es' ! idx) = key"
  shows "kc_probe m (bs[k := (h, Some idx)]) es' key h i = Some (Some k)"
  using assms(1-3)
proof (induction m arbitrary: i)
  case (Suc m)
  show ?case
  proof (cases "snd (bs ! i)")
    case None
    then have "k = i" using Suc.prems(1) by simp
    with Suc.prems(3) assms(6) show ?thesis by simp
  next
    case (Some j)
    then have f: "kc_free m bs ((i + 1) mod length bs) = Some k" using Suc.prems(1) by simp
    obtain bh where b: "bs ! i = (bh, Some j)" using Some by (cases "bs ! i") auto
    have j: "j \<noteq> idx" using assms(4) Suc.prems(3) Some by blast
    have nm: "\<not> (bh = h \<and> ke_key (es ! j) = key)" and p: "kc_probe m bs es key h ((i + 1) mod length bs) = Some None"
      using Suc.prems(2) b by (auto split: if_splits)
    have "(i + 1) mod length bs < length bs" using Suc.prems(3) by (intro mod_less_divisor) linarith
    from Suc.IH [OF f p this] have IH: "kc_probe m (bs[k := (h, Some idx)]) es' key h ((i + 1) mod length bs) = Some (Some k)" .
    have "ke_key (es' ! j) = ke_key (es ! j)" using assms(5) j by blast
    show ?thesis
    proof (cases "k = i")
      case True
      with Suc.prems(3) assms(6) show ?thesis by simp
    next
      case False
      with b nm IH \<open>ke_key (es' ! j) = _\<close> show ?thesis by auto
    qed
  qed
qed simp

lemma kc_probe_cleared:
  assumes "kc_probe m bs es key h i = Some None" and "i < length bs"
  shows "kc_probe m (bs[k := (b, None)]) es key h i = Some None"
  using assms
proof (induction m arbitrary: i)
  case (Suc m)
  have "(i + 1) mod length bs < length bs" using Suc.prems(2) by (intro mod_less_divisor) linarith
  with Suc show ?case by (cases "k = i") (auto split: prod.splits option.splits if_splits)
qed simp

section \<open>The operations keep shards well formed and end\<close>

lemma lru_fields [simp]:
  "ks_buckets (upd_entry i f s) = ks_buckets s" "ks_count (upd_entry i f s) = ks_count s"
  "ks_max_entries (upd_entry i f s) = ks_max_entries s" "length (ks_entries (upd_entry i f s)) = length (ks_entries s)"
  "ks_buckets (LruRemove i s) = ks_buckets s" "ks_count (LruRemove i s) = ks_count s"
  "ks_max_entries (LruRemove i s) = ks_max_entries s" "length (ks_entries (LruRemove i s)) = length (ks_entries s)"
  "ks_buckets (LruPushFront i s) = ks_buckets s" "ks_count (LruPushFront i s) = ks_count s"
  "ks_max_entries (LruPushFront i s) = ks_max_entries s" "length (ks_entries (LruPushFront i s)) = length (ks_entries s)"
  by (simp_all add: upd_entry_def LruRemove_def LruPushFront_def Let_def split: option.split)

text \<open>The list operations change nothing but the links.\<close>

definition ke_data :: "kc_entry \<Rightarrow> bytes \<times> bytes \<times> u64" where
  "ke_data e = (ke_key e, ke_value e, ke_ts e)"

lemma ke_data_upd: "(\<And>e. ke_data (f e) = ke_data e) \<Longrightarrow> ke_data (ks_entries (upd_entry j f s) ! i) = ke_data (ks_entries s ! i)"
  by (cases "i < length (ks_entries s)"; cases "i = j") (auto simp: upd_entry_def list_update_beyond nth_list_update)

lemma ke_data_links [simp]: "ke_data (ke_next_update f e) = ke_data e" "ke_data (ke_prev_update f e) = ke_data e"
  by (simp_all add: ke_data_def)

lemma lru_data [simp]:
  "ke_data (ks_entries (LruRemove i s) ! j) = ke_data (ks_entries s ! j)"
  "ke_data (ks_entries (LruPushFront i s) ! j) = ke_data (ks_entries s ! j)"
  by (simp_all add: LruRemove_def LruPushFront_def Let_def ke_data_upd split: option.split)

lemma kc_home_less: "bs \<noteq> [] \<Longrightarrow> kc_home h bs < length bs"
  by (simp add: kc_home_def)

lemma kc_wf_empty:
  assumes "kc_wf s"
  shows "\<exists>k. kc_free (length (ks_buckets s)) (ks_buckets s) (kc_home h (ks_buckets s)) = Some k \<and> k < length (ks_buckets s) \<and> snd (ks_buckets s ! k) = None"
proof -
  have l: "ks_count s < length (ks_buckets s)" "ks_buckets s \<noteq> []" using assms by (auto simp: kc_wf_def)
  then obtain p where p: "p < length (ks_buckets s)" "snd (ks_buckets s ! p) = None"
    using kc_uniq_empty [of "ks_buckets s" "ks_count s"] assms by (auto simp: kc_wf_def)
  note hm = kc_home_less [OF l(2), of h]
  from kc_reach_index [OF hm p(1)] p(2) show ?thesis by (intro kc_free_some hm) auto
qed

lemma kc_FindSlot_returns:
  assumes "kc_wf s"
  shows "\<exists>r. kc_FindSlot key h s = Some r"
    "kc_FindSlot key h s = Some (Some sl) \<Longrightarrow> \<exists>j. sl < length (ks_buckets s) \<and> ks_buckets s ! sl = (h, Some j) \<and> j < ks_count s \<and> ke_key (ks_entries s ! j) = key"
proof -
  show "\<exists>r. kc_FindSlot key h s = Some r" using kc_wf_empty [OF assms, of h] kc_probe_free unfolding kc_FindSlot_def by metis
  assume a: "kc_FindSlot key h s = Some (Some sl)"
  have "ks_buckets s \<noteq> []" using assms by (auto simp: kc_wf_def)
  then have "sl < length (ks_buckets s)" using a kc_probe_range kc_home_less unfolding kc_FindSlot_def by metis
  with kc_probe_found [OF a [unfolded kc_FindSlot_def]] assms
  show "\<exists>j. sl < length (ks_buckets s) \<and> ks_buckets s ! sl = (h, Some j) \<and> j < ks_count s \<and> ke_key (ks_entries s ! j) = key"
    by (auto simp: kc_wf_def kc_uniq_def)
qed

lemma kc_uniq_clear: "kc_uniq bs c \<Longrightarrow> kc_uniq (bs[i := (h, None)]) c"
  unfolding kc_uniq_def by (cases "i < length bs") (auto simp: nth_list_update list_update_beyond split: if_splits)

lemma kc_uniq_place:
  assumes "kc_uniq bs c" and "c \<le> c'" and "j < c'" and "\<forall>i < length bs. snd (bs ! i) \<noteq> Some j"
  shows "kc_uniq (bs[k := (h, Some j)]) c'"
proof (cases "k < length bs")
  case True
  with assms show ?thesis unfolding kc_uniq_def
    by (intro conjI allI impI; elim conjE) (auto simp: nth_list_update split: if_splits)
next
  case False
  with assms show ?thesis unfolding kc_uniq_def by (auto simp: list_update_beyond)
qed

text \<open>The state before a new entry is placed: \<open>idx\<close> has no bucket.\<close>

definition kc_ready :: "nat option \<Rightarrow> kc_shard \<Rightarrow> bool" where
  "kc_ready freed s \<longleftrightarrow> kc_uniq (ks_buckets s) (ks_count s + (if freed = None then 0 else 1)) \<and> ks_count s < ks_max_entries s
     \<and> ks_max_entries s * 2 \<le> length (ks_buckets s) \<and> length (ks_entries s) = ks_max_entries s
     \<and> (\<forall>i < length (ks_buckets s). snd (ks_buckets s ! i) \<noteq> Some (case freed of None \<Rightarrow> ks_count s | Some j \<Rightarrow> j))
     \<and> (\<forall>j. freed = Some j \<longrightarrow> j \<le> ks_count s)"

lemma kc_insert_new_ok:
  assumes "kc_ready freed s"
  shows "\<exists>s'. kc_insert_new hs key value ts freed s = Some s' \<and> kc_wf s'"
    "kc_FindSlot key (kc_hash hs key) s = Some None \<Longrightarrow> kc_insert_new hs key value ts freed s = Some s' \<Longrightarrow>
      \<exists>sl idx. kc_FindSlot key (kc_hash hs key) s' = Some (Some sl) \<and> snd (ks_buckets s' ! sl) = Some idx
        \<and> ke_data (ks_entries s' ! idx) = (key, value, ts)"
proof -
  let ?idx = "case freed of None \<Rightarrow> ks_count s | Some i \<Rightarrow> i" and ?bs = "ks_buckets s" and ?h = "kc_hash hs key"
  let ?new = "\<lparr>ke_value = value, ke_key = key, ke_ts = ts, ke_prev = None, ke_next = None\<rparr>"
  have R: "kc_uniq ?bs (ks_count s + (if freed = None then 0 else 1))" "ks_count s < ks_max_entries s"
    "ks_max_entries s * 2 \<le> length ?bs" "length (ks_entries s) = ks_max_entries s"
    "\<forall>i < length ?bs. snd (?bs ! i) \<noteq> Some ?idx" "?idx \<le> ks_count s"
    using assms by (auto simp: kc_ready_def split: option.splits)
  have nr: "\<not> ks_count s * 2 \<ge> length ?bs" using R(2,3) by simp
  have ne: "?bs \<noteq> []" using R(2,3) by auto
  have "ks_count s + (if freed = None then 0 else 1) < length ?bs" using R(2,3) by auto
  from kc_uniq_empty [OF R(1) this] obtain p where "p < length ?bs" "snd (?bs ! p) = None" by blast
  with kc_reach_index [OF kc_home_less [OF ne, of ?h]] obtain k where
    k: "kc_free (length ?bs) ?bs (kc_home ?h ?bs) = Some k" "k < length ?bs" "snd (?bs ! k) = None"
    using kc_free_some [OF _ kc_home_less [OF ne, of ?h]] by metis
  define s2 where "s2 = LruPushFront ?idx ((upd_entry ?idx (\<lambda>_. ?new) (s\<lparr>ks_count := ks_count s + 1\<rparr>))\<lparr>ks_buckets := ?bs[k := (?h, Some ?idx)]\<rparr>)"
  have ins: "kc_insert_new hs key value ts freed s = Some (s2\<lparr>ks_bytes := ks_bytes s2 + of_nat (length value)\<rparr>)"
    using nr k(1) unfolding s2_def kc_insert_new_def by (simp add: kc_place_def Let_def)
  have "kc_uniq (?bs[k := (?h, Some ?idx)]) (ks_count s + 1)"
    using R(1,5,6) by (intro kc_uniq_place [where c = "ks_count s + (if freed = None then 0 else 1)"]) auto
  then have "kc_wf (s2\<lparr>ks_bytes := ks_bytes s2 + of_nat (length value)\<rparr>)" using R(2-4) unfolding s2_def kc_wf_def by simp
  with ins show "\<exists>s'. kc_insert_new hs key value ts freed s = Some s' \<and> kc_wf s'" by blast
  assume a: "kc_FindSlot key ?h s = Some None" "kc_insert_new hs key value ts freed s = Some s'"
  have s': "ks_buckets s' = ?bs[k := (?h, Some ?idx)]" "ks_entries s' = ks_entries s2" using a(2) ins unfolding s2_def by auto
  have d: "ke_data (ks_entries s2 ! j) = (if j = ?idx then (key, value, ts) else ke_data (ks_entries s ! j))" for j
    using R(2,4,6) unfolding s2_def by (simp add: upd_entry_def nth_list_update) (simp add: ke_data_def)
  have "kc_probe (length ?bs) (?bs[k := (?h, Some ?idx)]) (ks_entries s2) key ?h (kc_home ?h ?bs) = Some (Some k)"
  proof (rule kc_probe_placed [OF k(1) _ kc_home_less [OF ne]])
    show "kc_probe (length ?bs) ?bs (ks_entries s) key ?h (kc_home ?h ?bs) = Some None" using a(1) by (simp add: kc_FindSlot_def)
    show "\<forall>l < length ?bs. \<forall>j. snd (?bs ! l) = Some j \<longrightarrow> j \<noteq> ?idx" using R(5) by auto
    show "\<forall>j. j \<noteq> ?idx \<longrightarrow> ke_key (ks_entries s2 ! j) = ke_key (ks_entries s ! j)" using d by (metis ke_data_def prod.inject)
    show "ke_key (ks_entries s2 ! ?idx) = key" using d [of ?idx] by (simp add: ke_data_def)
  qed
  then show "\<exists>sl idx. kc_FindSlot key ?h s' = Some (Some sl) \<and> snd (ks_buckets s' ! sl) = Some idx
      \<and> ke_data (ks_entries s' ! idx) = (key, value, ts)"
    using s' d [of ?idx] k(2) by (intro exI [of _ k] exI [of _ ?idx]) (simp add: kc_FindSlot_def kc_home_def)
qed

lemma kc_probe_cong:
  "(\<And>j. ke_key (es ! j) = ke_key (es' ! j)) \<Longrightarrow> kc_probe m bs es key h i = kc_probe m bs es' key h i"
  by (induction m arbitrary: i) (auto split: prod.split option.split)

lemma kc_FindSlot_cong:
  "ks_buckets s = ks_buckets s' \<Longrightarrow> (\<And>j. ke_data (ks_entries s ! j) = ke_data (ks_entries s' ! j)) \<Longrightarrow> kc_FindSlot key h s = kc_FindSlot key h s'"
  unfolding kc_FindSlot_def by (auto simp: ke_data_def intro!: kc_probe_cong)

lemma kc_Evict_ok:
  assumes "kc_wf s"
  obtains s' r where "kc_Evict hs s = Some (s', r)"
    "r = None \<longrightarrow> kc_wf s' \<and> (\<forall>key h. kc_FindSlot key h s' = kc_FindSlot key h s)"
    "r \<noteq> None \<longrightarrow> kc_ready r (s'\<lparr>ks_count := ks_count s' - 1\<rparr>)
       \<and> (\<forall>key h. kc_FindSlot key h s = Some None \<longrightarrow> kc_FindSlot key h (s'\<lparr>ks_count := ks_count s' - 1\<rparr>) = Some None)"
proof (cases "ks_tail s")
  case None
  with assms show ?thesis by (intro that [of s None]) (auto simp: kc_Evict_def)
next
  case (Some t)
  let ?k = "ke_key (ks_entries s ! t)"
  obtain r where r: "kc_FindSlot ?k (kc_hash hs ?k) s = Some r" using kc_FindSlot_returns(1) [OF assms] by blast
  show ?thesis
  proof (cases r)
    case None
    then have "kc_Evict hs s = Some (LruRemove t s, None)" using Some r by (simp add: kc_Evict_def Let_def)
    moreover have "kc_wf (LruRemove t s)" using assms by (simp add: kc_wf_def)
    moreover have "kc_FindSlot key h (LruRemove t s) = kc_FindSlot key h s" for key h by (intro kc_FindSlot_cong) simp_all
    ultimately show ?thesis by (intro that) auto
  next
    case sl: (Some sl)
    then obtain j where j: "sl < length (ks_buckets s)" "snd (ks_buckets s ! sl) = Some j" "j < ks_count s"
      using kc_FindSlot_returns(2) [OF assms] r by fastforce
    let ?b = "fst (ks_buckets s ! sl)"
    let ?s1 = "LruRemove t (kc_clear_bucket sl (s\<lparr>ks_bytes := ks_bytes s - kc_val_size t s\<rparr>))"
    have ev: "kc_Evict hs s = Some (?s1, Some j)" using Some r sl j(2) by (simp add: kc_Evict_def Let_def)
    have bs: "ks_buckets ?s1 = (ks_buckets s)[sl := (?b, None)]" "ks_count ?s1 = ks_count s" "ks_max_entries ?s1 = ks_max_entries s"
      "length (ks_entries ?s1) = length (ks_entries s)" "\<And>i. ke_data (ks_entries ?s1 ! i) = ke_data (ks_entries s ! i)"
      by (simp_all add: kc_clear_bucket_def)
    have W: "kc_uniq (ks_buckets s) (ks_count s)" "ks_count s \<le> ks_max_entries s" "ks_max_entries s * 2 \<le> length (ks_buckets s)"
      "length (ks_entries s) = ks_max_entries s" using assms by (auto simp: kc_wf_def)
    have nj: "snd ((ks_buckets s)[sl := (?b, None)] ! i) \<noteq> Some j" if "i < length (ks_buckets s)" for i
    proof (cases "i = sl")
      case False
      with W(1) j that show ?thesis by (auto simp: kc_uniq_def)
    qed (use j in simp)
    have "kc_uniq (ks_buckets ?s1) (ks_count s)" unfolding bs(1) using W(1) by (rule kc_uniq_clear)
    moreover have "ks_count s - 1 + 1 = ks_count s" "ks_count s - 1 < ks_max_entries s" "j \<le> ks_count s - 1" using j(3) W(2) by auto
    moreover have "\<forall>i < length (ks_buckets ?s1). snd (ks_buckets ?s1 ! i) \<noteq> Some j" unfolding bs(1) using nj by simp
    ultimately have rd: "kc_ready (Some j) (?s1\<lparr>ks_count := ks_count ?s1 - 1\<rparr>)"
      unfolding kc_ready_def using bs W by simp
    have fs: "kc_FindSlot key h (?s1\<lparr>ks_count := ks_count ?s1 - 1\<rparr>) = Some None" if "kc_FindSlot key h s = Some None" for key h
    proof -
      have "kc_home h (ks_buckets s) < length (ks_buckets s)" using j(1) by (intro kc_home_less) auto
      from kc_probe_cleared [OF that [unfolded kc_FindSlot_def] this, of sl ?b]
      have "kc_FindSlot key h (s\<lparr>ks_buckets := (ks_buckets s)[sl := (?b, None)]\<rparr>) = Some None" by (simp add: kc_FindSlot_def kc_home_def)
      moreover have "kc_FindSlot key h (?s1\<lparr>ks_count := ks_count ?s1 - 1\<rparr>) = kc_FindSlot key h (s\<lparr>ks_buckets := (ks_buckets s)[sl := (?b, None)]\<rparr>)"
        using bs by (intro kc_FindSlot_cong) simp_all
      ultimately show ?thesis by simp
    qed
    show ?thesis by (rule that [OF ev]) (use rd fs in auto)
  qed
qed

text \<open>What a lookup finds, without the effect on the order of use.\<close>

definition kc_stored :: "(bytes \<Rightarrow> u64) \<Rightarrow> bytes \<Rightarrow> kc_shard \<Rightarrow> (bytes \<times> u64) option" where
  "kc_stored hs key s = (case kc_FindSlot key (kc_hash hs key) s of
     Some (Some sl) \<Rightarrow> (let e = ks_entries s ! the (snd (ks_buckets s ! sl)) in Some (ke_value e, ke_ts e)) | _ \<Rightarrow> None)"

lemma kc_Put_nolock_ok:
  assumes "kc_wf s"
  shows "\<exists>s'. kc_Put_nolock hs key value ts s = Some s' \<and> kc_wf s' \<and> (kc_stored hs key s' = Some (value, ts) \<or> kc_stored hs key s' = None \<and> kc_full value s)"
proof -
  let ?h = "kc_hash hs key"
  obtain r where r: "kc_FindSlot key ?h s = Some r" using kc_FindSlot_returns(1) [OF assms] by blast
  have stored: "kc_stored hs key s' = Some (value, ts)"
    if "kc_FindSlot key ?h s = Some None" "kc_insert_new hs key value ts fr s = Some s'" "kc_ready fr s" for s s' fr
    using kc_insert_new_ok(2) [OF that(3,1,2)] by (auto simp: kc_stored_def ke_data_def Let_def)
  show ?thesis
  proof (cases r)
    case (Some sl)
    then obtain j where j: "ks_buckets s ! sl = (?h, Some j)" "j < ks_count s" "ke_key (ks_entries s ! j) = key"
      using kc_FindSlot_returns(2) [OF assms] r by blast
    let ?s1 = "(upd_entry j (\<lambda>e. e\<lparr>ke_value := value, ke_ts := ts\<rparr>) s)\<lparr>ks_bytes := ks_bytes s - kc_val_size j s + of_nat (length value)\<rparr>"
    let ?s2 = "LruPushFront j (LruRemove j ?s1)"
    have put: "kc_Put_nolock hs key value ts s = Some ?s2" using r Some j by (simp add: kc_Put_nolock_def Let_def)
    have jl: "j < length (ks_entries s)" using assms j(2) by (auto simp: kc_wf_def)
    have d: "ke_data (ks_entries ?s2 ! i) = (if i = j then (key, value, ts) else ke_data (ks_entries s ! i))" for i
      using jl j(3) by (simp add: upd_entry_def nth_list_update) (simp add: ke_data_def)
    have "fst (ke_data (ks_entries s ! i)) = fst (ke_data (ks_entries ?s2 ! i))" for i unfolding d using j(3) by (simp add: ke_data_def)
    then have "ke_key (ks_entries s ! i) = ke_key (ks_entries ?s2 ! i)" for i by (simp only: ke_data_def fst_conv)
    then have "kc_FindSlot key ?h ?s2 = kc_FindSlot key ?h s" unfolding kc_FindSlot_def by (auto intro!: kc_probe_cong simp del: lru_data)
    then have "kc_stored hs key ?s2 = Some (value, ts)" using r Some j(1) d [of j] by (simp add: kc_stored_def Let_def ke_data_def)
    moreover have "kc_wf ?s2" using assms by (simp add: kc_wf_def)
    ultimately show ?thesis using put by blast
  next
    case None
    note abs = r [unfolded None]
    show ?thesis
    proof (cases "kc_full value s")
      case False
      then have "kc_ready None s" using assms by (auto simp: kc_ready_def kc_wf_def kc_full_def kc_uniq_def)
      from kc_insert_new_ok(1) [OF this] stored [OF abs _ this] abs False show ?thesis by (force simp: kc_Put_nolock_def)
    next
      case True
      obtain s1 f where e: "kc_Evict hs s = Some (s1, f)" "f = None \<longrightarrow> kc_wf s1 \<and> (\<forall>key h. kc_FindSlot key h s1 = kc_FindSlot key h s)"
        "f \<noteq> None \<longrightarrow> kc_ready f (s1\<lparr>ks_count := ks_count s1 - 1\<rparr>)
           \<and> (\<forall>key h. kc_FindSlot key h s = Some None \<longrightarrow> kc_FindSlot key h (s1\<lparr>ks_count := ks_count s1 - 1\<rparr>) = Some None)"
        by (rule kc_Evict_ok [OF assms])
      show ?thesis
      proof (cases f)
        case None
        then have "kc_Put_nolock hs key value ts s = Some s1" using abs True e(1) by (simp add: kc_Put_nolock_def)
        moreover have "kc_stored hs key s1 = None" using e(2) None abs by (simp add: kc_stored_def)
        ultimately show ?thesis using e(2) None True by simp
      next
        case (Some j)
        let ?s2 = "s1\<lparr>ks_count := ks_count s1 - 1\<rparr>"
        have rd: "kc_ready f ?s2" and a: "kc_FindSlot key ?h ?s2 = Some None" using e(3) Some abs by auto
        have "kc_Put_nolock hs key value ts s = kc_insert_new hs key value ts f ?s2"
          using abs True e(1) Some by (simp add: kc_Put_nolock_def)
        with kc_insert_new_ok(1) [OF rd] stored [OF a _ rd] show ?thesis by metis
      qed
    qed
  qed
qed

lemma kc_Get_nolock_ok:
  assumes "kc_wf s"
  shows "\<exists>s'. kc_Get_nolock hs key read_ts s = Some (s', case kc_stored hs key s of
      Some (v, ts) \<Rightarrow> if ts \<le> read_ts then Some v else None | None \<Rightarrow> None) \<and> kc_wf s'"
proof -
  obtain r where r: "kc_FindSlot key (kc_hash hs key) s = Some r" using kc_FindSlot_returns(1) [OF assms] by blast
  have "kc_wf (LruPushFront i (LruRemove i s))" for i using assms by (simp add: kc_wf_def)
  then show ?thesis using r assms by (cases r) (auto simp: kc_Get_nolock_def kc_stored_def Let_def not_less)
qed

lemma kc_Erase_nolock_ok:
  assumes "kc_wf s"
  shows "\<exists>s'. kc_Erase_nolock hs key s = Some s' \<and> kc_wf s'"
proof -
  obtain r where r: "kc_FindSlot key (kc_hash hs key) s = Some r" using kc_FindSlot_returns(1) [OF assms] by blast
  have "kc_wf (kc_clear_bucket sl (LruRemove i (s\<lparr>ks_bytes := x\<rparr>)))" for sl i x
    using assms kc_uniq_clear by (simp add: kc_wf_def kc_clear_bucket_def)
  then show ?thesis using r assms by (cases r) (auto simp: kc_Erase_nolock_def Let_def)
qed

section \<open>Properties\<close>

definition kc_ok :: "kv_cache \<Rightarrow> bool" where
  "kc_ok c \<longleftrightarrow> c \<noteq> [] \<and> list_all kc_wf c"

lemma kc_ok_shard:
  assumes "kc_ok c"
  shows "ShardForKey hs key c < length c" "kc_wf (c ! ShardForKey hs key c)"
    "kc_wf s \<Longrightarrow> kc_ok (c[ShardForKey hs key c := s])"
proof -
  show l: "ShardForKey hs key c < length c" using assms by (simp add: ShardForKey_def kc_ok_def)
  then show "kc_wf (c ! ShardForKey hs key c)" using assms by (simp add: kc_ok_def list_all_length)
  show "kc_wf s \<Longrightarrow> kc_ok (c[ShardForKey hs key c := s])"
    using assms l by (auto simp: kc_ok_def list_all_length nth_list_update)
qed

lemma kc_ok_new: "0 < n \<Longrightarrow> kc_ok (kc_new e b n)"
  by (simp add: kc_ok_def kc_new_def list_all_length kc_wf_Init)

lemma kc_Put_ok:
  assumes "kc_ok c" and "length value \<le> kPageSize div 2"
  shows "\<exists>c'. kc_Put hs key value ts c = Some c' \<and> kc_ok c' \<and> length c' = length c
    \<and> (kc_stored hs key (c' ! ShardForKey hs key c') = Some (value, ts)
       \<or> kc_stored hs key (c' ! ShardForKey hs key c') = None \<and> kc_full value (c ! ShardForKey hs key c))"
proof -
  note sh = kc_ok_shard [OF assms(1), where hs = hs and key = key]
  obtain s' where s: "kc_Put_nolock hs key value ts (c ! ShardForKey hs key c) = Some s'" "kc_wf s'"
    "kc_stored hs key s' = Some (value, ts) \<or> kc_stored hs key s' = None \<and> kc_full value (c ! ShardForKey hs key c)"
    using kc_Put_nolock_ok [OF sh(2)] by blast
  then have "kc_Put hs key value ts c = Some (c[ShardForKey hs key c := s'])" using assms(2) by (simp add: kc_Put_def Let_def)
  moreover have "ShardForKey hs key (c[ShardForKey hs key c := s']) = ShardForKey hs key c" by (simp add: ShardForKey_def)
  ultimately show ?thesis using s sh by simp
qed

text \<open>
  C31: in a cache that has been created and used in any way, every operation ends: the search for a bucket, which has no bound
  of its own, always meets an empty bucket, because at most half of the buckets are taken. The operations keep this so.
\<close>
theorem kv_cache_operations_end:
  assumes "kc_ok c"
  shows "(\<exists>c'. kc_Put hs key value ts c = Some c' \<and> kc_ok c') \<and> (\<exists>c' r. kc_Get hs key ts c = Some (c', r) \<and> kc_ok c')
    \<and> (\<exists>c'. kc_Erase hs key c = Some c' \<and> kc_ok c') \<and> kc_ok (kc_Clear c) \<and> (0 < n \<longrightarrow> kc_ok (kc_new e b n))"
proof (intro conjI impI)
  note sh = kc_ok_shard [OF assms, where hs = hs and key = key]
  show "\<exists>c'. kc_Put hs key value ts c = Some c' \<and> kc_ok c'"
    using kc_Put_ok [OF assms, of _ hs key ts] assms by (cases "length value \<le> kPageSize div 2") (auto simp: kc_Put_def)
  show "\<exists>c' r. kc_Get hs key ts c = Some (c', r) \<and> kc_ok c'"
    using kc_Get_nolock_ok [OF sh(2), of hs key ts] sh(3) by (auto simp: kc_Get_def Let_def)
  show "\<exists>c'. kc_Erase hs key c = Some c' \<and> kc_ok c'"
    using kc_Erase_nolock_ok [OF sh(2), of hs key] sh(3) by (auto simp: kc_Erase_def Let_def)
  have "kc_wf (kc_Clear_shard s)" if "kc_wf s" for s
    using that by (auto simp: kc_wf_def kc_Clear_shard_def kc_uniq_def case_prod_beta)
  then show "kc_ok (kc_Clear c)" using assms by (auto simp: kc_ok_def kc_Clear_def list_all_iff)
qed (rule kc_ok_new)

theorem kv_cache_operations_end_witness:
  "\<exists>c'. kc_Put (\<lambda>_. 5) [1] [2] 3 (kc_new 100 1000 4) = Some c' \<and> kc_ok c'"
  using kv_cache_operations_end [OF kc_ok_new [of 4 100 1000], of "\<lambda>_. 5" "[1]" "[2]" 3] by simp

text \<open>
  a lookup right after a small value was put returns that value, or misses the cache if the shard was full; it never returns an
  older one.
\<close>
theorem kv_cache_get_after_put:
  assumes "kc_ok c" and "length value \<le> kPageSize div 2" and "ts \<le> read_ts" and "kc_Put hs key value ts c = Some c'"
  shows "\<exists>c'' r. kc_Get hs key read_ts c' = Some (c'', r)
    \<and> (r = Some value \<or> r = None \<and> kc_full value (c ! ShardForKey hs key c))"
proof -
  have p: "kc_ok c'" "kc_stored hs key (c' ! ShardForKey hs key c') = Some (value, ts)
      \<or> kc_stored hs key (c' ! ShardForKey hs key c') = None \<and> kc_full value (c ! ShardForKey hs key c)"
    using kc_Put_ok [OF assms(1,2), of hs key ts] assms(4) by auto
  with kc_Get_nolock_ok [OF kc_ok_shard(2) [OF p(1), where hs = hs and key = key], where hs = hs and key = key and read_ts = read_ts] assms(3) show ?thesis
    by (auto simp: kc_Get_def Let_def)
qed

theorem kv_cache_get_after_put_witness:
  "\<exists>c'' r. kc_Get (\<lambda>_. 5) [1] 7 (the (kc_Put (\<lambda>_. 5) [1] [2] 3 (kc_new 100 1000 4))) = Some (c'', r)
    \<and> (r = Some [2] \<or> r = None \<and> kc_full [2] (kc_new 100 1000 4 ! ShardForKey (\<lambda>_. 5) [1] (kc_new 100 1000 4)))"
proof -
  have ok: "kc_ok (kc_new 100 1000 4)" by (simp add: kc_ok_new)
  from kc_Put_ok [OF this, of "[2]" "\<lambda>_. 5" "[1]" 3] obtain c' where c: "kc_Put (\<lambda>_. 5) [1] [2] 3 (kc_new 100 1000 4) = Some c'"
    by (auto simp: kPageSize_def)
  show ?thesis using kv_cache_get_after_put [OF ok, of "[2]" 3 7 "\<lambda>_. 5" "[1]" c'] c by (simp add: kPageSize_def)
qed

text \<open>
  a value of more than half a page is not cached, and the cached older value of its key stays: the lookup returns the older
  value at every later snapshot.
\<close>
theorem kv_cache_keeps_value_replaced_by_large_one:
  assumes "kc_ok c" and "kc_Put hs key small ts1 c = Some c1" and "length small \<le> kPageSize div 2" and "\<not> kc_full small (c ! ShardForKey hs key c)"
    and "kc_Put hs key large ts2 c1 = Some c2" and "length large > kPageSize div 2" and "ts1 \<le> ts2" and "ts2 \<le> read_ts"
  shows "\<exists>c3. kc_Get hs key read_ts c2 = Some (c3, Some small)"
proof -
  have p: "kc_ok c1" "kc_stored hs key (c1 ! ShardForKey hs key c1) = Some (small, ts1)"
    using kc_Put_ok [OF assms(1,3), of hs key ts1] assms(2,4) by auto
  have "c2 = c1" using assms(5,6) by (simp add: kc_Put_def)
  with kc_Get_nolock_ok [OF kc_ok_shard(2) [OF p(1), where hs = hs and key = key], where hs = hs and key = key and read_ts = read_ts] p(2) assms(7,8) show ?thesis
    by (auto simp: kc_Get_def Let_def)
qed

theorem kv_cache_keeps_value_replaced_by_large_one_witness:
  "\<exists>c3. kc_Get (\<lambda>_. 5) [1] 7 (the (kc_Put (\<lambda>_. 5) [1] (replicate 3000 9) 6 (the (kc_Put (\<lambda>_. 5) [1] [2] 3 (kc_new 100 1000 4))))) = Some (c3, Some [2])"
proof -
  have ok: "kc_ok (kc_new 100 1000 4)" by (simp add: kc_ok_new)
  from kc_Put_ok [OF this, of "[2]" "\<lambda>_. 5" "[1]" 3] obtain c' where c: "kc_Put (\<lambda>_. 5) [1] [2] 3 (kc_new 100 1000 4) = Some c'"
    by (auto simp: kPageSize_def)
  have nf: "\<not> kc_full [2] (kc_new 100 1000 4 ! ShardForKey (\<lambda>_. 5) [1] (kc_new 100 1000 4))"
    by (simp add: kc_full_def kc_new_def ShardForKey_def kc_Init_def)
  show ?thesis using kv_cache_keeps_value_replaced_by_large_one [OF ok c _ nf, of "replicate 3000 9" 6 c' 7] c by (simp add: kPageSize_def kc_Put_def)
qed

text \<open>Evaluation of probes with a numeral as bound.\<close>

lemma kc_probe_numeral:
  "kc_probe (numeral k) bs es key h i = (case bs ! i of (_, None) \<Rightarrow> Some None
     | (bh, Some j) \<Rightarrow> if bh = h \<and> ke_key (es ! j) = key then Some (Some i) else kc_probe (pred_numeral k) bs es key h ((i + 1) mod length bs))"
  "kc_free (numeral k) bs i = (if snd (bs ! i) = None then Some i else kc_free (pred_numeral k) bs ((i + 1) mod length bs))"
  by (simp_all add: numeral_eq_Suc)

definition kc_state :: "(u32 \<times> nat option) list \<Rightarrow> kc_entry list \<Rightarrow> nat option \<Rightarrow> nat option \<Rightarrow> nat \<Rightarrow> u64 \<Rightarrow> kc_shard" where
  "kc_state bs es front back n b = \<lparr>ks_buckets = bs @ replicate 6 (0, None), ks_entries = es @ replicate 1 \<lparr>ke_value = [], ke_key = [], ke_ts = 0, ke_prev = None, ke_next = None\<rparr>,
     ks_head = front, ks_tail = back, ks_count = n, ks_max_entries = 4, ks_max_bytes = 1000, ks_bytes = b\<rparr>"

abbreviation ke :: "bytes \<Rightarrow> bytes \<Rightarrow> u64 \<Rightarrow> nat option \<Rightarrow> nat option \<Rightarrow> kc_entry" where
  "ke k v ts p n \<equiv> \<lparr>ke_value = v, ke_key = k, ke_ts = ts, ke_prev = p, ke_next = n\<rparr>"

lemma kc_Init_4: "kc_Init 4 1000 = kc_state [(0, None), (0, None)] [ke [] [] 0 None None, ke [] [] 0 None None, ke [] [] 0 None None] None None 0 0"
  by (simp add: kc_Init_def kc_state_def kc_bucket_count.simps numeral_eq_Suc)

lemmas kc_eval = kc_state_def kc_FindSlot_def kc_home_def kc_probe_numeral kc_place_def kc_clear_bucket_def LruRemove_def
  LruPushFront_def upd_entry_def kc_val_size_def Let_def

lemma kc_erase_example:
  assumes "unat (kc_hash hs a) mod 8 = 0" and "unat (kc_hash hs b) mod 8 = 0" and "a \<noteq> b"
  shows "kc_Put_nolock hs a [10] 1 (kc_Init 4 1000) =
      Some (kc_state [(kc_hash hs a, Some 0), (0, None)] [ke a [10] 1 None None, ke [] [] 0 None None, ke [] [] 0 None None] (Some 0) (Some 0) 1 1)"
    "kc_Put_nolock hs b [20] 2 (kc_state [(kc_hash hs a, Some 0), (0, None)] [ke a [10] 1 None None, ke [] [] 0 None None, ke [] [] 0 None None] (Some 0) (Some 0) 1 1) =
      Some (kc_state [(kc_hash hs a, Some 0), (kc_hash hs b, Some 1)] [ke a [10] 1 (Some 1) None, ke b [20] 2 None (Some 0), ke [] [] 0 None None] (Some 1) (Some 0) 2 2)"
    "kc_Erase_nolock hs a (kc_state [(kc_hash hs a, Some 0), (kc_hash hs b, Some 1)] [ke a [10] 1 (Some 1) None, ke b [20] 2 None (Some 0), ke [] [] 0 None None] (Some 1) (Some 0) 2 2) =
      Some (kc_state [(kc_hash hs a, None), (kc_hash hs b, Some 1)] [ke a [10] 1 (Some 1) None, ke b [20] 2 None None, ke [] [] 0 None None] (Some 1) (Some 1) 2 1)"
    "kc_Erase_nolock hs b (kc_state [(kc_hash hs a, None), (kc_hash hs b, Some 1)] [ke a [10] 1 (Some 1) None, ke b [20] 2 None None, ke [] [] 0 None None] (Some 1) (Some 1) 2 1) =
      Some (kc_state [(kc_hash hs a, None), (kc_hash hs b, Some 1)] [ke a [10] 1 (Some 1) None, ke b [20] 2 None None, ke [] [] 0 None None] (Some 1) (Some 1) 2 1)"
    "kc_Put_nolock hs a [11] 3 (kc_state [(kc_hash hs a, None), (kc_hash hs b, Some 1)] [ke a [10] 1 (Some 1) None, ke b [20] 2 None None, ke [] [] 0 None None] (Some 1) (Some 1) 2 1) =
      Some (kc_state [(kc_hash hs a, Some 2), (kc_hash hs b, Some 1)] [ke a [10] 1 (Some 1) None, ke b [20] 2 (Some 2) None, ke a [11] 3 None (Some 1)] (Some 2) (Some 1) 3 2)"
    "\<exists>s. kc_Get_nolock hs b 9 (kc_state [(kc_hash hs a, Some 2), (kc_hash hs b, Some 1)] [ke a [10] 1 (Some 1) None, ke b [20] 2 (Some 2) None, ke a [11] 3 None (Some 1)] (Some 2) (Some 1) 3 2) = Some (s, Some [20])"
proof -
  show "kc_Put_nolock hs a [10] 1 (kc_Init 4 1000) =
      Some (kc_state [(kc_hash hs a, Some 0), (0, None)] [ke a [10] 1 None None, ke [] [] 0 None None, ke [] [] 0 None None] (Some 0) (Some 0) 1 1)"
    unfolding kc_Init_4 using assms by (simp add: kc_Put_nolock_def kc_insert_new_def kc_full_def kc_eval)
  show "kc_Put_nolock hs b [20] 2 (kc_state [(kc_hash hs a, Some 0), (0, None)] [ke a [10] 1 None None, ke [] [] 0 None None, ke [] [] 0 None None] (Some 0) (Some 0) 1 1) =
      Some (kc_state [(kc_hash hs a, Some 0), (kc_hash hs b, Some 1)] [ke a [10] 1 (Some 1) None, ke b [20] 2 None (Some 0), ke [] [] 0 None None] (Some 1) (Some 0) 2 2)"
    using assms by (simp add: kc_Put_nolock_def kc_insert_new_def kc_full_def kc_eval)
  show "kc_Erase_nolock hs a (kc_state [(kc_hash hs a, Some 0), (kc_hash hs b, Some 1)] [ke a [10] 1 (Some 1) None, ke b [20] 2 None (Some 0), ke [] [] 0 None None] (Some 1) (Some 0) 2 2) =
      Some (kc_state [(kc_hash hs a, None), (kc_hash hs b, Some 1)] [ke a [10] 1 (Some 1) None, ke b [20] 2 None None, ke [] [] 0 None None] (Some 1) (Some 1) 2 1)"
    using assms by (simp add: kc_Erase_nolock_def kc_eval)
  show "kc_Erase_nolock hs b (kc_state [(kc_hash hs a, None), (kc_hash hs b, Some 1)] [ke a [10] 1 (Some 1) None, ke b [20] 2 None None, ke [] [] 0 None None] (Some 1) (Some 1) 2 1) =
      Some (kc_state [(kc_hash hs a, None), (kc_hash hs b, Some 1)] [ke a [10] 1 (Some 1) None, ke b [20] 2 None None, ke [] [] 0 None None] (Some 1) (Some 1) 2 1)"
    using assms by (simp add: kc_Erase_nolock_def kc_eval)
  show "kc_Put_nolock hs a [11] 3 (kc_state [(kc_hash hs a, None), (kc_hash hs b, Some 1)] [ke a [10] 1 (Some 1) None, ke b [20] 2 None None, ke [] [] 0 None None] (Some 1) (Some 1) 2 1) =
      Some (kc_state [(kc_hash hs a, Some 2), (kc_hash hs b, Some 1)] [ke a [10] 1 (Some 1) None, ke b [20] 2 (Some 2) None, ke a [11] 3 None (Some 1)] (Some 2) (Some 1) 3 2)"
  proof -
    have "\<not> kc_full [11] (kc_state [(kc_hash hs a, None), (kc_hash hs b, Some 1)] [ke a [10] 1 (Some 1) None, ke b [20] 2 None None, ke [] [] 0 None None] (Some 1) (Some 1) 2 1)"
      by (simp add: kc_full_def kc_state_def)
    then show ?thesis using assms by (simp add: kc_Put_nolock_def kc_insert_new_def kc_eval numeral_2_eq_2)
  qed
  show "\<exists>s. kc_Get_nolock hs b 9 (kc_state [(kc_hash hs a, Some 2), (kc_hash hs b, Some 1)] [ke a [10] 1 (Some 1) None, ke b [20] 2 (Some 2) None, ke a [11] 3 None (Some 1)] (Some 2) (Some 1) 3 2) = Some (s, Some [20])"
    using assms by (simp add: kc_Get_nolock_def kc_eval)
qed

text \<open>
  \<open>Erase\<close> empties a bucket, which cuts the search paths that go through it. Two keys \<open>a\<close> and \<open>b\<close> with the same first bucket are put and
  erased, in this order; the second \<open>Erase\<close> does not find its key. When \<open>a\<close> is put again the path is
  restored, and a lookup of \<open>b\<close> returns the value that was erased.
\<close>
theorem kv_cache_erased_value_returns:
  assumes "unat (kc_hash hs a) mod 8 = 0" and "unat (kc_hash hs b) mod 8 = 0" and "a \<noteq> b"
  shows "\<exists>s. do { s1 \<leftarrow> kc_Put_nolock hs a [10] 1 (kc_Init 4 1000); s2 \<leftarrow> kc_Put_nolock hs b [20] 2 s1;
      s3 \<leftarrow> kc_Erase_nolock hs a s2; s4 \<leftarrow> kc_Erase_nolock hs b s3; s5 \<leftarrow> kc_Put_nolock hs a [11] 3 s4;
      kc_Get_nolock hs b 9 s5 } = Some (s, Some [20])"
  using kc_erase_example(6) [OF assms]
  unfolding kc_erase_example(1) [OF assms] bind.bind_lunit kc_erase_example(2-5) [OF assms] .

theorem kv_cache_erased_value_returns_witness:
  "\<exists>s. do { s1 \<leftarrow> kc_Put_nolock (\<lambda>_. 64) [1] [10] 1 (kc_Init 4 1000); s2 \<leftarrow> kc_Put_nolock (\<lambda>_. 64) [2] [20] 2 s1;
      s3 \<leftarrow> kc_Erase_nolock (\<lambda>_. 64) [1] s2; s4 \<leftarrow> kc_Erase_nolock (\<lambda>_. 64) [2] s3; s5 \<leftarrow> kc_Put_nolock (\<lambda>_. 64) [1] [11] 3 s4;
      kc_Get_nolock (\<lambda>_. 64) [2] 9 s5 } = Some (s, Some [20])"
  by (rule kv_cache_erased_value_returns) (simp_all add: kc_hash_def)

end
