(* ===== verification/Compaction.thy ===== *)
theory Compaction
  imports Sstable
begin

text \<open>
  \<open>SSTable::Compact\<close> of \<^verbatim>\<open>src/sstable.cpp\<close>: the merge of several tables, key by key, and the
  splitting of the merged entries into output tables. A source iterator is the list of the
  entries it still has to deliver; sources that deliver nothing are left out, as in the code.
\<close>

section \<open>The merge\<close>

text \<open>The source with the least current key, the first one among equals: \<^verbatim>\<open>best\<close>.\<close>

fun cmp_best :: "KeyValuePair list list \<Rightarrow> bytes option" where
  "cmp_best [] = None"
| "cmp_best ([] # ss) = cmp_best ss"
| "cmp_best ((e # es) # ss) = (case cmp_best ss of
     None \<Rightarrow> Some (kv_key e)
   | Some k \<Rightarrow> Some (if k < kv_key e then k else kv_key e))"

text \<open>What the loop over the entries with the chosen key keeps: the newest entry at or below
  \<^verbatim>\<open>visible_ts\<close> and, in order, all entries above it.\<close>

record cmp_group =
  cg_winner :: "KeyValuePair option"
  cg_future :: "KeyValuePair list"

definition cmp_scan1 :: "u64 \<Rightarrow> KeyValuePair \<Rightarrow> cmp_group \<Rightarrow> cmp_group" where
  "cmp_scan1 visible_ts cur g =
     (if kv_timestamp cur \<le> visible_ts
      then (case cg_winner g of
              None \<Rightarrow> g\<lparr>cg_winner := Some cur\<rparr>
            | Some w \<Rightarrow> if kv_timestamp cur > kv_timestamp w then g\<lparr>cg_winner := Some cur\<rparr> else g)
      else g\<lparr>cg_future := cg_future g @ [cur]\<rparr>)"

definition cmp_group0 :: cmp_group where
  "cmp_group0 = \<lparr>cg_winner = None, cg_future = []\<rparr>"

record cmp_conf =
  cc_is_last_level :: bool
  cc_range_lower :: bytes
  cc_range_upper :: bytes
  cc_visible_ts :: u64

text \<open>The filter loop over \<^verbatim>\<open>future\<close> in the source has no effect; only the winner is filtered.\<close>

definition cmp_keeps :: "cmp_conf \<Rightarrow> KeyValuePair \<Rightarrow> bool" where
  "cmp_keeps c w \<longleftrightarrow> \<not> (kv_is_tombstone w \<and> cc_is_last_level c)
     \<and> (cc_range_lower c = [] \<or> kv_key w \<ge> cc_range_lower c)
     \<and> (cc_range_upper c = [] \<or> kv_key w \<le> cc_range_upper c)"

definition cmp_result :: "cmp_conf \<Rightarrow> cmp_group \<Rightarrow> KeyValuePair list" where
  "cmp_result c g = (case cg_winner g of None \<Rightarrow> [] | Some w \<Rightarrow> if cmp_keeps c w then [w] else [])
     @ cg_future g"

text \<open>\<^verbatim>\<open>nextKey\<close>: the entries to emit (empty when no source is left, or when the only entries of
  the key were dropped) and the sources behind the key.\<close>

definition cmp_nextKey ::
  "cmp_conf \<Rightarrow> KeyValuePair list list \<Rightarrow> KeyValuePair list \<times> KeyValuePair list list" where
  "cmp_nextKey c srcs =
     (case cmp_best srcs of
        None \<Rightarrow> ([], srcs)
      | Some key \<Rightarrow>
          (let same = concat (map (takeWhile (\<lambda>e. kv_key e = key)) srcs);
               g = fold (cmp_scan1 (cc_visible_ts c)) same cmp_group0
           in (cmp_result c g, map (dropWhile (\<lambda>e. kv_key e = key)) srcs)))"

section \<open>The output\<close>

text \<open>The pending batch with its approximate size, and the finished batches.\<close>

record cmp_out =
  co_batch :: "KeyValuePair list"
  co_approx :: nat
  co_done :: "KeyValuePair list list"

definition cmp_put :: "nat \<Rightarrow> KeyValuePair \<Rightarrow> cmp_out \<Rightarrow> cmp_out" where
  "cmp_put max_size kv st =
     (let es = length (kv_key kv) + length (kv_value kv) + 24;
          st1 = (if co_batch st \<noteq> [] \<and> co_approx st + es > max_size
                 then st\<lparr>co_done := co_done st @ [co_batch st], co_batch := [], co_approx := 0\<rparr> else st)
      in st1\<lparr>co_batch := co_batch st1 @ [kv], co_approx := co_approx st1 + es\<rparr>)"

lemma cmp_best_head:
  "cmp_best srcs = Some key \<Longrightarrow> \<exists>e es. e # es \<in> set srcs \<and> kv_key e = key"
proof (induction srcs arbitrary: key rule: cmp_best.induct)
  case (3 e es ss)
  show ?case
  proof (cases "key = kv_key e")
    case True
    then show ?thesis by (intro exI [of _ e] exI [of _ es]) simp
  next
    case False
    then have "cmp_best ss = Some key"
      using 3(2) by (cases "cmp_best ss") (simp_all split: if_splits)
    from 3(1) [OF this] show ?thesis by (metis list.set_intros(2))
  qed
qed simp_all

lemma cmp_nextKey_shrinks:
  assumes "cmp_best srcs = Some key"
  shows "sum_list (map (length \<circ> dropWhile (\<lambda>e. kv_key e = key)) srcs) < sum_list (map length srcs)"
proof -
  obtain e es where e: "e # es \<in> set srcs" "kv_key e = key"
    using cmp_best_head [OF assms] by blast
  then obtain ss ts where s: "srcs = ss @ (e # es) # ts" by (meson split_list)
  have le: "sum_list (map (length \<circ> dropWhile P) xs) \<le> sum_list (map length xs)" for P and xs :: "KeyValuePair list list"
    by (intro sum_list_mono2) (simp_all add: length_dropWhile_le)
  have "length (dropWhile (\<lambda>e. kv_key e = key) es) \<le> length es" by (rule length_dropWhile_le)
  with e(2) le [of "\<lambda>e. kv_key e = key" ss] le [of "\<lambda>e. kv_key e = key" ts] show ?thesis
    by (simp add: s)
qed

text \<open>The main loop: it stops at the first empty result of \<^verbatim>\<open>nextKey\<close>.\<close>

function cmp_loop :: "cmp_conf \<Rightarrow> nat \<Rightarrow> KeyValuePair list list \<Rightarrow> cmp_out \<Rightarrow> cmp_out" where
  "cmp_loop c max_size srcs st =
     (case cmp_nextKey c srcs of (kvs, srcs') \<Rightarrow>
        if kvs = [] then st else cmp_loop c max_size srcs' (fold (cmp_put max_size) kvs st))"
  by pat_completeness auto
termination
proof (relation "measure (\<lambda>(_, _, srcs, _). sum_list (map length srcs))", goal_cases)
  case (2 c max_size srcs st kvs srcs')
  then show ?case
    by (cases "cmp_best srcs") (auto simp: cmp_nextKey_def Let_def dest: cmp_nextKey_shrinks)
qed simp

declare cmp_loop.simps [simp del]

text \<open>The batches in the order in which they are written.\<close>

definition cmp_batches :: "cmp_conf \<Rightarrow> nat \<Rightarrow> KeyValuePair list list \<Rightarrow> KeyValuePair list list" where
  "cmp_batches c max_size srcs =
     (let st = cmp_loop c max_size srcs \<lparr>co_batch = [], co_approx = 0, co_done = []\<rparr>
      in co_done st @ (if co_batch st \<noteq> [] then [co_batch st] else []))"

definition sst_path :: "bytes \<Rightarrow> u64 \<Rightarrow> bytes" where
  "sst_path dir seq = dir @ str ''/sstable_'' @ dec_digits (unat seq) @ str ''.sst''"

text \<open>
  \<open>Compact\<close>: the inputs with the entries of their iterators, level 0 first and then by level (a
  \<^verbatim>\<open>std::map\<close>); the files written, the metadata of the outputs, and the names of the input
  files as garbage. A failing \<open>ReadMetadata\<close> is an exception.
\<close>

record cmp_input =
  ci_meta :: Metadata
  ci_entries :: "KeyValuePair list"

definition cmp_level :: "cmp_input \<Rightarrow> int" where
  "cmp_level i = sint (md_level (ci_meta i))"

definition cmp_sources :: "cmp_input list \<Rightarrow> KeyValuePair list list" where
  "cmp_sources inputs =
     filter (\<lambda>s. s \<noteq> []) (map ci_entries (filter (\<lambda>i. cmp_level i = 0) inputs)
       @ map ci_entries (sort_key cmp_level (filter (\<lambda>i. cmp_level i > 0) inputs)))"

definition cmp_merged_aborted :: "cmp_input list \<Rightarrow> u64 list" where
  "cmp_merged_aborted inputs = fold (\<lambda>i. fold List.insert (aborted_batch_ts (ci_meta i))) inputs []"

record cmp_outputs =
  cmo_files :: "(bytes \<times> bytes) list"
  cmo_metas :: "SstMetadata list"
  cmo_garbage :: "bytes list"

primrec cmp_write ::
  "(nat \<Rightarrow> u64 \<times> u32) \<Rightarrow> bytes \<Rightarrow> u64 list option \<Rightarrow> u32 \<Rightarrow> u64 \<Rightarrow> KeyValuePair list list
   \<Rightarrow> sst_error + cmp_outputs \<Rightarrow> sst_error + cmp_outputs" where
  "cmp_write bsz dir ab level seq [] r = r"
| "cmp_write bsz dir ab level seq (b # bs) r =
     (case r of Inl e \<Rightarrow> Inl e
      | Inr out \<Rightarrow>
          (let path = sst_path dir seq; f = sst_Write bsz b ab
           in case sst_read_meta_file path (Some f) of
                Inl e \<Rightarrow> Inl e
              | Inr m \<Rightarrow>
                  (let m1 = m\<lparr>md_filepath := path, md_level := level\<rparr>;
                       m2 = (case ab of None \<Rightarrow> m1 | Some xs \<Rightarrow> m1\<lparr>aborted_batch_ts := xs\<rparr>)
                   in cmp_write bsz dir ab level (seq + 1) bs
                        (Inr (out\<lparr>cmo_files := cmo_files out @ [(path, f)],
                                  cmo_metas := cmo_metas out @ [m2]\<rparr>)))))"

definition sst_Compact ::
  "(nat \<Rightarrow> u64 \<times> u32) \<Rightarrow> cmp_conf \<Rightarrow> cmp_input list \<Rightarrow> bytes \<Rightarrow> u64 \<Rightarrow> u32 \<Rightarrow> nat
   \<Rightarrow> sst_error + cmp_outputs" where
  "sst_Compact bsz c inputs dir seq level max_size =
     (let srcs = cmp_sources inputs;
          ab = (if cc_is_last_level c then None else Some (cmp_merged_aborted inputs));
          out0 = \<lparr>cmo_files = [], cmo_metas = [], cmo_garbage = []\<rparr>
      in if srcs = [] then Inr out0
         else case cmp_write bsz dir ab level seq (cmp_batches c max_size srcs) (Inr out0) of
                Inl e \<Rightarrow> Inl e
              | Inr out \<Rightarrow> Inr (out\<lparr>cmo_garbage := map (md_filepath \<circ> ci_meta) inputs\<rparr>))"

section \<open>The merge as a grouping by key\<close>

abbreviation key_sorted :: "KeyValuePair list \<Rightarrow> bool" where
  "key_sorted s \<equiv> sorted (map kv_key s)"

abbreviation keys_of :: "KeyValuePair list \<Rightarrow> bytes set" where
  "keys_of es \<equiv> kv_key ` set es"

definition cmp_group_of :: "cmp_conf \<Rightarrow> KeyValuePair list \<Rightarrow> bytes \<Rightarrow> KeyValuePair list" where
  "cmp_group_of c es k =
     cmp_result c (fold (cmp_scan1 (cc_visible_ts c)) (filter (\<lambda>e. kv_key e = k) es) cmp_group0)"

definition cmp_groups :: "cmp_conf \<Rightarrow> KeyValuePair list \<Rightarrow> KeyValuePair list list" where
  "cmp_groups c es = map (cmp_group_of c es) (sorted_list_of_set (keys_of es))"

lemma cmp_best_Min:
  assumes "\<forall>s \<in> set srcs. key_sorted s"
  shows "cmp_best srcs = (if concat srcs = [] then None else Some (Min (keys_of (concat srcs))))"
  using assms
proof (induction srcs rule: cmp_best.induct)
  case (3 e es ss)
  have m: "Min (insert (kv_key e) (keys_of es)) = kv_key e"
    using "3.prems" by (intro Min_eqI) auto
  have k: "keys_of (concat ((e # es) # ss)) = insert (kv_key e) (keys_of es) \<union> keys_of (concat ss)"
    by auto
  show ?case
  proof (cases "concat ss = []")
    case True
    then have "keys_of (concat ((e # es) # ss)) = insert (kv_key e) (keys_of es)" unfolding k by auto
    with True 3 m show ?thesis by (simp del: concat.simps)
  next
    case False
    then have mm: "Min (keys_of (concat ((e # es) # ss))) = min (kv_key e) (Min (keys_of (concat ss)))"
      unfolding k using m by (subst Min_Un) auto
    have b: "cmp_best ss = Some (Min (keys_of (concat ss)))"
      using 3 False by (auto simp del: concat_eq_Nil_conv)
    have "concat ((e # es) # ss) \<noteq> []" by simp
    then show ?thesis unfolding cmp_best.simps b option.case mm by (auto simp: min_def)
  qed
qed auto

lemma takeWhile_least:
  "key_sorted s \<Longrightarrow> \<forall>e \<in> set s. k \<le> kv_key e \<Longrightarrow>
   takeWhile (\<lambda>e. kv_key e = k) s = filter (\<lambda>e. kv_key e = k) s
   \<and> dropWhile (\<lambda>e. kv_key e = k) s = filter (\<lambda>e. kv_key e \<noteq> k) s"
proof (induction s)
  case (Cons e s)
  show ?case
  proof (cases "kv_key e = k")
    case False
    with Cons.prems have "\<forall>x \<in> set s. kv_key x \<noteq> k" by fastforce
    with False show ?thesis by (simp add: filter_id_conv)
  qed (use Cons in simp)
qed simp

lemma cmp_nextKey_sorted:
  assumes "\<forall>s \<in> set srcs. key_sorted s" and "concat srcs \<noteq> []" and "k = Min (keys_of (concat srcs))"
  shows "cmp_nextKey c srcs = (cmp_group_of c (concat srcs) k, map (filter (\<lambda>e. kv_key e \<noteq> k)) srcs)"
proof -
  have "cmp_best srcs = Some k" using cmp_best_Min [OF assms(1)] assms(2,3) by simp
  moreover have least: "\<forall>s \<in> set srcs. \<forall>e \<in> set s. k \<le> kv_key e"
    unfolding assms(3) by (auto intro!: Min_le)
  ultimately show ?thesis
    using assms(1) takeWhile_least [of _ k]
    by (simp add: cmp_nextKey_def Let_def cmp_group_of_def filter_concat cong: map_cong)
qed

lemma filter_other_key: "k \<noteq> k' \<Longrightarrow> filter (\<lambda>e. kv_key e = k') (filter (\<lambda>e. kv_key e \<noteq> k) es) = filter (\<lambda>e. kv_key e = k') es"
  by (induction es) auto

lemma cmp_groups_step:
  assumes "es \<noteq> []" and "k = Min (keys_of es)"
  shows "cmp_groups c es = cmp_group_of c es k # cmp_groups c (filter (\<lambda>e. kv_key e \<noteq> k) es)"
proof -
  have ks: "keys_of (filter (\<lambda>e. kv_key e \<noteq> k) es) = keys_of es - {k}" by auto
  have "sorted_list_of_set (keys_of es) = k # sorted_list_of_set (keys_of es - {k})"
    using assms by (simp add: sorted_list_of_set_nonempty)
  moreover have "cmp_group_of c es k' = cmp_group_of c (filter (\<lambda>e. kv_key e \<noteq> k) es) k'" if "k' \<noteq> k" for k'
    using filter_other_key [of k k' es] that by (simp add: cmp_group_of_def)
  ultimately show ?thesis
    unfolding cmp_groups_def ks by simp
qed

lemma cmp_loop_groups:
  assumes "\<forall>s \<in> set srcs. key_sorted s"
  shows "cmp_loop c mx srcs st
    = fold (cmp_put mx) (concat (takeWhile (\<lambda>g. g \<noteq> []) (cmp_groups c (concat srcs)))) st"
  using assms
proof (induction c mx srcs st rule: cmp_loop.induct)
  case (1 c mx srcs st)
  show ?case
  proof (cases "concat srcs = []")
    case True
    then have "cmp_nextKey c srcs = ([], srcs)"
      using cmp_best_Min [OF "1.prems"] by (simp add: cmp_nextKey_def)
    with True show ?thesis
      by (subst cmp_loop.simps) (simp add: cmp_groups_def del: concat_eq_Nil_conv)
  next
    case False
    define k where "k = Min (keys_of (concat srcs))"
    let ?srcs = "map (filter (\<lambda>e. kv_key e \<noteq> k)) srcs"
    note nk = cmp_nextKey_sorted [OF "1.prems" False k_def, of c]
    have "\<forall>s \<in> set ?srcs. key_sorted s" using "1.prems" by (auto simp: sorted_filter)
    moreover have "concat ?srcs = filter (\<lambda>e. kv_key e \<noteq> k) (concat srcs)" by (simp add: filter_concat)
    ultimately show ?thesis
      using "1.IH" [OF nk [symmetric]] unfolding cmp_groups_step [OF False k_def]
      by (subst cmp_loop.simps) (simp add: nk)
  qed
qed

lemma cmp_put_concat: "concat (co_done (cmp_put mx kv st)) @ co_batch (cmp_put mx kv st)
    = concat (co_done st) @ co_batch st @ [kv]"
  by (simp add: cmp_put_def Let_def)

lemma fold_cmp_put_concat:
  "concat (co_done (fold (cmp_put mx) kvs st)) @ co_batch (fold (cmp_put mx) kvs st)
   = concat (co_done st) @ co_batch st @ kvs"
proof (induction kvs arbitrary: st)
  case (Cons kv kvs)
  have "concat (co_done (fold (cmp_put mx) (kv # kvs) st)) @ co_batch (fold (cmp_put mx) (kv # kvs) st)
      = (concat (co_done (cmp_put mx kv st)) @ co_batch (cmp_put mx kv st)) @ kvs"
    by (simp add: Cons.IH)
  then show ?case by (simp only: cmp_put_concat append_assoc append_Cons append_Nil)
qed simp

lemma cmp_batches_groups:
  assumes "\<forall>s \<in> set srcs. key_sorted s"
  shows "concat (cmp_batches c mx srcs) = concat (takeWhile (\<lambda>g. g \<noteq> []) (cmp_groups c (concat srcs)))"
  using fold_cmp_put_concat [of mx "concat (takeWhile (\<lambda>g. g \<noteq> []) (cmp_groups c (concat srcs)))"
      "\<lparr>co_batch = [], co_approx = 0, co_done = []\<rparr>"]
  by (auto simp: cmp_batches_def Let_def cmp_loop_groups [OF assms])

section \<open>What a group contains\<close>

definition newest :: "u64 \<Rightarrow> bytes \<Rightarrow> KeyValuePair list \<Rightarrow> KeyValuePair \<Rightarrow> bool" where
  "newest t k es e \<longleftrightarrow> e \<in> set es \<and> kv_key e = k \<and> kv_timestamp e \<le> t
     \<and> (\<forall>x \<in> set es. kv_key x = k \<longrightarrow> kv_timestamp x \<le> t \<longrightarrow> kv_timestamp x \<le> kv_timestamp e)"

lemma fold_scan_future:
  "cg_future (fold (cmp_scan1 v) es g) = cg_future g @ filter (\<lambda>e. \<not> kv_timestamp e \<le> v) es"
  by (induction es arbitrary: g) (auto simp: cmp_scan1_def split: option.split)

lemma fold_scan_winner:
  assumes "cg_winner g = None"
  shows "case cg_winner (fold (cmp_scan1 v) es g) of
      None \<Rightarrow> \<forall>e \<in> set es. \<not> kv_timestamp e \<le> v
    | Some w \<Rightarrow> w \<in> set es \<and> kv_timestamp w \<le> v
        \<and> (\<forall>e \<in> set es. kv_timestamp e \<le> v \<longrightarrow> kv_timestamp e \<le> kv_timestamp w)"
proof (induction es rule: rev_induct)
  case Nil
  then show ?case using assms by simp
next
  case (snoc e es)
  then show ?case
    by (fastforce simp: cmp_scan1_def split: option.splits)
qed

lemma cmp_group_keep:
  assumes "\<And>w. cmp_keeps c w"
  shows "set (cmp_group_of c es k) \<subseteq> {e \<in> set es. kv_key e = k}"
    and "\<And>e. e \<in> set es \<Longrightarrow> kv_key e = k \<Longrightarrow> \<not> kv_timestamp e \<le> cc_visible_ts c \<Longrightarrow> e \<in> set (cmp_group_of c es k)"
    and "\<And>e. e \<in> set es \<Longrightarrow> kv_key e = k \<Longrightarrow> kv_timestamp e \<le> cc_visible_ts c
      \<Longrightarrow> \<exists>w \<in> set (cmp_group_of c es k). kv_timestamp w \<le> cc_visible_ts c \<and> kv_timestamp e \<le> kv_timestamp w"
  using fold_scan_winner [of cmp_group0 "filter (\<lambda>e. kv_key e = k) es" "cc_visible_ts c"] assms
  by (auto simp: cmp_group_of_def cmp_result_def fold_scan_future cmp_group0_def split: option.splits)

lemma cmp_group_nonempty:
  assumes "\<And>w. cmp_keeps c w" and "k \<in> keys_of es"
  shows "cmp_group_of c es k \<noteq> []"
proof -
  from assms(2) obtain e where "e \<in> set es" "kv_key e = k" by auto
  with cmp_group_keep(2,3) [OF assms(1), of e es k] show ?thesis by fastforce
qed

lemma cmp_groups_keep:
  assumes "\<And>w. cmp_keeps c w"
  shows "takeWhile (\<lambda>g. g \<noteq> []) (cmp_groups c es) = cmp_groups c es"
  using cmp_group_nonempty [OF assms] by (auto simp: cmp_groups_def takeWhile_eq_all_conv)

lemma newest_groups:
  assumes "\<And>w. cmp_keeps c w" and "cc_visible_ts c \<le> t"
  shows "newest t k (concat (cmp_groups c es)) e \<Longrightarrow> newest t k es e"
    and "newest t k es e \<Longrightarrow> \<exists>e'. newest t k (concat (cmp_groups c es)) e'"
proof -
  have mem: "x \<in> set (concat (cmp_groups c es)) \<longleftrightarrow> x \<in> set (cmp_group_of c es (kv_key x))" for x
    using cmp_group_keep(1) [OF assms(1), of es] by (fastforce simp: cmp_groups_def)
  have sub: "x \<in> set es" if "x \<in> set (concat (cmp_groups c es))" for x
    using that cmp_group_keep(1) [OF assms(1), of es "kv_key x"] unfolding mem by auto
  have cover: "\<exists>w \<in> set (concat (cmp_groups c es)). kv_key w = kv_key x \<and> kv_timestamp w \<le> t
      \<and> kv_timestamp x \<le> kv_timestamp w" if "x \<in> set es" "kv_timestamp x \<le> t" for x
  proof (cases "kv_timestamp x \<le> cc_visible_ts c")
    case True
    then obtain w where "w \<in> set (cmp_group_of c es (kv_key x))" "kv_timestamp w \<le> cc_visible_ts c"
        "kv_timestamp x \<le> kv_timestamp w"
      using cmp_group_keep(3) [of c x es, OF assms(1) \<open>x \<in> set es\<close>] by blast
    moreover from this have "kv_key w = kv_key x" using cmp_group_keep(1) [OF assms(1)] by blast
    ultimately show ?thesis using assms(2) mem by (metis order_trans)
  next
    case False
    then show ?thesis using cmp_group_keep(2) [of c x es, OF assms(1) that(1)] that(2) mem by blast
  qed
  show "newest t k es e" if "newest t k (concat (cmp_groups c es)) e"
  proof -
    have "kv_timestamp x \<le> kv_timestamp e" if "x \<in> set es" "kv_key x = k" "kv_timestamp x \<le> t" for x
      using cover [OF that(1,3)] that(2) \<open>newest t k (concat (cmp_groups c es)) e\<close>
      unfolding newest_def by (metis order_trans)
    with that sub show ?thesis unfolding newest_def by blast
  qed
  show "\<exists>e'. newest t k (concat (cmp_groups c es)) e'" if n: "newest t k es e"
  proof -
    obtain w where "w \<in> set (concat (cmp_groups c es))" "kv_key w = k" "kv_timestamp w \<le> t"
        "kv_timestamp e \<le> kv_timestamp w"
      using cover [of e] n unfolding newest_def by metis
    moreover have "kv_timestamp x \<le> kv_timestamp e"
      if "x \<in> set (concat (cmp_groups c es))" "kv_key x = k" "kv_timestamp x \<le> t" for x
      using that sub n unfolding newest_def by blast
    ultimately have "newest t k (concat (cmp_groups c es)) w" unfolding newest_def by (metis order_trans)
    then show ?thesis ..
  qed
qed

section \<open>Properties\<close>

text \<open>
  the merge, exactly. For sources sorted by key the output tables hold, one key after the
  other in increasing order, the newest version at or below \<^verbatim>\<open>visible_ts\<close> (unless it is filtered
  out) and then every newer version; but the output ends before the first key of which nothing
  is left, and all greater keys are missing.
\<close>

theorem compaction_output:
  assumes "\<forall>s \<in> set srcs. key_sorted s"
  shows "concat (cmp_batches c max_size srcs)
    = concat (takeWhile (\<lambda>g. g \<noteq> []) (cmp_groups c (concat srcs)))"
  by (rule cmp_batches_groups [OF assms])

theorem compaction_output_witness:
  "concat (cmp_batches \<lparr>cc_is_last_level = False, cc_range_lower = [], cc_range_upper = [], cc_visible_ts = 9\<rparr> 100
      [[mk_kv [1] [2] 3], [mk_kv [1] [5] 4]])
   = concat (takeWhile (\<lambda>g. g \<noteq> []) (cmp_groups
      \<lparr>cc_is_last_level = False, cc_range_lower = [], cc_range_upper = [], cc_visible_ts = 9\<rparr>
      (concat [[mk_kv [1] [2] 3], [mk_kv [1] [5] 4]])))"
  by (rule compaction_output) simp

text \<open>
  C8: compaction into a level that is not the last, without a key range, keeps every read at or
  after \<^verbatim>\<open>visible_ts\<close>: a newest version at \<open>t\<close> in the output is a newest version at \<open>t\<close> in the inputs,
  and a key that has a version at \<open>t\<close> in the inputs has one in the output.
\<close>

theorem compaction_preserves_reads:
  assumes "\<forall>s \<in> set srcs. key_sorted s" and "\<not> cc_is_last_level c"
    and "cc_range_lower c = []" and "cc_range_upper c = []" and "cc_visible_ts c \<le> t"
  shows "(newest t k (concat (cmp_batches c max_size srcs)) e \<longrightarrow> newest t k (concat srcs) e)
    \<and> ((\<exists>e. newest t k (concat srcs) e) \<longrightarrow> (\<exists>e. newest t k (concat (cmp_batches c max_size srcs)) e))"
proof -
  have keep: "\<And>w. cmp_keeps c w" using assms(2-4) by (simp add: cmp_keeps_def)
  then show ?thesis
    using newest_groups [OF keep assms(5)] cmp_batches_groups [OF assms(1), of c max_size]
      cmp_groups_keep [OF keep, of "concat srcs"] by auto
qed

theorem compaction_preserves_reads_witness:
  "\<exists>e. newest 9 [1] (concat (cmp_batches
      \<lparr>cc_is_last_level = False, cc_range_lower = [], cc_range_upper = [], cc_visible_ts = 9\<rparr>
      100 [[mk_kv [1] [2] 3], [mk_kv [1] [5] 4]])) e"
proof -
  have "newest 9 [1] (concat [[mk_kv [1] [2] 3], [mk_kv [1] [5] 4]]) (mk_kv [1] [5] 4)"
    by (simp add: newest_def mk_kv_def)
  then show ?thesis
    using compaction_preserves_reads [of "[[mk_kv [1] [2] 3], [mk_kv [1] [5] 4]]"
        "\<lparr>cc_is_last_level = False, cc_range_lower = [], cc_range_upper = [], cc_visible_ts = 9\<rparr>" 9 "[1]" 100]
    by auto
qed

text \<open>
  compaction into the last level loses data. When the least key of the inputs has only a
  tombstone at or below \<^verbatim>\<open>visible_ts\<close>, dropping it makes \<^verbatim>\<open>nextKey\<close> return an empty vector, the
  main loop takes this for the end, and no table is written although the inputs become garbage.
\<close>

theorem compaction_last_level_loses_keys:
  assumes "cc_is_last_level c" and "kv_is_tombstone d" and "kv_timestamp d \<le> cc_visible_ts c"
    and "key_sorted (d # es)" and "\<forall>e \<in> set es. kv_key e \<noteq> kv_key d"
    and "cmp_level i = 0" and "ci_entries i = d # es"
  shows "sst_Compact bsz c [i] dir seq level max_size
    = Inr \<lparr>cmo_files = [], cmo_metas = [], cmo_garbage = [md_filepath (ci_meta i)]\<rparr>"
proof -
  have "filter (\<lambda>e. kv_key e = kv_key d) es = []" using assms(5) by (simp add: filter_empty_conv)
  moreover have "Min (keys_of (d # es)) = kv_key d" using assms(4) by (intro Min_eqI) auto
  ultimately have "cmp_groups c (d # es) = [] # cmp_groups c (filter (\<lambda>e. kv_key e \<noteq> kv_key d) (d # es))"
    using cmp_groups_step [of "d # es" "kv_key d" c] assms(1-3)
    by (simp add: cmp_group_of_def cmp_result_def cmp_scan1_def cmp_group0_def cmp_keeps_def)
  then have "concat (cmp_batches c max_size [d # es]) = []"
    using cmp_batches_groups [of "[d # es]" c max_size] assms(4) by simp
  moreover have "cmp_loop c max_size [d # es] st = st" for st
    using cmp_loop_groups [of "[d # es]" c max_size st] assms(4)
      \<open>cmp_groups c (d # es) = [] # cmp_groups c (filter (\<lambda>e. kv_key e \<noteq> kv_key d) (d # es))\<close> by simp
  ultimately have "cmp_batches c max_size [d # es] = []" by (simp add: cmp_batches_def)
  moreover have "cmp_sources [i] = [d # es]" using assms(6,7) by (simp add: cmp_sources_def)
  ultimately show ?thesis by (simp add: sst_Compact_def Let_def)
qed

theorem compaction_last_level_loses_keys_witness:
  "sst_Compact (\<lambda>n. (10, 7)) \<lparr>cc_is_last_level = True, cc_range_lower = [], cc_range_upper = [], cc_visible_ts = 9\<rparr>
     [\<lparr>ci_meta = \<lparr>md_filepath = [7], manifest_seq = 1, entry_count = 2, min_key_len = 1, max_key_len = 1,
         md_file_size = 0, md_level = 0, aborted_batch_ts = []\<rparr>,
       ci_entries = (mk_kv [1] [] 3)\<lparr>kv_is_tombstone := True\<rparr> # [mk_kv [2] [5] 4]\<rparr>] [] 1 7 100
   = Inr \<lparr>cmo_files = [], cmo_metas = [], cmo_garbage = [[7]]\<rparr>"
  using compaction_last_level_loses_keys [of
      "\<lparr>cc_is_last_level = True, cc_range_lower = [], cc_range_upper = [], cc_visible_ts = 9\<rparr>"
      "(mk_kv [1] [] 3)\<lparr>kv_is_tombstone := True\<rparr>" "[mk_kv [2] [5] 4]"
      "\<lparr>ci_meta = \<lparr>md_filepath = [7], manifest_seq = 1, entry_count = 2, min_key_len = 1, max_key_len = 1,
         md_file_size = 0, md_level = 0, aborted_batch_ts = []\<rparr>,
       ci_entries = (mk_kv [1] [] 3)\<lparr>kv_is_tombstone := True\<rparr> # [mk_kv [2] [5] 4]\<rparr>"
      "\<lambda>n. (10, 7)" "[]" 1 7 100]
  by (simp add: mk_kv_def cmp_level_def)

end
