(* ===== verification/Snappy.thy ===== *)
theory Snappy
  imports Kv_Types
begin

text \<open>
  The block compressor of \<^verbatim>\<open>include/kvdb/snappy.hpp\<close>: \<open>Compress\<close>, which replaces four or more bytes
  that occurred before by a copy element, and \<open>Uncompress\<close>. Both work on byte lists; the hash table
  of \<open>Compress\<close> is a map from hashes to positions, where \<^verbatim>\<open>size_t(-1)\<close> is \<open>None\<close>. The shipped
  configuration writes blocks uncompressed; the iterators still decode a block whose header byte
  asks for it.
\<close>

section \<open>Compress\<close>

definition sn_EmitLiteral :: "bytes \<Rightarrow> nat \<Rightarrow> nat \<Rightarrow> bytes" where
  "sn_EmitLiteral input lit_start n =
     (if n < 60 then of_nat (push_bit 2 n) # take n (drop lit_start input)
      else if n \<le> 255 then [240, of_nat (n - 60)] @ take n (drop lit_start input)
      else if n \<le> 65535 then
        (let n = n - 256 in [244, of_nat n, of_nat (drop_bit 8 n)] @ take n (drop lit_start input))
      else
        (let n = n - 65536 in [248, of_nat n, of_nat (drop_bit 8 n), of_nat (drop_bit 16 n)]
           @ take n (drop lit_start input)))"

definition sn_hash :: "bytes \<Rightarrow> nat \<Rightarrow> u32" where
  "sn_hash input i = drop_bit (32 - 14) (rd32 input i * 0x1e35a7bd)"

function sn_match_len :: "bytes \<Rightarrow> nat \<Rightarrow> nat \<Rightarrow> nat \<Rightarrow> nat" where
  "sn_match_len input prev i m =
     (if m < 64 \<and> i + m < length input \<and> input ! (prev + m) = input ! (i + m)
      then sn_match_len input prev i (m + 1) else m)"
  by pat_completeness auto
termination
  by (relation "measure (\<lambda>(input, prev, i, m). 64 - m)") auto

declare sn_match_len.simps [simp del]

definition sn_copy_element :: "nat \<Rightarrow> nat \<Rightarrow> bytes" where
  "sn_copy_element off len =
     [of_nat (push_bit 2 (len - 1) OR 2), of_nat off, of_nat (drop_bit 8 off), of_nat (drop_bit 16 off),
      of_nat (drop_bit 24 off)]"

text \<open>The positions inside a copied run are entered too; \<^verbatim>\<open>j + 4 <= i\<close> implies \<^verbatim>\<open>j < input_len\<close>.\<close>

definition sn_rehash :: "bytes \<Rightarrow> nat \<Rightarrow> nat \<Rightarrow> (u32 \<Rightarrow> nat option) \<Rightarrow> (u32 \<Rightarrow> nat option)" where
  "sn_rehash input a i tab = fold (\<lambda>j t. t(sn_hash input j \<mapsto> j)) [a ..< i - 3] tab"

function sn_Compress_loop ::
  "bytes \<Rightarrow> nat \<Rightarrow> nat \<Rightarrow> (u32 \<Rightarrow> nat option) \<Rightarrow> bytes \<Rightarrow> nat \<times> nat \<times> bytes" where
  "sn_Compress_loop input i lit_start tab out =
     (if i + 4 \<le> length input then
        (let h = sn_hash input i;
             prev = tab h;
             tab = tab(h \<mapsto> i);
             match_len = (case prev of Some p \<Rightarrow> if i - p < 32768 then sn_match_len input p i 0 else 0 | None \<Rightarrow> 0)
         in if match_len \<ge> 4 \<and> (i - lit_start > 0 \<or> match_len > 4 \<or> i + 4 \<ge> length input)
            then (let out = (if i > lit_start then out @ sn_EmitLiteral input lit_start (i - lit_start) else out);
                      i' = i + match_len
                  in sn_Compress_loop input i' i' (sn_rehash input (i' - match_len + 1) i' tab)
                       (out @ sn_copy_element (i - the prev) match_len))
            else sn_Compress_loop input (i + 1) lit_start tab out)
      else (i, lit_start, out))"
  by pat_completeness auto
termination
  by (relation "measure (\<lambda>(input, i, _). length input - i)") (auto simp: Let_def)

declare sn_Compress_loop.simps [simp del]

definition sn_Compress :: "bytes \<Rightarrow> bytes" where
  "sn_Compress input =
     (if input = [] then []
      else case sn_Compress_loop input 0 0 (\<lambda>_. None) [] of (i, lit_start, out) \<Rightarrow>
        if i > lit_start \<or> lit_start = 0 then out @ sn_EmitLiteral input lit_start (length input - lit_start)
        else out)"

section \<open>Uncompress\<close>

text \<open>The length bytes of a long literal, least significant first, as many as are there.\<close>

fun sn_lit_len :: "nat \<Rightarrow> bytes \<Rightarrow> nat" where
  "sn_lit_len (Suc n) (b # r) = unat b + 256 * sn_lit_len n r"
| "sn_lit_len _ _ = 0"

definition sn_literal :: "u8 \<Rightarrow> bytes \<Rightarrow> nat \<times> bytes" where
  "sn_literal tag r =
     (let len = unat (drop_bit 2 tag)
      in if len \<ge> 60
         then (sn_lit_len (len - 59) r
                 + (if len = 60 then 0 else if len = 61 then 255 else if len = 62 then 65535 else 16777215),
               drop (len - 59) r)
         else (len, r))"

text \<open>The offset of a four-byte copy is an \<^verbatim>\<open>int\<close> that is widened to \<^verbatim>\<open>size_t\<close>.\<close>

definition sn_copy :: "u8 \<Rightarrow> bytes \<Rightarrow> (nat \<times> nat \<times> bytes) option" where
  "sn_copy tag r =
     (if tag AND 3 = 1
      then if length r < 2 then None
           else Some (unat (rd16 r 0), unat (drop_bit 2 tag AND 7) + 4, drop 2 r)
      else if tag AND 3 = 2
      then if length r < 4 then None
           else Some (unat (scast (rd32 r 0) :: u64), unat (drop_bit 2 tag) + 1, drop 4 r)
      else None)"

lemma sn_literal_length: "sn_literal tag r = (n, r') \<Longrightarrow> length r' \<le> length r"
  by (auto simp: sn_literal_def Let_def split: if_splits)

lemma sn_copy_length: "sn_copy tag r = Some (off, n, r') \<Longrightarrow> length r' \<le> length r"
  by (auto simp: sn_copy_def split: if_splits)

function sn_Uncompress_loop :: "bytes \<Rightarrow> bytes \<Rightarrow> bytes" where
  "sn_Uncompress_loop [] out = out"
| "sn_Uncompress_loop (tag # r) out =
     (if tag AND 3 = 0
      then (case sn_literal tag r of (len, r) \<Rightarrow>
             if len > length r then out else sn_Uncompress_loop (drop len r) (out @ take len r))
      else (case sn_copy tag r of
             None \<Rightarrow> out
           | Some (off, len, r) \<Rightarrow>
               if off = 0 \<or> off > length out then out
               else sn_Uncompress_loop r (out @ map (\<lambda>i. out ! (length out - off + i mod off)) [0 ..< len])))"
  by pat_completeness auto
termination
  by (relation "measure (\<lambda>(r, out). length r)") (auto dest: sn_copy_length dest!: sn_literal_length [OF sym])

declare sn_Uncompress_loop.simps(2) [simp del]

definition sn_Uncompress :: "bytes \<Rightarrow> bytes" where
  "sn_Uncompress input = sn_Uncompress_loop input []"

section \<open>The elements\<close>

lemma u8_shl2:
  assumes "n < 64"
  shows "(of_nat (push_bit 2 n) :: u8) AND 3 = 0" "unat (drop_bit 2 (of_nat (push_bit 2 n) :: u8)) = n"
proof -
  have three: "(3 :: u8) = mask 2" by (simp add: mask_eq_exp_minus_1)
  have 1: "(of_nat (push_bit 2 n) :: u8) = push_bit 2 (of_nat n)"
    by (simp add: push_bit_eq_mult)
  show "(of_nat (push_bit 2 n) :: u8) AND 3 = 0"
    unfolding 1 three by (rule bit_word_eqI) (auto simp: bit_simps)
  have "unat (of_nat (push_bit 2 n) :: u8) = 4 * n"
    using unat_of_nat_small [of "push_bit 2 n", where 'a = 8] assms by (simp add: push_bit_eq_mult)
  then show "unat (drop_bit 2 (of_nat (push_bit 2 n) :: u8)) = n"
    unfolding unat_drop_bit_eq by (simp add: drop_bit_eq_div)
qed

lemma u8_shl2_or2:
  assumes "n < 64"
  shows "(of_nat (push_bit 2 n OR 2) :: u8) AND 3 = 2" "unat (drop_bit 2 (of_nat (push_bit 2 n OR 2) :: u8)) = n"
proof -
  have three: "(3 :: u8) = mask 2" by (simp add: mask_eq_exp_minus_1)
  have 1: "(of_nat (push_bit 2 n OR 2) :: u8) = push_bit 2 (of_nat n) OR 2"
    by (rule bit_word_eqI) (auto simp: bit_simps)
  show "(of_nat (push_bit 2 n OR 2) :: u8) AND 3 = 2"
    unfolding 1 three by (rule bit_word_eqI) (auto simp: bit_simps)
  have "drop_bit 2 (of_nat (push_bit 2 n OR 2) :: u8) = drop_bit 2 (of_nat (push_bit 2 n))"
    unfolding 1 by (rule bit_word_eqI) (auto simp: bit_simps)
  then show "unat (drop_bit 2 (of_nat (push_bit 2 n OR 2) :: u8)) = n"
    using u8_shl2(2) [OF assms] by simp
qed

lemma uncompress_literal:
  assumes "n < 60" and "lit_start + n \<le> length input"
  shows "sn_Uncompress_loop (sn_EmitLiteral input lit_start n @ r) out
    = sn_Uncompress_loop r (out @ take n (drop lit_start input))"
  using assms u8_shl2 [of n]
  by (simp add: sn_EmitLiteral_def sn_Uncompress_loop.simps(2) sn_literal_def Let_def)

lemma rd32_copy_element:
  assumes "off < 2 ^ 31"
  shows "unat (scast (rd32 (of_nat off # of_nat (drop_bit 8 off) # of_nat (drop_bit 16 off) # of_nat (drop_bit 24 off) # r) 0) :: u64) = off"
proof -
  let ?w = "of_nat off :: u32"
  have b: "byte_at i ?w = of_nat (drop_bit (8 * i) off)" if "i < 4" for i
    by (rule bit_word_eqI) (use that in \<open>auto simp: bit_byte_at bit_simps\<close>)
  have "le32 (byte_at 0 ?w) (byte_at (Suc 0) ?w) (byte_at 2 ?w) (byte_at 3 ?w) = ?w"
    by (rule le32_bytes)
  then have r: "rd32 (of_nat off # of_nat (drop_bit 8 off) # of_nat (drop_bit 16 off) # of_nat (drop_bit 24 off) # r) 0 = ?w"
    by (simp add: rd32_def b)
  have u: "unat ?w = off" using assms by (simp add: unat_of_nat_small)
  have "\<not> bit off 31" using assms by (simp add: bit_iff_odd)
  then have "\<not> bit ?w 31" by (simp add: bit_simps)
  then have "(scast ?w :: u64) = ucast ?w"
    by (intro bit_word_eqI) (auto simp: bit_simps min_def not_le split: if_splits dest: le_less_Suc_eq)
  then show ?thesis unfolding r using u assms by (simp add: unsigned_ucast_eq take_bit_nat_eq_self)
qed


text \<open>A run that agrees with the bytes \<open>off\<close> positions before it is the periodic copy of those.\<close>

lemma periodic_run:
  assumes "0 < off" and "\<And>k. k < len \<Longrightarrow> f (p + k) = f (p + off + k)" and "k < (len :: nat)"
  shows "f (p + off + k) = f (p + k mod off)"
  using assms(3)
proof (induction k rule: less_induct)
  case (less k)
  show ?case
  proof (cases "k < off")
    case True
    with less.prems assms(2) show ?thesis by (metis mod_less)
  next
    case False
    then have "f (p + off + (k - off)) = f (p + (k - off) mod off)"
      using less.prems assms(1) by (intro less.IH) simp_all
    moreover have "p + off + (k - off) = p + k" "(k - off) mod off = k mod off" using False by (simp_all add: le_mod_geq)
    ultimately show ?thesis using assms(2) less.prems by metis
  qed
qed

lemma uncompress_copy:
  assumes "0 < off" and "off \<le> i" and "off < 2 ^ 31" and "0 < len" and "len \<le> 64" and "i + len \<le> length input"
    and eq: "\<And>k. k < len \<Longrightarrow> input ! (i - off + k) = input ! (i + k)"
  shows "sn_Uncompress_loop (sn_copy_element off len @ r) (take i input)
    = sn_Uncompress_loop r (take (i + len) input)"
proof -
  have "map (\<lambda>k. take i input ! (i - off + k mod off)) [0 ..< len] = take len (drop i input)"
  proof (rule nth_equalityI)
    fix k assume "k < length (map (\<lambda>k. take i input ! (i - off + k mod off)) [0 ..< len])"
    then have k: "k < len" by simp
    have "i - off + k mod off < i" using assms(1,2) mod_less_divisor [OF assms(1), of k] by linarith
    then show "map (\<lambda>k. take i input ! (i - off + k mod off)) [0 ..< len] ! k = take len (drop i input) ! k"
      using k periodic_run [of off len "(!) input" "i - off" k] assms by simp
  qed (use assms in simp)
  moreover have "sn_copy_element off len = of_nat (push_bit 2 (len - 1) OR 2) # of_nat off # of_nat (drop_bit 8 off)
      # of_nat (drop_bit 16 off) # [of_nat (drop_bit 24 off)]"
    by (simp add: sn_copy_element_def)
  ultimately show ?thesis
    using assms u8_shl2_or2 [of "len - 1"] rd32_copy_element [OF assms(3), of r]
    by (simp add: sn_Uncompress_loop.simps(2) sn_copy_def min_absorb2 take_add)
qed

section \<open>The loop of Compress\<close>

lemma sn_match_len_spec:
  assumes "sn_match_len input p i m = n" and "m \<le> 64" and "i + m \<le> length input"
    and "\<And>k. k < m \<Longrightarrow> input ! (p + k) = input ! (i + k)"
  shows "n \<le> 64 \<and> i + n \<le> length input \<and> (\<forall>k < n. input ! (p + k) = input ! (i + k))"
  using assms
proof (induction input p i m rule: sn_match_len.induct)
  case (1 input prev i m)
  show ?case
  proof (cases "m < 64 \<and> i + m < length input \<and> input ! (prev + m) = input ! (i + m)")
    case True
    have "sn_match_len input prev i (m + 1) = n" using 1(2) True by (subst (asm) sn_match_len.simps) simp
    then show ?thesis using 1(1) [OF True] 1(5) True by (simp add: less_Suc_eq) blast
  next
    case False
    then have "n = m" using 1(2) by (subst (asm) sn_match_len.simps) auto
    with 1(3-5) show ?thesis by blast
  qed
qed

definition tab_below :: "nat \<Rightarrow> (u32 \<Rightarrow> nat option) \<Rightarrow> bool" where
  "tab_below i tab \<longleftrightarrow> (\<forall>h p. tab h = Some p \<longrightarrow> p < i)"

lemma tab_below_upd: "tab_below i tab \<Longrightarrow> i \<le> i' \<Longrightarrow> j < i' \<Longrightarrow> tab_below i' (tab(h \<mapsto> j))"
  by (fastforce simp: tab_below_def)

lemma tab_below_rehash: "tab_below i tab \<Longrightarrow> tab_below i (sn_rehash input a i tab)"
proof -
  have "tab_below i (fold (\<lambda>j t. t(sn_hash input j \<mapsto> j)) js t)" if "tab_below i t" "\<forall>j \<in> set js. j < i" for js t
    using that by (induction js arbitrary: t) (auto intro: tab_below_upd)
  moreover have "\<forall>j \<in> set [a ..< i - 3]. j < i" by auto
  ultimately show "tab_below i tab \<Longrightarrow> ?thesis" unfolding sn_rehash_def by blast
qed

text \<open>What is decoded from the output so far is the input up to \<open>lit_start\<close>.\<close>

definition sn_emitted :: "bytes \<Rightarrow> bytes \<Rightarrow> nat \<Rightarrow> bool" where
  "sn_emitted input out n \<longleftrightarrow> (\<forall>r. sn_Uncompress_loop (out @ r) [] = sn_Uncompress_loop r (take n input))"

lemma sn_emitted_literal:
  "sn_emitted input out n \<Longrightarrow> k < 60 \<Longrightarrow> n + k \<le> length input
   \<Longrightarrow> sn_emitted input (out @ sn_EmitLiteral input n k) (n + k)"
  by (simp add: sn_emitted_def uncompress_literal take_add)

lemma sn_Compress_loop_cases:
  assumes "sn_Compress_loop input i ls tab out = res"
  obtains (finish) "\<not> i + 4 \<le> length input" "res = (i, ls, out)"
  | (step) "i + 4 \<le> length input" "res = sn_Compress_loop input (i + 1) ls (tab(sn_hash input i \<mapsto> i)) out"
  | (copy) p n where "i + 4 \<le> length input" "tab (sn_hash input i) = Some p" "i - p < 32768"
      "sn_match_len input p i 0 = n" "n \<ge> 4"
      "res = sn_Compress_loop input (i + n) (i + n) (sn_rehash input (i + n - n + 1) (i + n) (tab(sn_hash input i \<mapsto> i)))
        ((if i > ls then out @ sn_EmitLiteral input ls (i - ls) else out) @ sn_copy_element (i - p) n)"
proof -
  define h where "h = sn_hash input i"
  define n where "n = (case tab h of Some p \<Rightarrow> if i - p < 32768 then sn_match_len input p i 0 else 0 | None \<Rightarrow> 0)"
  note eq = assms [unfolded sn_Compress_loop.simps [of input i] Let_def, folded h_def, folded n_def]
  consider "\<not> i + 4 \<le> length input" | "i + 4 \<le> length input" "\<not> (n \<ge> 4 \<and> (i - ls > 0 \<or> n > 4 \<or> i + 4 \<ge> length input))"
    | "i + 4 \<le> length input" "n \<ge> 4" "n \<ge> 4 \<and> (i - ls > 0 \<or> n > 4 \<or> i + 4 \<ge> length input)"
    by blast
  then show thesis
  proof cases
    case 1
    then show thesis using finish eq by simp
  next
    case 2
    show thesis
      by (rule step [OF 2(1)]) (simp only: eq [symmetric] 2 if_True if_False h_def [symmetric])
  next
    case 3
    then obtain p where p: "tab h = Some p" "i - p < 32768" "sn_match_len input p i 0 = n"
      by (auto simp: n_def split: option.splits if_splits)
    show thesis
      by (rule copy [OF 3(1) p(1) [unfolded h_def] p(2,3) 3(2)])
        (simp only: eq [symmetric] 3 p if_True option.sel h_def [symmetric] simp_thms)
  qed
qed

lemma Compress_loop_emitted:
  assumes "length input < 60" and "sn_emitted input out ls" and "ls \<le> i" and "i \<le> length input" and "tab_below i tab"
    and "sn_Compress_loop input i ls tab out = (i', ls', out')"
  shows "sn_emitted input out' ls' \<and> ls' \<le> i' \<and> i' \<le> length input \<and> length input < i' + 4"
  using assms(2-)
proof (induction "length input - i" arbitrary: i ls tab out rule: less_induct)
  case less
  have below: "tab_below j (tab(sn_hash input i \<mapsto> i))" if "i < j" for j
    using less.prems(4) that by (auto intro: tab_below_upd)
  from less.prems(5) show ?case
  proof (cases rule: sn_Compress_loop_cases)
    case finish
    with less.prems show ?thesis by simp
  next
    case step
    have "sn_Compress_loop input (i + 1) ls (tab(sn_hash input i \<mapsto> i)) out = (i', ls', out')" using step(2) by (rule sym)
    then show ?thesis using step(1) less.prems below [of "i + 1"] by (intro less.hyps) auto
  next
    case (copy p n)
    have p: "p < i" using copy(2) less.prems(4) by (auto simp: tab_below_def)
    have m: "n \<le> 64 \<and> i + n \<le> length input \<and> (\<forall>k < n. input ! (p + k) = input ! (i + k))"
      using less.prems(3) by (intro sn_match_len_spec [OF copy(4)]) simp_all
    have "sn_emitted input (if i > ls then out @ sn_EmitLiteral input ls (i - ls) else out) i"
      using less.prems(1-3) assms(1) sn_emitted_literal [of input out ls "i - ls"] by auto
    then have "sn_emitted input ((if i > ls then out @ sn_EmitLiteral input ls (i - ls) else out)
        @ sn_copy_element (i - p) n) (i + n)"
      using m copy(3,5) p uncompress_copy [of "i - p" i n input] by (simp add: sn_emitted_def)
    then show ?thesis
      using m copy(1,5) below [of "i + n"]
      by (intro less.hyps [OF _ _ _ _ _ copy(6) [symmetric]]) (auto intro: tab_below_rehash)
  qed
qed

section \<open>Properties\<close>

text \<open>
  the compressor round trip for blocks of fewer than 60 bytes: decoding what \<open>Compress\<close> wrote
  gives back the input, less at most the last three bytes.
\<close>

theorem snappy_short_roundtrip:
  assumes "length input < 60"
  shows "\<exists>k \<le> 3. sn_Uncompress (sn_Compress input) = take (length input - k) input"
proof (cases "input = []")
  case False
  obtain i ls out where l: "sn_Compress_loop input 0 0 (\<lambda>_. None) [] = (i, ls, out)"
    by (cases "sn_Compress_loop input 0 0 (\<lambda>_. None) []")
  then have e: "sn_emitted input out ls \<and> ls \<le> i \<and> i \<le> length input \<and> length input < i + 4"
    by (intro Compress_loop_emitted [OF assms, of "[]" 0 0]) (simp_all add: sn_emitted_def tab_below_def)
  show ?thesis
  proof (cases "i > ls \<or> ls = 0")
    case True
    have "sn_emitted input (out @ sn_EmitLiteral input ls (length input - ls)) (length input)"
      using e assms sn_emitted_literal [of input out ls "length input - ls"] by simp
    from this [unfolded sn_emitted_def, rule_format, of "[]"] True False l show ?thesis
      by (intro exI [of _ 0]) (simp add: sn_Uncompress_def sn_Compress_def)
  next
    case no_tail: False
    with e False l show ?thesis
      by (intro exI [of _ "length input - ls"])
        (auto simp: sn_Uncompress_def sn_Compress_def sn_emitted_def dest: spec [of _ "[]"])
  qed
qed (use exI [of "\<lambda>k. k \<le> (3 :: nat)" 0] in \<open>simp add: sn_Uncompress_def sn_Compress_def\<close>)

theorem snappy_short_roundtrip_witness:
  "length [1, 2, 3 :: u8] < 60 \<and> (\<exists>k \<le> 3. sn_Uncompress (sn_Compress [1, 2, 3]) = take (length [1, 2, 3 :: u8] - k) [1, 2, 3])"
  using snappy_short_roundtrip [of "[1, 2, 3]"] by simp

text \<open>
  the compressor loses data. A block that ends in up to three bytes after a copied run loses
  them, because the last literal is only written when the scan passed beyond its start.
\<close>

theorem snappy_loses_tail:
  "sn_Uncompress (sn_Compress [7, 7, 7, 7, 7, 7, 7, 7, 1, 2]) = [7, 7, 7, 7, 7, 7, 7, 7]"
proof -
  have "sn_Compress [7, 7, 7, 7, 7, 7, 7, 7, 1, 2] = [4, 7, 26, 1, 0, 0, 0]"
    by (simp add: sn_Compress_def sn_Compress_loop.simps sn_hash_def rd32_def le32_def sn_match_len.simps
        sn_copy_element_def sn_rehash_def sn_EmitLiteral_def) code_simp
  moreover have "sn_Uncompress [4, 7, 26, 1, 0, 0, 0] = [7, 7, 7, 7, 7, 7, 7, 7]"
    by code_simp
  ultimately show ?thesis by simp
qed

text \<open>
  A literal of 60 to 255 bytes is not decoded as one. \<open>EmitLiteral\<close> stores the length less 60,
  \<open>Uncompress\<close> takes the stored byte for the length, so of 60 bytes none is taken and the literal's own
  bytes are read as tags.
\<close>

theorem snappy_literal_60_mangled:
  assumes "60 \<le> n" and "n \<le> 255" and "lit_start + n \<le> length input"
  shows "sn_Uncompress_loop (sn_EmitLiteral input lit_start n @ r) out
    = sn_Uncompress_loop (drop (lit_start + (n - 60)) (take (lit_start + n) input) @ r)
        (out @ take (n - 60) (drop lit_start input))"
proof -
  have u: "unat (of_nat (n - 60) :: u8) = n - 60" using assms(2) by (simp add: unat_of_nat_small)
  have "sn_literal 240 (of_nat (n - 60) # take n (drop lit_start input) @ r) = (n - 60, take n (drop lit_start input) @ r)"
    by (simp only: sn_literal_def Let_def) (simp add: u del: of_nat_diff)
  moreover have "drop (n - 60) (take n (drop lit_start input)) = drop (lit_start + (n - 60)) (take (lit_start + n) input)"
    by (simp add: drop_take add.commute)
  moreover have "\<not> n + length r < n - 60" by simp
  ultimately show ?thesis
    using assms
    by (simp add: sn_EmitLiteral_def sn_Uncompress_loop.simps(2) min_absorb1 del: of_nat_diff)
qed

theorem snappy_literal_60_mangled_witness:
  "sn_Uncompress_loop (sn_EmitLiteral (replicate 60 4) 0 60 @ []) []
   = sn_Uncompress_loop (drop (0 + (60 - 60)) (take (0 + 60) (replicate 60 4)) @ []) ([] @ take (60 - 60) (drop 0 (replicate 60 4)))"
  by (rule snappy_literal_60_mangled) simp_all

end
