(* ===== verification/Iterators.thy ===== *)
theory Iterators
  imports Compaction Snappy
begin

text \<open>
  The iterators of \<^verbatim>\<open>include/kvdb/iterator.hpp\<close> and \<^verbatim>\<open>src/iterator.cpp\<close>: \<open>SSTableIterator\<close>, which
  walks through the blocks of a table, from the file or through the block cache. The locale \<open>source_iter\<close> is the interface
  \<open>SourceIterator\<close>: an iterator delivers the entries of a list one by one. It is interpreted here for tables, in \<open>Level_Iter\<close> for levels and
  in \<open>Engine_Scan\<close> for copied memtables; \<open>RangeIterator\<close>, in \<open>Range_Scan\<close>, merges such lists.
\<close>

section \<open>The source interface\<close>

locale source_iter =
  fixes inv :: "'s \<Rightarrow> bool"
    and valid :: "'s \<Rightarrow> bool"
    and cur :: "'s \<Rightarrow> KeyValuePair"
    and nxt :: "'s \<Rightarrow> 's"
    and rest :: "'s \<Rightarrow> KeyValuePair list"
  assumes inv_nxt: "inv s \<Longrightarrow> valid s \<Longrightarrow> inv (nxt s)"
    and valid_rest: "inv s \<Longrightarrow> valid s \<longleftrightarrow> rest s \<noteq> []"
    and cur_rest: "inv s \<Longrightarrow> valid s \<Longrightarrow> cur s = hd (rest s)"
    and rest_nxt: "inv s \<Longrightarrow> valid s \<Longrightarrow> rest (nxt s) = tl (rest s)"
begin

text \<open>The first \<open>n\<close> entries.\<close>

primrec drain :: "nat \<Rightarrow> 's \<Rightarrow> KeyValuePair list" where
  "drain 0 s = []"
| "drain (Suc n) s = (if valid s then cur s # drain n (nxt s) else [])"

lemma drain_rest: "inv s \<Longrightarrow> drain n s = take n (rest s)"
proof (induction n arbitrary: s)
  case (Suc n)
  show ?case
  proof (cases "valid s")
    case True
    with Suc.prems have "rest s \<noteq> []" by (simp add: valid_rest)
    then have "take (Suc n) (rest s) = hd (rest s) # take n (tl (rest s))" by (cases "rest s") simp_all
    with True Suc show ?thesis by (simp add: inv_nxt cur_rest rest_nxt)
  qed (use Suc.prems in \<open>simp add: valid_rest\<close>)
qed simp

text \<open>The default \<open>SeekToKey\<close>, a loop that is given by its equation: it ends.\<close>

lemma seek_rest:
  assumes "\<And>s. loop s = (if valid s \<and> kv_key (cur s) < key then loop (nxt s) else Some s)" and "inv s"
  obtains s' where "loop s = Some s'" "inv s'" "rest s' = dropWhile (\<lambda>e. kv_key e < key) (rest s)"
  using assms(2)
proof (induction "rest s" arbitrary: s thesis)
  case Nil
  then have "\<not> valid s" using valid_rest by auto
  then have "loop s = Some s" by (subst assms(1)) simp
  with Nil show ?case by simp
next
  case (Cons x xs)
  then have v: "valid s" and c: "cur s = x" and n: "xs = rest (nxt s)" "inv (nxt s)"
    using valid_rest cur_rest rest_nxt inv_nxt by (metis list.distinct(1) list.sel(1,3))+
  show ?case
  proof (cases "kv_key x < key")
    case True
    then have "loop s = loop (nxt s)" using v c by (subst assms(1)) simp
    moreover obtain s' where "loop (nxt s) = Some s'" "inv s'" "rest s' = dropWhile (\<lambda>e. kv_key e < key) (rest (nxt s))"
      using Cons.hyps(1) [OF n(1) _ n(2)] by blast
    moreover have "dropWhile (\<lambda>e. kv_key e < key) (rest s) = dropWhile (\<lambda>e. kv_key e < key) (rest (nxt s))"
      unfolding Cons.hyps(2) [symmetric] n(1) [symmetric] using True by simp
    ultimately show ?thesis using Cons.prems(1) [of s'] by simp
  next
    case False
    then have "loop s = Some s" using v c by (subst assms(1)) simp
    moreover have "rest s = dropWhile (\<lambda>e. kv_key e < key) (rest s)"
      unfolding Cons.hyps(2) [symmetric] using False by simp
    ultimately show ?thesis using Cons.prems by blast
  qed
qed

text \<open>A loop that collects all entries.\<close>

lemma all_rest:
  assumes "\<And>s. loop s = (if valid s then Option.bind (loop (nxt s)) (\<lambda>es. Some (cur s # es)) else Some [])" and "inv s"
  shows "loop s = Some (rest s)"
  using assms(2)
proof (induction "rest s" arbitrary: s)
  case Nil
  then have "\<not> valid s" using valid_rest by auto
  then show ?case using Nil(1) by (subst assms(1)) simp
next
  case (Cons x xs)
  then have v: "valid s" using valid_rest by auto
  have r: "rest s = x # xs" by (rule Cons.hyps(2) [symmetric])
  then have "xs = rest (nxt s)" "cur s = x" using Cons.prems v by (simp_all add: rest_nxt cur_rest)
  then have "loop (nxt s) = Some xs" using Cons.hyps(1) [of "nxt s"] inv_nxt [OF Cons.prems v] by simp
  then show ?case unfolding r using v \<open>cur s = x\<close> by (subst assms(1)) simp
qed

end

section \<open>SSTableIterator\<close>

record sst_iter =
  it_file :: bytes
  it_block :: block
  it_pos :: nat
  it_total :: u32
  it_read :: u32
  it_current :: KeyValuePair
  it_reader :: "block_cache option"
  it_seq :: u64
  it_cur_block :: u32
  it_populate :: bool
  it_aborted :: "u64 list"
  it_stream :: bytes

definition blk_none :: block where
  "blk_none = \<lparr>blk_data = [], blk_pos = 0, blk_count = 0, blk_idx = 0\<rparr>"

definition kv_default :: KeyValuePair where
  "kv_default = \<lparr>kv_key = [], kv_value = [], kv_timestamp = 0, kv_is_tombstone = False\<rparr>"

text \<open>\<^verbatim>\<open>block_.Seek(i); block_.Read(current)\<close>: a failing read leaves the entry as it was.\<close>

definition it_load :: "nat \<Rightarrow> sst_iter \<Rightarrow> sst_iter" where
  "it_load i it = (case blk_Read (blk_Seek (of_nat i) (it_block it)) of
     (b, None) \<Rightarrow> it\<lparr>it_block := b\<rparr>
   | (b, Some kv) \<Rightarrow> it\<lparr>it_block := b, it_current := kv\<rparr>)"

lemma it_load_fields [simp]:
  "blk_count (it_block (it_load i it)) = blk_count (it_block it)" "it_pos (it_load i it) = it_pos it"
  "it_aborted (it_load i it) = it_aborted it"
  by (auto simp: it_load_def split: prod.split option.split dest!: blk_count_Read)

text \<open>The loop that skips aborted entries inside a block.\<close>

function it_skip_aborted :: "sst_iter \<Rightarrow> sst_iter" where
  "it_skip_aborted it =
     (if kv_timestamp (it_current it) \<in> set (it_aborted it)
      then let it1 = it\<lparr>it_pos := it_pos it + 1\<rparr>
           in if it_pos it1 \<ge> unat (blk_count (it_block it1)) then it1
              else it_skip_aborted (it_load (it_pos it1) it1)
      else it)"
  by pat_completeness auto
termination
  by (relation "measure (\<lambda>it. unat (blk_count (it_block it)) - it_pos it)") (auto simp: Let_def)

declare it_skip_aborted.simps [simp del]

text \<open>A block was obtained, from the cache or from the file.\<close>

definition it_open_block :: "bytes \<Rightarrow> sst_iter \<Rightarrow> sst_iter" where
  "it_open_block d it =
     (let b = blk_new d;
          it1 = it\<lparr>it_block := b, it_read := it_read it + blk_count b, it_cur_block := it_cur_block it + 1\<rparr>
      in it_skip_aborted (it_load 0 it1))"

definition it_DecompressBlock :: "u8 \<Rightarrow> bytes \<Rightarrow> bytes" where
  "it_DecompressBlock comp_byte d = (if comp_byte = kCompressionSnappy then sn_Uncompress d else d)"

text \<open>\<^verbatim>\<open>reader_->GetBlock(manifest_seq_, cur_block_)\<close>, asked only for a table with a sequence number.\<close>

definition it_cached :: "sst_iter \<Rightarrow> bytes option" where
  "it_cached it = (if it_seq it \<noteq> 0
     then Option.bind (it_reader it) (\<lambda>c. bc_blocks c (it_seq it, it_cur_block it)) else None)"

definition it_ReadNextBlock :: "sst_iter \<Rightarrow> sst_iter" where
  "it_ReadNextBlock it0 =
     (let it = it0\<lparr>it_pos := 0\<rparr>
      in if it_read it \<ge> it_total it then it\<lparr>it_block := blk_none\<rparr>
         else case it_cached it of
                Some d \<Rightarrow> it_open_block d it
              | None \<Rightarrow>
                  (let s = it_stream it; (_, s) = s_u32 s; (cb, s) = s_get s; (csz, s) = s_u32 s;
                       (d, s) = s_read (unat csz) s; d = it_DecompressBlock cb d;
                       it1 = it_open_block d (it\<lparr>it_stream := s\<rparr>)
                   in if it_populate it1 \<and> it_seq it1 \<noteq> 0
                      then it1\<lparr>it_reader := map_option (\<lambda>c. c\<lparr>bc_blocks :=
                             (bc_blocks c)((it_seq it1, it_cur_block it1 - 1) \<mapsto> d)\<rparr>) (it_reader it1)\<rparr>
                      else it1))"

text \<open>The constructors; \<open>file = None\<close> is a file that does not open.\<close>

definition it_new ::
  "bytes option \<Rightarrow> block_cache option \<Rightarrow> u64 \<Rightarrow> bool \<Rightarrow> u64 list \<Rightarrow> sst_iter" where
  "it_new file reader seq populate aborted =
     (let it0 = \<lparr>it_file = (case file of None \<Rightarrow> [] | Some f \<Rightarrow> f), it_block = blk_none, it_pos = 0,
                 it_total = 0, it_read = 0, it_current = kv_default, it_reader = reader, it_seq = seq,
                 it_cur_block = 0, it_populate = populate, it_aborted = aborted, it_stream = []\<rparr>
      in case file of None \<Rightarrow> it0
         | Some f \<Rightarrow>
             (let (_, s) = s_u32 f; (_, s) = s_u32 s; (_, s) = s_u32 s; (n, s) = s_u32 s
              in it_ReadNextBlock (it0\<lparr>it_total := n, it_stream := drop 8 s\<rparr>)))"

definition it_Valid :: "sst_iter \<Rightarrow> bool" where
  "it_Valid it \<longleftrightarrow> it_pos it < unat (blk_count (it_block it))
     \<or> it_read it < it_total it \<and> blk_count (it_block it) > 0"

function it_Next :: "sst_iter \<Rightarrow> sst_iter" where
  "it_Next it =
     (let it1 = it\<lparr>it_pos := it_pos it + 1\<rparr>
      in if it_pos it1 \<ge> unat (blk_count (it_block it1)) then it_ReadNextBlock it1
         else let it2 = it_load (it_pos it1) it1
              in if kv_timestamp (it_current it2) \<in> set (it_aborted it2) then it_Next it2 else it2)"
  by pat_completeness auto
termination
  by (relation "measure (\<lambda>it. unat (blk_count (it_block it)) - it_pos it)") (auto simp: Let_def)

declare it_Next.simps [simp del]

section \<open>A table with all or none of its blocks in the cache\<close>

text \<open>
  What the cache has for the blocks from number \<open>c\<close> on. The table is cold when it has none of them and the file stands at the first, and hot when
  it has them all.
\<close>

primrec cache_view :: "(u32 \<Rightarrow> bytes option) \<Rightarrow> (KeyValuePair list \<Rightarrow> bytes option) \<Rightarrow> u32 \<Rightarrow> KeyValuePair list list \<Rightarrow> bool" where
  "cache_view g w c [] = True"
| "cache_view g w c (b # bs) = (g c = w b \<and> cache_view g w (c + 1) bs)"

definition bc_view :: "block_cache option \<Rightarrow> u64 \<Rightarrow> u32 \<Rightarrow> bytes option" where
  "bc_view c seq i = (if seq \<noteq> 0 then Option.bind c (\<lambda>c. bc_blocks c (seq, i)) else None)"

definition it_supply :: "KeyValuePair list list \<Rightarrow> sst_iter \<Rightarrow> bool" where
  "it_supply bs it \<longleftrightarrow> unat (it_cur_block it) + length bs < 2 ^ 32
     \<and> ((\<exists>r. it_stream it = concat (map frm bs) @ r) \<and> cache_view (bc_view (it_reader it) (it_seq it)) (\<lambda>_. None) (it_cur_block it) bs
        \<or> cache_view (bc_view (it_reader it) (it_seq it)) (\<lambda>b. Some (blk_bytes b)) (it_cur_block it) bs)"

lemma it_supply_fields [simp]:
  "it_supply bs (it\<lparr>it_pos := n\<rparr>) = it_supply bs it" "it_supply bs (it\<lparr>it_block := b\<rparr>) = it_supply bs it"
  "it_supply bs (it\<lparr>it_current := e\<rparr>) = it_supply bs it"
  by (simp_all add: it_supply_def)

text \<open>The iterator stands at entry \<open>i\<close> of a block with entries \<open>es\<close>; the blocks \<open>bs\<close> are unread.\<close>

definition it_at :: "KeyValuePair list \<Rightarrow> nat \<Rightarrow> KeyValuePair list list \<Rightarrow> sst_iter \<Rightarrow> bool" where
  "it_at es i bs it \<longleftrightarrow> it_block it = blk_at es (Suc i) \<and> i < length es \<and> it_pos it = i
     \<and> it_current it = es ! i \<and> it_supply bs it
     \<and> table_block_ok es \<and> (\<forall>b \<in> set bs. table_block_ok b) \<and> it_aborted it = []
     \<and> length es \<le> unat (it_read it) \<and> unat (it_total it) = unat (it_read it) + length (concat bs)"

definition it_end :: "sst_iter \<Rightarrow> bool" where
  "it_end it \<longleftrightarrow> it_block it = blk_none \<and> it_read it \<ge> it_total it"

lemma blk_count_at: "blk_count (blk_at es i) = of_nat (length es)"
  by (simp add: blk_at_def)

lemma table_block_count: "table_block_ok es \<Longrightarrow> unat (of_nat (length es) :: u32) = length es"
  by (simp add: table_block_ok_def block_ok_def unat_of_nat_small)

lemma it_load_at:
  assumes "it_block it = blk_at es j" and "j \<le> length es" and "table_block_ok es" and "i < length es"
  shows "it_load i it = it\<lparr>it_block := blk_at es (Suc i), it_current := es ! i\<rparr>"
  using assms by (simp add: it_load_def table_block_ok_def blk_Seek_at blk_Read_at)

lemma it_open_block_at:
  assumes "table_block_ok b" and "it_aborted it = []"
  shows "it_open_block (blk_bytes b) it
    = it\<lparr>it_block := blk_at b 1, it_current := b ! 0, it_read := it_read it + of_nat (length b),
         it_cur_block := it_cur_block it + 1\<rparr>"
proof -
  let ?it = "it\<lparr>it_block := blk_new (blk_bytes b), it_read := it_read it + of_nat (length b),
    it_cur_block := it_cur_block it + 1\<rparr>"
  have "it_load 0 ?it = ?it\<lparr>it_block := blk_at b (Suc 0), it_current := b ! 0\<rparr>"
    using assms(1) by (intro it_load_at [where j = 0]) (simp_all add: blk_new_at table_block_ok_def)
  with assms(2) show ?thesis
    by (simp add: it_open_block_def Let_def blk_new_at blk_count_at, subst it_skip_aborted.simps) simp
qed

text \<open>The entries of one block are delivered before the next block is opened.\<close>

definition it_in :: "KeyValuePair list \<Rightarrow> nat \<Rightarrow> sst_iter \<Rightarrow> bool" where
  "it_in es i it \<longleftrightarrow> it_block it = blk_at es (Suc i) \<and> i < length es \<and> it_pos it = i
     \<and> it_current it = es ! i \<and> table_block_ok es \<and> it_aborted it = []"

lemma it_cached_pos [simp]: "it_cached (it\<lparr>it_pos := n\<rparr>) = it_cached it"
  by (simp add: it_cached_def)

text \<open>A block found in the cache is opened without moving the position of the file.\<close>

lemma it_read_cached:
  assumes "it_cached it = Some (blk_bytes b)" and "\<not> it_read it \<ge> it_total it" and "table_block_ok b" and "it_aborted it = []"
  shows "it_ReadNextBlock it = it\<lparr>it_pos := 0, it_block := blk_at b 1, it_current := b ! 0,
      it_read := it_read it + of_nat (length b), it_cur_block := it_cur_block it + 1\<rparr>"
  using assms by (simp add: it_ReadNextBlock_def Let_def it_open_block_at)

lemma it_read_frame:
  assumes "it_cached it = None"
    and "it_stream it = frm b @ r" and "\<not> it_read it \<ge> it_total it" and "table_block_ok b" and "it_aborted it = []"
  shows "it_in b 0 (it_ReadNextBlock it) \<and> it_cur_block (it_ReadNextBlock it) = it_cur_block it + 1
    \<and> it_stream (it_ReadNextBlock it) = r \<and> it_read (it_ReadNextBlock it) = it_read it + of_nat (length b)
    \<and> it_total (it_ReadNextBlock it) = it_total it \<and> it_seq (it_ReadNextBlock it) = it_seq it
    \<and> it_reader (it_ReadNextBlock it) = (if it_populate it \<and> it_seq it \<noteq> 0 then
        map_option (\<lambda>c. c\<lparr>bc_blocks := (bc_blocks c)((it_seq it, it_cur_block it) \<mapsto> blk_bytes b)\<rparr>) (it_reader it)
        else it_reader it)"
proof -
  have u: "unat (of_nat (length (blk_bytes b)) :: u32) = length (blk_bytes b)"
    using assms(4) by (simp add: table_block_ok_def unat_of_nat_small)
  have ne: "b \<noteq> []" using assms(4) by (simp add: table_block_ok_def)
  define it1 where "it1 = it_open_block (blk_bytes b) (it\<lparr>it_pos := 0, it_stream := r\<rparr>)"
  have o: "it1 = it\<lparr>it_pos := 0, it_stream := r, it_block := blk_at b 1, it_current := b ! 0,
      it_read := it_read it + of_nat (length b), it_cur_block := it_cur_block it + 1\<rparr>"
    unfolding it1_def using assms(4,5) by (simp add: it_open_block_at)
  have "it_ReadNextBlock it = (if it_populate it1 \<and> it_seq it1 \<noteq> 0 then it1\<lparr>it_reader := map_option (\<lambda>c. c\<lparr>bc_blocks :=
          (bc_blocks c)((it_seq it1, it_cur_block it1 - 1) \<mapsto> blk_bytes b)\<rparr>) (it_reader it1)\<rparr> else it1)"
    using assms(1,2,3) u
    by (simp add: it_ReadNextBlock_def Let_def frm_def block_frame_def codec_simps s_get_def it_DecompressBlock_def
        kCompression_def kCompressionNone_def kCompressionSnappy_def it1_def it_cached_pos)
  with assms ne show ?thesis unfolding o by (simp add: it_in_def)
qed

lemma it_cached_view: "it_cached it = bc_view (it_reader it) (it_seq it) (it_cur_block it)"
  by (simp add: it_cached_def bc_view_def)

lemma cache_view_cong:
  "(\<And>i. i < length bs \<Longrightarrow> g (c + of_nat i) = h (c + of_nat i)) \<Longrightarrow> cache_view g w c bs = cache_view h w c bs"
proof (induction bs arbitrary: c)
  case (Cons b bs)
  have "g (c + 1 + of_nat i) = h (c + 1 + of_nat i)" if "i < length bs" for i
    using Cons.prems [of "Suc i"] that by (simp add: ac_simps)
  with Cons.IH [of "c + 1"] Cons.prems [of 0] show ?case by simp
qed simp

lemma unat_next32: "unat (c :: u32) + n < 2 ^ 32 \<Longrightarrow> i < n \<Longrightarrow> unat (c + 1 + of_nat i) = unat c + 1 + i"
  by (simp add: unat_word_ariths unat_of_nat_small)

lemma it_read_next_at:
  assumes "table_block_ok b" and "\<forall>b \<in> set bs. table_block_ok b" and "it_supply (b # bs) it" and "it_aborted it = []"
    and "unat (it_total it) = unat (it_read it) + length (concat (b # bs))"
  shows "it_at b 0 bs (it_ReadNextBlock it)"
proof -
  have ne: "b \<noteq> []" using assms(1) by (simp add: table_block_ok_def)
  then have lt: "\<not> it_read it \<ge> it_total it" using assms(5) by (simp add: word_le_nat_alt)
  have "unat (it_read it) + length b < 2 ^ 32"
    using assms(5) unat_less32 [of "it_total it"] by simp
  then have u: "unat (it_read it + of_nat (length b)) = unat (it_read it) + length b"
    using table_block_count [OF assms(1)] by (simp add: unat_word_ariths)
  have c: "unat (it_cur_block it) + Suc (length bs) < 2 ^ 32" using assms(3) by (simp add: it_supply_def)
  then have c1: "unat (it_cur_block it + 1) = Suc (unat (it_cur_block it))" by (simp add: unat_word_ariths)
  consider (cold) r where "it_cached it = None" "it_stream it = frm b @ concat (map frm bs) @ r"
      "cache_view (bc_view (it_reader it) (it_seq it)) (\<lambda>_. None) (it_cur_block it + 1) bs"
    | (hot) "it_cached it = Some (blk_bytes b)" "cache_view (bc_view (it_reader it) (it_seq it)) (\<lambda>b. Some (blk_bytes b)) (it_cur_block it + 1) bs"
    using assms(3) by (auto simp: it_supply_def it_cached_view)
  then show ?thesis
  proof cases
    case cold
    note fr = it_read_frame [OF cold(1,2) lt assms(1,4)]
    have "cache_view (bc_view (it_reader (it_ReadNextBlock it)) (it_seq it)) (\<lambda>_. None) (it_cur_block it + 1) bs
        = cache_view (bc_view (it_reader it) (it_seq it)) (\<lambda>_. None) (it_cur_block it + 1) bs"
    proof (rule cache_view_cong)
      fix i assume i: "i < length bs"
      then have "unat (it_cur_block it + 1 + of_nat i) = unat (it_cur_block it) + 1 + i" using c by (intro unat_next32 [where n = "length bs"]) auto
      then have "it_cur_block it + 1 + of_nat i \<noteq> it_cur_block it" by (metis Suc_eq_plus1 add_Suc_right add_Suc n_not_Suc_n less_add_Suc1 less_irrefl_nat)
      then show "bc_view (it_reader (it_ReadNextBlock it)) (it_seq it) (it_cur_block it + 1 + of_nat i)
          = bc_view (it_reader it) (it_seq it) (it_cur_block it + 1 + of_nat i)"
        using fr by (cases "it_reader it") (auto simp: bc_view_def)
    qed
    with cold fr have "it_supply bs (it_ReadNextBlock it)" using c c1 by (auto simp: it_supply_def)
    with fr u assms show ?thesis by (auto simp: it_at_def it_in_def)
  next
    case hot
    have "it_ReadNextBlock it = it\<lparr>it_pos := 0, it_block := blk_at b 1, it_current := b ! 0,
      it_read := it_read it + of_nat (length b), it_cur_block := it_cur_block it + 1\<rparr>"
      by (rule it_read_cached [OF hot(1) lt assms(1,4)])
    with hot(2) c c1 u assms ne show ?thesis by (simp add: it_at_def it_supply_def)
  qed
qed

lemma it_Next_at:
  assumes "it_at es i bs it"
  shows "it_at es (Suc i) bs (it_Next it) \<and> Suc i < length es
    \<or> Suc i = length es \<and> (\<exists>b bs'. bs = b # bs' \<and> it_at b 0 bs' (it_Next it))
    \<or> Suc i = length es \<and> bs = [] \<and> it_end (it_Next it)"
proof -
  have c: "unat (blk_count (it_block it)) = length es"
    using assms by (simp add: it_at_def blk_count_at table_block_count)
  show ?thesis
  proof (cases "Suc i < length es")
    case True
    have "it_load (Suc i) (it\<lparr>it_pos := Suc i\<rparr>)
        = it\<lparr>it_pos := Suc i, it_block := blk_at es (Suc (Suc i)), it_current := es ! Suc i\<rparr>"
      using assms True it_load_at [of "it\<lparr>it_pos := Suc i\<rparr>" es "Suc i" "Suc i"] by (simp add: it_at_def)
    with True assms c show ?thesis by (subst it_Next.simps) (simp add: Let_def it_at_def)
  next
    case False
    then have last: "Suc i = length es" using assms by (simp add: it_at_def)
    then have nx: "it_Next it = it_ReadNextBlock (it\<lparr>it_pos := Suc i\<rparr>)"
      using assms c by (subst it_Next.simps) (simp add: Let_def it_at_def)
    show ?thesis
    proof (cases bs)
      case Nil
      then have "it_read it \<ge> it_total it" using assms by (simp add: it_at_def word_le_nat_alt)
      with Nil last show ?thesis unfolding nx by (simp add: it_ReadNextBlock_def it_end_def Let_def)
    next
      case (Cons b bs')
      then have "it_at b 0 bs' (it_ReadNextBlock (it\<lparr>it_pos := Suc i\<rparr>))"
        using assms by (intro it_read_next_at) (simp_all add: it_at_def)
      with Cons last show ?thesis unfolding nx by simp
    qed
  qed
qed

lemma it_Valid_at: "it_at es i bs it \<Longrightarrow> it_Valid it"
  by (simp add: it_at_def it_Valid_def blk_count_at table_block_count)

lemma it_Valid_end: "it_end it \<Longrightarrow> \<not> it_Valid it"
  by (simp add: it_end_def it_Valid_def blk_none_def)

primrec it_collect :: "nat \<Rightarrow> sst_iter \<Rightarrow> KeyValuePair list" where
  "it_collect 0 it = []"
| "it_collect (Suc n) it = (if it_Valid it then it_current it # it_collect n (it_Next it) else [])"

lemma it_collect_end: "it_end it \<Longrightarrow> it_collect n it = []"
  by (cases n) (simp_all add: it_Valid_end)

lemma it_collect_at:
  assumes "it_at es i bs it" and "length (drop i es @ concat bs) \<le> n"
  shows "it_collect n it = drop i es @ concat bs"
  using assms
proof (induction n arbitrary: es i bs it)
  case 0
  then show ?case by (simp add: it_at_def)
next
  case (Suc n)
  have i: "drop i es = es ! i # drop (Suc i) es" and cur: "it_current it = es ! i"
    using Suc.prems by (simp_all add: it_at_def Cons_nth_drop_Suc)
  have v: "it_Valid it" by (rule it_Valid_at [OF Suc.prems(1)])
  consider "it_at es (Suc i) bs (it_Next it)" | b bs' where "Suc i = length es" "bs = b # bs'" "it_at b 0 bs' (it_Next it)"
    | "Suc i = length es" "bs = []" "it_end (it_Next it)"
    using it_Next_at [OF Suc.prems(1)] by blast
  then show ?case
  proof cases
    case 1
    with Suc i cur v show ?thesis by simp
  next
    case 2
    with Suc i cur v show ?thesis by simp
  next
    case 3
    with i cur v show ?thesis by (simp add: it_collect_end)
  qed
qed

text \<open>The remaining entries; the number of entries of the table bounds them.\<close>

definition it_rest :: "sst_iter \<Rightarrow> KeyValuePair list" where
  "it_rest it = it_collect (unat (it_total it)) it"

definition it_inv :: "sst_iter \<Rightarrow> bool" where
  "it_inv it \<longleftrightarrow> (\<exists>es i bs. it_at es i bs it) \<or> it_end it"

lemma it_rest_at: "it_at es i bs it \<Longrightarrow> it_rest it = drop i es @ concat bs"
  unfolding it_rest_def by (rule it_collect_at) (auto simp: it_at_def)

lemma it_rest_end: "it_end it \<Longrightarrow> it_rest it = []"
  by (simp add: it_rest_def it_collect_end)

interpretation sst: source_iter it_inv it_Valid it_current it_Next it_rest
proof
  fix s
  assume inv: "it_inv s"
  show "it_Valid s \<longleftrightarrow> it_rest s \<noteq> []"
    using inv by (auto simp: it_inv_def it_rest_at it_rest_end it_Valid_end it_Valid_at) (auto simp: it_at_def)
  assume "it_Valid s"
  then obtain es i bs where at: "it_at es i bs s" using inv it_Valid_end by (auto simp: it_inv_def)
  then have d: "drop i es = es ! i # drop (Suc i) es" by (simp add: it_at_def Cons_nth_drop_Suc)
  show "it_inv (it_Next s)" using it_Next_at [OF at] by (auto simp: it_inv_def)
  show "it_current s = hd (it_rest s)" using at d by (simp add: it_rest_at) (simp add: it_at_def)
  show "it_rest (it_Next s) = tl (it_rest s)"
    using it_Next_at [OF at] at d by (auto simp: it_rest_at it_rest_end)
qed

text \<open>The layout of a table file: header, data blocks, and whatever follows.\<close>

definition data_file :: "KeyValuePair list list \<Rightarrow> bytes \<Rightarrow> bytes" where
  "data_file bs r = es_hdr (concat bs) @ concat (map frm bs) @ r"

definition it_start :: "bytes \<Rightarrow> bytes \<Rightarrow> block_cache option \<Rightarrow> u64 \<Rightarrow> bool \<Rightarrow> u32 \<Rightarrow> sst_iter" where
  "it_start f s reader seq p n =
     \<lparr>it_file = f, it_block = blk_none, it_pos = 0, it_total = n, it_read = 0, it_current = kv_default,
      it_reader = reader, it_seq = seq, it_cur_block = 0, it_populate = p, it_aborted = [], it_stream = s\<rparr>"

lemma it_new_data_file:
  "it_new (Some (data_file bs r)) reader seq p []
   = it_ReadNextBlock (it_start (data_file bs r) (concat (map frm bs) @ r) reader seq p (of_nat (length (concat bs))))"
  by (simp add: it_new_def it_start_def Let_def data_file_def es_hdr_def sst_header_def codec_simps)

text \<open>The cache has none of the blocks of a table, or all.\<close>

definition table_cache :: "block_cache option \<Rightarrow> u64 \<Rightarrow> KeyValuePair list \<Rightarrow> bytes \<Rightarrow> bool" where
  "table_cache c seq es f \<longleftrightarrow> (\<forall>i. bc_view c seq i = None)
     \<or> (\<exists>bs r. f = data_file bs r \<and> concat bs = es \<and> (\<forall>b \<in> set bs. table_block_ok b) \<and> cache_view (bc_view c seq) (\<lambda>b. Some (blk_bytes b)) 0 bs)"

lemma table_cache_None [simp]: "table_cache None seq es f"
  by (simp add: table_cache_def bc_view_def)

lemma cache_view_cold: "\<forall>i. g i = None \<Longrightarrow> cache_view g (\<lambda>_. None) c bs"
  by (induction bs arbitrary: c) simp_all

lemma sst_Write_data_file:
  assumes "\<forall>e \<in> set es. entry_ok e" and "length es < 2 ^ 32"
  obtains bs r where "concat bs = es" "\<forall>b \<in> set bs. table_block_ok b" "sst_Write bsz es ab = data_file bs r"
proof -
  obtain bs where bs: "concat bs = es" "\<forall>b \<in> set bs. block_fits b"
    "sst_Write bsz es ab = sst_finish (es_hdr es @ concat (map frm bs)) (es_meta bsz bs ab)"
    using sst_Write_shape [of es bsz ab] assms entry_ok_kv by blast
  moreover have "\<forall>b \<in> set bs. table_block_ok b" using table_blocks_ok [of bs] bs assms by blast
  ultimately show thesis using that [of bs] by (auto simp: data_file_def sst_finish_def)
qed

lemma length_le_concat: "\<forall>b \<in> set bs. b \<noteq> [] \<Longrightarrow> length bs \<le> length (concat bs)"
proof (induction bs)
  case (Cons b bs)
  then show ?case by (cases b) auto
qed simp

lemma it_new_blocks:
  assumes "concat bs = es" and "\<forall>b \<in> set bs. table_block_ok b" and "length es < 2 ^ 32" and "es \<noteq> []"
    and "(\<forall>i. bc_view c seq i = None) \<or> cache_view (bc_view c seq) (\<lambda>b. Some (blk_bytes b)) 0 bs"
  shows "it_inv (it_new (Some (data_file bs r)) c seq p []) \<and> it_rest (it_new (Some (data_file bs r)) c seq p []) = es"
proof -
  obtain b bs' where b: "bs = b # bs'" using assms(1,4) by (cases bs) auto
  have "length bs \<le> length (concat bs)" using assms(2) by (intro length_le_concat) (auto simp: table_block_ok_def)
  then have "length bs < 2 ^ 32" using assms(1,3) by simp
  then have "it_supply bs (it_start (data_file bs r) (concat (map frm bs) @ r) c seq p (of_nat (length (concat bs))))"
    using assms(5) cache_view_cold [of "bc_view c seq"] by (auto simp: it_supply_def it_start_def)
  then have "it_at b 0 bs' (it_new (Some (data_file bs r)) c seq p [])"
    unfolding it_new_data_file using assms(1-3) b
    by (intro it_read_next_at) (auto simp: it_start_def unat_of_nat_small)
  then show ?thesis using assms(1) b by (auto simp: it_inv_def it_rest_at)
qed

lemma it_new_at:
  assumes "\<forall>e \<in> set es. entry_ok e" and "length es < 2 ^ 32" and "es \<noteq> []" and "table_cache c seq es (sst_Write bsz es ab)"
  shows "it_inv (it_new (Some (sst_Write bsz es ab)) c seq p [])
    \<and> it_rest (it_new (Some (sst_Write bsz es ab)) c seq p []) = es"
proof -
  obtain bs r where "concat bs = es" "\<forall>b \<in> set bs. table_block_ok b" "sst_Write bsz es ab = data_file bs r"
    "(\<forall>i. bc_view c seq i = None) \<or> cache_view (bc_view c seq) (\<lambda>b. Some (blk_bytes b)) 0 bs"
    using assms(4) sst_Write_data_file [OF assms(1,2), of bsz ab] unfolding table_cache_def by metis
  with it_new_blocks [of bs es c seq r p] assms(2,3) show ?thesis by simp
qed

text \<open>The entries that an iterator delivers, if it comes to an end.\<close>

partial_function (option) it_all :: "sst_iter \<Rightarrow> KeyValuePair list option" where
  "it_all it = (if it_Valid it then Option.bind (it_all (it_Next it)) (\<lambda>es. Some (it_current it # es)) else Some [])"

declare it_all.simps [code]

lemma it_all_rest: "it_inv it \<Longrightarrow> it_all it = Some (it_rest it)"
  by (rule sst.all_rest [OF it_all.simps])

section \<open>Seeking\<close>

text \<open>The plain loop; it may run forever on a damaged file, hence the option.\<close>

partial_function (option) it_seek_loop :: "bytes \<Rightarrow> sst_iter \<Rightarrow> sst_iter option" where
  "it_seek_loop key it =
     (if it_Valid it \<and> kv_key (it_current it) < key then it_seek_loop key (it_Next it) else Some it)"

declare it_seek_loop.simps [code]

text \<open>The first key of block \<open>j\<close>, found by walking over the \<open>j\<close> keys before it.\<close>

primrec fk_scan :: "nat \<Rightarrow> bytes \<Rightarrow> bytes" where
  "fk_scan 0 buf = take (unat (rd16 buf 0)) (drop 2 buf)"
| "fk_scan (Suc j) buf = fk_scan j (drop (2 + unat (rd16 buf 0)) buf)"

function it_seek_target :: "bytes \<Rightarrow> bytes \<Rightarrow> nat \<Rightarrow> nat \<Rightarrow> nat" where
  "it_seek_target key buf lo hi =
     (if lo < hi then
        let mid = (lo + hi) div 2
        in if fk_scan mid buf < key then it_seek_target key buf (mid + 1) hi
           else it_seek_target key buf lo mid
      else lo)"
  by pat_completeness auto
termination
  by (relation "measure (\<lambda>(_, _, lo, hi). hi - lo)") auto

declare it_seek_target.simps [simp del]

text \<open>\<open>idx\<close> holds the two index pointers, the block offsets and the buffer of first keys.\<close>

definition it_jump :: "u64 \<Rightarrow> u32 \<Rightarrow> sst_iter \<Rightarrow> sst_iter" where
  "it_jump off target it = it_ReadNextBlock (it\<lparr>it_stream := drop (unat off) (it_file it), it_cur_block := target,
     it_read := 0, it_pos := 0, it_block := blk_none\<rparr>)"

definition it_SeekToKey :: "(u64 list \<times> bytes) option \<Rightarrow> bytes \<Rightarrow> sst_iter \<Rightarrow> sst_iter option" where
  "it_SeekToKey idx key it =
     (case idx of
        None \<Rightarrow> it_seek_loop key it
      | Some (offsets, buf) \<Rightarrow>
          if offsets = [] then it_seek_loop key it
          else let lo = it_seek_target key buf 0 (length offsets);
                   target = (if lo > 0 then lo - 1 else 0)
               in it_seek_loop key
                    (if of_nat target \<noteq> it_cur_block it - 1 then it_jump (offsets ! target) (of_nat target) it else it))"

definition it_JumpToBlock :: "u64 list \<Rightarrow> nat \<Rightarrow> sst_iter \<Rightarrow> sst_iter" where
  "it_JumpToBlock offsets i it =
     (if i \<ge> length offsets then it
      else it_ReadNextBlock (it\<lparr>it_stream := drop (unat (offsets ! i)) (it_file it), it_cur_block := of_nat i,
             it_read := 0\<rparr>))"

lemma it_collect_drain: "it_collect n it = sst.drain n it"
  by (induction n arbitrary: it) simp_all

lemma it_collect_inv: "it_inv it \<Longrightarrow> it_collect n it = take n (it_rest it)"
  unfolding it_collect_drain by (rule sst.drain_rest)

lemma it_in_count: "it_in es i it \<Longrightarrow> unat (blk_count (it_block it)) = length es"
  by (simp add: it_in_def blk_count_at table_block_count)

lemma it_in_Valid: "it_in es i it \<Longrightarrow> it_Valid it"
  by (frule it_in_count) (simp add: it_Valid_def it_in_def)

lemma it_in_Next:
  assumes "it_in es i it" and "Suc i < length es"
  shows "it_Next it = it\<lparr>it_pos := Suc i, it_block := blk_at es (Suc (Suc i)), it_current := es ! Suc i\<rparr>
    \<and> it_in es (Suc i) (it_Next it)"
proof -
  have "it_load (Suc i) (it\<lparr>it_pos := Suc i\<rparr>)
      = it\<lparr>it_pos := Suc i, it_block := blk_at es (Suc (Suc i)), it_current := es ! Suc i\<rparr>"
    using assms it_load_at [of "it\<lparr>it_pos := Suc i\<rparr>" es "Suc i" "Suc i"] by (simp add: it_in_def)
  with assms it_in_count [OF assms(1)] show ?thesis by (subst (1 2) it_Next.simps) (simp add: Let_def it_in_def)
qed

lemma it_in_Next_last:
  assumes "it_in es i it" and "Suc i = length es"
  shows "it_Next it = it_ReadNextBlock (it\<lparr>it_pos := Suc i\<rparr>)"
  using assms it_in_count [OF assms(1)] by (subst it_Next.simps) (simp add: Let_def it_in_def)

text \<open>The state after the last entry of a block, reached after its remaining \<open>Next\<close> calls.\<close>

lemma it_in_collect:
  assumes "it_in es i it"
  shows "it_collect (length es - i + n) it
    = drop i es @ it_collect n (it_ReadNextBlock (it\<lparr>it_pos := length es, it_block := blk_at es (length es), it_current := last es\<rparr>))"
  using assms
proof (induction "length es - i" arbitrary: i it)
  case 0
  then show ?case by (simp add: it_in_def)
next
  case (Suc k)
  have i: "i < length es" "it_current it = es ! i" using Suc.prems by (simp_all add: it_in_def)
  then have d: "drop i es = es ! i # drop (Suc i) es" by (simp add: Cons_nth_drop_Suc)
  have l: "length es - i + n = Suc (length es - Suc i + n)" using i by simp
  show ?case
  proof (cases "Suc i < length es")
    case True
    have "it_collect (length es - Suc i + n) (it_Next it) = drop (Suc i) es @ it_collect n
        (it_ReadNextBlock (it\<lparr>it_pos := length es, it_block := blk_at es (length es), it_current := last es\<rparr>))"
      using Suc.hyps(1) [of "Suc i" "it_Next it"] it_in_Next [OF Suc.prems True, THEN conjunct2] Suc.hyps(2)
      unfolding it_in_Next [OF Suc.prems True, THEN conjunct1] by simp
    then show ?thesis unfolding l using it_in_Valid [OF Suc.prems] i d by simp
  next
    case False
    then have "Suc i = length es" using i by simp
    moreover from this have "last es = es ! i" using i by (metis diff_Suc_1 last_conv_nth list.size(3) not_less_zero)
    moreover have "it\<lparr>it_pos := length es\<rparr> = it\<lparr>it_pos := length es, it_block := blk_at es (length es), it_current := es ! i\<rparr>"
      using Suc.prems \<open>Suc i = length es\<close> by (simp add: it_in_def)
    ultimately show ?thesis
      unfolding l using it_in_Valid [OF Suc.prems] it_in_Next_last [OF Suc.prems] i d by simp
  qed
qed

lemma it_in_pow:
  assumes "it_in es 0 it" and "k < length es"
  shows "(it_Next ^^ k) it = it\<lparr>it_pos := k, it_block := blk_at es (Suc k), it_current := es ! k\<rparr>
    \<and> it_in es k ((it_Next ^^ k) it)"
  using assms(2)
proof (induction k)
  case 0
  with assms(1) show ?case by (simp add: it_in_def)
next
  case (Suc k)
  then have "it_in es k ((it_Next ^^ k) it)" and eq: "(it_Next ^^ k) it = it\<lparr>it_pos := k, it_block := blk_at es (Suc k), it_current := es ! k\<rparr>"
    using Suc_lessD by blast+
  note nx = it_in_Next [OF this(1) Suc.prems]
  have "it_Next ((it_Next ^^ k) it) = it\<lparr>it_pos := Suc k, it_block := blk_at es (Suc (Suc k)), it_current := es ! Suc k\<rparr>"
    using nx [THEN conjunct1] unfolding eq by simp
  with nx show ?case unfolding funpow.simps o_apply by blast
qed

lemma it_in_pow_all:
  assumes "it_in es 0 it"
  shows "(it_Next ^^ length es) it
    = it_ReadNextBlock (it\<lparr>it_pos := length es, it_block := blk_at es (length es), it_current := last es\<rparr>)"
proof -
  have "0 < length es" using assms by (simp add: it_in_def)
  then obtain k where k: "length es = Suc k" using gr0_conv_Suc by blast
  then have p: "(it_Next ^^ k) it = it\<lparr>it_pos := k, it_block := blk_at es (Suc k), it_current := es ! k\<rparr>"
    "it_in es k ((it_Next ^^ k) it)"
    using it_in_pow [OF assms, of k] lessI [of k] by metis+
  have "last es = es ! k" using k by (metis diff_Suc_1 last_conv_nth list.size(3) nat.distinct(1))
  then have "(it_Next ^^ k) it\<lparr>it_pos := Suc k\<rparr>
      = it\<lparr>it_pos := length es, it_block := blk_at es (length es), it_current := last es\<rparr>"
    unfolding p(1) k by (cases it) simp
  with it_in_Next_last [OF p(2) k [symmetric]] show ?thesis by (simp add: k)
qed

lemma it_skip_aborted_cur_block: "it_cur_block (it_skip_aborted it) = it_cur_block it"
proof (induction it rule: it_skip_aborted.induct)
  case (1 it)
  have load: "it_cur_block (it_load i j) = it_cur_block j" for i j
    by (simp add: it_load_def split: prod.split option.split)
  show ?case using 1 by (subst it_skip_aborted.simps) (simp add: Let_def load)
qed

lemma it_open_block_cur: "it_cur_block (it_open_block d it) = it_cur_block it + 1"
  by (simp add: it_open_block_def Let_def it_skip_aborted_cur_block it_load_def split: prod.split option.split)

lemma short_block_ok: "entry_ok e \<Longrightarrow> table_block_ok [e]"
  using entry_ok_kv [of e] by (simp add: table_block_ok_def block_ok_def blk_bytes_def)

definition no_block_cache :: block_cache where
  "no_block_cache = \<lparr>bc_heavy = Map.empty, bc_blocks = Map.empty\<rparr>"

section \<open>Properties\<close>

text \<open>
  C26: an iterator without a set of aborted batches over a written table of whose blocks the cache has all or none delivers exactly its entries in order, and
  \<open>SeekToKey\<close> without an index ends and moves it to the first entry whose key is not below the
  given one.
\<close>

theorem sstable_iterator_delivers:
  assumes "\<forall>e \<in> set es. entry_ok e" and "length es < 2 ^ 32" and "es \<noteq> []"
    and "table_cache c seq es (sst_Write bsz es ab)"
  shows "it_collect n (it_new (Some (sst_Write bsz es ab)) c seq p []) = take n es
    \<and> (\<exists>it'. it_SeekToKey None key (it_new (Some (sst_Write bsz es ab)) c seq p []) = Some it'
         \<and> it_collect n it' = take n (dropWhile (\<lambda>e. kv_key e < key) es))"
proof -
  note start = it_new_at [OF assms, of p]
  obtain it' where "it_seek_loop key (it_new (Some (sst_Write bsz es ab)) c seq p []) = Some it'"
    "it_inv it'" "it_rest it' = dropWhile (\<lambda>e. kv_key e < key) es"
    by (rule sst.seek_rest [OF it_seek_loop.simps start [THEN conjunct1], of key]) (simp only: start)
  with start show ?thesis by (simp add: it_collect_inv it_SeekToKey_def)
qed

theorem sstable_iterator_delivers_witness:
  "it_collect 5 (it_new (Some (sst_Write (\<lambda>n. (10, 7)) [mk_kv [1] [2] 3, mk_kv [4] [] 5] None)) (Some no_block_cache) 1 True [])
     = take 5 [mk_kv [1] [2] 3, mk_kv [4] [] 5]
   \<and> (\<exists>it'. it_SeekToKey None [2] (it_new (Some (sst_Write (\<lambda>n. (10, 7)) [mk_kv [1] [2] 3, mk_kv [4] [] 5] None))
         (Some no_block_cache) 1 True []) = Some it'
       \<and> it_collect 5 it' = take 5 (dropWhile (\<lambda>e. kv_key e < [2]) [mk_kv [1] [2] 3, mk_kv [4] [] 5]))"
  by (rule sstable_iterator_delivers) (simp_all add: entry_ok_def mk_kv_def table_cache_def bc_view_def no_block_cache_def)

text \<open>
  a cached first block is delivered twice. The cache has the first block of a table and not the
  second; the iterator takes the first from the cache and leaves the file where it is, so for the second it
  reads the first one again. The range scans and the compaction read tables this way.
\<close>

theorem sstable_iterator_repeats_cached_block:
  assumes "\<forall>b \<in> set (b0 # b1 # bs). table_block_ok b" and "length (concat (b0 # b1 # bs)) < 2 ^ 32" and "seq \<noteq> 0"
    and "bc_blocks c (seq, 0) = Some (blk_bytes b0)" and "bc_blocks c (seq, 1) = None"
  shows "it_collect (length b0 + 1) (it_new (Some (data_file (b0 # b1 # bs) r)) (Some c) seq p []) = b0 @ [b0 ! 0]"
proof -
  let ?n = "of_nat (length (concat (b0 # b1 # bs))) :: u32"
  let ?s = "frm b0 @ concat (map frm (b1 # bs)) @ r"
  let ?it = "it_start (data_file (b0 # b1 # bs) r) ?s (Some c) seq p ?n"
  have ok: "table_block_ok b0" "table_block_ok b1" using assms(1) by simp_all
  then have ne: "0 < length b0" "0 < length b1" by (auto simp: table_block_ok_def)
  have n: "unat ?n = length (concat (b0 # b1 # bs))" using assms(2) by (simp only: unat_of_nat_small len32)
  have l: "unat (of_nat (length b0) :: u32) = length b0" by (rule table_block_count [OF ok(1)])
  have lt: "\<not> (0 :: u32) \<ge> ?n" "\<not> of_nat (length b0) \<ge> ?n"
    using ne l unfolding word_le_nat_alt n by simp_all
  define it1 where "it1 = it_ReadNextBlock ?it"
  have r1: "it1 = ?it\<lparr>it_pos := 0, it_block := blk_at b0 1, it_current := b0 ! 0,
      it_read := of_nat (length b0), it_cur_block := 1\<rparr>"
    unfolding it1_def using assms(3,4) ok lt it_read_cached [of ?it b0] by (simp add: it_start_def it_cached_def)
  have new: "it_new (Some (data_file (b0 # b1 # bs) r)) (Some c) seq p [] = it1"
    unfolding it1_def it_new_data_file by simp
  have "it_in b0 0 it1" using ne ok unfolding r1 by (simp add: it_in_def it_start_def)
  note collect = it_in_collect [OF this, of 1]
  have "it_in b0 0 (it_ReadNextBlock (it1\<lparr>it_pos := length b0, it_block := blk_at b0 (length b0), it_current := last b0\<rparr>))"
    using it_read_frame [of "it1\<lparr>it_pos := length b0, it_block := blk_at b0 (length b0), it_current := last b0\<rparr>" b0
        "concat (map frm (b1 # bs)) @ r"] assms(3,5) lt ok
    unfolding r1 by (simp add: it_start_def it_cached_def)
  with collect it_in_Valid [OF this] show ?thesis unfolding new by (simp add: it_in_def)
qed

definition one_block_cache :: block_cache where
  "one_block_cache = \<lparr>bc_heavy = (\<lambda>_. None),
     bc_blocks = (\<lambda>(s, i). if s = 1 \<and> i = 0 then Some (blk_bytes [mk_kv [1] [2] 3]) else None)\<rparr>"

theorem sstable_iterator_repeats_cached_block_witness:
  "it_collect (length [mk_kv [1] [2] 3] + 1)
     (it_new (Some (data_file ([mk_kv [1] [2] 3] # [mk_kv [4] [5] 6] # []) [])) (Some one_block_cache) 1 False [])
   = [mk_kv [1] [2] 3] @ [[mk_kv [1] [2] 3] ! 0]"
  by (rule sstable_iterator_repeats_cached_block) 
    (auto simp: one_block_cache_def entry_ok_def mk_kv_def intro!: short_block_ok)

text \<open>
  seeking through the index runs past the data. The jump to a block resets the count of the entries
  read to zero, so after the last entry of the last block the iterator does not see the end and
  opens the bytes behind the data blocks as one more block.
\<close>

theorem sstable_iterator_seek_overruns:
  assumes "\<forall>b \<in> set (b0 # bs @ [b]). table_block_ok b" and "length (concat (b0 # bs @ [b])) < 2 ^ 32"
    and "it_total it = of_nat (length (concat (b0 # bs @ [b])))" and "it_reader it = None" and "it_aborted it = []"
    and "it_file it = data_file (b0 # bs @ [b]) r" and "off = of_nat (length (data_file (b0 # bs) []))"
    and "length (data_file (b0 # bs) []) < 2 ^ 64"
  shows "it_collect (length b) (it_jump off (of_nat (length (b0 # bs))) it) = b
    \<and> it_cur_block ((it_Next ^^ length b) (it_jump off (of_nat (length (b0 # bs))) it))
        = of_nat (length (b0 # bs @ [b])) + 1"
proof -
  let ?n = "of_nat (length (concat (b0 # bs @ [b]))) :: u32"
  have ok: "table_block_ok b0" "table_block_ok b" using assms(1) by simp_all
  then have ne: "0 < length b0" "0 < length b" by (auto simp: table_block_ok_def)
  have n: "unat ?n = length (concat (b0 # bs @ [b]))" using assms(2) by (simp only: unat_of_nat_small len32)
  have l: "unat (of_nat (length b) :: u32) = length b" by (rule table_block_count [OF ok(2)])
  have lt: "\<not> (0 :: u32) \<ge> ?n" "\<not> of_nat (length b) \<ge> ?n"
    using ne l unfolding word_le_nat_alt n by simp_all
  have "unat off = length (data_file (b0 # bs) [])"
    using assms(8) unfolding assms(7) by (intro unat_of_nat_small) simp
  then have s: "drop (unat off) (it_file it) = frm b @ r"
    unfolding assms(6) by (simp add: data_file_def length_es_hdr)
  define it1 where "it1 = it_jump off (of_nat (length (b0 # bs))) it"
  note fr = it_read_frame [of "it\<lparr>it_stream := drop (unat off) (it_file it), it_cur_block := of_nat (length (b0 # bs)),
      it_read := 0, it_pos := 0, it_block := blk_none\<rparr>" b r, folded it_jump_def, folded it1_def]
  have i: "it_in b 0 it1" and c: "it_cur_block it1 = of_nat (length (b0 # bs)) + 1" and rd: "it_read it1 = of_nat (length b)"
    and t: "it_total it1 = ?n" and re: "it_reader it1 = None"
    using fr assms(3-5) s lt(1) ok(2) by (simp_all add: it_cached_def)
  have "it_collect (length b) it1 = b"
    using it_in_collect [OF i, of 0] by simp
  moreover have "it_cur_block (it_ReadNextBlock (it1\<lparr>it_pos := length b, it_block := blk_at b (length b), it_current := last b\<rparr>))
      = it_cur_block it1 + 1"
    using lt(2) rd t re by (simp add: it_ReadNextBlock_def it_cached_def Let_def it_open_block_cur split: prod.split)
  ultimately show ?thesis unfolding it1_def [symmetric] using it_in_pow_all [OF i] c by simp
qed

theorem sstable_iterator_seek_overruns_witness:
  "it_collect (length [mk_kv [4] [5] 6])
     (it_jump 56 (of_nat (length ([mk_kv [1] [2] 3] # [])))
       (it_start (data_file ([mk_kv [1] [2] 3] # [] @ [[mk_kv [4] [5] 6]]) []) [] None 1 True 2)) = [mk_kv [4] [5] 6]
   \<and> it_cur_block ((it_Next ^^ length [mk_kv [4] [5] 6])
       (it_jump 56 (of_nat (length ([mk_kv [1] [2] 3] # [])))
         (it_start (data_file ([mk_kv [1] [2] 3] # [] @ [[mk_kv [4] [5] 6]]) []) [] None 1 True 2)))
     = of_nat (length ([mk_kv [1] [2] 3] # [] @ [[mk_kv [4] [5] 6]])) + 1"
  by (rule sstable_iterator_seek_overruns [where r = "[]"])
    (auto simp: it_start_def intro!: short_block_ok simp: entry_ok_def mk_kv_def,
     simp_all add: data_file_def frm_def block_frame_def blk_bytes_def length_se_enc kv_ok_def)

end
