(* ===== verification/Engine.thy ===== *)
theory Engine
  imports Wal Manifest Flush Kv_Cache Iterators
begin

text \<open>
  The engine (\<^verbatim>\<open>src/engine.cpp\<close>): opening and closing, writes and deletes, batches, lookups, flushes, recovery and compaction over
  the log, the memtables, the tables, the manifest and the caches. Every operation is one step of the state, as for a single client
  thread; a round of the flush worker and a round of the compaction worker are steps of their own. Parameters are the sizing \<open>bsz\<close> of Bloom filters,
  \<^verbatim>\<open>std::hash\<close> (\<open>hs\<close>), the outcome of file operations and, for the removal of files, what the snapshot trackers (\<open>Snp_Tracker\<close>) return. The
  retirement of tree pages and the recycling of flushed memtables free memory; they are the subject of \<open>Page_Reclaim\<close> and \<open>Engine_Recycle\<close>. \<open>Lookup\<close> stores the numbers of
  the frozen memtables in an array of four without a bound check; the model stands for at most four.
\<close>

section \<open>State\<close>

text \<open>A table of the catalogue with \<^verbatim>\<open>source_table_id\<close>.\<close>

record eng_table =
  et_meta :: SstMetadata
  et_source :: u64

record engine =
  eg_dir :: bytes
  eg_max_bytes :: nat
  eg_gap :: u64
  eg_active :: memtable
  eg_frozen :: "memtable list"
  eg_next_id :: u64
  eg_tables :: "eng_table list"
  eg_seq :: u64
  eg_global_ts :: u64
  eg_in_batch :: bool
  eg_batch_ts :: u64
  eg_touched :: bool
  eg_commit_seq :: u64
  eg_synced :: u64
  eg_wal :: wal
  eg_manifest :: manifest
  eg_kv :: kv_cache
  eg_cache :: "block_cache option"
  eg_files :: "bytes \<Rightarrow> bytes option"
  eg_gc :: "(bytes \<times> u64 \<times> u64) list"

text \<open>
  An operation returns, throws \<^verbatim>\<open>std::invalid_argument\<close>, or waits: for the end of a batch, or for ever in a loop that does not end.
\<close>

datatype 'a outcome = Returns 'a | Invalid | Waits

definition on_cache :: "kv_cache option \<Rightarrow> engine \<Rightarrow> engine outcome" where
  "on_cache c e = (case c of None \<Rightarrow> Waits | Some c' \<Rightarrow> Returns (e\<lparr>eg_kv := c'\<rparr>))"

section \<open>Writes\<close>

text \<open>The block that freezes a full memtable, the same in all four writing operations and, without the test, in \<open>Flush\<close>.\<close>

definition eng_freeze :: "engine \<Rightarrow> engine" where
  "eng_freeze e = e\<lparr>eg_frozen := eg_frozen e @ [mt_Freeze (eg_active e)],
     eg_active := mt_new (eg_next_id e) (eg_max_bytes e), eg_next_id := eg_next_id e + 1\<rparr>"

definition eng_freeze_if_full :: "engine \<Rightarrow> engine" where
  "eng_freeze_if_full e = (if mt_IsFull (eg_active e) then eng_freeze e else e)"

definition eng_blocked :: "engine \<Rightarrow> bool" where
  "eng_blocked e \<longleftrightarrow> eg_in_batch e \<and> eg_global_ts e + 1 > eg_batch_ts e"

text \<open>The log record and the entry of the memtable.\<close>

definition eng_log :: "KeyValuePair \<Rightarrow> engine \<Rightarrow> engine" where
  "eng_log kv e = e\<lparr>eg_wal := wal_Buffer (kv_key kv) (kv_value kv) (kv_timestamp kv) (eg_wal e)\<rparr>"

definition eng_apply :: "KeyValuePair \<Rightarrow> engine \<Rightarrow> engine" where
  "eng_apply kv e = eng_freeze_if_full ((eng_log kv e)\<lparr>eg_active := mt_Insert kv (eg_active e)\<rparr>)"

definition entry_size :: "bytes \<Rightarrow> bytes \<Rightarrow> nat" where
  "entry_size key val = length key + length val + kMemTableEntryOverheadBytes"

definition eng_Insert :: "(bytes \<Rightarrow> u64) \<Rightarrow> bytes \<Rightarrow> bytes \<Rightarrow> engine \<Rightarrow> engine outcome" where
  "eng_Insert hs key val e =
     (if length key > kMaxKeyBytes \<or> entry_size key val > kMaxKeyValuePairBytes then Invalid
      else if eng_blocked e then Waits
      else let ts = eg_global_ts e + 1;
               e1 = eng_apply \<lparr>kv_key = key, kv_value = val, kv_timestamp = ts, kv_is_tombstone = False\<rparr> (e\<lparr>eg_global_ts := ts\<rparr>)
           in on_cache (kc_Put hs key val ts (eg_kv e1)) e1)"

definition eng_Delete :: "(bytes \<Rightarrow> u64) \<Rightarrow> bytes \<Rightarrow> engine \<Rightarrow> engine outcome" where
  "eng_Delete hs key e =
     (if length key > kMaxKeyBytes then Invalid
      else if eng_blocked e then Waits
      else let ts = eg_global_ts e + 1;
               e1 = eng_apply \<lparr>kv_key = key, kv_value = [], kv_timestamp = ts, kv_is_tombstone = True\<rparr> (e\<lparr>eg_global_ts := ts\<rparr>)
           in on_cache (kc_Erase hs key (eg_kv e1)) e1)"

section \<open>Batches\<close>

text \<open>\<open>None\<close> is \<^verbatim>\<open>false\<close>.\<close>

definition eng_StartBatch :: "engine \<Rightarrow> engine option" where
  "eng_StartBatch e =
     (if eg_in_batch e then None
      else let ts = eg_global_ts e + eg_gap e
           in Some (e\<lparr>eg_batch_ts := ts, eg_in_batch := True, eg_touched := False, eg_wal := wal_BufferBatchBegin ts (eg_wal e)\<rparr>))"

definition eng_CommitBatchAsync :: "engine \<Rightarrow> engine option" where
  "eng_CommitBatchAsync e =
     (if \<not> eg_in_batch e then None
      else let w = wal_BufferBatchCommit (eg_batch_ts e) (eg_wal e)
           in Some (e\<lparr>eg_wal := w, eg_commit_seq := wal_CurrentBatchSeq w\<rparr>))"

definition eng_CommitBatchFinalize :: "engine \<Rightarrow> engine option" where
  "eng_CommitBatchFinalize e =
     (if \<not> eg_in_batch e \<or> eg_synced e < eg_commit_seq e then None
      else Some (e\<lparr>eg_global_ts := eg_batch_ts e + 1, eg_in_batch := False, eg_commit_seq := 0\<rparr>))"

text \<open>
  A round of \<open>SyncWorkerLoop\<close>: what was written is published. Whether the call is forced depends on the clock; an exception ends the process (\<open>None\<close>).
\<close>

definition eng_sync_round :: "bool \<Rightarrow> io_result \<Rightarrow> engine \<Rightarrow> engine option" where
  "eng_sync_round force io e =
     (case wal_Sync force io (eg_wal e) of
        (w, Inl _) \<Rightarrow> None
      | (w, Inr r) \<Rightarrow> Some (e\<lparr>eg_wal := w, eg_synced := (if sr_persisted r then sr_seq r else eg_synced e)\<rparr>))"

fun eng_sync_rounds :: "(bool \<times> io_result) list \<Rightarrow> engine \<Rightarrow> engine option" where
  "eng_sync_rounds [] e = Some e"
| "eng_sync_rounds ((force, io) # rs) e = Option.bind (eng_sync_round force io e) (eng_sync_rounds rs)"

text \<open>\<open>CommitBatch\<close> waits for the sync thread, which makes the rounds \<open>rs\<close> meanwhile, and then finishes; \<open>None\<close>: the process has ended.\<close>

definition eng_CommitBatch :: "(bool \<times> io_result) list \<Rightarrow> engine \<Rightarrow> (engine \<times> bool) outcome option" where
  "eng_CommitBatch rs e = (case eng_CommitBatchAsync e of
     None \<Rightarrow> Some (Returns (e, False))
   | Some e1 \<Rightarrow> map_option (\<lambda>e2. case eng_CommitBatchFinalize e2 of None \<Rightarrow> Waits | Some e3 \<Rightarrow> Returns (e3, True))
                  (eng_sync_rounds rs e1))"

text \<open>The batch is marked in both kinds of memtables and in the catalogue.\<close>

definition mark_tables :: "u64 \<Rightarrow> eng_table list \<Rightarrow> eng_table list" where
  "mark_tables ts = map (\<lambda>t. t\<lparr>et_meta := (et_meta t)\<lparr>aborted_batch_ts := List.insert ts (aborted_batch_ts (et_meta t))\<rparr>\<rparr>)"

text \<open>\<open>Inr False\<close>: no batch is open; \<open>Inl ()\<close>: the log or the manifest throws, and the batch stays open.\<close>

definition eng_AbortBatch :: "io_result \<Rightarrow> io_result \<Rightarrow> engine \<Rightarrow> engine \<times> (unit + bool)" where
  "eng_AbortBatch wal_io mf_io e =
     (if \<not> eg_in_batch e then (e, Inr False)
      else if \<not> eg_touched e then (e\<lparr>eg_in_batch := False\<rparr>, Inr True)
      else let ts = eg_batch_ts e
           in case wal_Sync True wal_io (wal_BufferAbort ts (eg_wal e)) of
                (w, Inl _) \<Rightarrow> (e\<lparr>eg_wal := w\<rparr>, Inl ())
              | (w, Inr _) \<Rightarrow>
                  (case mf_AddAbortBatch ts (eg_seq e) mf_io (eg_manifest e) of
                     (mf, Some _) \<Rightarrow> (e\<lparr>eg_wal := w, eg_manifest := mf\<rparr>, Inl ())
                   | (mf, None) \<Rightarrow>
                       (e\<lparr>eg_wal := w, eg_manifest := mf,
                          eg_active := mt_AddAbortedBatch ts (eg_active e),
                          eg_frozen := map (mt_AddAbortedBatch ts) (eg_frozen e),
                          eg_tables := mark_tables ts (eg_tables e),
                          eg_in_batch := False\<rparr>, Inr True)))"

definition eng_BatchInsert :: "bytes \<Rightarrow> bytes \<Rightarrow> engine \<Rightarrow> engine outcome" where
  "eng_BatchInsert key val e =
     (if length key > kMaxKeyBytes \<or> entry_size key val > kMaxKeyValuePairBytes then Invalid
      else Returns (eng_apply \<lparr>kv_key = key, kv_value = val, kv_timestamp = eg_batch_ts e, kv_is_tombstone = False\<rparr> (e\<lparr>eg_touched := True\<rparr>)))"

definition eng_BatchDelete :: "bytes \<Rightarrow> engine \<Rightarrow> engine outcome" where
  "eng_BatchDelete key e =
     (if length key > kMaxKeyBytes then Invalid
      else Returns (eng_apply \<lparr>kv_key = key, kv_value = [], kv_timestamp = eg_batch_ts e, kv_is_tombstone = True\<rparr> (e\<lparr>eg_touched := True\<rparr>)))"

section \<open>Lookups\<close>

text \<open>The filters on a table before it is read.\<close>

definition table_may_have :: "bytes \<Rightarrow> SstMetadata \<Rightarrow> bool" where
  "table_may_have key m \<longleftrightarrow> \<not> (md_min_key m \<noteq> [] \<and> key < md_min_key m) \<and> \<not> (md_max_key m \<noteq> [] \<and> key > md_max_key m)
     \<and> \<not> (bf_bits (md_bloom m) > 0 \<and> \<not> bf_MightContain key (md_bloom m))"

text \<open>
  The tables in the order in which \<open>Lookup\<close> reads them: level 0 from the newest to the oldest, then the others as they are listed.
\<close>

definition lookup_order :: "u64 list \<Rightarrow> eng_table list \<Rightarrow> SstMetadata list" where
  "lookup_order scanned ts = (let us = filter (\<lambda>t. et_source t \<notin> set scanned) ts
     in map et_meta (rev (filter (\<lambda>t. md_level (et_meta t) = 0) us) @ filter (\<lambda>t. md_level (et_meta t) \<noteq> 0) us))"

fun lookup_tables ::
  "(bytes \<Rightarrow> bytes option) \<Rightarrow> bytes \<Rightarrow> u64 \<Rightarrow> block_cache option \<Rightarrow> SstMetadata list \<Rightarrow> block_cache option \<times> bytes option" where
  "lookup_tables files key ts cache [] = (cache, None)"
| "lookup_tables files key ts cache (m # ms) =
     (if \<not> table_may_have key m then lookup_tables files key ts cache ms
      else case sst_LookupKey (md_filepath m) (files (md_filepath m)) key ts cache (manifest_seq m) of
             (cache', Inr (Some v)) \<Rightarrow> (cache', Some v)
           | (cache', _) \<Rightarrow> lookup_tables files key ts cache' ms)"

fun lookup_frozen :: "bytes \<Rightarrow> u64 \<Rightarrow> memtable list \<Rightarrow> bytes option" where
  "lookup_frozen key ts [] = None"
| "lookup_frozen key ts (m # ms) = (case mt_Lookup key ts m of Some v \<Rightarrow> Some v | None \<Rightarrow> lookup_frozen key ts ms)"

text \<open>The part of \<open>Lookup\<close> behind the key-value cache; an empty value counts as absent.\<close>

definition eng_search :: "bytes \<Rightarrow> u64 \<Rightarrow> engine \<Rightarrow> block_cache option \<times> bytes option" where
  "eng_search key read_ts e =
     (case mt_Lookup key read_ts (eg_active e) of
        Some v \<Rightarrow> (eg_cache e, Some v)
      | None \<Rightarrow> (case lookup_frozen key read_ts (rev (eg_frozen e)) of
          Some v \<Rightarrow> (eg_cache e, Some v)
        | None \<Rightarrow> lookup_tables (eg_files e) key read_ts (eg_cache e) (lookup_order (map mt_id (eg_frozen e)) (eg_tables e))))"

definition eng_Lookup :: "(bytes \<Rightarrow> u64) \<Rightarrow> bytes \<Rightarrow> engine \<Rightarrow> (engine \<times> bytes option) outcome" where
  "eng_Lookup hs key e =
     (case kc_Get hs key (eg_global_ts e) (eg_kv e) of
        None \<Rightarrow> Waits
      | Some (c, Some v) \<Rightarrow> Returns (e\<lparr>eg_kv := c\<rparr>, if v = [] then None else Some v)
      | Some (c, None) \<Rightarrow>
          (case eng_search key (eg_global_ts e) e of
             (cache, Some v) \<Rightarrow>
               (if v = [] then Returns (e\<lparr>eg_kv := c, eg_cache := cache\<rparr>, None)
                else case kc_Put hs key v (eg_global_ts e) c of
                       None \<Rightarrow> Waits
                     | Some c' \<Rightarrow> Returns (e\<lparr>eg_kv := c', eg_cache := cache\<rparr>, Some v))
           | (cache, None) \<Rightarrow> Returns (e\<lparr>eg_kv := c, eg_cache := cache\<rparr>, None)))"

section \<open>Flushing\<close>

text \<open>\<open>None\<close>: \<open>ReadMetadata\<close> or the manifest throws.\<close>

definition eng_DoFlush :: "(nat \<Rightarrow> u64 \<times> u32) \<Rightarrow> io_result \<Rightarrow> memtable \<Rightarrow> engine \<Rightarrow> engine \<times> bool" where
  "eng_DoFlush bsz io m e =
     (if mt_count m = 0 then (e, True)
      else let seq = eg_seq e; path = sst_path (eg_dir e) seq;
               (f, cache1) = sst_WriteFromWalk bsz (walk_all (mt_aborted m) (walk_new (mt_aborted m) (mt_tree m))) (mt_count m)
                              (eg_cache e) seq (Some (mt_aborted m));
               e1 = e\<lparr>eg_seq := seq + 1, eg_files := (eg_files e)(path \<mapsto> f)\<rparr>
           in case sst_ReadMetadata path (Some f) cache1 seq of
                (cache2, Inl _) \<Rightarrow> (e1\<lparr>eg_cache := cache2\<rparr>, False)
              | (cache2, Inr meta) \<Rightarrow>
                  (let meta1 = meta\<lparr>md_filepath := path, manifest_seq := seq\<rparr>;
                       (mf, err) = mf_AddSSTable seq (Metadata.truncate meta1) io (eg_manifest e)
                   in (e1\<lparr>eg_cache := cache2, eg_tables := eg_tables e @ [\<lparr>et_meta = meta1, et_source = mt_id m\<rparr>], eg_manifest := mf\<rparr>, err = None)))"

text \<open>One round of \<open>FlushWorkerLoop\<close>: the oldest frozen memtable leaves the list, then it is written and the checkpoint is buffered.\<close>

definition eng_flush_step :: "(nat \<Rightarrow> u64 \<times> u32) \<Rightarrow> io_result \<Rightarrow> engine \<Rightarrow> engine" where
  "eng_flush_step bsz io e =
     (case eg_frozen e of
        [] \<Rightarrow> e
      | m # ms \<Rightarrow>
          (let e1 = e\<lparr>eg_frozen := ms\<rparr>
           in if mt_count m = 0 then e1
              else case eng_DoFlush bsz io m e1 of
                     (e2, True) \<Rightarrow> e2\<lparr>eg_wal := wal_WriteCheckpoint (eg_global_ts e2) (if eg_in_batch e2 then eg_batch_ts e2 else 0) (eg_wal e2)\<rparr>
                   | (e2, False) \<Rightarrow> e2))"

text \<open>\<open>Flush\<close> freezes the active memtable and waits until the worker has written all frozen ones.\<close>

definition eng_Flush :: "(nat \<Rightarrow> u64 \<times> u32) \<Rightarrow> io_result \<Rightarrow> engine \<Rightarrow> engine" where
  "eng_Flush bsz io e =
     (if mt_count (eg_active e) = 0 then e
      else (eng_flush_step bsz io ^^ Suc (length (eg_frozen e))) (eng_freeze e))"

section \<open>Recovery\<close>

definition eng_new_table :: "engine \<Rightarrow> engine" where
  "eng_new_table e = e\<lparr>eg_active := mt_new (eg_next_id e) (eg_max_bytes e), eg_next_id := eg_next_id e + 1\<rparr>"

definition eng_checkpoint :: "engine \<Rightarrow> engine" where
  "eng_checkpoint e = e\<lparr>eg_wal := wal_WriteCheckpoint (eg_global_ts e) (if eg_in_batch e then eg_batch_ts e else 0) (eg_wal e)\<rparr>"

text \<open>The entries of the log are inserted without their tombstone flag, which the log does not have.\<close>

fun eng_replay :: "(nat \<Rightarrow> u64 \<times> u32) \<Rightarrow> io_result \<Rightarrow> KeyValuePair list \<Rightarrow> engine \<Rightarrow> engine option" where
  "eng_replay bsz io [] e = Some e"
| "eng_replay bsz io (kv # kvs) e =
     (let e1 = e\<lparr>eg_active := mt_Insert (kv\<lparr>kv_is_tombstone := False\<rparr>) (eg_active e),
                 eg_global_ts := (if kv_timestamp kv > eg_global_ts e then kv_timestamp kv else eg_global_ts e)\<rparr>
      in if mt_IsFull (eg_active e1)
         then (case eng_DoFlush bsz io (mt_Freeze (eg_active e1)) (eng_new_table e1) of
                 (e2, True) \<Rightarrow> eng_replay bsz io kvs (eng_checkpoint e2)
               | (e2, False) \<Rightarrow> None)
         else eng_replay bsz io kvs e1)"

definition mark_aborted :: "u64 \<Rightarrow> engine \<Rightarrow> engine" where
  "mark_aborted ts e = e\<lparr>eg_active := mt_AddAbortedBatch ts (eg_active e), eg_tables := mark_tables ts (eg_tables e)\<rparr>"

text \<open>\<open>RecoverFromWAL\<close> with what \<open>WAL::Recover\<close> returns; \<open>None\<close>: an exception leaves the constructor.\<close>

definition eng_RecoverFromWAL :: "(nat \<Rightarrow> u64 \<times> u32) \<Rightarrow> io_result \<Rightarrow> io_result \<Rightarrow> wal_recovery \<Rightarrow> engine \<Rightarrow> engine option" where
  "eng_RecoverFromWAL bsz io wal_io r e =
     (let e1 = fold mark_aborted (wr_aborted r)
                 (e\<lparr>eg_global_ts := (if wr_checkpoint_ts r > eg_global_ts e then wr_checkpoint_ts r else eg_global_ts e)\<rparr>)
      in if wr_entries r = [] then Some e1
         else do {
           e2 \<leftarrow> eng_replay bsz io (wr_entries r) e1;
           e3 \<leftarrow> (if mt_count (eg_active e2) > 0
                  then (case eng_DoFlush bsz io (mt_Freeze (eg_active e2)) (eng_new_table e2) of
                          (e3, True) \<Rightarrow> Some e3 | (_, False) \<Rightarrow> None)
                  else Some e2);
           let e4 = eng_checkpoint e3;
           case wal_Sync True wal_io (eg_wal e4) of (w, Inl _) \<Rightarrow> None | (w, Inr _) \<Rightarrow> Some (e4\<lparr>eg_wal := w\<rparr>)
         })"

section \<open>Opening and closing\<close>

text \<open>
  A table of the manifest, which has no key range, is completed from its file; a file that cannot be read leaves the record as it is.
  The caches do not exist yet.
\<close>

definition eng_load :: "(bytes \<Rightarrow> bytes option) \<Rightarrow> Metadata \<Rightarrow> eng_table" where
  "eng_load files m =
     (let m0 = Metadata.extend m (Metadata.more (sst_meta0 (md_filepath m)))
      in case sst_ReadMetadata (md_filepath m) (files (md_filepath m)) None (manifest_seq m) of
           (_, Inl _) \<Rightarrow> \<lparr>et_meta = m0, et_source = 0\<rparr>
         | (_, Inr full) \<Rightarrow> \<lparr>et_meta = Metadata.extend (m\<lparr>aborted_batch_ts := aborted_batch_ts full\<rparr>) (Metadata.more full), et_source = 0\<rparr>)"

record open_io =
  oi_mf_rd :: bool
  oi_mf_ab :: bool
  oi_mf_tmp :: bool
  oi_mf_io :: io_result
  oi_mf_mv :: bool
  oi_wal_rd :: bool
  oi_wal_ab :: bool
  oi_wal_io :: io_result

record open_conf =
  oc_dir :: bytes
  oc_max_bytes :: nat
  oc_gap :: u64
  oc_kv_entries :: nat
  oc_kv_bytes :: nat
  oc_kv_shards :: nat

text \<open>The constructor, on the manifest, the log file and the tables it finds.\<close>

definition eng_open ::
  "(nat \<Rightarrow> u64 \<times> u32) \<Rightarrow> open_io \<Rightarrow> open_conf \<Rightarrow> manifest \<Rightarrow> bytes \<Rightarrow> (bytes \<Rightarrow> bytes option) \<Rightarrow> engine option" where
  "eng_open bsz oi oc mf wal_bytes files =
     (case mf_Recover (oi_mf_rd oi) (oi_mf_ab oi) mf of
        Inl _ \<Rightarrow> None
      | Inr metas \<Rightarrow>
          (let e0 = \<lparr>eg_dir = oc_dir oc, eg_max_bytes = oc_max_bytes oc, eg_gap = oc_gap oc,
                 eg_active = mt_new 0 (oc_max_bytes oc), eg_frozen = [], eg_next_id = 1,
                 eg_tables = map (eng_load files) metas, eg_seq = of_nat (length metas), eg_global_ts = 0,
                 eg_in_batch = False, eg_batch_ts = 0, eg_touched = False, eg_commit_seq = 0, eg_synced = 0, eg_wal = wal_open wal_bytes,
                 eg_manifest = mf_Compact (oi_mf_rd oi) (oi_mf_tmp oi) (oi_mf_io oi) (oi_mf_mv oi) mf,
                 eg_kv = [], eg_cache = None, eg_files = files, eg_gc = []\<rparr>
           in case wal_Recover (oi_wal_io oi) (oi_wal_rd oi) (oi_wal_ab oi) (eg_wal e0) of
                (_, Inl _) \<Rightarrow> None
              | (w, Inr r) \<Rightarrow>
                  map_option (\<lambda>e. e\<lparr>eg_kv := kc_new (oc_kv_entries oc) (oc_kv_bytes oc) (oc_kv_shards oc),
                                    eg_cache := Some \<lparr>bc_heavy = \<lambda>_. None, bc_blocks = \<lambda>_. None\<rparr>\<rparr>)
                    (eng_RecoverFromWAL bsz (oi_mf_io oi) (oi_wal_io oi) r (e0\<lparr>eg_wal := w\<rparr>))))"

text \<open>
  The destructor, once the workers have stopped: everything is synced and flushed, until something throws (\<open>False\<close>).
\<close>

fun eng_close_frozen :: "(nat \<Rightarrow> u64 \<times> u32) \<Rightarrow> io_result \<Rightarrow> memtable list \<Rightarrow> engine \<Rightarrow> engine \<times> bool" where
  "eng_close_frozen bsz io [] e = (e, True)"
| "eng_close_frozen bsz io (m # ms) e =
     (case eng_DoFlush bsz io m (e\<lparr>eg_frozen := ms\<rparr>) of
        (e1, True) \<Rightarrow> eng_close_frozen bsz io ms e1
      | (e1, False) \<Rightarrow> (e1, False))"

definition eng_sync :: "bool \<Rightarrow> io_result \<Rightarrow> engine \<Rightarrow> engine \<times> bool" where
  "eng_sync force io e = (case wal_Sync force io (eg_wal e) of (w, r) \<Rightarrow> (e\<lparr>eg_wal := w\<rparr>, \<not> isl r))"

text \<open>Removal of the files that no snapshot needs; \<open>min_ts\<close> is the lesser \<open>MinActiveTS\<close> of the two trackers.\<close>

definition bc_Invalidate :: "u64 \<Rightarrow> block_cache \<Rightarrow> block_cache" where
  "bc_Invalidate seq c = c\<lparr>bc_heavy := (bc_heavy c)(seq := None),
     bc_blocks := (\<lambda>(s, i). if s = seq then None else bc_blocks c (s, i))\<rparr>"

definition eng_DrainFileGC :: "u64 \<Rightarrow> engine \<Rightarrow> engine" where
  "eng_DrainFileGC min_ts e =
     (let ready = filter (\<lambda>(_, _, fence_ts). min_ts \<ge> fence_ts) (eg_gc e)
      in e\<lparr>eg_gc := filter (\<lambda>(_, _, fence_ts). \<not> min_ts \<ge> fence_ts) (eg_gc e),
           eg_cache := fold (\<lambda>(_, seq, _). map_option (bc_Invalidate seq)) ready (eg_cache e),
           eg_files := fold (\<lambda>(path, _, _) fs. fs(path := None)) ready (eg_files e)\<rparr>)"

definition eng_close :: "(nat \<Rightarrow> u64 \<times> u32) \<Rightarrow> io_result \<Rightarrow> io_result \<Rightarrow> u64 \<Rightarrow> engine \<Rightarrow> engine" where
  "eng_close bsz io wal_io min_ts e =
     (case eng_sync True wal_io e of (e1, False) \<Rightarrow> e1 | (e1, True) \<Rightarrow>
      (case eng_close_frozen bsz io (eg_frozen e1) e1 of (e2, False) \<Rightarrow> e2 | (e2, True) \<Rightarrow>
       if mt_count (eg_active e2) = 0 then eng_DrainFileGC min_ts e2
       else case eng_DoFlush bsz io (eg_active e2) e2 of (e3, False) \<Rightarrow> e3 | (e3, True) \<Rightarrow>
        (case eng_sync True wal_io (eng_checkpoint e3) of (e4, False) \<Rightarrow> e4 | (e4, True) \<Rightarrow> eng_DrainFileGC min_ts e4)))"

section \<open>Compaction\<close>

definition cmp_open :: "(bytes \<Rightarrow> bytes option) \<Rightarrow> block_cache option \<Rightarrow> u64 list \<Rightarrow> SstMetadata \<Rightarrow> cmp_input option" where
  "cmp_open files cache ab m = map_option (\<lambda>es. \<lparr>ci_meta = Metadata.truncate m, ci_entries = es\<rparr>)
     (it_all (it_new (files (md_filepath m)) cache (manifest_seq m) False ab))"

fun all_some :: "'a option list \<Rightarrow> 'a list option" where
  "all_some [] = Some []"
| "all_some (None # xs) = None"
| "all_some (Some x # xs) = map_option (Cons x) (all_some xs)"

fun eng_remove_inputs :: "(nat \<Rightarrow> io_result) \<Rightarrow> nat \<Rightarrow> SstMetadata list \<Rightarrow> engine \<Rightarrow> engine \<times> bool" where
  "eng_remove_inputs io n [] e = (e, True)"
| "eng_remove_inputs io n (_ # ins) e =
     (case mf_RemoveSSTable (eg_seq e) (io n) (eg_manifest e) of
        (mf, None) \<Rightarrow> eng_remove_inputs io (n + 1) ins (e\<lparr>eg_manifest := mf\<rparr>)
      | (mf, Some _) \<Rightarrow> (e\<lparr>eg_manifest := mf\<rparr>, False))"

fun eng_add_outputs :: "(nat \<Rightarrow> io_result) \<Rightarrow> nat \<Rightarrow> SstMetadata list \<Rightarrow> engine \<Rightarrow> engine \<times> bool" where
  "eng_add_outputs io n [] e = (e, True)"
| "eng_add_outputs io n (m # outs) e =
     (case mf_AddSSTable (eg_seq e) (Metadata.truncate m) (io n) (eg_manifest e) of
        (mf, None) \<Rightarrow> eng_add_outputs io (n + 1) outs (e\<lparr>eg_manifest := mf, eg_seq := eg_seq e + 1\<rparr>)
      | (mf, Some _) \<Rightarrow> (e\<lparr>eg_manifest := mf, eg_seq := eg_seq e + 1\<rparr>, False))"

definition eng_garbage :: "SstMetadata list \<Rightarrow> bytes \<Rightarrow> engine \<Rightarrow> engine" where
  "eng_garbage inputs f e =
     (let gc_seq = (case find (\<lambda>m. md_filepath m = f) inputs of Some m \<Rightarrow> manifest_seq m | None \<Rightarrow> 0)
      in e\<lparr>eg_cache := map_option (bc_Invalidate gc_seq) (eg_cache e), eg_gc := eg_gc e @ [(f, gc_seq, eg_global_ts e)]\<rparr>)"

text \<open>
  \<open>CompactLevel\<close>; \<open>io\<close> are the outcomes of the successive manifest writes. \<open>Waits\<close>: an iterator does not end; \<open>False\<close>: an exception.
\<close>

definition eng_CompactLevel :: "(nat \<Rightarrow> u64 \<times> u32) \<Rightarrow> (nat \<Rightarrow> io_result) \<Rightarrow> int \<Rightarrow> int \<Rightarrow> engine \<Rightarrow> (engine \<times> bool) outcome" where
  "eng_CompactLevel bsz io from_level top_level e =
     (let to_level = top_level + 1;
          inputs = filter (\<lambda>m. from_level \<le> sint (md_level m) \<and> sint (md_level m) \<le> top_level) (map et_meta (eg_tables e))
      in if to_level > int kMaxLevel \<or> inputs = [] then Returns (e, True)
         else let max_sst = kLevelBaseSSTableSize * kLevelSizeMultiplier ^ nat to_level;
                  is_last = (to_level = int kMaxLevel); seq = eg_seq e; e1 = e\<lparr>eg_seq := seq + 64\<rparr>;
                  ab = fold (\<lambda>m. fold List.insert (aborted_batch_ts m)) inputs []
              in case all_some (map (cmp_open (eg_files e) (eg_cache e) ab) inputs) of
                   None \<Rightarrow> Waits
                 | Some ins \<Rightarrow>
                     (case sst_Compact bsz \<lparr>cc_is_last_level = is_last, cc_range_lower = [], cc_range_upper = [], cc_visible_ts = eg_global_ts e\<rparr>
                             ins (eg_dir e) seq (word_of_int to_level) max_sst of
                        Inl _ \<Rightarrow> Returns (e1, False)
                      | Inr out \<Rightarrow>
                          (let e2 = e1\<lparr>eg_files := fold (\<lambda>(p, f) fs. fs(p \<mapsto> f)) (cmo_files out) (eg_files e1),
                                 eg_tables := filter (\<lambda>t. md_filepath (et_meta t) \<notin> md_filepath ` set inputs) (eg_tables e1)
                                   @ map (\<lambda>m. \<lparr>et_meta = m, et_source = 0\<rparr>) (cmo_metas out)\<rparr>
                           in case eng_remove_inputs io 0 inputs e2 of
                                (e3, False) \<Rightarrow> Returns (e3, False)
                              | (e3, True) \<Rightarrow>
                                  (case eng_add_outputs io (length inputs) (cmo_metas out) e3 of
                                     (e4, False) \<Rightarrow> Returns (e4, False)
                                   | (e4, True) \<Rightarrow> Returns (fold (eng_garbage inputs) (cmo_garbage out) e4, True)))))"

definition LevelCounts :: "eng_table list \<Rightarrow> nat list" where
  "LevelCounts ts = map (\<lambda>l. length (filter (\<lambda>t. sint (md_level (et_meta t)) = int l) ts)) [0 ..< kMaxLevel + 1]"

text \<open>The first level at or above \<open>from_level\<close> with enough tables, and the last one of a chain of such levels.\<close>

definition compact_trigger :: "nat \<Rightarrow> nat \<Rightarrow> nat list \<Rightarrow> nat option" where
  "compact_trigger min_sstables from_level counts = find (\<lambda>l. counts ! l \<ge> min_sstables) [from_level ..< kMaxLevel + 1]"

definition compact_top :: "nat \<Rightarrow> nat \<Rightarrow> nat list \<Rightarrow> nat" where
  "compact_top min_sstables trigger counts =
     trigger + length (takeWhile (\<lambda>l. counts ! l \<ge> min_sstables) [trigger + 1 ..< kMaxLevel + 1])"

definition eng_ManualCompact ::
  "(nat \<Rightarrow> u64 \<times> u32) \<Rightarrow> (nat \<Rightarrow> io_result) \<Rightarrow> u64 \<Rightarrow> int \<Rightarrow> int \<Rightarrow> bool \<Rightarrow> engine \<Rightarrow> (engine \<times> int) outcome" where
  "eng_ManualCompact bsz io min_ts min_sstables from_level cascade e =
     (if min_sstables < 2 \<or> from_level < 0 \<or> from_level > int kMaxLevel then Returns (e, 0)
      else let counts = LevelCounts (eg_tables e)
           in case compact_trigger (nat min_sstables) (nat from_level) counts of
                None \<Rightarrow> Returns (e, 0)
              | Some trigger \<Rightarrow>
                  (let top = (if cascade then compact_top (nat min_sstables) trigger counts else trigger)
                   in case eng_CompactLevel bsz io (int trigger) (int top) e of
                        Waits \<Rightarrow> Waits | Invalid \<Rightarrow> Invalid
                      | Returns (e1, False) \<Rightarrow> Returns (e1, 0)
                      | Returns (e1, True) \<Rightarrow> Returns (eng_DrainFileGC min_ts e1, int top - int trigger + 1)))"

text \<open>One round of the compaction worker.\<close>

definition eng_compaction_round :: "(nat \<Rightarrow> u64 \<times> u32) \<Rightarrow> (nat \<Rightarrow> io_result) \<Rightarrow> u64 \<Rightarrow> engine \<Rightarrow> engine outcome" where
  "eng_compaction_round bsz io min_ts e =
     (let counts = LevelCounts (eg_tables e)
      in if counts ! 0 < kDefaultCompactionThreshold then Returns (eng_DrainFileGC min_ts e)
         else case eng_CompactLevel bsz io 0 (int (compact_top kDefaultCompactionThreshold 0 counts)) e of
                Waits \<Rightarrow> Waits | Invalid \<Rightarrow> Invalid | Returns (e1, _) \<Rightarrow> Returns (eng_DrainFileGC min_ts e1))"

section \<open>Maintenance\<close>

definition eng_NeedsFlush :: "engine \<Rightarrow> bool" where
  "eng_NeedsFlush e = mt_IsFull (eg_active e)"

definition eng_TrimWAL :: "io_result \<Rightarrow> bool \<Rightarrow> bool \<Rightarrow> engine \<Rightarrow> engine \<times> wal_error option" where
  "eng_TrimWAL io rd ab e = (case wal_TrimToLastCheckpoint io rd ab (eg_wal e) of (w, err) \<Rightarrow> (e\<lparr>eg_wal := w\<rparr>, err))"

end
