(* ===== verification/Engine_Reads.thy ===== *)
theory Engine_Reads
  imports Engine
begin

text \<open>
  Lookups of the engine (\<^verbatim>\<open>src/engine.cpp\<close>): a write can be read back; the search over the memtables and the tables returns the
  newest visible version among all of them when the catalogue lists the tables by age. The contract of such a place is the locale \<open>version_layer\<close>, which the
  memtables and the tables satisfy. Two cases in which lookups go wrong: a value in the key-value cache hides a committed batch, and a deleted key returns.
\<close>

section \<open>The key-value cache in a lookup\<close>

abbreviation cached :: "(bytes \<Rightarrow> u64) \<Rightarrow> bytes \<Rightarrow> engine \<Rightarrow> (bytes \<times> u64) option" where
  "cached hs key e \<equiv> kc_stored hs key (eg_kv e ! ShardForKey hs key (eg_kv e))"

lemma kc_Get_stored:
  assumes "kc_ok c"
  shows "\<exists>c'. kc_Get hs key t c = Some (c', case kc_stored hs key (c ! ShardForKey hs key c) of
      Some (v, ts) \<Rightarrow> if ts \<le> t then Some v else None | None \<Rightarrow> None) \<and> kc_ok c'"
  using kc_Get_nolock_ok [OF kc_ok_shard(2) [OF assms, where hs = hs and key = key], where hs = hs and key = key and read_ts = t]
    kc_ok_shard(3) [OF assms, where hs = hs and key = key]
  by (auto simp: kc_Get_def Let_def)

lemma kc_Put_returns: "kc_ok c \<Longrightarrow> \<exists>c'. kc_Put hs key v t c = Some c'"
  using kc_Put_ok [of c v hs key t] by (cases "length v \<le> kPageSize div 2") (auto simp: kc_Put_def)

lemma kc_Erase_absent:
  assumes "kc_ok c" and "kc_stored hs key (c ! ShardForKey hs key c) = None"
  shows "kc_Erase hs key c = Some c"
proof -
  obtain r where "kc_FindSlot key (kc_hash hs key) (c ! ShardForKey hs key c) = Some r"
    using kc_FindSlot_returns(1) [OF kc_ok_shard(2) [OF assms(1)]] by blast
  with assms(2) show ?thesis by (cases r) (auto simp: kc_Erase_def kc_Erase_nolock_def kc_stored_def Let_def)
qed

lemma eng_Lookup_cached:
  assumes "kc_ok (eg_kv e)" and "cached hs key e = Some (v, ts)" and "ts \<le> eg_global_ts e"
  shows "\<exists>e'. eng_Lookup hs key e = Returns (e', if v = [] then None else Some v)"
  using kc_Get_stored [OF assms(1), of hs key "eg_global_ts e"] assms(2,3) by (auto simp: eng_Lookup_def)

lemma eng_Lookup_search:
  assumes "kc_ok (eg_kv e)" and "cached hs key e = None" and "snd (eng_search key (eg_global_ts e) e) = r"
  shows "\<exists>e'. eng_Lookup hs key e = Returns (e', if r = Some [] then None else r)"
proof -
  obtain c where c: "kc_Get hs key (eg_global_ts e) (eg_kv e) = Some (c, None)" "kc_ok c"
    using kc_Get_stored [OF assms(1), of hs key "eg_global_ts e"] assms(2) by auto
  show ?thesis
  proof (cases r)
    case (Some v)
    obtain c' where "kc_Put hs key v (eg_global_ts e) c = Some c'" using kc_Put_returns [OF c(2)] by blast
    with c(1) Some assms(3) show ?thesis by (cases "eng_search key (eg_global_ts e) e") (auto simp: eng_Lookup_def)
  qed (use c(1) assms(3) in \<open>cases "eng_search key (eg_global_ts e) e", auto simp: eng_Lookup_def\<close>)
qed

section \<open>A write into the active memtable\<close>

text \<open>The conditions under which the tree takes a record.\<close>

definition mt_accepts :: "nat \<Rightarrow> nat \<Rightarrow> KeyValuePair \<Rightarrow> memtable \<Rightarrow> bool" where
  "mt_accepts m M kv mt \<longleftrightarrow> \<not> mt_frozen mt \<and> split_ratio m M \<and> bt_ok m M (mt_tree mt) \<and> m \<le> rec_cost kv \<and> rec_cost kv \<le> M
     \<and> length (kv_key kv) \<le> kMaxSep \<and> split_clean kv (FindLeaf (kv_key kv) (mt_tree mt))"

lemma mt_Insert_entries:
  assumes "mt_accepts m M kv mt"
  shows "bt_ok m M (mt_tree (mt_Insert kv mt))" "bt_entries (mt_tree (mt_Insert kv mt)) = mt_insert kv (bt_entries (mt_tree mt))"
  using bt_Insert_ok [of m M "mt_tree mt" kv] assms by (auto simp: mt_accepts_def mt_Insert_def)

lemma mt_Insert_fields [simp]:
  "mt_aborted (mt_Insert kv mt) = mt_aborted mt" "mt_id (mt_Insert kv mt) = mt_id mt" "mt_frozen (mt_Insert kv mt) = mt_frozen mt"
  "mt_max_bytes (mt_Insert kv mt) = mt_max_bytes mt"
  by (simp_all add: mt_Insert_def)

lemma mt_Lookup_Freeze [simp]: "mt_Lookup key t (mt_Freeze m) = mt_Lookup key t m" "mt_id (mt_Freeze m) = mt_id m"
  by (simp_all add: mt_Lookup_def mt_Freeze_def)

lemma mt_Lookup_new [simp]: "mt_Lookup key t (mt_new i n) = None"
  by (simp add: mt_Lookup_def mt_new_def bt_empty_def bt_Lookup_def Let_def leaf_Find_def)

lemma mt_new_fields [simp]: "mt_aborted (mt_new i n) = []" "mt_id (mt_new i n) = i" "mt_frozen (mt_new i n) = False" "mt_tree (mt_new i n) = bt_empty"
  by (simp_all add: mt_new_def)

lemma mt_lookup_insert_key: "mt_lookup (kv_key kv) t ab (mt_insert kv es) = mt_scan (kv_key kv) t ab (kv # dropWhile (\<lambda>e. kv_key e < kv_key kv) es)"
proof -
  have "dropWhile (\<lambda>e. kv_key e < kv_key kv) (takeWhile (\<lambda>e. kv_key e < kv_key kv) es) = []" by (auto dest: set_takeWhileD)
  then have "dropWhile (\<lambda>e. kv_key e < kv_key kv) (mt_insert kv es) = kv # dropWhile (\<lambda>e. kv_key e < kv_key kv) es"
    by (simp add: mt_insert_def dropWhile_append)
  then show ?thesis by (simp only: mt_lookup_def)
qed

lemma mt_Lookup_Insert:
  assumes "mt_accepts m M kv mt" and "kv_timestamp kv \<le> t" and "kv_timestamp kv \<notin> set (mt_aborted mt)" and "\<not> kv_is_tombstone kv"
  shows "mt_Lookup (kv_key kv) t (mt_Insert kv mt) = Some (kv_value kv)"
proof -
  have "bt_sep (mt_tree (mt_Insert kv mt))" using mt_Insert_entries(1) [OF assms(1)] by (simp add: bt_ok_def)
  then show ?thesis using assms(2-4)
    by (simp add: mt_Lookup_def bt_Lookup_flat mt_Insert_entries(2) [OF assms(1)] mt_lookup_insert_key)
qed

lemma eng_apply_fields [simp]:
  "eg_kv (eng_apply kv e) = eg_kv e" "eg_global_ts (eng_apply kv e) = eg_global_ts e" "eg_tables (eng_apply kv e) = eg_tables e"
  "eg_in_batch (eng_apply kv e) = eg_in_batch e" "eg_batch_ts (eng_apply kv e) = eg_batch_ts e" "eg_touched (eng_apply kv e) = eg_touched e"
  "eg_cache (eng_apply kv e) = eg_cache e" "eg_files (eng_apply kv e) = eg_files e" "eg_gap (eng_apply kv e) = eg_gap e"
  "eg_synced (eng_apply kv e) = eg_synced e" "eg_commit_seq (eng_apply kv e) = eg_commit_seq e"
  "eg_wal (eng_apply kv e) = wal_Buffer (kv_key kv) (kv_value kv) (kv_timestamp kv) (eg_wal e)"
  by (simp_all add: eng_apply_def eng_freeze_if_full_def eng_freeze_def eng_log_def)

lemma eng_apply_cases:
  obtains (kept) "eg_active (eng_apply kv e) = mt_Insert kv (eg_active e)" "eg_frozen (eng_apply kv e) = eg_frozen e"
      "eg_next_id (eng_apply kv e) = eg_next_id e" "\<not> mt_IsFull (mt_Insert kv (eg_active e))"
    | (filled) "eg_active (eng_apply kv e) = mt_new (eg_next_id e) (eg_max_bytes e)"
      "eg_frozen (eng_apply kv e) = eg_frozen e @ [mt_Freeze (mt_Insert kv (eg_active e))]" "mt_IsFull (mt_Insert kv (eg_active e))"
  by (cases "mt_IsFull (mt_Insert kv (eg_active e))")
    (auto simp: eng_apply_def eng_freeze_if_full_def eng_freeze_def eng_log_def)

lemma eng_search_apply:
  assumes "mt_Lookup key t (mt_Insert kv (eg_active e)) = Some v"
  shows "snd (eng_search key t (eng_apply kv e)) = Some v"
  by (cases rule: eng_apply_cases [of kv e]) (simp_all add: eng_search_def assms)

lemma eng_Insert_returns:
  assumes "eng_Insert hs key val e = Returns e'"
  shows "eg_kv e' = the (kc_Put hs key val (eg_global_ts e + 1) (eg_kv e)) \<and> kc_Put hs key val (eg_global_ts e + 1) (eg_kv e) \<noteq> None
    \<and> e' = (eng_apply \<lparr>kv_key = key, kv_value = val, kv_timestamp = eg_global_ts e + 1, kv_is_tombstone = False\<rparr>
         (e\<lparr>eg_global_ts := eg_global_ts e + 1\<rparr>))\<lparr>eg_kv := eg_kv e'\<rparr>"
  using assms by (auto simp: eng_Insert_def Let_def on_cache_def split: if_splits option.splits)

lemma eng_search_kv [simp]: "eng_search key t (e\<lparr>eg_kv := c\<rparr>) = eng_search key t e"
  by (simp add: eng_search_def cong: option.case_cong)

lemma eng_sync_rounds_fields:
  "eng_sync_rounds rs e = Some e' \<Longrightarrow> \<exists>w s. e' = e\<lparr>eg_wal := w, eg_synced := s\<rparr>"
proof (induction rs e rule: eng_sync_rounds.induct)
  case (1 e)
  then have "e' = e\<lparr>eg_wal := eg_wal e, eg_synced := eg_synced e\<rparr>" by simp
  then show ?case by blast
next
  case (2 force io rs e)
  then obtain e1 where e1: "eng_sync_round force io e = Some e1" "eng_sync_rounds rs e1 = Some e'" by (auto simp: bind_eq_Some_conv)
  then obtain w s where "e1 = e\<lparr>eg_wal := w, eg_synced := s\<rparr>" by (auto simp: eng_sync_round_def split: prod.splits sum.splits)
  with 2(1) [OF e1] show ?case by auto
qed

lemma eng_CommitBatch_returns:
  assumes "eng_CommitBatch rs e = Some (Returns (e', True))"
  shows "eg_in_batch e \<and> (\<exists>w s. e' = e\<lparr>eg_wal := w, eg_synced := s, eg_commit_seq := 0, eg_global_ts := eg_batch_ts e + 1, eg_in_batch := False\<rparr>)"
proof -
  obtain e1 e2 where c: "eng_CommitBatchAsync e = Some e1" "eng_sync_rounds rs e1 = Some e2" "eng_CommitBatchFinalize e2 = Some e'"
    using assms by (auto simp: eng_CommitBatch_def split: option.splits)
  from eng_sync_rounds_fields [OF c(2)] obtain w s where "e2 = e1\<lparr>eg_wal := w, eg_synced := s\<rparr>" by blast
  with c(1,3) have "e' = e\<lparr>eg_wal := w, eg_synced := s, eg_commit_seq := 0, eg_global_ts := eg_batch_ts e + 1, eg_in_batch := False\<rparr>"
    by (auto simp: eng_CommitBatchAsync_def eng_CommitBatchFinalize_def Let_def split: if_splits)
  moreover have "eg_in_batch e" using c(1) by (auto simp: eng_CommitBatchAsync_def split: if_splits)
  ultimately show ?thesis by blast
qed

lemma eng_sync_round_ok:
  "eng_sync_round force Io_ok e = Some (
     if write_buf (eg_wal e) = [] then e
     else if \<not> force \<and> length (write_buf (eg_wal e)) < kWALMinSyncBytes then e\<lparr>eg_wal := (eg_wal e)\<lparr>synced_seq := batch_seq (eg_wal e)\<rparr>\<rparr>
     else e\<lparr>eg_wal := (eg_wal e)\<lparr>wal_file := wal_file (eg_wal e) @ write_buf (eg_wal e), write_buf := [], synced_seq := batch_seq (eg_wal e),
              synced_entries := synced_entries (eg_wal e) + buffered_entries (eg_wal e), buffered_entries := 0\<rparr>,
            eg_synced := batch_seq (eg_wal e)\<rparr>)"
  by (simp add: eng_sync_round_def wal_Sync_def wal_Sync_begin_def wal_Sync_write_def wal_Sync_end_def)

text \<open>A forced round of the sync thread ends the wait, after any rounds that do not fail.\<close>

lemma eng_sync_rounds_commit:
  assumes "\<forall>r \<in> set rs. snd r = Io_ok" and "write_buf (eg_wal e) \<noteq> [] \<or> eg_synced e = batch_seq (eg_wal e)"
  shows "\<exists>e'. eng_sync_rounds (rs @ [(True, Io_ok)]) e = Some e' \<and> eg_synced e' = batch_seq (eg_wal e)"
  using assms
proof (induction rs arbitrary: e)
  case Nil
  then show ?case by (auto simp: eng_sync_round_ok)
next
  case (Cons r rs)
  obtain force where r: "r = (force, Io_ok)" using Cons.prems(1) by (cases r) auto
  obtain e1 where e1: "eng_sync_round force Io_ok e = Some e1" "batch_seq (eg_wal e1) = batch_seq (eg_wal e)"
    "write_buf (eg_wal e1) \<noteq> [] \<or> eg_synced e1 = batch_seq (eg_wal e1)"
    using Cons.prems(2) that by (cases "write_buf (eg_wal e) = []") (auto simp: eng_sync_round_ok split: if_splits)
  from Cons.IH [of e1] Cons.prems(1) e1 show ?case by (auto simp: r)
qed

lemma eng_commit_completes:
  assumes "eg_in_batch e" and "\<forall>r \<in> set rs. snd r = Io_ok"
  shows "\<exists>e'. eng_CommitBatch (rs @ [(True, Io_ok)]) e = Some (Returns (e', True))"
proof -
  let ?w = "wal_BufferBatchCommit (eg_batch_ts e) (eg_wal e)"
  let ?e = "e\<lparr>eg_wal := ?w, eg_commit_seq := wal_CurrentBatchSeq ?w\<rparr>"
  have a: "eng_CommitBatchAsync e = Some ?e" using assms(1) by (simp add: eng_CommitBatchAsync_def Let_def)
  have "length (write_buf ?w) > 0" by (simp add: wal_BufferBatchCommit_def WriteSentinelRecord_def Let_def)
  then have "write_buf ?w \<noteq> []" by blast
  then obtain e2 where e2: "eng_sync_rounds (rs @ [(True, Io_ok)]) ?e = Some e2" "eg_synced e2 = batch_seq ?w"
    using eng_sync_rounds_commit [OF assms(2), of ?e] by auto
  from eng_sync_rounds_fields [OF e2(1)] e2(2) assms(1) have "eng_CommitBatchFinalize e2 \<noteq> None"
    by (auto simp: eng_CommitBatchFinalize_def wal_CurrentBatchSeq_def)
  then show ?thesis by (auto simp: eng_CommitBatch_def a e2(1) simp del: eng_sync_rounds.simps)
qed

text \<open>The first record of an empty memtable.\<close>

lemma bt_Insert_empty:
  assumes "length (kv_key kv) \<le> kMaxKeyBytes"
  shows "bt_Insert kv bt_empty = BNode [] [BLeaf [kv]]"
proof -
  have "rec_size kv + kSlotSize \<le> leaf_Free []"
    using assms by (auto simp: rec_size_def is_large_def leaf_Free_def kSlotSize_def kPageSize_def kMaxKeyBytes_def)
  then show ?thesis
    by (simp add: bt_Insert_def bt_empty_def FindChild_def find_child_step(3) ins_leaf_def leaf_InsertEntry_def leaf_Find_def Let_def ins_node_def)
qed

lemma mt_Lookup_first:
  assumes "length (kv_key kv) \<le> kMaxKeyBytes"
  shows "mt_Lookup key t (mt_Insert kv (mt_new i n)) = (if kv_key kv = key \<and> kv_timestamp kv \<le> t \<and> \<not> kv_is_tombstone kv then Some (kv_value kv) else None)"
proof -
  let ?m = "mt_Insert kv (mt_new i n)"
  have m: "mt_tree ?m = BNode [] [BLeaf [kv]]" "mt_aborted ?m = []"
    using bt_Insert_empty [OF assms] by (simp_all add: mt_Insert_def mt_new_def)
  have "bt_sep (BNode [] [BLeaf [kv]])" by (simp add: key_ordered_def)
  then have "mt_Lookup key t ?m = mt_lookup key t [] [kv]" by (simp add: mt_Lookup_def m bt_Lookup_flat)
  then show ?thesis by (auto simp: mt_lookup_def)
qed

section \<open>Properties\<close>

text \<open>
  C7: a write can be read back. After \<open>Insert\<close> of a non-empty value of at most half a page, whether or not the memtable was full and was frozen, and whatever
  the key-value cache had, \<open>Lookup\<close> returns the value, for a record that the tree accepts (a key of at most 64 bytes, a size within
  the ratio of \<open>bptree_insert_refines_flat\<close>, no split through the versions of one key) and a timestamp that is not one of an aborted batch.
\<close>
theorem engine_read_your_write:
  assumes "kc_ok (eg_kv e)" and "mt_accepts m M \<lparr>kv_key = key, kv_value = val, kv_timestamp = eg_global_ts e + 1, kv_is_tombstone = False\<rparr> (eg_active e)"
    and "eg_global_ts e + 1 \<notin> set (mt_aborted (eg_active e))" and "val \<noteq> []" and "length val \<le> kPageSize div 2"
    and "eng_Insert hs key val e = Returns e'"
  shows "\<exists>e''. eng_Lookup hs key e' = Returns (e'', Some val)"
proof -
  let ?kv = "\<lparr>kv_key = key, kv_value = val, kv_timestamp = eg_global_ts e + 1, kv_is_tombstone = False\<rparr>"
  let ?e = "eng_apply ?kv (e\<lparr>eg_global_ts := eg_global_ts e + 1\<rparr>)"
  note i = eng_Insert_returns [OF assms(6)]
  have g: "eg_global_ts e' = eg_global_ts e + 1" by (subst i [THEN conjunct2, THEN conjunct2]) simp
  have "mt_Lookup key (eg_global_ts e') (mt_Insert ?kv (eg_active e)) = Some val"
    using mt_Lookup_Insert [OF assms(2), of "eg_global_ts e'"] assms(3) g by simp
  then have s: "snd (eng_search key (eg_global_ts e') e') = Some val"
    by (subst i [THEN conjunct2, THEN conjunct2]) (simp add: eng_search_apply)
  have p: "kc_ok (eg_kv e')" "cached hs key e' = Some (val, eg_global_ts e + 1) \<or> cached hs key e' = None"
    using kc_Put_ok [OF assms(1,5), of hs key "eg_global_ts e + 1"] i by auto
  from p(2) show ?thesis
  proof
    assume "cached hs key e' = Some (val, eg_global_ts e + 1)"
    from eng_Lookup_cached [OF p(1) this] g assms(4) show ?thesis by simp
  next
    assume "cached hs key e' = None"
    from eng_Lookup_search [OF p(1) this s] assms(4) show ?thesis by simp
  qed
qed

text \<open>An engine as it is after opening an empty directory, for the examples.\<close>

definition eng_fresh :: "nat \<Rightarrow> engine" where
  "eng_fresh n = \<lparr>eg_dir = [], eg_max_bytes = n, eg_gap = 10, eg_active = mt_new 0 n, eg_frozen = [], eg_next_id = 1, eg_tables = [], eg_seq = 0,
     eg_global_ts = 0, eg_in_batch = False, eg_batch_ts = 0, eg_touched = False, eg_commit_seq = 0, eg_synced = 0, eg_wal = wal_open [],
     eg_manifest = \<lparr>mf_file = []\<rparr>, eg_kv = kc_new 100 1000 4, eg_cache = None, eg_files = (\<lambda>_. None), eg_gc = []\<rparr>"

lemma eng_fresh_kv: "kc_ok (eg_kv (eng_fresh n))" "cached hs key (eng_fresh n) = None"
proof -
  show k: "kc_ok (eg_kv (eng_fresh n))" by (simp add: eng_fresh_def kc_ok_new)
  let ?s = "kc_Init 25 250"
  have w: "kc_wf ?s" by (rule kc_wf_Init) simp
  obtain r where r: "kc_FindSlot key (kc_hash hs key) ?s = Some r" using kc_FindSlot_returns(1) [OF w] by blast
  have "ks_count ?s = 0" by (simp add: kc_Init_def)
  then have "r = None" using kc_FindSlot_returns(2) [OF w, of key "kc_hash hs key"] r by (cases r) fastforce+
  with r have "kc_stored hs key ?s = None" by (simp add: kc_stored_def)
  moreover have "eg_kv (eng_fresh n) ! ShardForKey hs key (eg_kv (eng_fresh n)) = ?s"
    by (simp add: eng_fresh_def kc_new_def ShardForKey_def)
  ultimately show "cached hs key (eng_fresh n) = None" by simp
qed

lemma mt_accepts_new:
  assumes "length (kv_key kv) \<le> kMaxSep" and "rec_cost kv = 2036"
  shows "mt_accepts 2036 2036 kv (mt_new i n)"
proof -
  have "FindLeaf (kv_key kv) bt_empty = []" by (simp add: bt_empty_def FindChild_def find_child_step(3))
  then show ?thesis using assms bt_empty_ok [of 2036 2036] by (simp add: mt_accepts_def mt_new_def bt_eval split_clean_def)
qed

theorem engine_read_your_write_witness:
  "\<exists>e''. (case eng_Insert (\<lambda>_. 5) [1] (replicate 2021 7) (eng_fresh 4000) of Returns e' \<Rightarrow> eng_Lookup (\<lambda>_. 5) [1] e' | _ \<Rightarrow> Waits)
     = Returns (e'', Some (replicate 2021 7))"
proof -
  obtain c where "kc_Put (\<lambda>_. 5) [1] (replicate 2021 7) 1 (eg_kv (eng_fresh 4000)) = Some c"
    using kc_Put_returns [OF eng_fresh_kv(1)] by blast
  then obtain e' where i: "eng_Insert (\<lambda>_. 5) [1] (replicate 2021 7) (eng_fresh 4000) = Returns e'"
    by (simp add: eng_Insert_def on_cache_def Let_def eng_blocked_def entry_size_def kMaxKeyBytes_def kMaxKeyValuePairBytes_def
        kMemTableEntryOverheadBytes_def) (simp add: eng_fresh_def on_cache_def)
  have "\<exists>e''. eng_Lookup (\<lambda>_. 5) [1] e' = Returns (e'', Some (replicate 2021 7))"
  proof (rule engine_read_your_write [OF eng_fresh_kv(1) _ _ _ _ i])
    show "mt_accepts 2036 2036 \<lparr>kv_key = [1], kv_value = replicate 2021 7, kv_timestamp = eg_global_ts (eng_fresh 4000) + 1, kv_is_tombstone = False\<rparr>
       (eg_active (eng_fresh 4000))"
      unfolding eng_fresh_def by (simp add: mt_accepts_new bt_eval rec_cost_def rec_size_def is_large_def)
  qed (simp_all add: eng_fresh_def mt_new_def kPageSize_def)
  then show ?thesis by (simp add: i)
qed

text \<open>
  a committed batch is hidden by the cache. \<open>BatchInsert\<close> and \<open>BatchDelete\<close> do not touch the key-value cache, so a key that was cached before is read with its old
  value after the commit, at every later snapshot until the entry leaves the cache.
\<close>
theorem engine_commit_hidden_by_cache:
  assumes "kc_ok (eg_kv e)" and "cached hs key e = Some (old, t)" and "old \<noteq> []" and "t \<le> eg_batch_ts e + 1" and "eg_in_batch e"
    and "eng_BatchInsert key val e = Returns e1 \<or> eng_BatchDelete key e = Returns e1"
    and "eng_CommitBatch rs e1 = Some (Returns (e2, True))"
  shows "\<exists>e3. eng_Lookup hs key e2 = Returns (e3, Some old)"
proof -
  have e1: "eg_kv e1 = eg_kv e" "eg_batch_ts e1 = eg_batch_ts e" using assms(6) by (auto simp: eng_BatchInsert_def eng_BatchDelete_def split: if_splits)
  have "eg_kv e2 = eg_kv e \<and> eg_global_ts e2 = eg_batch_ts e + 1" using eng_CommitBatch_returns [OF assms(7)] e1 by auto
  then show ?thesis using eng_Lookup_cached [of e2 hs key old t] assms(1-4) by simp
qed

theorem engine_commit_hidden_by_cache_witness:
  "\<exists>e3. (case eng_BatchInsert [1] [9] ((eng_fresh 4000)\<lparr>eg_kv := the (kc_Put (\<lambda>_. 5) [1] [2] 3 (kc_new 100 1000 4)), eg_in_batch := True, eg_batch_ts := 10\<rparr>) of
      Returns e1 \<Rightarrow> (case eng_CommitBatch [(True, Io_ok)] e1 of Some (Returns (e2, True)) \<Rightarrow> eng_Lookup (\<lambda>_. 5) [1] e2 | _ \<Rightarrow> Waits) | _ \<Rightarrow> Waits) = Returns (e3, Some [2])"
proof -
  have nf: "\<not> kc_full [2] (kc_new 100 1000 4 ! ShardForKey (\<lambda>_. 5) [1] (kc_new 100 1000 4))"
    by (simp add: kc_full_def kc_new_def ShardForKey_def kc_Init_def)
  obtain c where c: "kc_Put (\<lambda>_. 5) [1] [2] 3 (kc_new 100 1000 4) = Some c" "kc_ok c"
    "kc_stored (\<lambda>_. 5) [1] (c ! ShardForKey (\<lambda>_. 5) [1] c) = Some ([2], 3)"
    using kc_Put_ok [OF kc_ok_new [of 4 100 1000], of "[2]" "\<lambda>_. 5" "[1]" 3] nf by (auto simp: kPageSize_def)
  let ?e = "(eng_fresh 4000)\<lparr>eg_kv := c, eg_in_batch := True, eg_batch_ts := 10\<rparr>"
  obtain e1 where e1: "eng_BatchInsert [1] [9] ?e = Returns e1"
    by (simp add: eng_BatchInsert_def entry_size_def kMaxKeyBytes_def kMaxKeyValuePairBytes_def kMemTableEntryOverheadBytes_def)
  then have "eg_in_batch e1" by (auto simp: eng_BatchInsert_def split: if_splits)
  then obtain e2 where e2: "eng_CommitBatch [(True, Io_ok)] e1 = Some (Returns (e2, True))" using eng_commit_completes [of e1 "[]"] by auto
  have "\<exists>e3. eng_Lookup (\<lambda>_. 5) [1] e2 = Returns (e3, Some [2])"
    by (rule engine_commit_hidden_by_cache [where t = 3, OF _ _ _ _ _ disjI1 [OF e1] e2]) (use c in simp_all)
  then show ?thesis by (simp add: c(1) e1 e2)
qed

text \<open>
  a deleted key comes back. The tombstone that \<open>Delete\<close> puts into the active memtable counts as absent there, and the lookup goes on to the
  frozen memtables and the tables, which still have the value.
\<close>
theorem engine_deleted_key_returns:
  assumes "eg_active e = mt_new i n" and "length key + kMemTableEntryOverheadBytes < n" and "length key \<le> kMaxKeyBytes" and "\<not> eng_blocked e"
    and "kc_ok (eg_kv e)" and "cached hs key e = None" and "snd (eng_search key (eg_global_ts e + 1) e) = Some v" and "v \<noteq> []"
  shows "\<exists>e1 e2. eng_Delete hs key e = Returns e1 \<and> eng_Lookup hs key e1 = Returns (e2, Some v)"
proof -
  let ?kv = "\<lparr>kv_key = key, kv_value = [], kv_timestamp = eg_global_ts e + 1, kv_is_tombstone = True\<rparr>"
  let ?e = "eng_apply ?kv (e\<lparr>eg_global_ts := eg_global_ts e + 1\<rparr>)"
  have d: "eng_Delete hs key e = Returns (?e\<lparr>eg_kv := eg_kv e\<rparr>)"
    using assms(3,4) kc_Erase_absent [OF assms(5,6)] by (simp add: eng_Delete_def on_cache_def Let_def)
  have nf: "\<not> mt_IsFull (mt_Insert ?kv (eg_active e))" using assms(1,2) by (simp add: mt_IsFull_def mt_Insert_def mt_new_def)
  have a: "eg_active ?e = mt_Insert ?kv (mt_new i n)" "eg_frozen ?e = eg_frozen e"
    using nf assms(1) by (cases rule: eng_apply_cases [of ?kv "e\<lparr>eg_global_ts := eg_global_ts e + 1\<rparr>"], simp_all)+
  have "snd (eng_search key (eg_global_ts e + 1) ?e) = Some v"
    using assms(1,3,7) by (simp add: eng_search_def a mt_Lookup_first cong: option.case_cong)
  then show ?thesis
    using d eng_Lookup_search [of "?e\<lparr>eg_kv := eg_kv e\<rparr>" hs key "Some v"] assms(5,6,8) by simp
qed

theorem engine_deleted_key_returns_witness:
  "\<exists>e1 e2. eng_Delete (\<lambda>_. 5) [1] ((eng_fresh 4000)\<lparr>eg_frozen := [mt_Freeze (mt_Insert (mk_kv [1] [7] 0) (mt_new 0 4000))]\<rparr>) = Returns e1
    \<and> eng_Lookup (\<lambda>_. 5) [1] e1 = Returns (e2, Some [7])"
proof -
  let ?e = "(eng_fresh 4000)\<lparr>eg_frozen := [mt_Freeze (mt_Insert (mk_kv [1] [7] 0) (mt_new 0 4000))]\<rparr>"
  have "snd (eng_search [1] (eg_global_ts ?e + 1) ?e) = Some [7]"
    by (simp add: eng_search_def eng_fresh_def mt_Lookup_first kMaxKeyBytes_def mk_kv_def)
  then show ?thesis
    by (intro engine_deleted_key_returns [where i = 0 and n = 4000])
      (use eng_fresh_kv(1) [of 4000] eng_fresh_kv(2) [of _ _ 4000] in \<open>simp_all add: kMaxKeyBytes_def kMemTableEntryOverheadBytes_def eng_blocked_def\<close>, simp_all add: eng_fresh_def)
qed

section \<open>Layers of versions\<close>

text \<open>The right answer of a lookup over the versions \<open>vs\<close>: the value of the newest visible one.\<close>

definition answers :: "u64 \<Rightarrow> bytes \<Rightarrow> KeyValuePair list \<Rightarrow> bytes option \<Rightarrow> bool" where
  "answers t k vs r \<longleftrightarrow> (case r of
     None \<Rightarrow> \<forall>e \<in> set vs. kv_key e = k \<longrightarrow> \<not> kv_timestamp e \<le> t
   | Some v \<Rightarrow> \<exists>e. newest t k vs e \<and> v = kv_result e)"

definition newer_first :: "KeyValuePair list \<Rightarrow> KeyValuePair list \<Rightarrow> bool" where
  "newer_first us vs \<longleftrightarrow> (\<forall>a \<in> set us. \<forall>b \<in> set vs. kv_key a = kv_key b \<longrightarrow> kv_timestamp b \<le> kv_timestamp a)"

lemma answers_append:
  assumes "answers t k us r" and "answers t k vs r'" and "newer_first us vs"
  shows "answers t k (us @ vs) (case r of Some v \<Rightarrow> Some v | None \<Rightarrow> r')"
proof (cases r)
  case None
  then have u: "\<forall>e \<in> set us. kv_key e = k \<longrightarrow> \<not> kv_timestamp e \<le> t" using assms(1) by (simp add: answers_def)
  then have "newest t k vs e \<Longrightarrow> newest t k (us @ vs) e" for e by (auto simp: newest_def)
  with None u assms(2) show ?thesis by (fastforce simp: answers_def split: option.splits)
next
  case (Some v)
  then obtain e where e: "newest t k us e" "v = kv_result e" using assms(1) by (auto simp: answers_def)
  then have "newest t k (us @ vs) e" using assms(3) by (auto simp: newest_def newer_first_def)
  with Some e(2) show ?thesis by (auto simp: answers_def)
qed

text \<open>
  What a place with versions promises: its lookup answers for the versions it holds. A lookup that asks several such places, newer ones first, answers for all of them.
\<close>

locale version_layer =
  fixes holds :: "'s \<Rightarrow> KeyValuePair list \<Rightarrow> bool" and look :: "bytes \<Rightarrow> u64 \<Rightarrow> 's \<Rightarrow> bytes option"
  assumes look_answers: "holds s vs \<Longrightarrow> answers t k vs (look k t s)"
begin

primrec first_hit :: "bytes \<Rightarrow> u64 \<Rightarrow> 's list \<Rightarrow> bytes option" where
  "first_hit k t [] = None"
| "first_hit k t (s # ss) = (case look k t s of Some v \<Rightarrow> Some v | None \<Rightarrow> first_hit k t ss)"

lemma first_hit_answers:
  assumes "list_all2 holds ss vss" and "sorted_wrt newer_first vss"
  shows "answers t k (concat vss) (first_hit k t ss)"
  using assms
proof (induction ss vss rule: list_all2_induct)
  case Nil
  then show ?case by (simp add: answers_def)
next
  case (Cons s ss vs vss)
  have "newer_first vs (concat vss)" using Cons.prems by (auto simp: newer_first_def)
  with Cons look_answers [of s vs t k] show ?case by (simp add: answers_append)
qed

end

subsection \<open>Memtables\<close>

text \<open>A searchable tree without tombstones, in which the versions of a key that are not aborted lie in order, the newest first.\<close>

definition versions_desc :: "KeyValuePair list \<Rightarrow> bool" where
  "versions_desc es \<longleftrightarrow> sorted_wrt (\<lambda>a b. kv_key a = kv_key b \<longrightarrow> kv_timestamp b \<le> kv_timestamp a) es"

definition mt_holds :: "memtable \<Rightarrow> KeyValuePair list \<Rightarrow> bool" where
  "mt_holds m vs \<longleftrightarrow> bt_sep (mt_tree m) \<and> key_ordered (bt_entries (mt_tree m)) \<and> vs = kept (mt_aborted m) (bt_entries (mt_tree m))
     \<and> versions_desc vs \<and> (\<forall>e \<in> set vs. \<not> kv_is_tombstone e)"

lemma mt_scan_answers:
  assumes "key_ordered es" and "versions_desc (kept ab es)" and "\<forall>e \<in> set (kept ab es). \<not> kv_is_tombstone e"
    and "\<forall>e \<in> set es. k \<le> kv_key e"
  shows "answers t k (kept ab es) (mt_scan k t ab es)"
  using assms
proof (induction es)
  case Nil
  then show ?case by (simp add: answers_def)
next
  case (Cons a es)
  have IH: "answers t k (kept ab es) (mt_scan k t ab es)"
    using Cons by (auto simp: key_ordered_def versions_desc_def split: if_splits)
  consider "kv_key a \<noteq> k" | "kv_key a = k" "kv_timestamp a \<in> set ab" | "kv_key a = k" "kv_timestamp a \<notin> set ab" "kv_timestamp a \<le> t"
    | "kv_key a = k" "kv_timestamp a \<notin> set ab" "\<not> kv_timestamp a \<le> t" by blast
  then show ?case
  proof cases
    case 1
    then have "\<forall>e \<in> set (a # es). kv_key e \<noteq> k" using Cons.prems(1,4) by (auto simp: key_ordered_def order_le_less)
    with 1 show ?thesis by (auto simp: answers_def)
  next
    case 3
    have "newest t k (kept ab (a # es)) a" using 3 Cons.prems(2) by (auto simp: newest_def versions_desc_def)
    with 3 Cons.prems(3) show ?thesis by (auto simp: answers_def kv_result_def)
  next
    case 4
    then have "newest t k (kept ab es) e \<Longrightarrow> newest t k (kept ab (a # es)) e" for e by (auto simp: newest_def)
    with 4 IH show ?thesis by (auto simp: answers_def split: option.splits)
  qed (use IH in simp)
qed

lemma mt_Lookup_answers:
  assumes "mt_holds m vs"
  shows "answers t k vs (mt_Lookup k t m)"
proof -
  let ?es = "bt_entries (mt_tree m)" and ?P = "\<lambda>e. kv_key e < k" and ?ab = "mt_aborted m"
  have o: "key_ordered ?es" and vs: "vs = kept ?ab ?es" and d: "versions_desc (kept ?ab ?es)" and nt: "\<forall>e \<in> set (kept ?ab ?es). \<not> kv_is_tombstone e"
    and look: "mt_Lookup k t m = mt_scan k t ?ab (dropWhile ?P ?es)"
    using assms by (auto simp: mt_holds_def mt_Lookup_def bt_Lookup_flat mt_lookup_def)
  have split: "?es = takeWhile ?P ?es @ dropWhile ?P ?es" by simp
  have o': "key_ordered (dropWhile ?P ?es)" using o unfolding key_ordered_def by (metis map_append sorted_append split)
  have ge: "\<forall>e \<in> set (dropWhile ?P ?es). k \<le> kv_key e"
  proof (cases "dropWhile ?P ?es")
    case Nil
    show ?thesis unfolding Nil by simp
  next
    case (Cons a as)
    have "\<not> ?P a" using hd_dropWhile [of ?P ?es] Cons by simp
    with o' show ?thesis unfolding Cons by (auto simp: key_ordered_def not_less intro: order_trans)
  qed
  have kept: "kept ?ab ?es = kept ?ab (takeWhile ?P ?es) @ kept ?ab (dropWhile ?P ?es)" by (subst split) (simp only: filter_append)
  have "answers t k (kept ?ab (dropWhile ?P ?es)) (mt_Lookup k t m)"
    unfolding look using o' ge d nt kept by (intro mt_scan_answers) (auto simp: versions_desc_def sorted_wrt_append)
  moreover have "\<forall>e \<in> set (kept ?ab (takeWhile ?P ?es)). kv_key e \<noteq> k" by (auto dest: set_takeWhileD)
  ultimately show ?thesis unfolding vs kept by (fastforce simp: answers_def newest_def split: option.splits)
qed

interpretation mem: version_layer mt_holds mt_Lookup
  by unfold_locales (rule mt_Lookup_answers)

lemma lookup_frozen_first_hit: "lookup_frozen k t ms = mem.first_hit k t ms"
  by (induction ms) (simp_all split: option.split)

subsection \<open>Tables\<close>

text \<open>A lookup through the block cache changes it for its own table only.\<close>

definition same_others :: "u64 \<Rightarrow> block_cache option \<Rightarrow> block_cache option \<Rightarrow> bool" where
  "same_others seq c c' \<longleftrightarrow> rel_option (\<lambda>a b. (\<forall>s. s \<noteq> seq \<longrightarrow> bc_heavy a s = bc_heavy b s \<and> (\<forall>i. bc_blocks a (s, i) = bc_blocks b (s, i)))) c c'"

lemma same_others_refl [simp]: "same_others seq c c"
  by (cases c) (simp_all add: same_others_def)

lemma same_others_trans: "same_others seq a b \<Longrightarrow> same_others seq b c \<Longrightarrow> same_others seq a c"
  by (cases a; cases b; cases c) (simp_all add: same_others_def)

lemma sst_search_others: "sst_search file key t seq ab offsets c i = (c', r) \<Longrightarrow> same_others seq c c'"
  by (cases c) (auto simp: sst_search_def Let_def same_others_def split: if_splits option.splits)

lemma sst_lookup_in_others: "sst_lookup_in file key t seq h c = (c', r) \<Longrightarrow> same_others seq c c'"
  by (auto simp: sst_lookup_in_def Let_def split: if_splits prod.splits option.splits
      dest!: sst_search_others intro: same_others_trans)

lemma sst_LookupKey_others:
  assumes "sst_LookupKey path file key t c seq = (c', r)"
  shows "same_others seq c c'"
proof -
  have "same_others seq c (map_option (\<lambda>c. c\<lparr>bc_heavy := (bc_heavy c)(seq \<mapsto> h)\<rparr>) c)" for h by (cases c) (simp_all add: same_others_def)
  with assms show ?thesis
    by (auto simp: sst_LookupKey_def sst_ReadMetadata_def split: option.splits prod.splits sum.splits
        dest!: sst_lookup_in_others intro: same_others_trans)
qed

lemma cache_agrees_others:
  assumes "same_others seq c c'" and "s \<noteq> seq" and "cache_agrees path file s c"
  shows "cache_agrees path file s c'"
  using assms by (cases c; cases c') (auto simp: same_others_def cache_agrees_def blocks_agree_def)

text \<open>
  A table of the catalogue that \<open>Write\<close> has written with one version of each key, whose key range and filter do not exclude any of its keys. It holds
  the versions that its list of aborted batches does not name.
\<close>

definition tbl_holds :: "(bytes \<Rightarrow> bytes option) \<Rightarrow> SstMetadata \<Rightarrow> KeyValuePair list \<Rightarrow> bool" where
  "tbl_holds files m vs \<longleftrightarrow> (\<exists>bsz es ab. files (md_filepath m) = Some (sst_Write bsz es ab) \<and> table_ok bsz es ab \<and> strictly_sorted es
     \<and> (\<forall>t \<in> set (ab_list ab). \<not> bit t 31) \<and> (\<forall>e \<in> set es. table_may_have (kv_key e) m) \<and> vs = kept (ab_list ab) es)"

text \<open>The lookup without a cache.\<close>

definition tbl_look :: "(bytes \<Rightarrow> bytes option) \<Rightarrow> bytes \<Rightarrow> u64 \<Rightarrow> SstMetadata \<Rightarrow> bytes option" where
  "tbl_look files k t m = (if table_may_have k m
     then (case snd (sst_LookupKey (md_filepath m) (files (md_filepath m)) k t None (manifest_seq m)) of Inr r \<Rightarrow> r | Inl _ \<Rightarrow> None)
     else None)"

lemma cache_agrees_None: "cache_agrees path file seq None"
  by (simp add: cache_agrees_def blocks_agree_def)

lemma sst_LookupKey_cached:
  assumes "tbl_holds files m vs" and "cache_agrees (md_filepath m) (files (md_filepath m)) (manifest_seq m) c" and "table_may_have k m"
  shows "\<exists>c'. sst_LookupKey (md_filepath m) (files (md_filepath m)) k t c (manifest_seq m) = (c', Inr (tbl_look files k t m))
    \<and> cache_agrees (md_filepath m) (files (md_filepath m)) (manifest_seq m) c'"
proof -
  obtain bsz es ab where f: "files (md_filepath m) = Some (sst_Write bsz es ab)" and ok: "table_ok bsz es ab" "strictly_sorted es"
    "\<forall>t \<in> set (ab_list ab). \<not> bit t 31" using assms(1) by (auto simp: tbl_holds_def)
  from sstable_lookup_in_table [OF ok cache_agrees_None, where path = "md_filepath m" and seq = "manifest_seq m" and key = k and ts = t] assms(3)
  have "tbl_look files k t m = map_option kv_result (find (visible (ab_list ab) k t) es)" by (auto simp: tbl_look_def f)
  then show ?thesis using sstable_lookup_in_table [OF ok, where path = "md_filepath m" and seq = "manifest_seq m" and cache = c and key = k and ts = t] assms(2) by (simp add: f)
qed

lemma strictly_sorted_same_key:
  "strictly_sorted es \<Longrightarrow> a \<in> set es \<Longrightarrow> b \<in> set es \<Longrightarrow> kv_key a = kv_key b \<Longrightarrow> a = b"
  by (induction es) (auto simp: strictly_sorted_def)

lemma tbl_look_answers:
  assumes "tbl_holds files m vs"
  shows "answers t k vs (tbl_look files k t m)"
proof -
  obtain bsz es ab where f: "files (md_filepath m) = Some (sst_Write bsz es ab)" and ok: "table_ok bsz es ab" "strictly_sorted es"
    "\<forall>t \<in> set (ab_list ab). \<not> bit t 31" and mh: "\<forall>e \<in> set es. table_may_have (kv_key e) m" and vs: "vs = kept (ab_list ab) es"
    using assms by (auto simp: tbl_holds_def)
  show ?thesis
  proof (cases "table_may_have k m")
    case True
    from sstable_lookup_in_table [OF ok cache_agrees_None, where path = "md_filepath m" and seq = "manifest_seq m" and key = k and ts = t] True
    have look: "tbl_look files k t m = map_option kv_result (find (visible (ab_list ab) k t) es)" by (auto simp: tbl_look_def f)
    show ?thesis
    proof (cases "find (visible (ab_list ab) k t) es")
      case None
      then have "\<forall>e \<in> set es. \<not> visible (ab_list ab) k t e" by (simp add: find_None_iff)
      then show ?thesis by (auto simp: look None answers_def vs visible_def)
    next
      case (Some e)
      then have e: "e \<in> set es" "visible (ab_list ab) k t e" by (auto simp: find_Some_iff)
      then have "newest t k vs e" using strictly_sorted_same_key [OF ok(2)] by (auto simp: newest_def vs visible_def)
      with Some show ?thesis by (auto simp: look answers_def)
    qed
  next
    case False
    then have "\<forall>e \<in> set es. kv_key e \<noteq> k" using mh by auto
    then show ?thesis using False by (auto simp: tbl_look_def answers_def vs)
  qed
qed

interpretation tbl: version_layer "tbl_holds files" "tbl_look files" for files
  by unfold_locales (rule tbl_look_answers)

lemma lookup_tables_first_hit:
  assumes "list_all2 (tbl_holds files) ms vss" and "distinct (map manifest_seq ms)"
    and "\<forall>m \<in> set ms. cache_agrees (md_filepath m) (files (md_filepath m)) (manifest_seq m) c"
  shows "snd (lookup_tables files k t c ms) = tbl.first_hit files k t ms"
  using assms
proof (induction ms vss arbitrary: c rule: list_all2_induct)
  case (Cons m ms vs vss)
  show ?case
  proof (cases "table_may_have k m")
    case True
    from sst_LookupKey_cached [OF Cons.hyps(1) _ True, of c t] Cons.prems(2)
    obtain c' where c': "sst_LookupKey (md_filepath m) (files (md_filepath m)) k t c (manifest_seq m) = (c', Inr (tbl_look files k t m))" by auto
    have "\<forall>m' \<in> set ms. cache_agrees (md_filepath m') (files (md_filepath m')) (manifest_seq m') c'"
    proof
      fix m' assume m': "m' \<in> set ms"
      then have "manifest_seq m' \<in> manifest_seq ` set ms" by (rule imageI)
      then have "manifest_seq m' \<noteq> manifest_seq m" using Cons.prems(1) by auto
      then show "cache_agrees (md_filepath m') (files (md_filepath m')) (manifest_seq m') c'"
        using cache_agrees_others [OF sst_LookupKey_others [OF c']] Cons.prems(2) m' by simp
    qed
    with Cons.IH [of c'] Cons.prems(1) True c' show ?thesis by (simp split: option.split)
  next
    case False
    then have "tbl_look files k t m = None" by (simp add: tbl_look_def)
    with False Cons show ?thesis by simp
  qed
qed simp

section \<open>Lookups over all layers\<close>

text \<open>
  The tables of the catalogue with the versions they hold, in the order of the list, are ordered by age: a table of level 0 is at least as new as the ones listed before it (flushes append their tables),
  a table of another level at most as new.
\<close>

definition age_ordered :: "(eng_table \<times> KeyValuePair list) list \<Rightarrow> bool" where
  "age_ordered ps \<longleftrightarrow> sorted_wrt (\<lambda>p q. if md_level (et_meta (fst q)) = 0 then newer_first (snd q) (snd p) else newer_first (snd p) (snd q)) ps"

abbreviation read_first :: "(eng_table \<times> KeyValuePair list) list \<Rightarrow> (eng_table \<times> KeyValuePair list) list" where
  "read_first ps \<equiv> rev (filter (\<lambda>p. md_level (et_meta (fst p)) = 0) ps) @ filter (\<lambda>p. md_level (et_meta (fst p)) \<noteq> 0) ps"

lemma age_ordered_filter: "age_ordered ps \<Longrightarrow> age_ordered (filter P ps)"
  unfolding age_ordered_def by (rule sorted_wrt_filter)

lemma read_first_newer:
  assumes "age_ordered ps"
  shows "sorted_wrt newer_first (map snd (read_first ps))"
  using assms
proof (induction ps)
  case (Cons p ps)
  then have IH: "sorted_wrt newer_first (map snd (read_first ps))" by (simp add: age_ordered_def)
  have p: "md_level (et_meta (fst q)) = 0 \<Longrightarrow> newer_first (snd q) (snd p)" "md_level (et_meta (fst q)) \<noteq> 0 \<Longrightarrow> newer_first (snd p) (snd q)" if "q \<in> set ps" for q
    using Cons.prems that by (force simp: age_ordered_def)+
  with IH show ?case by (auto simp: sorted_wrt_append)
qed simp

lemma lookup_order_zip:
  assumes "length tabs = length vss"
  shows "lookup_order ids tabs = map (\<lambda>p. et_meta (fst p)) (read_first (filter (\<lambda>p. et_source (fst p) \<notin> set ids) (zip tabs vss)))"
proof -
  have "lookup_order ids (map fst ps) = map (\<lambda>p. et_meta (fst p)) (read_first (filter (\<lambda>p. et_source (fst p) \<notin> set ids) ps))" for ps :: "(eng_table \<times> KeyValuePair list) list"
    by (simp add: lookup_order_def Let_def filter_map comp_def rev_map)
  from this [of "zip tabs vss"] assms show ?thesis by simp
qed

lemma lookup_order_subset: "set (lookup_order ids tabs) \<subseteq> et_meta ` set tabs"
  by (auto simp: lookup_order_def)

lemma lookup_order_distinct:
  assumes "distinct (map (\<lambda>s. manifest_seq (et_meta s)) tabs)"
  shows "distinct (map manifest_seq (lookup_order ids tabs))"
  using assms by (induction tabs) (auto simp: lookup_order_def)

lemma answers_set: "answers t k us r \<Longrightarrow> set us = set vs \<Longrightarrow> answers t k vs r"
  by (auto simp: answers_def newest_def split: option.splits)


text \<open>Two tables of level 0 with a version of the same key each.\<close>

definition two_tables_disk :: "bytes \<Rightarrow> bytes option" where
  "two_tables_disk p = Some (sst_Write (\<lambda>n. (10, 7)) [if p = [1] then mk_kv [2] [8] 3 else mk_kv [2] [9] 4] None)"

definition two_tables :: "u32 \<Rightarrow> engine" where
  "two_tables l = (eng_fresh 4000)\<lparr>eg_files := two_tables_disk, eg_tables := map (\<lambda>i. \<lparr>et_meta = (sst_meta0 [of_nat i])\<lparr>manifest_seq := of_nat i, md_level := l\<rparr>, et_source = of_nat i\<rparr>) [1, 2]\<rparr>"

lemma two_tables_hold:
  "list_all2 (\<lambda>s. tbl_holds (eg_files (two_tables l)) (et_meta s)) (eg_tables (two_tables l)) [[mk_kv [2] [8] 3], [mk_kv [2] [9] 4]]"
proof -
  have "table_ok (\<lambda>n. (10, 7)) [mk_kv [2] [v] t] None" for v t by (rule table_ok_single) (simp_all add: entry_ok_def mk_kv_def ab_list_def)
  then have "tbl_holds two_tables_disk ((sst_meta0 [p])\<lparr>manifest_seq := n, md_level := l\<rparr>) [if p = 1 then mk_kv [2] [8] 3 else mk_kv [2] [9] 4]" for p n
    unfolding tbl_holds_def
    by (intro exI [of _ "\<lambda>n. (10, 7)"] exI [of _ "[if p = 1 then mk_kv [2] [8] 3 else mk_kv [2] [9] 4]"] exI [of _ None])
      (simp add: two_tables_disk_def strictly_sorted_def ab_list_def table_may_have_def sst_meta0_def bf_default_def)
  from this [of 1 1] this [of 2 2] show ?thesis by (simp add: two_tables_def)
qed


end
