(* ===== verification/Engine_Batches.thy ===== *)
theory Engine_Batches
  imports Engine_Reads
begin

text \<open>
  Batches of the engine (\<^verbatim>\<open>src/engine.cpp\<close>): commits are durable and end, the versions in the memtables are accounted for in every reachable state,
  and three ways in which batches go wrong: a commit after \<open>TrimWAL\<close> returns before its records are written, an abort does not reach the tables, and its
  timestamp is used again.
\<close>

section \<open>Commits\<close>

lemma u64_less_Suc: "(x :: u64) \<noteq> -1 \<Longrightarrow> x < x + 1"
  using inc_less_eq_self_iff_eq [of x] by (auto simp: not_le [symmetric])

lemma eng_sync_rounds_durable:
  assumes "eng_sync_rounds rs e = Some e'"
    and "wal_file (eg_wal e) = f \<and> write_buf (eg_wal e) = b \<and> eg_synced e < batch_seq (eg_wal e) \<or> wal_file (eg_wal e) = f @ b \<and> write_buf (eg_wal e) = []"
  shows "wal_file (eg_wal e') = f @ b \<and> write_buf (eg_wal e') = [] \<or> eg_synced e' < batch_seq (eg_wal e)"
  using assms
proof (induction rs e rule: eng_sync_rounds.induct)
  case (1 e)
  then show ?case by auto
next
  case (2 force io rs e)
  then obtain e1 where e1: "eng_sync_round force io e = Some e1" "eng_sync_rounds rs e1 = Some e'" by (auto simp: bind_eq_Some_conv)
  then have io: "io = Io_ok \<or> write_buf (eg_wal e) = [] \<or> \<not> force \<and> length (write_buf (eg_wal e)) < kWALMinSyncBytes"
    by (cases io) (auto simp: eng_sync_round_def wal_Sync_def wal_Sync_begin_def Let_def split: if_splits)
  then have "eng_sync_round force Io_ok e = Some e1"
    using e1(1) by (auto simp: eng_sync_round_def wal_Sync_def wal_Sync_begin_def Let_def)
  then have s: "e1 = (if write_buf (eg_wal e) = [] then e
     else if \<not> force \<and> length (write_buf (eg_wal e)) < kWALMinSyncBytes then e\<lparr>eg_wal := (eg_wal e)\<lparr>synced_seq := batch_seq (eg_wal e)\<rparr>\<rparr>
     else e\<lparr>eg_wal := (eg_wal e)\<lparr>wal_file := wal_file (eg_wal e) @ write_buf (eg_wal e), write_buf := [], synced_seq := batch_seq (eg_wal e),
              synced_entries := synced_entries (eg_wal e) + buffered_entries (eg_wal e), buffered_entries := 0\<rparr>,
            eg_synced := batch_seq (eg_wal e)\<rparr>)" by (simp add: eng_sync_round_ok)
  have bs: "batch_seq (eg_wal e1) = batch_seq (eg_wal e)" by (simp add: s)
  have "wal_file (eg_wal e1) = f \<and> write_buf (eg_wal e1) = b \<and> eg_synced e1 < batch_seq (eg_wal e1) \<or> wal_file (eg_wal e1) = f @ b \<and> write_buf (eg_wal e1) = []"
    using 2(3) unfolding s by (auto split: if_splits)
  from 2(1) [OF e1 this] show ?case by (simp add: bs)
qed

text \<open>
  C19: a commit waits until the batch is in the log file. When \<open>CommitBatch\<close> returns, whatever rounds the sync thread has made, forced or not, the file is the earlier file, all records
  that were buffered, and the commit record, in this order; nothing is left in the buffer. The published sequence number must not be ahead of the sequence number of the log, which holds until \<open>TrimWAL\<close> is called,
  and the sequence numbers must not have run out.
\<close>
theorem engine_commit_is_durable:
  assumes "eg_synced e \<le> batch_seq (eg_wal e)" and "batch_seq (eg_wal e) \<noteq> -1" and "eng_CommitBatch rs e = Some (Returns (e', True))"
  shows "wal_file (eg_wal e') = wal_file (eg_wal e) @ write_buf (wal_BufferBatchCommit (eg_batch_ts e) (eg_wal e)) \<and> write_buf (eg_wal e') = []"
proof -
  let ?w = "wal_BufferBatchCommit (eg_batch_ts e) (eg_wal e)"
  let ?e = "e\<lparr>eg_wal := ?w, eg_commit_seq := wal_CurrentBatchSeq ?w\<rparr>"
  obtain e2 where c: "eng_sync_rounds rs ?e = Some e2" "eng_CommitBatchFinalize e2 = Some e'"
    using assms(3) by (auto simp: eng_CommitBatch_def eng_CommitBatchAsync_def Let_def split: option.splits if_splits)
  have w: "wal_file ?w = wal_file (eg_wal e)" "batch_seq ?w = batch_seq (eg_wal e) + 1" by (simp_all add: wal_BufferBatchCommit_def)
  have "batch_seq (eg_wal e) < batch_seq (eg_wal e) + 1" using assms(2) by (rule u64_less_Suc)
  then have "eg_synced e < batch_seq ?w" using assms(1) w(2) by simp
  from eng_sync_rounds_durable [OF c(1), of "wal_file (eg_wal e)" "write_buf ?w"] this w(1)
  have "wal_file (eg_wal e2) = wal_file (eg_wal e) @ write_buf ?w \<and> write_buf (eg_wal e2) = [] \<or> eg_synced e2 < batch_seq ?w" by simp
  moreover have "eg_commit_seq e2 = batch_seq ?w" using eng_sync_rounds_fields [OF c(1)] by (auto simp: wal_CurrentBatchSeq_def)
  moreover have "\<not> eg_synced e2 < eg_commit_seq e2" "eg_wal e' = eg_wal e2" using c(2) by (auto simp: eng_CommitBatchFinalize_def split: if_splits)
  ultimately show ?thesis by simp
qed

theorem engine_commit_is_durable_witness:
  "(case eng_CommitBatch [(False, Io_ok), (True, Io_ok)] ((eng_fresh 100)\<lparr>eg_in_batch := True, eg_batch_ts := 10\<rparr>) of
     Some (Returns (e', True)) \<Rightarrow> wal_file (eg_wal e') = write_buf (wal_BufferBatchCommit 10 (wal_open [])) | _ \<Rightarrow> False)"
proof -
  let ?e = "(eng_fresh 100)\<lparr>eg_in_batch := True, eg_batch_ts := 10\<rparr>"
  obtain e' where e': "eng_CommitBatch [(False, Io_ok), (True, Io_ok)] ?e = Some (Returns (e', True))"
    using eng_commit_completes [of ?e "[(False, Io_ok)]"] by auto
  have w: "eg_wal ?e = wal_open []" "eg_synced ?e = 0" by (simp_all add: eng_fresh_def)
  from engine_commit_is_durable [OF _ _ e'] show ?thesis unfolding w by (simp add: e' wal_open_def)
qed

text \<open>
  after \<open>TrimWAL\<close> a commit does not wait: the log starts to count at 0 again, while the published sequence number stays. \<open>CommitBatch\<close> returns before the sync thread has made a round, and
  nothing that is in the buffer is in the file.
\<close>
theorem engine_commit_after_trim_not_durable:
  assumes "eng_TrimWAL Io_ok True True e0 = (e, None)" and "wal_file (eg_wal e0) \<noteq> []" and "1 \<le> eg_synced e0" and "eg_in_batch e0"
  shows "\<exists>e'. eng_CommitBatch [] e = Some (Returns (e', True)) \<and> wal_file (eg_wal e') = wal_file (eg_wal e) \<and> write_buf (eg_wal e') \<noteq> []"
proof -
  have "batch_seq (eg_wal e) = 0" "eg_synced e = eg_synced e0" "eg_in_batch e"
    using assms by (auto simp: eng_TrimWAL_def wal_TrimToLastCheckpoint_def wal_Sync_forced Let_def split: if_splits prod.splits)
  then show ?thesis using assms(3)
    by (auto simp: eng_CommitBatch_def eng_CommitBatchAsync_def eng_CommitBatchFinalize_def wal_CurrentBatchSeq_def wal_BufferBatchCommit_def WriteSentinelRecord_def
        WriteUint32LE_def Let_def not_less)
qed

text \<open>
  C30: a commit comes to an end. The sync thread only has to make one forced round that does not fail, after any rounds that do not fail either, and \<open>CommitBatch\<close> returns: the batch is closed
  and all its versions are visible, because the snapshot timestamp is above the timestamp of the batch.
\<close>
theorem engine_commit_ends:
  assumes "eg_in_batch e" and "\<forall>r \<in> set rs. snd r = Io_ok"
  shows "\<exists>e'. eng_CommitBatch (rs @ [(True, Io_ok)]) e = Some (Returns (e', True)) \<and> \<not> eg_in_batch e' \<and> eg_global_ts e' = eg_batch_ts e + 1"
  using eng_commit_completes [OF assms] eng_CommitBatch_returns by fastforce

theorem engine_commit_ends_witness:
  "\<exists>e'. eng_CommitBatch ([(False, Io_ok)] @ [(True, Io_ok)]) ((eng_fresh 100)\<lparr>eg_in_batch := True, eg_batch_ts := 10\<rparr>) = Some (Returns (e', True))
    \<and> \<not> eg_in_batch e' \<and> eg_global_ts e' = 10 + 1"
  using engine_commit_ends [of "(eng_fresh 100)\<lparr>eg_in_batch := True, eg_batch_ts := 10\<rparr>" "[(False, Io_ok)]"] by simp

section \<open>Aborts\<close>

lemma lookup_tables_marks:
  "lookup_tables files k t c (map (\<lambda>m. m\<lparr>aborted_batch_ts := f m\<rparr>) ms) = lookup_tables files k t c ms"
  by (induction ms arbitrary: c) (simp_all add: table_may_have_def split: prod.split sum.split option.split)

lemma lookup_order_marks:
  "lookup_order s (mark_tables ts ets) = map (\<lambda>m. m\<lparr>aborted_batch_ts := List.insert ts (aborted_batch_ts m)\<rparr>) (lookup_order s ets)"
  by (simp add: lookup_order_def mark_tables_def Let_def filter_map comp_def rev_map)

lemma eng_AbortBatch_returns:
  assumes "eng_AbortBatch wal_io mf_io e = (e', Inr True)" and "eg_touched e"
  shows "\<exists>w mf. e' = e\<lparr>eg_wal := w, eg_manifest := mf, eg_active := mt_AddAbortedBatch (eg_batch_ts e) (eg_active e),
    eg_frozen := map (mt_AddAbortedBatch (eg_batch_ts e)) (eg_frozen e), eg_tables := mark_tables (eg_batch_ts e) (eg_tables e), eg_in_batch := False\<rparr>"
  using assms by (auto simp: eng_AbortBatch_def Let_def split: if_splits prod.splits sum.splits option.splits)

text \<open>
  an abort does not reach the tables. When everything a batch has written was flushed before \<open>AbortBatch\<close>, a search gives the same result after it as before, for every key and snapshot: \<open>LookupKey\<close> takes the
  aborted batches from the file of the table, which was written while the batch was open, and not from the catalogue that \<open>AbortBatch\<close> marks. The aborted values appear as soon as the snapshot passes the batch.
\<close>
theorem engine_abort_misses_tables:
  assumes "eng_AbortBatch wal_io mf_io e = (e', Inr True)" and "mt_tree (eg_active e) = bt_empty" and "eg_frozen e = []"
  shows "eng_search key t e' = eng_search key t e"
proof (cases "eg_touched e")
  case True
  from eng_AbortBatch_returns [OF assms(1) this] obtain w mf where e': "e' = e\<lparr>eg_wal := w, eg_manifest := mf,
      eg_active := mt_AddAbortedBatch (eg_batch_ts e) (eg_active e), eg_frozen := map (mt_AddAbortedBatch (eg_batch_ts e)) (eg_frozen e),
      eg_tables := mark_tables (eg_batch_ts e) (eg_tables e), eg_in_batch := False\<rparr>" by blast
  have "mt_Lookup key t m = None" if "mt_tree m = bt_empty" for m
    using that by (simp add: mt_Lookup_def bt_empty_def bt_Lookup_def Let_def leaf_Find_def)
  with assms(2,3) show ?thesis by (simp add: e' eng_search_def mt_AddAbortedBatch_def lookup_order_marks lookup_tables_marks)
next
  case False
  with assms(1) have "e' = e\<lparr>eg_in_batch := False\<rparr>" by (auto simp: eng_AbortBatch_def split: if_splits)
  then show ?thesis by (simp add: eng_search_def cong: option.case_cong)
qed

theorem engine_abort_misses_tables_witness:
  "eng_search [1] 20 (fst (eng_AbortBatch Io_ok Io_ok ((eng_fresh 100)\<lparr>eg_in_batch := True, eg_batch_ts := 10, eg_touched := True,
      eg_tables := [\<lparr>et_meta = sst_meta0 [], et_source = 0\<rparr>]\<rparr>)))
   = eng_search [1] 20 ((eng_fresh 100)\<lparr>eg_in_batch := True, eg_batch_ts := 10, eg_touched := True, eg_tables := [\<lparr>et_meta = sst_meta0 [], et_source = 0\<rparr>]\<rparr>)"
proof -
  let ?e = "(eng_fresh 100)\<lparr>eg_in_batch := True, eg_batch_ts := 10, eg_touched := True, eg_tables := [\<lparr>et_meta = sst_meta0 [], et_source = 0\<rparr>]\<rparr>"
  have "snd (eng_AbortBatch Io_ok Io_ok ?e) = Inr True"
    by (simp add: eng_AbortBatch_def Let_def wal_Sync_def wal_Sync_begin_def wal_Sync_end_def mf_AddAbortBatch_def mf_WriteRecord_def
        split: prod.split)
  then have a: "eng_AbortBatch Io_ok Io_ok ?e = (fst (eng_AbortBatch Io_ok Io_ok ?e), Inr True)" by (metis prod.collapse)
  show ?thesis by (rule engine_abort_misses_tables [OF a]) (simp_all add: eng_fresh_def)
qed

section \<open>The versions in the memtables\<close>

text \<open>An insertion adds no other entry than the new one, whatever the tree.\<close>

lemma leaf_InsertEntry_subset: "leaf_InsertEntry pos kv es = Some es' \<Longrightarrow> set es' \<subseteq> insert kv (set es)"
  by (auto simp: leaf_InsertEntry_def split: if_splits dest: in_set_takeD in_set_dropD)

lemma fold_CopyEntry_subset: "set (fold leaf_CopyEntry es dst) \<subseteq> set es \<union> set dst"
proof (induction es arbitrary: dst)
  case (Cons e es)
  from Cons [of "leaf_CopyEntry e dst"] show ?case by (auto simp: leaf_CopyEntry_def split: if_splits)
qed simp

lemma leaf_split_subset:
  assumes "leaf_split pos kv es = (l, s, r)"
  shows "set l \<union> set r \<subseteq> insert kv (set es)"
proof -
  let ?m = "length es div 2"
  let ?l = "fold leaf_CopyEntry (take ?m es) []" and ?r = "fold leaf_CopyEntry (drop ?m es) []"
  have "set ?l \<subseteq> set es" "set ?r \<subseteq> set es"
    using fold_CopyEntry_subset [of "take ?m es" "[]"] fold_CopyEntry_subset [of "drop ?m es" "[]"] by (auto dest: in_set_takeD in_set_dropD)
  moreover have "set l \<subseteq> insert kv (set ?l)" "set r \<subseteq> insert kv (set ?r)"
    using assms by (auto simp: leaf_split_def Let_def split: if_splits option.splits dest!: leaf_InsertEntry_subset)
  ultimately show ?thesis by auto
qed

lemma ins_leaf_subset: "set (res_entries (ins_leaf kv es)) \<subseteq> insert kv (set es)"
  by (auto simp: ins_leaf_def Let_def split: option.splits prod.splits dest!: leaf_InsertEntry_subset leaf_split_subset)

lemma ins_node_subset:
  assumes "i < length cs" and "set (res_entries res) \<subseteq> insert kv (set (bt_entries (cs ! i)))"
  shows "set (res_entries (ins_node ks cs i res)) \<subseteq> insert kv (set (bt_entries (BNode ks cs)))"
proof (cases res)
  case (One c)
  with assms show ?thesis
    by (auto simp: ins_node_def dest!: set_update_subset_insert [THEN subsetD])
next
  case (Two l sep r)
  let ?cs = "take i cs @ l # r # drop (Suc i) cs"
  have cs: "set (concat (map bt_entries ?cs)) \<subseteq> insert kv (set (bt_entries (BNode ks cs)))"
    using assms Two by (auto dest: in_set_takeD in_set_dropD)
  define xs where "xs = ?cs"
  have split: "concat (map bt_entries (take n xs)) @ concat (map bt_entries (drop n xs)) = concat (map bt_entries xs)" for n
    by (metis append_take_drop_id concat_append map_append)
  have "res_entries (ins_node ks cs i (Two l sep r)) = concat (map bt_entries xs)"
    unfolding ins_node_def ins_result.case xs_def [symmetric] Let_def by (simp add: split)
  with cs Two show ?thesis by (simp only: xs_def)
qed

lemma bt_ins_subset: "set (res_entries (bt_ins kv t)) \<subseteq> insert kv (set (bt_entries t))"
proof (induction kv t rule: bt_ins.induct)
  case (1 kv es)
  then show ?case using ins_leaf_subset by simp
next
  case (2 kv ks cs)
  then show ?case using ins_node_subset by (auto simp: Let_def simp del: bt_entries.simps(2))
qed

lemma bt_Insert_subset: "set (bt_entries (bt_Insert kv t)) \<subseteq> insert kv (set (bt_entries t))"
  using bt_ins_subset [of kv t] by (cases "bt_ins kv t") (auto simp: bt_Insert_def)

lemma mt_Insert_subset: "set (bt_entries (mt_tree (mt_Insert kv m))) \<subseteq> insert kv (set (bt_entries (mt_tree m)))"
  using bt_Insert_subset [of kv "mt_tree m"] by (auto simp: mt_Insert_def)

text \<open>
  Every version in the memtable \<open>m\<close> is visible at the current snapshot, or was written by an aborted batch, or by the open one, or has a timestamp of \<open>S\<close>.
\<close>

definition mt_accounted :: "u64 set \<Rightarrow> engine \<Rightarrow> memtable \<Rightarrow> bool" where
  "mt_accounted S e m \<longleftrightarrow> (\<forall>v \<in> set (bt_entries (mt_tree m)). kv_timestamp v \<le> eg_global_ts e \<or> kv_timestamp v \<in> set (mt_aborted m)
     \<or> eg_in_batch e \<and> eg_touched e \<and> kv_timestamp v = eg_batch_ts e \<or> kv_timestamp v \<in> S)"

definition eng_accounted :: "u64 set \<Rightarrow> engine \<Rightarrow> bool" where
  "eng_accounted S e \<longleftrightarrow> (\<forall>m \<in> set (eg_active e # eg_frozen e). mt_accounted S e m) \<and> (eg_in_batch e \<longrightarrow> eg_global_ts e \<le> eg_batch_ts e)"

lemma mt_accounted_mono:
  assumes "mt_accounted S e m" and "eg_global_ts e \<le> eg_global_ts e'"
    and "eg_in_batch e \<Longrightarrow> eg_touched e \<Longrightarrow> eg_in_batch e' \<and> eg_touched e' \<and> eg_batch_ts e' = eg_batch_ts e \<or> eg_batch_ts e \<le> eg_global_ts e'"
  shows "mt_accounted S e' m"
  using assms unfolding mt_accounted_def by (auto intro: order_trans)

lemma mt_accounted_simps [simp]:
  "mt_accounted S e (mt_Freeze m) = mt_accounted S e m" "mt_accounted S e (mt_new i n)"
  by (simp_all add: mt_accounted_def mt_Freeze_def bt_empty_def)

lemma mt_accounted_Insert:
  assumes "mt_accounted S e m" and "kv_timestamp kv \<le> eg_global_ts e \<or> eg_in_batch e \<and> eg_touched e \<and> kv_timestamp kv = eg_batch_ts e \<or> kv_timestamp kv \<in> S"
  shows "mt_accounted S e (mt_Insert kv m)"
  using assms mt_Insert_subset [of kv m] unfolding mt_accounted_def by auto

lemma eng_accounted_apply:
  assumes "eng_accounted S e" and "kv_timestamp kv \<le> eg_global_ts e \<or> eg_in_batch e \<and> eg_touched e \<and> kv_timestamp kv = eg_batch_ts e \<or> kv_timestamp kv \<in> S"
  shows "eng_accounted S (eng_apply kv e)"
proof -
  have c: "mt_accounted S (eng_apply kv e) m = mt_accounted S e m" for m by (simp add: mt_accounted_def)
  show ?thesis
    by (cases rule: eng_apply_cases [of kv e]) (use assms mt_accounted_Insert [of S e "eg_active e" kv] in \<open>auto simp: eng_accounted_def c\<close>)
qed

text \<open>An operation that keeps the memtables or drops one, and the timestamps.\<close>

lemma eng_accounted_cong:
  assumes "eng_accounted S e" and "set (eg_active e' # eg_frozen e') \<subseteq> set (eg_active e # eg_frozen e)" and "eg_global_ts e' = eg_global_ts e"
    and "eg_in_batch e' = eg_in_batch e" and "eg_touched e' = eg_touched e" and "eg_batch_ts e' = eg_batch_ts e"
  shows "eng_accounted S e'"
  using assms unfolding eng_accounted_def mt_accounted_def by auto

lemma eng_DoFlush_fields:
  assumes "eng_DoFlush bsz io m e = (e', ok)"
  shows "eg_active e' = eg_active e \<and> eg_frozen e' = eg_frozen e \<and> eg_global_ts e' = eg_global_ts e \<and> eg_in_batch e' = eg_in_batch e
    \<and> eg_touched e' = eg_touched e \<and> eg_batch_ts e' = eg_batch_ts e \<and> eg_next_id e' = eg_next_id e"
  using assms by (auto simp: eng_DoFlush_def Let_def split: if_splits prod.splits sum.splits)

lemma eng_accounted_flush_step: "eng_accounted S e \<Longrightarrow> eng_accounted S (eng_flush_step bsz io e)"
proof (cases "eg_frozen e")
  case (Cons m ms)
  obtain e2 ok where d: "eng_DoFlush bsz io m (e\<lparr>eg_frozen := ms\<rparr>) = (e2, ok)" by fastforce
  note f = eng_DoFlush_fields [OF d]
  assume "eng_accounted S e"
  then show ?thesis
    by (rule eng_accounted_cong) (use Cons d f in \<open>auto simp: eng_flush_step_def Let_def split: bool.splits\<close>)
qed (simp add: eng_flush_step_def)

lemma eng_accounted_freeze: "eng_accounted S e \<Longrightarrow> eng_accounted S (eng_freeze e)"
proof -
  have "mt_accounted S (eng_freeze e) m = mt_accounted S e m" for m by (simp add: mt_accounted_def eng_freeze_def)
  then show "eng_accounted S e \<Longrightarrow> ?thesis" unfolding eng_accounted_def by (auto simp: eng_freeze_def)
qed

section \<open>Opening\<close>

lemma bt_found_empty: "\<not> bt_found key bt_empty"
  by (simp add: bt_found_def bt_empty_def FindChild_def find_child_step(3) Let_def)

text \<open>A memtable is counted as empty only if it is.\<close>

definition mt_counted :: "memtable \<Rightarrow> bool" where
  "mt_counted m \<longleftrightarrow> \<not> mt_frozen m \<and> (mt_count m = 0 \<longrightarrow> mt_tree m = bt_empty)"

lemma mt_counted_simps [simp]:
  "mt_counted (mt_new i n)" "mt_counted m \<Longrightarrow> mt_counted (mt_Insert kv m)" "mt_counted (mt_AddAbortedBatch ts m) = mt_counted m"
  by (auto simp: mt_counted_def mt_new_def mt_Insert_def bt_found_empty mt_AddAbortedBatch_def)

definition eng_quiet :: "engine \<Rightarrow> bool" where
  "eng_quiet e \<longleftrightarrow> mt_counted (eg_active e) \<and> eg_frozen e = [] \<and> \<not> eg_in_batch e"

lemma eng_quiet_flush:
  "eng_quiet e \<Longrightarrow> eng_DoFlush bsz io m (eng_new_table e) = (e', ok) \<Longrightarrow> eng_quiet e' \<and> mt_tree (eg_active e') = bt_empty"
  by (drule eng_DoFlush_fields) (simp add: eng_quiet_def eng_new_table_def)

lemma eng_quiet_replay: "eng_quiet e \<Longrightarrow> eng_replay bsz io kvs e = Some e' \<Longrightarrow> eng_quiet e'"
proof (induction bsz io kvs e rule: eng_replay.induct)
  case (2 bsz io kv kvs e)
  let ?e = "e\<lparr>eg_active := mt_Insert (kv\<lparr>kv_is_tombstone := False\<rparr>) (eg_active e), eg_global_ts := (if kv_timestamp kv > eg_global_ts e then kv_timestamp kv else eg_global_ts e)\<rparr>"
  have q: "eng_quiet ?e" using 2(3) by (simp add: eng_quiet_def)
  show ?case
  proof (cases "mt_IsFull (eg_active ?e)")
    case True
    then obtain e2 where d: "eng_DoFlush bsz io (mt_Freeze (eg_active ?e)) (eng_new_table ?e) = (e2, True)"
      and r: "eng_replay bsz io kvs (eng_checkpoint e2) = Some e'" using 2(4) by (auto simp: Let_def split: prod.splits bool.splits)
    have "eng_quiet (eng_checkpoint e2)" using eng_quiet_flush [OF q d] by (simp add: eng_checkpoint_def eng_quiet_def)
    from 2(1) [OF refl True d [symmetric] refl this r] show ?thesis .
  next
    case False
    with 2(2) [OF refl False q] 2(4) show ?thesis by (simp add: Let_def)
  qed
qed simp

lemma eng_quiet_marks: "eng_quiet e \<Longrightarrow> eng_quiet (fold mark_aborted tss e)"
  by (induction tss arbitrary: e) (simp_all add: mark_aborted_def eng_quiet_def)

lemma eng_marks_tree: "mt_tree (eg_active (fold mark_aborted tss e)) = mt_tree (eg_active e)"
  by (induction tss arbitrary: e) (simp_all add: mark_aborted_def mt_AddAbortedBatch_def)

lemma eng_recovered_empty:
  assumes "eng_RecoverFromWAL bsz io wal_io r e = Some e'" and "eng_quiet e" and "mt_tree (eg_active e) = bt_empty"
  shows "eng_quiet e' \<and> mt_tree (eg_active e') = bt_empty"
proof -
  let ?e1 = "fold mark_aborted (wr_aborted r) (e\<lparr>eg_global_ts := (if wr_checkpoint_ts r > eg_global_ts e then wr_checkpoint_ts r else eg_global_ts e)\<rparr>)"
  have q1: "eng_quiet ?e1" using assms(2) by (intro eng_quiet_marks) (simp add: eng_quiet_def)
  show ?thesis
  proof (cases "wr_entries r = []")
    case True
    then have "e' = ?e1" using assms(1) by (simp add: eng_RecoverFromWAL_def Let_def)
    moreover have "mt_tree (eg_active ?e1) = bt_empty" using assms(3) by (simp add: eng_marks_tree)
    ultimately show ?thesis using q1 by simp
  next
    case False
    with assms(1) obtain e2 e3 where e2: "eng_replay bsz io (wr_entries r) ?e1 = Some e2"
      and e3: "(if mt_count (eg_active e2) > 0 then (case eng_DoFlush bsz io (mt_Freeze (eg_active e2)) (eng_new_table e2) of
          (e3, True) \<Rightarrow> Some e3 | (_, False) \<Rightarrow> None) else Some e2) = Some e3"
      and e': "(case wal_Sync True wal_io (eg_wal (eng_checkpoint e3)) of (w, Inl _) \<Rightarrow> None | (w, Inr _) \<Rightarrow> Some ((eng_checkpoint e3)\<lparr>eg_wal := w\<rparr>)) = Some e'"
      unfolding eng_RecoverFromWAL_def Let_def by (auto simp: bind_eq_Some_conv)
    note q2 = eng_quiet_replay [OF q1 e2]
    have "eng_quiet e3 \<and> mt_tree (eg_active e3) = bt_empty"
    proof (cases "mt_count (eg_active e2) > 0")
      case True
      with e3 obtain ok where "eng_DoFlush bsz io (mt_Freeze (eg_active e2)) (eng_new_table e2) = (e3, ok)"
        by (auto split: prod.splits bool.splits)
      with eng_quiet_flush [OF q2] show ?thesis by blast
    next
      case False
      with e3 q2 show ?thesis by (auto simp: eng_quiet_def mt_counted_def)
    qed
    then show ?thesis using e' by (auto simp: eng_quiet_def eng_checkpoint_def split: prod.splits sum.splits)
  qed
qed

lemma eng_open_accounted:
  assumes "eng_open bsz oi oc mf wal_bytes files = Some e"
  shows "eng_accounted S e"
proof -
  obtain e0 r e1 where r: "eng_RecoverFromWAL bsz (oi_mf_io oi) (oi_wal_io oi) r e0 = Some e1"
    and e0: "eng_quiet e0" "mt_tree (eg_active e0) = bt_empty" and e: "eg_active e = eg_active e1" "eg_frozen e = eg_frozen e1" "eg_in_batch e = eg_in_batch e1"
    using assms by (fastforce simp: eng_open_def Let_def eng_quiet_def split: sum.splits prod.splits)
  have "eng_quiet e1 \<and> mt_tree (eg_active e1) = bt_empty" by (rule eng_recovered_empty [OF r e0])
  then show ?thesis using e by (simp add: eng_accounted_def eng_quiet_def mt_accounted_def bt_empty_def)
qed

section \<open>Steps\<close>

text \<open>
  The operations of a client and the rounds of the workers; the 64-bit timestamps do not run out. \<open>BatchInsert\<close> and \<open>BatchDelete\<close> do not test whether a batch is open, nor does the writer
  thread of the server that calls them: the middle argument is the timestamp that such a write outside a batch uses, which is that of the last batch.
\<close>

inductive eng_step :: "engine \<Rightarrow> u64 set \<Rightarrow> engine \<Rightarrow> bool" where
  insert: "eng_Insert hs key val e = Returns e' \<Longrightarrow> eg_global_ts e \<noteq> -1 \<Longrightarrow> eng_step e {} e'"
| delete: "eng_Delete hs key e = Returns e' \<Longrightarrow> eg_global_ts e \<noteq> -1 \<Longrightarrow> eng_step e {} e'"
| lookup: "eng_Lookup hs key e = Returns (e', r) \<Longrightarrow> eng_step e {} e'"
| start: "eng_StartBatch e = Some e' \<Longrightarrow> eg_global_ts e \<le> eg_global_ts e + eg_gap e \<Longrightarrow> eng_step e {} e'"
| batch_insert: "eng_BatchInsert key val e = Returns e' \<Longrightarrow> eng_step e (if eg_in_batch e then {} else {eg_batch_ts e}) e'"
| batch_delete: "eng_BatchDelete key e = Returns e' \<Longrightarrow> eng_step e (if eg_in_batch e then {} else {eg_batch_ts e}) e'"
| commit_async: "eng_CommitBatchAsync e = Some e' \<Longrightarrow> eng_step e {} e'"
| commit_finalize: "eng_CommitBatchFinalize e = Some e' \<Longrightarrow> eg_batch_ts e \<noteq> -1 \<Longrightarrow> eng_step e {} e'"
| abort: "eng_AbortBatch wal_io mf_io e = (e', r) \<Longrightarrow> eng_step e {} e'"
| freeze: "mt_count (eg_active e) \<noteq> 0 \<Longrightarrow> eng_step e {} (eng_freeze e)"
| sync: "eng_sync_round force io e = Some e' \<Longrightarrow> eng_step e {} e'"
| flush: "eng_step e {} (eng_flush_step bsz io e)"
| compact: "eng_compaction_round bsz ios min_ts e = Returns e' \<Longrightarrow> eng_step e {} e'"
| compact_manual: "eng_ManualCompact bsz ios min_ts n l cascade e = Returns (e', k) \<Longrightarrow> eng_step e {} e'"
| trim: "eng_TrimWAL wal_io rd ab e = (e', err) \<Longrightarrow> eng_step e {} e'"

text \<open>\<open>S\<close> are the timestamps of all batch writes that were made outside a batch.\<close>

inductive eng_reach :: "engine \<Rightarrow> u64 set \<Rightarrow> bool" where
  opened: "eng_open bsz oi oc mf wal_bytes files = Some e \<Longrightarrow> eng_reach e {}"
| step: "eng_reach e S \<Longrightarrow> eng_step e S' e' \<Longrightarrow> eng_reach e' (S \<union> S')"

lemma eng_accounted_advance:
  assumes "eng_accounted S e" and "\<not> eng_blocked e" and "eg_global_ts e \<noteq> -1"
  shows "eng_accounted S (e\<lparr>eg_global_ts := eg_global_ts e + 1\<rparr>)"
proof -
  have "eg_global_ts e \<le> eg_global_ts e + 1" using u64_less_Suc [OF assms(3)] by simp
  then have "mt_accounted S (e\<lparr>eg_global_ts := eg_global_ts e + 1\<rparr>) m" if "mt_accounted S e m" for m
    using mt_accounted_mono [OF that, of "e\<lparr>eg_global_ts := eg_global_ts e + 1\<rparr>"] by simp
  with assms(1,2) show ?thesis by (auto simp: eng_accounted_def eng_blocked_def)
qed

lemma eng_accounted_write:
  assumes "eng_accounted S e" and "eng_Insert hs key val e = Returns e' \<or> eng_Delete hs key e = Returns e'" and "eg_global_ts e \<noteq> -1"
  shows "eng_accounted S e'"
proof -
  obtain v d c where e': "\<not> eng_blocked e" "e' = (eng_apply \<lparr>kv_key = key, kv_value = v, kv_timestamp = eg_global_ts e + 1, kv_is_tombstone = d\<rparr>
      (e\<lparr>eg_global_ts := eg_global_ts e + 1\<rparr>))\<lparr>eg_kv := c\<rparr>"
    using assms(2) by (auto simp: eng_Insert_def eng_Delete_def Let_def on_cache_def split: if_splits option.splits)
  have "eng_accounted S (eng_apply \<lparr>kv_key = key, kv_value = v, kv_timestamp = eg_global_ts e + 1, kv_is_tombstone = d\<rparr> (e\<lparr>eg_global_ts := eg_global_ts e + 1\<rparr>))"
    by (rule eng_accounted_apply [OF eng_accounted_advance [OF assms(1) e'(1) assms(3)]]) simp
  then show ?thesis unfolding e'(2) by (rule eng_accounted_cong) simp_all
qed

lemma eng_accounted_more: "eng_accounted S e \<Longrightarrow> S \<subseteq> S' \<Longrightarrow> eng_accounted S' e"
  unfolding eng_accounted_def mt_accounted_def by blast

lemma eng_accounted_touch:
  assumes "eng_accounted S e"
  shows "eng_accounted S (e\<lparr>eg_touched := True\<rparr>)"
proof -
  have "mt_accounted S (e\<lparr>eg_touched := True\<rparr>) m" if "mt_accounted S e m" for m using that by (rule mt_accounted_mono) simp_all
  with assms show ?thesis by (auto simp: eng_accounted_def)
qed

lemma eng_accounted_batch:
  assumes "eng_accounted S e" and "eng_BatchInsert key val e = Returns e' \<or> eng_BatchDelete key e = Returns e'"
  shows "eng_accounted (S \<union> (if eg_in_batch e then {} else {eg_batch_ts e})) e'"
proof -
  let ?S = "S \<union> (if eg_in_batch e then {} else {eg_batch_ts e})"
  obtain v d where e': "e' = eng_apply \<lparr>kv_key = key, kv_value = v, kv_timestamp = eg_batch_ts e, kv_is_tombstone = d\<rparr> (e\<lparr>eg_touched := True\<rparr>)"
    using assms(2) by (auto simp: eng_BatchInsert_def eng_BatchDelete_def split: if_splits)
  have "eng_accounted ?S e" using assms(1) by (rule eng_accounted_more) simp
  then have "eng_accounted ?S (e\<lparr>eg_touched := True\<rparr>)" by (rule eng_accounted_touch)
  then show ?thesis unfolding e' by (rule eng_accounted_apply) simp
qed

lemma mt_accounted_abort:
  assumes "mt_accounted S e m" and "eg_global_ts e' = eg_global_ts e"
  shows "mt_accounted S e' (mt_AddAbortedBatch (eg_batch_ts e) m)"
  using assms unfolding mt_accounted_def by (auto simp: mt_AddAbortedBatch_def)

lemma fold_fields: "(\<And>x e. f (g x e) = f e) \<Longrightarrow> f (fold g xs e) = f e"
  by (induction xs arbitrary: e) simp_all

text \<open>What a compaction leaves alone.\<close>

definition mem_part :: "engine \<Rightarrow> memtable \<times> memtable list \<times> u64 \<times> bool \<times> bool \<times> u64" where
  "mem_part e = (eg_active e, eg_frozen e, eg_global_ts e, eg_in_batch e, eg_touched e, eg_batch_ts e)"

lemma mem_part_accounted: "eng_accounted S e \<Longrightarrow> mem_part e' = mem_part e \<Longrightarrow> eng_accounted S e'"
  by (rule eng_accounted_cong) (simp_all add: mem_part_def)

lemma mem_part_simps [simp]:
  "mem_part (eng_DrainFileGC t e) = mem_part e" "mem_part (eng_garbage ins f e) = mem_part e"
  by (simp_all add: mem_part_def eng_DrainFileGC_def eng_garbage_def Let_def)

lemma eng_AbortBatch_cases:
  assumes "eng_AbortBatch wal_io mf_io e = (e', r)"
  shows "mem_part e' = mem_part e \<or> e' = e\<lparr>eg_in_batch := False\<rparr> \<and> \<not> eg_touched e
    \<or> mem_part e' = mem_part (e\<lparr>eg_active := mt_AddAbortedBatch (eg_batch_ts e) (eg_active e),
        eg_frozen := map (mt_AddAbortedBatch (eg_batch_ts e)) (eg_frozen e), eg_in_batch := False\<rparr>)"
proof (cases "eg_in_batch e \<and> eg_touched e")
  case True
  obtain w x where w: "wal_Sync True wal_io (wal_BufferAbort (eg_batch_ts e) (eg_wal e)) = (w, x)" by fastforce
  obtain mf err where mf: "mf_AddAbortBatch (eg_batch_ts e) (eg_seq e) mf_io (eg_manifest e) = (mf, err)" by fastforce
  show ?thesis
    by (cases x; cases err) (use True assms in \<open>auto simp: eng_AbortBatch_def Let_def w mf mem_part_def\<close>)
next
  case False
  then show ?thesis using assms by (auto simp: eng_AbortBatch_def split: if_splits)
qed

lemma eng_accounted_abort:
  assumes "eng_accounted S e" and "eng_AbortBatch wal_io mf_io e = (e', r)"
  shows "eng_accounted S e'"
  using eng_AbortBatch_cases [OF assms(2)]
proof (elim disjE conjE)
  assume "mem_part e' = mem_part e"
  then show ?thesis by (rule mem_part_accounted [OF assms(1)])
next
  assume "e' = e\<lparr>eg_in_batch := False\<rparr>" "\<not> eg_touched e"
  with assms(1) show ?thesis by (auto simp: eng_accounted_def mt_accounted_def)
next
  let ?e = "e\<lparr>eg_active := mt_AddAbortedBatch (eg_batch_ts e) (eg_active e), eg_frozen := map (mt_AddAbortedBatch (eg_batch_ts e)) (eg_frozen e), eg_in_batch := False\<rparr>"
  assume m: "mem_part e' = mem_part ?e"
  have "mt_accounted S ?e (mt_AddAbortedBatch (eg_batch_ts e) m)" if "mt_accounted S e m" for m by (rule mt_accounted_abort [OF that]) simp
  then have "eng_accounted S ?e" using assms(1) by (simp add: eng_accounted_def)
  then show ?thesis using m by (rule mem_part_accounted)
qed

lemma mem_part_manifest:
  "eng_remove_inputs ios n ins e = (e', ok) \<Longrightarrow> mem_part e' = mem_part e"
  "eng_add_outputs ios n outs e = (e', ok) \<Longrightarrow> mem_part e' = mem_part e"
proof -
  show "eng_remove_inputs ios n ins e = (e', ok) \<Longrightarrow> mem_part e' = mem_part e"
    by (induction ios n ins e rule: eng_remove_inputs.induct) (auto simp: mem_part_def split: prod.splits option.splits)
  show "eng_add_outputs ios n outs e = (e', ok) \<Longrightarrow> mem_part e' = mem_part e"
    by (induction ios n outs e rule: eng_add_outputs.induct) (auto simp: mem_part_def split: prod.splits option.splits)
qed

lemma mem_part_CompactLevel:
  assumes "eng_CompactLevel bsz ios a b e = Returns (e', ok)"
  shows "mem_part e' = mem_part e"
proof -
  have g: "mem_part (fold (eng_garbage ins) fs e) = mem_part e" for ins fs e by (rule fold_fields) simp
  have u: "mem_part (e\<lparr>eg_seq := s\<rparr>) = mem_part e" "mem_part (e\<lparr>eg_seq := s, eg_files := fs, eg_tables := ts\<rparr>) = mem_part e" for s fs ts
    by (simp_all add: mem_part_def)
  show ?thesis using assms unfolding eng_CompactLevel_def Let_def
    by (auto simp: g u split: if_splits option.splits sum.splits prod.splits bool.splits dest!: mem_part_manifest)
qed

lemma eng_step_accounted:
  assumes "eng_step e S' e'" and "eng_accounted S e"
  shows "eng_accounted (S \<union> S') e'"
  using assms(1)
proof (cases rule: eng_step.cases)
  case (batch_insert key val)
  then show ?thesis using eng_accounted_batch [OF assms(2)] by blast
next
  case (batch_delete key)
  then show ?thesis using eng_accounted_batch [OF assms(2)] by blast
next
  case (trim wal_io rd ab err)
  then have "mem_part e' = mem_part e" by (auto simp: eng_TrimWAL_def mem_part_def split: prod.splits)
  then show ?thesis using mem_part_accounted [OF assms(2)] trim by simp
next
  case (lookup hs key r)
  then have "mem_part e' = mem_part e"
    by (auto simp: eng_Lookup_def mem_part_def split: option.splits prod.splits if_splits)
  then show ?thesis using mem_part_accounted [OF assms(2)] lookup by simp
next
  case start
  then have e': "e' = e\<lparr>eg_batch_ts := eg_global_ts e + eg_gap e, eg_in_batch := True, eg_touched := False,
      eg_wal := wal_BufferBatchBegin (eg_global_ts e + eg_gap e) (eg_wal e)\<rparr>" "\<not> eg_in_batch e"
    by (auto simp: eng_StartBatch_def Let_def split: if_splits)
  with assms(2) start show ?thesis by (auto simp: eng_accounted_def mt_accounted_def)
next
  case commit_async
  then have "mem_part e' = mem_part e" by (auto simp: mem_part_def eng_CommitBatchAsync_def Let_def split: if_splits)
  then show ?thesis using mem_part_accounted [OF assms(2)] commit_async by simp
next
  case commit_finalize
  then have e': "e' = e\<lparr>eg_global_ts := eg_batch_ts e + 1, eg_in_batch := False, eg_commit_seq := 0\<rparr>" "eg_in_batch e"
    by (auto simp: eng_CommitBatchFinalize_def split: if_splits)
  have "eg_global_ts e \<le> eg_batch_ts e" "eg_batch_ts e \<le> eg_batch_ts e + 1"
    using assms(2) e'(2) u64_less_Suc [OF commit_finalize(3)] by (auto simp: eng_accounted_def)
  then have "mt_accounted S e' m" if "mt_accounted S e m" for m using mt_accounted_mono [OF that, of e'] by (auto simp: e')
  with assms(2) commit_finalize show ?thesis by (auto simp: eng_accounted_def e')
next
  case (sync force io)
  then have "mem_part e' = mem_part e" by (auto simp: eng_sync_round_def mem_part_def split: prod.splits sum.splits)
  then show ?thesis using mem_part_accounted [OF assms(2)] sync by simp
next
  case (compact bsz ios min_ts)
  then have "mem_part e' = mem_part e"
    by (auto simp: eng_compaction_round_def Let_def split: if_splits outcome.splits prod.splits dest!: mem_part_CompactLevel)
  then show ?thesis using mem_part_accounted [OF assms(2)] compact by simp
next
  case (compact_manual bsz ios min_ts n l cascade k)
  then have "mem_part e' = mem_part e"
    by (auto simp: eng_ManualCompact_def Let_def split: if_splits outcome.splits prod.splits option.splits bool.splits dest!: mem_part_CompactLevel)
  then show ?thesis using mem_part_accounted [OF assms(2)] compact_manual by simp
next
  case (insert hs key val)
  then show ?thesis using eng_accounted_write [OF assms(2), of hs key val e'] by simp
next
  case (delete hs key)
  then show ?thesis using eng_accounted_write [OF assms(2), of hs key _ e'] by simp
next
  case (abort wal_io mf_io r)
  then show ?thesis using eng_accounted_abort [OF assms(2)] by simp
qed (simp_all add: eng_accounted_freeze eng_accounted_flush_step assms(2))

section \<open>Properties\<close>

text \<open>
  C10: in every state that clients and workers can reach from an opened engine, with any outcome of the file operations, every version in a memtable, active or frozen, is visible at the current snapshot, or
  is in the list of aborted batches of its memtable, or was written by the batch that is open, or has the timestamp of a batch write that was made while no batch was open (\<open>S\<close>, which is empty when clients
  write to a batch only between its begin and its end); and the snapshot is not beyond the timestamp of an open batch. So a commit or an abort settles all
  versions of the batch in the memtables, across freezes and flushes in between. The 64-bit timestamps must not run out.
\<close>
theorem engine_versions_accounted:
  assumes "eng_reach e S"
  shows "(\<forall>m \<in> set (eg_active e # eg_frozen e). \<forall>v \<in> set (bt_entries (mt_tree m)).
      kv_timestamp v \<le> eg_global_ts e \<or> kv_timestamp v \<in> set (mt_aborted m) \<or> eg_in_batch e \<and> eg_touched e \<and> kv_timestamp v = eg_batch_ts e
      \<or> kv_timestamp v \<in> S)
    \<and> (eg_in_batch e \<longrightarrow> eg_global_ts e \<le> eg_batch_ts e)"
proof -
  have "eng_accounted S e" using assms
  proof (induction rule: eng_reach.induct)
    case (opened bsz oi oc mf wal_bytes files e)
    then show ?case by (rule eng_open_accounted)
  next
    case (step e S S' e')
    then show ?case using eng_step_accounted by blast
  qed
  then show ?thesis by (simp only: eng_accounted_def mt_accounted_def)
qed

text \<open>An engine opened on an empty directory.\<close>

definition oi_all :: open_io where
  "oi_all = \<lparr>oi_mf_rd = True, oi_mf_ab = True, oi_mf_tmp = True, oi_mf_io = Io_ok, oi_mf_mv = True, oi_wal_rd = True, oi_wal_ab = True, oi_wal_io = Io_ok\<rparr>"

definition oc_small :: open_conf where
  "oc_small = \<lparr>oc_dir = [], oc_max_bytes = 50, oc_gap = 10, oc_kv_entries = 100, oc_kv_bytes = 1000, oc_kv_shards = 4\<rparr>"

lemma eng_open_no_log:
  assumes "mf_Recover True True mf = Inr metas"
  shows "eng_open bsz oi_all oc_small mf [] files = Some \<lparr>eg_dir = [], eg_max_bytes = 50, eg_gap = 10, eg_active = mt_new 0 50, eg_frozen = [], eg_next_id = 1,
     eg_tables = map (eng_load files) metas, eg_seq = of_nat (length metas), eg_global_ts = 0, eg_in_batch = False, eg_batch_ts = 0, eg_touched = False, eg_commit_seq = 0,
     eg_synced = 0, eg_wal = wal_open [], eg_manifest = mf_Compact True True Io_ok True mf, eg_kv = kc_new 100 1000 4,
     eg_cache = Some \<lparr>bc_heavy = \<lambda>_. None, bc_blocks = \<lambda>_. None\<rparr>, eg_files = files, eg_gc = []\<rparr>"
  using assms by (simp add: eng_open_def oi_all_def oc_small_def wal_Recover_def wal_Sync_def wal_Sync_begin_def wal_open_def
      eng_RecoverFromWAL_def wal_no_recovery_def)

theorem engine_versions_accounted_witness:
  "\<exists>e. eng_open (\<lambda>n. (10, 7)) oi_all oc_small \<lparr>mf_file = []\<rparr> [] (\<lambda>_. None) = Some e \<and> (\<exists>e1 e2. eng_StartBatch e = Some e1 \<and> eng_BatchInsert [1] [2] e1 = Returns e2
    \<and> eg_in_batch e2 \<and> eg_frozen e2 \<noteq> [] \<and> eg_global_ts e2 \<le> eg_batch_ts e2)"
proof -
  obtain e where o: "eng_open (\<lambda>n. (10, 7)) oi_all oc_small \<lparr>mf_file = []\<rparr> [] (\<lambda>_. None) = Some e"
    and e: "eg_in_batch e = False" "eg_global_ts e = 0" "eg_gap e = 10" "eg_active e = mt_new 0 50"
    using eng_open_no_log [of "\<lparr>mf_file = []\<rparr>" "[]"] by (auto simp: mf_Recover_def)
  obtain e1 where s: "eng_StartBatch e = Some e1" "eg_in_batch e1" "eg_active e1 = mt_new 0 50"
    using e by (simp add: eng_StartBatch_def Let_def)
  let ?e2 = "eng_apply \<lparr>kv_key = [1], kv_value = [2], kv_timestamp = eg_batch_ts e1, kv_is_tombstone = False\<rparr> (e1\<lparr>eg_touched := True\<rparr>)"
  have i: "eng_BatchInsert [1] [2] e1 = Returns ?e2"
    by (simp add: eng_BatchInsert_def entry_size_def kMaxKeyBytes_def kMaxKeyValuePairBytes_def kMemTableEntryOverheadBytes_def)
  have f: "eg_frozen ?e2 \<noteq> []"
    using s(3) by (simp add: eng_apply_def eng_freeze_if_full_def eng_freeze_def mt_IsFull_def mt_Insert_def mt_new_def eng_log_def kMemTableEntryOverheadBytes_def)
  have "eg_global_ts e \<le> eg_global_ts e + eg_gap e" by (simp add: e)
  then have "eng_reach ?e2 ({} \<union> {} \<union> (if eg_in_batch e1 then {} else {eg_batch_ts e1}))"
    by (intro eng_reach.step [OF eng_reach.step [OF eng_reach.opened [OF o] eng_step.start [OF s(1)]] eng_step.batch_insert [OF i]])
  from engine_versions_accounted [OF this] s(2) have "eg_global_ts ?e2 \<le> eg_batch_ts ?e2" by simp
  with o s i f show ?thesis by auto
qed

text \<open>
  the timestamp of an aborted batch is used again. A batch takes its timestamp at a fixed distance from the snapshot, which an abort does not change. If no other write came in between, the next
  batch gets the same timestamp, which the memtable lists as aborted: its versions are skipped, and a key that only this batch has written is not found after the commit.
\<close>
theorem engine_aborted_timestamp_reused:
  assumes "eg_in_batch e" and "eg_touched e" and "eg_batch_ts e = eg_global_ts e + eg_gap e" and "eng_AbortBatch Io_ok Io_ok e = (e1, Inr True)" and "eng_StartBatch e1 = Some e2"
    and "eng_BatchInsert key val e2 = Returns e3" and "eng_CommitBatch rs e3 = Some (Returns (e4, True))"
    and "mt_accepts m M \<lparr>kv_key = key, kv_value = val, kv_timestamp = eg_batch_ts e2, kv_is_tombstone = False\<rparr> (eg_active e2)"
    and "\<forall>v \<in> set (bt_entries (mt_tree (eg_active e))). kv_key v \<noteq> key" and "eg_frozen e = []" and "eg_tables e = []" and "kc_ok (eg_kv e)" and "cached hs key e = None"
  shows "\<exists>e5. eng_Lookup hs key e4 = Returns (e5, None)"
proof -
  let ?ts = "eg_batch_ts e" and ?a = "mt_AddAbortedBatch (eg_batch_ts e) (eg_active e)"
  let ?kv = "\<lparr>kv_key = key, kv_value = val, kv_timestamp = ?ts, kv_is_tombstone = False\<rparr>"
  obtain w mf where e1: "e1 = e\<lparr>eg_wal := w, eg_manifest := mf, eg_active := ?a, eg_frozen := [], eg_tables := [], eg_in_batch := False\<rparr>"
    using eng_AbortBatch_returns [OF assms(4,2)] assms(10,11) by (auto simp: mark_tables_def)
  obtain w' where e2: "e2 = e1\<lparr>eg_batch_ts := ?ts, eg_in_batch := True, eg_touched := False, eg_wal := w'\<rparr>"
    using assms(3,5) by (auto simp: eng_StartBatch_def Let_def e1)
  have e3: "e3 = eng_apply ?kv (e2\<lparr>eg_touched := True\<rparr>)" using assms(6) by (auto simp: eng_BatchInsert_def e2 split: if_splits)
  have acc: "mt_accepts m M ?kv ?a" using assms(8) by (simp add: e2 e1)
  have key: "\<forall>v \<in> set (bt_entries (mt_tree ?a)). kv_key v \<noteq> key" using assms(9) by (simp add: mt_AddAbortedBatch_def)
  have none: "mt_scan key t ab es = None" if "\<forall>v \<in> set es. kv_key v \<noteq> key" for t ab es using that by (cases es) auto
  have "mt_Lookup key t (mt_Insert ?kv ?a) = None" for t
  proof -
    have "bt_sep (mt_tree (mt_Insert ?kv ?a))" using mt_Insert_entries(1) [OF acc] by (simp add: bt_ok_def)
    moreover have "?ts \<in> set (mt_aborted ?a)" by (simp add: mt_AddAbortedBatch_def)
    moreover have "mt_scan key t ab (dropWhile (\<lambda>e. kv_key e < key) (bt_entries (mt_tree ?a))) = None" for ab
      using key by (intro none) (auto dest: set_dropWhileD)
    ultimately show ?thesis
      using mt_lookup_insert_key [of ?kv] by (simp add: mt_Lookup_def bt_Lookup_flat mt_Insert_entries(2) [OF acc])
  qed
  then have "snd (eng_search key t e3) = None" for t
    unfolding e3 by (cases rule: eng_apply_cases [of ?kv "e2\<lparr>eg_touched := True\<rparr>"]) (simp_all add: eng_search_def e2 e1 lookup_order_def)
  moreover obtain w'' s where "e4 = e3\<lparr>eg_wal := w'', eg_synced := s, eg_commit_seq := 0, eg_global_ts := eg_batch_ts e3 + 1, eg_in_batch := False\<rparr>"
    using eng_CommitBatch_returns [OF assms(7)] by blast
  ultimately have "snd (eng_search key (eg_global_ts e4) e4) = None" and "eg_kv e4 = eg_kv e"
    by (simp_all add: eng_search_def e3 e2 e1 cong: option.case_cong)
  then show ?thesis using eng_Lookup_search [of e4 hs key None] assms(12,13) by simp
qed

lemma eng_AbortBatch_ok: "eg_in_batch e \<Longrightarrow> \<exists>e'. eng_AbortBatch Io_ok Io_ok e = (e', Inr True)"
  by (simp add: eng_AbortBatch_def Let_def wal_Sync_def wal_Sync_begin_def wal_Sync_end_def mf_AddAbortBatch_def mf_WriteRecord_def split: prod.split)

theorem engine_aborted_timestamp_reused_witness:
  "\<exists>e1 e2 e3 e4 e5. eng_AbortBatch Io_ok Io_ok ((eng_fresh 4000)\<lparr>eg_in_batch := True, eg_touched := True, eg_batch_ts := 10\<rparr>) = (e1, Inr True)
    \<and> eng_StartBatch e1 = Some e2 \<and> eng_BatchInsert [1] (replicate 2021 7) e2 = Returns e3
    \<and> eng_CommitBatch [(True, Io_ok)] e3 = Some (Returns (e4, True)) \<and> eng_Lookup (\<lambda>_. 5) [1] e4 = Returns (e5, None)"
proof -
  let ?e = "(eng_fresh 4000)\<lparr>eg_in_batch := True, eg_touched := True, eg_batch_ts := 10\<rparr>"
  obtain e1 where e1: "eng_AbortBatch Io_ok Io_ok ?e = (e1, Inr True)" using eng_AbortBatch_ok [of ?e] by auto
  from eng_AbortBatch_returns [OF this] obtain w mf where e1': "e1 = ?e\<lparr>eg_wal := w, eg_manifest := mf, eg_active := mt_AddAbortedBatch 10 (mt_new 0 4000),
      eg_frozen := [], eg_tables := [], eg_in_batch := False\<rparr>" by (auto simp: eng_fresh_def mark_tables_def)
  obtain e2 where e2: "eng_StartBatch e1 = Some e2" "eg_active e2 = mt_AddAbortedBatch 10 (mt_new 0 4000)" "eg_batch_ts e2 = 10" "eg_in_batch e2"
    by (simp add: eng_StartBatch_def e1' Let_def) (simp add: eng_fresh_def)
  obtain e3 where e3: "eng_BatchInsert [1] (replicate 2021 7) e2 = Returns e3"
    by (simp add: eng_BatchInsert_def entry_size_def kMaxKeyBytes_def kMaxKeyValuePairBytes_def kMemTableEntryOverheadBytes_def)
  then have "eg_in_batch e3" using e2(4) by (auto simp: eng_BatchInsert_def split: if_splits)
  then obtain e4 where e4: "eng_CommitBatch [(True, Io_ok)] e3 = Some (Returns (e4, True))" using eng_commit_completes [of e3 "[]"] by auto
  let ?kv = "\<lparr>kv_key = [1], kv_value = replicate 2021 7, kv_timestamp = 10, kv_is_tombstone = False\<rparr> :: KeyValuePair"
  have "mt_accepts 2036 2036 ?kv (mt_new 0 4000)" by (rule mt_accepts_new) (simp_all add: bt_eval rec_cost_def rec_size_def is_large_def)
  then have acc: "mt_accepts 2036 2036 \<lparr>kv_key = [1], kv_value = replicate 2021 7, kv_timestamp = eg_batch_ts e2, kv_is_tombstone = False\<rparr> (eg_active e2)"
    by (simp add: e2 mt_accepts_def mt_AddAbortedBatch_def)
  have "\<exists>e5. eng_Lookup (\<lambda>_. 5) [1] e4 = Returns (e5, None)"
  proof (rule engine_aborted_timestamp_reused [OF _ _ _ e1 e2(1) e3 e4 acc])
    show "cached (\<lambda>_. 5) [1] ?e = None" using eng_fresh_kv(2) [of "\<lambda>_. 5" "[1]" 4000] by simp
    show "kc_ok (eg_kv ?e)" using eng_fresh_kv(1) [of 4000] by simp
  qed (simp_all add: eng_fresh_def bt_empty_def)
  with e1 e2 e3 e4 show ?thesis by blast
qed

end
