(* ===== verification/Server_Writer.thy ===== *)
theory Server_Writer
  imports Engine_Batches
begin

text \<open>
  The write side of the server (\<^verbatim>\<open>src/server.cpp\<close>, \<^verbatim>\<open>include/kvdb/server.hpp\<close>): what the client threads do with write requests
  (\<open>HandleClient\<close>), and the writer thread that takes them to the engine (\<open>WriterLoop\<close>, \<open>checkAndFulfill\<close>). A request of a client is an atomic step, and so is one
  round of the writer; \<^verbatim>\<open>size_t\<close> counters are 64-bit words, as they wrap. A promise that is set is an entry in the list of answers.
\<close>

section \<open>State\<close>

definition kMaxCasDeferred :: nat where "kMaxCasDeferred = 64"
definition kDefaultMiniBatchSize :: nat where "kDefaultMiniBatchSize = 1000"
definition kMaxWriteQueueBytes :: u64 where "kMaxWriteQueueBytes = 16 * 1024 * 1024"

record write_request =
  wq_key :: bytes
  wq_value :: bytes
  wq_expected :: bytes
  wq_client :: nat
  wq_is_delete :: bool
  wq_is_batch :: bool
  wq_is_cas :: bool
  wq_seq :: u64

text \<open>A compare-and-swap in progress; \<open>pc_read\<close> is the result of the asynchronous lookup, once it is there.\<close>

record pending_cas =
  pc_key :: bytes
  pc_expected :: bytes
  pc_desired :: bytes
  pc_client :: nat
  pc_read :: "bytes option"

record server =
  sv_queue :: "write_request list"
  sv_batch_queue :: "write_request list"
  sv_pending :: "write_request list"
  sv_deferred :: "write_request list"
  sv_max_bytes :: u64
  sv_bytes :: u64
  sv_batch_bytes :: u64
  sv_mini :: nat
  sv_commit_pending :: bool
  sv_commit_requested :: bool
  sv_finalizing :: bool
  sv_cas :: "pending_cas option"
  sv_engine :: engine
  sv_answers :: "(write_request \<times> bool) list"

definition sv_new :: "engine \<Rightarrow> server" where
  "sv_new e = \<lparr>sv_queue = [], sv_batch_queue = [], sv_pending = [], sv_deferred = [], sv_max_bytes = kMaxWriteQueueBytes, sv_bytes = 0, sv_batch_bytes = 0,
     sv_mini = kDefaultMiniBatchSize, sv_commit_pending = False, sv_commit_requested = False, sv_finalizing = False, sv_cas = None, sv_engine = e, sv_answers = []\<rparr>"

definition wq_new :: "nat \<Rightarrow> bytes \<Rightarrow> bytes \<Rightarrow> write_request" where
  "wq_new c key val = \<lparr>wq_key = key, wq_value = val, wq_expected = [], wq_client = c, wq_is_delete = False, wq_is_batch = False, wq_is_cas = False, wq_seq = 0\<rparr>"

definition bsize :: "bytes \<Rightarrow> u64" where
  "bsize b = of_nat (length b)"

section \<open>Requests of the clients\<close>

text \<open>\<open>None\<close>: the client thread waits until the queue has room.\<close>

definition sv_push :: "u64 \<Rightarrow> write_request \<Rightarrow> server \<Rightarrow> server option" where
  "sv_push req_size req s =
     (if sv_bytes s + req_size \<le> sv_max_bytes s
      then Some (s\<lparr>sv_bytes := sv_bytes s + req_size, sv_queue := sv_queue s @ [req]\<rparr>) else None)"

definition sv_Write :: "nat \<Rightarrow> bytes \<Rightarrow> bytes \<Rightarrow> server \<Rightarrow> server option" where
  "sv_Write c key val = sv_push (bsize key + bsize val) (wq_new c key val)"

definition sv_Delete :: "nat \<Rightarrow> bytes \<Rightarrow> server \<Rightarrow> server option" where
  "sv_Delete c key = sv_push 64 ((wq_new c key [])\<lparr>wq_is_delete := True\<rparr>)"

text \<open>The asynchronous requests: the same, but the client has its reply as soon as the request is in the queue; nobody waits for the promise.\<close>

definition sv_AsyncWrite :: "nat \<Rightarrow> bytes \<Rightarrow> bytes \<Rightarrow> server \<Rightarrow> server option" where
  "sv_AsyncWrite c key val = sv_push (bsize key + bsize val) (wq_new c key val)"

definition sv_AsyncDelete :: "nat \<Rightarrow> bytes \<Rightarrow> server \<Rightarrow> server option" where
  "sv_AsyncDelete c key = sv_push 64 ((wq_new c key [])\<lparr>wq_is_delete := True\<rparr>)"

definition sv_CompareAndSwap :: "nat \<Rightarrow> bytes \<Rightarrow> bytes \<Rightarrow> bytes \<Rightarrow> server \<Rightarrow> server option" where
  "sv_CompareAndSwap c key expected desired =
     sv_push (bsize key + bsize desired + bsize expected) ((wq_new c key desired)\<lparr>wq_expected := expected, wq_is_cas := True\<rparr>)"

text \<open>
  A write of a batch. The flag \<^verbatim>\<open>is_delete\<close> is taken from the variable \<^verbatim>\<open>value\<close> after its contents were moved away; \<open>moved\<close> is what a moved-from string contains,
  which the standard does not specify and implementations leave empty.
\<close>

definition sv_BatchWrite :: "bytes \<Rightarrow> nat \<Rightarrow> bytes \<Rightarrow> bytes \<Rightarrow> server \<Rightarrow> server option" where
  "sv_BatchWrite moved c key val s =
     (let req_size = bsize key + bsize val + 64
      in if sv_batch_bytes s + req_size \<le> sv_max_bytes s
         then Some (s\<lparr>sv_batch_bytes := sv_batch_bytes s + req_size,
                      sv_batch_queue := sv_batch_queue s @ [(wq_new c key val)\<lparr>wq_is_delete := (moved = []), wq_is_batch := True\<rparr>]\<rparr>)
         else None)"

definition sv_BatchBegin :: "server \<Rightarrow> server \<times> bool" where
  "sv_BatchBegin s = (case eng_StartBatch (sv_engine s) of None \<Rightarrow> (s, False) | Some e \<Rightarrow> (s\<lparr>sv_engine := e\<rparr>, True))"

definition sv_BatchCommit :: "server \<Rightarrow> server" where
  "sv_BatchCommit s = s\<lparr>sv_commit_pending := True, sv_commit_requested := True\<rparr>"

definition req_bytes :: "write_request \<Rightarrow> u64" where
  "req_bytes r = bsize (wq_key r) + bsize (wq_value r)"

text \<open>\<open>None\<close>: an exception leaves the client thread and ends the process.\<close>

definition sv_BatchAbort :: "io_result \<Rightarrow> io_result \<Rightarrow> server \<Rightarrow> server option" where
  "sv_BatchAbort wal_io mf_io s =
     (let s1 = s\<lparr>sv_batch_bytes := sv_batch_bytes s - sum_list (map req_bytes (sv_batch_queue s)), sv_batch_queue := [],
                 sv_commit_pending := False, sv_commit_requested := False\<rparr>
      in case eng_AbortBatch wal_io mf_io (sv_engine s) of
           (e, Inl _) \<Rightarrow> None
         | (e, Inr _) \<Rightarrow> Some (s1\<lparr>sv_engine := e\<rparr>))"

section \<open>The writer thread\<close>

definition checkAndFulfill :: "server \<Rightarrow> server" where
  "checkAndFulfill s =
     (let synced = eg_synced (sv_engine s); ready = takeWhile (\<lambda>r. wq_seq r \<le> synced) (sv_pending s);
          s1 = s\<lparr>sv_pending := drop (length ready) (sv_pending s), sv_answers := sv_answers s @ map (\<lambda>r. (r, True)) ready\<rparr>
      in if sv_finalizing s
         then (case eng_CommitBatchFinalize (sv_engine s) of
                 None \<Rightarrow> s1
               | Some e \<Rightarrow> s1\<lparr>sv_engine := e, sv_finalizing := False, sv_commit_pending := False\<rparr>)
         else s1)"

definition sv_answer :: "write_request \<Rightarrow> bool \<Rightarrow> server \<Rightarrow> server" where
  "sv_answer r ok s = s\<lparr>sv_answers := sv_answers s @ [(r, ok)]\<rparr>"

text \<open>The sequence number that \<open>Insert\<close> and the other writing operations return.\<close>

definition sv_done :: "write_request \<Rightarrow> engine \<Rightarrow> write_request" where
  "sv_done r e = r\<lparr>wq_seq := wal_CurrentBatchSeq (eg_wal e)\<rparr>"

text \<open>The result of the lookup of a compare-and-swap has arrived.\<close>

definition writer_cas :: "(bytes \<Rightarrow> u64) \<Rightarrow> pending_cas \<Rightarrow> bytes \<Rightarrow> server \<Rightarrow> server outcome" where
  "writer_cas hs pc current s =
     (let r = wq_new (pc_client pc) (pc_key pc) (pc_desired pc);
          requeue = (\<lambda>s. s\<lparr>sv_cas := None, sv_queue := sv_queue s @ sv_deferred s, sv_deferred := []\<rparr>)
      in if current \<noteq> [] \<and> current = pc_expected pc
         then (case eng_Insert hs (pc_key pc) (pc_desired pc) (sv_engine s) of
                 Waits \<Rightarrow> Waits
               | Invalid \<Rightarrow> Returns (requeue (sv_answer r False s))
               | Returns e \<Rightarrow> Returns (requeue (s\<lparr>sv_engine := e, sv_pending := sv_pending s @ [sv_done r e]\<rparr>)))
         else Returns (requeue (sv_answer r False s)))"

text \<open>One request that is neither deferred nor a compare-and-swap.\<close>

definition writer_one :: "(bytes \<Rightarrow> u64) \<Rightarrow> write_request \<Rightarrow> server \<Rightarrow> server outcome" where
  "writer_one hs r s =
     (case (if wq_is_delete r then eng_Delete hs (wq_key r) (sv_engine s) else eng_Insert hs (wq_key r) (wq_value r) (sv_engine s)) of
        Waits \<Rightarrow> Waits
      | Invalid \<Rightarrow> Returns (checkAndFulfill (sv_answer r False s))
      | Returns e \<Rightarrow> Returns (checkAndFulfill (s\<lparr>sv_engine := e, sv_pending := sv_pending s @ [sv_done r e]\<rparr>)))"

definition cas_busy_on :: "write_request \<Rightarrow> server \<Rightarrow> bool" where
  "cas_busy_on r s \<longleftrightarrow> (case sv_cas s of None \<Rightarrow> False | Some pc \<Rightarrow> wq_is_cas r \<or> wq_key r = pc_key pc)"

lemma checkAndFulfill_queue [simp]: "sv_queue (checkAndFulfill s) = sv_queue s"
  by (simp add: checkAndFulfill_def Let_def split: option.split)

lemma writer_one_queue: "writer_one hs r s = Returns s' \<Longrightarrow> sv_queue s' = sv_queue s"
  by (auto simp: writer_one_def sv_answer_def split: outcome.splits)

text \<open>The loop that takes all normal requests; \<open>n\<close> counts those taken during a compare-and-swap.\<close>

function writer_drain :: "(bytes \<Rightarrow> u64) \<Rightarrow> nat \<Rightarrow> server \<Rightarrow> server outcome" where
  "writer_drain hs n s =
     (if sv_commit_pending s then Returns s
      else case sv_queue s of
        [] \<Rightarrow> Returns s
      | r # rs \<Rightarrow>
          if cas_busy_on r s
          then (if length (sv_deferred s) \<ge> kMaxCasDeferred then Returns s
                else writer_drain hs n (s\<lparr>sv_deferred := sv_deferred s @ [r], sv_queue := rs\<rparr>))
          else let s1 = s\<lparr>sv_queue := rs, sv_bytes := sv_bytes s - req_bytes r\<rparr>
               in if wq_is_cas r
                  then writer_drain hs n (s1\<lparr>sv_cas := Some \<lparr>pc_key = wq_key r, pc_expected = wq_expected r, pc_desired = wq_value r,
                                                             pc_client = wq_client r, pc_read = None\<rparr>\<rparr>)
                  else case writer_one hs r s1 of
                         Waits \<Rightarrow> Waits | Invalid \<Rightarrow> Invalid
                       | Returns s2 \<Rightarrow>
                           if sv_cas s2 \<noteq> None \<and> n + 1 \<ge> kMaxCasDeferred then Returns s2
                           else writer_drain hs (if sv_cas s2 \<noteq> None then n + 1 else n) s2)"
  by pat_completeness auto
termination
  by (relation "measure (\<lambda>(_, _, s). length (sv_queue s))") (auto dest: writer_one_queue)

declare writer_drain.simps [simp del]

text \<open>The writes of a batch, until one throws: the engine, the requests with their sequence numbers, and whether all went through.\<close>

fun batch_exec :: "write_request list \<Rightarrow> engine \<Rightarrow> engine \<times> write_request list \<times> bool" where
  "batch_exec [] e = (e, [], True)"
| "batch_exec (r # rs) e =
     (case (if wq_is_delete r then eng_BatchDelete (wq_key r) e else eng_BatchInsert (wq_key r) (wq_value r) e) of
        Returns e1 \<Rightarrow> (case batch_exec rs e1 of (e2, rs', ok) \<Rightarrow> (e2, sv_done r e1 # rs', ok))
      | _ \<Rightarrow> (e, r # rs, False))"

definition batch_trigger :: "server \<Rightarrow> bool" where
  "batch_trigger s \<longleftrightarrow> length (sv_batch_queue s) \<ge> sv_mini s \<or> sv_batch_bytes s \<ge> sv_max_bytes s div 2 \<or> sv_commit_requested s"

definition writer_batch :: "server \<Rightarrow> server" where
  "writer_batch s =
     (if \<not> batch_trigger s then s
      else let commit_mode = sv_commit_pending s;
               limit = (if commit_mode then length (sv_batch_queue s) else sv_mini s);
               mini = take limit (sv_batch_queue s);
               s1 = s\<lparr>sv_batch_queue := drop limit (sv_batch_queue s), sv_batch_bytes := sv_batch_bytes s - sum_list (map req_bytes mini)\<rparr>
           in case batch_exec mini (sv_engine s) of
                (e, mini', False) \<Rightarrow> s1\<lparr>sv_engine := e, sv_answers := sv_answers s1 @ map (\<lambda>r. (r, False)) mini'\<rparr>
              | (e, mini', True) \<Rightarrow>
                  (let s2 = s1\<lparr>sv_engine := e, sv_pending := sv_pending s1 @ mini'\<rparr>;
                       s3 = (if commit_mode
                             then s2\<lparr>sv_engine := (case eng_CommitBatchAsync e of None \<Rightarrow> e | Some e' \<Rightarrow> e'),
                                     sv_finalizing := True, sv_commit_requested := False\<rparr>
                             else s2)
                   in checkAndFulfill s3))"

text \<open>A round of the loop: a finished compare-and-swap alone, or else the requests and the batch.\<close>

definition writer_work :: "(bytes \<Rightarrow> u64) \<Rightarrow> server \<Rightarrow> server outcome" where
  "writer_work hs s =
     (case writer_drain hs 0 (checkAndFulfill s) of Waits \<Rightarrow> Waits | Invalid \<Rightarrow> Invalid | Returns s1 \<Rightarrow> Returns (writer_batch s1))"

definition writer_round :: "(bytes \<Rightarrow> u64) \<Rightarrow> server \<Rightarrow> server outcome" where
  "writer_round hs s =
     (case sv_cas s of
        None \<Rightarrow> writer_work hs s
      | Some pc \<Rightarrow> (case pc_read pc of None \<Rightarrow> writer_work hs s | Some current \<Rightarrow> writer_cas hs pc current s))"

text \<open>The asynchronous lookup of a compare-and-swap.\<close>

definition sv_cas_read :: "(bytes \<Rightarrow> u64) \<Rightarrow> server \<Rightarrow> server outcome" where
  "sv_cas_read hs s =
     (case sv_cas s of
        None \<Rightarrow> Returns s
      | Some pc \<Rightarrow> (case eng_Lookup hs (pc_key pc) (sv_engine s) of
            Waits \<Rightarrow> Waits | Invalid \<Rightarrow> Invalid
          | Returns (e, v) \<Rightarrow> Returns (s\<lparr>sv_engine := e, sv_cas := Some (pc\<lparr>pc_read := Some (case v of None \<Rightarrow> [] | Some x \<Rightarrow> x)\<rparr>)\<rparr>)))"

end
