(* ===== verification/Server_Log.thy ===== *)
theory Server_Log
  imports Server_Writer
begin

text \<open>
  What the server and the engine under it do to the write-ahead log: every operation only extends the log (\<open>log_grows\<close>), a write appends its record (\<open>log_appends\<close>), and an answer is given only when the
  record is in the file. The steps of the server as a transition relation, with the invariant \<open>acks_ok\<close>.
\<close>

section \<open>What the engine does to its log\<close>

abbreviation log_stream :: "engine \<Rightarrow> bytes" where
  "log_stream e \<equiv> wal_file (eg_wal e) @ write_buf (eg_wal e)"

abbreviation log_seq :: "engine \<Rightarrow> u64" where
  "log_seq e \<equiv> batch_seq (eg_wal e)"

text \<open>
  From \<open>e\<close> to \<open>e'\<close> the log has only been extended, by at most \<open>k\<close> sequence numbers, nothing that was in the file has left it, and the published number has changed only if everything
  has been written that was in the log before; if there are \<open>k\<close> numbers left, the published number stays behind the log.
\<close>

definition log_grows :: "nat \<Rightarrow> engine \<Rightarrow> engine \<Rightarrow> bool" where
  "log_grows k e e' \<longleftrightarrow> (\<exists>x. log_stream e' = log_stream e @ x) \<and> length (wal_file (eg_wal e)) \<le> length (wal_file (eg_wal e'))
     \<and> (eg_synced e' = eg_synced e \<or> length (log_stream e) \<le> length (wal_file (eg_wal e')))
     \<and> (unat (log_seq e) + k < 2 ^ 64 \<longrightarrow> unat (log_seq e') \<le> unat (log_seq e) + k \<and> (eg_synced e \<le> log_seq e \<longrightarrow> eg_synced e' \<le> log_seq e'))"

lemma log_grows_refl: "eg_wal e' = eg_wal e \<Longrightarrow> eg_synced e' = eg_synced e \<Longrightarrow> log_grows k e e'"
  by (simp add: log_grows_def)

lemma log_grows_trans:
  assumes "log_grows k e e1" and "log_grows l e1 e2"
  shows "log_grows (k + l) e e2"
proof -
  obtain x where x: "log_stream e1 = log_stream e @ x" using assms(1) unfolding log_grows_def by blast
  obtain y where y: "log_stream e2 = log_stream e1 @ y" using assms(2) unfolding log_grows_def by blast
  have s: "log_stream e2 = log_stream e @ (x @ y)" unfolding y x by simp
  have l: "length (log_stream e) \<le> length (log_stream e1)" unfolding x by simp
  have f: "length (wal_file (eg_wal e)) \<le> length (wal_file (eg_wal e1))" "length (wal_file (eg_wal e1)) \<le> length (wal_file (eg_wal e2))"
    using assms unfolding log_grows_def by blast+
  have p: "eg_synced e1 = eg_synced e \<or> length (log_stream e) \<le> length (wal_file (eg_wal e1))"
    "eg_synced e2 = eg_synced e1 \<or> length (log_stream e1) \<le> length (wal_file (eg_wal e2))"
    using assms unfolding log_grows_def by blast+
  have n: "unat (log_seq e) + k < 2 ^ 64 \<longrightarrow> unat (log_seq e1) \<le> unat (log_seq e) + k \<and> (eg_synced e \<le> log_seq e \<longrightarrow> eg_synced e1 \<le> log_seq e1)"
    "unat (log_seq e1) + l < 2 ^ 64 \<longrightarrow> unat (log_seq e2) \<le> unat (log_seq e1) + l \<and> (eg_synced e1 \<le> log_seq e1 \<longrightarrow> eg_synced e2 \<le> log_seq e2)"
    using assms unfolding log_grows_def by blast+
  have "eg_synced e2 = eg_synced e \<or> length (log_stream e) \<le> length (wal_file (eg_wal e2))" using p order_trans [OF _ f(2)] order_trans [OF l] by metis
  moreover have "unat (log_seq e2) \<le> unat (log_seq e) + (k + l) \<and> (eg_synced e \<le> log_seq e \<longrightarrow> eg_synced e2 \<le> log_seq e2)"
    if "unat (log_seq e) + (k + l) < 2 ^ 64"
  proof -
    have k: "unat (log_seq e) + k < 2 ^ 64" using that by linarith
    then have "unat (log_seq e1) + l < 2 ^ 64" using n(1) that by linarith
    with n k show ?thesis by linarith
  qed
  ultimately show ?thesis unfolding log_grows_def using s le_trans [OF f] by blast
qed

lemma log_grows_mono: "log_grows k e e' \<Longrightarrow> k \<le> l \<Longrightarrow> log_grows l e e'"
  by (auto simp: log_grows_def)

lemma unat_Suc_word: "unat (x :: u64) + 1 < 2 ^ 64 \<Longrightarrow> unat (x + 1) = unat x + 1"
  by (simp add: unat_word_ariths)

lemma log_grows_append:
  assumes "wal_file (eg_wal e') = wal_file (eg_wal e)" and "write_buf (eg_wal e') = write_buf (eg_wal e) @ x"
    and "log_seq e' = log_seq e \<or> log_seq e' = log_seq e + 1" and "eg_synced e' = eg_synced e"
  shows "log_grows 1 e e'"
proof -
  have "unat (log_seq e') \<le> unat (log_seq e) + 1 \<and> (eg_synced e \<le> log_seq e \<longrightarrow> eg_synced e' \<le> log_seq e')" if "unat (log_seq e) + 1 < 2 ^ 64"
  proof -
    have "unat (log_seq e + 1) = unat (log_seq e) + 1" using that by (rule unat_Suc_word)
    then show ?thesis using assms(3,4) by (auto simp: word_le_nat_alt)
  qed
  then show ?thesis using assms by (simp add: log_grows_def)
qed

lemma log_grows_written:
  assumes "wal_file (eg_wal e') = log_stream e" and "write_buf (eg_wal e') = []" and "log_seq e' = log_seq e" and "eg_synced e' \<in> {eg_synced e, log_seq e}"
  shows "log_grows k e e'"
  using assms by (auto simp: log_grows_def)

subsection \<open>The operations of the engine\<close>

definition req_rec :: "write_request \<Rightarrow> u64 \<Rightarrow> bytes" where
  "req_rec r ts = SerializeRecord [] (wq_key r) (if wq_is_delete r then [] else wq_value r) ts"

text \<open>The record of the request is in the log, and in the file unless its sequence number \<open>q\<close> is still to be published.\<close>

definition logged :: "u64 \<Rightarrow> write_request \<Rightarrow> engine \<Rightarrow> bool" where
  "logged q r e \<longleftrightarrow> (\<exists>pre ts post. log_stream e = pre @ req_rec r ts @ post \<and> (length (pre @ req_rec r ts) \<le> length (wal_file (eg_wal e)) \<or> eg_synced e < q))"

definition in_log_file :: "write_request \<Rightarrow> engine \<Rightarrow> bool" where
  "in_log_file r e \<longleftrightarrow> (\<exists>pre ts post. wal_file (eg_wal e) = pre @ req_rec r ts @ post)"

lemma logged_grows:
  assumes "logged q r e" and "log_grows k e e'"
  shows "logged q r e'"
proof -
  obtain pre ts post where p: "log_stream e = pre @ req_rec r ts @ post" "length (pre @ req_rec r ts) \<le> length (wal_file (eg_wal e)) \<or> eg_synced e < q"
    using assms(1) by (auto simp: logged_def)
  obtain x where x: "log_stream e' = log_stream e @ x" using assms(2) by (auto simp: log_grows_def)
  have "length (pre @ req_rec r ts) \<le> length (log_stream e)" unfolding p(1) by simp
  then have "length (pre @ req_rec r ts) \<le> length (wal_file (eg_wal e')) \<or> eg_synced e' < q" using p(2) assms(2) unfolding log_grows_def by auto
  moreover have "log_stream e' = pre @ req_rec r ts @ (post @ x)" unfolding x p(1) by simp
  ultimately show ?thesis unfolding logged_def by blast
qed

lemma logged_published:
  assumes "logged q r e" and "q \<le> eg_synced e"
  shows "in_log_file r e"
proof -
  obtain pre ts post where p: "log_stream e = pre @ req_rec r ts @ post" "length (pre @ req_rec r ts) \<le> length (wal_file (eg_wal e))"
    using assms by (auto simp: logged_def)
  have "pre @ req_rec r ts = take (length (pre @ req_rec r ts)) (log_stream e)" unfolding p(1) by simp
  also have "\<dots> = take (length (pre @ req_rec r ts)) (wal_file (eg_wal e))" using p(2) by simp
  finally have "wal_file (eg_wal e) = pre @ req_rec r ts @ drop (length (pre @ req_rec r ts)) (wal_file (eg_wal e))"
    by (metis append.assoc append_take_drop_id)
  then show ?thesis unfolding in_log_file_def by blast
qed

lemma in_log_file_grows:
  assumes "in_log_file r e" and "log_grows k e e'"
  shows "in_log_file r e'"
proof -
  obtain pre ts post where p: "wal_file (eg_wal e) = pre @ req_rec r ts @ post" using assms(1) unfolding in_log_file_def by blast
  obtain x where x: "log_stream e' = log_stream e @ x" using assms(2) unfolding log_grows_def by blast
  have l: "length (wal_file (eg_wal e)) \<le> length (wal_file (eg_wal e'))" using assms(2) unfolding log_grows_def by blast
  have "wal_file (eg_wal e') @ write_buf (eg_wal e') = wal_file (eg_wal e) @ (write_buf (eg_wal e) @ x)" using x by simp
  then have "take (length (wal_file (eg_wal e))) (wal_file (eg_wal e') @ write_buf (eg_wal e')) = wal_file (eg_wal e)" by simp
  then have "take (length (wal_file (eg_wal e))) (wal_file (eg_wal e')) = wal_file (eg_wal e)" using l by simp
  then have "wal_file (eg_wal e') = pre @ req_rec r ts @ (post @ drop (length (wal_file (eg_wal e))) (wal_file (eg_wal e')))"
    using append_take_drop_id [of "length (wal_file (eg_wal e))" "wal_file (eg_wal e')"] p by simp
  then show ?thesis unfolding in_log_file_def by blast
qed

text \<open>
  The contract between a store that answers requests and the log it answers from: an entry that is logged stays so, and what is logged up to the published number is in the file.
\<close>

locale ack_log =
  fixes grows :: "'e \<Rightarrow> 'e \<Rightarrow> bool" and logged :: "u64 \<Rightarrow> 'r \<Rightarrow> 'e \<Rightarrow> bool" and in_file :: "'r \<Rightarrow> 'e \<Rightarrow> bool" and synced :: "'e \<Rightarrow> u64"
  assumes logged_stays: "logged q r e \<Longrightarrow> grows e e' \<Longrightarrow> logged q r e'"
    and file_stays: "in_file r e \<Longrightarrow> grows e e' \<Longrightarrow> in_file r e'"
    and published: "logged q r e \<Longrightarrow> q \<le> synced e \<Longrightarrow> in_file r e"
begin

lemma answers_stay:
  assumes "grows e e'" and "\<forall>r \<in> set ps. logged (seq r) r e" and "\<forall>(r, ok) \<in> set as. ok \<longrightarrow> in_file r e"
  shows "(\<forall>r \<in> set ps. logged (seq r) r e') \<and> (\<forall>(r, ok) \<in> set as. ok \<longrightarrow> in_file r e')"
  using assms(2,3) logged_stays [OF _ assms(1)] file_stays [OF _ assms(1)] by blast

lemma ready_in_file:
  assumes "\<forall>r \<in> set ps. logged (seq r) r e" and "r \<in> set (takeWhile (\<lambda>r. seq r \<le> synced e) ps)"
  shows "in_file r e"
  using assms(1) set_takeWhileD [OF assms(2)] by (blast intro: published)

end

interpretation elog: ack_log "\<lambda>e e'. \<exists>k. log_grows k e e'" logged in_log_file eg_synced
  by unfold_locales (blast intro: logged_grows in_log_file_grows logged_published)+

lemma SerializeRecord_append: "SerializeRecord buf k v ts = buf @ SerializeRecord [] k v ts"
  by (simp add: SerializeRecord_def)

lemma log_part_freeze [simp]:
  "eg_wal (eng_freeze_if_full e) = eg_wal e" "eg_synced (eng_freeze_if_full e) = eg_synced e"
  by (simp_all add: eng_freeze_if_full_def eng_freeze_def)

lemma eng_apply_log:
  "wal_file (eg_wal (eng_apply kv e)) = wal_file (eg_wal e)"
  "write_buf (eg_wal (eng_apply kv e)) = write_buf (eg_wal e) @ SerializeRecord [] (kv_key kv) (kv_value kv) (kv_timestamp kv)"
  "log_seq (eng_apply kv e) = log_seq e + 1" "eg_synced (eng_apply kv e) = eg_synced e"
  by (simp_all add: eng_apply_def eng_log_def wal_Buffer_def SerializeRecord_def)

text \<open>A write appends its record, under the next sequence number.\<close>

definition log_appends :: "write_request \<Rightarrow> engine \<Rightarrow> engine \<Rightarrow> bool" where
  "log_appends r e e' \<longleftrightarrow> (\<exists>ts. wal_file (eg_wal e') = wal_file (eg_wal e) \<and> write_buf (eg_wal e') = write_buf (eg_wal e) @ req_rec r ts
     \<and> log_seq e' = log_seq e + 1 \<and> eg_synced e' = eg_synced e)"

lemma log_appends_ops:
  "eng_Insert hs (wq_key r) (wq_value r) e = Returns e' \<Longrightarrow> \<not> wq_is_delete r \<Longrightarrow> log_appends r e e'"
  "eng_Delete hs (wq_key r) e = Returns e' \<Longrightarrow> wq_is_delete r \<Longrightarrow> log_appends r e e'"
  "eng_BatchInsert (wq_key r) (wq_value r) e = Returns e' \<Longrightarrow> \<not> wq_is_delete r \<Longrightarrow> log_appends r e e'"
  "eng_BatchDelete (wq_key r) e = Returns e' \<Longrightarrow> wq_is_delete r \<Longrightarrow> log_appends r e e'"
  by (auto simp: eng_Insert_def eng_Delete_def eng_BatchInsert_def eng_BatchDelete_def Let_def on_cache_def log_appends_def req_rec_def eng_apply_log(4) wal_Buffer_def
      SerializeRecord_append [of "write_buf (eg_wal e)"]
      split: if_splits option.splits)

lemma log_appends_grows: "log_appends r e e' \<Longrightarrow> log_grows 1 e e'"
  unfolding log_appends_def by (elim exE conjE, rule log_grows_append) auto

lemma log_appends_logged:
  assumes "log_appends r e e'" and "eg_synced e \<le> log_seq e" and "unat (log_seq e) + 1 < 2 ^ 64"
  shows "logged (log_seq e') r e'"
proof -
  obtain ts where l: "wal_file (eg_wal e') = wal_file (eg_wal e)" "write_buf (eg_wal e') = write_buf (eg_wal e) @ req_rec r ts"
    "log_seq e' = log_seq e + 1" "eg_synced e' = eg_synced e"
    using assms(1) by (auto simp: log_appends_def)
  have "log_stream e' = log_stream e @ req_rec r ts @ []" using l(1,2) by simp
  moreover have "eg_synced e' < log_seq e'" using assms(2) unat_Suc_word [OF assms(3)] by (simp add: l(3,4) word_less_nat_alt word_le_nat_alt)
  ultimately show ?thesis unfolding logged_def by blast
qed

lemma req_rec_done [simp]: "req_rec (r\<lparr>wq_seq := q\<rparr>) ts = req_rec r ts"
  by (simp add: req_rec_def)

lemma logged_done [simp]: "logged q (r\<lparr>wq_seq := q'\<rparr>) e = logged q r e"
  by (simp add: logged_def)

lemma log_grows_StartBatch: "eng_StartBatch e = Some e' \<Longrightarrow> log_grows 1 e e'"
  by (rule log_grows_append [where x = "WriteSentinelRecord 0xFFFFFFFA (eg_global_ts e + eg_gap e) []"])
     (auto simp: eng_StartBatch_def Let_def wal_BufferBatchBegin_def WriteSentinelRecord_def split: if_splits)

lemma log_grows_CommitBatchAsync: "eng_CommitBatchAsync e = Some e' \<Longrightarrow> log_grows 1 e e'"
  by (rule log_grows_append [where x = "WriteSentinelRecord 0xFFFFFFFC (eg_batch_ts e) []"])
     (auto simp: eng_CommitBatchAsync_def Let_def wal_BufferBatchCommit_def WriteSentinelRecord_def split: if_splits)

lemma log_grows_CommitBatchFinalize: "eng_CommitBatchFinalize e = Some e' \<Longrightarrow> log_grows 0 e e'"
  by (rule log_grows_refl) (auto simp: eng_CommitBatchFinalize_def split: if_splits)

lemma log_grows_Lookup: "eng_Lookup hs key e = Returns (e', v) \<Longrightarrow> log_grows 0 e e'"
  by (rule log_grows_refl) (auto simp: eng_Lookup_def split: option.splits prod.splits if_splits)

lemma log_grows_sync_round:
  assumes "eng_sync_round force io e = Some e'"
  shows "log_grows 0 e e'"
proof -
  have "io = Io_ok \<or> write_buf (eg_wal e) = [] \<or> \<not> force \<and> length (write_buf (eg_wal e)) < kWALMinSyncBytes"
    using assms by (cases io) (auto simp: eng_sync_round_def wal_Sync_def wal_Sync_begin_def Let_def split: if_splits)
  then have "eng_sync_round force Io_ok e = Some e'" using assms by (auto simp: eng_sync_round_def wal_Sync_def wal_Sync_begin_def Let_def)
  then have e': "e' = (if write_buf (eg_wal e) = [] then e
     else if \<not> force \<and> length (write_buf (eg_wal e)) < kWALMinSyncBytes then e\<lparr>eg_wal := (eg_wal e)\<lparr>synced_seq := batch_seq (eg_wal e)\<rparr>\<rparr>
     else e\<lparr>eg_wal := (eg_wal e)\<lparr>wal_file := wal_file (eg_wal e) @ write_buf (eg_wal e), write_buf := [], synced_seq := batch_seq (eg_wal e),
              synced_entries := synced_entries (eg_wal e) + buffered_entries (eg_wal e), buffered_entries := 0\<rparr>,
            eg_synced := batch_seq (eg_wal e)\<rparr>)" by (simp add: eng_sync_round_ok)
  show ?thesis
  proof (cases "write_buf (eg_wal e) = [] \<or> \<not> force \<and> length (write_buf (eg_wal e)) < kWALMinSyncBytes")
    case True
    then show ?thesis unfolding e' by (auto simp: log_grows_def)
  next
    case False
    then show ?thesis unfolding e' by (intro log_grows_written) auto
  qed
qed

lemma log_grows_AbortBatch:
  assumes "eng_AbortBatch wal_io mf_io e = (e', Inr ok)"
  shows "log_grows 1 e e'"
proof (cases "eg_in_batch e \<and> eg_touched e")
  case True
  let ?w = "wal_BufferAbort (eg_batch_ts e) (eg_wal e)"
  let ?e = "e\<lparr>eg_wal := ?w\<rparr>"
  have b: "write_buf ?w = write_buf (eg_wal e) @ WriteSentinelRecord 0xFFFFFFFE (eg_batch_ts e) []" "write_buf ?w \<noteq> []"
    "wal_file ?w = wal_file (eg_wal e)" "batch_seq ?w = batch_seq (eg_wal e)"
    by (simp_all add: wal_BufferAbort_def WriteSentinelRecord_def Let_def WriteUint32LE_def)
  have "log_grows 1 e ?e" by (rule log_grows_append) (simp_all add: b(1,3,4))
  moreover have "log_grows 0 ?e e'"
  proof (rule log_grows_written)
    have "\<exists>w r. wal_Sync True wal_io ?w = (w, Inr r) \<and> eg_wal e' = w \<and> eg_synced e' = eg_synced e"
      using assms True by (auto simp: eng_AbortBatch_def Let_def split: prod.splits sum.splits option.splits)
    then have "wal_file (eg_wal e') = wal_file ?w @ write_buf ?w \<and> write_buf (eg_wal e') = [] \<and> log_seq e' = batch_seq ?w \<and> eg_synced e' = eg_synced e"
      using b(2) by (cases wal_io) (auto simp: wal_Sync_def wal_Sync_defs Let_def)
    then show "wal_file (eg_wal e') = log_stream ?e" "write_buf (eg_wal e') = []" "log_seq e' = log_seq ?e" "eg_synced e' \<in> {eg_synced ?e, log_seq ?e}"
      by simp_all
  qed
  ultimately show ?thesis using log_grows_trans by fastforce
next
  case False
  then show ?thesis using assms by (intro log_grows_refl) (auto simp: eng_AbortBatch_def split: if_splits)
qed

definition log_part :: "engine \<Rightarrow> wal \<times> u64" where
  "log_part e = (eg_wal e, eg_synced e)"

lemma log_grows_part: "log_part e' = log_part e \<Longrightarrow> log_grows k e e'"
  by (rule log_grows_refl) (simp_all add: log_part_def)

lemma log_part_simps [simp]:
  "log_part (eng_DrainFileGC t e) = log_part e" "log_part (eng_garbage ins f e) = log_part e"
  by (simp_all add: log_part_def eng_DrainFileGC_def eng_garbage_def Let_def)

lemma log_part_DoFlush: "eng_DoFlush bsz io m e = (e', ok) \<Longrightarrow> log_part e' = log_part e"
  by (auto simp: eng_DoFlush_def Let_def log_part_def split: if_splits prod.splits sum.splits)

lemma log_grows_flush_step: "log_grows 1 e (eng_flush_step bsz io e)"
proof (cases "eg_frozen e")
  case Nil
  then show ?thesis by (intro log_grows_refl) (simp_all add: eng_flush_step_def)
next
  case (Cons m ms)
  obtain e2 ok where d: "eng_DoFlush bsz io m (e\<lparr>eg_frozen := ms\<rparr>) = (e2, ok)" by fastforce
  have p: "eg_wal e2 = eg_wal e" "eg_synced e2 = eg_synced e" using log_part_DoFlush [OF d] by (simp_all add: log_part_def)
  show ?thesis
  proof (cases "mt_count m = 0 \<or> \<not> ok")
    case True
    then show ?thesis using Cons d p by (intro log_grows_refl) (auto simp: eng_flush_step_def Let_def)
  next
    case False
    let ?b = "if eg_in_batch e2 then eg_batch_ts e2 else 0"
    let ?body = "WriteUint32LE kWALCheckpointSentinel @ WriteUint64LE (eg_global_ts e2) @ WriteUint64LE ?b"
    have f: "eng_flush_step bsz io e = e2\<lparr>eg_wal := wal_WriteCheckpoint (eg_global_ts e2) ?b (eg_wal e)\<rparr>"
      using False Cons d p by (simp add: eng_flush_step_def Let_def)
    show ?thesis
      by (rule log_grows_append [where x = "WriteUint32LE (crc32 ?body) @ ?body"])
         (simp_all add: f p wal_WriteCheckpoint_def Let_def)
  qed
qed

lemma log_part_manifest:
  "eng_remove_inputs ios n ins e = (e', ok) \<Longrightarrow> log_part e' = log_part e"
  "eng_add_outputs ios n outs e = (e', ok) \<Longrightarrow> log_part e' = log_part e"
proof -
  show "eng_remove_inputs ios n ins e = (e', ok) \<Longrightarrow> log_part e' = log_part e"
    by (induction ios n ins e rule: eng_remove_inputs.induct) (auto simp: log_part_def split: prod.splits option.splits)
  show "eng_add_outputs ios n outs e = (e', ok) \<Longrightarrow> log_part e' = log_part e"
    by (induction ios n outs e rule: eng_add_outputs.induct) (auto simp: log_part_def split: prod.splits option.splits)
qed

lemma log_part_CompactLevel:
  assumes "eng_CompactLevel bsz ios a b e = Returns (e', ok)"
  shows "log_part e' = log_part e"
proof -
  have g: "log_part (fold (eng_garbage ins) fs e) = log_part e" for ins fs e by (rule fold_fields) simp
  have u: "log_part (e\<lparr>eg_seq := s\<rparr>) = log_part e" "log_part (e\<lparr>eg_seq := s, eg_files := fs, eg_tables := ts\<rparr>) = log_part e" for s fs ts
    by (simp_all add: log_part_def)
  show ?thesis using assms unfolding eng_CompactLevel_def Let_def
    by (auto simp: g u split: if_splits option.splits sum.splits prod.splits bool.splits dest!: log_part_manifest)
qed

lemma log_part_compaction_round: "eng_compaction_round bsz ios t e = Returns e' \<Longrightarrow> log_part e' = log_part e"
  by (auto simp: eng_compaction_round_def Let_def split: if_splits outcome.splits prod.splits dest!: log_part_CompactLevel)

lemma log_part_ManualCompact: "eng_ManualCompact bsz ios t n l cascade e = Returns (e', k) \<Longrightarrow> log_part e' = log_part e"
  by (auto simp: eng_ManualCompact_def Let_def split: if_splits outcome.splits prod.splits option.splits bool.splits dest!: log_part_CompactLevel)

section \<open>The server\<close>

definition acks_ok :: "engine \<Rightarrow> write_request list \<Rightarrow> (write_request \<times> bool) list \<Rightarrow> bool" where
  "acks_ok e ps as \<longleftrightarrow> eg_synced e \<le> log_seq e \<and> (\<forall>r \<in> set ps. logged (wq_seq r) r e) \<and> (\<forall>(r, ok) \<in> set as. ok \<longrightarrow> in_log_file r e)"

abbreviation sv_ok :: "server \<Rightarrow> bool" where
  "sv_ok s \<equiv> acks_ok (sv_engine s) (sv_pending s) (sv_answers s)"

abbreviation sv_seq :: "server \<Rightarrow> nat" where
  "sv_seq s \<equiv> unat (log_seq (sv_engine s))"

lemma acks_ok_grows:
  assumes "acks_ok e ps as" and "log_grows k e e'" and "unat (log_seq e) + k < 2 ^ 64"
  shows "acks_ok e' ps as" and "unat (log_seq e') \<le> unat (log_seq e) + k"
proof -
  have "eg_synced e' \<le> log_seq e'" using assms unfolding acks_ok_def log_grows_def by blast
  moreover have "(\<forall>r \<in> set ps. logged (wq_seq r) r e') \<and> (\<forall>(r, ok) \<in> set as. ok \<longrightarrow> in_log_file r e')"
    by (rule elog.answers_stay) (use assms(1,2) in \<open>auto simp: acks_ok_def\<close>)
  ultimately show "acks_ok e' ps as" unfolding acks_ok_def by blast
  show "unat (log_seq e') \<le> unat (log_seq e) + k" using assms(2,3) unfolding log_grows_def by blast
qed

lemma acks_ok_refuse: "acks_ok e ps (as @ map (\<lambda>r. (r, False)) rs) = acks_ok e ps as"
  by (auto simp: acks_ok_def)

lemma acks_ok_append:
  assumes "acks_ok e ps as" and "log_appends r e e'" and "unat (log_seq e) + 1 < 2 ^ 64"
  shows "acks_ok e' (ps @ [sv_done r e']) as" and "unat (log_seq e') \<le> unat (log_seq e) + 1"
proof -
  have "logged (log_seq e') r e'" using assms by (intro log_appends_logged) (simp_all add: acks_ok_def)
  then show "acks_ok e' (ps @ [sv_done r e']) as" using acks_ok_grows(1) [OF assms(1) log_appends_grows [OF assms(2)] assms(3)]
    by (auto simp: acks_ok_def sv_done_def wal_CurrentBatchSeq_def)
  show "unat (log_seq e') \<le> unat (log_seq e) + 1" by (rule acks_ok_grows(2) [OF assms(1) log_appends_grows [OF assms(2)] assms(3)])
qed

lemma checkAndFulfill_ok:
  assumes "sv_ok s"
  shows "sv_ok (checkAndFulfill s)" and "log_seq (sv_engine (checkAndFulfill s)) = log_seq (sv_engine s)"
proof -
  let ?e = "sv_engine s"
  let ?ready = "takeWhile (\<lambda>r. wq_seq r \<le> eg_synced ?e) (sv_pending s)"
  have "in_log_file r ?e" if "r \<in> set ?ready" for r
    by (rule elog.ready_in_file [OF _ that]) (use assms in \<open>simp add: acks_ok_def\<close>)
  then have ok: "acks_ok ?e (drop (length ?ready) (sv_pending s)) (sv_answers s @ map (\<lambda>r. (r, True)) ?ready)"
    using assms by (auto simp: acks_ok_def dest: in_set_dropD)
  have c: "log_part e' = log_part ?e" if "eng_CommitBatchFinalize ?e = Some e'" for e'
    using that by (auto simp: eng_CommitBatchFinalize_def log_part_def split: if_splits)
  have k: "acks_ok e' ps as = acks_ok ?e ps as" if "log_part e' = log_part ?e" for e' ps as
    using that by (simp add: acks_ok_def logged_def in_log_file_def log_part_def)
  show "sv_ok (checkAndFulfill s)" using ok k [OF c] by (auto simp: checkAndFulfill_def Let_def split: option.split)
  show "log_seq (sv_engine (checkAndFulfill s)) = log_seq ?e" using c by (auto simp: checkAndFulfill_def Let_def log_part_def split: option.split)
qed

lemma writer_one_ok:
  assumes "writer_one hs r s = Returns s'" and "sv_ok s" and "sv_seq s + 1 < 2 ^ 64"
  shows "sv_ok s'" and "sv_seq s' \<le> sv_seq s + 1"
proof -
  let ?op = "if wq_is_delete r then eng_Delete hs (wq_key r) (sv_engine s) else eng_Insert hs (wq_key r) (wq_value r) (sv_engine s)"
  have "sv_ok s' \<and> sv_seq s' \<le> sv_seq s + 1"
  proof (cases ?op)
    case (Returns e)
    then have a: "log_appends r (sv_engine s) e" using log_appends_ops by (auto split: if_splits)
    let ?s = "s\<lparr>sv_engine := e, sv_pending := sv_pending s @ [sv_done r e]\<rparr>"
    have "s' = checkAndFulfill ?s" using assms(1) Returns by (simp add: writer_one_def)
    moreover have "sv_ok ?s" "sv_seq ?s \<le> sv_seq s + 1" using acks_ok_append [OF assms(2) a assms(3)] by simp_all
    ultimately show ?thesis using checkAndFulfill_ok [of ?s] by simp
  next
    case Invalid
    let ?s = "sv_answer r False s"
    have "s' = checkAndFulfill ?s" using assms(1) Invalid by (simp add: writer_one_def)
    moreover have "sv_ok ?s" using acks_ok_refuse [of "sv_engine s" "sv_pending s" "sv_answers s" "[r]"] assms(2) by (simp add: sv_answer_def)
    ultimately show ?thesis using checkAndFulfill_ok [of ?s] by (simp add: sv_answer_def)
  next
    case Waits
    then show ?thesis using assms(1) by (simp add: writer_one_def)
  qed
  then show "sv_ok s'" "sv_seq s' \<le> sv_seq s + 1" by simp_all
qed

lemma checkAndFulfill_batch [simp]: "sv_batch_queue (checkAndFulfill s) = sv_batch_queue s"
  by (simp add: checkAndFulfill_def Let_def split: option.split)

lemma writer_one_batch: "writer_one hs r s = Returns s' \<Longrightarrow> sv_batch_queue s' = sv_batch_queue s"
  by (auto simp: writer_one_def sv_answer_def split: outcome.splits)

text \<open>What every way through the loop keeps, the loop keeps.\<close>

lemma writer_drain_keeps:
  assumes "writer_drain hs n s = Returns s'" and "P s"
    and "\<And>s r rs. P s \<Longrightarrow> sv_queue s = r # rs \<Longrightarrow> P (s\<lparr>sv_deferred := sv_deferred s @ [r], sv_queue := rs\<rparr>)"
    and "\<And>s r rs. P s \<Longrightarrow> sv_queue s = r # rs \<Longrightarrow> sv_cas s = None \<Longrightarrow> wq_is_cas r \<Longrightarrow> P (s\<lparr>sv_queue := rs, sv_bytes := sv_bytes s - req_bytes r,
          sv_cas := Some \<lparr>pc_key = wq_key r, pc_expected = wq_expected r, pc_desired = wq_value r, pc_client = wq_client r, pc_read = None\<rparr>\<rparr>)"
    and "\<And>s r rs s'. P s \<Longrightarrow> sv_queue s = r # rs \<Longrightarrow> \<not> wq_is_cas r \<Longrightarrow> writer_one hs r (s\<lparr>sv_queue := rs, sv_bytes := sv_bytes s - req_bytes r\<rparr>) = Returns s' \<Longrightarrow> P s'"
  shows "P s'"
  using assms
proof (induction hs n s rule: writer_drain.induct)
  case (1 hs n s)
  show ?case
  proof (cases "sv_commit_pending s \<or> sv_queue s = []")
    case True
    then have "s' = s" using "1.prems"(1) by (subst (asm) writer_drain.simps) (auto split: list.splits)
    then show ?thesis using "1.prems"(2) by simp
  next
    case False
    then obtain r rs where q: "sv_queue s = r # rs" by (cases "sv_queue s") auto
    have nc: "\<not> sv_commit_pending s" using False by simp
    let ?s1 = "s\<lparr>sv_queue := rs, sv_bytes := sv_bytes s - req_bytes r\<rparr>"
    consider (full) "cas_busy_on r s" "length (sv_deferred s) \<ge> kMaxCasDeferred" | (postpone) "cas_busy_on r s" "\<not> length (sv_deferred s) \<ge> kMaxCasDeferred"
      | (cas) "\<not> cas_busy_on r s" "wq_is_cas r" | (one) "\<not> cas_busy_on r s" "\<not> wq_is_cas r" by blast
    then show ?thesis
    proof cases
      case full
      then have "s' = s" using "1.prems"(1) nc q by (subst (asm) writer_drain.simps) simp
      then show ?thesis using "1.prems"(2) by simp
    next
      case postpone
      then have "writer_drain hs n (s\<lparr>sv_deferred := sv_deferred s @ [r], sv_queue := rs\<rparr>) = Returns s'"
        using "1.prems"(1) nc q by (subst (asm) writer_drain.simps) simp
      then show ?thesis by (rule "1.IH"(1) [OF nc q postpone _ "1.prems"(3) [OF "1.prems"(2) q] "1.prems"(3-5)])
    next
      case cas
      have n: "sv_cas s = None" using cas by (auto simp: cas_busy_on_def split: option.splits)
      have "writer_drain hs n (?s1\<lparr>sv_cas := Some \<lparr>pc_key = wq_key r, pc_expected = wq_expected r, pc_desired = wq_value r, pc_client = wq_client r, pc_read = None\<rparr>\<rparr>) = Returns s'"
        using "1.prems"(1) nc q cas by (subst (asm) writer_drain.simps) (simp add: Let_def)
      then show ?thesis by (rule "1.IH"(2) [OF nc q cas(1) refl cas(2) _ "1.prems"(4) [OF "1.prems"(2) q n cas(2)] "1.prems"(3-5)])
    next
      case one
      obtain s2 where s2: "writer_one hs r ?s1 = Returns s2"
        using "1.prems"(1) nc q one by (subst (asm) writer_drain.simps) (auto simp: Let_def split: outcome.splits)
      note p = "1.prems"(5) [OF "1.prems"(2) q one(2) s2]
      show ?thesis
      proof (cases "sv_cas s2 \<noteq> None \<and> n + 1 \<ge> kMaxCasDeferred")
        case True
        then have "s' = s2" using "1.prems"(1) nc q one s2 by (subst (asm) writer_drain.simps) (simp add: Let_def)
        then show ?thesis using p by simp
      next
        case False
        then have "writer_drain hs (if sv_cas s2 \<noteq> None then n + 1 else n) s2 = Returns s'"
          using "1.prems"(1) nc q one s2 by (subst (asm) writer_drain.simps) (auto simp: Let_def)
        then show ?thesis by (rule "1.IH"(3) [OF nc q one(1) refl one(2) s2 False _ p "1.prems"(3-5)])
      qed
    qed
  qed
qed

lemma writer_drain_ok:
  assumes "writer_drain hs n s = Returns s'" and "sv_ok s" and "sv_seq s + length (sv_queue s) < 2 ^ 64"
  shows "sv_ok s' \<and> sv_seq s' + length (sv_queue s') \<le> sv_seq s + length (sv_queue s) \<and> sv_batch_queue s' = sv_batch_queue s"
proof (rule writer_drain_keeps [OF assms(1)])
  fix t r rs t'
  assume t: "sv_ok t \<and> sv_seq t + length (sv_queue t) \<le> sv_seq s + length (sv_queue s) \<and> sv_batch_queue t = sv_batch_queue s" and q: "sv_queue t = r # rs"
    and w: "writer_one hs r (t\<lparr>sv_queue := rs, sv_bytes := sv_bytes t - req_bytes r\<rparr>) = Returns t'"
  have "sv_seq t + 1 < 2 ^ 64" using t q assms(3) by simp
  with writer_one_ok [OF w] t have "sv_ok t'" "sv_seq t' \<le> sv_seq t + 1" by simp_all
  with t q writer_one_queue [OF w] writer_one_batch [OF w]
  show "sv_ok t' \<and> sv_seq t' + length (sv_queue t') \<le> sv_seq s + length (sv_queue s) \<and> sv_batch_queue t' = sv_batch_queue s" by simp
qed (use assms in simp_all)

lemma batch_exec_ok:
  assumes "batch_exec rs e = (e', rs', ok)" and "acks_ok e ps as" and "unat (log_seq e) + length rs < 2 ^ 64"
  shows "acks_ok e' (if ok then ps @ rs' else ps) as \<and> unat (log_seq e') \<le> unat (log_seq e) + length rs"
  using assms
proof (induction rs e arbitrary: rs' ps rule: batch_exec.induct)
  case (1 e)
  then show ?case by simp
next
  case (2 r rs e)
  let ?op = "if wq_is_delete r then eng_BatchDelete (wq_key r) e else eng_BatchInsert (wq_key r) (wq_value r) e"
  show ?case
  proof (cases ?op)
    case (Returns e1)
    obtain rs1 where r: "batch_exec rs e1 = (e', rs1, ok)" and rs': "rs' = sv_done r e1 # rs1" using "2.prems"(1) Returns by (auto split: prod.splits)
    have a: "log_appends r e e1" using Returns log_appends_ops by (auto split: if_splits)
    have n: "unat (log_seq e) + 1 < 2 ^ 64" using "2.prems"(3) by simp
    note ap = acks_ok_append [OF "2.prems"(2) a n]
    have "unat (log_seq e1) + length rs < 2 ^ 64" using ap(2) "2.prems"(3) by simp
    from "2.IH" [OF Returns r ap(1) this] ap(2) have "acks_ok e' (if ok then (ps @ [sv_done r e1]) @ rs1 else ps @ [sv_done r e1]) as"
      "unat (log_seq e') \<le> unat (log_seq e) + length (r # rs)" by simp_all
    then show ?thesis by (cases ok) (simp_all add: rs' acks_ok_def)
  qed (use "2.prems" in \<open>auto simp: acks_ok_def\<close>)
qed

lemma writer_batch_ok:
  assumes "sv_ok s" and "sv_seq s + length (sv_batch_queue s) + 1 < 2 ^ 64"
  shows "sv_ok (writer_batch s)"
proof (cases "batch_trigger s")
  case True
  let ?limit = "if sv_commit_pending s then length (sv_batch_queue s) else sv_mini s"
  let ?mini = "take ?limit (sv_batch_queue s)"
  let ?s1 = "s\<lparr>sv_batch_queue := drop ?limit (sv_batch_queue s), sv_batch_bytes := sv_batch_bytes s - sum_list (map req_bytes ?mini)\<rparr>"
  obtain e mini ok where b: "batch_exec ?mini (sv_engine s) = (e, mini, ok)" by (cases "batch_exec ?mini (sv_engine s)") auto
  have "length ?mini \<le> length (sv_batch_queue s)" by simp
  then have "sv_seq s + length ?mini < 2 ^ 64" using assms(2) by linarith
  note be = batch_exec_ok [OF b assms(1) this]
  have n: "unat (log_seq e) + 1 < 2 ^ 64" using be \<open>length ?mini \<le> length (sv_batch_queue s)\<close> assms(2) by linarith
  show ?thesis
  proof (cases ok)
    case False
    have "writer_batch s = ?s1\<lparr>sv_engine := e, sv_answers := sv_answers s @ map (\<lambda>r. (r, False)) mini\<rparr>"
      using True b False by (simp add: writer_batch_def Let_def)
    then show ?thesis using be False by (simp add: acks_ok_refuse)
  next
    case ok: True
    let ?s2 = "?s1\<lparr>sv_engine := e, sv_pending := sv_pending s @ mini\<rparr>"
    let ?e' = "case eng_CommitBatchAsync e of None \<Rightarrow> e | Some e' \<Rightarrow> e'"
    let ?s3 = "if sv_commit_pending s then ?s2\<lparr>sv_engine := ?e', sv_finalizing := True, sv_commit_requested := False\<rparr> else ?s2"
    have w: "writer_batch s = checkAndFulfill ?s3" using True b ok by (simp add: writer_batch_def Let_def)
    have a: "acks_ok e (sv_pending s @ mini) (sv_answers s)" using be ok by simp
    have "log_grows 1 e ?e'" by (cases "eng_CommitBatchAsync e") (simp_all add: log_grows_refl log_grows_CommitBatchAsync [unfolded One_nat_def])
    from acks_ok_grows(1) [OF a this n] a have "sv_ok ?s3" by (cases "sv_commit_pending s") simp_all
    then show ?thesis unfolding w by (rule checkAndFulfill_ok)
  qed
next
  case False
  then show ?thesis using assms(1) by (simp add: writer_batch_def)
qed

lemma sv_ok_answer: "sv_ok (sv_answer r False s) = sv_ok s"
  using acks_ok_refuse [of _ _ _ "[r]"] by (simp add: sv_answer_def)

lemma writer_cas_ok:
  assumes "writer_cas hs pc current s = Returns s'" and "sv_ok s" and "sv_seq s + 1 < 2 ^ 64"
  shows "sv_ok s'"
proof (cases "current \<noteq> [] \<and> current = pc_expected pc")
  case True
  let ?r = "wq_new (pc_client pc) (pc_key pc) (pc_desired pc)"
  have r: "\<not> wq_is_delete ?r" "wq_key ?r = pc_key pc" "wq_value ?r = pc_desired pc" by (simp_all add: wq_new_def)
  show ?thesis
  proof (cases "eng_Insert hs (pc_key pc) (pc_desired pc) (sv_engine s)")
    case (Returns e)
    have "log_appends ?r (sv_engine s) e" by (rule log_appends_ops(1) [OF _ r(1)]) (use Returns in \<open>simp add: r\<close>)
    from acks_ok_append(1) [OF assms(2) this assms(3)] show ?thesis using assms(1) True Returns by (auto simp: writer_cas_def Let_def)
  next
    case Invalid
    then show ?thesis using assms(1,2) True sv_ok_answer [of ?r s] by (auto simp: writer_cas_def Let_def)
  next
    case Waits
    then show ?thesis using assms(1) True by (auto simp: writer_cas_def Let_def)
  qed
next
  case False
  then show ?thesis using assms(1,2) sv_ok_answer by (auto simp: writer_cas_def Let_def)
qed

lemma writer_round_ok:
  assumes "writer_round hs s = Returns s'" and "sv_ok s" and "sv_seq s + length (sv_queue s) + length (sv_batch_queue s) + 1 < 2 ^ 64"
  shows "sv_ok s'"
proof -
  have work: "sv_ok s'" if w: "writer_work hs s = Returns s'"
  proof -
    obtain s1 where d: "writer_drain hs 0 (checkAndFulfill s) = Returns s1" and s': "s' = writer_batch s1"
      using w by (auto simp: writer_work_def split: outcome.splits)
    note c = checkAndFulfill_ok [OF assms(2)]
    have "sv_seq (checkAndFulfill s) + length (sv_queue (checkAndFulfill s)) < 2 ^ 64" using c(2) assms(3) by simp
    from writer_drain_ok [OF d c(1) this] c(2) assms(3) show ?thesis unfolding s' by (intro writer_batch_ok) simp_all
  qed
  show ?thesis
  proof (cases "\<exists>pc current. sv_cas s = Some pc \<and> pc_read pc = Some current")
    case True
    then obtain pc current where "writer_cas hs pc current s = Returns s'" using assms(1) by (auto simp: writer_round_def)
    then show ?thesis by (rule writer_cas_ok [OF _ assms(2)]) (use assms(3) in linarith)
  next
    case False
    then show ?thesis using assms(1) work by (auto simp: writer_round_def split: option.splits)
  qed
qed

subsection \<open>Steps\<close>

text \<open>
  The requests of the clients, a round of the writer, the lookup of a compare-and-swap, and what the engine's own threads and the readers do. The sequence numbers of the log do not run out:
  there are enough left for the requests that wait.
\<close>

inductive sv_step :: "server \<Rightarrow> server \<Rightarrow> bool" where
  put: "sv_Write c key val s = Some s' \<Longrightarrow> sv_step s s'"
| delete: "sv_Delete c key s = Some s' \<Longrightarrow> sv_step s s'"
| async_put: "sv_AsyncWrite c key val s = Some s' \<Longrightarrow> sv_step s s'"
| async_delete: "sv_AsyncDelete c key s = Some s' \<Longrightarrow> sv_step s s'"
| cas: "sv_CompareAndSwap c key expected desired s = Some s' \<Longrightarrow> sv_step s s'"
| batch_write: "sv_BatchWrite moved c key val s = Some s' \<Longrightarrow> sv_step s s'"
| batch_begin: "sv_BatchBegin s = (s', ok) \<Longrightarrow> sv_seq s + 1 < 2 ^ 64 \<Longrightarrow> sv_step s s'"
| batch_commit: "sv_step s (sv_BatchCommit s)"
| batch_abort: "sv_BatchAbort wal_io mf_io s = Some s' \<Longrightarrow> sv_seq s + 1 < 2 ^ 64 \<Longrightarrow> sv_step s s'"
| round: "writer_round hs s = Returns s' \<Longrightarrow> sv_seq s + length (sv_queue s) + length (sv_batch_queue s) + 1 < 2 ^ 64 \<Longrightarrow> sv_step s s'"
| cas_read: "sv_cas_read hs s = Returns s' \<Longrightarrow> sv_step s s'"
| lookup: "eng_Lookup hs key (sv_engine s) = Returns (e, v) \<Longrightarrow> sv_step s (s\<lparr>sv_engine := e\<rparr>)"
| sync: "eng_sync_round force io (sv_engine s) = Some e \<Longrightarrow> sv_step s (s\<lparr>sv_engine := e\<rparr>)"
| flush: "sv_seq s + 1 < 2 ^ 64 \<Longrightarrow> sv_step s (s\<lparr>sv_engine := eng_flush_step bsz io (sv_engine s)\<rparr>)"
| compact: "eng_compaction_round bsz ios min_ts (sv_engine s) = Returns e \<Longrightarrow> sv_step s (s\<lparr>sv_engine := e\<rparr>)"
| compact_manual: "eng_ManualCompact bsz ios min_ts n l cascade (sv_engine s) = Returns (e, k) \<Longrightarrow> sv_step s (s\<lparr>sv_engine := e\<rparr>)"

inductive sv_reach :: "server \<Rightarrow> bool" where
  started: "eng_open bsz oi oc mf wal_bytes files = Some e \<Longrightarrow> sv_reach (sv_new e)"
| step: "sv_reach s \<Longrightarrow> sv_step s s' \<Longrightarrow> sv_reach s'"

lemma sv_push_fields: "sv_push n r s = Some s' \<Longrightarrow> sv_engine s' = sv_engine s \<and> sv_pending s' = sv_pending s \<and> sv_answers s' = sv_answers s"
  by (auto simp: sv_push_def split: if_splits)

lemma sv_ok_grows: "sv_ok s \<Longrightarrow> log_grows k (sv_engine s) e \<Longrightarrow> sv_seq s + k < 2 ^ 64 \<Longrightarrow> sv_ok (s\<lparr>sv_engine := e\<rparr>)"
  using acks_ok_grows(1) by simp

lemma u64_bound: "unat (x :: u64) + 0 < 2 ^ 64"
  using unsigned_less [of x] by simp

lemmas sv_ok_grows_0 = sv_ok_grows [where k = 0, OF _ _ u64_bound]

lemma sv_step_ok:
  assumes "sv_step s s'" and "sv_ok s"
  shows "sv_ok s'"
  using assms
proof (cases rule: sv_step.cases)
  case (put c key val)
  show ?thesis using sv_push_fields [OF put [unfolded sv_Write_def]] assms(2) by simp
next
  case (delete c key)
  show ?thesis using sv_push_fields [OF delete [unfolded sv_Delete_def]] assms(2) by simp
next
  case (async_put c key val)
  show ?thesis using sv_push_fields [OF async_put [unfolded sv_AsyncWrite_def]] assms(2) by simp
next
  case (async_delete c key)
  show ?thesis using sv_push_fields [OF async_delete [unfolded sv_AsyncDelete_def]] assms(2) by simp
next
  case (cas c key expected desired)
  show ?thesis using sv_push_fields [OF cas [unfolded sv_CompareAndSwap_def]] assms(2) by simp
next
  case (batch_write moved c key val)
  then have "sv_engine s' = sv_engine s" "sv_pending s' = sv_pending s" "sv_answers s' = sv_answers s"
    by (auto simp: sv_BatchWrite_def Let_def split: if_splits)
  then show ?thesis using assms(2) by simp
next
  case (batch_begin ok)
  show ?thesis
  proof (cases "eng_StartBatch (sv_engine s)")
    case None
    then show ?thesis using batch_begin(1) assms(2) by (auto simp: sv_BatchBegin_def)
  next
    case (Some e)
    then show ?thesis using batch_begin(1) sv_ok_grows [OF assms(2) log_grows_StartBatch [OF Some] batch_begin(2)] by (auto simp: sv_BatchBegin_def)
  qed
next
  case batch_commit
  then show ?thesis using assms(2) by (simp add: sv_BatchCommit_def)
next
  case (batch_abort wal_io mf_io)
  then obtain e ok where e: "eng_AbortBatch wal_io mf_io (sv_engine s) = (e, Inr ok)"
    and s': "sv_engine s' = e" "sv_pending s' = sv_pending s" "sv_answers s' = sv_answers s"
    by (auto simp: sv_BatchAbort_def Let_def split: prod.splits sum.splits)
  from sv_ok_grows [OF assms(2) log_grows_AbortBatch [OF e] batch_abort(2)] show ?thesis by (simp add: s')
next
  case (round hs)
  show ?thesis by (rule writer_round_ok [OF round(1) assms(2) round(2)])
next
  case (cas_read hs)
  show ?thesis
  proof (cases "sv_cas s")
    case None
    then show ?thesis using cas_read assms(2) by (simp add: sv_cas_read_def)
  next
    case (Some pc)
    then obtain e v where l: "eng_Lookup hs (pc_key pc) (sv_engine s) = Returns (e, v)"
      and s': "sv_engine s' = e" "sv_pending s' = sv_pending s" "sv_answers s' = sv_answers s"
      using cas_read by (auto simp: sv_cas_read_def split: outcome.splits)
    from sv_ok_grows_0 [OF assms(2) log_grows_Lookup [OF l]] show ?thesis by (simp add: s')
  qed
next
  case (lookup hs key e v)
  show ?thesis unfolding lookup(1) by (rule sv_ok_grows_0 [OF assms(2) log_grows_Lookup [OF lookup(2)]])
next
  case (sync force io e)
  show ?thesis unfolding sync(1) by (rule sv_ok_grows_0 [OF assms(2) log_grows_sync_round [OF sync(2)]])
next
  case (flush bsz io)
  show ?thesis unfolding flush(1) by (rule sv_ok_grows [OF assms(2) log_grows_flush_step flush(2)])
next
  case (compact bsz ios min_ts e)
  show ?thesis unfolding compact(1) by (rule sv_ok_grows_0 [OF assms(2) log_grows_part [OF log_part_compaction_round [OF compact(2)]]])
next
  case (compact_manual bsz ios min_ts n l cascade e k)
  show ?thesis unfolding compact_manual(1) by (rule sv_ok_grows_0 [OF assms(2) log_grows_part [OF log_part_ManualCompact [OF compact_manual(2)]]])
qed

subsection \<open>Opening\<close>

lemma eng_replay_synced: "eng_replay bsz io kvs e = Some e' \<Longrightarrow> eg_synced e' = eg_synced e"
proof (induction bsz io kvs e rule: eng_replay.induct)
  case (2 bsz io kv kvs e)
  let ?e = "e\<lparr>eg_active := mt_Insert (kv\<lparr>kv_is_tombstone := False\<rparr>) (eg_active e), eg_global_ts := (if kv_timestamp kv > eg_global_ts e then kv_timestamp kv else eg_global_ts e)\<rparr>"
  show ?case
  proof (cases "mt_IsFull (eg_active ?e)")
    case True
    then obtain e2 where d: "eng_DoFlush bsz io (mt_Freeze (eg_active ?e)) (eng_new_table ?e) = (e2, True)"
      and r: "eng_replay bsz io kvs (eng_checkpoint e2) = Some e'" using "2.prems" by (auto simp: Let_def split: prod.splits bool.splits)
    have "eg_synced e2 = eg_synced e" using log_part_DoFlush [OF d] by (simp add: log_part_def eng_new_table_def)
    with "2.IH"(1) [OF refl True d [symmetric] refl r] show ?thesis by (simp add: eng_checkpoint_def)
  next
    case False
    with "2.IH"(2) [OF refl False] "2.prems" show ?thesis by (simp add: Let_def)
  qed
qed simp

lemma eng_RecoverFromWAL_synced:
  assumes "eng_RecoverFromWAL bsz io wal_io r e = Some e'"
  shows "eg_synced e' = eg_synced e"
proof -
  let ?e1 = "fold mark_aborted (wr_aborted r) (e\<lparr>eg_global_ts := (if wr_checkpoint_ts r > eg_global_ts e then wr_checkpoint_ts r else eg_global_ts e)\<rparr>)"
  have 1: "eg_synced ?e1 = eg_synced e" by (subst fold_fields [where f = eg_synced]) (simp_all add: mark_aborted_def)
  show ?thesis
  proof (cases "wr_entries r = []")
    case True
    then have "e' = ?e1" using assms by (simp add: eng_RecoverFromWAL_def Let_def)
    then show ?thesis using 1 by simp
  next
    case False
    with assms obtain e2 e3 where e2: "eng_replay bsz io (wr_entries r) ?e1 = Some e2"
      and e3: "(if mt_count (eg_active e2) > 0 then (case eng_DoFlush bsz io (mt_Freeze (eg_active e2)) (eng_new_table e2) of
          (e3, True) \<Rightarrow> Some e3 | (_, False) \<Rightarrow> None) else Some e2) = Some e3"
      and e': "(case wal_Sync True wal_io (eg_wal (eng_checkpoint e3)) of (w, Inl _) \<Rightarrow> None | (w, Inr _) \<Rightarrow> Some ((eng_checkpoint e3)\<lparr>eg_wal := w\<rparr>)) = Some e'"
      unfolding eng_RecoverFromWAL_def Let_def by (auto simp: bind_eq_Some_conv)
    have "eg_synced e3 = eg_synced e2"
      using e3 by (auto simp: log_part_def eng_new_table_def split: if_splits prod.splits bool.splits dest!: log_part_DoFlush)
    then show ?thesis using e' eng_replay_synced [OF e2] 1 by (auto simp: eng_checkpoint_def split: prod.splits sum.splits)
  qed
qed

lemma eng_open_synced:
  assumes "eng_open bsz oi oc mf wal_bytes files = Some e"
  shows "eg_synced e = 0"
proof -
  obtain e0 r e1 where "eng_RecoverFromWAL bsz (oi_mf_io oi) (oi_wal_io oi) r e0 = Some e1" "eg_synced e0 = 0" "eg_synced e = eg_synced e1"
    using assms by (fastforce simp: eng_open_def Let_def split: sum.splits prod.splits)
  then show ?thesis using eng_RecoverFromWAL_synced by simp
qed

lemma sv_reach_ok: "sv_reach s \<Longrightarrow> sv_ok s"
proof (induction rule: sv_reach.induct)
  case (started bsz oi oc mf wal_bytes files e)
  then show ?case using eng_open_synced by (simp add: sv_new_def acks_ok_def)
next
  case (step s s')
  then show ?case using sv_step_ok by blast
qed

end
