(* ===== verification/Server_Writes.thy ===== *)
theory Server_Writes
  imports Server_Log "HOL-Library.Multiset"
begin

text \<open>
  What becomes of the requests that clients send to the server: none is lost, all are answered, and the ways in which the server stops to answer.
\<close>

section \<open>No request is lost\<close>

definition wq_tag :: "write_request \<Rightarrow> nat \<times> bytes \<times> bytes" where
  "wq_tag r = (wq_client r, wq_key r, wq_value r)"

definition sv_requests :: "server \<Rightarrow> (nat \<times> bytes \<times> bytes) multiset" where
  "sv_requests s = mset (map wq_tag (sv_queue s @ sv_deferred s @ sv_batch_queue s @ sv_pending s @ map fst (sv_answers s)))
     + (case sv_cas s of None \<Rightarrow> {#} | Some pc \<Rightarrow> {#(pc_client pc, pc_key pc, pc_desired pc)#})"

lemma wq_tag_done [simp]: "wq_tag (sv_done r e) = wq_tag r"
  by (simp add: wq_tag_def sv_done_def)

lemma checkAndFulfill_requests [simp]: "sv_requests (checkAndFulfill s) = sv_requests s"
proof -
  let ?P = "\<lambda>r. wq_seq r \<le> eg_synced (sv_engine s)"
  have "sv_pending s = takeWhile ?P (sv_pending s) @ drop (length (takeWhile ?P (sv_pending s))) (sv_pending s)" by (simp flip: dropWhile_eq_drop)
  then have "mset (map wq_tag (sv_pending s)) = mset (map wq_tag (takeWhile ?P (sv_pending s)))
      + mset (map wq_tag (drop (length (takeWhile ?P (sv_pending s))) (sv_pending s)))"
    by (metis map_append mset_append)
  then show ?thesis by (simp add: checkAndFulfill_def Let_def sv_requests_def comp_def multiset.map_comp split: option.split)
qed

lemma writer_one_requests:
  assumes "writer_one hs r s = Returns s'"
  shows "sv_requests s' = add_mset (wq_tag r) (sv_requests s)"
proof -
  obtain t where "s' = checkAndFulfill t" "sv_requests t = add_mset (wq_tag r) (sv_requests s)"
    using assms by (auto simp: writer_one_def sv_answer_def sv_requests_def split: outcome.splits)
  then show ?thesis by simp
qed

lemma checkAndFulfill_fields [simp]: "sv_cas (checkAndFulfill s) = sv_cas s" "sv_deferred (checkAndFulfill s) = sv_deferred s"
  by (simp_all add: checkAndFulfill_def Let_def split: option.split)

lemma writer_drain_requests: "writer_drain hs n s = Returns s' \<Longrightarrow> sv_requests s' = sv_requests s"
proof (erule writer_drain_keeps)
  fix t r rs t'
  assume "sv_requests t = sv_requests s" "sv_queue t = r # rs" "writer_one hs r (t\<lparr>sv_queue := rs, sv_bytes := sv_bytes t - req_bytes r\<rparr>) = Returns t'"
  then show "sv_requests t' = sv_requests s" using writer_one_requests [of hs r "t\<lparr>sv_queue := rs, sv_bytes := sv_bytes t - req_bytes r\<rparr>" t']
    by (simp add: sv_requests_def)
qed (simp_all add: sv_requests_def wq_tag_def)

lemma batch_exec_tags: "batch_exec rs e = (e', rs', ok) \<Longrightarrow> map wq_tag rs' = map wq_tag rs"
  by (induction rs e arbitrary: rs' rule: batch_exec.induct) (auto split: outcome.splits prod.splits)

lemma writer_batch_requests: "sv_requests (writer_batch s) = sv_requests s"
proof (cases "batch_trigger s")
  case True
  let ?limit = "if sv_commit_pending s then length (sv_batch_queue s) else sv_mini s"
  let ?mini = "take ?limit (sv_batch_queue s)"
  obtain e mini ok where b: "batch_exec ?mini (sv_engine s) = (e, mini, ok)" by (cases "batch_exec ?mini (sv_engine s)") auto
  have "mset (map wq_tag (sv_batch_queue s)) = mset (map wq_tag ?mini) + mset (map wq_tag (drop ?limit (sv_batch_queue s)))"
    by (metis append_take_drop_id map_append mset_append)
  then have m: "mset (map wq_tag (sv_batch_queue s)) = mset (map wq_tag mini) + mset (map wq_tag (drop ?limit (sv_batch_queue s)))"
    using batch_exec_tags [OF b] by simp
  show ?thesis
  proof (cases ok)
    case False
    have "writer_batch s = s\<lparr>sv_batch_queue := drop ?limit (sv_batch_queue s), sv_batch_bytes := sv_batch_bytes s - sum_list (map req_bytes ?mini),
        sv_engine := e, sv_answers := sv_answers s @ map (\<lambda>r. (r, False)) mini\<rparr>"
      using True b False by (simp add: writer_batch_def Let_def)
    then show ?thesis using m by (simp add: sv_requests_def comp_def multiset.map_comp)
  next
    case ok: True
    let ?s2 = "s\<lparr>sv_batch_queue := drop ?limit (sv_batch_queue s), sv_batch_bytes := sv_batch_bytes s - sum_list (map req_bytes ?mini),
        sv_engine := e, sv_pending := sv_pending s @ mini\<rparr>"
    let ?s3 = "if sv_commit_pending s
      then ?s2\<lparr>sv_engine := (case eng_CommitBatchAsync e of None \<Rightarrow> e | Some e' \<Rightarrow> e'), sv_finalizing := True, sv_commit_requested := False\<rparr> else ?s2"
    have "writer_batch s = checkAndFulfill ?s3" using True b ok by (simp add: writer_batch_def Let_def)
    moreover have "sv_requests ?s2 = sv_requests s" using m by (simp add: sv_requests_def)
    moreover have "sv_requests ?s3 = sv_requests ?s2" by (simp add: sv_requests_def)
    ultimately show ?thesis by simp
  qed
qed (simp add: writer_batch_def)

lemma writer_cas_requests:
  assumes "writer_cas hs pc current s = Returns s'" and "sv_cas s = Some pc"
  shows "sv_requests s' = sv_requests s"
  using assms by (auto simp: writer_cas_def Let_def sv_requests_def sv_answer_def wq_tag_def wq_new_def sv_done_def split: if_splits outcome.splits)

lemma writer_round_requests:
  assumes "writer_round hs s = Returns s'"
  shows "sv_requests s' = sv_requests s"
  using assms
  by (auto simp: writer_round_def writer_work_def writer_batch_requests split: option.splits outcome.splits dest: writer_cas_requests dest!: writer_drain_requests)

section \<open>Writes get their answers\<close>

lemma kc_ops_return:
  assumes "kc_ok c"
  shows "\<exists>c'. kc_Put hs key v ts c = Some c' \<and> kc_ok c'" and "\<exists>c'. kc_Erase hs key c = Some c' \<and> kc_ok c'"
proof -
  note sh = kc_ok_shard [OF assms, where hs = hs and key = key]
  show "\<exists>c'. kc_Put hs key v ts c = Some c' \<and> kc_ok c'"
    using kc_Put_ok [OF assms, of _ hs key ts] assms by (cases "length v \<le> kPageSize div 2") (auto simp: kc_Put_def)
  show "\<exists>c'. kc_Erase hs key c = Some c' \<and> kc_ok c'"
    using kc_Erase_nolock_ok [OF sh(2), of hs key] sh(3) by (auto simp: kc_Erase_def Let_def)
qed

definition wq_valid :: "write_request \<Rightarrow> bool" where
  "wq_valid r \<longleftrightarrow> length (wq_key r) \<le> kMaxKeyBytes \<and> (wq_is_delete r \<or> entry_size (wq_key r) (wq_value r) \<le> kMaxKeyValuePairBytes)"

text \<open>No batch is open, and what waits in \<open>ps\<close> has been logged.\<close>

definition writes_flow :: "write_request list \<Rightarrow> engine \<Rightarrow> bool" where
  "writes_flow ps e \<longleftrightarrow> \<not> eg_in_batch e \<and> kc_ok (eg_kv e) \<and> (\<forall>r \<in> set ps. wq_seq r \<le> log_seq e) \<and> (ps = [] \<or> write_buf (eg_wal e) \<noteq> [])"

lemma log_appends_flow:
  assumes "writes_flow ps e" and "log_appends r e e'" and "unat (log_seq e) + 1 < 2 ^ 64" and "\<not> eg_in_batch e'" and "kc_ok (eg_kv e')"
  shows "writes_flow (ps @ [sv_done r e']) e'"
proof -
  obtain ts where l: "write_buf (eg_wal e') = write_buf (eg_wal e) @ req_rec r ts" "log_seq e' = log_seq e + 1" using assms(2) unfolding log_appends_def by blast
  have "log_seq e \<le> log_seq e'" using unat_Suc_word [OF assms(3)] by (simp add: l(2) word_le_nat_alt)
  moreover have "req_rec r ts \<noteq> []" by (simp add: req_rec_def SerializeRecord_def wal_body_def WriteUint64LE_def)
  ultimately show ?thesis using assms(1,4,5) unfolding writes_flow_def by (auto simp: sv_done_def wal_CurrentBatchSeq_def l(1))
qed

lemma eng_write_returns:
  assumes "\<not> eg_in_batch e" and "kc_ok (eg_kv e)"
  shows "if wq_valid r
    then \<exists>e'. (if wq_is_delete r then eng_Delete hs (wq_key r) e else eng_Insert hs (wq_key r) (wq_value r) e) = Returns e' \<and> \<not> eg_in_batch e' \<and> kc_ok (eg_kv e')
    else (if wq_is_delete r then eng_Delete hs (wq_key r) e else eng_Insert hs (wq_key r) (wq_value r) e) = Invalid"
proof -
  obtain c where "kc_Put hs (wq_key r) (wq_value r) (eg_global_ts e + 1) (eg_kv e) = Some c" "kc_ok c" using kc_ops_return [OF assms(2)] by blast
  moreover obtain d where "kc_Erase hs (wq_key r) (eg_kv e) = Some d" "kc_ok d" using kc_ops_return [OF assms(2)] by blast
  ultimately show ?thesis using assms(1)
    by (cases "wq_is_delete r") (auto simp: wq_valid_def eng_Insert_def eng_Delete_def eng_blocked_def Let_def on_cache_def)
qed

definition sv_frame :: "server \<Rightarrow> write_request list \<times> u64 \<times> u64 \<times> nat \<times> bool \<times> bool \<times> bool \<times> pending_cas option" where
  "sv_frame s = (sv_batch_queue s, sv_batch_bytes s, sv_max_bytes s, sv_mini s, sv_commit_pending s, sv_commit_requested s, sv_finalizing s, sv_cas s)"

text \<open>The answers that are given and those to be expected.\<close>

definition sv_outcomes :: "server \<Rightarrow> ((nat \<times> bytes \<times> bytes) \<times> bool) multiset" where
  "sv_outcomes s = mset (map (\<lambda>(r, ok). (wq_tag r, ok)) (sv_answers s)) + mset (map (\<lambda>r. (wq_tag r, True)) (sv_pending s))
     + mset (map (\<lambda>r. (wq_tag r, wq_valid r)) (sv_queue s))"

definition sv_flows :: "server \<Rightarrow> bool" where
  "sv_flows s \<longleftrightarrow> writes_flow (sv_pending s) (sv_engine s) \<and> \<not> sv_finalizing s"

lemma checkAndFulfill_flow:
  assumes "sv_flows s"
  shows "sv_flows (checkAndFulfill s)" "sv_outcomes (checkAndFulfill s) = sv_outcomes s" "sv_frame (checkAndFulfill s) = sv_frame s"
    "sv_engine (checkAndFulfill s) = sv_engine s" "sv_bytes (checkAndFulfill s) = sv_bytes s"
proof -
  let ?P = "\<lambda>r. wq_seq r \<le> eg_synced (sv_engine s)"
  let ?ready = "takeWhile ?P (sv_pending s)"
  let ?rest = "drop (length ?ready) (sv_pending s)"
  have c: "checkAndFulfill s = s\<lparr>sv_pending := ?rest, sv_answers := sv_answers s @ map (\<lambda>r. (r, True)) ?ready\<rparr>"
    using assms by (simp add: checkAndFulfill_def sv_flows_def Let_def)
  have "sv_pending s = ?ready @ ?rest" by (simp flip: dropWhile_eq_drop)
  then have "mset (map f (sv_pending s)) = mset (map f ?ready) + mset (map f ?rest)" for f :: "write_request \<Rightarrow> (nat \<times> bytes \<times> bytes) \<times> bool" by (metis map_append mset_append)
  then show "sv_outcomes (checkAndFulfill s) = sv_outcomes s" by (simp add: c sv_outcomes_def comp_def multiset.map_comp)
  show "sv_flows (checkAndFulfill s)" using assms by (auto simp: c sv_flows_def writes_flow_def dest: in_set_dropD)
  show "sv_frame (checkAndFulfill s) = sv_frame s" "sv_engine (checkAndFulfill s) = sv_engine s" "sv_bytes (checkAndFulfill s) = sv_bytes s" by (simp_all add: c sv_frame_def)
qed

lemma writer_one_flow:
  assumes "sv_flows s" and "sv_seq s + 1 < 2 ^ 64"
  shows "\<exists>s'. writer_one hs r s = Returns s' \<and> sv_flows s' \<and> sv_outcomes s' = add_mset (wq_tag r, wq_valid r) (sv_outcomes s) \<and> sv_frame s' = sv_frame s
    \<and> sv_queue s' = sv_queue s \<and> sv_seq s' \<le> sv_seq s + 1 \<and> sv_bytes s' = sv_bytes s"
proof -
  let ?op = "if wq_is_delete r then eng_Delete hs (wq_key r) (sv_engine s) else eng_Insert hs (wq_key r) (wq_value r) (sv_engine s)"
  note w = eng_write_returns [of "sv_engine s" r hs]
  show ?thesis
  proof (cases "wq_valid r")
    case True
    then obtain e where e: "?op = Returns e" "\<not> eg_in_batch e" "kc_ok (eg_kv e)" using w assms(1) by (auto simp: sv_flows_def writes_flow_def)
    let ?s = "s\<lparr>sv_engine := e, sv_pending := sv_pending s @ [sv_done r e]\<rparr>"
    have a: "log_appends r (sv_engine s) e" using e(1) log_appends_ops by (auto split: if_splits)
    have "sv_flows ?s" using log_appends_flow [OF _ a assms(2) e(2,3)] assms(1) by (simp add: sv_flows_def)
    note c = checkAndFulfill_flow [OF this]
    have "unat (log_seq e) \<le> sv_seq s + 1" using log_appends_grows [OF a] assms(2) unfolding log_grows_def by blast
    moreover have "writer_one hs r s = Returns (checkAndFulfill ?s)" using e(1) by (simp add: writer_one_def)
    moreover have "sv_outcomes ?s = add_mset (wq_tag r, wq_valid r) (sv_outcomes s)" using True by (simp add: sv_outcomes_def)
    ultimately show ?thesis using c by (simp add: sv_frame_def)
  next
    case False
    then have "?op = Invalid" using w assms(1) by (auto simp: sv_flows_def writes_flow_def)
    then have o: "writer_one hs r s = Returns (checkAndFulfill (sv_answer r False s))" by (simp add: writer_one_def)
    have "sv_flows (sv_answer r False s)" using assms(1) by (simp add: sv_flows_def sv_answer_def)
    note c = checkAndFulfill_flow [OF this]
    have "sv_outcomes (sv_answer r False s) = add_mset (wq_tag r, wq_valid r) (sv_outcomes s)" using False by (simp add: sv_outcomes_def sv_answer_def)
    then show ?thesis using o c by (simp add: sv_frame_def sv_answer_def)
  qed
qed

lemma writer_drain_flow:
  assumes "sv_flows s" and "sv_cas s = None" and "\<not> sv_commit_pending s" and "\<forall>r \<in> set (sv_queue s). \<not> wq_is_cas r" and "sv_seq s + length (sv_queue s) < 2 ^ 64"
  shows "\<exists>s'. writer_drain hs n s = Returns s' \<and> sv_flows s' \<and> sv_outcomes s' = sv_outcomes s \<and> sv_frame s' = sv_frame s \<and> sv_queue s' = []
    \<and> sv_bytes s' = sv_bytes s - sum_list (map req_bytes (sv_queue s)) \<and> sv_seq s' \<le> sv_seq s + length (sv_queue s)"
  using assms
proof (induction "sv_queue s" arbitrary: s n)
  case Nil
  then have "writer_drain hs n s = Returns s" by (subst writer_drain.simps) (auto split: list.splits)
  then show ?case using Nil by auto
next
  case (Cons r rs)
  let ?s1 = "s\<lparr>sv_queue := rs, sv_bytes := sv_bytes s - req_bytes r\<rparr>"
  have q: "sv_queue s = r # rs" using Cons.hyps(2) by simp
  have "sv_flows ?s1" "sv_seq ?s1 + 1 < 2 ^ 64" using Cons.prems(1,5) by (simp_all add: sv_flows_def q)
  from writer_one_flow [OF this, of hs r] obtain s2 where s2: "writer_one hs r ?s1 = Returns s2" "sv_flows s2"
    "sv_outcomes s2 = add_mset (wq_tag r, wq_valid r) (sv_outcomes ?s1)" "sv_frame s2 = sv_frame ?s1" "sv_queue s2 = rs" "sv_seq s2 \<le> sv_seq s + 1" "sv_bytes s2 = sv_bytes s - req_bytes r" by auto
  have f: "sv_frame s2 = sv_frame s" "sv_cas s2 = None" "\<not> sv_commit_pending s2" using s2(4) Cons.prems(2,3) by (simp_all add: sv_frame_def)
  have o: "sv_outcomes s2 = sv_outcomes s" using s2(3) by (simp add: sv_outcomes_def q)
  have "writer_drain hs n s = writer_drain hs n s2"
    using Cons.prems(2-4) s2(1) f(2) by (subst writer_drain.simps) (simp add: q cas_busy_on_def)
  moreover have "\<exists>s'. writer_drain hs n s2 = Returns s' \<and> sv_flows s' \<and> sv_outcomes s' = sv_outcomes s2 \<and> sv_frame s' = sv_frame s2 \<and> sv_queue s' = []
    \<and> sv_bytes s' = sv_bytes s2 - sum_list (map req_bytes (sv_queue s2)) \<and> sv_seq s' \<le> sv_seq s2 + length (sv_queue s2)"
    by (rule Cons.hyps(1)) (use s2 f Cons.prems q in simp_all)
  then obtain s' where s': "writer_drain hs n s2 = Returns s'" "sv_flows s'" "sv_outcomes s' = sv_outcomes s2" "sv_frame s' = sv_frame s2" "sv_queue s' = []"
    "sv_bytes s' = sv_bytes s2 - sum_list (map req_bytes (sv_queue s2))" "sv_seq s' \<le> sv_seq s2 + length (sv_queue s2)" by blast
  moreover have "sv_seq s' \<le> sv_seq s + length (sv_queue s)" using s'(7) s2(5,6) by (simp add: q)
  ultimately show ?case using f(1) o s2(5,7) by (simp add: q diff_diff_eq)
qed

lemma batch_trigger_frame: "sv_frame s' = sv_frame s \<Longrightarrow> batch_trigger s' = batch_trigger s"
  by (simp add: batch_trigger_def sv_frame_def)

lemma writer_round_flow:
  assumes "sv_flows s" and "sv_cas s = None" and "\<not> sv_commit_pending s" and "\<not> batch_trigger s" and "\<forall>r \<in> set (sv_queue s). \<not> wq_is_cas r" and "sv_seq s + length (sv_queue s) < 2 ^ 64"
  shows "\<exists>s'. writer_round hs s = Returns s' \<and> sv_flows s' \<and> sv_outcomes s' = sv_outcomes s \<and> sv_frame s' = sv_frame s \<and> sv_queue s' = []
    \<and> sv_bytes s' = sv_bytes s - sum_list (map req_bytes (sv_queue s)) \<and> sv_seq s' \<le> sv_seq s + length (sv_queue s)"
proof -
  note c = checkAndFulfill_flow [OF assms(1)]
  have "sv_cas (checkAndFulfill s) = None" "\<not> sv_commit_pending (checkAndFulfill s)" using c(3) assms(2,3) by (simp_all add: sv_frame_def)
  with writer_drain_flow [OF c(1), of hs 0] assms(5,6) c(4) obtain s' where s': "writer_drain hs 0 (checkAndFulfill s) = Returns s'" "sv_flows s'"
    "sv_outcomes s' = sv_outcomes (checkAndFulfill s)" "sv_frame s' = sv_frame (checkAndFulfill s)" "sv_queue s' = []"
    "sv_bytes s' = sv_bytes s - sum_list (map req_bytes (sv_queue s))" "sv_seq s' \<le> sv_seq s + length (sv_queue s)" by (auto simp: c(4,5))
  have "\<not> batch_trigger s'" using batch_trigger_frame [of s' s] s'(4) c(3) assms(4) by simp
  then have "writer_round hs s = Returns s'" using s'(1) assms(2) by (simp add: writer_round_def writer_work_def writer_batch_def)
  then show ?thesis using s' c by simp
qed

lemma sync_then_round:
  assumes "sv_flows s" and "sv_queue s = []" and "sv_cas s = None" and "\<not> sv_commit_pending s" and "\<not> batch_trigger s"
    and "eng_sync_round True Io_ok (sv_engine s) = Some e"
  shows "\<exists>s'. writer_round hs (s\<lparr>sv_engine := e\<rparr>) = Returns s' \<and> sv_pending s' = [] \<and> sv_queue s' = [] \<and> sv_outcomes s' = sv_outcomes s"
proof -
  let ?s = "s\<lparr>sv_engine := e\<rparr>"
  let ?s' = "?s\<lparr>sv_pending := [], sv_answers := sv_answers s @ map (\<lambda>r. (r, True)) (sv_pending s)\<rparr>"
  have "\<forall>r \<in> set (sv_pending s). wq_seq r \<le> eg_synced e"
    using assms(1,6) by (auto simp: sv_flows_def writes_flow_def eng_sync_round_ok split: if_splits)
  then have t: "takeWhile (\<lambda>r. wq_seq r \<le> eg_synced e) (sv_pending s) = sv_pending s" by simp
  have c: "checkAndFulfill ?s = ?s'" using assms(1) by (simp add: checkAndFulfill_def Let_def sv_flows_def t)
  have "writer_drain hs 0 ?s' = Returns ?s'" using assms(2) by (subst writer_drain.simps) simp
  moreover have "\<not> batch_trigger ?s'" using assms(5) by (simp add: batch_trigger_def)
  ultimately have "writer_round hs ?s = Returns ?s'" using c assms(3) by (simp add: writer_round_def writer_work_def writer_batch_def)
  then show ?thesis using assms(2) by (simp add: sv_outcomes_def comp_def multiset.map_comp)
qed

section \<open>A server that only waits\<close>

text \<open>The writer and the sync thread go on, without a new request.\<close>

inductive sv_idle :: "server \<Rightarrow> server \<Rightarrow> bool" where
  start: "sv_idle s s"
| round: "sv_idle s s' \<Longrightarrow> writer_round hs s' = Returns s'' \<Longrightarrow> sv_idle s s''"
| sync: "sv_idle s s' \<Longrightarrow> eng_sync_round force io (sv_engine s') = Some e \<Longrightarrow> sv_idle s (s'\<lparr>sv_engine := e\<rparr>)"

definition stranded :: "write_request list \<Rightarrow> (write_request \<times> bool) list \<Rightarrow> server \<Rightarrow> bool" where
  "stranded ps as s \<longleftrightarrow> write_buf (eg_wal (sv_engine s)) = [] \<and> sv_queue s = [] \<and> sv_batch_queue s = [] \<and> sv_cas s = None \<and> \<not> eg_in_batch (sv_engine s)
     \<and> \<not> sv_commit_pending s \<and> ps \<noteq> [] \<and> eg_synced (sv_engine s) < wq_seq (hd ps) \<and> sv_pending s = ps \<and> sv_answers s = as"

lemma stranded_fulfill: "stranded ps as s \<Longrightarrow> checkAndFulfill s = s"
  by (cases ps) (auto simp: stranded_def checkAndFulfill_def Let_def eng_CommitBatchFinalize_def)

lemma stranded_round:
  assumes "stranded ps as s" and "writer_round hs s = Returns s'"
  shows "stranded ps as s'"
proof -
  have d: "writer_drain hs 0 s = Returns s" using assms(1) by (subst writer_drain.simps) (simp add: stranded_def)
  have s': "s' = writer_batch s"
    using assms(2) d by (simp add: writer_round_def writer_work_def stranded_fulfill [OF assms(1)] assms(1) [unfolded stranded_def])
  have b: "sv_batch_queue s = []" "\<not> sv_commit_pending s" using assms(1) by (simp_all add: stranded_def)
  have "writer_batch s = s"
  proof (cases "batch_trigger s")
    case True
    then have "writer_batch s = checkAndFulfill (s\<lparr>sv_batch_queue := [], sv_batch_bytes := sv_batch_bytes s, sv_engine := sv_engine s, sv_pending := sv_pending s\<rparr>)"
      by (simp add: writer_batch_def b)
    also have "\<dots> = checkAndFulfill s" using b by (cases s) simp
    finally show ?thesis using stranded_fulfill [OF assms(1)] by simp
  qed (simp add: writer_batch_def)
  then show ?thesis using assms(1) s' by simp
qed

lemma stranded_sync: "stranded ps as s \<Longrightarrow> eng_sync_round force io (sv_engine s) = Some e \<Longrightarrow> stranded ps as (s\<lparr>sv_engine := e\<rparr>)"
  by (auto simp: stranded_def eng_sync_round_def wal_Sync_def wal_Sync_begin_def)

lemma stranded_idle: "sv_idle s s' \<Longrightarrow> stranded ps as s \<Longrightarrow> stranded ps as s'"
  by (induction rule: sv_idle.induct) (blast intro: stranded_round stranded_sync)+

lemma sv_BatchAbort_written:
  assumes "sv_BatchAbort wal_io mf_io s = Some s'" and "eg_in_batch (sv_engine s)" and "eg_touched (sv_engine s)"
  shows "write_buf (eg_wal (sv_engine s')) = [] \<and> eg_synced (sv_engine s') = eg_synced (sv_engine s) \<and> \<not> eg_in_batch (sv_engine s')"
proof -
  let ?w = "wal_BufferAbort (eg_batch_ts (sv_engine s)) (eg_wal (sv_engine s))"
  obtain e ok where a: "eng_AbortBatch wal_io mf_io (sv_engine s) = (e, Inr ok)" and e: "sv_engine s' = e"
    using assms(1) by (auto simp: sv_BatchAbort_def Let_def split: prod.splits sum.splits)
  have "write_buf ?w \<noteq> []" by (simp add: wal_BufferAbort_def WriteSentinelRecord_def Let_def WriteUint32LE_def)
  moreover have "\<exists>w r. wal_Sync True wal_io ?w = (w, Inr r) \<and> eg_wal e = w \<and> eg_synced e = eg_synced (sv_engine s) \<and> \<not> eg_in_batch e"
    using a assms(2,3) by (auto simp: eng_AbortBatch_def Let_def split: prod.splits sum.splits option.splits)
  ultimately show ?thesis unfolding e by (cases wal_io) (auto simp: wal_Sync_def wal_Sync_defs Let_def)
qed

section \<open>A commit without a batch\<close>

text \<open>All that happens while no client begins or aborts a batch.\<close>

inductive sv_no_batch :: "server \<Rightarrow> server \<Rightarrow> bool" where
  start: "sv_no_batch s s"
| put: "sv_no_batch s t \<Longrightarrow> sv_Write c key val t = Some t' \<Longrightarrow> sv_no_batch s t'"
| delete: "sv_no_batch s t \<Longrightarrow> sv_Delete c key t = Some t' \<Longrightarrow> sv_no_batch s t'"
| async_put: "sv_no_batch s t \<Longrightarrow> sv_AsyncWrite c key val t = Some t' \<Longrightarrow> sv_no_batch s t'"
| async_delete: "sv_no_batch s t \<Longrightarrow> sv_AsyncDelete c key t = Some t' \<Longrightarrow> sv_no_batch s t'"
| cas: "sv_no_batch s t \<Longrightarrow> sv_CompareAndSwap c key expected desired t = Some t' \<Longrightarrow> sv_no_batch s t'"
| batch_write: "sv_no_batch s t \<Longrightarrow> sv_BatchWrite moved c key val t = Some t' \<Longrightarrow> sv_no_batch s t'"
| batch_commit: "sv_no_batch s t \<Longrightarrow> sv_no_batch s (sv_BatchCommit t)"
| round: "sv_no_batch s t \<Longrightarrow> writer_round hs t = Returns t' \<Longrightarrow> sv_no_batch s t'"
| cas_read: "sv_no_batch s t \<Longrightarrow> sv_cas_read hs t = Returns t' \<Longrightarrow> sv_no_batch s t'"
| sync: "sv_no_batch s t \<Longrightarrow> eng_sync_round force io (sv_engine t) = Some e \<Longrightarrow> sv_no_batch s (t\<lparr>sv_engine := e\<rparr>)"

definition shut :: "write_request list \<Rightarrow> server \<Rightarrow> bool" where
  "shut q s \<longleftrightarrow> sv_commit_pending s \<and> \<not> eg_in_batch (sv_engine s) \<and> (\<exists>q'. sv_queue s = q @ q')"

lemma shut_fulfill: "shut q s \<Longrightarrow> shut q (checkAndFulfill s)"
  by (auto simp: shut_def checkAndFulfill_def Let_def eng_CommitBatchFinalize_def split: option.splits)

lemma batch_exec_in_batch: "batch_exec rs e = (e', rs', ok) \<Longrightarrow> eg_in_batch e' = eg_in_batch e"
  by (induction rs e arbitrary: rs' rule: batch_exec.induct)
     (auto simp: eng_BatchInsert_def eng_BatchDelete_def split: outcome.splits prod.splits if_splits)

lemma shut_batch:
  assumes "shut q s"
  shows "shut q (writer_batch s)"
proof (cases "batch_trigger s")
  case True
  have cp: "sv_commit_pending s" using assms by (simp add: shut_def)
  obtain e mini ok where b: "batch_exec (sv_batch_queue s) (sv_engine s) = (e, mini, ok)" by (cases "batch_exec (sv_batch_queue s) (sv_engine s)") auto
  have e: "\<not> eg_in_batch e" using batch_exec_in_batch [OF b] assms by (simp add: shut_def)
  then have c: "eng_CommitBatchAsync e = None" by (simp add: eng_CommitBatchAsync_def)
  show ?thesis
  proof (cases ok)
    case True
    let ?s = "s\<lparr>sv_batch_queue := [], sv_batch_bytes := sv_batch_bytes s - sum_list (map req_bytes (sv_batch_queue s)), sv_engine := e, sv_pending := sv_pending s @ mini,
      sv_engine := e, sv_finalizing := True, sv_commit_requested := False\<rparr>"
    have "writer_batch s = checkAndFulfill ?s" using \<open>batch_trigger s\<close> cp b True c by (simp add: writer_batch_def Let_def)
    moreover have "shut q ?s" using assms e by (simp add: shut_def)
    ultimately show ?thesis by (simp only: shut_fulfill)
  next
    case False
    then show ?thesis using \<open>batch_trigger s\<close> cp b assms e by (simp add: writer_batch_def Let_def shut_def)
  qed
qed (use assms in \<open>simp add: writer_batch_def\<close>)

lemma shut_cas:
  assumes "shut q s" and "writer_cas hs pc current s = Returns s'"
  shows "shut q s'"
proof -
  have "eg_in_batch e' = eg_in_batch e" if "eng_Insert hs (pc_key pc) (pc_desired pc) e = Returns e'" for e e'
    using that by (auto simp: eng_Insert_def Let_def on_cache_def split: if_splits option.splits)
  then show ?thesis using assms by (auto simp: shut_def writer_cas_def Let_def sv_answer_def split: if_splits outcome.splits)
qed

lemma shut_round:
  assumes "shut q s" and "writer_round hs s = Returns s'"
  shows "shut q s'"
proof -
  have "shut q (checkAndFulfill s)" by (rule shut_fulfill [OF assms(1)])
  then have "writer_drain hs 0 (checkAndFulfill s) = Returns (checkAndFulfill s)" by (subst writer_drain.simps) (simp add: shut_def)
  then have "writer_work hs s = Returns (writer_batch (checkAndFulfill s))" by (simp add: writer_work_def)
  then show ?thesis using assms shut_batch [OF \<open>shut q (checkAndFulfill s)\<close>]
    by (auto simp: writer_round_def split: option.splits intro: shut_cas)
qed

lemma shut_push: "shut q s \<Longrightarrow> sv_push n r s = Some s' \<Longrightarrow> shut q s'"
  by (auto simp: sv_push_def shut_def split: if_splits)

lemma shut_no_batch: "sv_no_batch s t \<Longrightarrow> shut q s \<Longrightarrow> shut q t"
proof (induction rule: sv_no_batch.induct)
  case (put s t c key val t')
  show ?case by (rule shut_push [OF put.IH [OF put.prems] put.hyps(2) [unfolded sv_Write_def]])
next
  case (delete s t c key t')
  show ?case by (rule shut_push [OF delete.IH [OF delete.prems] delete.hyps(2) [unfolded sv_Delete_def]])
next
  case (async_put s t c key val t')
  show ?case by (rule shut_push [OF async_put.IH [OF async_put.prems] async_put.hyps(2) [unfolded sv_AsyncWrite_def]])
next
  case (async_delete s t c key t')
  show ?case by (rule shut_push [OF async_delete.IH [OF async_delete.prems] async_delete.hyps(2) [unfolded sv_AsyncDelete_def]])
next
  case (cas s t c key expected desired t')
  show ?case by (rule shut_push [OF cas.IH [OF cas.prems] cas.hyps(2) [unfolded sv_CompareAndSwap_def]])
next
  case (batch_write s t moved c key val t')
  then show ?case by (auto simp: sv_BatchWrite_def Let_def shut_def split: if_splits)
next
  case (round s t hs t')
  show ?case by (rule shut_round [OF round.IH [OF round.prems] round.hyps(2)])
next
  case (cas_read s t hs t')
  have "eg_in_batch e' = eg_in_batch e" if "eng_Lookup hs key e = Returns (e', v)" for key e e' v
    using that by (auto simp: eng_Lookup_def split: option.splits prod.splits if_splits)
  then show ?case using cas_read by (auto simp: sv_cas_read_def shut_def split: option.splits outcome.splits)
next
  case (sync s t force io e)
  then show ?case by (auto simp: shut_def eng_sync_round_def split: prod.splits sum.splits)
qed (simp_all add: sv_BatchCommit_def shut_def)

section \<open>Properties\<close>

text \<open>
  C2: an acknowledged write is in the log file. In every state that clients, the writer and the engine's threads can reach from a server on an opened engine, with any outcome of the file operations that
  does not end the process, the log file holds the record of each request (write, deletion or successful compare-and-swap, in a batch or not) that was answered with success.
\<close>
theorem server_acknowledged_write_is_logged:
  assumes "sv_reach s" and "(r, True) \<in> set (sv_answers s)"
  shows "\<exists>pre ts post. wal_file (eg_wal (sv_engine s)) = pre @ SerializeRecord [] (wq_key r) (if wq_is_delete r then [] else wq_value r) ts @ post"
proof -
  have "in_log_file r (sv_engine s)" using sv_reach_ok [OF assms(1)] assms(2) by (auto simp: acks_ok_def)
  then show ?thesis by (simp only: in_log_file_def req_rec_def)
qed

lemma mset_single_map: "mset (map f xs) = {#y#} \<Longrightarrow> \<exists>x. xs = [x] \<and> f x = y"
proof -
  assume m: "mset (map f xs) = {#y#}"
  have "size (mset (map f xs)) = size {#y#}" by (simp only: m)
  then have "length xs = 1" by simp
  then obtain x where "xs = [x]" by (cases xs) auto
  with m show ?thesis by simp
qed

lemma sv_run_one:
  assumes "eng_open bsz oi_all oc_small \<lparr>mf_file = []\<rparr> [] (\<lambda>_. None) = Some e"
  shows "\<exists>s r. sv_reach s \<and> sv_answers s = [(r, True)] \<and> wq_tag r = (3, [1], [2])"
proof -
  have e: "eg_in_batch e = False" "kc_ok (eg_kv e)" "log_seq e = 0"
    using assms eng_open_no_log [of "\<lparr>mf_file = []\<rparr>" "[]"] by (auto simp: mf_Recover_def kc_ok_new wal_open_def)
  let ?r = "wq_new 3 [1] [2]"
  let ?s = "(sv_new e)\<lparr>sv_bytes := 2, sv_queue := [?r]\<rparr>"
  have w: "sv_Write 3 [1] [2] (sv_new e) = Some ?s"
    by (simp add: sv_Write_def sv_push_def sv_new_def bsize_def kMaxWriteQueueBytes_def word_le_nat_alt)
  have v: "wq_valid ?r" by (simp add: wq_valid_def wq_new_def kMaxKeyBytes_def entry_size_def kMaxKeyValuePairBytes_def kMemTableEntryOverheadBytes_def)
  have f: "sv_flows ?s" "sv_cas ?s = None" "\<not> sv_commit_pending ?s" "\<not> batch_trigger ?s" "\<forall>r \<in> set (sv_queue ?s). \<not> wq_is_cas r" "sv_seq ?s + length (sv_queue ?s) < 2 ^ 64"
    using e by (simp_all add: sv_flows_def writes_flow_def sv_new_def batch_trigger_def kDefaultMiniBatchSize_def kMaxWriteQueueBytes_def wq_new_def word_le_nat_alt)
  obtain s1 where s1: "writer_round (\<lambda>_. 5) ?s = Returns s1" "sv_flows s1" "sv_outcomes s1 = sv_outcomes ?s" "sv_frame s1 = sv_frame ?s" "sv_queue s1 = []"
    "sv_seq s1 \<le> sv_seq ?s + length (sv_queue ?s)" using writer_round_flow [OF f] by blast
  obtain e1 where e1: "eng_sync_round True Io_ok (sv_engine s1) = Some e1" using eng_sync_round_ok by blast
  have f1: "sv_cas s1 = None" "\<not> sv_commit_pending s1" "\<not> batch_trigger s1" using f(2-4) s1(4) batch_trigger_frame [OF s1(4)] by (simp_all add: sv_frame_def)
  obtain s2 where s2: "writer_round (\<lambda>_. 5) (s1\<lparr>sv_engine := e1\<rparr>) = Returns s2" "sv_pending s2 = []" "sv_queue s2 = []" "sv_outcomes s2 = sv_outcomes s1"
    using sync_then_round [OF s1(2,5) f1 e1] by blast
  have "sv_batch_queue s1 = []" "log_seq e1 = log_seq (sv_engine s1)" "sv_seq s1 \<le> 1"
    using s1(4,6) e1 e(3) by (auto simp: sv_frame_def sv_new_def eng_sync_round_ok)
  then have n: "sv_seq (s1\<lparr>sv_engine := e1\<rparr>) + length (sv_queue (s1\<lparr>sv_engine := e1\<rparr>)) + length (sv_batch_queue (s1\<lparr>sv_engine := e1\<rparr>)) + 1 < 2 ^ 64"
    using s1(5) by simp
  have "sv_reach ?s" by (rule sv_reach.step [OF sv_reach.started [OF assms] sv_step.put [OF w]])
  then have "sv_reach s1" by (rule sv_reach.step [OF _ sv_step.round [OF s1(1)]]) (use e in \<open>simp add: sv_new_def\<close>)
  then have "sv_reach (s1\<lparr>sv_engine := e1\<rparr>)" by (rule sv_reach.step [OF _ sv_step.sync [OF e1]])
  then have "sv_reach s2" by (rule sv_reach.step [OF _ sv_step.round [OF s2(1) n]])
  moreover have "sv_outcomes s2 = {#((3, [1], [2]), True)#}" using s2(4) s1(3) v by (simp add: sv_outcomes_def sv_new_def wq_tag_def wq_new_def)
  then have "\<exists>x. sv_answers s2 = [x] \<and> (\<lambda>(r, ok). (wq_tag r, ok)) x = ((3, [1], [2]), True)"
    using s2(2,3) by (intro mset_single_map) (simp add: sv_outcomes_def)
  ultimately show ?thesis by auto
qed

theorem server_acknowledged_write_is_logged_witness:
  "\<exists>(s :: server) r pre ts post. (r, True) \<in> set (sv_answers s) \<and> wal_file (eg_wal (sv_engine s)) = pre @ SerializeRecord [] (wq_key r) (if wq_is_delete r then [] else wq_value r) ts @ post"
proof -
  obtain e where "eng_open (\<lambda>n. (10, 7)) oi_all oc_small \<lparr>mf_file = []\<rparr> [] (\<lambda>_. None) = Some e"
    using eng_open_no_log [of "\<lparr>mf_file = []\<rparr>" "[]"] by (auto simp: mf_Recover_def)
  then obtain s r where s: "sv_reach s" "sv_answers s = [(r, True)]" using sv_run_one by blast
  then have r: "(r, True) \<in> set (sv_answers s)" by simp
  show ?thesis by (rule exI [of _ s], rule exI [of _ r]) (use r server_acknowledged_write_is_logged [OF s(1) r] in simp)
qed

text \<open>
  C24: the writer neither loses nor duplicates a request. A round moves requests between the queue, the requests deferred by a compare-and-swap, the compare-and-swap, the queue of the batch, the writes
  that wait for the log, and the answers; all together they stay the same, also when the engine refuses a request or a batch.
\<close>
theorem server_round_conserves_requests:
  assumes "writer_round hs s = Returns s'"
  shows "sv_requests s' = sv_requests s"
  by (rule writer_round_requests [OF assms])

theorem server_round_conserves_requests_witness:
  "\<exists>s'. writer_round (\<lambda>_. 5) ((sv_new (eng_fresh 4000))\<lparr>sv_queue := [wq_new 3 [1] [2]]\<rparr>) = Returns s' \<and> sv_queue s' = [] \<and> sv_requests s' = {#(3, [1], [2])#}"
proof -
  let ?s = "(sv_new (eng_fresh 4000))\<lparr>sv_queue := [wq_new 3 [1] [2]]\<rparr>"
  have f: "sv_flows ?s" "sv_cas ?s = None" "\<not> sv_commit_pending ?s" "\<not> batch_trigger ?s" "\<forall>r \<in> set (sv_queue ?s). \<not> wq_is_cas r" "sv_seq ?s + length (sv_queue ?s) < 2 ^ 64"
    using eng_fresh_kv(1) [of 4000]
    by (simp_all add: sv_flows_def writes_flow_def sv_new_def batch_trigger_def kDefaultMiniBatchSize_def kMaxWriteQueueBytes_def wq_new_def word_le_nat_alt eng_fresh_def wal_open_def)
  obtain s1 where s1: "writer_round (\<lambda>_. 5) ?s = Returns s1" "sv_queue s1 = []" using writer_round_flow [OF f] by blast
  from server_round_conserves_requests [OF s1(1)] s1 show ?thesis by (simp add: sv_requests_def sv_new_def wq_tag_def wq_new_def)
qed

text \<open>
  C22: every write gets an answer. While no batch is open, no commit is pending or being finalized and no batch work is due, no request waits for a sync and no compare-and-swap is
  under way or in the queue, and as long as the sequence numbers do not run out and the key-value cache is intact, one round of the writer takes all requests, a forced round of the sync thread that does
  not fail follows, and another round of the writer answers them: success for each request within the size limits, failure for the others, one answer for each.
\<close>
theorem server_writes_get_answered:
  assumes "\<not> eg_in_batch (sv_engine s)" and "kc_ok (eg_kv (sv_engine s))" and "sv_pending s = []" and "\<not> sv_finalizing s" and "sv_cas s = None"
    and "\<not> sv_commit_pending s" and "\<not> batch_trigger s" and "\<forall>r \<in> set (sv_queue s). \<not> wq_is_cas r"
    and "unat (batch_seq (eg_wal (sv_engine s))) + length (sv_queue s) < 2 ^ 64"
  shows "\<exists>s1 e s2. writer_round hs s = Returns s1 \<and> eng_sync_round True Io_ok (sv_engine s1) = Some e \<and> writer_round hs (s1\<lparr>sv_engine := e\<rparr>) = Returns s2
    \<and> sv_queue s2 = [] \<and> sv_pending s2 = []
    \<and> mset (map (\<lambda>(r, ok). (wq_tag r, ok)) (sv_answers s2))
      = mset (map (\<lambda>(r, ok). (wq_tag r, ok)) (sv_answers s)) + mset (map (\<lambda>r. (wq_tag r, wq_valid r)) (sv_queue s))"
proof -
  have "sv_flows s" using assms(1-4) by (simp add: sv_flows_def writes_flow_def)
  then obtain s1 where s1: "writer_round hs s = Returns s1" "sv_flows s1" "sv_outcomes s1 = sv_outcomes s" "sv_frame s1 = sv_frame s" "sv_queue s1 = []"
    using writer_round_flow [OF _ assms(5-9)] by blast
  obtain e where e: "eng_sync_round True Io_ok (sv_engine s1) = Some e" using eng_sync_round_ok by blast
  have f1: "sv_cas s1 = None" "\<not> sv_commit_pending s1" "\<not> batch_trigger s1" using assms(5-7) s1(4) batch_trigger_frame [OF s1(4)] by (simp_all add: sv_frame_def)
  obtain s2 where s2: "writer_round hs (s1\<lparr>sv_engine := e\<rparr>) = Returns s2" "sv_pending s2 = []" "sv_queue s2 = []" "sv_outcomes s2 = sv_outcomes s1"
    using sync_then_round [OF s1(2,5) f1 e] by blast
  have "sv_outcomes s2 = sv_outcomes s" using s2(4) s1(3) by simp
  then have "mset (map (\<lambda>(r, ok). (wq_tag r, ok)) (sv_answers s2))
      = mset (map (\<lambda>(r, ok). (wq_tag r, ok)) (sv_answers s)) + mset (map (\<lambda>r. (wq_tag r, wq_valid r)) (sv_queue s))"
    using s2(2,3) assms(3) by (simp add: sv_outcomes_def)
  with s1(1) e s2(1-3) show ?thesis by blast
qed

theorem server_writes_get_answered_witness:
  "\<exists>s1 e s2. writer_round (\<lambda>_. 5) ((sv_new (eng_fresh 4000))\<lparr>sv_queue := [wq_new 3 [1] [2], wq_new 4 (replicate 5000 0) []]\<rparr>) = Returns s1
    \<and> eng_sync_round True Io_ok (sv_engine s1) = Some e \<and> writer_round (\<lambda>_. 5) (s1\<lparr>sv_engine := e\<rparr>) = Returns s2
    \<and> mset (map (\<lambda>(r, ok). (wq_tag r, ok)) (sv_answers s2)) = {#((3, [1], [2]), True), ((4, replicate 5000 0, []), False)#}"
proof -
  let ?s = "(sv_new (eng_fresh 4000))\<lparr>sv_queue := [wq_new 3 [1] [2], wq_new 4 (replicate 5000 0) []]\<rparr>"
  have v: "wq_valid (wq_new 3 [1] [2])" "\<not> wq_valid (wq_new 4 (replicate 5000 0) [])"
    by (simp_all add: wq_valid_def wq_new_def kMaxKeyBytes_def entry_size_def kMaxKeyValuePairBytes_def kMemTableEntryOverheadBytes_def)
  have t: "wq_tag (wq_new 3 [1] [2]) = (3, [1], [2])" "wq_tag (wq_new 4 (replicate 5000 0) []) = (4, replicate 5000 0, [])"
    by (simp_all add: wq_tag_def wq_new_def)
  have "\<exists>s1 e s2. writer_round (\<lambda>_. 5) ?s = Returns s1 \<and> eng_sync_round True Io_ok (sv_engine s1) = Some e \<and> writer_round (\<lambda>_. 5) (s1\<lparr>sv_engine := e\<rparr>) = Returns s2
    \<and> sv_queue s2 = [] \<and> sv_pending s2 = []
    \<and> mset (map (\<lambda>(r, ok). (wq_tag r, ok)) (sv_answers s2))
      = mset (map (\<lambda>(r, ok). (wq_tag r, ok)) (sv_answers ?s)) + mset (map (\<lambda>r. (wq_tag r, wq_valid r)) (sv_queue ?s))"
    by (rule server_writes_get_answered)
       (use eng_fresh_kv(1) [of 4000] in \<open>simp_all add: sv_new_def eng_fresh_def wal_open_def batch_trigger_def kDefaultMiniBatchSize_def kMaxWriteQueueBytes_def word_le_nat_alt wq_new_def\<close>)
  then show ?thesis by (simp add: v t sv_new_def) (metis add_mset_commute)
qed

text \<open>
  an abort leaves other writes without an answer. \<open>AbortBatch\<close> writes the whole buffer of the log to the file but does not publish the sequence number, and the sync thread, which finds the
  buffer empty, does not either. A write that waited in that buffer, of whatever client, is in the file, but is not answered however many rounds the writer and the sync thread make, until
  something new is logged.
\<close>
theorem server_abort_strands_writes:
  assumes "sv_reach s" and "sv_pending s = r # ps" and "eg_synced (sv_engine s) < wq_seq r"
    and "sv_queue s = []" and "sv_cas s = None" and "eg_in_batch (sv_engine s)" and "eg_touched (sv_engine s)"
    and "sv_BatchAbort wal_io mf_io s = Some s1" and "sv_idle s1 s2"
  shows "sv_pending s2 = r # ps \<and> sv_answers s2 = sv_answers s
    \<and> (\<exists>pre ts post. wal_file (eg_wal (sv_engine s1)) = pre @ SerializeRecord [] (wq_key r) (if wq_is_delete r then [] else wq_value r) ts @ post)"
proof -
  note w = sv_BatchAbort_written [OF assms(8,6,7)]
  obtain e ok where a: "eng_AbortBatch wal_io mf_io (sv_engine s) = (e, Inr ok)" and e: "sv_engine s1 = e"
    and f: "sv_queue s1 = sv_queue s" "sv_batch_queue s1 = []" "sv_cas s1 = sv_cas s" "\<not> sv_commit_pending s1"
      "sv_pending s1 = sv_pending s" "sv_answers s1 = sv_answers s"
    using assms(8) by (auto simp: sv_BatchAbort_def Let_def split: prod.splits sum.splits)
  have "stranded (r # ps) (sv_answers s) s1" using assms(2-5) w f by (simp add: stranded_def)
  then have "stranded (r # ps) (sv_answers s) s2" using assms(9) by (blast intro: stranded_idle)
  moreover have "in_log_file r (sv_engine s1)"
  proof -
    have "logged (wq_seq r) r (sv_engine s)" using sv_reach_ok [OF assms(1)] assms(2) by (simp add: acks_ok_def)
    then have "logged (wq_seq r) r e" by (rule logged_grows [OF _ log_grows_AbortBatch [OF a]])
    moreover have "write_buf (eg_wal e) = []" using w e by simp
    ultimately show ?thesis unfolding e logged_def in_log_file_def by auto
  qed
  ultimately show ?thesis by (simp only: stranded_def in_log_file_def req_rec_def)
qed

lemma round_one:
  assumes "sv_cas s = None" and "\<not> sv_commit_pending s" and "\<not> sv_finalizing s" and "sv_queue s = [r]" and "sv_pending s = []" and "\<not> batch_trigger s"
    and "\<not> wq_is_cas r" and "\<not> wq_is_delete r" and "eng_Insert hs (wq_key r) (wq_value r) (sv_engine s) = Returns e" and "eg_synced e < log_seq e"
  shows "writer_round hs s = Returns (s\<lparr>sv_queue := [], sv_bytes := sv_bytes s - req_bytes r, sv_engine := e, sv_pending := [sv_done r e]\<rparr>)"
proof -
  have c: "checkAndFulfill s = s" using assms(3,5) by (cases s) (simp add: checkAndFulfill_def)
  let ?s = "s\<lparr>sv_queue := [], sv_bytes := sv_bytes s - req_bytes r, sv_engine := e, sv_pending := [sv_done r e]\<rparr>"
  have "checkAndFulfill ?s = ?s" using assms(3,10) by (simp add: checkAndFulfill_def Let_def sv_done_def wal_CurrentBatchSeq_def)
  then have "writer_one hs r (s\<lparr>sv_queue := [], sv_bytes := sv_bytes s - req_bytes r\<rparr>) = Returns ?s" using assms(5,8,9) by (simp add: writer_one_def)
  then have "writer_drain hs 0 s = writer_drain hs 0 ?s" using assms(1,2,4,7) by (subst writer_drain.simps) (simp add: cas_busy_on_def)
  also have "\<dots> = Returns ?s" using assms(2) by (subst writer_drain.simps) simp
  finally have "writer_drain hs 0 s = Returns ?s" .
  moreover have "\<not> batch_trigger ?s" using assms(6) by (simp add: batch_trigger_def)
  ultimately show ?thesis using assms(1) c by (simp add: writer_round_def writer_work_def writer_batch_def)
qed

lemma round_commit:
  assumes "sv_cas s = None" and "sv_commit_pending s" and "sv_commit_requested s" and "\<not> sv_finalizing s" and "sv_pending s = r # ps" and "sv_batch_queue s = [b]"
    and "wq_is_delete b" and "eng_BatchDelete (wq_key b) (sv_engine s) = Returns e" and "eng_CommitBatchAsync e = Some e'"
    and "eg_synced (sv_engine s) < wq_seq r" and "eg_synced e' < wq_seq r" and "eg_synced e' < eg_commit_seq e'"
  shows "writer_round hs s = Returns (s\<lparr>sv_batch_queue := [], sv_batch_bytes := sv_batch_bytes s - req_bytes b, sv_engine := e', sv_pending := r # ps @ [sv_done b e],
    sv_finalizing := True, sv_commit_requested := False\<rparr>)"
proof -
  have c: "checkAndFulfill s = s" using assms(4,5,10) by (cases s) (simp add: checkAndFulfill_def Let_def)
  have "writer_drain hs 0 s = Returns s" using assms(2) by (subst writer_drain.simps) simp
  moreover have "writer_batch s = s\<lparr>sv_batch_queue := [], sv_batch_bytes := sv_batch_bytes s - req_bytes b, sv_engine := e', sv_pending := r # ps @ [sv_done b e],
    sv_finalizing := True, sv_commit_requested := False\<rparr>"
    using assms(2-12) by (simp add: writer_batch_def batch_trigger_def checkAndFulfill_def eng_CommitBatchFinalize_def Let_def)
  ultimately show ?thesis using assms(1) c by (simp add: writer_round_def writer_work_def)
qed

theorem server_abort_strands_writes_witness:
  "\<exists>(s :: server) r ps s1. eg_synced (sv_engine s) < wq_seq r \<and> sv_BatchAbort Io_ok Io_ok s = Some s1 \<and> sv_pending s1 = r # ps \<and> wq_key r = [1]
     \<and> (\<forall>s2. sv_idle s1 s2 \<longrightarrow> sv_pending s2 = r # ps)"
proof -
  obtain e0 where o: "eng_open (\<lambda>n. (10, 7)) oi_all oc_small \<lparr>mf_file = []\<rparr> [] (\<lambda>_. None) = Some e0"
    and e0: "\<not> eg_in_batch e0" "eg_global_ts e0 = 0" "eg_gap e0 = 10" "kc_ok (eg_kv e0)" "log_seq e0 = 0" "eg_synced e0 = 0"
    using eng_open_no_log [of "\<lparr>mf_file = []\<rparr>" "[]"] by (auto simp: mf_Recover_def kc_ok_new wal_open_def)
  let ?r = "wq_new 3 [1] [2]"
  let ?b = "(wq_new 4 [5] [6])\<lparr>wq_is_delete := True, wq_is_batch := True\<rparr>"
  obtain e1 where b1: "eng_StartBatch e0 = Some e1" and e1: "eg_in_batch e1" "eg_batch_ts e1 = 10" "eg_global_ts e1 = 0" "kc_ok (eg_kv e1)" "log_seq e1 = 0" "eg_synced e1 = 0"
    using e0 by (simp add: eng_StartBatch_def Let_def wal_BufferBatchBegin_def)
  obtain c where "kc_Put (\<lambda>_. 5) [1] [2] 1 (eg_kv e1) = Some c" using kc_ops_return(1) [OF e1(4)] by blast
  then obtain e2 where i: "eng_Insert (\<lambda>_. 5) [1] [2] e1 = Returns e2" and e2: "eg_in_batch e2"
    using e1 by (auto simp: eng_Insert_def Let_def on_cache_def eng_blocked_def entry_size_def kMaxKeyBytes_def kMaxKeyValuePairBytes_def kMemTableEntryOverheadBytes_def)
  have a2: "log_appends ?r e1 e2" by (rule log_appends_ops(1) [of "\<lambda>_. 5"]) (simp_all add: i wq_new_def)
  then have s2: "log_seq e2 = 1" "eg_synced e2 = 0" using e1(5,6) by (auto simp: log_appends_def)
  obtain e3 where d: "eng_BatchDelete [5] e2 = Returns e3" and e3: "eg_in_batch e3" "eg_touched e3" using e2 by (simp add: eng_BatchDelete_def kMaxKeyBytes_def)
  have a3: "log_appends ?b e2 e3" by (rule log_appends_ops(4)) (simp_all add: d wq_new_def)
  then have s3: "log_seq e3 = 2" "eg_synced e3 = 0" using s2 by (auto simp: log_appends_def)
  obtain e4 where c: "eng_CommitBatchAsync e3 = Some e4" and e4: "eg_in_batch e4" "eg_touched e4" "eg_synced e4 = 0" "eg_commit_seq e4 = 3" "log_seq e4 = 3"
    using e3 s3 by (simp add: eng_CommitBatchAsync_def Let_def wal_BufferBatchCommit_def wal_CurrentBatchSeq_def)
  let ?t1 = "(sv_new e0)\<lparr>sv_engine := e1\<rparr>"
  let ?t2 = "?t1\<lparr>sv_bytes := 2, sv_queue := [?r]\<rparr>"
  let ?t3 = "?t2\<lparr>sv_queue := [], sv_bytes := sv_bytes ?t2 - req_bytes ?r, sv_engine := e2, sv_pending := [sv_done ?r e2]\<rparr>"
  let ?t4 = "?t3\<lparr>sv_batch_bytes := 66, sv_batch_queue := [?b]\<rparr>"
  let ?t5 = "sv_BatchCommit ?t4"
  let ?t6 = "?t5\<lparr>sv_batch_queue := [], sv_batch_bytes := sv_batch_bytes ?t5 - req_bytes ?b, sv_engine := e4, sv_pending := sv_done ?r e2 # [] @ [sv_done ?b e3],
    sv_finalizing := True, sv_commit_requested := False\<rparr>"
  have q: "wq_seq (sv_done ?r e2) = 1" using s2(1) by (simp add: sv_done_def wal_CurrentBatchSeq_def)
  have "sv_BatchBegin (sv_new e0) = (?t1, True)" using b1 by (simp add: sv_BatchBegin_def sv_new_def)
  from sv_step.batch_begin [OF this] e0(5) have r1: "sv_reach ?t1" by (intro sv_reach.step [OF sv_reach.started [OF o]]) (simp add: sv_new_def)
  have "sv_Write 3 [1] [2] ?t1 = Some ?t2" by (simp add: sv_Write_def sv_push_def sv_new_def bsize_def kMaxWriteQueueBytes_def word_le_nat_alt)
  then have r2: "sv_reach ?t2" by (intro sv_reach.step [OF r1] sv_step.put)
  have "writer_round (\<lambda>_. 5) ?t2 = Returns ?t3"
    by (rule round_one) (use i s2 in \<open>simp_all add: sv_new_def wq_new_def batch_trigger_def kDefaultMiniBatchSize_def kMaxWriteQueueBytes_def word_le_nat_alt\<close>)
  from sv_step.round [OF this] e1(5) have r3: "sv_reach ?t3" by (intro sv_reach.step [OF r2]) (simp add: sv_new_def)
  have "sv_BatchWrite [] 4 [5] [6] ?t3 = Some ?t4" by (simp add: sv_BatchWrite_def sv_new_def bsize_def kMaxWriteQueueBytes_def word_le_nat_alt)
  then have r4: "sv_reach ?t4" by (intro sv_reach.step [OF r3] sv_step.batch_write)
  have r5: "sv_reach ?t5" by (intro sv_reach.step [OF r4] sv_step.batch_commit)
  have "writer_round (\<lambda>_. 5) ?t5 = Returns ?t6"
    by (rule round_commit) (use d c e4 s2 q in \<open>simp_all add: sv_new_def sv_BatchCommit_def wq_new_def\<close>)
  from sv_step.round [OF this] s2(1) have r6: "sv_reach ?t6" by (intro sv_reach.step [OF r5]) (simp add: sv_new_def sv_BatchCommit_def)
  obtain e5 where a: "eng_AbortBatch Io_ok Io_ok e4 = (e5, Inr True)" using eng_AbortBatch_ok [OF e4(1)] by blast
  let ?t7 = "?t6\<lparr>sv_batch_bytes := sv_batch_bytes ?t6, sv_batch_queue := [], sv_commit_pending := False, sv_commit_requested := False, sv_engine := e5\<rparr>"
  have ab: "sv_BatchAbort Io_ok Io_ok ?t6 = Some ?t7" using a by (simp add: sv_BatchAbort_def Let_def)
  have "sv_pending s2 = [sv_done ?r e2, sv_done ?b e3]" if "sv_idle ?t7 s2" for s2
  proof -
    from server_abort_strands_writes [OF r6 _ _ _ _ _ _ ab that, of "sv_done ?r e2" "[sv_done ?b e3]"] q e4 show ?thesis
      by (simp add: sv_new_def sv_BatchCommit_def)
  qed
  moreover have "wq_key (sv_done ?r e2) = [1]" by (simp add: sv_done_def wq_new_def)
  moreover have "eg_synced (sv_engine ?t6) < wq_seq (sv_done ?r e2)" using q e4(3) by simp
  moreover have "sv_pending ?t7 = [sv_done ?r e2, sv_done ?b e3]" by simp
  ultimately show ?thesis using ab by blast
qed

text \<open>
  a commit without a batch stops all writes. The server marks the commit as pending without a look at the engine; the writer takes no request while the mark is set, and only the end of a
  batch resets it. Until a client begins or aborts a batch, nothing leaves the queue, whatever the clients, the writer and the sync thread do.
\<close>
theorem server_commit_without_batch_blocks:
  assumes "\<not> eg_in_batch (sv_engine s)" and "sv_no_batch (sv_BatchCommit s) s'"
  shows "sv_commit_pending s' \<and> (\<exists>q. sv_queue s' = sv_queue s @ q)"
  using shut_no_batch [OF assms(2), of "sv_queue s"] assms(1) by (simp add: shut_def sv_BatchCommit_def)

theorem server_commit_without_batch_blocks_witness:
  "\<exists>s1 s2. sv_Write 3 [1] [2] (sv_BatchCommit (sv_new (eng_fresh 4000))) = Some s1 \<and> writer_round (\<lambda>_. 5) s1 = Returns s2
    \<and> sv_commit_pending s2 \<and> sv_queue s2 \<noteq> []"
proof -
  let ?s = "(sv_new (eng_fresh 4000))"
  obtain s1 where w: "sv_Write 3 [1] [2] (sv_BatchCommit ?s) = Some s1" and q: "sv_queue s1 = [wq_new 3 [1] [2]]" "sv_cas s1 = None" "sv_commit_pending s1" "\<not> eg_in_batch (sv_engine s1)"
    by (simp add: sv_Write_def sv_push_def sv_new_def sv_BatchCommit_def bsize_def kMaxWriteQueueBytes_def word_le_nat_alt eng_fresh_def)
  have "shut (sv_queue s1) (checkAndFulfill s1)" by (rule shut_fulfill) (simp add: shut_def q)
  then have "writer_drain (\<lambda>_. 5) 0 (checkAndFulfill s1) = Returns (checkAndFulfill s1)" by (subst writer_drain.simps) (simp add: shut_def)
  then obtain s2 where r: "writer_round (\<lambda>_. 5) s1 = Returns s2" by (simp add: writer_round_def q(2) writer_work_def)
  note n = sv_no_batch.put [OF sv_no_batch.start w]
  have "\<not> eg_in_batch (sv_engine (s1\<lparr>sv_commit_pending := True\<rparr>))" using q(4) by simp
  have b: "\<not> eg_in_batch (sv_engine ?s)" by (simp add: sv_new_def eng_fresh_def)
  have "sv_commit_pending s2" using server_commit_without_batch_blocks [OF b sv_no_batch.round [OF n r]] by simp
  moreover have "sv_queue s2 \<noteq> []"
    using shut_round [OF _ r, of "sv_queue s1"] q by (auto simp: shut_def)
  ultimately show ?thesis using w r by blast
qed

text \<open>
  a write of a batch deletes its key. The server reads the value after it has moved it into the request; where a string is empty after the move, every write of a batch is marked as a deletion, and the
  writer calls \<open>BatchDelete\<close> for it, whatever its value.
\<close>
theorem server_batch_write_deletes:
  assumes "sv_BatchWrite [] c key val s = Some s'" and "length key \<le> kMaxKeyBytes"
  shows "\<exists>r. sv_batch_queue s' = sv_batch_queue s @ [r] \<and> wq_value r = val
    \<and> (\<forall>e. \<exists>e'. eng_BatchDelete key e = Returns e' \<and> batch_exec [r] e = (e', [sv_done r e'], True))"
proof -
  let ?r = "(wq_new c key val)\<lparr>wq_is_delete := True, wq_is_batch := True\<rparr>"
  have "sv_batch_queue s' = sv_batch_queue s @ [?r]" using assms(1) by (auto simp: sv_BatchWrite_def Let_def split: if_splits)
  moreover have "\<exists>e'. eng_BatchDelete key e = Returns e' \<and> batch_exec [?r] e = (e', [sv_done ?r e'], True)" for e
    using assms(2) by (simp add: eng_BatchDelete_def wq_new_def)
  moreover have "wq_value ?r = val" by (simp add: wq_new_def)
  ultimately show ?thesis by blast
qed

theorem server_batch_write_deletes_witness:
  "\<exists>s' r. sv_BatchWrite [] 3 [1] [2] (sv_new (eng_fresh 4000)) = Some s' \<and> sv_batch_queue s' = [r] \<and> wq_value r = [2]
    \<and> (\<exists>e'. eng_BatchDelete [1] (eng_fresh 4000) = Returns e' \<and> batch_exec [r] (eng_fresh 4000) = (e', [sv_done r e'], True))"
proof -
  obtain s' where w: "sv_BatchWrite [] 3 [1] [2] (sv_new (eng_fresh 4000)) = Some s'"
    by (simp add: sv_BatchWrite_def sv_new_def bsize_def kMaxWriteQueueBytes_def word_le_nat_alt)
  have "length [1 :: 8 word] \<le> kMaxKeyBytes" by (simp add: kMaxKeyBytes_def)
  from server_batch_write_deletes [OF w this] w show ?thesis by (auto simp: sv_new_def)
qed

text \<open>
  the byte counter of the queue wraps. A deletion adds 64 to the counter, but the writer subtracts the length of the key. After the deletion of a longer key on an idle server the
  counter has wrapped below zero, and every smaller write waits for room although the queue is empty.
\<close>
theorem server_delete_wraps_counter:
  assumes "sv_Delete c key s = Some s1" and "sv_bytes s = 0" and "sv_queue s = []" and "64 < length key" and "length key \<le> kMaxKeyBytes" and "sv_max_bytes s = kMaxWriteQueueBytes"
    and "\<not> eg_in_batch (sv_engine s)" and "kc_ok (eg_kv (sv_engine s))" and "sv_pending s = []" and "\<not> sv_finalizing s" and "sv_cas s = None"
    and "\<not> sv_commit_pending s" and "\<not> batch_trigger s" and "unat (batch_seq (eg_wal (sv_engine s))) + 1 < 2 ^ 64"
  shows "\<exists>s2. writer_round hs s1 = Returns s2 \<and> sv_queue s2 = [] \<and> unat (sv_bytes s2) = 2 ^ 64 - (length key - 64)
    \<and> (\<forall>d k v. length k + length v + 64 < length key \<longrightarrow> sv_Write d k v s2 = None)"
proof -
  let ?r = "(wq_new c key [])\<lparr>wq_is_delete := True\<rparr>"
  have s1: "s1 = s\<lparr>sv_bytes := 64, sv_queue := [?r]\<rparr>" using assms(1-3) by (auto simp: sv_Delete_def sv_push_def split: if_splits)
  have f: "sv_flows s1" "sv_cas s1 = None" "\<not> sv_commit_pending s1" "\<not> batch_trigger s1" "\<forall>r \<in> set (sv_queue s1). \<not> wq_is_cas r" "sv_seq s1 + length (sv_queue s1) < 2 ^ 64"
    using assms(7-14) by (simp_all add: s1 sv_flows_def writes_flow_def batch_trigger_def wq_new_def)
  obtain s2 where s2: "writer_round hs s1 = Returns s2" "sv_queue s2 = []" "sv_bytes s2 = sv_bytes s1 - sum_list (map req_bytes (sv_queue s1))" "sv_frame s2 = sv_frame s1"
    using writer_round_flow [OF f] by blast
  have l: "length key \<le> 1024" using assms(5) by (simp add: kMaxKeyBytes_def)
  have b: "sv_bytes s2 = - (of_nat (length key - 64))"
    using s2(3) assms(4) by (simp add: s1 req_bytes_def bsize_def wq_new_def of_nat_diff)
  have n: "unat (sv_bytes s2) = 2 ^ 64 - (length key - 64)"
  proof -
    have "sv_bytes s2 = of_nat (2 ^ 64 - (length key - 64))" using l by (simp add: b of_nat_diff)
    then have "unat (sv_bytes s2) = (2 ^ 64 - (length key - 64)) mod 2 ^ LENGTH(64)" by (simp only: unat_of_nat)
    then show ?thesis using assms(4) by simp
  qed
  have m: "sv_max_bytes s2 = kMaxWriteQueueBytes" using s2(4) assms(6) by (simp add: sv_frame_def s1)
  have "sv_Write d k v s2 = None" if "length k + length v + 64 < length key" for d k v
  proof -
    have z: "unat (bsize k + bsize v) = length k + length v" using that l by (simp add: bsize_def unat_word_ariths unat_of_nat)
    then have "unat (sv_bytes s2 + (bsize k + bsize v)) = 2 ^ 64 - (length key - 64) + (length k + length v)"
      using n that l by (simp add: unat_word_ariths(1) z)
    then have "\<not> sv_bytes s2 + (bsize k + bsize v) \<le> sv_max_bytes s2" using l by (simp add: m kMaxWriteQueueBytes_def word_le_nat_alt)
    then show ?thesis by (simp add: sv_Write_def sv_push_def)
  qed
  with s2(1,2) n show ?thesis by blast
qed

theorem server_delete_wraps_counter_witness:
  "\<exists>s1 s2. sv_Delete 3 (replicate 100 7) (sv_new (eng_fresh 4000)) = Some s1 \<and> writer_round (\<lambda>_. 5) s1 = Returns s2 \<and> sv_queue s2 = [] \<and> sv_Write 4 [1] [2] s2 = None"
proof -
  obtain s1 where d: "sv_Delete 3 (replicate 100 7) (sv_new (eng_fresh 4000)) = Some s1"
    by (simp add: sv_Delete_def sv_push_def sv_new_def kMaxWriteQueueBytes_def word_le_nat_alt)
  have "\<exists>s2. writer_round (\<lambda>_. 5) s1 = Returns s2 \<and> sv_queue s2 = [] \<and> unat (sv_bytes s2) = 2 ^ 64 - (length (replicate 100 7 :: bytes) - 64)
    \<and> (\<forall>d k v. length k + length v + 64 < length (replicate 100 7 :: bytes) \<longrightarrow> sv_Write d k v s2 = None)"
    by (rule server_delete_wraps_counter [OF d])
       (use eng_fresh_kv(1) [of 4000] in \<open>simp_all add: kMaxKeyBytes_def sv_new_def eng_fresh_def wal_open_def batch_trigger_def kDefaultMiniBatchSize_def kMaxWriteQueueBytes_def word_le_nat_alt\<close>)
  then obtain s2 where s2: "writer_round (\<lambda>_. 5) s1 = Returns s2" "sv_queue s2 = []"
    and w: "\<And>d k v. length k + length v + 64 < length (replicate 100 7 :: bytes) \<Longrightarrow> sv_Write d k v s2 = None" by blast
  have "sv_Write 4 [1] [2] s2 = None" by (rule w) simp
  with d s2 show ?thesis by blast
qed

end
