(* ===== verification/Level_Iter.thy ===== *)
theory Level_Iter
  imports Iterators
begin

text \<open>
  \<open>LevelIterator\<close> (\<^verbatim>\<open>include/kvdb/iterator.hpp\<close>), which chains the tables of one level. Each table is read by an \<open>SSTableIterator\<close> of its own
  (\<open>Iterators\<close>), opened when the one before it is used up. An iterator opens a table at most once, so each of them starts from
  the cache as it was when the level iterator was made.
\<close>

section \<open>Operations\<close>

record level_iter =
  li_files :: "SstMetadata list"
  li_idx :: nat
  li_disk :: "bytes \<Rightarrow> bytes option"
  li_reader :: "block_cache option"
  li_current :: "sst_iter option"

definition table_iter :: "(bytes \<Rightarrow> bytes option) \<Rightarrow> block_cache option \<Rightarrow> SstMetadata \<Rightarrow> sst_iter" where
  "table_iter disk reader m = it_new (disk (md_filepath m)) reader (manifest_seq m) True (aborted_batch_ts m)"

definition table_index :: "SstMetadata \<Rightarrow> (u64 list \<times> bytes) option" where
  "table_index m = Some (md_block_offsets m, md_first_key_buf m)"

definition li_MakeIter :: "level_iter \<Rightarrow> SstMetadata \<Rightarrow> sst_iter" where
  "li_MakeIter it = table_iter (li_disk it) (li_reader it)"

text \<open>\<open>OpenNext\<close>: tables without a valid first entry are passed over; \<open>None\<close> is \<^verbatim>\<open>current_.reset()\<close>.\<close>

function li_OpenNext :: "level_iter \<Rightarrow> level_iter" where
  "li_OpenNext it =
     (if li_idx it < length (li_files it)
      then let c = li_MakeIter it (li_files it ! li_idx it);
               it1 = it\<lparr>li_current := Some c, li_idx := li_idx it + 1\<rparr>
           in if it_Valid c then it1 else li_OpenNext it1
      else it\<lparr>li_current := None\<rparr>)"
  by pat_completeness auto
termination
  by (relation "measure (\<lambda>it. length (li_files it) - li_idx it)") auto

declare li_OpenNext.simps [simp del]

text \<open>The constructor sorts by the smallest key (equal keys, which disjoint tables do not have, stay in order).\<close>

definition li_new :: "(bytes \<Rightarrow> bytes option) \<Rightarrow> block_cache option \<Rightarrow> SstMetadata list \<Rightarrow> level_iter" where
  "li_new disk reader files = li_OpenNext \<lparr>li_files = sort_key md_min_key files, li_idx = 0, li_disk = disk,
     li_reader = reader, li_current = None\<rparr>"

definition li_Valid :: "level_iter \<Rightarrow> bool" where
  "li_Valid it \<longleftrightarrow> (case li_current it of None \<Rightarrow> False | Some c \<Rightarrow> it_Valid c)"

definition li_Current :: "level_iter \<Rightarrow> KeyValuePair" where
  "li_Current it = (case li_current it of None \<Rightarrow> kv_default | Some c \<Rightarrow> it_current c)"

definition li_Next :: "level_iter \<Rightarrow> level_iter" where
  "li_Next it =
     (case li_current it of
        None \<Rightarrow> it
      | Some c \<Rightarrow> let it1 = it\<lparr>li_current := Some (it_Next c)\<rparr>
                  in if it_Valid (it_Next c) then it1 else li_OpenNext it1)"

function li_skip :: "bytes \<Rightarrow> level_iter \<Rightarrow> level_iter" where
  "li_skip key it =
     (if li_idx it < length (li_files it) \<and> md_max_key (li_files it ! li_idx it) \<noteq> []
         \<and> md_max_key (li_files it ! li_idx it) < key
      then li_skip key (it\<lparr>li_idx := li_idx it + 1\<rparr>) else it)"
  by pat_completeness auto
termination
  by (relation "measure (\<lambda>(_, it). length (li_files it) - li_idx it)") auto

declare li_skip.simps [simp del]

text \<open>\<open>None\<close>: the loop of the table's own \<open>SeekToKey\<close> does not end.\<close>

definition li_SeekToKey :: "bytes \<Rightarrow> level_iter \<Rightarrow> level_iter option" where
  "li_SeekToKey key it0 =
     (let it = li_skip key it0
      in if li_idx it < length (li_files it)
         then let m = li_files it ! li_idx it; c = li_MakeIter it m
              in map_option (\<lambda>c. let it1 = it\<lparr>li_current := Some c, li_idx := li_idx it + 1\<rparr>
                                 in if it_Valid c then it1 else li_OpenNext it1)
                   (if it_Valid c then it_SeekToKey (table_index m) key c else Some c)
         else Some it)"

section \<open>The source interface\<close>

text \<open>What a level iterator still delivers.\<close>

definition li_rest :: "level_iter \<Rightarrow> KeyValuePair list" where
  "li_rest it = (case li_current it of None \<Rightarrow> []
     | Some c \<Rightarrow> it_rest c @ concat (map (it_rest \<circ> li_MakeIter it) (drop (li_idx it) (li_files it))))"

definition li_inv :: "level_iter \<Rightarrow> bool" where
  "li_inv it \<longleftrightarrow> (\<forall>m \<in> set (drop (li_idx it) (li_files it)). it_inv (li_MakeIter it m))
     \<and> (case li_current it of None \<Rightarrow> True | Some c \<Rightarrow> it_inv c \<and> it_rest c \<noteq> [])"

lemma li_rest_Some:
  "li_current it = Some c \<Longrightarrow> li_rest it = it_rest c @ concat (map (it_rest \<circ> li_MakeIter it) (drop (li_idx it) (li_files it)))"
  by (simp add: li_rest_def)

lemma li_MakeIter_fields [simp]:
  "li_MakeIter (it\<lparr>li_current := c\<rparr>) = li_MakeIter it" "li_MakeIter (it\<lparr>li_idx := i\<rparr>) = li_MakeIter it"
  by (simp_all add: li_MakeIter_def fun_eq_iff)

lemma li_OpenNext_spec:
  "\<forall>m \<in> set (drop (li_idx it) (li_files it)). it_inv (li_MakeIter it m) \<Longrightarrow>
   li_inv (li_OpenNext it) \<and> li_rest (li_OpenNext it) = concat (map (it_rest \<circ> li_MakeIter it) (drop (li_idx it) (li_files it)))"
proof (induction it rule: li_OpenNext.induct)
  case (1 it)
  show ?case
  proof (cases "li_idx it < length (li_files it)")
    case True
    then have d: "drop (li_idx it) (li_files it) = (li_files it ! li_idx it) # drop (Suc (li_idx it)) (li_files it)"
      by (simp add: Cons_nth_drop_Suc)
    let ?c = "li_MakeIter it (li_files it ! li_idx it)"
    let ?it = "it\<lparr>li_current := Some ?c, li_idx := li_idx it + 1\<rparr>"
    have o: "li_OpenNext it = (if it_Valid ?c then ?it else li_OpenNext ?it)"
      using True by (subst li_OpenNext.simps) (simp add: Let_def)
    have "it_inv ?c" using 1(2) d by simp
    then show ?thesis
      using 1(1) [OF True refl refl] 1(2) unfolding o d
      by (cases "it_Valid ?c") (simp_all add: li_inv_def li_rest_Some sst.valid_rest comp_def)
  next
    case False
    then show ?thesis by (subst (1 2) li_OpenNext.simps) (simp add: li_inv_def li_rest_def)
  qed
qed

interpretation lvl: source_iter li_inv li_Valid li_Current li_Next li_rest
proof
  fix it
  assume inv: "li_inv it"
  show "li_Valid it \<longleftrightarrow> li_rest it \<noteq> []"
    using inv by (auto simp: li_inv_def li_Valid_def li_rest_def sst.valid_rest split: option.splits)
  assume "li_Valid it"
  then obtain c where c: "li_current it = Some c" "it_Valid c" by (auto simp: li_Valid_def split: option.splits)
  then have ci: "it_inv c" "it_rest c \<noteq> []" using inv by (simp_all add: li_inv_def)
  note nx = sst.inv_nxt [OF ci(1) c(2)] sst.rest_nxt [OF ci(1) c(2)]
  have op: "\<forall>m \<in> set (drop (li_idx it) (li_files it)). it_inv (li_MakeIter it m)" using inv by (simp add: li_inv_def)
  note spec = li_OpenNext_spec [of "it\<lparr>li_current := Some (it_Next c)\<rparr>", simplified, OF op]
  show "li_inv (li_Next it)"
    using c nx op spec by (simp add: li_Next_def Let_def) (simp add: li_inv_def sst.valid_rest)
  show "li_Current it = hd (li_rest it)"
    using c ci sst.cur_rest [OF ci(1) c(2)] by (simp add: li_Current_def li_rest_def)
  show "li_rest (li_Next it) = tl (li_rest it)"
    using c ci nx spec sst.valid_rest [OF nx(1)] by (simp add: li_Next_def Let_def li_rest_Some)
qed

primrec li_collect :: "nat \<Rightarrow> level_iter \<Rightarrow> KeyValuePair list" where
  "li_collect 0 it = []"
| "li_collect (Suc n) it = (if li_Valid it then li_Current it # li_collect n (li_Next it) else [])"

lemma li_collect_inv: "li_inv it \<Longrightarrow> li_collect n it = take n (li_rest it)"
proof -
  have "li_collect n it = lvl.drain n it" by (induction n arbitrary: it) simp_all
  then show "li_inv it \<Longrightarrow> ?thesis" by (simp add: lvl.drain_rest)
qed

lemma li_new_spec:
  assumes "\<forall>m \<in> set files. it_inv (table_iter disk c m)"
  shows "li_inv (li_new disk c files)
    \<and> li_rest (li_new disk c files) = concat (map (it_rest \<circ> table_iter disk c) (sort_key md_min_key files))"
  using assms li_OpenNext_spec [of "\<lparr>li_files = sort_key md_min_key files, li_idx = 0, li_disk = disk, li_reader = c, li_current = None\<rparr>"]
  by (simp add: li_new_def li_MakeIter_def)

text \<open>A table of the catalogue whose file was written with the entries \<open>es\<close>, without aborted batches.\<close>

definition table_holds :: "(bytes \<Rightarrow> bytes option) \<Rightarrow> block_cache option \<Rightarrow> SstMetadata \<Rightarrow> KeyValuePair list \<Rightarrow> bool" where
  "table_holds disk c m es \<longleftrightarrow> (\<exists>bsz ab. disk (md_filepath m) = Some (sst_Write bsz es ab) \<and> table_cache c (manifest_seq m) es (sst_Write bsz es ab))
     \<and> aborted_batch_ts m = [] \<and> (\<forall>e \<in> set es. entry_ok e) \<and> length es < 2 ^ 32 \<and> es \<noteq> []"

lemma table_iter_holds:
  assumes "table_holds disk c m es"
  shows "it_inv (table_iter disk c m)" and "it_rest (table_iter disk c m) = es"
  using assms it_new_at [of es c "manifest_seq m" _ _ True] by (auto simp: table_holds_def table_iter_def)

lemma list_all2_holds:
  "list_all2 (table_holds disk c) ms ess \<Longrightarrow> (\<forall>m \<in> set ms. it_inv (table_iter disk c m)) \<and> map (it_rest \<circ> table_iter disk c) ms = ess"
  by (induction rule: list_all2_induct) (simp_all add: table_iter_holds)

section \<open>Properties\<close>

text \<open>
  a level iterator over written tables with their key ranges in order delivers the entries of all of them in turn.
\<close>
theorem level_iterator_delivers:
  assumes "list_all2 (table_holds disk c) files ess" and "sorted (map md_min_key files)"
  shows "li_collect n (li_new disk c files) = take n (concat ess)"
proof -
  have "sort_key md_min_key files = files" using assms(2) by (rule sort_key_id_if_sorted)
  with list_all2_holds [OF assms(1)] li_new_spec [of files disk c] show ?thesis by (simp add: li_collect_inv)
qed

text \<open>A table with one entry, as it is listed in the catalogue.\<close>

definition one_entry_table :: "u64 \<Rightarrow> u8 \<Rightarrow> SstMetadata" where
  "one_entry_table seq k = (sst_meta0 [of_nat (unat seq)])\<lparr>manifest_seq := seq, md_level := 1, md_min_key := [k], md_max_key := [k]\<rparr>"

definition one_entry_disk :: "bytes \<Rightarrow> bytes option" where
  "one_entry_disk p = (if p = [1] then Some (sst_Write (\<lambda>_. (10, 7)) [mk_kv [1] [2] 3] None)
     else if p = [2] then Some (sst_Write (\<lambda>_. (10, 7)) [mk_kv [4] [5] 6] None) else None)"

lemma one_entry_holds:
  "table_holds one_entry_disk None (one_entry_table 1 1) [mk_kv [1] [2] 3]" "table_holds one_entry_disk None (one_entry_table 2 4) [mk_kv [4] [5] 6]"
  by (auto simp: table_holds_def one_entry_disk_def one_entry_table_def sst_meta0_def entry_ok_def mk_kv_def)

theorem level_iterator_delivers_witness:
  "li_collect 5 (li_new one_entry_disk None [one_entry_table 1 1, one_entry_table 2 4]) = [mk_kv [1] [2] 3, mk_kv [4] [5] 6]"
  using level_iterator_delivers [of one_entry_disk None "[one_entry_table 1 1, one_entry_table 2 4]" "[[mk_kv [1] [2] 3], [mk_kv [4] [5] 6]]" 5] one_entry_holds
  by (simp add: one_entry_table_def)

text \<open>
  seeking a fresh level iterator passes over the first table. Its constructor has already opened
  that table, and \<open>SeekToKey\<close> looks for the key only in the tables after it: a key of the first table is
  sought in the second one, and every entry of the first is lost to the scan.
\<close>
theorem level_seek_skips_first_table:
  assumes "table_holds disk c f es" and "table_holds disk c g es'" and "md_min_key f \<le> md_min_key g"
    and "key \<le> md_max_key g" and "\<forall>e \<in> set es'. key \<le> kv_key e" and "md_block_offsets g = []"
  shows "\<exists>it. li_SeekToKey key (li_new disk c [f, g]) = Some it \<and> li_collect n it = take n es'"
proof -
  note f = table_iter_holds [OF assms(1)] and g = table_iter_holds [OF assms(2)]
  have ne: "es \<noteq> []" "es' \<noteq> []" using assms(1,2) by (simp_all add: table_holds_def)
  then have v: "it_Valid (table_iter disk c f)" "it_Valid (table_iter disk c g)" using sst.valid_rest f g by simp_all
  have new: "li_new disk c [f, g] = \<lparr>li_files = [f, g], li_idx = 1, li_disk = disk, li_reader = c, li_current = Some (table_iter disk c f)\<rparr>"
    using assms(3) v by (simp add: li_new_def li_OpenNext.simps Let_def li_MakeIter_def)
  have "kv_key (it_current (table_iter disk c g)) = kv_key (hd es')" using sst.cur_rest [OF g(1) v(2)] g(2) by simp
  then have "\<not> kv_key (it_current (table_iter disk c g)) < key" using assms(5) ne by (simp add: not_less)
  then have "it_SeekToKey (table_index g) key (table_iter disk c g) = Some (table_iter disk c g)"
    using assms(6) by (simp add: it_SeekToKey_def table_index_def) (subst it_seek_loop.simps, simp)
  then have "li_SeekToKey key (li_new disk c [f, g])
      = Some \<lparr>li_files = [f, g], li_idx = 2, li_disk = disk, li_reader = c, li_current = Some (table_iter disk c g)\<rparr>"
    using assms(4) leD [OF assms(4)] v unfolding new
    by (simp add: li_SeekToKey_def li_skip.simps Let_def numeral_2_eq_2 li_MakeIter_def)
  then show ?thesis using g ne by (simp add: li_collect_inv li_inv_def li_rest_def)
qed

theorem level_seek_skips_first_table_witness:
  "\<exists>it. li_SeekToKey [1] (li_new one_entry_disk None [one_entry_table 1 1, one_entry_table 2 4]) = Some it \<and> li_collect 5 it = take 5 [mk_kv [4] [5] 6]"
  by (rule level_seek_skips_first_table [OF one_entry_holds]) (simp_all add: one_entry_table_def sst_meta0_def mk_kv_def)

end
