(* ===== verification/Range_Scan.thy ===== *)
theory Range_Scan
  imports Iterators "HOL-Library.Multiset"
begin

text \<open>
  \<open>RangeIterator\<close> (\<^verbatim>\<open>include/kvdb/iterator.hpp\<close>), which merges several sources for a snapshot, and the bounds of
  \<open>PrefixScan\<close> (\<^verbatim>\<open>src/engine.cpp\<close>). A source is known by what the locale \<open>source_iter\<close> says of it: it is
  the list of the entries it still delivers. Its \<open>SeekToKey\<close> is the one that sources inherit, a loop of \<open>Next\<close>; the
  constructor on sources that override it is \<open>ri_open\<close> in \<open>Engine_Scan\<close>.
\<close>

section \<open>RangeIterator\<close>

record range_iter =
  ri_sources :: "KeyValuePair list list"
  ri_heap :: "nat list"
  ri_read_ts :: u64
  ri_upper :: RangeBound
  ri_current :: KeyValuePair
  ri_valid :: bool

definition src_at :: "KeyValuePair list list \<Rightarrow> nat \<Rightarrow> KeyValuePair list" where
  "src_at ss i = (if i < length ss then ss ! i else [])"

definition src_cur :: "KeyValuePair list list \<Rightarrow> nat \<Rightarrow> KeyValuePair" where
  "src_cur ss i = (case src_at ss i of [] \<Rightarrow> kv_default | e # _ \<Rightarrow> e)"

text \<open>The least key of the sources in the heap.\<close>

definition heap_key :: "KeyValuePair list list \<Rightarrow> nat list \<Rightarrow> bytes" where
  "heap_key ss h = Min (set (map (\<lambda>i. kv_key (src_cur ss i)) h))"

definition ri_beyond :: "RangeBound \<Rightarrow> bytes \<Rightarrow> bool" where
  "ri_beyond upper k \<longleftrightarrow> \<not> IsUnbounded upper
     \<and> (if rb_inclusive upper then k > rb_key upper else k \<ge> rb_key upper)"

definition ri_best :: "u64 \<Rightarrow> KeyValuePair list \<Rightarrow> KeyValuePair option" where
  "ri_best read_ts es = fold (\<lambda>e best. if kv_timestamp e \<le> read_ts
       \<and> (case best of None \<Rightarrow> True | Some b \<Rightarrow> kv_timestamp e > kv_timestamp b) then Some e else best) es None"

text \<open>\<^verbatim>\<open>sources_[idx]->Next(); if (sources_[idx]->Valid()) heap_.push({idx});\<close>\<close>

definition ri_advance :: "nat \<Rightarrow> KeyValuePair list list \<times> nat list \<Rightarrow> KeyValuePair list list \<times> nat list" where
  "ri_advance i = (\<lambda>(ss, h). let ss' = ss[i := tl (src_at ss i)]
     in (ss', if src_at ss' i \<noteq> [] then i # h else h))"

lemma sum_length_tl:
  assumes "i < length ss"
  shows "sum_list (map length (ss[i := tl (ss ! i)])) = sum_list (map length ss) - (if ss ! i = [] then 0 else 1)
    \<and> (ss ! i \<noteq> [] \<longrightarrow> 0 < sum_list (map length ss))"
proof -
  have "length (ss ! i) \<le> sum_list (map length ss)" using assms elem_le_sum_list [of i "map length ss"] by simp
  then show ?thesis using assms by (cases "ss ! i") (simp_all add: map_update sum_list_update)
qed

lemma ri_advance_step:
  assumes "ri_advance i (ss, h) = (ss', h')"
  shows "sum_list (map length ss') \<le> sum_list (map length ss) \<and> (h' = h \<or> sum_list (map length ss') < sum_list (map length ss))"
proof (cases "i < length ss")
  case True
  then have "ss' = ss[i := tl (ss ! i)]" and "h' = (if tl (ss ! i) \<noteq> [] then i # h else h)"
    using assms by (auto simp: ri_advance_def Let_def src_at_def split: if_splits)
  moreover have "ss ! i \<noteq> []" if "tl (ss ! i) \<noteq> []" using that by auto
  ultimately show ?thesis using sum_length_tl [OF True] by (cases "tl (ss ! i) = []") simp_all
next
  case False
  then show ?thesis using assms by (auto simp: ri_advance_def src_at_def list_update_beyond)
qed

lemma ri_advance_measure:
  "fold ri_advance is (ss, h) = (ss', h') \<Longrightarrow>
   sum_list (map length ss') \<le> sum_list (map length ss) \<and> (h' = h \<or> sum_list (map length ss') < sum_list (map length ss))"
proof (induction "is" arbitrary: ss h)
  case (Cons i js)
  obtain ss1 h1 where st: "ri_advance i (ss, h) = (ss1, h1)" by (cases "ri_advance i (ss, h)")
  with Cons.prems have "fold ri_advance js (ss1, h1) = (ss', h')" by simp
  from Cons.IH [OF this] ri_advance_step [OF st] show ?case by auto
qed simp

text \<open>
  \<open>FindNext\<close>. The heap is the list of the indices in it; \<open>ties\<close> is the order in which it pops sources
  that stand at the same key, which \<^verbatim>\<open>std::priority_queue\<close> does not fix.
\<close>

function ri_FindNext :: "(nat list \<Rightarrow> nat list) \<Rightarrow> range_iter \<Rightarrow> range_iter" where
  "ri_FindNext ties it =
     (let ss = ri_sources it; h = ri_heap it
      in if h = [] then it\<lparr>ri_valid := False\<rparr>
         else let k = heap_key ss h;
                  same_key = ties (filter (\<lambda>i. kv_key (src_cur ss i) = k) h)
              in if ri_beyond (ri_upper it) k then it\<lparr>ri_valid := False, ri_heap := remove1 (hd same_key) h\<rparr>
                 else let best = ri_best (ri_read_ts it) (map (src_cur ss) same_key);
                          (ss', h') = fold ri_advance same_key (ss, filter (\<lambda>i. kv_key (src_cur ss i) \<noteq> k) h);
                          it' = it\<lparr>ri_sources := ss', ri_heap := h'\<rparr>
                      in case best of
                           Some e \<Rightarrow> it'\<lparr>ri_current := e, ri_valid := True\<rparr>
                         | None \<Rightarrow> ri_FindNext ties it')"
  by pat_completeness auto
termination
proof (relation "measures [\<lambda>(_, it). sum_list (map length (ri_sources it)), \<lambda>(_, it). length (ri_heap it)]",
    goal_cases)
  case (2 ties it ss h k same_key best p ss' h' it')
  then have "h \<noteq> []" and p: "fold ri_advance same_key (ss, filter (\<lambda>i. kv_key (src_cur ss i) \<noteq> k) h) = (ss', h')"
    by simp_all
  then have "heap_key ss h \<in> set (map (\<lambda>i. kv_key (src_cur ss i)) h)"
    unfolding heap_key_def by (intro Min_in) simp_all
  then have "length (filter (\<lambda>i. kv_key (src_cur ss i) \<noteq> k) h) < length h"
    using 2 by (auto intro!: length_filter_less)
  with ri_advance_measure [OF p] 2 show ?case by auto
qed simp

declare ri_FindNext.simps [simp del]

text \<open>
  The constructor from where the sources have been moved to the lower bound, and the whole constructor over sources with the default
  \<open>SeekToKey\<close>.
\<close>

definition ri_start ::
  "(nat list \<Rightarrow> nat list) \<Rightarrow> KeyValuePair list list \<Rightarrow> u64 \<Rightarrow> RangeBound \<Rightarrow> RangeBound \<Rightarrow> range_iter" where
  "ri_start ties sources read_ts lower upper =
     (let ss = (if \<not> IsUnbounded lower \<and> \<not> rb_inclusive lower
                then map (dropWhile (\<lambda>e. kv_key e = rb_key lower)) sources else sources)
      in ri_FindNext ties \<lparr>ri_sources = ss, ri_heap = filter (\<lambda>i. ss ! i \<noteq> []) [0 ..< length ss],
           ri_read_ts = read_ts, ri_upper = upper, ri_current = kv_default, ri_valid = False\<rparr>)"

definition ri_new ::
  "(nat list \<Rightarrow> nat list) \<Rightarrow> KeyValuePair list list \<Rightarrow> u64 \<Rightarrow> RangeBound \<Rightarrow> RangeBound \<Rightarrow> range_iter" where
  "ri_new ties sources read_ts lower upper = ri_start ties
     (if IsUnbounded lower then sources else map (dropWhile (\<lambda>e. kv_key e < rb_key lower)) sources) read_ts lower upper"

text \<open>The pairs a caller sees with \<^verbatim>\<open>while (it.Valid()) { ...; it.Next(); }\<close>.\<close>

primrec ri_collect :: "nat \<Rightarrow> (nat list \<Rightarrow> nat list) \<Rightarrow> range_iter \<Rightarrow> KeyValuePair list" where
  "ri_collect 0 ties it = []"
| "ri_collect (Suc n) ties it =
     (if ri_valid it then ri_current it # ri_collect n ties (ri_FindNext ties it) else [])"

section \<open>One round of the merge\<close>

lemma fold_advance:
  assumes "distinct js" and "\<forall>j \<in> set js. j < length ss" and "fold ri_advance js (ss, h) = (ss', h')"
  shows "length ss' = length ss \<and> (\<forall>j < length ss. ss' ! j = (if j \<in> set js then tl (ss ! j) else ss ! j))
    \<and> set h' = set h \<union> {j \<in> set js. tl (ss ! j) \<noteq> []} \<and> (distinct h \<and> set h \<inter> set js = {} \<longrightarrow> distinct h')"
  using assms
proof (induction js arbitrary: ss h)
  case (Cons j js)
  let ?ss = "ss[j := tl (ss ! j)]" and ?h = "if tl (ss ! j) \<noteq> [] then j # h else h"
  have j: "j < length ss" "j \<notin> set js" using Cons.prems by simp_all
  then have "ri_advance j (ss, h) = (?ss, ?h)" by (simp add: ri_advance_def src_at_def Let_def)
  then have "fold ri_advance js (?ss, ?h) = (ss', h')" using Cons.prems(3) by simp
  from Cons.IH [OF _ _ this] Cons.prems j
  have IH: "length ss' = length ss" "\<And>i. i < length ss \<Longrightarrow> ss' ! i = (if i \<in> set js then tl (?ss ! i) else ?ss ! i)"
    "set h' = set ?h \<union> {i \<in> set js. tl (?ss ! i) \<noteq> []}" "distinct ?h \<and> set ?h \<inter> set js = {} \<longrightarrow> distinct h'"
    by simp_all
  have "\<forall>i < length ss. ss' ! i = (if i \<in> set (j # js) then tl (ss ! i) else ss ! i)"
    using IH(2) j by (auto simp: nth_list_update)
  moreover have "{i \<in> set js. tl (?ss ! i) \<noteq> []} = {i \<in> set js. tl (ss ! i) \<noteq> []}"
    using j by (auto simp: nth_list_update)
  then have "set h' = set h \<union> {i \<in> set (j # js). tl (ss ! i) \<noteq> []}" unfolding IH(3) by auto
  moreover have "distinct h \<and> set h \<inter> set (j # js) = {} \<longrightarrow> distinct h'" using IH(4) j by auto
  ultimately show ?case using IH(1) by blast
qed auto

definition heap_ok :: "KeyValuePair list list \<Rightarrow> nat list \<Rightarrow> bool" where
  "heap_ok ss h \<longleftrightarrow> distinct h \<and> set h = {i. i < length ss \<and> ss ! i \<noteq> []}
     \<and> (\<forall>s \<in> set ss. strictly_sorted s)"

lemma strictly_sorted_tl: "strictly_sorted s \<Longrightarrow> strictly_sorted (tl s)"
  by (cases s) (simp_all add: strictly_sorted_def)

lemma strictly_sorted_head:
  "strictly_sorted s \<Longrightarrow> e \<in> set s \<Longrightarrow> e = hd s \<or> e \<in> set (tl s) \<and> kv_key (hd s) < kv_key e"
  by (cases s) (auto simp: strictly_sorted_def)

lemma strictly_sorted_above: "strictly_sorted s \<Longrightarrow> e \<in> set (tl s) \<Longrightarrow> kv_key (hd s) < kv_key e"
  by (cases s) (auto simp: strictly_sorted_def)

lemma set_concat_nth: "set (concat ss) = (\<Union>i \<in> {..< length ss}. set (ss ! i))"
  by (auto simp: set_conv_nth [of ss])

lemma src_cur_heap: "heap_ok ss h \<Longrightarrow> i \<in> set h \<Longrightarrow> src_cur ss i = hd (ss ! i) \<and> ss ! i \<noteq> [] \<and> i < length ss
    \<and> strictly_sorted (ss ! i)"
  by (auto simp: heap_ok_def src_cur_def src_at_def split: list.split)

lemma heap_key_le: "i \<in> set h \<Longrightarrow> heap_key ss h \<le> kv_key (src_cur ss i)"
  unfolding heap_key_def by (intro Min_le) auto

lemma heap_key_least:
  assumes "heap_ok ss h" and "e \<in> set (concat ss)"
  shows "heap_key ss h \<le> kv_key e \<and> (kv_key e = heap_key ss h \<longrightarrow>
    (\<exists>i \<in> set h. kv_key (src_cur ss i) = heap_key ss h \<and> e = src_cur ss i))"
proof -
  obtain i where i: "i < length ss" "e \<in> set (ss ! i)" using assms(2) unfolding set_concat_nth by blast
  then have h: "i \<in> set h" using assms(1) by (auto simp: heap_ok_def)
  note c = src_cur_heap [OF assms(1) h]
  show ?thesis using heap_key_le [OF h, of ss] c h strictly_sorted_head [of "ss ! i" e] i by force
qed

lemma heap_key_in:
  assumes "h \<noteq> []"
  shows "\<exists>i \<in> set h. kv_key (src_cur ss i) = heap_key ss h"
proof -
  have "heap_key ss h \<in> set (map (\<lambda>i. kv_key (src_cur ss i)) h)"
    unfolding heap_key_def using assms by (intro Min_in) simp_all
  then show ?thesis by auto
qed

text \<open>A round removes the entries with the least key and keeps the heap in order.\<close>

lemma merge_round:
  assumes "heap_ok ss h" and "k = heap_key ss h" and "set same = {i \<in> set h. kv_key (src_cur ss i) = k}" and "distinct same"
    and "fold ri_advance same (ss, filter (\<lambda>i. kv_key (src_cur ss i) \<noteq> k) h) = (ss', h')"
  shows "heap_ok ss' h' \<and> set (concat ss') = {e \<in> set (concat ss). kv_key e \<noteq> k}"
proof -
  have inh: "i \<in> set h \<Longrightarrow> i < length ss" for i using assms(1) by (auto simp: heap_ok_def)
  then have "\<forall>j \<in> set same. j < length ss" using assms(3) by auto
  note A = fold_advance [OF assms(4) this assms(5)]
  then have l: "length ss' = length ss" and nth: "\<And>j. j < length ss \<Longrightarrow> ss' ! j = (if j \<in> set same then tl (ss ! j) else ss ! j)"
    and hs: "set h' = set (filter (\<lambda>i. kv_key (src_cur ss i) \<noteq> k) h) \<union> {j \<in> set same. tl (ss ! j) \<noteq> []}"
    by blast+
  have sorted: "strictly_sorted (ss ! j)" if "j < length ss" for j using assms(1) that by (auto simp: heap_ok_def)
  have "distinct h'" using A assms(1,3) by (auto simp: heap_ok_def)
  moreover have "set h' = {i. i < length ss' \<and> ss' ! i \<noteq> []}"
    unfolding hs l using nth assms(1,3) by (auto simp: heap_ok_def split: if_splits)
  moreover have "\<forall>s \<in> set ss'. strictly_sorted s"
    using nth sorted strictly_sorted_tl l by (auto simp: in_set_conv_nth split: if_splits)
  moreover have "set (ss' ! j) = {e \<in> set (ss ! j). kv_key e \<noteq> k}" if j: "j < length ss" for j
  proof (cases "j \<in> set same")
    case True
    then have "kv_key (hd (ss ! j)) = k" "ss ! j \<noteq> []" using assms(1,3) src_cur_heap by auto
    then show ?thesis
      using strictly_sorted_head [OF sorted [OF j]] nth [OF j] True strictly_sorted_above [OF sorted [OF j]]
      by (force dest: list.set_sel(2))
  next
    case False
    have "kv_key e \<noteq> k" if e: "e \<in> set (ss ! j)" for e
    proof
      assume k: "kv_key e = k"
      have h: "j \<in> set h" using e j assms(1) by (auto simp: heap_ok_def)
      with False assms(3) have "kv_key (src_cur ss j) \<noteq> k" by simp
      then show False
        using k assms(2) heap_key_le [OF h, of ss] strictly_sorted_head [OF sorted [OF j] e]
          src_cur_heap [OF assms(1) h] by force
    qed
    with nth [OF j] False show ?thesis by auto
  qed
  then have "set (concat ss') = {e \<in> set (concat ss). kv_key e \<noteq> k}"
    using l unfolding set_concat_nth by auto
  ultimately show ?thesis by (simp add: heap_ok_def)
qed

lemma ri_best_fold:
  "(case fold (\<lambda>e best. if kv_timestamp e \<le> t
       \<and> (case best of None \<Rightarrow> True | Some b \<Rightarrow> kv_timestamp e > kv_timestamp b) then Some e else best) es b of
     None \<Rightarrow> b = None \<and> (\<forall>e \<in> set es. \<not> kv_timestamp e \<le> t)
   | Some m \<Rightarrow> (m \<in> set es \<and> kv_timestamp m \<le> t \<or> b = Some m) \<and> (\<forall>x. b = Some x \<longrightarrow> kv_timestamp x \<le> kv_timestamp m)
       \<and> (\<forall>e \<in> set es. kv_timestamp e \<le> t \<longrightarrow> kv_timestamp e \<le> kv_timestamp m))"
proof (induction es arbitrary: b)
  case Nil
  then show ?case by (cases b) simp_all
next
  case (Cons e es)
  show ?case
    using Cons [of "if kv_timestamp e \<le> t
      \<and> (case b of None \<Rightarrow> True | Some b \<Rightarrow> kv_timestamp e > kv_timestamp b) then Some e else b"]
    by (cases b) (auto split: option.splits if_splits)
qed

lemma ri_best_None: "ri_best t es = None \<Longrightarrow> e \<in> set es \<Longrightarrow> \<not> kv_timestamp e \<le> t"
  using ri_best_fold [where t = t and es = es and b = None] by (auto simp: ri_best_def)

lemma ri_best_Some:
  "ri_best t es = Some m \<Longrightarrow> m \<in> set es \<and> kv_timestamp m \<le> t
    \<and> (\<forall>e \<in> set es. kv_timestamp e \<le> t \<longrightarrow> kv_timestamp e \<le> kv_timestamp m)"
  using ri_best_fold [where t = t and es = es and b = None] by (auto simp: ri_best_def)

lemma ri_FindNext_cases:
  assumes "ri_FindNext ties it = it'"
  obtains (empty) "ri_heap it = []" "it' = it\<lparr>ri_valid := False\<rparr>"
  | (beyond) "ri_heap it \<noteq> []" "ri_beyond (ri_upper it) (heap_key (ri_sources it) (ri_heap it))"
      "ri_valid it' = False" "ri_read_ts it' = ri_read_ts it" "ri_upper it' = ri_upper it"
  | (round) same ss' h' where "ri_heap it \<noteq> []" "\<not> ri_beyond (ri_upper it) (heap_key (ri_sources it) (ri_heap it))"
      "same = ties (filter (\<lambda>i. kv_key (src_cur (ri_sources it) i) = heap_key (ri_sources it) (ri_heap it)) (ri_heap it))"
      "fold ri_advance same (ri_sources it, filter (\<lambda>i. kv_key (src_cur (ri_sources it) i)
         \<noteq> heap_key (ri_sources it) (ri_heap it)) (ri_heap it)) = (ss', h')"
      "it' = (case ri_best (ri_read_ts it) (map (src_cur (ri_sources it)) same) of
         Some e \<Rightarrow> it\<lparr>ri_sources := ss', ri_heap := h', ri_current := e, ri_valid := True\<rparr>
       | None \<Rightarrow> ri_FindNext ties (it\<lparr>ri_sources := ss', ri_heap := h'\<rparr>))"
proof -
  define k where "k = heap_key (ri_sources it) (ri_heap it)"
  define same where "same = ties (filter (\<lambda>i. kv_key (src_cur (ri_sources it) i) = k) (ri_heap it))"
  obtain ss' h' where f: "fold ri_advance same (ri_sources it, filter (\<lambda>i. kv_key (src_cur (ri_sources it) i) \<noteq> k) (ri_heap it)) = (ss', h')"
    by (cases "fold ri_advance same (ri_sources it, filter (\<lambda>i. kv_key (src_cur (ri_sources it) i) \<noteq> k) (ri_heap it))")
  note eq = assms [unfolded ri_FindNext.simps [of ties it] Let_def, folded k_def, folded same_def, unfolded f prod.case, symmetric]
  show thesis
  proof (cases "ri_heap it = []")
    case True
    show thesis by (rule empty [OF True]) (simp only: eq True if_True simp_thms)
  next
    case ne: False
    show thesis
    proof (cases "ri_beyond (ri_upper it) k")
      case True
      show thesis by (rule beyond [OF ne True [unfolded k_def]]) (simp_all add: eq ne True)
    next
      case False
      show thesis
        by (rule round [OF ne False [unfolded k_def] same_def [unfolded k_def] f [unfolded k_def]])
          (simp only: eq ne False if_False)
    qed
  qed
qed

text \<open>
  What a call of \<open>FindNext\<close> has to do to a set of pending entries: either no entry in range is visible,
  or the current pair is the newest visible one of the least visible key, and what is
  pending afterwards is what lies above that key.
\<close>

definition ri_next_ok :: "KeyValuePair set \<Rightarrow> range_iter \<Rightarrow> bool" where
  "ri_next_ok E it \<longleftrightarrow> (let t = ri_read_ts it; c = ri_current it in
     if ri_valid it
     then heap_ok (ri_sources it) (ri_heap it) \<and> c \<in> E \<and> kv_timestamp c \<le> t \<and> \<not> ri_beyond (ri_upper it) (kv_key c)
       \<and> (\<forall>x \<in> E. kv_timestamp x \<le> t \<longrightarrow> kv_key c < kv_key x \<or> kv_key x = kv_key c \<and> kv_timestamp x \<le> kv_timestamp c)
       \<and> set (concat (ri_sources it)) = {x \<in> E. kv_key c < kv_key x}
     else \<forall>x \<in> E. kv_timestamp x \<le> t \<longrightarrow> ri_beyond (ri_upper it) (kv_key x))"

lemma ri_beyond_mono: "ri_beyond u k \<Longrightarrow> k \<le> k' \<Longrightarrow> ri_beyond u k'"
  by (auto simp: ri_beyond_def split: if_splits)

text \<open>A round that finds nothing visible only drops invisible entries below all others.\<close>

lemma ri_next_ok_skip:
  assumes "ri_next_ok {e \<in> E. kv_key e \<noteq> k} it" and "\<forall>e \<in> E. k \<le> kv_key e"
    and "\<forall>e \<in> E. kv_key e = k \<longrightarrow> \<not> kv_timestamp e \<le> ri_read_ts it"
  shows "ri_next_ok E it"
proof (cases "ri_valid it")
  case True
  then have "kv_key (ri_current it) \<noteq> k" "ri_current it \<in> E" using assms(1) by (auto simp: ri_next_ok_def Let_def)
  then have "k < kv_key (ri_current it)" using assms(2) by force
  then have "{x \<in> {e \<in> E. kv_key e \<noteq> k}. kv_key (ri_current it) < kv_key x} = {x \<in> E. kv_key (ri_current it) < kv_key x}"
    by auto
  with True assms(1,3) show ?thesis by (auto simp: ri_next_ok_def Let_def)
next
  case False
  with assms(1,3) show ?thesis by (auto simp: ri_next_ok_def Let_def)
qed

lemma lex_round:
  "a \<le> b \<and> (h' = h \<or> a < b) \<Longrightarrow> length h < n \<Longrightarrow> ((a, length h'), (b, n)) \<in> less_than <*lex*> less_than"
  by (auto simp: in_lex_prod)

lemma ri_FindNext_ok:
  assumes "\<And>xs. mset (ties xs) = mset xs" and "heap_ok (ri_sources it) (ri_heap it)"
  shows "ri_next_ok (set (concat (ri_sources it))) (ri_FindNext ties it)
    \<and> ri_read_ts (ri_FindNext ties it) = ri_read_ts it \<and> ri_upper (ri_FindNext ties it) = ri_upper it"
  using assms(2)
proof (induction "(sum_list (map length (ri_sources it)), length (ri_heap it))" arbitrary: it
    rule: wf_induct_rule [OF wf_lex_prod [OF wf_less_than wf_less_than]])
  case (1 it)
  let ?ss = "ri_sources it" and ?h = "ri_heap it" and ?k = "heap_key (ri_sources it) (ri_heap it)"
  let ?E = "set (concat (ri_sources it))"
  from refl [of "ri_FindNext ties it"] show ?case
  proof (cases rule: ri_FindNext_cases)
    case empty
    then have "?E = {}" using 1(2) unfolding set_concat_nth by (auto simp: heap_ok_def)
    show ?thesis unfolding empty(2) \<open>?E = {}\<close> by (simp add: ri_next_ok_def)
  next
    case beyond
    have "ri_beyond (ri_upper it) (kv_key x)" if "x \<in> ?E" for x
      using ri_beyond_mono [OF beyond(2)] heap_key_least [OF 1(2) that] by blast
    with beyond show ?thesis by (simp add: ri_next_ok_def)
  next
    case (round same ss' h')
    have m: "mset same = mset (filter (\<lambda>i. kv_key (src_cur ?ss i) = ?k) ?h)" unfolding round(3) by (rule assms(1))
    have same: "set same = {i \<in> set ?h. kv_key (src_cur ?ss i) = ?k}" "distinct same"
      using mset_eq_setD [OF m] mset_eq_imp_distinct_iff [OF m] 1(2) by (simp_all add: heap_ok_def)
    note R = merge_round [OF 1(2) refl same round(4)]
    have least: "?k \<le> kv_key e" "kv_key e = ?k \<Longrightarrow> e \<in> set (map (src_cur ?ss) same)" if "e \<in> ?E" for e
      using heap_key_least [OF 1(2) that] unfolding set_map same(1) by blast+
    have sub: "e \<in> ?E \<and> kv_key e = ?k" if "e \<in> set (map (src_cur ?ss) same)" for e
    proof -
      obtain i where i: "i \<in> set ?h" "kv_key (src_cur ?ss i) = ?k" "e = src_cur ?ss i" using \<open>e \<in> _\<close> same(1) by auto
      with src_cur_heap [OF 1(2) i(1)] show ?thesis unfolding set_concat_nth by (auto intro!: bexI [of _ i])
    qed
    show ?thesis
    proof (cases "ri_best (ri_read_ts it) (map (src_cur ?ss) same)")
      case None
      let ?it = "it\<lparr>ri_sources := ss', ri_heap := h'\<rparr>"
      have sel: "ri_sources ?it = ss'" "ri_heap ?it = h'" "ri_read_ts ?it = ri_read_ts it" "ri_upper ?it = ri_upper it"
        by simp_all
      have f: "ri_FindNext ties it = ri_FindNext ties ?it" using round(5) None by simp
      have "length (filter (\<lambda>i. kv_key (src_cur ?ss i) \<noteq> ?k) ?h) < length ?h"
        using heap_key_in [OF round(1), of ?ss] by (auto intro!: length_filter_less)
      then have "((sum_list (map length (ri_sources ?it)), length (ri_heap ?it)),
          (sum_list (map length ?ss), length ?h)) \<in> less_than <*lex*> less_than"
        unfolding sel by (rule lex_round [OF ri_advance_measure [OF round(4)]])
      note step = 1(1) [OF this]
      have "ri_next_ok {e \<in> ?E. kv_key e \<noteq> ?k} (ri_FindNext ties ?it)
          \<and> ri_read_ts (ri_FindNext ties ?it) = ri_read_ts it \<and> ri_upper (ri_FindNext ties ?it) = ri_upper it"
        using step [unfolded sel R [THEN conjunct2]] R by blast
      moreover from this have "ri_next_ok ?E (ri_FindNext ties ?it)"
        using least(1) least(2) [THEN ri_best_None [OF None]] by (intro ri_next_ok_skip [of ?E ?k]) simp_all
      ultimately show ?thesis unfolding f by simp
    next
      case (Some c)
      note b = ri_best_Some [OF Some]
      have c: "c \<in> ?E" "kv_key c = ?k" using sub [of c] b by blast+
      have "\<forall>x \<in> ?E. kv_timestamp x \<le> ri_read_ts it \<longrightarrow> kv_key c < kv_key x \<or> kv_key x = kv_key c \<and> kv_timestamp x \<le> kv_timestamp c"
      proof (intro ballI impI)
        fix x assume x: "x \<in> ?E" "kv_timestamp x \<le> ri_read_ts it"
        show "kv_key c < kv_key x \<or> kv_key x = kv_key c \<and> kv_timestamp x \<le> kv_timestamp c"
          using least [OF x(1)] b x(2) c(2) by (cases "kv_key x = ?k") auto
      qed
      moreover have "{e \<in> ?E. kv_key e \<noteq> ?k} = {x \<in> ?E. kv_key c < kv_key x}"
        unfolding c(2) using least(1) by (intro Collect_cong conj_cong refl) (simp add: less_le eq_commute [of "heap_key _ _"])
      ultimately show ?thesis unfolding round(5) Some using b R c round(2)
        by (simp add: ri_next_ok_def del: set_concat)
    qed
  qed
qed


section \<open>Whole scans\<close>

lemma ri_FindNext_smaller:
  "ri_valid (ri_FindNext ties it) \<Longrightarrow>
   ((sum_list (map length (ri_sources (ri_FindNext ties it))), length (ri_heap (ri_FindNext ties it))),
    (sum_list (map length (ri_sources it)), length (ri_heap it))) \<in> less_than <*lex*> less_than"
proof (induction "(sum_list (map length (ri_sources it)), length (ri_heap it))" arbitrary: it
    rule: wf_induct_rule [OF wf_lex_prod [OF wf_less_than wf_less_than]])
  case (1 it)
  let ?ss = "ri_sources it" and ?h = "ri_heap it" and ?k = "heap_key (ri_sources it) (ri_heap it)"
  from refl [of "ri_FindNext ties it"] show ?case
  proof (cases rule: ri_FindNext_cases)
    case (round same ss' h')
    let ?it = "it\<lparr>ri_sources := ss', ri_heap := h'\<rparr>"
    have "length (filter (\<lambda>i. kv_key (src_cur ?ss i) \<noteq> ?k) ?h) < length ?h"
      using heap_key_in [OF round(1), of ?ss] by (auto intro!: length_filter_less)
    then have s: "((sum_list (map length ss'), length h'), (sum_list (map length ?ss), length ?h)) \<in> less_than <*lex*> less_than"
      using ri_advance_measure [OF round(4)] by (intro lex_round)
    show ?thesis
    proof (cases "ri_best (ri_read_ts it) (map (src_cur ?ss) same)")
      case None
      then have f: "ri_FindNext ties it = ri_FindNext ties ?it" using round(5) by simp
      have "((sum_list (map length (ri_sources (ri_FindNext ties ?it))), length (ri_heap (ri_FindNext ties ?it))),
          (sum_list (map length ss'), length h')) \<in> less_than <*lex*> less_than"
        using 1(1) [of ?it] s 1(2) unfolding f by simp
      from transD [OF trans_lex_prod [OF trans_less_than trans_less_than] this s] show ?thesis unfolding f .
    next
      case (Some e)
      then show ?thesis using round(5) s by simp
    qed
  qed (use 1(2) in simp_all)
qed

text \<open>The loop of a caller to its end; a step that finds a pair leaves fewer entries or sources.\<close>

function ri_all :: "(nat list \<Rightarrow> nat list) \<Rightarrow> range_iter \<Rightarrow> KeyValuePair list" where
  "ri_all ties it = (if ri_valid it then ri_current it # (let it1 = ri_FindNext ties it in if ri_valid it1 then ri_all ties it1 else []) else [])"
  by pat_completeness auto
termination
  by (relation "inv_image (less_than <*lex*> less_than) (\<lambda>(_, it). (sum_list (map length (ri_sources it)), length (ri_heap it)))")
    (auto dest!: ri_FindNext_smaller)

declare ri_all.simps [simp del]

lemma ri_collect_all: "ri_collect n ties it = take n (ri_all ties it)"
proof (induction n arbitrary: it)
  case (Suc n)
  have "ri_all ties it = (if ri_valid it then ri_current it # ri_all ties (ri_FindNext ties it) else [])"
    by (subst ri_all.simps, subst (2) ri_all.simps) (simp add: Let_def ri_all.simps [of ties "ri_FindNext ties it"])
  with Suc [of "ri_FindNext ties it"] show ?case by simp
qed simp

text \<open>A list of results for the entries \<open>E\<close>: in key order, each the newest visible version, none missing.\<close>

definition scan_result :: "u64 \<Rightarrow> (bytes \<Rightarrow> bool) \<Rightarrow> KeyValuePair list \<Rightarrow> KeyValuePair list \<Rightarrow> bool" where
  "scan_result t rg es out \<longleftrightarrow> strictly_sorted out
     \<and> (\<forall>e \<in> set out. newest t (kv_key e) es e \<and> rg (kv_key e))
     \<and> (\<forall>e \<in> set es. kv_timestamp e \<le> t \<longrightarrow> rg (kv_key e) \<longrightarrow> kv_key e \<in> kv_key ` set out)"

lemma scan_result_set: "set es = set es' \<Longrightarrow> scan_result t rg es out = scan_result t rg es' out"
  by (simp add: scan_result_def newest_def)

lemma ri_collect_ok:
  assumes "\<And>xs. mset (ties xs) = mset xs" and "ri_next_ok (set es) it" and "card (set es) < n"
  shows "scan_result (ri_read_ts it) (\<lambda>k. \<not> ri_beyond (ri_upper it) k) es (ri_collect n ties it)"
  using assms(2,3)
proof (induction n arbitrary: es it)
  case (Suc n)
  show ?case
  proof (cases "ri_valid it")
    case False
    with Suc.prems(1) show ?thesis by (simp add: scan_result_def ri_next_ok_def strictly_sorted_def)
  next
    case True
    let ?c = "ri_current it" and ?it = "ri_FindNext ties it" and ?es = "filter (\<lambda>x. kv_key (ri_current it) < kv_key x) es"
    have ok: "heap_ok (ri_sources it) (ri_heap it)" "?c \<in> set es" "kv_timestamp ?c \<le> ri_read_ts it" "\<not> ri_beyond (ri_upper it) (kv_key ?c)"
      "\<forall>x \<in> set es. kv_timestamp x \<le> ri_read_ts it \<longrightarrow> kv_key ?c < kv_key x \<or> kv_key x = kv_key ?c \<and> kv_timestamp x \<le> kv_timestamp ?c"
      "set (concat (ri_sources it)) = set ?es"
      using Suc.prems(1) True by (simp_all add: ri_next_ok_def Let_def)
    have "card (set ?es) < card (set es)" using ok(2) by (intro psubset_card_mono) auto
    then have "card (set ?es) < n" using Suc.prems(2) by linarith
    moreover have nx: "ri_next_ok (set ?es) ?it" "ri_read_ts ?it = ri_read_ts it" "ri_upper ?it = ri_upper it"
      using ri_FindNext_ok [OF assms(1) ok(1)] unfolding ok(6) by simp_all
    ultimately have IH: "scan_result (ri_read_ts it) (\<lambda>k. \<not> ri_beyond (ri_upper it) k) ?es (ri_collect n ties ?it)"
      using Suc.IH [of ?es ?it] by simp
    let ?out = "ri_collect n ties ?it"
    have above: "kv_key ?c < kv_key e" if "e \<in> set ?out" for e
      using IH that by (auto simp: scan_result_def newest_def)
    have "strictly_sorted (?c # ?out)" using IH above by (auto simp: scan_result_def strictly_sorted_def)
    moreover have "newest (ri_read_ts it) (kv_key ?c) es ?c" using ok(2,3,5) by (auto simp: newest_def)
    moreover have "newest (ri_read_ts it) (kv_key e) es e \<and> \<not> ri_beyond (ri_upper it) (kv_key e)" if "e \<in> set ?out" for e
      using IH that above [OF that] by (auto simp: scan_result_def newest_def)
    moreover have "kv_key e \<in> kv_key ` set (?c # ?out)"
      if "e \<in> set es" "kv_timestamp e \<le> ri_read_ts it" "\<not> ri_beyond (ri_upper it) (kv_key e)" for e
      using IH that ok(5) by (auto simp: scan_result_def)
    ultimately show ?thesis using True ok(4) by (simp add: scan_result_def)
  qed
qed simp

lemma dropWhile_sorted:
  "strictly_sorted s \<Longrightarrow> set (dropWhile (\<lambda>e. kv_key e < k) s) = {e \<in> set s. k \<le> kv_key e}
    \<and> strictly_sorted (dropWhile (\<lambda>e. kv_key e < k) s)"
  by (induction s) (auto simp: strictly_sorted_def)

lemma dropWhile_first_key:
  assumes "strictly_sorted s" and "\<forall>e \<in> set s. k \<le> kv_key e"
  shows "set (dropWhile (\<lambda>e. kv_key e = k) s) = {e \<in> set s. k < kv_key e}
    \<and> strictly_sorted (dropWhile (\<lambda>e. kv_key e = k) s)"
  using assms by (induction s) (auto simp: strictly_sorted_def)

definition ri_above :: "RangeBound \<Rightarrow> bytes \<Rightarrow> bool" where
  "ri_above lower k \<longleftrightarrow> IsUnbounded lower \<or> (if rb_inclusive lower then rb_key lower \<le> k else rb_key lower < k)"

text \<open>The sources after the constructor's seeks.\<close>

definition ri_seek :: "RangeBound \<Rightarrow> KeyValuePair list \<Rightarrow> KeyValuePair list" where
  "ri_seek lower s =
     (if IsUnbounded lower then s
      else if rb_inclusive lower then dropWhile (\<lambda>e. kv_key e < rb_key lower) s
      else dropWhile (\<lambda>e. kv_key e = rb_key lower) (dropWhile (\<lambda>e. kv_key e < rb_key lower) s))"

lemma ri_seek_ok:
  assumes "strictly_sorted s"
  shows "set (ri_seek lower s) = {e \<in> set s. ri_above lower (kv_key e)} \<and> strictly_sorted (ri_seek lower s)"
  using assms dropWhile_sorted [OF assms, of "rb_key lower"]
    dropWhile_first_key [of "dropWhile (\<lambda>e. kv_key e < rb_key lower) s" "rb_key lower"]
  by (auto simp: ri_seek_def ri_above_def)

lemma ri_new_seek:
  "ri_new ties sources t lower upper
   = ri_FindNext ties \<lparr>ri_sources = map (ri_seek lower) sources,
       ri_heap = filter (\<lambda>i. map (ri_seek lower) sources ! i \<noteq> []) [0 ..< length sources],
       ri_read_ts = t, ri_upper = upper, ri_current = kv_default, ri_valid = False\<rparr>"
proof -
  have "map (ri_seek lower) sources =
     (if IsUnbounded lower then sources
      else if rb_inclusive lower then map (dropWhile (\<lambda>e. kv_key e < rb_key lower)) sources
      else map (dropWhile (\<lambda>e. kv_key e = rb_key lower)) (map (dropWhile (\<lambda>e. kv_key e < rb_key lower)) sources))"
    by (simp add: ri_seek_def cong: map_cong)
  then show ?thesis by (simp add: ri_new_def ri_start_def Let_def)
qed

lemma ri_new_ok:
  assumes "\<And>xs. mset (ties xs) = mset xs" and "\<forall>s \<in> set sources. strictly_sorted s"
  shows "ri_next_ok {e \<in> set (concat sources). ri_above lower (kv_key e)} (ri_new ties sources t lower upper)
    \<and> ri_read_ts (ri_new ties sources t lower upper) = t \<and> ri_upper (ri_new ties sources t lower upper) = upper"
proof -
  let ?ss = "map (ri_seek lower) sources"
  let ?it = "\<lparr>ri_sources = ?ss, ri_heap = filter (\<lambda>i. ?ss ! i \<noteq> []) [0 ..< length sources],
       ri_read_ts = t, ri_upper = upper, ri_current = kv_default, ri_valid = False\<rparr>"
  have "heap_ok (ri_sources ?it) (ri_heap ?it)" using assms(2) ri_seek_ok by (auto simp: heap_ok_def)
  moreover have "set (concat ?ss) = {e \<in> set (concat sources). ri_above lower (kv_key e)}"
    using assms(2) ri_seek_ok by auto
  ultimately show ?thesis
    using ri_FindNext_ok [OF assms(1), of ?it] unfolding ri_new_seek by simp
qed

lemma range_scan_ok:
  assumes "\<And>xs. mset (ties xs) = mset xs" and "\<forall>s \<in> set sources. strictly_sorted s"
    and "card (set (concat sources)) < n"
  shows "scan_result t (\<lambda>k. ri_above lower k \<and> \<not> ri_beyond upper k) (concat sources)
    (ri_collect n ties (ri_new ties sources t lower upper))"
proof -
  let ?it = "ri_new ties sources t lower upper" and ?es = "filter (\<lambda>e. ri_above lower (kv_key e)) (concat sources)"
  note new = ri_new_ok [OF assms(1,2), where t = t and lower = lower and upper = upper]
  have "card (set ?es) \<le> card (set (concat sources))" by (rule card_mono) auto
  then have "card (set ?es) < n" using assms(3) by simp
  then have "scan_result (ri_read_ts ?it) (\<lambda>k. \<not> ri_beyond (ri_upper ?it) k) ?es (ri_collect n ties ?it)"
    using new by (intro ri_collect_ok [OF assms(1)]) auto
  then show ?thesis using new by (auto simp: scan_result_def newest_def)
qed

section \<open>Properties\<close>

text \<open>
  C15: a range scan over sources with one version of each key delivers, in key order and each key once,
  the newest version visible at the snapshot of exactly the keys inside the bounds, whatever
  order the heap gives to equal keys.
\<close>

theorem range_scan_correct:
  assumes "\<And>xs. mset (ties xs) = mset xs" and "\<forall>s \<in> set sources. strictly_sorted s"
    and "length (concat sources) < n"
  shows "scan_result t (\<lambda>k. ri_above lower k \<and> \<not> ri_beyond upper k) (concat sources)
    (ri_collect n ties (ri_new ties sources t lower upper))"
  using range_scan_ok [OF assms(1,2)] card_length [of "concat sources"] assms(3) by simp

theorem range_scan_correct_witness:
  "scan_result 9 (\<lambda>k. ri_above (rb_Inclusive [2]) k \<and> \<not> ri_beyond rb_Unbounded k)
     (concat [[mk_kv [1] [0] 3, mk_kv [4] [1] 5], [mk_kv [4] [2] 7]])
     (ri_collect 4 id (ri_new id [[mk_kv [1] [0] 3, mk_kv [4] [1] 5], [mk_kv [4] [2] 7]] 9 (rb_Inclusive [2]) rb_Unbounded))"
  by (rule range_scan_correct) (auto simp: strictly_sorted_def mk_kv_def)

text \<open>
  a source that holds two versions of a key makes the scan deliver the key twice, the second
  time with the older value, because each source is advanced by one entry only.
\<close>

theorem range_scan_repeats_versions:
  "ri_collect 3 id (ri_new id [[mk_kv [1] [8] 7, mk_kv [1] [9] 5]] 9 rb_Unbounded rb_Unbounded)
   = [mk_kv [1] [8] 7, mk_kv [1] [9] 5]"
  by (simp add: ri_new_def ri_start_def ri_FindNext.simps rb_Unbounded_def IsUnbounded_def heap_key_def src_cur_def src_at_def
      ri_beyond_def ri_best_def ri_advance_def mk_kv_def Let_def numeral_3_eq_3)

section \<open>Prefix scans\<close>

text \<open>The bounds that \<open>PrefixScan\<close> passes to \<open>RangeScan\<close>; the upper one has its trailing bytes 255 cut off.\<close>

definition prefix_strip :: "bytes \<Rightarrow> bytes" where
  "prefix_strip p = rev (dropWhile (\<lambda>b. b = 0xFF) (rev p))"

definition PrefixScan_bounds :: "bytes \<Rightarrow> RangeBound \<times> RangeBound" where
  "PrefixScan_bounds p =
     (let upper = prefix_strip p
      in if upper = [] then (rb_Inclusive p, rb_Unbounded)
         else (rb_Inclusive p, rb_Exclusive (butlast upper @ [last upper + 1])))"

text \<open>\<open>p\<close> is a prefix of \<open>k\<close>.\<close>

definition has_prefix :: "bytes \<Rightarrow> bytes \<Rightarrow> bool" where
  "has_prefix p k \<longleftrightarrow> take (length p) k = p"

lemma has_prefix_simps [simp]:
  "has_prefix [] k" "\<not> has_prefix (a # p) []" "has_prefix (a # p) (b # k) \<longleftrightarrow> a = b \<and> has_prefix p k"
  by (auto simp: has_prefix_def)

lemma u8_max: "(b :: u8) \<le> 255"
proof -
  have "unat b < 2 ^ 8" using unsigned_less [of b] by simp
  then show ?thesis by (simp add: word_le_nat_alt)
qed

lemma all_ff_prefix: "replicate n (0xFF :: u8) \<le> k \<longleftrightarrow> has_prefix (replicate n 0xFF) k"
proof (induction n arbitrary: k)
  case (Suc n)
  show ?case
  proof (cases k)
    case (Cons b r)
    have "\<not> (0xFF :: u8) < b" using u8_max [of b] by (simp add: not_less)
    with Cons Suc show ?thesis by auto
  qed simp
qed simp

lemma prefix_interval:
  assumes "c \<noteq> (0xFF :: u8)"
  shows "q @ c # replicate n 0xFF \<le> k \<and> k < q @ [c + 1] \<longleftrightarrow> has_prefix (q @ c # replicate n 0xFF) k"
proof (induction q arbitrary: k)
  case Nil
  have c: "b < c + 1 \<longleftrightarrow> b \<le> c" for b
  proof -
    have "unat c \<noteq> 255" using assms by (simp add: word_unat_eq_iff)
    then have "unat (c + 1) = unat c + 1" using u8_max [of c] by (simp add: word_le_nat_alt unat_word_ariths)
    then show ?thesis by (simp add: word_less_nat_alt word_le_nat_alt less_Suc_eq_le)
  qed
  show ?case
  proof (cases k)
    case (Cons b r)
    with c [of b] all_ff_prefix [of n r] show ?thesis by auto
  qed simp
next
  case (Cons x q)
  show ?case
  proof (cases k)
    case (Cons b r)
    with Cons.IH [of r] show ?thesis by auto
  qed simp
qed

lemma prefix_strip_split:
  "\<exists>n. p = prefix_strip p @ replicate n 0xFF" "prefix_strip p \<noteq> [] \<Longrightarrow> last (prefix_strip p) \<noteq> 0xFF"
proof -
  let ?t = "takeWhile (\<lambda>b. b = 0xFF) (rev p)"
  have "p = rev (?t @ dropWhile (\<lambda>b. b = 0xFF) (rev p))" unfolding takeWhile_dropWhile_id by simp
  then have "p = prefix_strip p @ rev ?t" unfolding prefix_strip_def rev_append .
  moreover have "rev ?t = replicate (length ?t) 0xFF"
    by (rule replicate_eqI) (auto dest: set_takeWhileD)
  ultimately show "\<exists>n. p = prefix_strip p @ replicate n 0xFF" by metis
  assume ne: "prefix_strip p \<noteq> []"
  then have "dropWhile (\<lambda>b. b = 0xFF) (rev p) \<noteq> []" by (simp add: prefix_strip_def)
  from hd_dropWhile [OF this] show "last (prefix_strip p) \<noteq> 0xFF" by (simp add: prefix_strip_def last_rev)
qed

text \<open>
  C40: the bounds of a prefix scan select exactly the keys that begin with the prefix, for an empty
  prefix and for prefixes that end in bytes 255 too.
\<close>

theorem prefix_scan_bounds_exact:
  "(case PrefixScan_bounds p of (lower, upper) \<Rightarrow> ri_above lower k \<and> \<not> ri_beyond upper k) \<longleftrightarrow> has_prefix p k"
proof (cases "prefix_strip p = []")
  case True
  then obtain n where "p = replicate n 0xFF" using prefix_strip_split(1) [of p] by auto
  with True all_ff_prefix [of n k] show ?thesis
    by (auto simp: PrefixScan_bounds_def ri_above_def ri_beyond_def rb_Inclusive_def rb_Unbounded_def IsUnbounded_def)
next
  case False
  obtain n where p: "p = prefix_strip p @ replicate n 0xFF" using prefix_strip_split(1) by blast
  let ?q = "butlast (prefix_strip p)" and ?c = "last (prefix_strip p)"
  have "prefix_strip p = ?q @ [?c]" using False by simp
  then have "p = ?q @ ?c # replicate n 0xFF" using p by (metis append.assoc append_Cons append_Nil)
  moreover have "?c \<noteq> 0xFF" using False by (rule prefix_strip_split(2))
  ultimately have "p \<le> k \<and> k < ?q @ [?c + 1] \<longleftrightarrow> has_prefix p k" using prefix_interval [of ?c ?q n k] by metis
  moreover have "p \<noteq> []" using p False by auto
  ultimately show ?thesis
    using False
    by (auto simp: PrefixScan_bounds_def ri_above_def ri_beyond_def rb_Inclusive_def rb_Exclusive_def IsUnbounded_def Let_def)
qed

end
