(* ===== verification/Engine_Scan.thy ===== *)
theory Engine_Scan
  imports Engine_Reads Level_Iter Range_Scan
begin

text \<open>
  Range scans of the engine (\<open>RangeScan\<close> in \<^verbatim>\<open>src/engine.cpp\<close>): copies of the leaves of the memtables that meet the bounds
  (\<open>MaterializedMemTableSource\<close> in \<^verbatim>\<open>include/kvdb/iterator.hpp\<close>), the tables of level 0 and one \<open>LevelIterator\<close> for each level
  below, merged by \<open>RangeIterator\<close>. A source stands for the three classes behind \<open>SourceIterator\<close>; the merge takes from it the list of
  entries it delivers. The catalogue of tables and the memtables are read at two moments, which are two states here.
\<close>

section \<open>The copy of a memtable\<close>

text \<open>\<open>Load\<close> passes over aborted entries inside the current leaf only.\<close>

fun ms_load :: "u64 list \<Rightarrow> walk \<Rightarrow> walk" where
  "ms_load ab ([], p) = ([], p)"
| "ms_load ab (l # ls, p) = (l # ls, walk_skip ab l p)"

definition ms_new :: "u64 list \<Rightarrow> KeyValuePair list list \<Rightarrow> walk" where
  "ms_new ab leaves = ms_load ab (dropWhile (\<lambda>l. l = []) leaves, 0)"

definition ms_Next :: "u64 list \<Rightarrow> walk \<Rightarrow> walk" where
  "ms_Next ab w = ms_load ab (walk_step w)"

lemma walk_rest_load: "length (walk_rest (ms_load ab w)) \<le> length (walk_rest w)"
  by (cases "(ab, w)" rule: ms_load.cases) (auto simp: walk_skip_def)

lemma ms_Next_shorter: "walk_Valid w \<Longrightarrow> length (walk_rest (ms_Next ab w)) < length (walk_rest w)"
  using walk_rest_load [of ab "walk_step w"] by (simp add: walk_rest_step ms_Next_def)

function ms_SeekToKey :: "u64 list \<Rightarrow> bytes \<Rightarrow> walk \<Rightarrow> walk" where
  "ms_SeekToKey ab key w =
     (if walk_Valid w \<and> kv_key (walk_Current w) < key then ms_SeekToKey ab key (ms_Next ab w) else w)"
  by pat_completeness auto
termination
  by (relation "measure (\<lambda>(_, _, w). length (walk_rest w))") (auto simp: ms_Next_shorter)

declare ms_SeekToKey.simps [simp del]

section \<open>Sources\<close>

datatype source = Src_mem "u64 list" walk | Src_table "(u64 list \<times> bytes) option" sst_iter | Src_level level_iter

fun src_Valid :: "source \<Rightarrow> bool" where
  "src_Valid (Src_mem ab w) = walk_Valid w"
| "src_Valid (Src_table idx it) = it_Valid it"
| "src_Valid (Src_level it) = li_Valid it"

fun src_Current :: "source \<Rightarrow> KeyValuePair" where
  "src_Current (Src_mem ab w) = walk_Current w"
| "src_Current (Src_table idx it) = it_current it"
| "src_Current (Src_level it) = li_Current it"

fun src_Next :: "source \<Rightarrow> source" where
  "src_Next (Src_mem ab w) = Src_mem ab (ms_Next ab w)"
| "src_Next (Src_table idx it) = Src_table idx (it_Next it)"
| "src_Next (Src_level it) = Src_level (li_Next it)"

text \<open>\<open>None\<close>: the loop in a damaged table does not end.\<close>

fun src_SeekToKey :: "bytes \<Rightarrow> source \<Rightarrow> source option" where
  "src_SeekToKey key (Src_mem ab w) = Some (Src_mem ab (ms_SeekToKey ab key w))"
| "src_SeekToKey key (Src_table idx it) = map_option (Src_table idx) (it_SeekToKey idx key it)"
| "src_SeekToKey key (Src_level it) = map_option Src_level (li_SeekToKey key it)"

partial_function (option) src_all :: "source \<Rightarrow> KeyValuePair list option" where
  "src_all s = (if src_Valid s then Option.bind (src_all (src_Next s)) (\<lambda>es. Some (src_Current s # es)) else Some [])"

declare src_all.simps [code]

definition src_lower :: "RangeBound \<Rightarrow> source \<Rightarrow> source option" where
  "src_lower lower s = (if IsUnbounded lower then Some s else src_SeekToKey (rb_key lower) s)"

section \<open>RangeScan\<close>

text \<open>A leaf is copied unless all its keys lie on one side of the bounds.\<close>

definition leaf_meets :: "RangeBound \<Rightarrow> RangeBound \<Rightarrow> KeyValuePair list \<Rightarrow> bool" where
  "leaf_meets lower upper l \<longleftrightarrow> l \<noteq> []
     \<and> (IsUnbounded lower \<or> (if rb_inclusive lower then kv_key (last l) \<ge> rb_key lower else kv_key (last l) > rb_key lower))
     \<and> (IsUnbounded upper \<or> (if rb_inclusive upper then kv_key (hd l) \<le> rb_key upper else kv_key (hd l) < rb_key upper))"

definition materialize :: "RangeBound \<Rightarrow> RangeBound \<Rightarrow> memtable \<Rightarrow> source option" where
  "materialize lower upper m =
     (if mt_count m = 0 then None
      else let ls = filter (leaf_meets lower upper) (bt_leaves (mt_tree m)); ab = mt_aborted m
           in if ls = [] then None
              else let w = ms_new ab ls;
                       w = (if IsUnbounded lower then w else ms_SeekToKey ab (rb_key lower) w)
                   in if walk_Valid w then Some (Src_mem ab w) else None)"

text \<open>A new source is dropped unless it is valid, before and after it is moved to the lower bound.\<close>

definition src_open :: "RangeBound \<Rightarrow> source \<Rightarrow> source list option" where
  "src_open lower s = (if src_Valid s then map_option (\<lambda>s. if src_Valid s then [s] else []) (src_lower lower s) else Some [])"

definition table_meets :: "RangeBound \<Rightarrow> RangeBound \<Rightarrow> SstMetadata \<Rightarrow> bool" where
  "table_meets lower upper m \<longleftrightarrow> \<not> (\<not> IsUnbounded upper \<and> md_min_key m \<noteq> [] \<and> md_min_key m > rb_key upper)
     \<and> \<not> (\<not> IsUnbounded lower \<and> md_max_key m \<noteq> [] \<and> md_max_key m < rb_key lower)"

definition scan_tables :: "RangeBound \<Rightarrow> RangeBound \<Rightarrow> (bytes \<Rightarrow> bytes option) \<Rightarrow> block_cache option \<Rightarrow> SstMetadata list \<Rightarrow> source list" where
  "scan_tables lower upper disk cache snap =
     (let ms = filter (table_meets lower upper) snap; below = filter (\<lambda>m. md_level m \<noteq> 0) ms
      in map (\<lambda>m. Src_table (table_index m) (table_iter disk cache m)) (filter (\<lambda>m. md_level m = 0) ms)
         @ map (\<lambda>lvl. Src_level (li_new disk cache (filter (\<lambda>m. md_level m = lvl) below))) (sort_key sint (remdups (map md_level below))))"

text \<open>The constructor of \<open>RangeIterator\<close> moves every source to the lower bound once more.\<close>

definition ri_open :: "(nat list \<Rightarrow> nat list) \<Rightarrow> source list \<Rightarrow> u64 \<Rightarrow> RangeBound \<Rightarrow> RangeBound \<Rightarrow> range_iter option" where
  "ri_open ties sources read_ts lower upper = do {
     ss \<leftarrow> all_some (map (src_lower lower) sources);
     ls \<leftarrow> all_some (map src_all ss);
     Some (ri_start ties ls read_ts lower upper)}"

text \<open>
  The state \<open>e0\<close> is that of the snapshot of timestamp and catalogue, \<open>e1\<close> that of the snapshot of the memtables.
\<close>

definition eng_scan_at :: "(nat list \<Rightarrow> nat list) \<Rightarrow> RangeBound \<Rightarrow> RangeBound \<Rightarrow> engine \<Rightarrow> engine \<Rightarrow> range_iter option" where
  "eng_scan_at ties lower upper e0 e1 = do {
     let mems = List.map_filter (materialize lower upper) (eg_active e1 # eg_frozen e1);
     tables \<leftarrow> all_some (map (src_open lower) (scan_tables lower upper (eg_files e1) (eg_cache e1) (map et_meta (eg_tables e0))));
     ri_open ties (mems @ concat tables) (eg_global_ts e0) lower upper}"

definition eng_RangeScan :: "(nat list \<Rightarrow> nat list) \<Rightarrow> RangeBound \<Rightarrow> RangeBound \<Rightarrow> engine \<Rightarrow> range_iter option" where
  "eng_RangeScan ties lower upper e = eng_scan_at ties lower upper e e"

definition eng_PrefixScan :: "(nat list \<Rightarrow> nat list) \<Rightarrow> bytes \<Rightarrow> engine \<Rightarrow> range_iter option" where
  "eng_PrefixScan ties prefix e = (case PrefixScan_bounds prefix of (lower, upper) \<Rightarrow> eng_RangeScan ties lower upper e)"

section \<open>The source interface for the copy of a memtable\<close>

text \<open>No leaf is empty or ends in an aborted entry.\<close>

definition leaf_ends_live :: "u64 list \<Rightarrow> KeyValuePair list \<Rightarrow> bool" where
  "leaf_ends_live ab l \<longleftrightarrow> l \<noteq> [] \<and> kv_timestamp (last l) \<notin> set ab"

definition ms_inv :: "u64 list \<Rightarrow> walk \<Rightarrow> bool" where
  "ms_inv ab w \<longleftrightarrow> list_all (leaf_ends_live ab) (fst w) \<and> (fst w \<noteq> [] \<longrightarrow> walk_Valid w \<and> kv_timestamp (walk_Current w) \<notin> set ab)"

definition ms_rest :: "u64 list \<Rightarrow> walk \<Rightarrow> KeyValuePair list" where
  "ms_rest ab w = kept ab (walk_rest w)"

lemma walk_skip_live:
  assumes "leaf_ends_live ab l" and "p < length l"
  shows "walk_skip ab l p < length l"
proof -
  let ?P = "\<lambda>e. kv_timestamp e \<in> set ab"
  have ne: "drop p l \<noteq> []" using assms by simp
  have "last l \<in> set (drop p l)" "\<not> ?P (last l)"
    using last_in_set [OF ne] assms by (simp_all add: leaf_ends_live_def)
  then have "dropWhile ?P (drop p l) \<noteq> []" by (auto simp: dropWhile_eq_Nil_conv)
  then have "length (takeWhile ?P (drop p l)) < length (drop p l)"
    using takeWhile_dropWhile_id [of ?P "drop p l"] by (metis length_append length_greater_0_conv less_add_same_cancel1)
  then show ?thesis using assms(2) by (simp add: walk_skip_def)
qed

lemma ms_load_inv:
  assumes "list_all (leaf_ends_live ab) ls" and "ls \<noteq> [] \<Longrightarrow> p < length (hd ls)"
  shows "ms_inv ab (ms_load ab (ls, p)) \<and> ms_rest ab (ms_load ab (ls, p)) = ms_rest ab (ls, p)"
proof (cases ls)
  case (Cons l ls')
  with assms have "walk_skip ab l p < length l" by (simp add: walk_skip_live)
  with Cons assms filter_skip(1) [of p l ab] show ?thesis by (simp add: ms_inv_def ms_rest_def filter_skip(2))
qed (simp add: ms_inv_def ms_rest_def)

lemma dropWhile_live: "list_all (leaf_ends_live ab) ls \<Longrightarrow> dropWhile (\<lambda>l. l = []) ls = ls"
  by (cases ls) (auto simp: leaf_ends_live_def)

lemma ms_new_inv:
  assumes "list_all (leaf_ends_live ab) ls"
  shows "ms_inv ab (ms_new ab ls) \<and> ms_rest ab (ms_new ab ls) = kept ab (concat ls)"
  using ms_load_inv [OF assms, of 0] assms by (cases ls) (auto simp: ms_new_def dropWhile_live leaf_ends_live_def ms_rest_def)

lemma ms_Next_inv:
  assumes "ms_inv ab w" and "walk_Valid w"
  shows "ms_inv ab (ms_Next ab w) \<and> ms_rest ab (ms_Next ab w) = ms_rest ab (walk_step w)"
proof -
  obtain l ls p where w: "w = (l # ls, p)" "p < length l" using assms(2) by (cases w rule: walk_Valid.cases) auto
  have c: "list_all (leaf_ends_live ab) (l # ls)" using assms(1) w by (simp add: ms_inv_def)
  have "ls \<noteq> [] \<Longrightarrow> 0 < length (hd ls)" using c by (cases ls) (simp_all add: leaf_ends_live_def)
  moreover have "dropWhile (\<lambda>l. l = []) ls = ls" using c by (intro dropWhile_live [of ab]) simp
  ultimately show ?thesis using w c ms_load_inv [of ab ls 0] ms_load_inv [of ab "l # ls" "p + 1"]
    by (auto simp: ms_Next_def)
qed

interpretation mem: source_iter "ms_inv ab" walk_Valid walk_Current "ms_Next ab" "ms_rest ab"
proof
  fix w assume inv: "ms_inv ab w"
  have r: "ms_rest ab w = walk_Current w # ms_rest ab (walk_step w)" if "walk_Valid w"
    using inv that walk_rest_step [OF that] by (cases w) (auto simp: ms_rest_def ms_inv_def)
  show "walk_Valid w \<longleftrightarrow> ms_rest ab w \<noteq> []"
    using inv r by (cases w rule: walk_Valid.cases) (auto simp: ms_inv_def ms_rest_def)
  assume v: "walk_Valid w"
  show "ms_inv ab (ms_Next ab w)" using ms_Next_inv [OF inv v] by simp
  show "walk_Current w = hd (ms_rest ab w)" "ms_rest ab (ms_Next ab w) = tl (ms_rest ab w)"
    using r [OF v] ms_Next_inv [OF inv v] by simp_all
qed

section \<open>The three kinds of sources\<close>

fun src_inv :: "source \<Rightarrow> bool" where
  "src_inv (Src_mem ab w) = ms_inv ab w"
| "src_inv (Src_table idx it) = it_inv it"
| "src_inv (Src_level it) = li_inv it"

fun src_rest :: "source \<Rightarrow> KeyValuePair list" where
  "src_rest (Src_mem ab w) = ms_rest ab w"
| "src_rest (Src_table idx it) = it_rest it"
| "src_rest (Src_level it) = li_rest it"

interpretation src: source_iter src_inv src_Valid src_Current src_Next src_rest
proof
  fix s assume inv: "src_inv s"
  show "src_Valid s \<longleftrightarrow> src_rest s \<noteq> []"
    using inv by (cases s) (simp_all add: mem.valid_rest sst.valid_rest lvl.valid_rest)
  assume v: "src_Valid s"
  show "src_inv (src_Next s)" using inv v by (cases s) (simp_all add: mem.inv_nxt sst.inv_nxt lvl.inv_nxt)
  show "src_Current s = hd (src_rest s)" using inv v by (cases s) (simp_all add: mem.cur_rest sst.cur_rest lvl.cur_rest)
  show "src_rest (src_Next s) = tl (src_rest s)" using inv v by (cases s) (simp_all add: mem.rest_nxt sst.rest_nxt lvl.rest_nxt)
qed

lemma src_all_rest: "src_inv s \<Longrightarrow> src_all s = Some (src_rest s)"
  by (rule src.all_rest [OF src_all.simps])

lemma ms_SeekToKey_rest:
  assumes "ms_inv ab w"
  shows "ms_inv ab (ms_SeekToKey ab key w) \<and> ms_rest ab (ms_SeekToKey ab key w) = dropWhile (\<lambda>e. kv_key e < key) (ms_rest ab w)"
proof -
  have "Some (ms_SeekToKey ab key w)
      = (if walk_Valid w \<and> kv_key (walk_Current w) < key then Some (ms_SeekToKey ab key (ms_Next ab w)) else Some w)" for w
    by (subst ms_SeekToKey.simps) simp
  from mem.seek_rest [of "\<lambda>w. Some (ms_SeekToKey ab key w)", OF this assms] show ?thesis by auto
qed

text \<open>A source that a seek to the lower bound moves as the interface says.\<close>

definition src_sought :: "RangeBound \<Rightarrow> source \<Rightarrow> bool" where
  "src_sought lower s \<longleftrightarrow> src_inv s \<and> (\<exists>s'. src_lower lower s = Some s' \<and> src_inv s'
     \<and> src_rest s' = (if IsUnbounded lower then src_rest s else dropWhile (\<lambda>e. kv_key e < rb_key lower) (src_rest s)))"

lemma src_sought_mem: "ms_inv ab w \<Longrightarrow> src_sought lower (Src_mem ab w)"
  using ms_SeekToKey_rest [of ab w "rb_key lower"] by (simp add: src_sought_def src_lower_def)

lemma src_sought_unbounded: "src_inv s \<Longrightarrow> IsUnbounded lower \<Longrightarrow> src_sought lower s"
  by (simp add: src_sought_def src_lower_def)

lemma all_some_map: "(\<And>x. x \<in> set xs \<Longrightarrow> f x = Some (g x)) \<Longrightarrow> all_some (map f xs) = Some (map g xs)"
  by (induction xs) simp_all

lemma ri_open_lists:
  assumes "\<forall>s \<in> set sources. src_sought lower s"
  shows "ri_open ties sources t lower upper = Some (ri_new ties (map src_rest sources) t lower upper)"
proof -
  define g where "g s = the (src_lower lower s)" for s
  have g: "src_lower lower s = Some (g s)" "src_all (g s) = Some (src_rest (g s))"
    "src_rest (g s) = (if IsUnbounded lower then src_rest s else dropWhile (\<lambda>e. kv_key e < rb_key lower) (src_rest s))"
    if "s \<in> set sources" for s
    using assms that by (auto simp: src_sought_def g_def src_all_rest)
  have "all_some (map (src_lower lower) sources) = Some (map g sources)" by (rule all_some_map) (rule g)
  moreover have "all_some (map src_all (map g sources)) = Some (map (src_rest \<circ> g) sources)"
    unfolding map_map by (rule all_some_map) (simp add: g)
  moreover have "map (src_rest \<circ> g) sources
      = (if IsUnbounded lower then map src_rest sources else map (dropWhile (\<lambda>e. kv_key e < rb_key lower)) (map src_rest sources))"
    using g(3) by simp
  ultimately show ?thesis unfolding ri_open_def ri_new_def by simp
qed

section \<open>What the sources have\<close>

definition in_bounds :: "RangeBound \<Rightarrow> RangeBound \<Rightarrow> bytes \<Rightarrow> bool" where
  "in_bounds lower upper k \<longleftrightarrow> ri_above lower k \<and> \<not> ri_beyond upper k"

text \<open>A part of the entries, in order, that has all entries inside the bounds.\<close>

definition covers :: "RangeBound \<Rightarrow> RangeBound \<Rightarrow> KeyValuePair list \<Rightarrow> KeyValuePair list \<Rightarrow> bool" where
  "covers lower upper es part \<longleftrightarrow> set part \<subseteq> set es \<and> (\<forall>e \<in> set es. in_bounds lower upper (kv_key e) \<longrightarrow> e \<in> set part)"

lemma scan_result_covers: "covers lower upper es part \<Longrightarrow> scan_result t (in_bounds lower upper) part out = scan_result t (in_bounds lower upper) es out"
  by (auto simp: covers_def scan_result_def newest_def)

lemma covers_append: "covers lower upper es part \<Longrightarrow> covers lower upper es' part' \<Longrightarrow> covers lower upper (es @ es') (part @ part')"
  by (auto simp: covers_def)

lemma covers_concat: "(\<And>x. x \<in> set xs \<Longrightarrow> covers lower upper (f x) (g x)) \<Longrightarrow> covers lower upper (concat (map f xs)) (concat (map g xs))"
  by (auto simp: covers_def)

lemma covers_refl: "covers lower upper es es"
  by (simp add: covers_def)

text \<open>The entries of a memtable that no aborted batch wrote.\<close>

definition mt_live :: "memtable \<Rightarrow> KeyValuePair list" where
  "mt_live m = kept (mt_aborted m) (bt_entries (mt_tree m))"

text \<open>
  A memtable that a scan reads correctly: its keys are in order, no leaf ends in an aborted entry, and each key has one version.
\<close>

definition mem_scannable :: "memtable \<Rightarrow> bool" where
  "mem_scannable m \<longleftrightarrow> (mt_count m = 0 \<longrightarrow> bt_entries (mt_tree m) = []) \<and> sorted (map kv_key (bt_entries (mt_tree m)))
     \<and> (\<forall>l \<in> set (bt_leaves (mt_tree m)). l \<noteq> [] \<longrightarrow> kv_timestamp (last l) \<notin> set (mt_aborted m)) \<and> strictly_sorted (mt_live m)"

lemma strictly_sorted_append:
  "strictly_sorted (xs @ ys) \<longleftrightarrow> strictly_sorted xs \<and> strictly_sorted ys \<and> (\<forall>x \<in> set xs. \<forall>y \<in> set ys. kv_key x < kv_key y)"
  by (auto simp: strictly_sorted_def sorted_wrt_append)

lemma strictly_sorted_parts: "strictly_sorted (kept ab (concat ls)) \<Longrightarrow> strictly_sorted (kept ab (concat (filter P ls)))"
  by (induction ls) (auto simp: strictly_sorted_append)

lemma strictly_sorted_dropWhile: "strictly_sorted es \<Longrightarrow> strictly_sorted (dropWhile P es)"
  by (metis strictly_sorted_append takeWhile_dropWhile_id)

lemma sorted_leaf: "sorted (map kv_key (concat ls)) \<Longrightarrow> l \<in> set ls \<Longrightarrow> sorted (map kv_key l)"
  by (induction ls) (auto simp: sorted_append)

lemma leaf_meets_covers:
  assumes "sorted (map kv_key l)" and "e \<in> set l" and "in_bounds lower upper (kv_key e)"
  shows "leaf_meets lower upper l"
proof -
  obtain i where "i < length l" "e = l ! i" using assms(2) by (auto simp: in_set_conv_nth)
  moreover have ne: "l \<noteq> []" using assms(2) by auto
  ultimately have "kv_key (l ! 0) \<le> kv_key e" "kv_key e \<le> kv_key (l ! (length l - 1))"
    using sorted_nth_mono [OF assms(1), of 0 i] sorted_nth_mono [OF assms(1), of i "length l - 1"] by (simp_all add: nth_map)
  with ne show ?thesis
    using assms(3) by (auto simp: leaf_meets_def in_bounds_def ri_above_def ri_beyond_def hd_conv_nth last_conv_nth not_less not_le)
qed

lemma ri_above_dropWhile:
  assumes "strictly_sorted es" and "\<not> IsUnbounded lower"
  shows "covers lower upper es (dropWhile (\<lambda>e. kv_key e < rb_key lower) es)"
proof -
  have "rb_key lower \<le> k" if "in_bounds lower upper k" for k
    using that assms(2) by (cases "rb_inclusive lower") (auto simp: in_bounds_def ri_above_def intro: order.strict_implies_order)
  then show ?thesis unfolding covers_def dropWhile_sorted [OF assms(1), THEN conjunct1] by blast
qed

lemma covers_trans: "covers lower upper es part \<Longrightarrow> covers lower upper part part' \<Longrightarrow> covers lower upper es part'"
  by (auto simp: covers_def)

lemma materialize_ok:
  assumes "mem_scannable m"
  obtains "materialize lower upper m = None" "covers lower upper (mt_live m) []"
  | s where "materialize lower upper m = Some s" "src_sought lower s" "strictly_sorted (src_rest s)" "covers lower upper (mt_live m) (src_rest s)"
proof (cases "mt_count m = 0")
  case True
  then show thesis using assms that(1) by (simp add: materialize_def mem_scannable_def mt_live_def covers_def)
next
  case False
  let ?ab = "mt_aborted m"
  define leaves where "leaves = bt_leaves (mt_tree m)"
  define ls where "ls = filter (leaf_meets lower upper) leaves"
  have live: "mt_live m = kept ?ab (concat leaves)" by (simp add: mt_live_def leaves_def bt_entries_leaves)
  have "sorted (map kv_key l)" if "l \<in> set leaves" for l
    using assms that sorted_leaf by (auto simp: mem_scannable_def leaves_def bt_entries_leaves)
  then have cov: "covers lower upper (mt_live m) (kept ?ab (concat ls))"
    unfolding live ls_def covers_def using leaf_meets_covers by fastforce
  have srt: "strictly_sorted (kept ?ab (concat ls))"
    using assms strictly_sorted_parts [of ?ab leaves] unfolding ls_def by (simp add: mem_scannable_def live)
  have "list_all (leaf_ends_live ?ab) ls"
    using assms by (auto simp: ls_def leaves_def list_all_iff leaf_ends_live_def leaf_meets_def mem_scannable_def)
  note new = ms_new_inv [OF this]
  define w where "w = (if IsUnbounded lower then ms_new ?ab ls else ms_SeekToKey ?ab (rb_key lower) (ms_new ?ab ls))"
  have w: "ms_inv ?ab w" "strictly_sorted (ms_rest ?ab w)" "covers lower upper (mt_live m) (ms_rest ?ab w)"
    using new ms_SeekToKey_rest [of ?ab "ms_new ?ab ls" "rb_key lower"] srt cov strictly_sorted_dropWhile [OF srt]
      covers_trans [OF cov ri_above_dropWhile [OF srt]] by (auto simp: w_def)
  have mat: "materialize lower upper m = (if ls = [] then None else if walk_Valid w then Some (Src_mem ?ab w) else None)"
    using False by (simp add: materialize_def Let_def w_def ls_def leaves_def)
  show thesis
  proof (cases "ls \<noteq> [] \<and> walk_Valid w")
    case True
    then show thesis using mat w src_sought_mem [OF w(1)] by (intro that(2) [of "Src_mem ?ab w"]) auto
  next
    case False
    then have "ms_rest ?ab w = [] \<or> kept ?ab (concat ls) = []" using mem.valid_rest [OF w(1)] by auto
    then show thesis using False mat w(3) cov by (intro that(1)) auto
  qed
qed

lemma map_filter_covers:
  assumes "\<forall>m \<in> set ms. mem_scannable m"
  shows "(\<forall>s \<in> set (List.map_filter (materialize lower upper) ms). src_sought lower s \<and> strictly_sorted (src_rest s))
    \<and> covers lower upper (concat (map mt_live ms)) (concat (map src_rest (List.map_filter (materialize lower upper) ms)))"
  using assms
proof (induction ms)
  case (Cons m ms)
  then have "mem_scannable m" by simp
  then show ?case
  proof (cases rule: materialize_ok [of m lower upper])
    case 1
    with Cons covers_append [OF 1(2)] show ?thesis by (simp add: List.map_filter_simps)
  next
    case (2 s)
    with Cons covers_append [OF 2(4)] show ?thesis by (simp add: List.map_filter_simps)
  qed
qed (simp add: List.map_filter_simps covers_refl)

text \<open>
  Tables that a scan without a lower bound reads correctly: one version of each key, the least key as it is in the catalogue,
  and below level 0 no overlap within a level.
\<close>

definition tables_scannable ::
  "(bytes \<Rightarrow> bytes option) \<Rightarrow> block_cache option \<Rightarrow> (SstMetadata \<Rightarrow> KeyValuePair list) \<Rightarrow> SstMetadata list \<Rightarrow> bool" where
  "tables_scannable disk c es ms \<longleftrightarrow>
     (\<forall>m \<in> set ms. table_holds disk c m (es m) \<and> strictly_sorted (es m) \<and> (\<forall>e \<in> set (es m). md_min_key m \<le> kv_key e))
     \<and> (\<forall>l. l \<noteq> 0 \<longrightarrow> sorted_wrt (\<lambda>m m'. \<forall>e \<in> set (es m). \<forall>e' \<in> set (es m'). kv_key e < kv_key e')
            (sort_key md_min_key (filter (\<lambda>m. md_level m = l) ms)))"

lemma tables_scannable_filter:
  assumes "tables_scannable disk c es ms"
  shows "tables_scannable disk c es (filter P ms)"
proof -
  let ?R = "\<lambda>m m'. \<forall>e \<in> set (es m). \<forall>e' \<in> set (es m'). kv_key e < kv_key e'"
  have "sorted_wrt ?R (sort_key md_min_key (filter (\<lambda>m. md_level m = l) (filter P ms)))" if "l \<noteq> 0" for l
  proof -
    have "sorted_wrt ?R (filter P (sort_key md_min_key (filter (\<lambda>m. md_level m = l) ms)))"
      using assms that by (intro sorted_wrt_filter) (simp add: tables_scannable_def)
    then show ?thesis unfolding filter_sort filter_filter by (simp only: conj_commute)
  qed
  with assms show ?thesis by (simp add: tables_scannable_def)
qed

lemma strictly_sorted_chain:
  "\<forall>m \<in> set ms. strictly_sorted (es m) \<Longrightarrow> sorted_wrt (\<lambda>m m'. \<forall>e \<in> set (es m). \<forall>e' \<in> set (es m'). kv_key e < kv_key e') ms
   \<Longrightarrow> strictly_sorted (concat (map es ms))"
proof (induction ms)
  case Nil
  show ?case by (simp add: strictly_sorted_def)
qed (auto simp: strictly_sorted_append)

lemma table_source_ok:
  assumes "tables_scannable disk c es ms" and "m \<in> set ms"
  shows "it_inv (table_iter disk c m) \<and> it_rest (table_iter disk c m) = es m"
  using assms table_iter_holds by (auto simp: tables_scannable_def)

lemma level_source_ok:
  assumes "tables_scannable disk c es ms" and "l \<noteq> 0"
  defines "fs \<equiv> filter (\<lambda>m. md_level m = l) ms"
  shows "li_inv (li_new disk c fs) \<and> strictly_sorted (li_rest (li_new disk c fs))
    \<and> set (li_rest (li_new disk c fs)) = (\<Union>m \<in> set fs. set (es m))"
proof -
  have ok: "\<forall>m \<in> set fs. it_inv (table_iter disk c m) \<and> it_rest (table_iter disk c m) = es m"
    using table_source_ok [OF assms(1)] by (simp add: fs_def)
  then have "map (it_rest \<circ> table_iter disk c) (sort_key md_min_key fs) = map es (sort_key md_min_key fs)" by simp
  with ok li_new_spec [of fs disk c]
  have r: "li_inv (li_new disk c fs)" "li_rest (li_new disk c fs) = concat (map es (sort_key md_min_key fs))" by simp_all
  have "strictly_sorted (concat (map es (sort_key md_min_key fs)))"
    using assms(1,2) by (intro strictly_sorted_chain) (simp_all add: tables_scannable_def fs_def)
  with r show ?thesis by simp
qed

lemma scan_tables_levels:
  obtains ls where "set ls = md_level ` set (filter (table_meets lower upper) ms) - {0}"
    "scan_tables lower upper disk c ms = (let us = filter (table_meets lower upper) ms
       in map (\<lambda>m. Src_table (table_index m) (table_iter disk c m)) (filter (\<lambda>m. md_level m = 0) us)
          @ map (\<lambda>l. Src_level (li_new disk c (filter (\<lambda>m. md_level m = l) us))) ls)"
proof -
  let ?us = "filter (table_meets lower upper) ms"
  let ?ls = "sort_key sint (remdups (map md_level (filter (\<lambda>m. md_level m \<noteq> 0) ?us)))"
  have "filter (\<lambda>m. md_level m = l) (filter (\<lambda>m. md_level m \<noteq> 0) ?us) = filter (\<lambda>m. md_level m = l) ?us" if "l \<in> set ?ls" for l
    using that by (auto intro!: filter_cong)
  then show thesis by (intro that [of ?ls]) (auto simp: scan_tables_def Let_def simp del: filter_filter)
qed

lemma scan_tables_ok:
  assumes "tables_scannable disk c es ms" and "IsUnbounded lower"
    and ss_def: "ss = scan_tables lower upper disk c ms"
  shows "(\<forall>s \<in> set ss. src_inv s \<and> strictly_sorted (src_rest s)) \<and> covers lower upper (concat (map es ms)) (concat (map src_rest ss))"
proof -
  define us where "us = filter (table_meets lower upper) ms"
  have us: "tables_scannable disk c es us" unfolding us_def by (rule tables_scannable_filter [OF assms(1)])
  obtain ls where ls: "set ls = md_level ` set us - {0}"
    "ss = map (\<lambda>m. Src_table (table_index m) (table_iter disk c m)) (filter (\<lambda>m. md_level m = 0) us)
       @ map (\<lambda>l. Src_level (li_new disk c (filter (\<lambda>m. md_level m = l) us))) ls"
    using scan_tables_levels [of lower upper ms disk c] unfolding ss_def us_def Let_def by blast
  have lv: "li_inv (li_new disk c (filter (\<lambda>m. md_level m = l) us))
      \<and> strictly_sorted (li_rest (li_new disk c (filter (\<lambda>m. md_level m = l) us)))
      \<and> set (li_rest (li_new disk c (filter (\<lambda>m. md_level m = l) us))) = (\<Union>m \<in> {m \<in> set us. md_level m = l}. set (es m))" if "l \<in> set ls" for l
    using level_source_ok [OF us, of l] that ls(1) by simp
  have srt: "strictly_sorted (es m)" if "m \<in> set us" for m using us that by (simp add: tables_scannable_def)
  have 0: "src_inv s \<and> strictly_sorted (src_rest s)" if "s \<in> set ss" for s
    using that table_source_ok [OF us] lv srt by (auto simp: ls(2))
  have "set (concat (map src_rest ss)) = (\<Union>m \<in> {m \<in> set us. md_level m = 0}. set (es m)) \<union> (\<Union>l \<in> set ls. \<Union>m \<in> {m \<in> set us. md_level m = l}. set (es m))"
    using table_source_ok [OF us] lv by (simp add: ls(2))
  also have "\<dots> = (\<Union>m \<in> set us. set (es m))" unfolding ls(1) by auto
  finally have "set (concat (map src_rest ss)) = (\<Union>m \<in> set us. set (es m))" .
  moreover have "m \<in> set us" if "m \<in> set ms" "e \<in> set (es m)" "in_bounds lower upper (kv_key e)" for m e
  proof -
    have "md_min_key m \<le> kv_key e" using assms(1) that(1,2) by (simp add: tables_scannable_def)
    then have "\<not> md_min_key m > rb_key upper" if "\<not> IsUnbounded upper"
      using that \<open>in_bounds lower upper (kv_key e)\<close> by (auto simp: in_bounds_def ri_beyond_def split: if_splits)
    then show ?thesis using that(1) assms(2) by (auto simp: us_def table_meets_def)
  qed
  ultimately have "covers lower upper (concat (map es ms)) (concat (map src_rest ss))" by (auto simp: covers_def us_def)
  with 0 show ?thesis by blast
qed

lemma src_open_unbounded: "IsUnbounded lower \<Longrightarrow> src_open lower s = Some (if src_Valid s then [s] else [])"
  by (simp add: src_open_def src_lower_def)

lemma concat_filter_valid:
  "\<forall>s \<in> set ss. src_inv s \<Longrightarrow> concat (map src_rest (filter src_Valid ss)) = concat (map src_rest ss)"
  by (induction ss) (simp_all add: src.valid_rest)

lemma concat_if: "concat (map (\<lambda>s. if P s then [s] else []) ss) = filter P ss"
  by (induction ss) simp_all

text \<open>All entries of the store.\<close>

definition eng_live :: "(SstMetadata \<Rightarrow> KeyValuePair list) \<Rightarrow> engine \<Rightarrow> KeyValuePair list" where
  "eng_live es e = concat (map mt_live (eg_active e # eg_frozen e)) @ concat (map es (map et_meta (eg_tables e)))"

lemma eng_scan_lists:
  assumes "\<forall>m \<in> set (eg_active e # eg_frozen e). mem_scannable m"
    and "tables_scannable (eg_files e) (eg_cache e) es (map et_meta (eg_tables e))" and "IsUnbounded lower \<or> eg_tables e = []"
  obtains L where "eng_RangeScan ties lower upper e = Some (ri_new ties L (eg_global_ts e) lower upper)"
    "\<forall>s \<in> set L. strictly_sorted s" "covers lower upper (eng_live es e) (concat L)"
proof -
  define mems where "mems = List.map_filter (materialize lower upper) (eg_active e # eg_frozen e)"
  define ts where "ts = filter src_Valid (scan_tables lower upper (eg_files e) (eg_cache e) (map et_meta (eg_tables e)))"
  note m = map_filter_covers [OF assms(1), of lower upper, folded mems_def]
  have t: "(\<forall>s \<in> set ts. src_sought lower s \<and> strictly_sorted (src_rest s))
      \<and> covers lower upper (concat (map es (map et_meta (eg_tables e)))) (concat (map src_rest ts))
      \<and> all_some (map (src_open lower) (scan_tables lower upper (eg_files e) (eg_cache e) (map et_meta (eg_tables e))))
          = Some (map (\<lambda>s. if src_Valid s then [s] else []) (scan_tables lower upper (eg_files e) (eg_cache e) (map et_meta (eg_tables e))))"
  proof (cases "IsUnbounded lower")
    case True
    note ok = scan_tables_ok [OF assms(2) True refl, of upper]
    then show ?thesis using src_sought_unbounded [OF _ True] src_open_unbounded [OF True] concat_filter_valid
      by (auto simp: ts_def intro!: all_some_map)
  next
    case False
    with assms(3) show ?thesis by (simp add: ts_def scan_tables_def covers_refl)
  qed
  let ?L = "map src_rest (mems @ ts)"
  have "eng_RangeScan ties lower upper e = ri_open ties (mems @ ts) (eg_global_ts e) lower upper"
    using t by (simp add: eng_RangeScan_def eng_scan_at_def mems_def concat_if ts_def [symmetric])
  also have "\<dots> = Some (ri_new ties ?L (eg_global_ts e) lower upper)" using m t by (intro ri_open_lists) auto
  finally show thesis using m t covers_append [OF m [THEN conjunct2] t [THEN conjunct2, THEN conjunct1]]
    by (intro that [of ?L]) (auto simp: eng_live_def)
qed

lemma eng_scan_all:
  assumes "\<And>xs. mset (ties xs) = mset xs" and "\<forall>m \<in> set (eg_active e # eg_frozen e). mem_scannable m"
    and "tables_scannable (eg_files e) (eg_cache e) es (map et_meta (eg_tables e))" and "IsUnbounded lower \<or> eg_tables e = []"
  obtains it where "eng_RangeScan ties lower upper e = Some it"
    "scan_result (eg_global_ts e) (in_bounds lower upper) (eng_live es e) (ri_all ties it)"
proof -
  obtain L where L: "eng_RangeScan ties lower upper e = Some (ri_new ties L (eg_global_ts e) lower upper)"
    "\<forall>s \<in> set L. strictly_sorted s" "covers lower upper (eng_live es e) (concat L)"
    by (rule eng_scan_lists [OF assms(2-4)])
  let ?it = "ri_new ties L (eg_global_ts e) lower upper"
  have "scan_result (eg_global_ts e) (in_bounds lower upper) (concat L)
      (ri_collect (Suc (card (set (concat L))) + length (ri_all ties ?it)) ties ?it)"
    unfolding in_bounds_def by (rule range_scan_ok [OF assms(1) L(2)]) linarith
  then have "scan_result (eg_global_ts e) (in_bounds lower upper) (eng_live es e) (ri_all ties ?it)"
    unfolding ri_collect_all using scan_result_covers [OF L(3)] by simp
  with L(1) show thesis by (rule that)
qed

section \<open>Properties\<close>


definition scan_mem :: memtable where
  "scan_mem = (mt_new 3 4000)\<lparr>mt_tree := BNode [] [BLeaf [mk_kv [4] [9] 7, mk_kv [5] [9] 8]], mt_count := 2, mt_aborted := [6]\<rparr>"

definition scan_engine :: engine where
  "scan_engine = (eng_fresh 4000)\<lparr>eg_files := one_entry_disk, eg_active := scan_mem, eg_global_ts := 9, eg_cache := None,
     eg_tables := [\<lparr>et_meta = one_entry_table 1 1, et_source = 1\<rparr>, \<lparr>et_meta = one_entry_table 2 4, et_source = 2\<rparr>]\<rparr>"

definition scan_entries :: "SstMetadata \<Rightarrow> KeyValuePair list" where
  "scan_entries m = (if manifest_seq m = 1 then [mk_kv [1] [2] 3] else [mk_kv [4] [5] 6])"

lemma scan_engine_ok:
  "\<forall>m \<in> set (eg_active scan_engine # eg_frozen scan_engine). mem_scannable m"
  "tables_scannable (eg_files scan_engine) (eg_cache scan_engine) scan_entries (map et_meta (eg_tables scan_engine))"
proof -
  show "\<forall>m \<in> set (eg_active scan_engine # eg_frozen scan_engine). mem_scannable m"
    by (simp add: scan_engine_def eng_fresh_def mem_scannable_def scan_mem_def mt_new_def mt_live_def strictly_sorted_def mk_kv_def)
  have e: "scan_entries (one_entry_table 1 1) = [mk_kv [1] [2] 3]" "scan_entries (one_entry_table 2 4) = [mk_kv [4] [5] 6]"
    by (simp_all add: scan_entries_def one_entry_table_def)
  have l: "md_level (one_entry_table i k) = 1" "md_min_key (one_entry_table i k) = [k]" for i k by (simp_all add: one_entry_table_def)
  show "tables_scannable (eg_files scan_engine) (eg_cache scan_engine) scan_entries (map et_meta (eg_tables scan_engine))"
    using one_entry_holds by (simp add: tables_scannable_def scan_engine_def e l strictly_sorted_def mk_kv_def)
qed


text \<open>
  a scan that takes the catalogue before a flush and the memtables after it sees neither the memtable nor its table: the entries of the only frozen
  memtable are missing and the scan is empty, whatever they are.
\<close>
theorem engine_scan_misses_flushed_memtable:
  assumes "eg_frozen e = [m]" and "mt_count (eg_active e) = 0" and "eg_tables e = []"
  shows "\<exists>it. eng_scan_at ties lower upper e (eng_flush_step bsz io e) = Some it \<and> \<not> ri_valid it"
proof -
  have f: "eg_frozen (eng_flush_step bsz io e) = []" "eg_active (eng_flush_step bsz io e) = eg_active e"
    using assms(1) by (auto simp: eng_flush_step_def eng_DoFlush_def Let_def split: prod.splits sum.splits bool.splits)
  have "materialize lower upper (eg_active e) = None" using assms(2) by (simp add: materialize_def)
  then show ?thesis using f assms(3)
    by (simp add: eng_scan_at_def scan_tables_def ri_open_def ri_start_def ri_FindNext.simps List.map_filter_simps)
qed

theorem engine_scan_misses_flushed_memtable_witness:
  "\<exists>it. eng_scan_at id rb_Unbounded rb_Unbounded ((eng_fresh 4000)\<lparr>eg_frozen := [scan_mem]\<rparr>)
     (eng_flush_step (\<lambda>_. (10, 7)) Io_ok ((eng_fresh 4000)\<lparr>eg_frozen := [scan_mem]\<rparr>)) = Some it \<and> \<not> ri_valid it"
  by (rule engine_scan_misses_flushed_memtable) (simp_all add: eng_fresh_def mt_new_def)

text \<open>
  when an aborted batch wrote all entries of the first leaf, a scan without bounds leaves out the whole memtable, with
  the entries of all other leaves.
\<close>
theorem engine_scan_stops_at_aborted_leaf:
  assumes "bt_leaves (mt_tree m) = l # ls" and "l \<noteq> []" and "\<forall>e \<in> set l. kv_timestamp e \<in> set (mt_aborted m)"
  shows "materialize rb_Unbounded rb_Unbounded m = None"
proof -
  have "length (takeWhile (\<lambda>e. kv_timestamp e \<in> set (mt_aborted m)) l) = length l"
    using assms(3) takeWhile_eq_all_conv [of _ l] by metis
  with assms show ?thesis
    by (simp add: materialize_def leaf_meets_def [abs_def] rb_Unbounded_def IsUnbounded_def ms_new_def walk_skip_def Let_def)
qed

theorem engine_scan_stops_at_aborted_leaf_witness:
  "materialize rb_Unbounded rb_Unbounded (scan_mem\<lparr>mt_tree := BNode [[5]] [BLeaf [mk_kv [4] [9] 6], BLeaf [mk_kv [5] [9] 8]]\<rparr>) = None"
  by (rule engine_scan_stops_at_aborted_leaf [of _ "[mk_kv [4] [9] 6]" "[[mk_kv [5] [9] 8]]"]) (simp_all add: scan_mem_def mk_kv_def mt_new_def)

end
