(* ===== verification/Protocol.thy ===== *)
theory Protocol
  imports Kv_Types
begin

text \<open>
  The wire protocol: \<^verbatim>\<open>src/protocol.cpp\<close> (framing), \<^verbatim>\<open>src/client.cpp\<close> (what each client call sends
  and how it reads the answer) and the dispatch of \<open>Server::HandleClient\<close> in \<^verbatim>\<open>src/server.cpp\<close> (how a
  request is read and what is sent back). A socket is the byte string that the peer still
  delivers before it closes; \<open>RecvAll\<close> that runs into the end fails. A \<open>SendAll\<close> that fails is the flag
  \<open>sent\<close> of \<open>cl_call\<close>. What the engine answers is a parameter of the server's replies.
\<close>

section \<open>Framing\<close>

definition SendString :: "bytes \<Rightarrow> bytes" where
  "SendString s = WriteUint32LE (of_nat (length s)) @ s"

definition RecvString :: "bytes \<Rightarrow> (bytes \<times> bytes) option" where
  "RecvString i = Option.bind (ReadUint32LE i) (\<lambda>(n, r). read_bytes (unat n) r)"

definition SendRangeBound :: "RangeBound \<Rightarrow> bytes" where
  "SendRangeBound b =
     (if IsUnbounded b then [0] else (if rb_inclusive b then 1 else 2) # SendString (rb_key b))"

fun RecvRangeBound :: "bytes \<Rightarrow> (RangeBound \<times> bytes) option" where
  "RecvRangeBound [] = None"
| "RecvRangeBound (flag # r) =
     (if flag = 0 then Some (rb_Unbounded, r)
      else Option.bind (RecvString r) (\<lambda>(k, r). Some (if flag = 1 then rb_Inclusive k else rb_Exclusive k, r)))"

section \<open>Requests\<close>

datatype request =
  WriteReq bytes bytes
| ReadReq bytes
| DeleteReq bytes
| RangeScanReq RangeBound RangeBound
| PrefixScanReq bytes
| BatchBeginReq
| BatchWriteReq bytes bytes
| BatchCommitReq
| BatchAbortReq
| CompareAndSwapReq bytes bytes bytes
| AsyncWriteReq bytes bytes
| AsyncDeleteReq bytes
| LevelCountsReq
| ManualCompactReq u32 u32 bool

definition kWriteReq :: u8 where "kWriteReq = 0x57"
definition kReadReq :: u8 where "kReadReq = 0x52"
definition kDeleteReq :: u8 where "kDeleteReq = 0x44"
definition kRangeScanReq :: u8 where "kRangeScanReq = 0x53"
definition kPrefixScanReq :: u8 where "kPrefixScanReq = 0x50"
definition kBatchBeginReq :: u8 where "kBatchBeginReq = 0x42"
definition kBatchWriteReq :: u8 where "kBatchWriteReq = 0x62"
definition kBatchCommitReq :: u8 where "kBatchCommitReq = 0x43"
definition kBatchAbortReq :: u8 where "kBatchAbortReq = 0x41"
definition kCompareAndSwapReq :: u8 where "kCompareAndSwapReq = 0x5A"
definition kAsyncWriteReq :: u8 where "kAsyncWriteReq = 0x77"
definition kAsyncDeleteReq :: u8 where "kAsyncDeleteReq = 0x64"
definition kLevelCountsReq :: u8 where "kLevelCountsReq = 0x4C"
definition kManualCompactReq :: u8 where "kManualCompactReq = 0x4D"
definition kOkResp :: u8 where "kOkResp = 0x4F"
definition kValueResp :: u8 where "kValueResp = 0x56"
definition kNotFoundResp :: u8 where "kNotFoundResp = 0x4E"
definition kErrorResp :: u8 where "kErrorResp = 0x45"
definition kEndResp :: u8 where "kEndResp = 0x45"

lemmas req_codes = kWriteReq_def kReadReq_def kDeleteReq_def kRangeScanReq_def kPrefixScanReq_def
  kBatchBeginReq_def kBatchWriteReq_def kBatchCommitReq_def kBatchAbortReq_def kCompareAndSwapReq_def
  kAsyncWriteReq_def kAsyncDeleteReq_def kLevelCountsReq_def kManualCompactReq_def
lemmas resp_codes = kOkResp_def kValueResp_def kNotFoundResp_def kErrorResp_def kEndResp_def

text \<open>What the client sends; \<open>BatchDelete\<close> is \<open>BatchWriteReq\<close> with an empty value.\<close>

fun client_send :: "request \<Rightarrow> bytes" where
  "client_send (WriteReq k v) = kWriteReq # SendString k @ SendString v"
| "client_send (AsyncWriteReq k v) = kAsyncWriteReq # SendString k @ SendString v"
| "client_send (ReadReq k) = kReadReq # SendString k"
| "client_send (DeleteReq k) = kDeleteReq # SendString k"
| "client_send (AsyncDeleteReq k) = kAsyncDeleteReq # SendString k"
| "client_send (RangeScanReq lo hi) = kRangeScanReq # SendRangeBound lo @ SendRangeBound hi"
| "client_send (PrefixScanReq p) = kPrefixScanReq # SendString p"
| "client_send BatchBeginReq = [kBatchBeginReq]"
| "client_send (BatchWriteReq k v) = kBatchWriteReq # SendString k @ SendString v"
| "client_send BatchCommitReq = [kBatchCommitReq]"
| "client_send BatchAbortReq = [kBatchAbortReq]"
| "client_send (CompareAndSwapReq k e d) = kCompareAndSwapReq # SendString k @ SendString e @ SendString d"
| "client_send LevelCountsReq = [kLevelCountsReq]"
| "client_send (ManualCompactReq m l c) =
     kManualCompactReq # WriteUint32LE m @ WriteUint32LE l @ [if c then 1 else 0]"

text \<open>
  The head of the loop of \<open>HandleClient\<close>: the request read, or \<open>None\<close> where the loop is left, because the
  connection ended or the type is unknown. The fields are read with \<open>RecvUint32\<close> and \<open>RecvAll\<close>, which
  is what \<open>RecvString\<close> does.
\<close>

fun server_recv :: "bytes \<Rightarrow> (request \<times> bytes) option" where
  "server_recv [] = None"
| "server_recv (t # r) =
     (if t = kWriteReq then Option.bind (RecvString r) (\<lambda>(k, r). Option.bind (RecvString r) (\<lambda>(v, r). Some (WriteReq k v, r)))
      else if t = kReadReq then Option.bind (RecvString r) (\<lambda>(k, r). Some (ReadReq k, r))
      else if t = kDeleteReq then Option.bind (RecvString r) (\<lambda>(k, r). Some (DeleteReq k, r))
      else if t = kAsyncWriteReq then
        Option.bind (RecvString r) (\<lambda>(k, r). Option.bind (RecvString r) (\<lambda>(v, r). Some (AsyncWriteReq k v, r)))
      else if t = kAsyncDeleteReq then Option.bind (RecvString r) (\<lambda>(k, r). Some (AsyncDeleteReq k, r))
      else if t = kBatchWriteReq then
        Option.bind (RecvString r) (\<lambda>(k, r). Option.bind (RecvString r) (\<lambda>(v, r). Some (BatchWriteReq k v, r)))
      else if t = kBatchBeginReq then Some (BatchBeginReq, r)
      else if t = kBatchCommitReq then Some (BatchCommitReq, r)
      else if t = kBatchAbortReq then Some (BatchAbortReq, r)
      else if t = kCompareAndSwapReq then
        Option.bind (RecvString r) (\<lambda>(k, r). Option.bind (RecvString r) (\<lambda>(e, r).
          Option.bind (RecvString r) (\<lambda>(d, r). Some (CompareAndSwapReq k e d, r))))
      else if t = kRangeScanReq then
        Option.bind (RecvRangeBound r) (\<lambda>(lo, r). Option.bind (RecvRangeBound r) (\<lambda>(hi, r). Some (RangeScanReq lo hi, r)))
      else if t = kPrefixScanReq then Option.bind (RecvString r) (\<lambda>(p, r). Some (PrefixScanReq p, r))
      else if t = kLevelCountsReq then Some (LevelCountsReq, r)
      else if t = kManualCompactReq then
        Option.bind (ReadUint32LE r) (\<lambda>(m, r). Option.bind (ReadUint32LE r) (\<lambda>(l, r).
          Option.bind (read_bytes 1 r) (\<lambda>(c, r). Some (ManualCompactReq m l (hd c \<noteq> 0), r))))
      else None)"

section \<open>Replies\<close>

text \<open>What the engine or the writer thread answered; the failing answers are \<open>Done False\<close> and \<open>Found None\<close>.\<close>

datatype answer =
  Done bool
| Found "bytes option"
| Pairs "KeyValuePair list"
| Counts "nat list"
| Compacted nat

definition scan_item :: "KeyValuePair \<Rightarrow> bytes" where
  "scan_item kv = kValueResp # SendString (kv_key kv) @ SendString (kv_value kv)"

definition send_pairs :: "KeyValuePair list \<Rightarrow> bytes" where
  "send_pairs kvs = concat (map scan_item kvs) @ [kEndResp]"

fun enc_counts :: "nat list \<Rightarrow> bytes" where
  "enc_counts [] = []"
| "enc_counts [n] = dec_digits n"
| "enc_counts (n # ns) = dec_digits n @ 0x2C # enc_counts ns"

text \<open>\<open>None\<close>: no such branch, the answer is not of the kind of the request.\<close>

fun server_reply :: "request \<Rightarrow> answer \<Rightarrow> bytes option" where
  "server_reply (WriteReq _ _) (Done ok) = Some (if ok then [kOkResp] else kErrorResp # SendString (str ''write failed''))"
| "server_reply (ReadReq _) (Found v) = Some (case v of Some x \<Rightarrow> kValueResp # SendString x | None \<Rightarrow> [kNotFoundResp])"
| "server_reply (DeleteReq _) (Done ok) = Some (if ok then [kOkResp] else kErrorResp # SendString (str ''delete failed''))"
| "server_reply (AsyncWriteReq _ _) (Done _) = Some [kOkResp]"
| "server_reply (AsyncDeleteReq _) (Done _) = Some [kOkResp]"
| "server_reply (BatchWriteReq _ _) (Done _) = Some [kOkResp]"
| "server_reply BatchBeginReq (Done ok) = Some (if ok then [kOkResp] else kErrorResp # SendString (str ''batch already in progress''))"
| "server_reply BatchCommitReq (Done _) = Some [kOkResp]"
| "server_reply BatchAbortReq (Done _) = Some [kOkResp]"
| "server_reply (CompareAndSwapReq _ _ _) (Done ok) = Some [if ok then kOkResp else kErrorResp]"
| "server_reply (RangeScanReq _ _) (Pairs kvs) = Some (send_pairs kvs)"
| "server_reply (PrefixScanReq _) (Pairs kvs) = Some (send_pairs kvs)"
| "server_reply LevelCountsReq (Counts ns) = Some (kValueResp # SendString (enc_counts ns))"
| "server_reply (ManualCompactReq _ _ _) (Compacted n) = Some (kValueResp # SendString (dec_digits n))"
| "server_reply _ _ = None"

section \<open>The client side\<close>

text \<open>The results of the client calls; \<open>None\<close> in the last two is an exception of \<^verbatim>\<open>std::stoull\<close>.\<close>

datatype result =
  RBool bool
| RValue "bytes option"
| RPairs "bool \<times> KeyValuePair list"
| RCounts "nat list option"
| RInt "int option"

text \<open>\<open>Write\<close> and \<open>Delete\<close>: the message behind an error is read and dropped.\<close>

fun cl_Write :: "bytes \<Rightarrow> bool \<times> bytes" where
  "cl_Write [] = (False, [])"
| "cl_Write (resp # r) =
     (if resp = kOkResp then (True, r)
      else if resp = kErrorResp then (False, case RecvString r of None \<Rightarrow> [] | Some (_, r') \<Rightarrow> r')
      else (False, r))"

fun cl_ok :: "bytes \<Rightarrow> bool \<times> bytes" where
  "cl_ok [] = (False, [])"
| "cl_ok (resp # r) = (resp = kOkResp, r)"

fun cl_Read :: "bytes \<Rightarrow> bytes option \<times> bytes" where
  "cl_Read [] = (None, [])"
| "cl_Read (resp # r) =
     (if resp = kValueResp then (case RecvString r of None \<Rightarrow> (None, []) | Some (v, r') \<Rightarrow> (Some v, r'))
      else (None, r))"

lemma RecvString_length: "RecvString i = Some (s, r) \<Longrightarrow> length r < length i"
  by (auto simp: RecvString_def bind_eq_Some_conv dest!: read_lengths)

function cl_scan :: "bytes \<Rightarrow> KeyValuePair list \<Rightarrow> (bool \<times> KeyValuePair list) \<times> bytes" where
  "cl_scan [] acc = ((False, acc), [])"
| "cl_scan (resp # r) acc =
     (if resp = kEndResp then ((True, acc), r)
      else if resp = kValueResp then
        (case RecvString r of None \<Rightarrow> ((False, acc), [])
         | Some (k, r1) \<Rightarrow> (case RecvString r1 of None \<Rightarrow> ((False, acc), [])
             | Some (v, r2) \<Rightarrow> cl_scan r2 (acc @ [mk_kv k v 0])))
      else ((False, acc), r))"
  by pat_completeness auto
termination
  by (relation "measure (\<lambda>(i, _). length i)") (auto dest!: RecvString_length)

declare cl_scan.simps(2) [simp del]

text \<open>The tokens between commas; the last one is dropped when it is empty.\<close>

function parse_counts :: "bytes \<Rightarrow> nat list option" where
  "parse_counts enc =
     (let tok = takeWhile (\<lambda>b. b \<noteq> 0x2C) enc; rest = drop (length tok) enc
      in if rest = [] then (if tok = [] then Some [] else map_option (\<lambda>n. [n]) (stoull tok))
         else Option.bind (stoull tok) (\<lambda>n. map_option (\<lambda>ns. n # ns) (parse_counts (tl rest))))"
  by pat_completeness auto
termination
  by (relation "measure length") (auto simp: neq_Nil_conv)

declare parse_counts.simps [simp del]

fun cl_LevelCounts :: "bytes \<Rightarrow> nat list option \<times> bytes" where
  "cl_LevelCounts [] = (Some [], [])"
| "cl_LevelCounts (resp # r) =
     (if resp \<noteq> kValueResp then (Some [], r)
      else case RecvString r of None \<Rightarrow> (Some [], []) | Some (enc, r') \<Rightarrow> (parse_counts enc, r'))"

text \<open>\<^verbatim>\<open>static_cast<int>\<close> of the 64-bit number.\<close>

fun cl_ManualCompact :: "bytes \<Rightarrow> int option \<times> bytes" where
  "cl_ManualCompact [] = (Some 0, [])"
| "cl_ManualCompact (resp # r) =
     (if resp \<noteq> kValueResp then (Some 0, r)
      else case RecvString r of None \<Rightarrow> (Some 0, [])
         | Some (enc, r') \<Rightarrow> (map_option (\<lambda>n. sint (of_nat n :: u32)) (stoull enc), r'))"

fun client_recv :: "request \<Rightarrow> bytes \<Rightarrow> result \<times> bytes" where
  "client_recv (WriteReq _ _) i = apfst RBool (cl_Write i)"
| "client_recv (DeleteReq _) i = apfst RBool (cl_Write i)"
| "client_recv (ReadReq _) i = apfst RValue (cl_Read i)"
| "client_recv (RangeScanReq _ _) i = apfst RPairs (cl_scan i [])"
| "client_recv (PrefixScanReq _) i = apfst RPairs (cl_scan i [])"
| "client_recv LevelCountsReq i = apfst RCounts (cl_LevelCounts i)"
| "client_recv (ManualCompactReq _ _ _) i = apfst RInt (cl_ManualCompact i)"
| "client_recv _ i = apfst RBool (cl_ok i)"

text \<open>A call without a connection or whose request could not be sent.\<close>

fun client_fail :: "request \<Rightarrow> result" where
  "client_fail (ReadReq _) = RValue None"
| "client_fail (RangeScanReq _ _) = RPairs (False, [])"
| "client_fail (PrefixScanReq _) = RPairs (False, [])"
| "client_fail LevelCountsReq = RCounts (Some [])"
| "client_fail (ManualCompactReq _ _ _) = RInt (Some 0)"
| "client_fail _ = RBool False"

definition cl_call :: "bool \<Rightarrow> bool \<Rightarrow> request \<Rightarrow> bytes \<Rightarrow> result \<times> bytes" where
  "cl_call connected sent req i = (if \<not> connected \<or> \<not> sent then (client_fail req, i) else client_recv req i)"


section \<open>Requests are read back\<close>

definition text_ok :: "bytes \<Rightarrow> bool" where
  "text_ok s \<longleftrightarrow> length s < 2 ^ 32"

definition bound_ok :: "RangeBound \<Rightarrow> bool" where
  "bound_ok b \<longleftrightarrow> text_ok (rb_key b) \<and> (IsUnbounded b \<longrightarrow> b = rb_Unbounded)"

fun request_ok :: "request \<Rightarrow> bool" where
  "request_ok (WriteReq k v) \<longleftrightarrow> text_ok k \<and> text_ok v"
| "request_ok (AsyncWriteReq k v) \<longleftrightarrow> text_ok k \<and> text_ok v"
| "request_ok (BatchWriteReq k v) \<longleftrightarrow> text_ok k \<and> text_ok v"
| "request_ok (ReadReq k) \<longleftrightarrow> text_ok k"
| "request_ok (DeleteReq k) \<longleftrightarrow> text_ok k"
| "request_ok (AsyncDeleteReq k) \<longleftrightarrow> text_ok k"
| "request_ok (PrefixScanReq k) \<longleftrightarrow> text_ok k"
| "request_ok (RangeScanReq lo hi) \<longleftrightarrow> bound_ok lo \<and> bound_ok hi"
| "request_ok (CompareAndSwapReq k e d) \<longleftrightarrow> text_ok k \<and> text_ok e \<and> text_ok d"
| "request_ok _ \<longleftrightarrow> True"

interpretation textc: byte_codec SendString RecvString text_ok
proof
  fix s r
  assume "text_ok s"
  then have "unat (of_nat (length s) :: u32) = length s" by (simp add: text_ok_def unat_of_nat_small)
  then show "RecvString (SendString s @ r) = Some (s, r)"
    by (simp add: SendString_def RecvString_def codec_simps)
qed

interpretation boundc: byte_codec SendRangeBound RecvRangeBound bound_ok
  by unfold_locales
    (auto simp: SendRangeBound_def bound_ok_def textc.dec_enc rb_Inclusive_def rb_Exclusive_def)

lemmas [codec_simps] = textc.dec_enc boundc.dec_enc

interpretation reqc: byte_codec client_send server_recv request_ok
proof
  fix q r
  assume "request_ok q"
  then show "server_recv (client_send q @ r) = Some (q, r)"
    by (cases q) (simp_all add: req_codes codec_simps read_bytes_def)
qed

lemma reader_ext_RecvString [ext_intros]: "reader_ext RecvString"
  unfolding RecvString_def [abs_def] by (intro ext_intros)

lemma reader_ext_cons:
  assumes "rd [] = None" and "\<And>t. reader_ext (\<lambda>r. rd (t # r))"
  shows "reader_ext rd"
  unfolding reader_ext_def
proof (intro allI impI)
  fix xs ys v r
  assume *: "rd xs = Some (v, r)"
  then obtain t xs' where "xs = t # xs'" using assms(1) by (cases xs) auto
  with * assms(2) [of t] show "rd (xs @ ys) = Some (v, r @ ys)" by (auto simp: reader_ext_def)
qed

lemma reader_ext_if [ext_intros]: "reader_ext f \<Longrightarrow> reader_ext g \<Longrightarrow> reader_ext (\<lambda>r. if b then f r else g r)"
  by (cases b) simp_all

lemma reader_ext_RecvRangeBound [ext_intros]: "reader_ext RecvRangeBound"
  by (rule reader_ext_cons) (simp, simp only: RecvRangeBound.simps, intro ext_intros)

lemma reader_ext_server_recv: "reader_ext server_recv"
  by (rule reader_ext_cons) (simp, simp only: server_recv.simps, intro ext_intros)

lemma server_recv_length: "server_recv i = Some (q, r) \<Longrightarrow> length r < length i"
proof -
  assume "server_recv i = Some (q, r)"
  moreover obtain t i' where i: "i = t # i'" using calculation by (cases i) auto
  moreover have bound: "length r \<le> length i'" if "RecvRangeBound i' = Some (b, r)" for i' b r
    using that by (cases i') (auto simp: bind_eq_Some_conv split: if_splits dest!: RecvString_length)
  ultimately show ?thesis
    by (auto simp: bind_eq_Some_conv split: if_splits dest!: RecvString_length read_lengths bound)
qed

text \<open>The requests that the loop of \<open>HandleClient\<close> serves before it ends.\<close>

function server_requests :: "bytes \<Rightarrow> request list" where
  "server_requests i = (case server_recv i of None \<Rightarrow> [] | Some (q, r) \<Rightarrow> q # server_requests r)"
  by pat_completeness auto
termination
  by (relation "measure length") (auto dest: server_recv_length)

declare server_requests.simps [simp del]

interpretation reqlog: record_log client_send server_requests request_ok
proof
  fix q and bs
  assume ok: "request_ok q"
  show "server_requests (client_send q @ bs) = q # server_requests bs"
    by (subst server_requests.simps) (simp add: reqc.dec_enc [OF ok])
  fix n
  assume "n < length (client_send q)"
  moreover have "server_recv (client_send q) = Some (q, [])" using reqc.dec_enc [OF ok, of "[]"] by simp
  ultimately show "server_requests (take n (client_send q)) = []"
    by (subst server_requests.simps) (simp add: reader_torn [OF reader_ext_server_recv])
next
  show "server_requests [] = []" by (subst server_requests.simps) simp
qed

section \<open>Replies are read back\<close>

text \<open>What a client call returns for an answer of the server.\<close>

fun expected :: "request \<Rightarrow> answer \<Rightarrow> result" where
  "expected (AsyncWriteReq _ _) _ = RBool True"
| "expected (AsyncDeleteReq _) _ = RBool True"
| "expected (BatchWriteReq _ _) _ = RBool True"
| "expected BatchCommitReq _ = RBool True"
| "expected BatchAbortReq _ = RBool True"
| "expected _ (Done ok) = RBool ok"
| "expected _ (Found v) = RValue v"
| "expected _ (Pairs kvs) = RPairs (True, map (\<lambda>kv. mk_kv (kv_key kv) (kv_value kv) 0) kvs)"
| "expected _ (Counts ns) = RCounts (Some ns)"
| "expected _ (Compacted n) = RInt (Some (int n))"

fun answer_ok :: "answer \<Rightarrow> bool" where
  "answer_ok (Done _) \<longleftrightarrow> True"
| "answer_ok (Found v) \<longleftrightarrow> (\<forall>x. v = Some x \<longrightarrow> text_ok x)"
| "answer_ok (Pairs kvs) \<longleftrightarrow> (\<forall>kv \<in> set kvs. text_ok (kv_key kv) \<and> text_ok (kv_value kv))"
| "answer_ok (Counts ns) \<longleftrightarrow> (\<forall>n \<in> set ns. n < 2 ^ 64) \<and> text_ok (enc_counts ns)"
| "answer_ok (Compacted n) \<longleftrightarrow> n < 2 ^ 31 \<and> text_ok (dec_digits n)"

lemma cl_scan_pairs:
  assumes "\<forall>kv \<in> set kvs. text_ok (kv_key kv) \<and> text_ok (kv_value kv)"
  shows "cl_scan (send_pairs kvs @ r) acc = ((True, acc @ map (\<lambda>kv. mk_kv (kv_key kv) (kv_value kv) 0) kvs), r)"
  using assms
proof (induction kvs arbitrary: acc)
  case Nil
  show ?case by (simp add: send_pairs_def cl_scan.simps(2))
next
  case (Cons kv kvs)
  have "send_pairs (kv # kvs) @ r = kValueResp # SendString (kv_key kv) @ SendString (kv_value kv) @ send_pairs kvs @ r"
    by (simp add: send_pairs_def scan_item_def)
  with Cons show ?case by (simp add: cl_scan.simps(2) resp_codes codec_simps)
qed

lemma digits_no_comma: "takeWhile (\<lambda>b. b \<noteq> 0x2C) (dec_digits n @ r) = dec_digits n @ takeWhile (\<lambda>b. b \<noteq> 0x2C) r"
  using dec_digits_value(2) [of n] by (intro takeWhile_append2) (auto simp: is_digit_def)

lemma parse_counts_enc: "\<forall>n \<in> set ns. n < 2 ^ 64 \<Longrightarrow> parse_counts (enc_counts ns) = Some ns"
proof (induction ns rule: enc_counts.induct)
  case 1
  show ?case by (subst parse_counts.simps) simp
next
  case (2 n)
  then show ?case
    using digits_no_comma [of n "[]", unfolded append_Nil2 takeWhile.simps] stoull_dec_digits [of n "[]"] dec_digits_value(3) [of n]
    by (subst parse_counts.simps) (simp add: Let_def del: takeWhile_eq_all_conv)
next
  case (3 n m ns)
  then show ?case
    using digits_no_comma [of n "0x2C # enc_counts (m # ns)"] stoull_dec_digits [of n "[]"]
    by (subst parse_counts.simps) (simp add: Let_def)
qed

lemma client_recv_reply:
  assumes "server_reply q a = Some p" and "answer_ok a" and "(q, a) \<noteq> (BatchBeginReq, Done False)"
  shows "client_recv q (p @ r) = (expected q a, r)"
  using assms
proof (cases "(q, a)" rule: server_reply.cases)
  case (13 ns)
  with assms show ?thesis by (auto simp: codec_simps parse_counts_enc)
next
  case (14 m l c n)
  then have n: "n < 2 ^ 31" "text_ok (dec_digits n)" and p: "p = kValueResp # SendString (dec_digits n)"
    using assms by auto
  have "sint (of_nat n :: u32) = int n"
    using n(1) by (simp add: signed_of_nat signed_take_bit_int_eq_self)
  with n p 14 stoull_dec_digits [of n "[]"] show ?thesis by (simp add: codec_simps)
qed (auto simp: codec_simps resp_codes text_ok_def str_def cl_scan_pairs split: if_splits option.splits)

text \<open>A client that makes its calls one after the other and reads the answers from one connection.\<close>

fun client_session :: "request list \<Rightarrow> bytes \<Rightarrow> result list \<times> bytes" where
  "client_session [] i = ([], i)"
| "client_session (q # qs) i = (case client_recv q i of (x, i') \<Rightarrow> apfst ((#) x) (client_session qs i'))"

section \<open>Properties\<close>

text \<open>
  C29: the requests of a client are served as they were sent, one behind the other, and a connection
  that breaks at any byte makes the server serve a prefix of them: a request that arrived in part is never
  executed.
\<close>

theorem protocol_requests_survive_cut:
  assumes "\<forall>q \<in> set qs. request_ok q"
  shows "server_requests (concat (map client_send qs)) = qs
    \<and> (\<exists>m \<le> length qs. server_requests (take k (concat (map client_send qs))) = take m qs)"
  using reqlog.scan_log [OF assms] reqlog.scan_cut [OF assms] by blast

theorem protocol_requests_survive_cut_witness:
  "server_requests (concat (map client_send [WriteReq [1] [2], ReadReq [1]])) = [WriteReq [1] [2], ReadReq [1]]
   \<and> (\<exists>m \<le> length [WriteReq [1] [2], ReadReq [1]].
       server_requests (take 12 (concat (map client_send [WriteReq [1] [2], ReadReq [1]]))) = take m [WriteReq [1] [2], ReadReq [1]])"
  by (rule protocol_requests_survive_cut) (simp add: text_ok_def)

text \<open>
  C28: in a session of any calls, where no \<open>StartBatch\<close> is refused, every client call returns what the server
  answered and consumes exactly its reply, so later calls stay in step.
\<close>

theorem protocol_session_in_sync:
  assumes "list_all (\<lambda>(q, a, p). server_reply q a = Some p \<and> answer_ok a \<and> (q, a) \<noteq> (BatchBeginReq, Done False)) ss"
  shows "client_session (map fst ss) (concat (map (snd \<circ> snd) ss) @ r) = (map (\<lambda>(q, a, p). expected q a) ss, r)"
  using assms
proof (induction ss)
  case (Cons s ss)
  obtain q a p where s: "s = (q, a, p)" by (cases s)
  from Cons s have "client_recv q (p @ concat (map (snd \<circ> snd) ss) @ r) = (expected q a, concat (map (snd \<circ> snd) ss) @ r)"
    by (intro client_recv_reply) simp_all
  with Cons s show ?case by (simp add: comp_def)
qed simp

theorem protocol_session_in_sync_witness:
  "client_session (map fst [(ReadReq [1], Found (Some [2]), kValueResp # SendString [2]), (BatchCommitReq, Done True, [kOkResp])])
     (concat (map (snd \<circ> snd) [(ReadReq [1], Found (Some [2]), kValueResp # SendString [2]), (BatchCommitReq, Done True, [kOkResp])]) @ [])
   = (map (\<lambda>(q, a, p). expected q a) [(ReadReq [1], Found (Some [2]), kValueResp # SendString [2]), (BatchCommitReq, Done True, [kOkResp])], [])"
  by (rule protocol_session_in_sync) (simp add: text_ok_def)

text \<open>
  a refused \<open>StartBatch\<close> leaves the connection out of step. The server sends a message behind the error
  byte that the client does not read; the next write then fails on the client whatever the server answers
  to it.
\<close>

theorem protocol_refused_batch_desyncs:
  assumes "server_reply BatchBeginReq (Done False) = Some p"
  shows "\<exists>r. client_session [BatchBeginReq, WriteReq k v] (p @ i) = ([RBool False, RBool False], r @ i) \<and> r \<noteq> []"
proof -
  have "of_nat (length (str ''batch already in progress'')) = (25 :: u32)" by (simp add: str_def)
  then have p: "p = kErrorResp # byte_at 0 (25 :: u32) # byte_at 1 (25 :: u32) # byte_at 2 (25 :: u32) # byte_at 3 (25 :: u32)
      # str ''batch already in progress''"
    using assms by (simp add: SendString_def WriteUint32LE_def)
  have "byte_at 0 (25 :: u32) = 25" by (simp add: byte_at_def)
  then show ?thesis
    unfolding p by (intro exI [of _ "byte_at 1 (25 :: u32) # byte_at 2 (25 :: u32) # byte_at 3 (25 :: u32)
      # str ''batch already in progress''"]) (simp add: resp_codes)
qed

theorem protocol_refused_batch_desyncs_witness:
  "\<exists>r. client_session [BatchBeginReq, WriteReq [1] [2]]
     ((kErrorResp # SendString (str ''batch already in progress'')) @ [kOkResp]) = ([RBool False, RBool False], r @ [kOkResp]) \<and> r \<noteq> []"
  by (rule protocol_refused_batch_desyncs) simp

end
