(* ===== verification/Server_Handler.thy ===== *)
theory Server_Handler
  imports Server_Writes Engine_Scan Protocol
begin

text \<open>
  The client threads of the server (\<open>HandleClient\<close> in \<^verbatim>\<open>src/server.cpp\<close>) as a whole: a request is read from the connection, served on the state
  of the server (\<open>Server_Writer\<close>) and its engine, and answered. The bytes a client gets are those of \<open>Protocol\<close>, so that
  the results of client calls can be compared with the operations of the engine. Sends succeed. The blocks that a scan adds to the block cache are left out.
\<close>

section \<open>Operations\<close>

text \<open>What the handler depends on from outside: see \<open>Engine\<close>, \<open>Server_Writer\<close> and \<open>Range_Scan\<close>.\<close>

record surroundings =
  su_hash :: "bytes \<Rightarrow> u64"
  su_bsz :: "nat \<Rightarrow> u64 \<times> u32"
  su_ios :: "nat \<Rightarrow> io_result"
  su_min_ts :: u64
  su_moved :: bytes
  su_ties :: "nat list \<Rightarrow> nat list"
  su_wal_io :: io_result
  su_mf_io :: io_result

text \<open>
  How far a request comes in one step: it is answered; it is in the queue and the thread waits for its promise, or for the end of
  the commit; it waits for room in the queue; or the thread hangs or dies in the engine.
\<close>

datatype served = Replies server bytes | Queued server | Commits server | NoRoom | Stuck

definition sv_queued :: "server option \<Rightarrow> served" where
  "sv_queued r = (case r of None \<Rightarrow> NoRoom | Some s \<Rightarrow> Queued s)"

definition sv_async :: "server option \<Rightarrow> served" where
  "sv_async r = (case r of None \<Rightarrow> NoRoom | Some s \<Rightarrow> Replies s [kOkResp])"

definition sv_Read :: "surroundings \<Rightarrow> bytes \<Rightarrow> server \<Rightarrow> served" where
  "sv_Read w key s =
     (case eng_Lookup (su_hash w) key (sv_engine s) of
        Returns (e, v) \<Rightarrow> Replies (s\<lparr>sv_engine := e\<rparr>) (case v of Some x \<Rightarrow> kValueResp # SendString x | None \<Rightarrow> [kNotFoundResp])
      | _ \<Rightarrow> Stuck)"

definition sv_RangeScan :: "surroundings \<Rightarrow> RangeBound \<Rightarrow> RangeBound \<Rightarrow> server \<Rightarrow> served" where
  "sv_RangeScan w lower upper s =
     (case eng_RangeScan (su_ties w) lower upper (sv_engine s) of
        None \<Rightarrow> Stuck | Some it \<Rightarrow> Replies s (send_pairs (ri_all (su_ties w) it)))"

definition sv_PrefixScan :: "surroundings \<Rightarrow> bytes \<Rightarrow> server \<Rightarrow> served" where
  "sv_PrefixScan w prefix s =
     (case eng_PrefixScan (su_ties w) prefix (sv_engine s) of
        None \<Rightarrow> Stuck | Some it \<Rightarrow> Replies s (send_pairs (ri_all (su_ties w) it)))"

definition sv_LevelCounts :: "server \<Rightarrow> served" where
  "sv_LevelCounts s = Replies s (kValueResp # SendString (enc_counts (LevelCounts (eg_tables (sv_engine s)))))"

definition sv_ManualCompact :: "surroundings \<Rightarrow> u32 \<Rightarrow> u32 \<Rightarrow> bool \<Rightarrow> server \<Rightarrow> served" where
  "sv_ManualCompact w min_sst from_lv cascade s =
     (case eng_ManualCompact (su_bsz w) (su_ios w) (su_min_ts w) (sint min_sst) (sint from_lv) cascade (sv_engine s) of
        Returns (e, k) \<Rightarrow> Replies (s\<lparr>sv_engine := e\<rparr>) (kValueResp # SendString (dec_digits (nat k)))
      | _ \<Rightarrow> Stuck)"

fun sv_serve :: "surroundings \<Rightarrow> nat \<Rightarrow> request \<Rightarrow> server \<Rightarrow> served" where
  "sv_serve w c (WriteReq k v) s = sv_queued (sv_Write c k v s)"
| "sv_serve w c (ReadReq k) s = sv_Read w k s"
| "sv_serve w c (DeleteReq k) s = sv_queued (sv_Delete c k s)"
| "sv_serve w c (AsyncWriteReq k v) s = sv_async (sv_AsyncWrite c k v s)"
| "sv_serve w c (AsyncDeleteReq k) s = sv_async (sv_AsyncDelete c k s)"
| "sv_serve w c (BatchWriteReq k v) s = sv_async (sv_BatchWrite (su_moved w) c k v s)"
| "sv_serve w c BatchBeginReq s =
     (case sv_BatchBegin s of (s', ok) \<Rightarrow>
        Replies s' (if ok then [kOkResp] else kErrorResp # SendString (str ''batch already in progress'')))"
| "sv_serve w c BatchCommitReq s = Commits (sv_BatchCommit s)"
| "sv_serve w c BatchAbortReq s = (case sv_BatchAbort (su_wal_io w) (su_mf_io w) s of None \<Rightarrow> Stuck | Some s' \<Rightarrow> Replies s' [kOkResp])"
| "sv_serve w c (CompareAndSwapReq k e d) s = sv_queued (sv_CompareAndSwap c k e d s)"
| "sv_serve w c (RangeScanReq lo hi) s = sv_RangeScan w lo hi s"
| "sv_serve w c (PrefixScanReq p) s = sv_PrefixScan w p s"
| "sv_serve w c LevelCountsReq s = sv_LevelCounts s"
| "sv_serve w c (ManualCompactReq m l b) s = sv_ManualCompact w m l b s"

text \<open>The reply to a request that was queued, once its promise has a value, and to a commit.\<close>

fun sv_finish :: "request \<Rightarrow> bool \<Rightarrow> bytes" where
  "sv_finish (WriteReq _ _) ok = (if ok then [kOkResp] else kErrorResp # SendString (str ''write failed''))"
| "sv_finish (DeleteReq _) ok = (if ok then kOkResp else kErrorResp) # (if ok then [] else SendString (str ''delete failed''))"
| "sv_finish (CompareAndSwapReq _ _ _) ok = [if ok then kOkResp else kErrorResp]"
| "sv_finish _ ok = [kOkResp]"

text \<open>A round of the loop: \<open>None\<close> when the connection has ended or the request is not known, and the thread closes it.\<close>

definition sv_handle :: "surroundings \<Rightarrow> nat \<Rightarrow> bytes \<Rightarrow> server \<Rightarrow> (served \<times> bytes) option" where
  "sv_handle w c input s = map_option (\<lambda>(q, rest). (sv_serve w c q s, rest)) (server_recv input)"

section \<open>Compare-and-swap\<close>

text \<open>A server with nothing to do.\<close>

definition sv_quiet :: "server \<Rightarrow> bool" where
  "sv_quiet s \<longleftrightarrow> sv_queue s = [] \<and> sv_deferred s = [] \<and> sv_pending s = [] \<and> sv_cas s = None \<and> \<not> sv_commit_pending s \<and> \<not> sv_finalizing s \<and> \<not> batch_trigger s"

lemma fulfill_nothing: "sv_pending s = [] \<Longrightarrow> \<not> sv_finalizing s \<Longrightarrow> checkAndFulfill s = s"
  by (cases s) (simp add: checkAndFulfill_def)

text \<open>The writer takes the request out of the queue and starts the lookup.\<close>

lemma round_takes_cas:
  assumes "sv_quiet s" and "wq_is_cas r"
  shows "writer_round hs (s\<lparr>sv_bytes := n, sv_queue := [r]\<rparr>) = Returns (s\<lparr>sv_queue := [], sv_bytes := n - req_bytes r,
    sv_cas := Some \<lparr>pc_key = wq_key r, pc_expected = wq_expected r, pc_desired = wq_value r, pc_client = wq_client r, pc_read = None\<rparr>\<rparr>)"
proof -
  let ?s = "s\<lparr>sv_bytes := n, sv_queue := [r]\<rparr>"
  let ?s2 = "s\<lparr>sv_queue := [], sv_bytes := n - req_bytes r,
    sv_cas := Some \<lparr>pc_key = wq_key r, pc_expected = wq_expected r, pc_desired = wq_value r, pc_client = wq_client r, pc_read = None\<rparr>\<rparr>"
  have "writer_drain hs 0 ?s = writer_drain hs 0 ?s2" using assms by (subst writer_drain.simps) (simp add: sv_quiet_def cas_busy_on_def)
  also have "\<dots> = Returns ?s2" by (subst writer_drain.simps) simp
  finally have d: "writer_drain hs 0 ?s = Returns ?s2" .
  moreover have "checkAndFulfill ?s = ?s" using assms(1) by (intro fulfill_nothing) (simp_all add: sv_quiet_def)
  moreover have "\<not> batch_trigger ?s2" using assms(1) by (simp add: sv_quiet_def batch_trigger_def)
  ultimately show ?thesis using assms(1) by (simp add: writer_round_def writer_work_def writer_batch_def sv_quiet_def)
qed

text \<open>A write that the engine has executed is answered after a forced sync.\<close>

lemma inserted_then_synced:
  assumes "eng_Insert hs key val e = Returns e'" and "eng_sync_round True Io_ok e' = Some e''"
  shows "wal_CurrentBatchSeq (eg_wal e') \<le> eg_synced e''"
proof -
  note conjunct2 [OF conjunct2 [OF eng_Insert_returns [OF assms(1)]]]
  then have "eg_wal e' = eg_wal ((eng_apply \<lparr>kv_key = key, kv_value = val, kv_timestamp = eg_global_ts e + 1, kv_is_tombstone = False\<rparr>
      (e\<lparr>eg_global_ts := eg_global_ts e + 1\<rparr>))\<lparr>eg_kv := eg_kv e'\<rparr>)" by (rule arg_cong)
  then have "write_buf (eg_wal e') \<noteq> []" by (simp add: wal_Buffer_def SerializeRecord_def WriteUint32LE_def Let_def)
  then show ?thesis using assms(2) by (auto simp: eng_sync_round_ok wal_CurrentBatchSeq_def)
qed

section \<open>Properties\<close>

definition su_plain :: surroundings where
  "su_plain = \<lparr>su_hash = (\<lambda>_. 5), su_bsz = (\<lambda>_. (10, 7)), su_ios = (\<lambda>_. Io_ok), su_min_ts = 0, su_moved = [], su_ties = id,
     su_wal_io = Io_ok, su_mf_io = Io_ok\<rparr>"

lemma sv_handle_request: "request_ok q \<Longrightarrow> sv_handle w c (client_send q @ rest) s = Some (sv_serve w c q s, rest)"
  by (simp add: sv_handle_def reqc.dec_enc)

text \<open>
  C32: a compare-and-swap over the connection, from end to end. On a server with nothing else to do, the bytes of the client's call put the request into the queue; the writer takes it out, and the asynchronous
  lookup of the key gives \<open>v\<close>. If \<open>v\<close> is the expected, non-empty value, the next round of the writer inserts the desired value, and after a forced sync the round behind it answers the request with success;
  otherwise the next round answers with failure and the engine stays as the lookup left it. The client's call returns which of both it was, and takes no more from the connection than the reply.
  The queue must have room for the request, and the insertion must be within the size limits and not have to wait for a batch.
\<close>
theorem remote_compare_and_swap:
  assumes "sv_quiet s" and "text_ok k" and "text_ok x" and "text_ok d" and "sv_bytes s + (bsize k + bsize d + bsize x) \<le> sv_max_bytes s"
    and "eng_Lookup (su_hash w) k (sv_engine s) = Returns (e1, v)" and "ok \<longleftrightarrow> v = Some x \<and> x \<noteq> []"
    and "ok \<Longrightarrow> eng_Insert (su_hash w) k d e1 = Returns e2 \<and> eng_sync_round True Io_ok e2 = Some e3"
  shows "\<exists>s1 s2 s3 s4. sv_handle w c (client_send (CompareAndSwapReq k x d) @ rest) s = Some (Queued s1, rest)
    \<and> writer_round (su_hash w) s1 = Returns s2 \<and> sv_cas_read (su_hash w) s2 = Returns s3 \<and> writer_round (su_hash w) s3 = Returns s4
    \<and> (if ok then sv_engine s4 = e2 \<and> (\<exists>s5. writer_round (su_hash w) (s4\<lparr>sv_engine := e3\<rparr>) = Returns s5 \<and> sv_engine s5 = e3
                 \<and> sv_answers s5 = sv_answers s @ [(sv_done (wq_new c k d) e2, True)])
       else sv_engine s4 = e1 \<and> sv_answers s4 = sv_answers s @ [(wq_new c k d, False)])
    \<and> client_recv (CompareAndSwapReq k x d) (sv_finish (CompareAndSwapReq k x d) ok @ next_bytes) = (RBool ok, next_bytes)"
proof -
  let ?hs = "su_hash w" and ?q = "CompareAndSwapReq k x d"
  let ?r = "(wq_new c k d)\<lparr>wq_expected := x, wq_is_cas := True\<rparr>"
  let ?n = "sv_bytes s + (bsize k + bsize d + bsize x)"
  let ?pc = "\<lparr>pc_key = k, pc_expected = x, pc_desired = d, pc_client = c, pc_read = None\<rparr>"
  define s1 where "s1 = s\<lparr>sv_bytes := ?n, sv_queue := [?r]\<rparr>"
  define s2 where "s2 = s\<lparr>sv_queue := [], sv_bytes := ?n - req_bytes ?r, sv_cas := Some ?pc\<rparr>"
  define cur where "cur = (case v of None \<Rightarrow> [] | Some y \<Rightarrow> y)"
  define s3 where "s3 = s2\<lparr>sv_engine := e1, sv_cas := Some (?pc\<lparr>pc_read := Some cur\<rparr>)\<rparr>"
  have q: "sv_queue s = []" "sv_deferred s = []" "sv_pending s = []" "\<not> sv_commit_pending s" "\<not> sv_finalizing s" "\<not> batch_trigger s"
    using assms(1) by (simp_all add: sv_quiet_def)
  have "sv_CompareAndSwap c k x d s = Some s1" using assms(5) q(1) by (simp add: sv_CompareAndSwap_def sv_push_def s1_def)
  then have "sv_serve w c ?q s = Queued s1" by (simp add: sv_queued_def)
  moreover have "request_ok ?q" using assms(2-4) by simp
  ultimately have h: "sv_handle w c (client_send ?q @ rest) s = Some (Queued s1, rest)" using sv_handle_request [of ?q w c rest s] by (simp only:)
  have r2: "writer_round ?hs s1 = Returns s2" using round_takes_cas [OF assms(1), of ?r ?hs ?n] by (simp add: s1_def s2_def wq_new_def)
  have r3: "sv_cas_read ?hs s2 = Returns s3" using assms(6) by (simp add: sv_cas_read_def s2_def s3_def cur_def)
  have ok: "ok \<longleftrightarrow> cur \<noteq> [] \<and> cur = x" using assms(7) by (auto simp: cur_def split: option.splits)
  have round: "writer_round ?hs s3 = writer_cas ?hs (?pc\<lparr>pc_read := Some cur\<rparr>) cur s3"
    by (simp add: writer_round_def s3_def)
  have c: "client_recv ?q (sv_finish ?q ok @ next_bytes) = (RBool ok, next_bytes)" using client_recv_reply [of ?q "Done ok" "sv_finish ?q ok" next_bytes] by (simp add: resp_codes)
  show ?thesis
  proof (cases ok)
    case True
    define s4 where "s4 = s3\<lparr>sv_engine := e2, sv_pending := [sv_done (wq_new c k d) e2], sv_cas := None, sv_queue := [], sv_deferred := []\<rparr>"
    have x: "x \<noteq> []" "cur = x" using True ok by auto
    have r4: "writer_round ?hs s3 = Returns s4"
      using x assms(8) [OF True] q unfolding round by (simp add: writer_cas_def s4_def s3_def s2_def Let_def)
    have le: "wal_CurrentBatchSeq (eg_wal e2) \<le> eg_synced e3" using inserted_then_synced assms(8) True by blast
    let ?s5 = "s4\<lparr>sv_engine := e3, sv_pending := [], sv_answers := sv_answers s @ [(sv_done (wq_new c k d) e2, True)]\<rparr>"
    have "checkAndFulfill (s4\<lparr>sv_engine := e3\<rparr>) = ?s5"
      using le q by (simp add: checkAndFulfill_def s4_def s3_def s2_def Let_def sv_done_def)
    moreover have "writer_drain ?hs 0 ?s5 = Returns ?s5" by (subst writer_drain.simps) (simp add: s4_def)
    moreover have "\<not> batch_trigger ?s5" using q(6) by (simp add: batch_trigger_def s4_def s3_def s2_def)
    ultimately have "writer_round ?hs (s4\<lparr>sv_engine := e3\<rparr>) = Returns ?s5" by (simp add: writer_round_def writer_work_def writer_batch_def s4_def)
    then show ?thesis using h r2 r3 r4 c True
      by (intro exI [of _ s1] exI [of _ s2] exI [of _ s3] exI [of _ s4]) (simp add: s4_def)
  next
    case False
    define s4 where "s4 = s3\<lparr>sv_answers := sv_answers s @ [(wq_new c k d, False)], sv_cas := None, sv_queue := [], sv_deferred := []\<rparr>"
    have "writer_round ?hs s3 = Returns s4"
      using False ok q unfolding round by (auto simp: writer_cas_def s4_def s3_def s2_def Let_def sv_answer_def)
    then show ?thesis using h r2 r3 c False
      by (intro exI [of _ s1] exI [of _ s2] exI [of _ s3] exI [of _ s4]) (simp add: s4_def s3_def)
  qed
qed

lemma eng_fresh_Lookup: "\<exists>e. eng_Lookup (su_hash su_plain) [1] (eng_fresh 4000) = Returns (e, None)"
proof -
  have "FindLeaf [1] bt_empty = []" by (simp add: bt_empty_def FindChild_def find_child_step(3))
  then have "eng_search [1] 0 (eng_fresh 4000) = (None, None)"
    by (simp add: eng_search_def mt_Lookup_def bt_Lookup_def lookup_order_def eng_fresh_def mt_new_def)
  then show ?thesis
    using eng_Lookup_search [OF eng_fresh_kv(1), of "\<lambda>_. 5" "[1]" 4000 None] eng_fresh_kv(2) by (auto simp: eng_fresh_def su_plain_def)
qed

theorem remote_compare_and_swap_witness:
  "\<exists>e1 s1 s2 s3 s4. eng_Lookup (su_hash su_plain) [1] (eng_fresh 4000) = Returns (e1, None)
    \<and> sv_handle su_plain 3 (client_send (CompareAndSwapReq [1] [2] [4]) @ [9]) (sv_new (eng_fresh 4000)) = Some (Queued s1, [9])
    \<and> writer_round (su_hash su_plain) s1 = Returns s2 \<and> sv_cas_read (su_hash su_plain) s2 = Returns s3 \<and> writer_round (su_hash su_plain) s3 = Returns s4
    \<and> sv_engine s4 = e1 \<and> sv_answers s4 = [(wq_new 3 [1] [4], False)]
    \<and> client_recv (CompareAndSwapReq [1] [2] [4]) (sv_finish (CompareAndSwapReq [1] [2] [4]) False @ [7]) = (RBool False, [7])"
proof -
  obtain e1 where e1: "eng_Lookup (su_hash su_plain) [1] (eng_fresh 4000) = Returns (e1, None)" using eng_fresh_Lookup by blast
  let ?s = "sv_new (eng_fresh 4000)"
  have "sv_quiet ?s" "sv_bytes ?s + (bsize [1] + bsize [4] + bsize [2]) \<le> sv_max_bytes ?s"
    by (simp_all add: sv_quiet_def sv_new_def batch_trigger_def kDefaultMiniBatchSize_def kMaxWriteQueueBytes_def bsize_def word_le_nat_alt)
  from remote_compare_and_swap [OF this(1) _ _ _ this(2), of su_plain e1 None False e1 e1 3 "[9]" "[7]"] e1
  show ?thesis by (auto simp: text_ok_def sv_new_def)
qed

text \<open>
  C34: a read over the connection returns what the engine finds. The bytes of the call are served as one request, the engine does its lookup, and the
  client takes from the reply the value or its absence, and nothing of what follows.
\<close>
theorem remote_read_is_lookup:
  assumes "text_ok key" and "eng_Lookup (su_hash w) key (sv_engine s) = Returns (e, v)" and "\<forall>x. v = Some x \<longrightarrow> text_ok x"
  shows "\<exists>p. sv_handle w c (client_send (ReadReq key) @ rest) s = Some (Replies (s\<lparr>sv_engine := e\<rparr>) p, rest)
    \<and> client_recv (ReadReq key) (p @ next_bytes) = (RValue v, next_bytes)"
proof -
  let ?p = "case v of Some x \<Rightarrow> kValueResp # SendString x | None \<Rightarrow> [kNotFoundResp]"
  have "sv_serve w c (ReadReq key) s = Replies (s\<lparr>sv_engine := e\<rparr>) ?p" using assms(2) by (simp add: sv_Read_def)
  moreover have "client_recv (ReadReq key) (?p @ next_bytes) = (expected (ReadReq key) (Found v), next_bytes)"
    using assms(3) by (intro client_recv_reply) simp_all
  moreover have "request_ok (ReadReq key)" using assms(1) by simp
  note h = sv_handle_request [OF this, of w c rest s]
  ultimately show ?thesis unfolding h by (intro exI [of _ ?p]) (simp only: expected.simps simp_thms)
qed

theorem remote_read_is_lookup_witness:
  "\<exists>e v p. eng_Lookup (su_hash su_plain) [1] (eng_fresh 4000) = Returns (e, v)
    \<and> sv_handle su_plain 3 (client_send (ReadReq [1]) @ [9]) (sv_new (eng_fresh 4000)) = Some (Replies ((sv_new (eng_fresh 4000))\<lparr>sv_engine := e\<rparr>) p, [9])
    \<and> client_recv (ReadReq [1]) (p @ [7]) = (RValue v, [7])"
proof -
  obtain e where e: "eng_Lookup (su_hash su_plain) [1] (eng_fresh 4000) = Returns (e, None)" using eng_fresh_Lookup by blast
  from remote_read_is_lookup [of "[1]" su_plain "sv_new (eng_fresh 4000)" e None 3 "[9]" "[7]"] e
  show ?thesis by (auto simp: text_ok_def sv_new_def)
qed



end
