(* ===== verification/Engine_Tables.thy ===== *)
theory Engine_Tables
  imports Engine_Batches
begin

text \<open>
  The catalogue of tables of the engine (\<^verbatim>\<open>src/engine.cpp\<close>) over its restarts: a compaction is forgotten, an older table of the target level
  hides what a compaction has merged, and restored tables are skipped while the first memtable is frozen.
\<close>

section \<open>Compaction and the manifest\<close>

primrec out_recs :: "u64 \<Rightarrow> SstMetadata list \<Rightarrow> mf_rec list" where
  "out_recs s [] = []"
| "out_recs s (m # ms) = MAdd ((Metadata.truncate m)\<lparr>manifest_seq := s, aborted_batch_ts := []\<rparr>) # out_recs (s + 1) ms"

lemma mf_write_ok:
  "mf_RemoveSSTable s Io_ok mf = (mf\<lparr>mf_file := mf_file mf @ mf_enc (MRemove s)\<rparr>, None)"
  "mf_AddSSTable s m Io_ok mf = (mf\<lparr>mf_file := mf_file mf @ mf_enc (MAdd (m\<lparr>manifest_seq := s, aborted_batch_ts := []\<rparr>))\<rparr>, None)"
  by (simp_all add: mf_RemoveSSTable_def mf_AddSSTable_def mf_WriteRecord_def mf_add_payload_def)

lemma eng_remove_inputs_ok:
  "eng_remove_inputs (\<lambda>_. Io_ok) n ins e
   = (e\<lparr>eg_manifest := (eg_manifest e)\<lparr>mf_file := mf_file (eg_manifest e) @ concat (map mf_enc (replicate (length ins) (MRemove (eg_seq e))))\<rparr>\<rparr>, True)"
  by (induction ins arbitrary: n e) (simp_all add: mf_write_ok del: mf_enc.simps)

lemma eng_add_outputs_ok:
  "eng_add_outputs (\<lambda>_. Io_ok) n outs e
   = (e\<lparr>eg_manifest := (eg_manifest e)\<lparr>mf_file := mf_file (eg_manifest e) @ concat (map mf_enc (out_recs (eg_seq e) outs))\<rparr>,
        eg_seq := eg_seq e + of_nat (length outs)\<rparr>, True)"
  by (induction outs arbitrary: n e) (simp_all add: mf_write_ok algebra_simps del: mf_enc.simps)

lemma eng_garbage_fields: "eg_manifest (fold (eng_garbage ins) fs e) = eg_manifest e" "eg_tables (fold (eng_garbage ins) fs e) = eg_tables e"
  by (rule fold_fields, simp add: eng_garbage_def Let_def)+

abbreviation level_inputs :: "int \<Rightarrow> int \<Rightarrow> engine \<Rightarrow> SstMetadata list" where
  "level_inputs a b e \<equiv> filter (\<lambda>m. a \<le> sint (md_level m) \<and> sint (md_level m) \<le> b) (map et_meta (eg_tables e))"

lemma cmp_write_level:
  assumes "cmp_write bsz dir ab level seq bs (Inr out) = Inr out'" and "\<forall>m \<in> set (cmo_metas out). md_level m = level"
  shows "\<forall>m \<in> set (cmo_metas out'). md_level m = level"
  using assms
proof (induction bs arbitrary: seq out)
  case (Cons b bs)
  let ?f = "sst_Write bsz b ab" and ?p = "sst_path dir seq"
  show ?case
  proof (cases "sst_read_meta_file ?p (Some ?f)")
    case (Inl x)
    with Cons.prems(1) show ?thesis by (simp only: cmp_write.simps sum.case Let_def) simp
  next
    case (Inr m)
    let ?m = "case ab of None \<Rightarrow> m\<lparr>md_filepath := ?p, md_level := level\<rparr> | Some xs \<Rightarrow> m\<lparr>md_filepath := ?p, md_level := level\<rparr>\<lparr>aborted_batch_ts := xs\<rparr>"
    have "cmp_write bsz dir ab level (seq + 1) bs (Inr (out\<lparr>cmo_files := cmo_files out @ [(?p, ?f)], cmo_metas := cmo_metas out @ [?m]\<rparr>)) = Inr out'"
      using Cons.prems(1) by (simp only: cmp_write.simps sum.case Let_def Inr)
    then show ?thesis by (rule Cons.IH) (use Cons.prems(2) in \<open>auto split: option.split\<close>)
  qed
qed simp

lemma sst_Compact_level: "sst_Compact bsz c ins dir seq level mx = Inr out \<Longrightarrow> m \<in> set (cmo_metas out) \<Longrightarrow> md_level m = level"
  by (auto simp: sst_Compact_def Let_def split: if_splits sum.splits dest!: cmp_write_level)

lemma eng_CompactLevel_ok:
  assumes "eng_CompactLevel bsz (\<lambda>_. Io_ok) a b e = Returns (e', True)" and "b < int kMaxLevel" and "level_inputs a b e \<noteq> []"
  shows "\<exists>outs. eg_tables e' = filter (\<lambda>t. md_filepath (et_meta t) \<notin> md_filepath ` set (level_inputs a b e)) (eg_tables e) @ map (\<lambda>m. \<lparr>et_meta = m, et_source = 0\<rparr>) outs
    \<and> mf_file (eg_manifest e') = mf_file (eg_manifest e)
        @ concat (map mf_enc (replicate (length (level_inputs a b e)) (MRemove (eg_seq e + 64)) @ out_recs (eg_seq e + 64) outs))
    \<and> (\<forall>m \<in> set outs. md_level m = word_of_int (b + 1))"
proof -
  have "\<not> (b + 1 > int kMaxLevel \<or> level_inputs a b e = [])" using assms(2,3) by simp
  with assms(1) show ?thesis unfolding eng_CompactLevel_def Let_def
    by (simp only: if_False) (auto simp: eng_remove_inputs_ok eng_add_outputs_ok eng_garbage_fields split: option.splits sum.splits intro: sst_Compact_level)
qed

text \<open>
  a compaction is forgotten when the engine is opened again. \<open>CompactLevel\<close> removes the number of the next table from the manifest, once for every input, and then adds its first output under
  that number. The manifest does not depend on the order of its records, so after a compaction with one output, recovery lists all tables from before, whose files are deleted, and not the output:
  all data of the level is lost.
\<close>
theorem engine_compaction_forgotten:
  assumes "\<forall>r \<in> set rs. mf_wf r" and "mf_file (eg_manifest e) = concat (map mf_enc rs)" and "b < int kMaxLevel"
    and "eng_CompactLevel bsz (\<lambda>_. Io_ok) a b e = Returns (e', True)"
    and "eg_tables e' = filter (\<lambda>t. md_filepath (et_meta t) \<notin> md_filepath ` set (level_inputs a b e)) (eg_tables e) @ [t]"
    and "length (md_filepath (et_meta t)) < 2 ^ 16"
  shows "mf_Recover True True (eg_manifest e') = Inr (map (mf_marks (mf_aborts rs)) (filter (\<lambda>m. manifest_seq m \<noteq> eg_seq e + 64) (mf_live rs)))"
proof -
  let ?s = "eg_seq e + 64" and ?n = "length (level_inputs a b e)"
  have ne: "level_inputs a b e \<noteq> []"
  proof
    assume n: "level_inputs a b e = []"
    then have "e' = e" using assms(4) unfolding eng_CompactLevel_def Let_def n by simp
    then have "length (eg_tables e) = Suc (length (eg_tables e))" using arg_cong [OF assms(5), of length] unfolding n by simp
    then show False by simp
  qed
  obtain outs where x: "eg_tables e' = filter (\<lambda>t. md_filepath (et_meta t) \<notin> md_filepath ` set (level_inputs a b e)) (eg_tables e) @ map (\<lambda>m. \<lparr>et_meta = m, et_source = 0\<rparr>) outs"
    and f: "mf_file (eg_manifest e') = mf_file (eg_manifest e) @ concat (map mf_enc (replicate ?n (MRemove ?s) @ out_recs ?s outs))"
    using eng_CompactLevel_ok [OF assms(4,3) ne] by blast
  have o: "[t] = map (\<lambda>m. \<lparr>et_meta = m, et_source = 0\<rparr>) outs" using x [unfolded assms(5) same_append_eq] .
  let ?m = "(Metadata.truncate (et_meta t))\<lparr>manifest_seq := ?s, aborted_batch_ts := []\<rparr>"
  have outs: "outs = [et_meta t]" using o by (cases outs) auto
  let ?rs = "rs @ replicate ?n (MRemove ?s) @ [MAdd ?m]"
  have "mf_file (eg_manifest e') = concat (map mf_enc ?rs)" using f unfolding assms(2) by (simp add: outs)
  moreover have "md_filepath (Metadata.truncate (et_meta t)) = md_filepath (et_meta t)" by (simp add: Metadata.truncate_def)
  then have "mf_wf (MAdd ?m)" using assms(6) by simp
  then have "\<forall>r \<in> set ?rs. mf_wf r" using assms(1) by (auto simp del: mf_wf.simps(1))
  ultimately have scan: "mf_scan (mf_file (eg_manifest e')) = ?rs" using mstream.scan_log [of ?rs] by (simp only:)
  have "?n \<noteq> 0" using ne by (simp only: length_0_conv not_False_eq_True)
  then obtain k where k: "?n = Suc k" using not0_implies_Suc by blast
  have ab: "mf_aborts ?rs = mf_aborts rs" and rm: "set (mf_removed ?rs) = insert ?s (set (mf_removed rs))" and ad: "mf_adds ?rs = mf_adds rs @ [?m]"
    unfolding k by (auto simp: mf_aborts_def mf_removed_def mf_adds_def)
  have "mf_live ?rs = filter (\<lambda>m. manifest_seq m \<noteq> ?s) (mf_live rs)"
    unfolding mf_live_def rm ad by (simp add: filter_filter conj_commute)
  then show ?thesis by (simp only: mf_Recover_ok scan mf_catalog_marks ab)
qed

lemma search_from_first_table:
  assumes "eg_tables e = a # tabs" and "\<forall>s \<in> set (eg_tables e). md_level (et_meta s) \<noteq> 0" and "et_source a \<notin> mt_id ` set (eg_frozen e)"
    and "mt_Lookup k t (eg_active e) = None" and "lookup_frozen k t (rev (eg_frozen e)) = None"
    and "tbl_holds (eg_files e) (et_meta a) vs" and "\<exists>x \<in> set vs. kv_key x = k \<and> kv_timestamp x \<le> t"
    and "cache_agrees (md_filepath (et_meta a)) (eg_files e (md_filepath (et_meta a))) (manifest_seq (et_meta a)) (eg_cache e)"
  shows "\<exists>v. snd (eng_search k t e) = Some v \<and> answers t k vs (Some v)"
proof -
  have "\<exists>ms. lookup_order (map mt_id (eg_frozen e)) (eg_tables e) = et_meta a # ms" using assms(1-3) by (auto simp: lookup_order_def)
  moreover have "table_may_have k (et_meta a)" using assms(6,7) by (auto simp: tbl_holds_def)
  moreover from tbl_look_answers [OF assms(6), of t k] assms(7) obtain v where "tbl_look (eg_files e) k t (et_meta a) = Some v" "answers t k vs (Some v)"
    by (cases "tbl_look (eg_files e) k t (et_meta a)") (auto simp: answers_def)
  moreover note sst_LookupKey_cached [OF assms(6,8), of k t]
  ultimately show ?thesis using assms(4,5) by (auto simp: eng_search_def)
qed

text \<open>
  A compaction of the levels up to \<open>b\<close> does not merge the tables that the next level has already, it lists its outputs behind them, and \<open>Lookup\<close> reads tables above level 0 in the order of the list. After the compaction
  the first of the older tables decides alone about the keys it has, although the outputs have newer versions of them.
\<close>
theorem engine_compaction_hides_newer:
  assumes "eng_CompactLevel bsz (\<lambda>_. Io_ok) 0 b e = Returns (e', True)" and "0 \<le> b" and "b < int kMaxLevel" and "level_inputs 0 b e \<noteq> []"
    and "filter (\<lambda>s. md_filepath (et_meta s) \<notin> md_filepath ` set (level_inputs 0 b e)) (eg_tables e) = a # tabs"
    and "et_source a \<notin> mt_id ` set (eg_frozen e)" and "mt_Lookup k t (eg_active e) = None" and "lookup_frozen k t (rev (eg_frozen e)) = None"
    and "tbl_holds (eg_files e') (et_meta a) vs" and "\<exists>x \<in> set vs. kv_key x = k \<and> kv_timestamp x \<le> t"
    and "cache_agrees (md_filepath (et_meta a)) (eg_files e' (md_filepath (et_meta a))) (manifest_seq (et_meta a)) (eg_cache e')"
  shows "\<exists>v. snd (eng_search k t e') = Some v \<and> answers t k vs (Some v)"
proof -
  obtain outs where x: "eg_tables e' = (a # tabs) @ map (\<lambda>m. \<lparr>et_meta = m, et_source = 0\<rparr>) outs" and o: "\<forall>m \<in> set outs. md_level m = word_of_int (b + 1)"
    using eng_CompactLevel_ok [OF assms(1,3,4)] unfolding assms(5) by blast
  have "b \<in> {0, 1, 2, 3, 4, 5, 6}" using assms(2,3) by (auto simp: kMaxLevel_def)
  then have w: "(word_of_int (b + 1) :: u32) \<noteq> 0" by auto
  have "md_level (et_meta s) \<noteq> 0" if "s \<in> set (a # tabs)" for s
  proof
    assume "md_level (et_meta s) = 0"
    with that assms(2) show False unfolding assms(5) [symmetric] by force
  qed
  with o w have "\<forall>s \<in> set (eg_tables e'). md_level (et_meta s) \<noteq> 0" unfolding x by auto
  moreover have "eg_active e' = eg_active e" "eg_frozen e' = eg_frozen e" using mem_part_CompactLevel [OF assms(1)] by (simp_all add: mem_part_def)
  ultimately show ?thesis using search_from_first_table [of e' a] x assms(6-11) by simp
qed

text \<open>A compaction of one table with one entry, for the example.\<close>

definition one_table :: "KeyValuePair \<Rightarrow> bytes" where
  "one_table kv = sst_Write (\<lambda>n. (10, 7)) [kv] None"

definition eng_one :: engine where
  "eng_one = (eng_fresh 4000)\<lparr>eg_seq := 1, eg_files := (\<lambda>_. Some (one_table (mk_kv [1] [7] 3))), eg_global_ts := 5,
     eg_manifest := \<lparr>mf_file = mf_enc (MAdd (Metadata.truncate (sst_meta0 [9])))\<rparr>,
     eg_tables := [\<lparr>et_meta = sst_meta0 [9], et_source = 3\<rparr>]\<rparr>"

lemma eng_one_compaction:
  "\<exists>e' t. eng_CompactLevel (\<lambda>n. (10, 7)) (\<lambda>_. Io_ok) 0 0 eng_one = Returns (e', True) \<and> eg_tables e' = [t] \<and> md_filepath (et_meta t) = sst_path [] 1"
proof -
  let ?kv = "mk_kv [1] [7] 3" and ?bsz = "\<lambda>n. (10, 7) :: u64 \<times> u32"
  have kv: "\<forall>e \<in> set [?kv]. entry_ok e" by (simp add: entry_ok_def mk_kv_def)
  have all: "it_all (it_new (Some (one_table ?kv)) None 0 False []) = Some [?kv]"
    using it_new_at [OF kv, of None 0 ?bsz None False] it_all_rest by (simp add: one_table_def)
  have ins: "all_some (map (cmp_open (eg_files eng_one) (eg_cache eng_one) []) [sst_meta0 [9]])
      = Some [\<lparr>ci_meta = Metadata.truncate (sst_meta0 [9]), ci_entries = [?kv]\<rparr>]"
    using all by (simp add: cmp_open_def eng_one_def eng_fresh_def sst_meta0_def)
  have "table_ok ?bsz [?kv] (Some [])" by (rule table_ok_single) (simp_all add: entry_ok_def mk_kv_def ab_list_def)
  then obtain m where m: "sst_read_meta_file (sst_path [] 1) (Some (sst_Write ?bsz [?kv] (Some []))) = Inr m"
    by (rule sst_table [where path = "sst_path [] 1"]) blast
  let ?c = "\<lparr>cc_is_last_level = False, cc_range_lower = [], cc_range_upper = [], cc_visible_ts = 5\<rparr>"
  have "cmp_batches ?c mx [[?kv]] = [[?kv]]" for mx
    using cmp_loop_groups [of "[[?kv]]" ?c mx "\<lparr>co_batch = [], co_approx = 0, co_done = []\<rparr>"]
    by (simp add: cmp_batches_def cmp_groups_def cmp_group_of_def cmp_put_def cmp_result_def cmp_keeps_def cmp_scan1_def cmp_group0_def mk_kv_def)
  then have "sst_Compact ?bsz ?c [\<lparr>ci_meta = Metadata.truncate (sst_meta0 [9]), ci_entries = [?kv]\<rparr>] [] 1 1 mx
      = Inr \<lparr>cmo_files = [(sst_path [] 1, sst_Write ?bsz [?kv] (Some []))], cmo_metas = [m\<lparr>md_filepath := sst_path [] 1, md_level := 1, aborted_batch_ts := []\<rparr>],
          cmo_garbage = [[9]]\<rparr>" for mx
    using m by (simp add: sst_Compact_def cmp_sources_def cmp_level_def cmp_merged_aborted_def Let_def) (simp add: sst_meta0_def Metadata.truncate_def)
  note cmp = this
  have one: "map et_meta (eg_tables eng_one) = [sst_meta0 [9]]" "eg_seq eng_one = 1" "eg_dir eng_one = []" "eg_global_ts eng_one = 5"
    by (simp_all add: eng_one_def eng_fresh_def)
  have lv: "filter (\<lambda>m. 0 \<le> sint (md_level m) \<and> sint (md_level m) \<le> 0) [sst_meta0 [9]] = [sst_meta0 [9]]" by (simp add: sst_meta0_def)
  have ab: "fold (\<lambda>m. fold List.insert (aborted_batch_ts m)) [sst_meta0 [9]] [] = []" by (simp add: sst_meta0_def)
  have l: "(0 + 1 > int kMaxLevel \<or> [sst_meta0 [9]] = []) = False" "(0 + 1 = int kMaxLevel) = False" "word_of_int (0 + 1) = (1 :: u32)" by (simp_all add: kMaxLevel_def)
  show ?thesis unfolding eng_CompactLevel_def Let_def one lv ab l if_False ins option.case cmp sum.case
    by (simp add: eng_remove_inputs_ok eng_add_outputs_ok eng_garbage_fields eng_one_def del: mf_enc.simps) (simp add: sst_meta0_def eng_garbage_def)
qed

theorem engine_compaction_forgotten_witness:
  "\<exists>e' t. eng_CompactLevel (\<lambda>n. (10, 7)) (\<lambda>_. Io_ok) 0 0 eng_one = Returns (e', True) \<and> eg_tables e' = [t] \<and> md_filepath (et_meta t) = sst_path [] 1
    \<and> mf_Recover True True (eg_manifest e') = Inr [Metadata.truncate (sst_meta0 [9])]"
proof -
  obtain e' t where c: "eng_CompactLevel (\<lambda>n. (10, 7)) (\<lambda>_. Io_ok) 0 0 eng_one = Returns (e', True)" "eg_tables e' = [t]" "md_filepath (et_meta t) = sst_path [] 1"
    using eng_one_compaction by blast
  let ?m = "Metadata.truncate (sst_meta0 [9])"
  have m: "mf_aborts [MAdd ?m] = []" "mf_live [MAdd ?m] = [?m]" "manifest_seq ?m = 0" "mf_wf (MAdd ?m)"
    by (simp_all add: mf_aborts_def mf_live_def mf_adds_def mf_removed_def sst_meta0_def Metadata.truncate_def)
  have "length (sst_path [] 1) < 2 ^ 16" by (simp add: sst_path_def str_def dec_digits.simps)
  then have "mf_Recover True True (eg_manifest e') = Inr (map (mf_marks (mf_aborts [MAdd ?m])) (filter (\<lambda>m. manifest_seq m \<noteq> eg_seq eng_one + 64) (mf_live [MAdd ?m])))"
    by (intro engine_compaction_forgotten [where t = t, OF _ _ _ c(1)])
      (use m(4) c in \<open>simp_all add: kMaxLevel_def eng_one_def sst_meta0_def del: mf_enc.simps mf_wf.simps\<close>)
  then show ?thesis using c by (simp add: m mf_marks_simps eng_one_def)
qed

section \<open>Tables after opening\<close>

text \<open>
  the tables from before are not searched while the first memtable waits for its flush. A table of the manifest has no source memtable and gets the number 0 in its place, which is also the number of the first memtable of the new
  engine; \<open>Lookup\<close> takes all these tables for copies of that memtable once it is frozen and skips them. After an \<open>Insert\<close> that fills it, no other key is found, whatever the tables hold.
\<close>
theorem engine_restored_tables_skipped:
  assumes "mf_Recover (oi_mf_rd oi) (oi_mf_ab oi) mf = Inr metas" and "eng_open bsz oi oc mf [] files = Some e" and "eng_Insert hs k v e = Returns e'" and "eg_frozen e' \<noteq> []" and "key \<noteq> k"
  shows "length (eg_tables e') = length metas \<and> snd (eng_search key t e') = None"
proof -
  have e: "eg_active e = mt_new 0 (oc_max_bytes oc)" "eg_frozen e = []" "eg_tables e = map (eng_load files) metas"
    using assms(1,2) by (auto simp: eng_open_def Let_def wal_Recover_def wal_Sync_def wal_Sync_begin_def wal_open_def eng_RecoverFromWAL_def wal_no_recovery_def
        split: if_splits)
  let ?kv = "\<lparr>kv_key = k, kv_value = v, kv_timestamp = eg_global_ts e + 1, kv_is_tombstone = False\<rparr>"
  let ?e = "eng_apply ?kv (e\<lparr>eg_global_ts := eg_global_ts e + 1\<rparr>)"
  have k: "length k \<le> kMaxKeyBytes" using assms(3) by (auto simp: eng_Insert_def split: if_splits)
  obtain c where e': "e' = ?e\<lparr>eg_kv := c\<rparr>" using eng_Insert_returns [OF assms(3)] by blast
  have src: "et_source (eng_load files m) = 0" for m by (simp add: eng_load_def Let_def split: prod.split sum.split)
  then have ord: "lookup_order [0] (map (eng_load files) metas) = []" by (simp add: lookup_order_def)
  have t: "eg_tables e' = map (eng_load files) metas" by (simp add: e' e)
  have "snd (eng_search key t e') = None" using assms(4)
    by (cases rule: eng_apply_cases [of ?kv "e\<lparr>eg_global_ts := eg_global_ts e + 1\<rparr>"])
      (use k assms(5) in \<open>simp_all add: e' eng_search_def e ord mt_Lookup_first\<close>)
  then show ?thesis by (simp add: t)
qed

theorem engine_restored_tables_skipped_witness:
  "\<exists>e e'. eng_open (\<lambda>n. (10, 7)) oi_all oc_small \<lparr>mf_file = mf_enc (MAdd (Metadata.truncate (sst_meta0 [9])))\<rparr> [] (\<lambda>_. None) = Some e
    \<and> eng_Insert (\<lambda>_. 5) [1] [2] e = Returns e' \<and> length (eg_tables e') = 1 \<and> snd (eng_search [3] 7 e') = None"
proof -
  let ?m = "Metadata.truncate (sst_meta0 [9])" and ?mf = "\<lparr>mf_file = mf_enc (MAdd (Metadata.truncate (sst_meta0 [9])))\<rparr>"
  have "mf_wf (MAdd ?m)" by (simp add: sst_meta0_def Metadata.truncate_def)
  then have "mf_scan (mf_enc (MAdd ?m)) = [MAdd ?m]" using mstream.scan_log [of "[MAdd ?m]"] by (simp del: mf_enc.simps)
  then have r: "mf_Recover True True ?mf = Inr [?m]"
    by (simp add: mf_Recover_ok mf_catalog_marks mf_live_def mf_adds_def mf_removed_def mf_aborts_def mf_marks_simps del: mf_enc.simps)
  obtain e where o: "eng_open (\<lambda>n. (10, 7)) oi_all oc_small ?mf [] (\<lambda>_. None) = Some e" and e: "eg_active e = mt_new 0 50" "eg_in_batch e = False" "kc_ok (eg_kv e)" "eg_global_ts e = 0"
    using eng_open_no_log [OF r] kc_ok_new [of 4 100 1000] by simp
  obtain c where "kc_Put (\<lambda>_. 5) [1] [2] 1 (eg_kv e) = Some c" using kc_Put_returns [OF e(3)] by blast
  then obtain e' where i: "eng_Insert (\<lambda>_. 5) [1] [2] e = Returns e'"
    by (simp add: eng_Insert_def on_cache_def eng_blocked_def entry_size_def kMaxKeyBytes_def kMaxKeyValuePairBytes_def kMemTableEntryOverheadBytes_def e)
  then have "eg_frozen e' \<noteq> []"
    using e(1) by (auto simp: eng_Insert_def on_cache_def Let_def eng_apply_def eng_freeze_if_full_def eng_freeze_def mt_IsFull_def mt_Insert_def mt_new_def eng_log_def
        kMemTableEntryOverheadBytes_def split: if_splits option.splits)
  from engine_restored_tables_skipped [OF _ o i this, of "[?m]" "[3]" 7] r o i show ?thesis by (simp add: oi_all_def)
qed

end
