(* ===== verification/Engine_Recycle.thy ===== *)
theory Engine_Recycle
  imports Engine_Batches
begin

text \<open>
  The recycling of flushed memtables (\<open>DeferRecycle\<close> and \<open>DrainRecyclePending\<close> in \<^verbatim>\<open>src/engine.cpp\<close>): the flush worker keeps a memtable it has written in a list until no reader with
  an older snapshot is left, and then takes it out of the frozen memtables. The models of the engine leave this out; here it is shown that they may, because a
  memtable in that list is never among the frozen ones. Two pointers to memtables are equal when the numbers of the tables are.
\<close>

section \<open>Operations\<close>

record pending_recycle =
  pr_memtable :: memtable
  pr_fence_ts :: u64

record recycler =
  ry_engine :: engine
  ry_pending :: "pending_recycle list"

definition eng_DeferRecycle :: "memtable \<Rightarrow> recycler \<Rightarrow> recycler" where
  "eng_DeferRecycle m r = r\<lparr>ry_pending := ry_pending r @ [\<lparr>pr_memtable = m, pr_fence_ts = eg_global_ts (ry_engine r)\<rparr>]\<rparr>"

text \<open>\<^verbatim>\<open>std::find\<close> and \<^verbatim>\<open>erase\<close>: the first memtable that is the given one.\<close>

fun erase_memtable :: "memtable \<Rightarrow> memtable list \<Rightarrow> memtable list" where
  "erase_memtable m [] = []"
| "erase_memtable m (x # xs) = (if mt_id x = mt_id m then xs else x # erase_memtable m xs)"

text \<open>\<open>mins i\<close> is what \<open>MinActiveTS\<close> returns when entry \<open>i\<close> is looked at.\<close>

definition eng_DrainRecyclePending :: "(nat \<Rightarrow> u64) \<Rightarrow> recycler \<Rightarrow> recycler" where
  "eng_DrainRecyclePending mins r =
     (let (ready, keep) = partition (\<lambda>(i, p). mins i \<ge> pr_fence_ts p) (enumerate 0 (ry_pending r))
      in r\<lparr>ry_pending := map snd keep, ry_engine := (ry_engine r)\<lparr>eg_frozen := fold (\<lambda>(i, p). erase_memtable (pr_memtable p)) ready (eg_frozen (ry_engine r))\<rparr>\<rparr>)"

text \<open>A round of the flush worker with the recycling.\<close>

definition eng_flush_round :: "(nat \<Rightarrow> u64 \<times> u32) \<Rightarrow> io_result \<Rightarrow> (nat \<Rightarrow> u64) \<Rightarrow> recycler \<Rightarrow> recycler" where
  "eng_flush_round bsz io mins r =
     (case eg_frozen (ry_engine r) of
        [] \<Rightarrow> r
      | m # ms \<Rightarrow>
          (let e1 = (ry_engine r)\<lparr>eg_frozen := ms\<rparr>
           in if mt_count m = 0 then r\<lparr>ry_engine := e1\<rparr>
              else case eng_DoFlush bsz io m e1 of
                     (e2, True) \<Rightarrow> eng_DrainRecyclePending mins (eng_DeferRecycle m
                        (r\<lparr>ry_engine := e2\<lparr>eg_wal := wal_WriteCheckpoint (eg_global_ts e2) (if eg_in_batch e2 then eg_batch_ts e2 else 0) (eg_wal e2)\<rparr>\<rparr>))
                   | (e2, False) \<Rightarrow> r\<lparr>ry_engine := e2\<rparr>))"

text \<open>
  The steps: a memtable is frozen, the flush worker makes a round, any operation drains, and every other operation of the engine changes neither the numbers of the memtables nor
  their order.
\<close>

inductive ry_reach :: "recycler \<Rightarrow> bool" where
  start: "eg_frozen e = [] \<Longrightarrow> mt_id (eg_active e) < eg_next_id e \<Longrightarrow> ry_reach \<lparr>ry_engine = e, ry_pending = []\<rparr>"
| freeze: "ry_reach r \<Longrightarrow> eg_next_id (ry_engine r) \<noteq> -1 \<Longrightarrow> ry_reach (r\<lparr>ry_engine := eng_freeze (ry_engine r)\<rparr>)"
| flush: "ry_reach r \<Longrightarrow> ry_reach (eng_flush_round bsz io mins r)"
| drain: "ry_reach r \<Longrightarrow> ry_reach (eng_DrainRecyclePending mins r)"
| other: "ry_reach r \<Longrightarrow> mt_id (eg_active e) = mt_id (eg_active (ry_engine r)) \<Longrightarrow> map mt_id (eg_frozen e) = map mt_id (eg_frozen (ry_engine r))
    \<Longrightarrow> eg_next_id e = eg_next_id (ry_engine r) \<Longrightarrow> ry_reach (r\<lparr>ry_engine := e\<rparr>)"

section \<open>The invariant\<close>

definition ry_ids :: "recycler \<Rightarrow> u64 list" where
  "ry_ids r = map mt_id (eg_frozen (ry_engine r)) @ mt_id (eg_active (ry_engine r)) # map (mt_id \<circ> pr_memtable) (ry_pending r)"

definition ry_inv :: "recycler \<Rightarrow> bool" where
  "ry_inv r \<longleftrightarrow> distinct (ry_ids r) \<and> (\<forall>i \<in> set (ry_ids r). i < eg_next_id (ry_engine r))"

lemma erase_memtable_absent: "mt_id m \<notin> mt_id ` set ms \<Longrightarrow> erase_memtable m ms = ms"
  by (induction ms) auto

lemma fold_erase_absent:
  "(\<And>p. p \<in> set ps \<Longrightarrow> mt_id (pr_memtable (snd p)) \<notin> mt_id ` set ms) \<Longrightarrow> fold (\<lambda>(i, p). erase_memtable (pr_memtable p)) ps ms = ms"
proof (induction ps)
  case (Cons p ps)
  have "erase_memtable (pr_memtable (snd p)) ms = ms" using Cons(2) [of p] by (intro erase_memtable_absent) simp
  then show ?case using Cons by (cases p) simp
qed simp

text \<open>What draining does to a state with disjoint numbers: only the list shrinks.\<close>

lemma drain_engine:
  assumes "distinct (ry_ids r)"
  shows "ry_engine (eng_DrainRecyclePending mins r) = ry_engine r" "set (ry_pending (eng_DrainRecyclePending mins r)) \<subseteq> set (ry_pending r)"
    "distinct (map (mt_id \<circ> pr_memtable) (ry_pending (eng_DrainRecyclePending mins r)))"
proof -
  let ?en = "enumerate 0 (ry_pending r)" and ?P = "\<lambda>(i, p). mins i \<ge> pr_fence_ts p"
  have s: "snd p \<in> set (ry_pending r)" if "p \<in> set ?en" for p using that nth_mem [of "fst p" "ry_pending r"] by (auto simp: in_set_enumerate_eq)
  have "fold (\<lambda>(i, p). erase_memtable (pr_memtable p)) (filter ?P ?en) (eg_frozen (ry_engine r)) = eg_frozen (ry_engine r)"
    using assms s by (intro fold_erase_absent) (fastforce simp: ry_ids_def)
  then show "ry_engine (eng_DrainRecyclePending mins r) = ry_engine r" by (simp add: eng_DrainRecyclePending_def partition_filter_conv)
  have keep: "ry_pending (eng_DrainRecyclePending mins r) = map snd (filter (Not \<circ> ?P) ?en)" by (simp add: eng_DrainRecyclePending_def partition_filter_conv)
  then show "set (ry_pending (eng_DrainRecyclePending mins r)) \<subseteq> set (ry_pending r)" using s by auto
  have "map (mt_id \<circ> pr_memtable \<circ> snd) ?en = map (mt_id \<circ> pr_memtable) (ry_pending r)" by (simp flip: map_map)
  then have "distinct (map (mt_id \<circ> pr_memtable \<circ> snd) ?en)" using assms by (simp add: ry_ids_def)
  then have "distinct (map (mt_id \<circ> pr_memtable \<circ> snd) (filter (Not \<circ> ?P) ?en))" by (rule distinct_map_filter)
  then show "distinct (map (mt_id \<circ> pr_memtable) (ry_pending (eng_DrainRecyclePending mins r)))" by (simp add: keep)
qed

lemma distinct_fewer: "distinct (xs @ a # ys) \<Longrightarrow> set ys' \<subseteq> set ys \<Longrightarrow> distinct ys' \<Longrightarrow> distinct (xs @ a # ys')"
  by auto

lemma drain_inv: "ry_inv r \<Longrightarrow> ry_inv (eng_DrainRecyclePending mins r) \<and> ry_engine (eng_DrainRecyclePending mins r) = ry_engine r"
proof -
  assume i: "ry_inv r"
  let ?r = "eng_DrainRecyclePending mins r"
  have d: "distinct (ry_ids r)" using i by (simp add: ry_inv_def)
  note e = drain_engine [OF d, of mins]
  have s: "set (map (mt_id \<circ> pr_memtable) (ry_pending ?r)) \<subseteq> set (map (mt_id \<circ> pr_memtable) (ry_pending r))" using e(2) by (simp only: set_map) (rule image_mono)
  have "distinct (ry_ids ?r)" using distinct_fewer [OF d [unfolded ry_ids_def] s e(3)] by (simp only: ry_ids_def e(1))
  moreover have "set (ry_ids ?r) \<subseteq> set (ry_ids r)" using s by (auto simp: ry_ids_def e(1))
  ultimately show ?thesis using i e(1) by (auto simp: ry_inv_def)
qed

lemma ry_inv_other:
  assumes "ry_inv r" "mt_id (eg_active e) = mt_id (eg_active (ry_engine r))" "map mt_id (eg_frozen e) = map mt_id (eg_frozen (ry_engine r))" "eg_next_id e = eg_next_id (ry_engine r)"
  shows "ry_inv (r\<lparr>ry_engine := e\<rparr>)"
  using assms by (simp add: ry_inv_def ry_ids_def)

text \<open>A memtable that leaves the frozen ones, and may go to the list.\<close>

lemma ry_inv_unlist:
  assumes "ry_inv r" "eg_frozen (ry_engine r) = m # ms" "mt_id (eg_active e) = mt_id (eg_active (ry_engine r))" "eg_frozen e = ms" "eg_next_id e = eg_next_id (ry_engine r)"
  shows "ry_inv (r\<lparr>ry_engine := e\<rparr>)" "ry_inv (eng_DeferRecycle m (r\<lparr>ry_engine := e\<rparr>))"
  using assms by (auto simp: ry_inv_def ry_ids_def eng_DeferRecycle_def)

lemma ry_flush_inv:
  assumes "ry_inv r"
  shows "ry_inv (eng_flush_round bsz io mins r) \<and> ry_engine (eng_flush_round bsz io mins r) = eng_flush_step bsz io (ry_engine r)"
proof (cases "eg_frozen (ry_engine r)")
  case Nil
  then show ?thesis using assms by (simp add: eng_flush_round_def eng_flush_step_def)
next
  case (Cons m ms)
  note u = ry_inv_unlist [OF assms Cons]
  let ?e = "(ry_engine r)\<lparr>eg_frozen := ms\<rparr>"
  obtain e2 ok where d: "eng_DoFlush bsz io m ?e = (e2, ok)" by fastforce
  have f: "eg_active e2 = eg_active (ry_engine r)" "eg_frozen e2 = ms" "eg_next_id e2 = eg_next_id (ry_engine r)"
    using d by (auto simp: eng_DoFlush_def Let_def split: if_splits prod.splits sum.splits)
  let ?e3 = "e2\<lparr>eg_wal := wal_WriteCheckpoint (eg_global_ts e2) (if eg_in_batch e2 then eg_batch_ts e2 else 0) (eg_wal e2)\<rparr>"
  note w = drain_inv [OF u(2) [of ?e3], of mins]
  show ?thesis
  proof (cases "mt_count m = 0 \<or> \<not> ok")
    case True
    then show ?thesis using Cons d f u(1) [of ?e] u(1) [of e2] by (auto simp: eng_flush_round_def eng_flush_step_def Let_def)
  next
    case False
    then show ?thesis using Cons d f w by (simp add: eng_flush_round_def eng_flush_step_def Let_def) (simp add: eng_DeferRecycle_def)
  qed
qed

lemma ry_reach_inv: "ry_reach r \<Longrightarrow> ry_inv r"
proof (induction rule: ry_reach.induct)
  case (start e)
  then show ?case by (simp add: ry_inv_def ry_ids_def)
next
  case (freeze r)
  let ?n = "eg_next_id (ry_engine r)"
  have "1 + ?n \<noteq> 0" using freeze(2) by (metis add.inverse_unique)
  then have "?n < ?n + 1" using unatSuc [of ?n] by (simp add: word_less_nat_alt add.commute)
  then have n: "?n < ?n + 1" "i < ?n \<Longrightarrow> i < ?n + 1" for i by auto
  have "distinct (ry_ids r)" "\<forall>i \<in> set (ry_ids r). i < ?n" using freeze(3) by (auto simp: ry_inv_def)
  with n freeze(2) show ?case by (auto simp: ry_inv_def ry_ids_def eng_freeze_def mt_Freeze_def mt_new_def)
next
  case (other r e)
  then show ?case by (intro ry_inv_other)
qed (simp_all add: ry_flush_inv drain_inv)

section \<open>Properties\<close>

text \<open>
  C33: recycling does not change what readers see. In every reachable state the drain of the recycling list leaves the engine as it is, whatever the tracker answers, and a round of the
  flush worker with recycling does to the engine exactly what the round without it does.
\<close>
theorem recycling_keeps_engine:
  assumes "ry_reach r"
  shows "ry_engine (eng_DrainRecyclePending mins r) = ry_engine r \<and> ry_engine (eng_flush_round bsz io mins r) = eng_flush_step bsz io (ry_engine r)"
  using drain_inv [OF ry_reach_inv [OF assms]] ry_flush_inv [OF ry_reach_inv [OF assms]] by auto

theorem recycling_keeps_engine_witness:
  "ry_engine (eng_DrainRecyclePending (\<lambda>_. 9) (eng_flush_round (\<lambda>_. (10, 7)) Io_ok (\<lambda>_. 0) \<lparr>ry_engine = eng_freeze (eng_fresh 4000), ry_pending = []\<rparr>))
    = eng_flush_step (\<lambda>_. (10, 7)) Io_ok (eng_freeze (eng_fresh 4000))"
proof -
  have "ry_reach \<lparr>ry_engine = eng_fresh 4000, ry_pending = []\<rparr>" by (rule ry_reach.start) (simp_all add: eng_fresh_def mt_new_def)
  from ry_reach.freeze [OF this] have r: "ry_reach \<lparr>ry_engine = eng_freeze (eng_fresh 4000), ry_pending = []\<rparr>" by (simp add: eng_fresh_def)
  show ?thesis using recycling_keeps_engine [OF ry_reach.flush [OF r], of "\<lambda>_. 9"] recycling_keeps_engine [OF r] by simp
qed

end
