(* ===== verification/Flat_Cache.thy ===== *)
theory Flat_Cache
  imports Kv_Types "HOL-Library.Monad_Syntax"
begin

text \<open>
  The generic cache (\<^verbatim>\<open>include/kvdb/internal/flat_cache.hpp\<close>): shards with an open-addressing table whose deleted buckets are marked with a tombstone, and a doubly linked
  list in order of use. The template parameters \<^verbatim>\<open>Hash\<close> and \<^verbatim>\<open>SizeBytes\<close> are the functions \<open>hs\<close> and \<open>sz\<close>; \<open>k0\<close> is the key of a
  default-constructed entry. The number of buckets is a power of two, so that masking is the remainder; pointers to entries are their numbers.
\<close>

section \<open>Shards\<close>

datatype fc_ref = FEmpty | FTombstone | FAt nat

record ('k, 'v) fc_entry =
  fe_key :: 'k
  fe_value :: "'v option"
  fe_prev :: "nat option"
  fe_next :: "nat option"

type_synonym fc_buckets = "(u64 \<times> fc_ref) list"

record ('k, 'v) fc_shard =
  fs_buckets :: fc_buckets
  fs_entries :: "('k, 'v) fc_entry list"
  fs_head :: "nat option"
  fs_tail :: "nat option"
  fs_max_entries :: nat
  fs_max_bytes :: nat
  fs_bytes :: u64
  fs_count :: u64

text \<open>\<^verbatim>\<open>while (bc < per_e * 2) bc *= 2;\<close>\<close>

function fc_bucket_count :: "nat \<Rightarrow> nat \<Rightarrow> nat" where
  "fc_bucket_count per_e bc = (if 0 < bc \<and> bc < per_e * 2 then fc_bucket_count per_e (bc * 2) else bc)"
  by pat_completeness auto
termination
  by (relation "measure (\<lambda>(e, bc). e * 2 - bc)") auto

declare fc_bucket_count.simps [simp del]

definition fc_Init :: "'k \<Rightarrow> nat \<Rightarrow> nat \<Rightarrow> ('k, 'v) fc_shard" where
  "fc_Init k0 per_e per_b = \<lparr>fs_buckets = replicate (fc_bucket_count per_e 1) (0, FEmpty),
     fs_entries = replicate per_e \<lparr>fe_key = k0, fe_value = None, fe_prev = None, fe_next = None\<rparr>,
     fs_head = None, fs_tail = None, fs_max_entries = per_e, fs_max_bytes = per_b, fs_bytes = 0, fs_count = 0\<rparr>"

section \<open>The list of entries in order of use\<close>

definition fc_upd :: "nat \<Rightarrow> (('k, 'v) fc_entry \<Rightarrow> ('k, 'v) fc_entry) \<Rightarrow> ('k, 'v) fc_shard \<Rightarrow> ('k, 'v) fc_shard" where
  "fc_upd i f s = s\<lparr>fs_entries := (fs_entries s)[i := f (fs_entries s ! i)]\<rparr>"

definition fc_LruRemove :: "nat \<Rightarrow> ('k, 'v) fc_shard \<Rightarrow> ('k, 'v) fc_shard" where
  "fc_LruRemove i s =
     (let n = fe_next (fs_entries s ! i);
          s1 = (case fe_prev (fs_entries s ! i) of Some j \<Rightarrow> fc_upd j (fe_next_update (\<lambda>_. n)) s | None \<Rightarrow> s\<lparr>fs_head := n\<rparr>);
          p = fe_prev (fs_entries s1 ! i)
      in case fe_next (fs_entries s1 ! i) of Some j \<Rightarrow> fc_upd j (fe_prev_update (\<lambda>_. p)) s1 | None \<Rightarrow> s1\<lparr>fs_tail := p\<rparr>)"

definition fc_LruPushFront :: "nat \<Rightarrow> ('k, 'v) fc_shard \<Rightarrow> ('k, 'v) fc_shard" where
  "fc_LruPushFront i s =
     (let s1 = fc_upd i (\<lambda>e. e\<lparr>fe_prev := None, fe_next := fs_head s\<rparr>) s;
          s2 = (case fs_head s1 of Some h \<Rightarrow> fc_upd h (fe_prev_update (\<lambda>_. Some i)) s1 | None \<Rightarrow> s1\<lparr>fs_tail := Some i\<rparr>)
      in s2\<lparr>fs_head := Some i\<rparr>)"

section \<open>The hash table\<close>

definition fc_home :: "u64 \<Rightarrow> fc_buckets \<Rightarrow> nat" where
  "fc_home h bs = unat h mod length bs"

text \<open>The loop of \<open>FindSlot\<close>, which gives up after as many steps as there are buckets; \<open>None\<close> is \<^verbatim>\<open>kEmpty\<close>.\<close>

fun fc_probe :: "nat \<Rightarrow> fc_buckets \<Rightarrow> ('k, 'v) fc_entry list \<Rightarrow> 'k \<Rightarrow> u64 \<Rightarrow> nat \<Rightarrow> nat option" where
  "fc_probe 0 bs es key h i = None"
| "fc_probe (Suc n) bs es key h i =
     (case bs ! i of
        (_, FEmpty) \<Rightarrow> None
      | (_, FTombstone) \<Rightarrow> fc_probe n bs es key h ((i + 1) mod length bs)
      | (bh, FAt j) \<Rightarrow> if bh = h \<and> fe_key (es ! j) = key then Some i else fc_probe n bs es key h ((i + 1) mod length bs))"

definition fc_FindSlot :: "('k \<Rightarrow> u64) \<Rightarrow> 'k \<Rightarrow> ('k, 'v) fc_shard \<Rightarrow> nat option" where
  "fc_FindSlot hs key s = fc_probe (length (fs_buckets s)) (fs_buckets s) (fs_entries s) key (hs key) (fc_home (hs key) (fs_buckets s))"

definition fc_ref_at :: "nat \<Rightarrow> ('k, 'v) fc_shard \<Rightarrow> nat" where
  "fc_ref_at slot s = (case snd (fs_buckets s ! slot) of FAt j \<Rightarrow> j | _ \<Rightarrow> 0)"

definition fc_kill :: "nat \<Rightarrow> ('k, 'v) fc_shard \<Rightarrow> ('k, 'v) fc_shard" where
  "fc_kill slot s = s\<lparr>fs_buckets := (fs_buckets s)[slot := (fst (fs_buckets s ! slot), FTombstone)]\<rparr>"

text \<open>The loops that look for a bucket: in \<open>Put_nolock\<close> a tombstone will do, in \<open>Rehash\<close> there are none.\<close>

fun fc_free :: "nat \<Rightarrow> fc_buckets \<Rightarrow> nat \<Rightarrow> nat option" where
  "fc_free 0 bs i = None"
| "fc_free (Suc n) bs i = (case snd (bs ! i) of FAt _ \<Rightarrow> fc_free n bs ((i + 1) mod length bs) | _ \<Rightarrow> Some i)"

definition fc_place :: "u64 \<Rightarrow> nat \<Rightarrow> fc_buckets \<Rightarrow> fc_buckets option" where
  "fc_place h idx bs = map_option (\<lambda>i. bs[i := (h, FAt idx)]) (fc_free (length bs) bs (fc_home h bs))"

fun fc_rehash_into :: "fc_buckets \<Rightarrow> fc_buckets \<Rightarrow> fc_buckets option" where
  "fc_rehash_into [] bs = Some bs"
| "fc_rehash_into ((h, FAt j) # old) bs = Option.bind (fc_place h j bs) (fc_rehash_into old)"
| "fc_rehash_into ((h, _) # old) bs = fc_rehash_into old bs"

definition fc_Rehash :: "('k, 'v) fc_shard \<Rightarrow> ('k, 'v) fc_shard option" where
  "fc_Rehash s = map_option (\<lambda>bs. s\<lparr>fs_buckets := bs\<rparr>)
     (fc_rehash_into (fs_buckets s) (replicate (max (length (fs_buckets s) * 2) 8) (0, FEmpty)))"

section \<open>Operations on a shard\<close>

definition fc_ByteSize :: "('v \<Rightarrow> u64) \<Rightarrow> 'v option \<Rightarrow> u64" where
  "fc_ByteSize sz v = (case v of None \<Rightarrow> 0 | Some x \<Rightarrow> sz x)"

definition fc_drop_bytes :: "('v \<Rightarrow> u64) \<Rightarrow> nat \<Rightarrow> ('k, 'v) fc_shard \<Rightarrow> ('k, 'v) fc_shard" where
  "fc_drop_bytes sz i s = s\<lparr>fs_bytes := fs_bytes s - fc_ByteSize sz (fe_value (fs_entries s ! i))\<rparr>"

text \<open>The entry that is freed, if any.\<close>

definition fc_Evict :: "('k \<Rightarrow> u64) \<Rightarrow> ('v \<Rightarrow> u64) \<Rightarrow> ('k, 'v) fc_shard \<Rightarrow> ('k, 'v) fc_shard \<times> nat option" where
  "fc_Evict hs sz s =
     (case fs_tail s of
        None \<Rightarrow> (s, None)
      | Some t \<Rightarrow>
          (case fc_FindSlot hs (fe_key (fs_entries s ! t)) s of
             None \<Rightarrow> (fc_LruRemove t s, None)
           | Some slot \<Rightarrow> (fc_LruRemove t (fc_kill slot (fc_drop_bytes sz t s)), Some (fc_ref_at slot s))))"

definition fc_Get_nolock :: "('k \<Rightarrow> u64) \<Rightarrow> 'k \<Rightarrow> ('k, 'v) fc_shard \<Rightarrow> ('k, 'v) fc_shard \<times> 'v option" where
  "fc_Get_nolock hs key s =
     (case fc_FindSlot hs key s of
        None \<Rightarrow> (s, None)
      | Some slot \<Rightarrow> (let i = fc_ref_at slot s in (fc_LruPushFront i (fc_LruRemove i s), fe_value (fs_entries s ! i))))"

text \<open>
  The loop that makes room, with the last entry that it has freed; \<open>None\<close> in place of the shard: nothing could be evicted, and the value is not stored.
\<close>

definition fc_full :: "u64 \<Rightarrow> ('k, 'v) fc_shard \<Rightarrow> bool" where
  "fc_full new_bytes s \<longleftrightarrow> unat (fs_count s) \<ge> fs_max_entries s \<or> unat (fs_bytes s + new_bytes) > fs_max_bytes s"

definition fc_live :: "fc_buckets \<Rightarrow> nat" where
  "fc_live bs = length (filter (\<lambda>b. \<exists>j. snd b = FAt j) bs)"

lemma fc_live_kill:
  assumes "i < length bs" and "snd (bs ! i) = FAt j"
  shows "fc_live (bs[i := (h, FTombstone)]) < fc_live bs"
  using assms by (simp add: fc_live_def upd_conv_take_nth_drop) (subst (2) id_take_nth_drop [OF assms(1)], simp)

lemma fc_probe_found:
  assumes "fc_probe n bs es key h i = Some l" and "i < length bs"
  shows "l < length bs \<and> (\<exists>j. bs ! l = (h, FAt j) \<and> fe_key (es ! j) = key)"
  using assms
proof (induction n arbitrary: i)
  case (Suc n)
  have "(i + 1) mod length bs < length bs" using Suc.prems(2) by (intro mod_less_divisor) linarith
  with Suc show ?case by (auto split: prod.splits fc_ref.splits if_splits)
qed simp

lemma fc_FindSlot_found:
  assumes "fc_FindSlot hs key s = Some l"
  shows "l < length (fs_buckets s)" and "fs_buckets s ! l = (hs key, FAt (fc_ref_at l s))" and "fe_key (fs_entries s ! fc_ref_at l s) = key"
proof -
  have "fs_buckets s \<noteq> []" using assms by (auto simp: fc_FindSlot_def)
  then have "fc_home (hs key) (fs_buckets s) < length (fs_buckets s)" by (simp add: fc_home_def)
  with fc_probe_found [OF assms [unfolded fc_FindSlot_def]] obtain j where "l < length (fs_buckets s)" "fs_buckets s ! l = (hs key, FAt j)" "fe_key (fs_entries s ! j) = key" by blast
  then show "l < length (fs_buckets s)" and "fs_buckets s ! l = (hs key, FAt (fc_ref_at l s))" and "fe_key (fs_entries s ! fc_ref_at l s) = key" by (simp_all add: fc_ref_at_def)
qed

lemma fc_buckets_simps [simp]:
  "fs_buckets (fc_upd i f s) = fs_buckets s" "fs_buckets (fc_LruRemove i s) = fs_buckets s" "fs_buckets (fc_LruPushFront i s) = fs_buckets s"
  "fs_buckets (fc_drop_bytes sz i s) = fs_buckets s"
  by (simp_all add: fc_upd_def fc_LruRemove_def fc_LruPushFront_def fc_drop_bytes_def Let_def split: option.split)

lemma fc_Evict_live:
  assumes "fc_Evict hs sz s = (s1, Some idx)"
  shows "fc_live (fs_buckets s1) < fc_live (fs_buckets s)"
proof -
  obtain t slot where t: "fc_FindSlot hs (fe_key (fs_entries s ! t)) s = Some slot" and s1: "s1 = fc_LruRemove t (fc_kill slot (fc_drop_bytes sz t s))"
    using assms by (auto simp: fc_Evict_def split: option.splits)
  show ?thesis unfolding s1 using fc_live_kill [OF fc_FindSlot_found(1) [OF t]] fc_FindSlot_found(2) [OF t] by (simp add: fc_kill_def)
qed

function fc_make_room :: "('k \<Rightarrow> u64) \<Rightarrow> ('v \<Rightarrow> u64) \<Rightarrow> u64 \<Rightarrow> nat option \<Rightarrow> ('k, 'v) fc_shard \<Rightarrow> ('k, 'v) fc_shard \<times> nat option option" where
  "fc_make_room hs sz new_bytes idx s =
     (if fc_full new_bytes s
      then (case fc_Evict hs sz s of
              (s1, None) \<Rightarrow> (s1, None)
            | (s1, Some i) \<Rightarrow> fc_make_room hs sz new_bytes (Some i) (s1\<lparr>fs_count := fs_count s1 - 1\<rparr>))
      else (s, Some idx))"
  by pat_completeness auto
termination
  by (relation "measure (\<lambda>(_, _, _, _, s). fc_live (fs_buckets s))") (auto dest: fc_Evict_live [OF sym])

declare fc_make_room.simps [simp del]

text \<open>\<open>None\<close>: no bucket is free, and the process exits.\<close>

definition fc_insert_new :: "('k \<Rightarrow> u64) \<Rightarrow> 'k \<Rightarrow> 'v \<Rightarrow> u64 \<Rightarrow> nat option \<Rightarrow> ('k, 'v) fc_shard \<Rightarrow> ('k, 'v) fc_shard option" where
  "fc_insert_new hs key val new_bytes freed s0 = do {
     s \<leftarrow> (if unat (fs_count s0) * 2 \<ge> length (fs_buckets s0) then fc_Rehash s0 else Some s0);
     let idx = (case freed of None \<Rightarrow> unat (fs_count s) | Some i \<Rightarrow> i);
     let s1 = fc_upd idx (\<lambda>_. \<lparr>fe_key = key, fe_value = Some val, fe_prev = None, fe_next = None\<rparr>) (s\<lparr>fs_count := fs_count s + 1\<rparr>);
     bs \<leftarrow> fc_place (hs key) idx (fs_buckets s1);
     let s2 = fc_LruPushFront idx (s1\<lparr>fs_buckets := bs\<rparr>);
     Some (s2\<lparr>fs_bytes := fs_bytes s2 + new_bytes\<rparr>)
   }"

definition fc_Put_nolock :: "('k \<Rightarrow> u64) \<Rightarrow> ('v \<Rightarrow> u64) \<Rightarrow> 'k \<Rightarrow> 'v \<Rightarrow> ('k, 'v) fc_shard \<Rightarrow> ('k, 'v) fc_shard option" where
  "fc_Put_nolock hs sz key val s =
     (case fc_FindSlot hs key s of
        Some slot \<Rightarrow>
          (let i = fc_ref_at slot s; s1 = fc_upd i (\<lambda>e. e\<lparr>fe_value := Some val\<rparr>) (fc_drop_bytes sz i s)
           in Some (fc_LruPushFront i (fc_LruRemove i (s1\<lparr>fs_bytes := fs_bytes s1 + sz val\<rparr>))))
      | None \<Rightarrow>
          (case fc_make_room hs sz (sz val) None s of
             (s1, None) \<Rightarrow> Some s1
           | (s1, Some freed) \<Rightarrow> fc_insert_new hs key val (sz val) freed s1))"

definition fc_Erase_nolock :: "('k \<Rightarrow> u64) \<Rightarrow> ('v \<Rightarrow> u64) \<Rightarrow> 'k \<Rightarrow> ('k, 'v) fc_shard \<Rightarrow> ('k, 'v) fc_shard" where
  "fc_Erase_nolock hs sz key s =
     (case fc_FindSlot hs key s of
        None \<Rightarrow> s
      | Some slot \<Rightarrow> (let i = fc_ref_at slot s in fc_kill slot (fc_LruRemove i (fc_drop_bytes sz i s))))"

definition fc_Clear_nolock :: "('k, 'v) fc_shard \<Rightarrow> ('k, 'v) fc_shard" where
  "fc_Clear_nolock s = s\<lparr>fs_count := 0, fs_bytes := 0, fs_head := None, fs_tail := None, fs_buckets := map (\<lambda>_. (0, FEmpty)) (fs_buckets s)\<rparr>"

text \<open>The last entry moves to place \<open>i\<close>: its bucket, its neighbours, its contents.\<close>

definition fc_move_last :: "('k \<Rightarrow> u64) \<Rightarrow> nat \<Rightarrow> ('k, 'v) fc_shard \<Rightarrow> ('k, 'v) fc_shard" where
  "fc_move_last hs i s =
     (let l = unat (fs_count s) - 1; last = fs_entries s ! l;
          s1 = (case fc_FindSlot hs (fe_key last) s of None \<Rightarrow> s
                | Some ls \<Rightarrow> s\<lparr>fs_buckets := (fs_buckets s)[ls := (fst (fs_buckets s ! ls), FAt i)]\<rparr>);
          s2 = (case fe_prev last of Some p \<Rightarrow> fc_upd p (fe_next_update (\<lambda>_. Some i)) s1 | None \<Rightarrow> s1\<lparr>fs_head := Some i\<rparr>);
          s3 = (case fe_next (fs_entries s2 ! l) of Some n \<Rightarrow> fc_upd n (fe_prev_update (\<lambda>_. Some i)) s2 | None \<Rightarrow> s2\<lparr>fs_tail := Some i\<rparr>);
          e = fs_entries s3 ! l
      in fc_upd l (fe_value_update (\<lambda>_. None)) (fc_upd i (\<lambda>_. e) s3))"

function fc_erase_from :: "('k \<Rightarrow> u64) \<Rightarrow> ('v \<Rightarrow> u64) \<Rightarrow> ('k \<Rightarrow> bool) \<Rightarrow> nat \<Rightarrow> ('k, 'v) fc_shard \<Rightarrow> ('k, 'v) fc_shard" where
  "fc_erase_from hs sz pred i s =
     (if i < unat (fs_count s)
      then (if pred (fe_key (fs_entries s ! i))
            then let s1 = (case fc_FindSlot hs (fe_key (fs_entries s ! i)) s of None \<Rightarrow> s | Some slot \<Rightarrow> fc_kill slot s);
                     s2 = fc_LruRemove i (fc_drop_bytes sz i s1);
                     s3 = (if i \<noteq> unat (fs_count s) - 1 then fc_move_last hs i s2 else s2)
                 in fc_erase_from hs sz pred i (s3\<lparr>fs_count := fs_count s - 1\<rparr>)
            else fc_erase_from hs sz pred (i + 1) s)
      else s)"
  by pat_completeness auto
termination
  by (relation "measure (\<lambda>(_, _, _, i, s). unat (fs_count s) - i)") (auto simp: unat_sub word_le_nat_alt)

declare fc_erase_from.simps [simp del]

definition fc_EraseIf_nolock :: "('k \<Rightarrow> u64) \<Rightarrow> ('v \<Rightarrow> u64) \<Rightarrow> ('k \<Rightarrow> bool) \<Rightarrow> ('k, 'v) fc_shard \<Rightarrow> ('k, 'v) fc_shard" where
  "fc_EraseIf_nolock hs sz pred = fc_erase_from hs sz pred 0"

section \<open>The sharded cache\<close>

type_synonym ('k, 'v) flat_cache = "('k, 'v) fc_shard list"

definition fc_new :: "'k \<Rightarrow> nat \<Rightarrow> nat \<Rightarrow> nat \<Rightarrow> ('k, 'v) flat_cache" where
  "fc_new k0 max_entries max_bytes num_shards =
     replicate num_shards (fc_Init k0 (max 1 (max_entries div num_shards)) (max 1 (max_bytes div num_shards)))"

definition fc_Shard :: "('k \<Rightarrow> u64) \<Rightarrow> 'k \<Rightarrow> ('k, 'v) flat_cache \<Rightarrow> nat" where
  "fc_Shard hs key c = unat (hs key) mod length c"

definition fc_Get :: "('k \<Rightarrow> u64) \<Rightarrow> 'k \<Rightarrow> ('k, 'v) flat_cache \<Rightarrow> ('k, 'v) flat_cache \<times> 'v option" where
  "fc_Get hs key c = (let i = fc_Shard hs key c; (s, r) = fc_Get_nolock hs key (c ! i) in (c[i := s], r))"

definition fc_Put :: "('k \<Rightarrow> u64) \<Rightarrow> ('v \<Rightarrow> u64) \<Rightarrow> 'k \<Rightarrow> 'v \<Rightarrow> ('k, 'v) flat_cache \<Rightarrow> ('k, 'v) flat_cache option" where
  "fc_Put hs sz key val c = (let i = fc_Shard hs key c in map_option (\<lambda>s. c[i := s]) (fc_Put_nolock hs sz key val (c ! i)))"

definition fc_Erase :: "('k \<Rightarrow> u64) \<Rightarrow> ('v \<Rightarrow> u64) \<Rightarrow> 'k \<Rightarrow> ('k, 'v) flat_cache \<Rightarrow> ('k, 'v) flat_cache" where
  "fc_Erase hs sz key c = (let i = fc_Shard hs key c in c[i := fc_Erase_nolock hs sz key (c ! i)])"

definition fc_Clear :: "('k, 'v) flat_cache \<Rightarrow> ('k, 'v) flat_cache" where
  "fc_Clear c = map fc_Clear_nolock c"

definition fc_EraseIf :: "('k \<Rightarrow> u64) \<Rightarrow> ('v \<Rightarrow> u64) \<Rightarrow> ('k \<Rightarrow> bool) \<Rightarrow> ('k, 'v) flat_cache \<Rightarrow> ('k, 'v) flat_cache" where
  "fc_EraseIf hs sz pred c = map (fc_EraseIf_nolock hs sz pred) c"

end
