(* ===== verification/Flat_Cache_Lru.thy ===== *)
theory Flat_Cache_Lru
  imports Flat_Cache
begin

text \<open>
  The generic cache refines a list of pairs in order of use: invariants of the linked list (\<open>dll\<close>) and of the open-addressing table (\<open>fc_tab\<close>), and what each operation does to the abstract list.
\<close>

section \<open>Doubly linked lists\<close>

definition opt_hd :: "nat list \<Rightarrow> nat option \<Rightarrow> nat option" where
  "opt_hd xs q = (case xs of [] \<Rightarrow> q | x # _ \<Rightarrow> Some x)"

definition opt_last :: "nat list \<Rightarrow> nat option \<Rightarrow> nat option" where
  "opt_last xs p = (if xs = [] then p else Some (last xs))"

lemma opt_hd_simps [simp]: "opt_hd [] q = q" "opt_hd (x # xs) q = Some x" "opt_hd (xs @ ys) q = opt_hd xs (opt_hd ys q)"
  by (simp_all add: opt_hd_def split: list.split)

lemma opt_last_simps [simp]: "opt_last [] p = p" "opt_last (x # xs) p = opt_last xs (Some x)" "opt_last (xs @ ys) p = opt_last ys (opt_last xs p)"
  by (simp_all add: opt_last_def)

text \<open>The links of the entries \<open>xs\<close>, between \<open>p\<close> and \<open>q\<close>.\<close>

fun links :: "('k, 'v) fc_entry list \<Rightarrow> nat option \<Rightarrow> nat list \<Rightarrow> nat option \<Rightarrow> bool" where
  "links es p [] q \<longleftrightarrow> True"
| "links es p (x # xs) q \<longleftrightarrow> fe_prev (es ! x) = p \<and> fe_next (es ! x) = opt_hd xs q \<and> links es (Some x) xs q"

lemma links_append: "links es p (xs @ ys) q \<longleftrightarrow> links es p xs (opt_hd ys q) \<and> links es (opt_last xs p) ys q"
  by (induction xs arbitrary: p) auto

lemma links_cong: "(\<And>x. x \<in> set xs \<Longrightarrow> fe_prev (es' ! x) = fe_prev (es ! x) \<and> fe_next (es' ! x) = fe_next (es ! x)) \<Longrightarrow> links es' p xs q = links es p xs q"
  by (induction xs arbitrary: p) auto

lemma links_upd_other: "x \<notin> set xs \<Longrightarrow> links (es[x := e]) p xs q = links es p xs q"
  by (rule links_cong) (metis nth_list_update_neq)

definition dll :: "('k, 'v) fc_entry list \<Rightarrow> nat option \<Rightarrow> nat option \<Rightarrow> nat list \<Rightarrow> bool" where
  "dll es h t xs \<longleftrightarrow> distinct xs \<and> set xs \<subseteq> {..<length es} \<and> h = opt_hd xs None \<and> t = opt_last xs None \<and> links es None xs None"

abbreviation fs_dll :: "('k, 'v) fc_shard \<Rightarrow> nat list \<Rightarrow> bool" where
  "fs_dll s xs \<equiv> dll (fs_entries s) (fs_head s) (fs_tail s) xs"

lemma links_set_next:
  assumes "links es p (ys @ [y]) q" and "y \<notin> set ys" and "y < length es"
  shows "links (es[y := (es ! y)\<lparr>fe_next := q'\<rparr>]) p (ys @ [y]) q'"
  using assms by (simp add: links_append links_upd_other)

lemma links_set_prev:
  assumes "links es p (z # zs) q" and "z \<notin> set zs" and "z < length es"
  shows "links (es[z := (es ! z)\<lparr>fe_prev := p'\<rparr>]) p' (z # zs) q"
  using assms by (simp add: links_upd_other)

lemma dll_remove:
  assumes "fs_dll s (ys @ x # zs)"
  shows "fs_dll (fc_LruRemove x s) (ys @ zs)"
proof -
  have d: "distinct (ys @ x # zs)" "set (ys @ x # zs) \<subseteq> {..<length (fs_entries s)}" and h: "fs_head s = opt_hd (ys @ x # zs) None" "fs_tail s = opt_last (ys @ x # zs) None"
    and l: "links (fs_entries s) None ys (Some x)" "links (fs_entries s) (Some x) zs None" "fe_prev (fs_entries s ! x) = opt_last ys None" "fe_next (fs_entries s ! x) = opt_hd zs None"
    using assms by (auto simp: dll_def links_append)
  define s1 where "s1 = (case opt_last ys None of Some j \<Rightarrow> fc_upd j (fe_next_update (\<lambda>_. opt_hd zs None)) s | None \<Rightarrow> s\<lparr>fs_head := opt_hd zs None\<rparr>)"
  have s1: "links (fs_entries s1) None ys (opt_hd zs None) \<and> links (fs_entries s1) (Some x) zs None \<and> fs_entries s1 ! x = fs_entries s ! x
    \<and> fs_head s1 = opt_hd (ys @ zs) None \<and> fs_tail s1 = fs_tail s \<and> length (fs_entries s1) = length (fs_entries s)"
  proof (cases ys rule: rev_exhaust)
    case Nil
    then show ?thesis using l by (simp add: s1_def)
  next
    case (snoc ys' y)
    have "y \<noteq> x" "y \<notin> set zs" "y \<notin> set ys'" "y < length (fs_entries s)" using d snoc by auto
    moreover have "links ((fs_entries s)[y := (fs_entries s ! y)\<lparr>fe_next := opt_hd zs None\<rparr>]) None (ys' @ [y]) (opt_hd zs None)"
      by (rule links_set_next [of _ _ _ _ "Some x"]) (use l(1) snoc calculation in simp_all)
    ultimately show ?thesis using l h snoc by (simp add: s1_def fc_upd_def links_upd_other)
  qed
  have r: "fc_LruRemove x s = (case opt_hd zs None of Some j \<Rightarrow> fc_upd j (fe_prev_update (\<lambda>_. opt_last ys None)) s1 | None \<Rightarrow> s1\<lparr>fs_tail := opt_last ys None\<rparr>)"
  proof -
    have x: "fs_entries s1 ! x = fs_entries s ! x" using s1 by blast
    show ?thesis unfolding fc_LruRemove_def Let_def by (simp only: l(4) s1_def [symmetric] x l(3))
  qed
  show ?thesis
  proof (cases zs)
    case Nil
    then show ?thesis using s1 d by (simp add: r dll_def links_append)
  next
    case (Cons z zs')
    have z: "z \<notin> set ys" "z \<notin> set zs'" "z < length (fs_entries s1)" using d s1 Cons by auto
    moreover have "links ((fs_entries s1)[z := (fs_entries s1 ! z)\<lparr>fe_prev := opt_last ys None\<rparr>]) (opt_last ys None) (z # zs') None"
      by (rule links_set_prev [of _ "Some x"]) (use s1 Cons z in simp_all)
    ultimately show ?thesis using s1 d h Cons by (simp add: r dll_def links_append fc_upd_def links_upd_other)
  qed
qed

lemma dll_push:
  assumes "fs_dll s xs" and "x \<notin> set xs" and "x < length (fs_entries s)"
  shows "fs_dll (fc_LruPushFront x s) (x # xs)"
proof (cases xs)
  case Nil
  then show ?thesis using assms by (simp add: dll_def fc_LruPushFront_def Let_def fc_upd_def)
next
  case (Cons y ys)
  let ?es = "(fs_entries s)[x := (fs_entries s ! x)\<lparr>fe_prev := None, fe_next := Some y\<rparr>]"
  have d: "y \<notin> set ys" "y \<noteq> x" "y < length (fs_entries s)" "fs_head s = Some y" "fs_tail s = opt_last ys (Some y)" "links (fs_entries s) None (y # ys) None"
    "distinct ys" "set ys \<subseteq> {..<length (fs_entries s)}" "x \<notin> set ys"
    using assms Cons by (auto simp: dll_def)
  have "links ?es None (y # ys) None" using d(6) assms(2) Cons by (subst links_upd_other) auto
  then have "links (?es[y := (?es ! y)\<lparr>fe_prev := Some x\<rparr>]) (Some x) (y # ys) None" by (rule links_set_prev) (use d in simp_all)
  then show ?thesis using d assms(3) by (simp add: Cons dll_def fc_LruPushFront_def Let_def fc_upd_def)
qed

section \<open>The table\<close>

text \<open>From bucket \<open>i\<close> the search gets to bucket \<open>l\<close>.\<close>

definition on_path :: "fc_buckets \<Rightarrow> nat \<Rightarrow> nat \<Rightarrow> bool" where
  "on_path bs i l \<longleftrightarrow> (\<exists>d < length bs. (i + d) mod length bs = l \<and> (\<forall>d' < d. snd (bs ! ((i + d') mod length bs)) \<noteq> FEmpty))"

text \<open>
  The table has one bucket for each entry of \<open>J\<close> and no others, each on the path of its key; the keys of these entries differ.
\<close>

definition fc_tab :: "('k \<Rightarrow> u64) \<Rightarrow> fc_buckets \<Rightarrow> (nat \<Rightarrow> 'k) \<Rightarrow> nat set \<Rightarrow> bool" where
  "fc_tab hs bs key J \<longleftrightarrow> bs \<noteq> []
     \<and> (\<forall>l < length bs. \<forall>j. snd (bs ! l) = FAt j \<longrightarrow> j \<in> J \<and> fst (bs ! l) = hs (key j) \<and> on_path bs (fc_home (hs (key j)) bs) l)
     \<and> (\<forall>j \<in> J. \<exists>l < length bs. snd (bs ! l) = FAt j)
     \<and> (\<forall>l < length bs. \<forall>l' < length bs. \<forall>j. snd (bs ! l) = FAt j \<longrightarrow> snd (bs ! l') = FAt j \<longrightarrow> l = l') \<and> inj_on key J"

lemma fc_tab_bucket: "fc_tab hs bs key J \<Longrightarrow> l < length bs \<Longrightarrow> snd (bs ! l) = FAt j \<Longrightarrow> j \<in> J \<and> fst (bs ! l) = hs (key j) \<and> on_path bs (fc_home (hs (key j)) bs) l"
  unfolding fc_tab_def by blast

lemma fc_tab_cover: "fc_tab hs bs key J \<Longrightarrow> j \<in> J \<Longrightarrow> \<exists>l < length bs. snd (bs ! l) = FAt j"
  unfolding fc_tab_def by blast

lemma fc_tab_unique: "fc_tab hs bs key J \<Longrightarrow> l < length bs \<Longrightarrow> l' < length bs \<Longrightarrow> snd (bs ! l) = FAt j \<Longrightarrow> snd (bs ! l') = FAt j \<Longrightarrow> l = l'"
  unfolding fc_tab_def by blast

lemma fc_tab_keys: "fc_tab hs bs key J \<Longrightarrow> i \<in> J \<Longrightarrow> j \<in> J \<Longrightarrow> key i = key j \<Longrightarrow> i = j"
  unfolding fc_tab_def inj_on_def by blast

lemma on_path_mono:
  assumes "on_path bs i l" and "length bs' = length bs" and "\<And>k. k < length bs \<Longrightarrow> snd (bs' ! k) = FEmpty \<Longrightarrow> snd (bs ! k) = FEmpty"
  shows "on_path bs' i l"
proof -
  obtain d where d: "d < length bs" "(i + d) mod length bs = l" "\<forall>d' < d. snd (bs ! ((i + d') mod length bs)) \<noteq> FEmpty" using assms(1) unfolding on_path_def by blast
  have "snd (bs' ! ((i + d') mod length bs)) \<noteq> FEmpty" if "d' < d" for d'
    using d(1,3) that assms(3) [of "(i + d') mod length bs"] by (metis gr_zeroI less_zeroE mod_less_divisor)
  then show ?thesis unfolding on_path_def using d(1,2) assms(2) by auto
qed

lemma fc_probe_complete:
  assumes "(i + d) mod length bs = l" and "d < m" and "\<forall>d' < d. snd (bs ! ((i + d') mod length bs)) \<noteq> FEmpty" and "bs ! l = (h, FAt j)" and "fe_key (es ! j) = key" and "i < length bs"
  shows "\<exists>l'. fc_probe m bs es key h i = Some l'"
  using assms(1-3,6)
proof (induction m arbitrary: i d)
  case (Suc m)
  show ?case
  proof (cases d)
    case 0
    then show ?thesis using Suc.prems assms(4,5) by simp
  next
    case (Suc d0)
    have ne: "snd (bs ! i) \<noteq> FEmpty" using Suc.prems(3,4) Suc by force
    have "(i + 1) mod length bs < length bs" using Suc.prems(4) by (intro mod_less_divisor) linarith
    moreover have "((i + 1) mod length bs + e) mod length bs = (i + Suc e) mod length bs" for e by (simp add: mod_add_left_eq)
    ultimately have "\<exists>l'. fc_probe m bs es key h ((i + 1) mod length bs) = Some l'"
      using Suc.prems(1-3) Suc by (intro Suc.IH [of _ d0]) auto
    then show ?thesis using ne by (auto split: prod.splits fc_ref.splits)
  qed
qed simp

lemma fc_tab_find:
  assumes "fc_tab hs bs (\<lambda>j. fe_key (es ! j)) J" and "j \<in> J" and "fe_key (es ! j) = key"
  shows "\<exists>l < length bs. fc_probe (length bs) bs es key (hs key) (fc_home (hs key) bs) = Some l \<and> bs ! l = (hs key, FAt j)"
proof -
  have h: "fc_home (hs key) bs < length bs" using assms(1) by (simp add: fc_home_def fc_tab_def)
  obtain l where l: "l < length bs" "snd (bs ! l) = FAt j" using fc_tab_cover [OF assms(1,2)] by blast
  from fc_tab_bucket [OF assms(1) l] assms(3) obtain d where b: "fst (bs ! l) = hs key" and d: "(fc_home (hs key) bs + d) mod length bs = l" "d < length bs"
      "\<forall>d' < d. snd (bs ! ((fc_home (hs key) bs + d') mod length bs)) \<noteq> FEmpty"
    unfolding on_path_def by auto
  have "bs ! l = (hs key, FAt j)" using b l(2) by (metis prod.collapse)
  from fc_probe_complete [OF d this assms(3) h] obtain l' where p: "fc_probe (length bs) bs es key (hs key) (fc_home (hs key) bs) = Some l'" by blast
  from fc_probe_found [OF p h] obtain j' where j': "l' < length bs" "bs ! l' = (hs key, FAt j')" "fe_key (es ! j') = key" by blast
  then have "j' \<in> J" using fc_tab_bucket [OF assms(1), of l' j'] by simp
  then have "j' = j" using fc_tab_keys [OF assms(1), of j' j] assms(2,3) j'(3) by simp
  then show ?thesis using p j' by blast
qed

lemma fc_tab_absent:
  assumes "fc_tab hs bs (\<lambda>j. fe_key (es ! j)) J" and "\<And>j. j \<in> J \<Longrightarrow> fe_key (es ! j) \<noteq> key"
  shows "fc_probe (length bs) bs es key (hs key) (fc_home (hs key) bs) = None"
proof (rule ccontr)
  assume "\<not> ?thesis"
  then obtain l where p: "fc_probe (length bs) bs es key (hs key) (fc_home (hs key) bs) = Some l" by auto
  have "fc_home (hs key) bs < length bs" using assms(1) by (simp add: fc_home_def fc_tab_def)
  from fc_probe_found [OF p this] obtain j where "l < length bs" "bs ! l = (hs key, FAt j)" "fe_key (es ! j) = key" by blast
  then show False using fc_tab_bucket [OF assms(1), of l j] assms(2) by auto
qed

lemma fc_tab_cong: "(\<And>j. j \<in> J \<Longrightarrow> key' j = key j) \<Longrightarrow> fc_tab hs bs key J \<Longrightarrow> fc_tab hs bs key' J"
proof -
  assume eq: "\<And>j. j \<in> J \<Longrightarrow> key' j = key j" and t: "fc_tab hs bs key J"
  have "j \<in> J \<and> fst (bs ! l) = hs (key' j) \<and> on_path bs (fc_home (hs (key' j)) bs) l" if "l < length bs" "snd (bs ! l) = FAt j" for l j
    using fc_tab_bucket [OF t that] eq [of j] by simp
  moreover have "inj_on key' J" using t eq by (simp add: fc_tab_def inj_on_def)
  ultimately show ?thesis using t unfolding fc_tab_def by blast
qed

lemma fc_tab_kill:
  assumes "fc_tab hs bs key J" and "k < length bs" and "snd (bs ! k) = FAt i"
  shows "fc_tab hs (bs[k := (h, FTombstone)]) key (J - {i})"
proof -
  let ?bs = "bs[k := (h, FTombstone)]"
  have at: "snd (?bs ! l) = FAt j \<longleftrightarrow> l \<noteq> k \<and> snd (bs ! l) = FAt j" if "l < length bs" for l j using that by (cases "l = k") auto
  have "j \<in> J - {i} \<and> fst (?bs ! l) = hs (key j) \<and> on_path ?bs (fc_home (hs (key j)) ?bs) l" if l: "l < length ?bs" "snd (?bs ! l) = FAt j" for l j
  proof -
    have b: "l \<noteq> k" "snd (bs ! l) = FAt j" "l < length bs" using l at by auto
    note t = fc_tab_bucket [OF assms(1) b(3,2)]
    have "j \<noteq> i" using fc_tab_unique [OF assms(1) b(3) assms(2) b(2)] assms(3) b(1) by blast
    moreover have "on_path ?bs (fc_home (hs (key j)) bs) l" by (rule on_path_mono [where bs = bs]) (use t assms(2) in \<open>auto simp: nth_list_update split: if_splits\<close>)
    ultimately show ?thesis using t b by (simp add: fc_home_def)
  qed
  moreover have "\<exists>l < length ?bs. snd (?bs ! l) = FAt j" if "j \<in> J - {i}" for j
    using fc_tab_cover [OF assms(1), of j] that assms(3) at by (metis DiffD1 DiffD2 fc_ref.inject insertI1 length_list_update)
  moreover have "l = l'" if "l < length ?bs" "l' < length ?bs" "snd (?bs ! l) = FAt j" "snd (?bs ! l') = FAt j" for l l' j
    using fc_tab_unique [OF assms(1), of l l' j] at that by auto
  moreover have "inj_on key (J - {i})" using assms(1) by (auto simp: fc_tab_def inj_on_def)
  ultimately show ?thesis using assms(1) unfolding fc_tab_def by auto
qed

lemma fc_free_found:
  assumes "fc_free m bs i = Some k" and "i < length bs"
  shows "k < length bs \<and> (\<forall>j. snd (bs ! k) \<noteq> FAt j) \<and> (\<exists>d < m. (i + d) mod length bs = k \<and> (\<forall>d' < d. snd (bs ! ((i + d') mod length bs)) \<noteq> FEmpty))"
  using assms
proof (induction m arbitrary: i)
  case (Suc m)
  show ?case
  proof (cases "snd (bs ! i)")
    case (FAt j)
    have n: "(i + 1) mod length bs < length bs" using Suc.prems(2) by (intro mod_less_divisor) linarith
    have f: "fc_free m bs ((i + 1) mod length bs) = Some k" using Suc.prems(1) FAt by simp
    from Suc.IH [OF f n] obtain d where d: "k < length bs" "\<forall>j. snd (bs ! k) \<noteq> FAt j" "d < m" "((i + 1) mod length bs + d) mod length bs = k"
      "\<forall>d' < d. snd (bs ! (((i + 1) mod length bs + d') mod length bs)) \<noteq> FEmpty" by blast
    have e: "((i + 1) mod length bs + e) mod length bs = (i + Suc e) mod length bs" for e by (simp add: mod_add_left_eq)
    have "snd (bs ! ((i + d') mod length bs)) \<noteq> FEmpty" if "d' < Suc d" for d'
      using that d(5) e FAt Suc.prems(2) by (cases d') auto
    then show ?thesis using d(1-4) e by (intro conjI exI [of _ "Suc d"]) auto
  qed (use Suc.prems in auto)
qed simp

lemma fc_free_exists:
  assumes "\<exists>d < m. \<forall>j. snd (bs ! ((i + d) mod length bs)) \<noteq> FAt j" and "i < length bs"
  shows "\<exists>k. fc_free m bs i = Some k"
  using assms
proof (induction m arbitrary: i)
  case (Suc m)
  show ?case
  proof (cases "snd (bs ! i)")
    case (FAt j)
    obtain d where d: "d < Suc m" "\<forall>j. snd (bs ! ((i + d) mod length bs)) \<noteq> FAt j" using Suc.prems(1) by blast
    then obtain d' where "d = Suc d'" using FAt Suc.prems(2) by (cases d) auto
    then have "d' < m" "\<forall>j. snd (bs ! (((i + 1) mod length bs + d') mod length bs)) \<noteq> FAt j" using d by (simp_all add: mod_add_left_eq)
    moreover have "(i + 1) mod length bs < length bs" using Suc.prems(2) by (intro mod_less_divisor) linarith
    ultimately show ?thesis using Suc.IH FAt by auto
  qed simp_all
qed simp

lemma fc_tab_place:
  assumes "fc_tab hs bs key J" and "fc_free (length bs) bs (fc_home (hs (key' i)) bs) = Some k" and "i \<notin> J"
    and "\<And>j. j \<in> J \<Longrightarrow> key' j = key j" and "\<And>j. j \<in> J \<Longrightarrow> key j \<noteq> key' i"
  shows "fc_tab hs (bs[k := (hs (key' i), FAt i)]) key' (insert i J)"
proof -
  let ?bs = "bs[k := (hs (key' i), FAt i)]"
  have h: "fc_home (hs (key' i)) bs < length bs" using assms(1) by (simp add: fc_home_def fc_tab_def)
  from fc_free_found [OF assms(2) h] have k: "k < length bs" "\<And>j. snd (bs ! k) \<noteq> FAt j" and p: "on_path bs (fc_home (hs (key' i)) bs) k"
    unfolding on_path_def by auto
  have e: "snd (bs ! l) = FEmpty" if "snd (?bs ! l) = FEmpty" for l using that k(1) by (cases "l = k") auto
  have path: "on_path ?bs a l" if "on_path bs a l" for a l by (rule on_path_mono [OF that]) (use e in auto)
  have at: "snd (?bs ! l) = FAt j \<longleftrightarrow> l = k \<and> j = i \<or> l \<noteq> k \<and> snd (bs ! l) = FAt j" if "l < length bs" for l j
    using that k by (cases "l = k") auto
  have J: "j \<in> J" if "l < length bs" "snd (bs ! l) = FAt j" for l j using fc_tab_bucket [OF assms(1) that] by blast
  have "j \<in> insert i J \<and> fst (?bs ! l) = hs (key' j) \<and> on_path ?bs (fc_home (hs (key' j)) ?bs) l" if l: "l < length ?bs" "snd (?bs ! l) = FAt j" for l j
  proof (cases "l = k")
    case True
    then show ?thesis using l at [of l j] k(1) path [OF p] by (simp add: fc_home_def)
  next
    case False
    then have b: "l < length bs" "snd (bs ! l) = FAt j" using l at [of l j] by auto
    with fc_tab_bucket [OF assms(1) b] path assms(4) [OF J [OF b]] False show ?thesis by (simp add: fc_home_def)
  qed
  moreover have "\<exists>l < length ?bs. snd (?bs ! l) = FAt j" if j: "j \<in> insert i J" for j
  proof (cases "j = i")
    case True
    then show ?thesis using k(1) by (intro exI [of _ k]) simp
  next
    case False
    then obtain l where "l < length bs" "snd (bs ! l) = FAt j" using fc_tab_cover [OF assms(1)] j by blast
    then show ?thesis using at [of l j] k(2) by (intro exI [of _ l]) auto
  qed
  moreover have "l = l'" if "l < length ?bs" "l' < length ?bs" "snd (?bs ! l) = FAt j" "snd (?bs ! l') = FAt j" for l l' j
  proof (cases "j = i")
    case True
    have "l = k \<or> snd (bs ! l) = FAt i" "l' = k \<or> snd (bs ! l') = FAt i" using at [of l j] at [of l' j] that True by auto
    then show ?thesis using J [of l i] J [of l' i] that(1,2) assms(3) by auto
  next
    case False
    then have "snd (bs ! l) = FAt j" "snd (bs ! l') = FAt j" using at [of l j] at [of l' j] that by auto
    then show ?thesis using fc_tab_unique [OF assms(1)] that(1,2) by simp
  qed
  moreover have "inj_on key' (insert i J)"
  proof (rule inj_onI)
    fix x y assume "x \<in> insert i J" "y \<in> insert i J" "key' x = key' y"
    then show "x = y" using fc_tab_keys [OF assms(1), of x y] assms(4,5) [of x] assms(4,5) [of y] by auto
  qed
  ultimately show ?thesis using assms(1) unfolding fc_tab_def by auto
qed

text \<open>Entry \<open>i\<close> takes the place of entry \<open>m\<close>.\<close>

lemma fc_tab_move:
  assumes "fc_tab hs bs key J" and "k < length bs" and "bs ! k = (h, FAt m)" and "i \<notin> J"
    and "\<And>j. j \<in> J \<Longrightarrow> j \<noteq> m \<Longrightarrow> key' j = key j" and "key' i = key m"
  shows "fc_tab hs (bs[k := (h, FAt i)]) key' (insert i (J - {m}))"
proof -
  let ?bs = "bs[k := (h, FAt i)]"
  have m: "m \<in> J" "h = hs (key m)" "on_path bs (fc_home (hs (key m)) bs) k" using fc_tab_bucket [OF assms(1,2), of m] assms(3) by auto
  have e: "snd (bs ! l) = FEmpty" if "snd (?bs ! l) = FEmpty" for l using that assms(2) by (cases "l = k") auto
  have path: "on_path ?bs a l" if "on_path bs a l" for a l by (rule on_path_mono [OF that]) (use e in auto)
  have at: "snd (?bs ! l) = FAt j \<longleftrightarrow> l = k \<and> j = i \<or> l \<noteq> k \<and> snd (bs ! l) = FAt j" if "l < length bs" for l j
    using that assms(2) by (cases "l = k") auto
  have J: "j \<in> J \<and> j \<noteq> m" if "l < length bs" "snd (bs ! l) = FAt j" "l \<noteq> k" for l j
    using fc_tab_bucket [OF assms(1) that(1,2)] fc_tab_unique [OF assms(1) that(1) assms(2) that(2)] assms(3) that(3) by auto
  have "j \<in> insert i (J - {m}) \<and> fst (?bs ! l) = hs (key' j) \<and> on_path ?bs (fc_home (hs (key' j)) ?bs) l" if l: "l < length ?bs" "snd (?bs ! l) = FAt j" for l j
  proof (cases "l = k")
    case True
    then show ?thesis using l at [of l j] assms(2,6) m path by (simp add: fc_home_def)
  next
    case False
    then have b: "l < length bs" "snd (bs ! l) = FAt j" using l at [of l j] by auto
    with fc_tab_bucket [OF assms(1) b] path assms(5) [of j] J [OF b False] False show ?thesis by (simp add: fc_home_def)
  qed
  moreover have "\<exists>l < length ?bs. snd (?bs ! l) = FAt j" if j: "j \<in> insert i (J - {m})" for j
  proof (cases "j = i")
    case True
    then show ?thesis using assms(2) by (intro exI [of _ k]) simp
  next
    case False
    then obtain l where l: "l < length bs" "snd (bs ! l) = FAt j" using fc_tab_cover [OF assms(1)] j by blast
    then have "l \<noteq> k" using assms(3) j False by auto
    then show ?thesis using at [of l j] l by (intro exI [of _ l]) auto
  qed
  moreover have "l = l'" if "l < length ?bs" "l' < length ?bs" "snd (?bs ! l) = FAt j" "snd (?bs ! l') = FAt j" for l l' j
  proof (cases "j = i")
    case True
    have "l = k \<or> l \<noteq> k \<and> snd (bs ! l) = FAt i" "l' = k \<or> l' \<noteq> k \<and> snd (bs ! l') = FAt i" using at [of l j] at [of l' j] that True by auto
    then show ?thesis using J [of l i] J [of l' i] that(1,2) assms(4) by auto
  next
    case False
    then have "snd (bs ! l) = FAt j" "snd (bs ! l') = FAt j" using at [of l j] at [of l' j] that by auto
    then show ?thesis using fc_tab_unique [OF assms(1)] that(1,2) by simp
  qed
  moreover have "inj_on key' (insert i (J - {m}))"
  proof (rule inj_onI)
    fix x y assume "x \<in> insert i (J - {m})" "y \<in> insert i (J - {m})" "key' x = key' y"
    then show "x = y" using fc_tab_keys [OF assms(1)] assms(5,6) m(1) by auto
  qed
  ultimately show ?thesis using assms(1) unfolding fc_tab_def by auto
qed

lemma fc_tab_room:
  assumes "fc_tab hs bs key J" and "finite J" and "card J < length bs"
  shows "\<exists>k. fc_free (length bs) bs (fc_home h bs) = Some k"
proof -
  have "\<exists>l < length bs. \<forall>j. snd (bs ! l) \<noteq> FAt j"
  proof (rule ccontr)
    assume "\<not> ?thesis"
    then have "\<forall>l. \<exists>j. l < length bs \<longrightarrow> snd (bs ! l) = FAt j" by blast
    then obtain at where at: "\<forall>l. l < length bs \<longrightarrow> snd (bs ! l) = FAt (at l)" by (rule choice [THEN exE])
    have "inj_on at {..<length bs}"
    proof (rule inj_onI)
      fix l l' assume l: "l \<in> {..<length bs}" "l' \<in> {..<length bs}" "at l = at l'"
      show "l = l'" by (rule fc_tab_unique [OF assms(1), of _ _ "at l"]) (use l at in auto)
    qed
    moreover have "at ` {..<length bs} \<subseteq> J" using at fc_tab_bucket [OF assms(1)] by blast
    ultimately have "card {..<length bs} \<le> card J" by (rule card_inj_on_le) (rule assms(2))
    with assms(3) show False by simp
  qed
  then obtain l where l: "l < length bs" "\<forall>j. snd (bs ! l) \<noteq> FAt j" by blast
  have h: "fc_home h bs < length bs" using assms(1) by (simp add: fc_home_def fc_tab_def)
  have "\<exists>d < length bs. (fc_home h bs + d) mod length bs = l"
  proof (cases "fc_home h bs \<le> l")
    case True
    with l(1) show ?thesis by (intro exI [of _ "l - fc_home h bs"]) auto
  next
    case False
    with l(1) h show ?thesis by (intro exI [of _ "length bs + l - fc_home h bs"]) auto
  qed
  then obtain d where "d < length bs" "(fc_home h bs + d) mod length bs = l" by blast
  with l(2) have "\<exists>d < length bs. \<forall>j. snd (bs ! ((fc_home h bs + d) mod length bs)) \<noteq> FAt j" by blast
  then show ?thesis by (rule fc_free_exists [OF _ h])
qed

section \<open>An abstract cache in order of use\<close>

definition lru_get :: "'k \<Rightarrow> ('k \<times> 'v) list \<Rightarrow> ('k \<times> 'v) list \<times> 'v option" where
  "lru_get k L = (case map_of L k of None \<Rightarrow> (L, None) | Some v \<Rightarrow> ((k, v) # filter (\<lambda>p. fst p \<noteq> k) L, Some v))"

definition lru_put :: "nat \<Rightarrow> 'k \<Rightarrow> 'v \<Rightarrow> ('k \<times> 'v) list \<Rightarrow> ('k \<times> 'v) list" where
  "lru_put n k v L = take n ((k, v) # filter (\<lambda>p. fst p \<noteq> k) L)"

definition lru_erase_if :: "('k \<Rightarrow> bool) \<Rightarrow> ('k \<times> 'v) list \<Rightarrow> ('k \<times> 'v) list" where
  "lru_erase_if P L = filter (\<lambda>p. \<not> P (fst p)) L"

text \<open>The contents of a shard in order of use, along the list.\<close>

fun fc_walk :: "nat \<Rightarrow> ('k, 'v) fc_entry list \<Rightarrow> nat option \<Rightarrow> nat list" where
  "fc_walk (Suc n) es (Some i) = i # fc_walk n es (fe_next (es ! i))"
| "fc_walk _ _ _ = []"

definition fc_pair :: "('k, 'v) fc_shard \<Rightarrow> nat \<Rightarrow> 'k \<times> 'v" where
  "fc_pair s i = (fe_key (fs_entries s ! i), the (fe_value (fs_entries s ! i)))"

definition fc_abs :: "('k, 'v) fc_shard \<Rightarrow> ('k \<times> 'v) list" where
  "fc_abs s = map (fc_pair s) (fc_walk (length (fs_entries s)) (fs_entries s) (fs_head s))"

lemma fc_walk_links: "links es p xs None \<Longrightarrow> length xs \<le> n \<Longrightarrow> fc_walk n es (opt_hd xs None) = xs"
proof (induction xs arbitrary: p n)
  case (Cons x xs)
  then show ?case by (cases n) auto
qed (cases n; simp)

lemma dll_length: "dll es h t xs \<Longrightarrow> length xs \<le> length es"
  using card_mono [of "{..<length es}" "set xs"] by (auto simp: dll_def distinct_card)

lemma fc_abs_dll: "fs_dll s xs \<Longrightarrow> fc_abs s = map (fc_pair s) xs"
  using fc_walk_links [of "fs_entries s" None xs "length (fs_entries s)"] dll_length [of "fs_entries s" "fs_head s" "fs_tail s" xs]
  by (simp add: fc_abs_def dll_def)

section \<open>Well-formed shards\<close>

definition fc_core :: "('k \<Rightarrow> u64) \<Rightarrow> ('k, 'v) fc_shard \<Rightarrow> nat list \<Rightarrow> bool" where
  "fc_core hs s xs \<longleftrightarrow> length (fs_entries s) = fs_max_entries s \<and> 0 < fs_max_entries s \<and> fs_max_entries s * 2 \<le> length (fs_buckets s)
     \<and> fs_dll s xs \<and> fc_tab hs (fs_buckets s) (\<lambda>j. fe_key (fs_entries s ! j)) (set xs) \<and> (\<forall>x \<in> set xs. fe_value (fs_entries s ! x) \<noteq> None)"

lemma lru_sizes [simp]:
  "length (fs_entries (fc_upd i f s)) = length (fs_entries s)" "length (fs_entries (fc_LruRemove i s)) = length (fs_entries s)"
  "length (fs_entries (fc_LruPushFront i s)) = length (fs_entries s)"
  "fs_count (fc_upd i f s) = fs_count s" "fs_count (fc_LruRemove i s) = fs_count s" "fs_count (fc_LruPushFront i s) = fs_count s"
  "fs_bytes (fc_upd i f s) = fs_bytes s" "fs_bytes (fc_LruRemove i s) = fs_bytes s" "fs_bytes (fc_LruPushFront i s) = fs_bytes s"
  "fs_max_entries (fc_upd i f s) = fs_max_entries s" "fs_max_entries (fc_LruRemove i s) = fs_max_entries s" "fs_max_entries (fc_LruPushFront i s) = fs_max_entries s"
  "fs_max_bytes (fc_upd i f s) = fs_max_bytes s" "fs_max_bytes (fc_LruRemove i s) = fs_max_bytes s" "fs_max_bytes (fc_LruPushFront i s) = fs_max_bytes s"
  by (simp_all add: fc_upd_def fc_LruRemove_def fc_LruPushFront_def Let_def split: option.split)

lemma lru_commutes:
  "fc_LruRemove i (s\<lparr>fs_bytes := b\<rparr>) = (fc_LruRemove i s)\<lparr>fs_bytes := b\<rparr>" "fc_LruRemove i (s\<lparr>fs_buckets := bs\<rparr>) = (fc_LruRemove i s)\<lparr>fs_buckets := bs\<rparr>"
  by (simp_all add: fc_LruRemove_def fc_upd_def Let_def split: option.split)

lemma fc_upd_nth: "(\<And>e. g (f e) = g e) \<Longrightarrow> g (fs_entries (fc_upd j f s) ! i) = g (fs_entries s ! i)"
  by (cases "i < length (fs_entries s)"; cases "i = j") (auto simp: fc_upd_def list_update_beyond nth_list_update)

lemma lru_key [simp]:
  "fe_key (fs_entries (fc_LruRemove i s) ! j) = fe_key (fs_entries s ! j)" "fe_key (fs_entries (fc_LruPushFront i s) ! j) = fe_key (fs_entries s ! j)"
  "fe_value (fs_entries (fc_LruRemove i s) ! j) = fe_value (fs_entries s ! j)" "fe_value (fs_entries (fc_LruPushFront i s) ! j) = fe_value (fs_entries s ! j)"
  by (simp_all add: fc_LruRemove_def fc_LruPushFront_def Let_def fc_upd_nth [where g = fe_key] fc_upd_nth [where g = fe_value] split: option.split)

lemma fc_pair_lru [simp]: "fc_pair (fc_LruRemove i s) j = fc_pair s j" "fc_pair (fc_LruPushFront i s) j = fc_pair s j"
  by (simp_all add: fc_pair_def)

lemma fc_pairs_lru [simp]: "fc_pair (fc_LruRemove i s) = fc_pair s" "fc_pair (fc_LruPushFront i s) = fc_pair s"
  by (rule ext, simp)+

lemma fc_core_find:
  assumes "fc_core hs s xs" and "j \<in> set xs" and "fe_key (fs_entries s ! j) = key"
  shows "\<exists>l < length (fs_buckets s). fc_FindSlot hs key s = Some l \<and> fc_ref_at l s = j \<and> fs_buckets s ! l = (hs key, FAt j)"
  using fc_tab_find [of hs "fs_buckets s" "fs_entries s" "set xs" j key] assms by (auto simp: fc_core_def fc_FindSlot_def fc_ref_at_def)

lemma fc_core_absent:
  assumes "fc_core hs s xs" and "\<And>j. j \<in> set xs \<Longrightarrow> fe_key (fs_entries s ! j) \<noteq> key"
  shows "fc_FindSlot hs key s = None"
  using fc_tab_absent [of hs "fs_buckets s" "fs_entries s" "set xs" key] assms by (simp add: fc_core_def fc_FindSlot_def)

lemma fc_core_keys: "fc_core hs s xs \<Longrightarrow> i \<in> set xs \<Longrightarrow> j \<in> set xs \<Longrightarrow> fe_key (fs_entries s ! i) = fe_key (fs_entries s ! j) \<Longrightarrow> i = j"
  using fc_tab_keys unfolding fc_core_def by blast

lemma fc_core_distinct: "fc_core hs s xs \<Longrightarrow> distinct xs"
  by (simp add: fc_core_def dll_def)

text \<open>Without its entry the key is not among the pairs.\<close>

lemma fc_pairs_without:
  assumes "fc_core hs s (ys @ x # zs)"
  shows "filter (\<lambda>p. fst p \<noteq> fe_key (fs_entries s ! x)) (map (fc_pair s) (ys @ x # zs)) = map (fc_pair s) (ys @ zs)"
proof -
  have "fe_key (fs_entries s ! y) \<noteq> fe_key (fs_entries s ! x)" if "y \<in> set ys \<union> set zs" for y
    using fc_core_keys [OF assms, of y x] fc_core_distinct [OF assms] that by auto
  then show ?thesis by (auto simp: fc_pair_def filter_map comp_def filter_id_conv)
qed

lemma map_of_pairs:
  assumes "fc_core hs s xs" and "j \<in> set xs"
  shows "map_of (map (fc_pair s) xs) (fe_key (fs_entries s ! j)) = Some (the (fe_value (fs_entries s ! j)))"
proof -
  have "inj_on (\<lambda>j. fe_key (fs_entries s ! j)) (set xs)" by (rule inj_onI) (rule fc_core_keys [OF assms(1)])
  then have "distinct (map fst (map (fc_pair s) xs))" using fc_core_distinct [OF assms(1)] by (simp add: distinct_map comp_def fc_pair_def)
  then show ?thesis using assms(2) by (subst map_of_eq_Some_iff) (auto simp: fc_pair_def)
qed

lemma map_of_pairs_absent: "(\<And>j. j \<in> set xs \<Longrightarrow> fe_key (fs_entries s ! j) \<noteq> key) \<Longrightarrow> map_of (map (fc_pair s) xs) key = None"
  by (fastforce simp: map_of_eq_None_iff fc_pair_def)

lemma fc_core_touch:
  assumes "fc_core hs s (ys @ x # zs)"
  shows "fc_core hs (fc_LruPushFront x (fc_LruRemove x s)) (x # ys @ zs)"
proof -
  have x: "x \<notin> set (ys @ zs)" "x < length (fs_entries s)" using assms by (auto simp: fc_core_def dll_def)
  have "fs_dll (fc_LruRemove x s) (ys @ zs)" using assms by (intro dll_remove) (simp add: fc_core_def)
  then have "fs_dll (fc_LruPushFront x (fc_LruRemove x s)) (x # ys @ zs)" by (rule dll_push) (use x in simp_all)
  moreover have "set (x # ys @ zs) = set (ys @ x # zs)" by auto
  ultimately show ?thesis using assms unfolding fc_core_def by simp
qed

lemma fc_core_Get:
  assumes "fc_core hs s xs"
  shows "\<exists>s' xs' r. fc_Get_nolock hs key s = (s', r) \<and> fc_core hs s' xs' \<and> set xs' = set xs \<and> lru_get key (map (fc_pair s) xs) = (map (fc_pair s') xs', r)
    \<and> fs_count s' = fs_count s \<and> fs_bytes s' = fs_bytes s \<and> fs_max_entries s' = fs_max_entries s \<and> fs_max_bytes s' = fs_max_bytes s"
proof (cases "\<exists>j \<in> set xs. fe_key (fs_entries s ! j) = key")
  case True
  then obtain j where j: "j \<in> set xs" "fe_key (fs_entries s ! j) = key" by blast
  then obtain ys zs where xs: "xs = ys @ j # zs" by (meson split_list)
  obtain l where l: "fc_FindSlot hs key s = Some l" "fc_ref_at l s = j" using fc_core_find [OF assms j] by blast
  obtain v where v: "fe_value (fs_entries s ! j) = Some v" using assms j(1) by (auto simp: fc_core_def)
  let ?s = "fc_LruPushFront j (fc_LruRemove j s)"
  have "fc_Get_nolock hs key s = (?s, Some v)" using l v by (simp add: fc_Get_nolock_def)
  moreover have "fc_core hs ?s (j # ys @ zs)" using assms unfolding xs by (rule fc_core_touch)
  moreover have "lru_get key (map (fc_pair s) xs) = (map (fc_pair ?s) (j # ys @ zs), Some v)"
    using map_of_pairs [OF assms j(1)] fc_pairs_without [OF assms [unfolded xs]] j(2) v by (simp add: lru_get_def xs fc_pair_def)
  ultimately show ?thesis by (intro exI [of _ ?s] exI [of _ "j # ys @ zs"] exI [of _ "Some v"]) (simp add: xs)
next
  case False
  then have "fc_FindSlot hs key s = None" by (intro fc_core_absent [OF assms]) blast
  moreover have "map_of (map (fc_pair s) xs) key = None" using False by (intro map_of_pairs_absent) blast
  ultimately show ?thesis using assms by (intro exI [of _ s] exI [of _ xs] exI [of _ None]) (simp add: fc_Get_nolock_def lru_get_def)
qed

section \<open>Insertion and eviction\<close>

lemma fc_core_set_value:
  assumes "fc_core hs s xs"
  shows "fc_core hs (fc_upd j (\<lambda>e. e\<lparr>fe_value := Some v\<rparr>) s) xs"
proof -
  let ?s = "fc_upd j (\<lambda>e. e\<lparr>fe_value := Some v\<rparr>) s"
  have k: "fe_key (fs_entries ?s ! i) = fe_key (fs_entries s ! i)" "fe_prev (fs_entries ?s ! i) = fe_prev (fs_entries s ! i)"
    "fe_next (fs_entries ?s ! i) = fe_next (fs_entries s ! i)" for i
    by (rule fc_upd_nth, simp)+
  have "links (fs_entries ?s) None xs None = links (fs_entries s) None xs None" by (rule links_cong) (simp add: k)
  moreover have "fs_dll s xs" using assms by (simp add: fc_core_def)
  ultimately have "fs_dll ?s xs" by (simp add: dll_def fc_upd_def)
  moreover have "fe_value (fs_entries ?s ! x) \<noteq> None" if "x \<in> set xs" for x
    using assms that by (cases "x = j") (auto simp: fc_core_def fc_upd_def nth_list_update dll_def)
  ultimately show ?thesis using assms by (simp add: fc_core_def k)
qed

lemma fc_core_cong: "fc_core hs (s\<lparr>fs_bytes := b\<rparr>) xs = fc_core hs s xs" "fc_core hs (s\<lparr>fs_count := c\<rparr>) xs = fc_core hs s xs"
  "fc_core hs (fc_drop_bytes sz i s) xs = fc_core hs s xs"
  by (simp_all add: fc_core_def fc_drop_bytes_def)

lemma fc_core_update:
  assumes "fc_core hs s (ys @ x # zs)" and "fe_key (fs_entries s ! x) = key"
  shows "\<exists>s'. fc_Put_nolock hs sz key val s = Some s' \<and> fc_core hs s' (x # ys @ zs) \<and> map (fc_pair s') (x # ys @ zs) = (key, val) # filter (\<lambda>p. fst p \<noteq> key) (map (fc_pair s) (ys @ x # zs))
    \<and> fs_count s' = fs_count s \<and> fs_bytes s' = fs_bytes s - fc_ByteSize sz (fe_value (fs_entries s ! x)) + sz val
    \<and> fs_max_entries s' = fs_max_entries s \<and> fs_max_bytes s' = fs_max_bytes s"
proof -
  obtain l where l: "fc_FindSlot hs key s = Some l" "fc_ref_at l s = x" using fc_core_find [OF assms(1) _ assms(2)] by auto
  let ?s1 = "fc_upd x (\<lambda>e. e\<lparr>fe_value := Some val\<rparr>) (fc_drop_bytes sz x s)"
  let ?s2 = "?s1\<lparr>fs_bytes := fs_bytes ?s1 + sz val\<rparr>"
  let ?s = "fc_LruPushFront x (fc_LruRemove x ?s2)"
  have p: "fc_Put_nolock hs sz key val s = Some ?s" using l by (simp add: fc_Put_nolock_def Let_def)
  have c: "fc_core hs ?s (x # ys @ zs)" by (intro fc_core_touch) (simp add: fc_core_cong fc_core_set_value assms(1))
  have x: "x < length (fs_entries s)" "x \<notin> set (ys @ zs)" using assms(1) by (auto simp: fc_core_def dll_def)
  have "fc_pair ?s2 x = (key, val)" using x assms(2) by (simp add: fc_pair_def fc_upd_def fc_drop_bytes_def)
  moreover have "fc_pair ?s2 y = fc_pair s y" if "y \<in> set (ys @ zs)" for y
  proof -
    have "x \<noteq> y" using that x(2) by blast
    then show ?thesis by (simp add: fc_pair_def fc_upd_def fc_drop_bytes_def)
  qed
  ultimately have "map (fc_pair ?s) (x # ys @ zs) = (key, val) # map (fc_pair s) (ys @ zs)" using x(2) by auto
  then show ?thesis using p c fc_pairs_without [OF assms(1)] assms(2) by (intro exI [of _ ?s]) (simp add: fc_drop_bytes_def)
qed

lemma fc_core_insert:
  assumes "fc_core hs s xs" and "i \<notin> set xs" and "i < fs_max_entries s" and "\<And>j. j \<in> set xs \<Longrightarrow> fe_key (fs_entries s ! j) \<noteq> key"
    and "i = (case freed of None \<Rightarrow> unat (fs_count s) | Some i \<Rightarrow> i)" and "unat (fs_count s) < fs_max_entries s"
  shows "\<exists>s'. fc_insert_new hs key val nb freed s = Some s' \<and> fc_core hs s' (i # xs) \<and> map (fc_pair s') (i # xs) = (key, val) # map (fc_pair s) xs
    \<and> fs_count s' = fs_count s + 1 \<and> fs_bytes s' = fs_bytes s + nb \<and> fs_max_entries s' = fs_max_entries s \<and> fs_max_bytes s' = fs_max_bytes s"
proof -
  have c: "length (fs_entries s) = fs_max_entries s" "fs_max_entries s * 2 \<le> length (fs_buckets s)" "fs_dll s xs" "fc_tab hs (fs_buckets s) (\<lambda>j. fe_key (fs_entries s ! j)) (set xs)"
    "\<forall>x \<in> set xs. fe_value (fs_entries s ! x) \<noteq> None" "0 < fs_max_entries s"
    using assms(1) by (simp_all add: fc_core_def)
  let ?e = "\<lparr>fe_key = key, fe_value = Some val, fe_prev = None, fe_next = None\<rparr>"
  let ?s1 = "fc_upd i (\<lambda>_. ?e) (s\<lparr>fs_count := fs_count s + 1\<rparr>)"
  have "card (set xs) < length (fs_buckets s)" using dll_length [OF c(3)] card_length [of xs] c(1,2,6) by linarith
  then obtain k where k: "fc_free (length (fs_buckets s)) (fs_buckets s) (fc_home (hs key) (fs_buckets s)) = Some k"
    using fc_tab_room [OF c(4)] by blast
  let ?s2 = "?s1\<lparr>fs_buckets := (fs_buckets s)[k := (hs key, FAt i)]\<rparr>"
  let ?s' = "(fc_LruPushFront i ?s2)\<lparr>fs_bytes := fs_bytes s + nb\<rparr>"
  have eq: "fc_insert_new hs key val nb freed s = Some ?s'" using c(2) assms(5,6) k by (simp add: fc_insert_new_def fc_place_def Let_def)
  have e: "fs_entries ?s2 = (fs_entries s)[i := ?e]" by (simp add: fc_upd_def)
  have "i \<noteq> x" if "x \<in> set xs" for x using assms(2) that by blast
  then have o: "fs_entries ?s2 ! x = fs_entries s ! x" if "x \<in> set xs" for x using that by (simp add: e)
  have i: "fs_entries ?s2 ! i = ?e" using assms(3) c(1) by (simp add: e)
  have "fs_dll ?s2 xs" using c(3) by (simp add: dll_def fc_upd_def links_upd_other [OF assms(2)])
  then have d: "fs_dll ?s' (i # xs)" using dll_push [of ?s2 xs i] assms(2,3) c(1) by (simp add: e)
  have "fc_tab hs (fs_buckets ?s2) (\<lambda>j. fe_key (fs_entries ?s2 ! j)) (insert i (set xs))"
    using fc_tab_place [OF c(4), of "\<lambda>j. fe_key (fs_entries ?s2 ! j)" i k] k assms(2,4) o i by simp
  then have "fc_core hs ?s' (i # xs)" using d c o i by (simp add: fc_core_def)
  moreover have "fc_pair ?s2 i = (key, val)" "\<And>x. x \<in> set xs \<Longrightarrow> fc_pair ?s2 x = fc_pair s x" using i o by (simp_all add: fc_pair_def)
  then have "map (fc_pair ?s') (i # xs) = (key, val) # map (fc_pair s) xs" by (simp add: fc_pair_def)
  ultimately show ?thesis using eq by (intro exI [of _ ?s']) simp
qed

lemma fc_core_kill:
  assumes "fc_core hs s (ys @ x # zs)" and "fc_FindSlot hs (fe_key (fs_entries s ! x)) s = Some l"
  shows "fc_core hs (fc_LruRemove x (fc_kill l s)) (ys @ zs)" and "fc_ref_at l s = x"
proof -
  obtain l' where l': "l' < length (fs_buckets s)" "fc_FindSlot hs (fe_key (fs_entries s ! x)) s = Some l'" "fc_ref_at l' s = x" "fs_buckets s ! l' = (hs (fe_key (fs_entries s ! x)), FAt x)"
    using fc_core_find [OF assms(1) _ refl, of x] by auto
  then have l: "l = l'" using assms(2) by simp
  then show "fc_ref_at l s = x" using l' by simp
  have t: "fc_tab hs (fs_buckets s) (\<lambda>j. fe_key (fs_entries s ! j)) (set (ys @ x # zs))" using assms(1) by (simp add: fc_core_def)
  have "set (ys @ zs) = set (ys @ x # zs) - {x}" using fc_core_distinct [OF assms(1)] by auto
  then have "fc_tab hs (fs_buckets (fc_kill l s)) (\<lambda>j. fe_key (fs_entries s ! j)) (set (ys @ zs))"
    using fc_tab_kill [OF t l'(1), of x] l' l by (simp add: fc_kill_def)
  moreover have "fs_dll (fc_LruRemove x (fc_kill l s)) (ys @ zs)" using assms(1) by (intro dll_remove) (simp add: fc_core_def fc_kill_def)
  ultimately show "fc_core hs (fc_LruRemove x (fc_kill l s)) (ys @ zs)" using assms(1) by (simp add: fc_core_def fc_kill_def)
qed

section \<open>A cache of values of one size\<close>

text \<open>
  When all values have the same size \<open>c\<close> and the limit in bytes leaves room for all entries, as for the blocks of the tables, the entries in use are always the first ones, and an insertion
  evicts at most one of them. \<open>xs\<close> is the order of use.
\<close>

definition fc_rep :: "('k \<Rightarrow> u64) \<Rightarrow> u64 \<Rightarrow> ('k, 'v) fc_shard \<Rightarrow> nat list \<Rightarrow> bool" where
  "fc_rep hs c s xs \<longleftrightarrow> fc_core hs s xs \<and> set xs = {..<unat (fs_count s)} \<and> fs_bytes s = fs_count s * c
     \<and> fs_max_entries s * unat c \<le> fs_max_bytes s \<and> fs_max_bytes s < 2 ^ 64 \<and> fs_max_entries s < 2 ^ 64"

lemma fc_rep_length: "fc_rep hs c s xs \<Longrightarrow> length xs = unat (fs_count s)"
  using distinct_card [of xs] by (simp add: fc_rep_def fc_core_def dll_def)

lemma fc_rep_count: "fc_rep hs c s xs \<Longrightarrow> unat (fs_count s) \<le> fs_max_entries s"
proof -
  assume r: "fc_rep hs c s xs"
  have "fs_dll s xs" "length (fs_entries s) = fs_max_entries s" using r by (simp_all add: fc_rep_def fc_core_def)
  then show ?thesis using dll_length [of "fs_entries s" "fs_head s" "fs_tail s" xs] fc_rep_length [OF r] by simp
qed

lemma fc_rep_abs: "fc_rep hs c s xs \<Longrightarrow> fc_abs s = map (fc_pair s) xs"
  by (intro fc_abs_dll) (simp add: fc_rep_def fc_core_def)

lemma fc_full_count:
  assumes "unat n < m" and "m * unat (c :: u64) \<le> b" and "b < 2 ^ 64"
  shows "unat (n * c + c) \<le> b"
proof -
  have "unat n * unat c + unat c = (unat n + 1) * unat c" by simp
  also have "\<dots> \<le> m * unat c" using assms(1) by (intro mult_le_mono1) simp
  finally have "unat n * unat c + unat c \<le> b" using assms(2) by linarith
  moreover have "n * c + c = of_nat (unat n * unat c + unat c)" by simp
  ultimately show ?thesis using assms(3) by (simp add: unat_of_nat del: of_nat_add of_nat_mult)
qed

lemma fc_rep_full: "fc_rep hs c s xs \<Longrightarrow> fc_full c s \<longleftrightarrow> unat (fs_count s) = fs_max_entries s"
proof -
  assume r: "fc_rep hs c s xs"
  have b: "fs_bytes s = fs_count s * c" "fs_max_entries s * unat c \<le> fs_max_bytes s" "fs_max_bytes s < 2 ^ 64" using r by (simp_all only: fc_rep_def)
  note le = fc_rep_count [OF r]
  show ?thesis
  proof (cases "unat (fs_count s) < fs_max_entries s")
    case True
    from fc_full_count [OF this b(2,3)] True show ?thesis by (simp add: fc_full_def b(1))
  next
    case False
    then show ?thesis using le by (simp add: fc_full_def)
  qed
qed

lemma unat_u64_inc: "unat (x :: u64) < m \<Longrightarrow> m < 2 ^ 64 \<Longrightarrow> unat (x + 1) = unat x + 1"
  by (simp add: unat_word_ariths)

lemma unat_u64_dec: "0 < unat (x :: u64) \<Longrightarrow> unat (x - 1) = unat x - 1"
  by (subst unat_sub) (simp_all add: word_le_nat_alt)

lemma fc_rep_make_room:
  assumes "fc_rep hs c s xs" and "\<And>v. sz v = c" and "unat (fs_count s) = fs_max_entries s"
  shows "\<exists>ys t s'. xs = ys @ [t] \<and> t \<notin> set ys \<and> t < fs_max_entries s' \<and> fc_make_room hs sz c None s = (s', Some (Some t)) \<and> fc_core hs s' ys
    \<and> (\<forall>y. fe_key (fs_entries s' ! y) = fe_key (fs_entries s ! y)) \<and> fc_pair s' = fc_pair s \<and> fs_count s' = fs_count s - 1 \<and> fs_bytes s' = fs_bytes s - c
    \<and> fs_max_entries s' = fs_max_entries s \<and> fs_max_bytes s' = fs_max_bytes s \<and> unat (fs_count s') < fs_max_entries s'"
proof -
  have r: "fc_core hs s xs" "fs_bytes s = fs_count s * c" "fs_max_entries s * unat c \<le> fs_max_bytes s" "fs_max_bytes s < 2 ^ 64"
    using assms(1) by (simp_all add: fc_rep_def)
  have "xs \<noteq> []" using fc_rep_length [OF assms(1)] assms(3) r(1) by (auto simp: fc_core_def)
  then obtain ys t where xs: "xs = ys @ [t]" by (cases xs rule: rev_exhaust) auto
  have t: "fs_tail s = Some t" using r(1) by (simp add: fc_core_def dll_def xs)
  have ct: "fc_core hs s (ys @ t # [])" using r(1) by (simp add: xs)
  obtain l where l: "fc_FindSlot hs (fe_key (fs_entries s ! t)) s = Some l" using fc_core_find [OF r(1), of t] by (auto simp: xs)
  note k = fc_core_kill [OF ct l]
  let ?s1 = "fc_LruRemove t (fc_kill l (fc_drop_bytes sz t s))"
  let ?s2 = "?s1\<lparr>fs_count := fs_count s - 1\<rparr>"
  have "fe_value (fs_entries s ! t) \<noteq> None" using r(1) by (simp add: fc_core_def xs)
  then have b: "fc_ByteSize sz (fe_value (fs_entries s ! t)) = c" using assms(2) by (auto simp: fc_ByteSize_def)
  have ev: "fc_Evict hs sz s = (?s1, Some t)" using t l k(2) by (simp add: fc_Evict_def)
  have "fc_kill l (fc_drop_bytes sz t s) = fc_drop_bytes sz t (fc_kill l s)" by (simp add: fc_kill_def fc_drop_bytes_def)
  then have core: "fc_core hs ?s2 ys" using k(1) by (simp add: fc_drop_bytes_def fc_core_cong lru_commutes)
  have f: "fs_entries (fc_kill l (fc_drop_bytes sz t s)) = fs_entries s" "fs_count ?s1 = fs_count s" "fs_bytes ?s1 = fs_bytes s - c"
    "fs_max_entries ?s1 = fs_max_entries s" "fs_max_bytes ?s1 = fs_max_bytes s"
    by (simp_all add: fc_kill_def fc_drop_bytes_def b)
  have c0: "0 < unat (fs_count s)" using assms(3) r(1) by (simp add: fc_core_def)
  have u: "unat (fs_count s - 1) = unat (fs_count s) - 1" by (rule unat_u64_dec [OF c0])
  have "unat ((fs_count s - 1) * c + c) \<le> fs_max_bytes s" by (rule fc_full_count [of _ "fs_max_entries s"]) (use u c0 assms(3) r in auto)
  then have nfull: "\<not> fc_full c ?s2" using u c0 assms(3) f r by (simp add: fc_full_def left_diff_distrib)
  have "fc_make_room hs sz c None s = fc_make_room hs sz c (Some t) ?s2"
    using fc_rep_full [OF assms(1)] assms(3) ev f(2) by (subst fc_make_room.simps) simp
  also have "\<dots> = (?s2, Some (Some t))" using nfull by (subst fc_make_room.simps) simp
  finally have "fc_make_room hs sz c None s = (?s2, Some (Some t))" .
  moreover have "t \<notin> set ys" "t < fs_max_entries ?s2" using r(1) f(4) by (auto simp: xs fc_core_def dll_def)
  moreover have "fc_pair ?s2 = fc_pair s" using f(1) by (intro ext) (simp add: fc_pair_def)
  ultimately show ?thesis using core xs f u c0 assms(3) by (intro exI [of _ ys] exI [of _ t] exI [of _ ?s2]) simp
qed

lemma fc_rep_Put:
  assumes "fc_rep hs c s xs" and "\<And>v. sz v = c"
  shows "\<exists>s' xs'. fc_Put_nolock hs sz key val s = Some s' \<and> fc_rep hs c s' xs' \<and> map (fc_pair s') xs' = lru_put (fs_max_entries s) key val (map (fc_pair s) xs)
    \<and> fs_max_entries s' = fs_max_entries s"
proof -
  have r: "fc_core hs s xs" "set xs = {..<unat (fs_count s)}" "fs_bytes s = fs_count s * c" "fs_max_entries s * unat c \<le> fs_max_bytes s" "fs_max_bytes s < 2 ^ 64" "fs_max_entries s < 2 ^ 64"
    using assms(1) by (simp_all add: fc_rep_def)
  note len = fc_rep_length [OF assms(1)]
  note cnt = fc_rep_count [OF assms(1)]
  show ?thesis
  proof (cases "\<exists>x \<in> set xs. fe_key (fs_entries s ! x) = key")
    case True
    then obtain x ys zs where x: "fe_key (fs_entries s ! x) = key" "xs = ys @ x # zs" by (meson split_list)
    have "fe_value (fs_entries s ! x) \<noteq> None" using r(1) x(2) by (simp add: fc_core_def)
    then have b: "fc_ByteSize sz (fe_value (fs_entries s ! x)) = c" using assms(2) by (auto simp: fc_ByteSize_def)
    obtain s' where s': "fc_Put_nolock hs sz key val s = Some s'" "fc_core hs s' (x # ys @ zs)"
      "map (fc_pair s') (x # ys @ zs) = (key, val) # filter (\<lambda>p. fst p \<noteq> key) (map (fc_pair s) (ys @ x # zs))"
      "fs_count s' = fs_count s" "fs_bytes s' = fs_bytes s" "fs_max_entries s' = fs_max_entries s" "fs_max_bytes s' = fs_max_bytes s"
      using fc_core_update [OF r(1) [unfolded x(2)] x(1), of sz val] b assms(2) by auto
    have "length (map (fc_pair s') (x # ys @ zs)) \<le> fs_max_entries s" using len cnt by (simp add: x(2))
    then have "map (fc_pair s') (x # ys @ zs) = lru_put (fs_max_entries s) key val (map (fc_pair s) xs)" unfolding lru_put_def s'(3) x(2) by simp
    moreover have "fc_rep hs c s' (x # ys @ zs)" using s' r x(2) by (auto simp: fc_rep_def)
    ultimately show ?thesis using s'(1,6) by blast
  next
    case False
    then have n: "\<And>j. j \<in> set xs \<Longrightarrow> fe_key (fs_entries s ! j) \<noteq> key" by blast
    have nf: "filter (\<lambda>p. fst p \<noteq> key) (map (fc_pair s) xs) = map (fc_pair s) xs" using n by (simp add: filter_id_conv fc_pair_def)
    have fs: "fc_FindSlot hs key s = None" by (rule fc_core_absent [OF r(1) n])
    show ?thesis
    proof (cases "unat (fs_count s) = fs_max_entries s")
      case False
      then have u: "unat (fs_count s) < fs_max_entries s" using cnt by simp
      have "fc_make_room hs sz (sz val) None s = (s, Some None)" using fc_rep_full [OF assms(1)] False assms(2) by (subst fc_make_room.simps) simp
      then have p: "fc_Put_nolock hs sz key val s = fc_insert_new hs key val c None s" using fs assms(2) by (simp add: fc_Put_nolock_def)
      obtain s' where s': "fc_insert_new hs key val c None s = Some s'" "fc_core hs s' (unat (fs_count s) # xs)"
        "map (fc_pair s') (unat (fs_count s) # xs) = (key, val) # map (fc_pair s) xs" "fs_count s' = fs_count s + 1" "fs_bytes s' = fs_bytes s + c"
        "fs_max_entries s' = fs_max_entries s" "fs_max_bytes s' = fs_max_bytes s"
        using fc_core_insert [OF r(1) _ _ n, of "unat (fs_count s)" None val c] u r(2) by auto
      note i = unat_u64_inc [OF u r(6)]
      have "fc_rep hs c s' (unat (fs_count s) # xs)" using s' r i by (auto simp: fc_rep_def distrib_right)
      moreover have "map (fc_pair s') (unat (fs_count s) # xs) = lru_put (fs_max_entries s) key val (map (fc_pair s) xs)"
        unfolding lru_put_def s'(3) nf using u len by simp
      ultimately show ?thesis using p s'(1,6) by auto
    next
      case full: True
      obtain ys t s2 where xs: "xs = ys @ [t]" "t \<notin> set ys" "t < fs_max_entries s2" and mk: "fc_make_room hs sz c None s = (s2, Some (Some t))" and c2: "fc_core hs s2 ys"
        and k2: "\<forall>y. fe_key (fs_entries s2 ! y) = fe_key (fs_entries s ! y)" "fc_pair s2 = fc_pair s"
        and f2: "fs_count s2 = fs_count s - 1" "fs_bytes s2 = fs_bytes s - c" "fs_max_entries s2 = fs_max_entries s" "fs_max_bytes s2 = fs_max_bytes s" "unat (fs_count s2) < fs_max_entries s2"
        using fc_rep_make_room [where sz = sz, OF assms full] by blast
      have p: "fc_Put_nolock hs sz key val s = fc_insert_new hs key val c (Some t) s2" using fs mk assms(2) by (simp add: fc_Put_nolock_def)
      have n2: "\<And>j. j \<in> set ys \<Longrightarrow> fe_key (fs_entries s2 ! j) \<noteq> key" using n k2 by (simp add: xs)
      obtain s' where s': "fc_insert_new hs key val c (Some t) s2 = Some s'" "fc_core hs s' (t # ys)"
        "map (fc_pair s') (t # ys) = (key, val) # map (fc_pair s2) ys" "fs_count s' = fs_count s2 + 1" "fs_bytes s' = fs_bytes s2 + c"
        "fs_max_entries s' = fs_max_entries s2" "fs_max_bytes s' = fs_max_bytes s2"
        using fc_core_insert [OF c2 xs(2,3) n2, of "Some t" val c] f2(5) by auto
      have m: "map (fc_pair s') (t # ys) = (key, val) # map (fc_pair s) ys" using s'(3) k2(2) by simp
      have "fc_rep hs c s' (t # ys)" using s' f2 r by (auto simp: fc_rep_def xs(1))
      moreover have "map (fc_pair s') (t # ys) = lru_put (fs_max_entries s) key val (map (fc_pair s) xs)"
        unfolding lru_put_def m nf using full len by (cases "fs_max_entries s") (simp_all add: xs(1))
      ultimately show ?thesis using p s'(1,6) f2(3) by auto
    qed
  qed
qed

section \<open>Erasing by a predicate\<close>

lemma dll_replace:
  assumes "fs_dll s (ys @ m # zs)" and "i \<notin> set (ys @ m # zs)" and "i < length (fs_entries s)"
  defines "s2 \<equiv> (case fe_prev (fs_entries s ! m) of Some p \<Rightarrow> fc_upd p (fe_next_update (\<lambda>_. Some i)) s | None \<Rightarrow> s\<lparr>fs_head := Some i\<rparr>)"
  defines "s3 \<equiv> (case fe_next (fs_entries s2 ! m) of Some n \<Rightarrow> fc_upd n (fe_prev_update (\<lambda>_. Some i)) s2 | None \<Rightarrow> s2\<lparr>fs_tail := Some i\<rparr>)"
  shows "fs_dll (fc_upd m (fe_value_update (\<lambda>_. None)) (fc_upd i (\<lambda>_. fs_entries s3 ! m) s3)) (ys @ i # zs)"
proof -
  have d: "distinct (ys @ m # zs)" "set (ys @ m # zs) \<subseteq> {..<length (fs_entries s)}" and h: "fs_head s = opt_hd (ys @ m # zs) None" "fs_tail s = opt_last (ys @ m # zs) None"
    and l: "links (fs_entries s) None ys (Some m)" "links (fs_entries s) (Some m) zs None" "fe_prev (fs_entries s ! m) = opt_last ys None" "fe_next (fs_entries s ! m) = opt_hd zs None"
    using assms(1) by (auto simp: dll_def links_append)
  have s2: "links (fs_entries s2) None ys (Some i) \<and> links (fs_entries s2) (Some m) zs None \<and> fs_entries s2 ! m = fs_entries s ! m
    \<and> fs_head s2 = opt_hd (ys @ [i]) None \<and> fs_tail s2 = fs_tail s \<and> length (fs_entries s2) = length (fs_entries s)"
  proof (cases ys rule: rev_exhaust)
    case Nil
    then show ?thesis using l by (simp add: s2_def)
  next
    case (snoc ys' y)
    have "y \<noteq> m" "y \<notin> set zs" "y \<notin> set ys'" "y < length (fs_entries s)" using d snoc by auto
    moreover have "links ((fs_entries s)[y := (fs_entries s ! y)\<lparr>fe_next := Some i\<rparr>]) None (ys' @ [y]) (Some i)"
      by (rule links_set_next [of _ _ _ _ "Some m"]) (use l(1) snoc calculation in simp_all)
    ultimately show ?thesis using l h snoc by (simp add: s2_def fc_upd_def links_upd_other)
  qed
  have s3: "links (fs_entries s3) None ys (Some i) \<and> links (fs_entries s3) (Some i) zs None \<and> fs_entries s3 ! m = fs_entries s ! m
    \<and> fs_head s3 = opt_hd (ys @ [i]) None \<and> fs_tail s3 = opt_last zs (Some i) \<and> length (fs_entries s3) = length (fs_entries s)"
  proof (cases zs)
    case Nil
    then show ?thesis using s2 l(4) by (simp add: s3_def)
  next
    case (Cons z zs')
    have z: "z \<notin> set ys" "z \<notin> set zs'" "z \<noteq> m" "z < length (fs_entries s2)" using d s2 Cons by auto
    moreover have "links ((fs_entries s2)[z := (fs_entries s2 ! z)\<lparr>fe_prev := Some i\<rparr>]) (Some i) (z # zs') None"
      by (rule links_set_prev [of _ "Some m"]) (use s2 Cons z in simp_all)
    ultimately show ?thesis using s2 l(4) h Cons by (simp add: s3_def fc_upd_def links_upd_other)
  qed
  let ?es = "(fs_entries s3)[i := fs_entries s ! m]"
  let ?es' = "?es[m := (?es ! m)\<lparr>fe_value := None\<rparr>]"
  have n: "i \<noteq> m" "i \<notin> set ys" "i \<notin> set zs" "m \<notin> set ys" "m \<notin> set zs" using assms(2) d(1) by auto
  have "links ?es' None (ys @ i # zs) None" using s3 l n assms(3) by (simp add: links_append links_upd_other)
  moreover have "fs_entries (fc_upd m (fe_value_update (\<lambda>_. None)) (fc_upd i (\<lambda>_. fs_entries s3 ! m) s3)) = ?es'" using s3 by (simp add: fc_upd_def)
  moreover have "distinct (ys @ i # zs)" "set (ys @ i # zs) \<subseteq> {..<length (fs_entries s)}" using d n assms(3) by auto
  ultimately show ?thesis using s3 by (simp add: dll_def) (simp add: fc_upd_def)
qed

lemma fc_core_move:
  assumes "fc_core hs s (ys @ m # zs)" and "i \<notin> set (ys @ m # zs)" and "i < fs_max_entries s" and "m = unat (fs_count s) - 1"
  shows "fc_core hs (fc_move_last hs i s) (ys @ i # zs)" and "map (fc_pair (fc_move_last hs i s)) (ys @ i # zs) = map (fc_pair s) (ys @ m # zs)"
    and "fs_bytes (fc_move_last hs i s) = fs_bytes s" and "fs_max_entries (fc_move_last hs i s) = fs_max_entries s" and "fs_max_bytes (fc_move_last hs i s) = fs_max_bytes s"
    and "\<And>x. x \<noteq> i \<Longrightarrow> x \<noteq> m \<Longrightarrow> fe_key (fs_entries (fc_move_last hs i s) ! x) = fe_key (fs_entries s ! x)"
proof -
  have c: "length (fs_entries s) = fs_max_entries s" "fs_dll s (ys @ m # zs)" "fc_tab hs (fs_buckets s) (\<lambda>j. fe_key (fs_entries s ! j)) (set (ys @ m # zs))"
    "\<forall>x \<in> set (ys @ m # zs). fe_value (fs_entries s ! x) \<noteq> None" using assms(1) unfolding fc_core_def by blast+
  obtain l where l: "l < length (fs_buckets s)" "fc_FindSlot hs (fe_key (fs_entries s ! m)) s = Some l" "fs_buckets s ! l = (hs (fe_key (fs_entries s ! m)), FAt m)"
    using fc_core_find [OF assms(1), of m] by auto
  let ?bs = "(fs_buckets s)[l := (hs (fe_key (fs_entries s ! m)), FAt i)]"
  define s1 where "s1 = s\<lparr>fs_buckets := ?bs\<rparr>"
  define s2 where "s2 = (case fe_prev (fs_entries s ! m) of Some p \<Rightarrow> fc_upd p (fe_next_update (\<lambda>_. Some i)) s1 | None \<Rightarrow> s1\<lparr>fs_head := Some i\<rparr>)"
  define s3 where "s3 = (case fe_next (fs_entries s2 ! m) of Some n \<Rightarrow> fc_upd n (fe_prev_update (\<lambda>_. Some i)) s2 | None \<Rightarrow> s2\<lparr>fs_tail := Some i\<rparr>)"
  let ?s = "fc_upd m (fe_value_update (\<lambda>_. None)) (fc_upd i (\<lambda>_. fs_entries s3 ! m) s3)"
  have mv: "fc_move_last hs i s = ?s" unfolding fc_move_last_def Let_def assms(4) [symmetric] l(2) option.case l(3) fst_conv s3_def s2_def s1_def by (rule refl)
  have e1: "fs_entries s1 = fs_entries s" "fs_head s1 = fs_head s" "fs_tail s1 = fs_tail s" by (simp_all add: s1_def)
  have k2: "fe_key (fs_entries s2 ! j) = fe_key (fs_entries s ! j)" "fe_value (fs_entries s2 ! j) = fe_value (fs_entries s ! j)" for j
    by (simp_all add: s2_def e1 fc_upd_nth [where g = fe_key] fc_upd_nth [where g = fe_value] split: option.split)
  have k3: "fe_key (fs_entries s3 ! j) = fe_key (fs_entries s ! j)" "fe_value (fs_entries s3 ! j) = fe_value (fs_entries s ! j)" for j
    by (simp_all add: s3_def k2 fc_upd_nth [where g = fe_key] fc_upd_nth [where g = fe_value] split: option.split)
  have f3: "fs_buckets s3 = ?bs" "length (fs_entries s3) = length (fs_entries s)" "fs_bytes s3 = fs_bytes s" "fs_max_entries s3 = fs_max_entries s" "fs_max_bytes s3 = fs_max_bytes s"
    by (simp_all add: s3_def s2_def s1_def split: option.split)
  have s2': "s2 = (case fe_prev (fs_entries s1 ! m) of Some p \<Rightarrow> fc_upd p (fe_next_update (\<lambda>_. Some i)) s1 | None \<Rightarrow> s1\<lparr>fs_head := Some i\<rparr>)" by (simp add: s2_def e1)
  have d: "fs_dll ?s (ys @ i # zs)"
    unfolding s3_def s2' by (rule dll_replace) (use c(1,2) assms(2,3) e1 in simp_all)
  have im: "i \<noteq> m" "m < length (fs_entries s)" using assms(2) c(2) by (auto simp: dll_def)
  have ei: "fs_entries ?s ! i = fs_entries s3 ! m" using im assms(3) c(1) f3(2) by (simp add: fc_upd_def)
  have ex: "fs_entries ?s ! x = fs_entries s3 ! x" if "x \<noteq> i" "x \<noteq> m" for x using that by (simp add: fc_upd_def)
  have set: "set (ys @ i # zs) = insert i (set (ys @ m # zs) - {m})" "m \<notin> set (ys @ zs)" "i \<notin> set (ys @ zs)" using fc_core_distinct [OF assms(1)] assms(2) by auto
  have "fc_tab hs ?bs (\<lambda>j. fe_key (fs_entries ?s ! j)) (insert i (set (ys @ m # zs) - {m}))"
  proof (rule fc_tab_move [OF c(3) l(1,3) assms(2)])
    show "fe_key (fs_entries ?s ! i) = fe_key (fs_entries s ! m)" using ei k3 by simp
  next
    fix j assume "j \<in> set (ys @ m # zs)" "j \<noteq> m"
    then have "j \<noteq> i" using assms(2) by blast
    then show "fe_key (fs_entries ?s ! j) = fe_key (fs_entries s ! j)" using ex [OF _ \<open>j \<noteq> m\<close>] k3 by simp
  qed
  then have "fc_tab hs (fs_buckets ?s) (\<lambda>j. fe_key (fs_entries ?s ! j)) (set (ys @ i # zs))" unfolding set(1) by (simp add: f3(1))
  moreover have v: "fe_value (fs_entries ?s ! x) \<noteq> None" if "x \<in> set (ys @ i # zs)" for x
  proof (cases "x = i")
    case True
    then show ?thesis using ei k3 c(4) by simp
  next
    case False
    then have "x \<in> set (ys @ zs)" using that by auto
    then have "x \<noteq> m" using set(2) by blast
    then show ?thesis using ex [OF False] k3 c(4) \<open>x \<in> set (ys @ zs)\<close> by auto
  qed
  ultimately show "fc_core hs (fc_move_last hs i s) (ys @ i # zs)" using assms(1) d unfolding mv fc_core_def by (simp add: f3)
  have "fc_pair ?s i = fc_pair s m" using ei by (simp add: fc_pair_def k3)
  moreover have "fc_pair ?s x = fc_pair s x" if "x \<in> set (ys @ zs)" for x
  proof -
    have "x \<noteq> i" "x \<noteq> m" using that set by auto
    then show ?thesis using ex [of x] by (simp add: fc_pair_def k3)
  qed
  ultimately show "map (fc_pair (fc_move_last hs i s)) (ys @ i # zs) = map (fc_pair s) (ys @ m # zs)" unfolding mv by simp
  show "fs_bytes (fc_move_last hs i s) = fs_bytes s" and "fs_max_entries (fc_move_last hs i s) = fs_max_entries s" and "fs_max_bytes (fc_move_last hs i s) = fs_max_bytes s"
    unfolding mv by (simp_all add: f3)
  show "fe_key (fs_entries (fc_move_last hs i s) ! x) = fe_key (fs_entries s ! x)" if "x \<noteq> i" "x \<noteq> m" for x
    unfolding mv using ex [OF that] k3 by simp
qed

lemma fc_rep_erase_step:
  assumes "fc_rep hs c s xs" and "\<And>v. sz v = c" and "i < unat (fs_count s)"
  defines "s1 \<equiv> (case fc_FindSlot hs (fe_key (fs_entries s ! i)) s of None \<Rightarrow> s | Some slot \<Rightarrow> fc_kill slot s)"
  defines "s2 \<equiv> fc_LruRemove i (fc_drop_bytes sz i s1)"
  defines "s3 \<equiv> (if i \<noteq> unat (fs_count s) - 1 then fc_move_last hs i s2 else s2)\<lparr>fs_count := fs_count s - 1\<rparr>"
  shows "\<exists>xs'. fc_rep hs c s3 xs' \<and> map (fc_pair s3) xs' = filter (\<lambda>p. fst p \<noteq> fe_key (fs_entries s ! i)) (map (fc_pair s) xs)"
    and "\<forall>j < i. fe_key (fs_entries s3 ! j) = fe_key (fs_entries s ! j)" and "fs_max_entries s3 = fs_max_entries s"
proof -
  let ?n = "unat (fs_count s)"
  have r: "fc_core hs s xs" "set xs = {..<?n}" "fs_bytes s = fs_count s * c" "fs_max_entries s * unat c \<le> fs_max_bytes s" "fs_max_bytes s < 2 ^ 64" "fs_max_entries s < 2 ^ 64"
    using assms(1) by (simp_all add: fc_rep_def)
  note cnt = fc_rep_count [OF assms(1)]
  have "i \<in> set xs" using r(2) assms(3) by simp
  then obtain ys zs where xs: "xs = ys @ i # zs" by (meson split_list)
  note ct = r(1) [unfolded xs]
  obtain l where l: "fc_FindSlot hs (fe_key (fs_entries s ! i)) s = Some l" using fc_core_find [OF ct _ refl, of i] by auto
  have "fe_value (fs_entries s ! i) \<noteq> None" using ct by (simp add: fc_core_def)
  then have b: "fc_ByteSize sz (fe_value (fs_entries s ! i)) = c" using assms(2) by (auto simp: fc_ByteSize_def)
  have s1: "s1 = fc_kill l s" using l by (simp add: s1_def)
  have s2: "fc_core hs s2 (ys @ zs)" using fc_core_kill(1) [OF ct l] by (simp add: s2_def s1 fc_drop_bytes_def lru_commutes fc_core_cong)
  have f2: "fs_count s2 = fs_count s" "fs_bytes s2 = fs_bytes s - c" "fs_max_entries s2 = fs_max_entries s" "fs_max_bytes s2 = fs_max_bytes s"
    "\<And>j. fe_key (fs_entries s2 ! j) = fe_key (fs_entries s ! j)" "\<And>j. fc_pair s2 j = fc_pair s j"
    by (simp_all add: s2_def s1 fc_drop_bytes_def fc_kill_def b fc_pair_def)
  have p2: "map (fc_pair s2) (ys @ zs) = filter (\<lambda>p. fst p \<noteq> fe_key (fs_entries s ! i)) (map (fc_pair s) xs)"
    using fc_pairs_without [OF ct] f2(6) by (simp add: xs)
  have c0: "0 < ?n" using assms(3) by simp
  note u = unat_u64_dec [OF c0]
  have set: "set (ys @ zs) = {..<?n} - {i}" using fc_core_distinct [OF r(1)] r(2) by (auto simp: xs)
  have bytes: "fs_bytes s2 = (fs_count s - 1) * c" using f2(2) r(3) by (simp add: left_diff_distrib)
  have "(\<exists>xs'. fc_rep hs c s3 xs' \<and> map (fc_pair s3) xs' = filter (\<lambda>p. fst p \<noteq> fe_key (fs_entries s ! i)) (map (fc_pair s) xs))
    \<and> (\<forall>j < i. fe_key (fs_entries s3 ! j) = fe_key (fs_entries s ! j)) \<and> fs_max_entries s3 = fs_max_entries s"
  proof (cases "i = ?n - 1")
    case True
    then have s3: "s3 = s2\<lparr>fs_count := fs_count s - 1\<rparr>" by (simp add: s3_def)
    have "set (ys @ zs) = {..<?n - 1}" unfolding set using True c0 by auto
    then have "fc_rep hs c s3 (ys @ zs)" using s2 bytes f2 r(4-6) u by (simp add: fc_rep_def s3 fc_core_cong)
    moreover have "map (fc_pair s3) (ys @ zs) = map (fc_pair s2) (ys @ zs)" by (simp add: s3 fc_pair_def)
    ultimately have "\<exists>xs'. fc_rep hs c s3 xs' \<and> map (fc_pair s3) xs' = filter (\<lambda>p. fst p \<noteq> fe_key (fs_entries s ! i)) (map (fc_pair s) xs)" using p2 by metis
    then show ?thesis using f2 by (simp add: s3)
  next
    case False
    let ?m = "?n - 1"
    have "?m \<in> set (ys @ zs)" unfolding set using False c0 by auto
    then obtain as bs where m: "ys @ zs = as @ ?m # bs" by (meson split_list)
    have ni: "i \<notin> set (as @ ?m # bs)" unfolding m [symmetric] set by simp
    have im: "i < fs_max_entries s2" using assms(3) cnt f2(3) by simp
    have mm: "?m = unat (fs_count s2) - 1" using f2(1) by simp
    note mv = fc_core_move [OF s2 [unfolded m] ni im mm]
    have s3: "s3 = (fc_move_last hs i s2)\<lparr>fs_count := fs_count s - 1\<rparr>" using False by (simp add: s3_def)
    have "set (as @ i # bs) = insert i (set (as @ ?m # bs) - {?m})" using fc_core_distinct [OF s2 [unfolded m]] by auto
    also have "\<dots> = {..<?n - 1}" unfolding m [symmetric] set using False assms(3) by auto
    finally have "fc_rep hs c s3 (as @ i # bs)" using mv(1,3-5) bytes f2 r(4-6) u by (simp add: fc_rep_def s3 fc_core_cong)
    moreover have "map (fc_pair s3) (as @ i # bs) = map (fc_pair s2) (ys @ zs)" using mv(2) by (simp add: s3 m fc_pair_def)
    ultimately have "\<exists>xs'. fc_rep hs c s3 xs' \<and> map (fc_pair s3) xs' = filter (\<lambda>p. fst p \<noteq> fe_key (fs_entries s ! i)) (map (fc_pair s) xs)" using p2 by metis
    moreover have "\<forall>j < i. fe_key (fs_entries s3 ! j) = fe_key (fs_entries s ! j)" using mv(6) f2(5) assms(3) by (auto simp: s3)
    ultimately show ?thesis using mv(4) f2(3) by (simp add: s3)
  qed
  then show "\<exists>xs'. fc_rep hs c s3 xs' \<and> map (fc_pair s3) xs' = filter (\<lambda>p. fst p \<noteq> fe_key (fs_entries s ! i)) (map (fc_pair s) xs)"
    and "\<forall>j < i. fe_key (fs_entries s3 ! j) = fe_key (fs_entries s ! j)" and "fs_max_entries s3 = fs_max_entries s" by blast+
qed

lemma fc_rep_erase_from:
  assumes "fc_rep hs c s xs" and "\<And>v. sz v = c" and "\<forall>j < i. \<not> P (fe_key (fs_entries s ! j))"
  shows "\<exists>xs'. fc_rep hs c (fc_erase_from hs sz P i s) xs' \<and> map (fc_pair (fc_erase_from hs sz P i s)) xs' = lru_erase_if P (map (fc_pair s) xs)
    \<and> fs_max_entries (fc_erase_from hs sz P i s) = fs_max_entries s"
  using assms
proof (induction hs sz P i s arbitrary: xs rule: fc_erase_from.induct)
  case (1 hs sz P i s)
  show ?case
  proof (cases "i < unat (fs_count s)")
    case False
    then have "\<not> P (fe_key (fs_entries s ! x))" if "x \<in> set xs" for x using that "1.prems"(1,3) by (auto simp: fc_rep_def)
    then have "lru_erase_if P (map (fc_pair s) xs) = map (fc_pair s) xs" by (simp add: lru_erase_if_def filter_id_conv fc_pair_def)
    moreover have "fc_erase_from hs sz P i s = s" using False by (subst fc_erase_from.simps) simp
    ultimately show ?thesis using "1.prems"(1) by auto
  next
    case True
    show ?thesis
    proof (cases "P (fe_key (fs_entries s ! i))")
      case P: True
      define s1 where "s1 = (case fc_FindSlot hs (fe_key (fs_entries s ! i)) s of None \<Rightarrow> s | Some slot \<Rightarrow> fc_kill slot s)"
      define s2 where "s2 = fc_LruRemove i (fc_drop_bytes sz i s1)"
      define s3 where "s3 = (if i \<noteq> unat (fs_count s) - 1 then fc_move_last hs i s2 else s2)"
      have e: "fc_erase_from hs sz P i s = fc_erase_from hs sz P i (s3\<lparr>fs_count := fs_count s - 1\<rparr>)"
        using True P by (subst fc_erase_from.simps) (simp add: s1_def s2_def s3_def Let_def)
      note st = fc_rep_erase_step [where sz = sz, OF "1.prems"(1,2) True, folded s1_def, folded s2_def, folded s3_def]
      obtain xs1 where x: "fc_rep hs c (s3\<lparr>fs_count := fs_count s - 1\<rparr>) xs1"
        "map (fc_pair (s3\<lparr>fs_count := fs_count s - 1\<rparr>)) xs1 = filter (\<lambda>p. fst p \<noteq> fe_key (fs_entries s ! i)) (map (fc_pair s) xs)" using st(1) by blast
      have "\<forall>j < i. \<not> P (fe_key (fs_entries (s3\<lparr>fs_count := fs_count s - 1\<rparr>) ! j))" using st(2) "1.prems"(3) by simp
      from "1.IH"(1) [OF True P s1_def s2_def s3_def x(1) "1.prems"(2) this] obtain xs2 where
        y: "fc_rep hs c (fc_erase_from hs sz P i s) xs2" "map (fc_pair (fc_erase_from hs sz P i s)) xs2 = lru_erase_if P (map (fc_pair (s3\<lparr>fs_count := fs_count s - 1\<rparr>)) xs1)"
        "fs_max_entries (fc_erase_from hs sz P i s) = fs_max_entries (s3\<lparr>fs_count := fs_count s - 1\<rparr>)" unfolding e by blast
      have "lru_erase_if P (map (fc_pair (s3\<lparr>fs_count := fs_count s - 1\<rparr>)) xs1) = lru_erase_if P (map (fc_pair s) xs)"
        unfolding x(2) lru_erase_if_def filter_filter using P by (intro filter_cong) auto
      with y st(3) show ?thesis by auto
    next
      case P: False
      then have e: "fc_erase_from hs sz P i s = fc_erase_from hs sz P (i + 1) s" using True by (subst fc_erase_from.simps) simp
      have "\<forall>j < i + 1. \<not> P (fe_key (fs_entries s ! j))" using "1.prems"(3) P by (auto simp: less_Suc_eq)
      from "1.IH"(2) [OF True P "1.prems"(1,2) this] show ?thesis unfolding e .
    qed
  qed
qed

section \<open>Refinement\<close>

definition fc_ok :: "('k \<Rightarrow> u64) \<Rightarrow> u64 \<Rightarrow> ('k, 'v) fc_shard \<Rightarrow> bool" where
  "fc_ok hs c s \<longleftrightarrow> (\<exists>xs. fc_rep hs c s xs)"

lemma fc_bucket_count_ge: "0 < bc \<Longrightarrow> per_e * 2 \<le> fc_bucket_count per_e bc"
  by (induction per_e bc rule: fc_bucket_count.induct) (subst fc_bucket_count.simps, auto)

lemma fc_ok_Init:
  assumes "0 < m" and "m * unat c \<le> b" and "b < 2 ^ 64" and "m < 2 ^ 64"
  shows "fc_ok hs c (fc_Init k0 m b)" and "fc_abs (fc_Init k0 m b) = []"
proof -
  have l: "m * 2 \<le> fc_bucket_count m 1" by (rule fc_bucket_count_ge) simp
  have n: "0 < fc_bucket_count m 1" using l assms(1) by linarith
  have "fc_rep hs c (fc_Init k0 m b) []" using assms l n by (simp add: fc_rep_def fc_core_def fc_Init_def dll_def fc_tab_def)
  then show "fc_ok hs c (fc_Init k0 m b)" and "fc_abs (fc_Init k0 m b) = []" using fc_rep_abs [of hs c "fc_Init k0 m b" "[]"] by (auto simp: fc_ok_def)
qed

lemma fc_ok_Get:
  assumes "fc_ok hs c s" and "fc_Get_nolock hs key s = (s', r)"
  shows "fc_ok hs c s' \<and> lru_get key (fc_abs s) = (fc_abs s', r) \<and> fs_max_entries s' = fs_max_entries s"
proof -
  obtain xs where xs: "fc_rep hs c s xs" using assms(1) by (auto simp: fc_ok_def)
  then have "fc_core hs s xs" by (simp add: fc_rep_def)
  from fc_core_Get [OF this, of key] assms(2) obtain xs' where g: "fc_core hs s' xs'" "set xs' = set xs" "lru_get key (map (fc_pair s) xs) = (map (fc_pair s') xs', r)"
    "fs_count s' = fs_count s" "fs_bytes s' = fs_bytes s" "fs_max_entries s' = fs_max_entries s" "fs_max_bytes s' = fs_max_bytes s" by auto
  then have "fc_rep hs c s' xs'" using xs by (simp add: fc_rep_def)
  then show ?thesis using g(3,6) fc_rep_abs [OF xs] fc_rep_abs [of hs c s' xs'] by (auto simp: fc_ok_def)
qed

lemma fc_ok_Put:
  assumes "fc_ok hs c s" and "\<And>v. sz v = c"
  shows "\<exists>s'. fc_Put_nolock hs sz key val s = Some s' \<and> fc_ok hs c s' \<and> fc_abs s' = lru_put (fs_max_entries s) key val (fc_abs s) \<and> fs_max_entries s' = fs_max_entries s"
proof -
  obtain xs where xs: "fc_rep hs c s xs" using assms(1) by (auto simp: fc_ok_def)
  from fc_rep_Put [where sz = sz, OF xs assms(2), of key val] obtain s' xs' where s': "fc_Put_nolock hs sz key val s = Some s'" "fc_rep hs c s' xs'"
    "map (fc_pair s') xs' = lru_put (fs_max_entries s) key val (map (fc_pair s) xs)" "fs_max_entries s' = fs_max_entries s" by blast
  then show ?thesis using fc_rep_abs [OF xs] fc_rep_abs [OF s'(2)] by (auto simp: fc_ok_def)
qed

lemma fc_ok_EraseIf:
  assumes "fc_ok hs c s" and "\<And>v. sz v = c"
  shows "fc_ok hs c (fc_EraseIf_nolock hs sz P s) \<and> fc_abs (fc_EraseIf_nolock hs sz P s) = lru_erase_if P (fc_abs s) \<and> fs_max_entries (fc_EraseIf_nolock hs sz P s) = fs_max_entries s"
proof -
  obtain xs where xs: "fc_rep hs c s xs" using assms(1) by (auto simp: fc_ok_def)
  from fc_rep_erase_from [where sz = sz and i = 0, OF xs assms(2)] obtain xs' where s': "fc_rep hs c (fc_erase_from hs sz P 0 s) xs'"
    "map (fc_pair (fc_erase_from hs sz P 0 s)) xs' = lru_erase_if P (map (fc_pair s) xs)" "fs_max_entries (fc_erase_from hs sz P 0 s) = fs_max_entries s" by blast
  then show ?thesis using fc_rep_abs [OF xs] fc_rep_abs [OF s'(1)] by (auto simp: fc_ok_def fc_EraseIf_nolock_def)
qed

lemma fc_ok_Clear:
  assumes "fc_ok hs c s"
  shows "fc_ok hs c (fc_Clear_nolock s) \<and> fc_abs (fc_Clear_nolock s) = []"
proof -
  obtain xs where xs: "fc_rep hs c s xs" using assms by (auto simp: fc_ok_def)
  then have "fc_rep hs c (fc_Clear_nolock s) []" by (simp add: fc_rep_def fc_core_def fc_Clear_nolock_def dll_def fc_tab_def)
  then show ?thesis using fc_rep_abs [of hs c "fc_Clear_nolock s" "[]"] by (auto simp: fc_ok_def)
qed

text \<open>
  C9: a shard is a cache with least-recently-used eviction. For values of one size within the byte limit, the hash table with its tombstones, the entries and the links refine a list of
  pairs in order of use: \<open>Get\<close> returns the value of the key and moves it to the front, \<open>Put\<close> puts the pair in front, replaces an older value of the key and drops the last pair beyond the
  capacity, \<open>EraseIf\<close> removes exactly the keys of the predicate, \<open>Clear\<close> all; every operation ends without an error and keeps the shard well formed.
\<close>
theorem flat_cache_refines_lru:
  assumes "fc_ok hs c s" and "\<And>v. sz v = c"
  shows "(case fc_Get_nolock hs key s of (s', r) \<Rightarrow> (fc_abs s', r) = lru_get key (fc_abs s) \<and> fc_ok hs c s')
    \<and> (case fc_Put_nolock hs sz key val s of Some s' \<Rightarrow> fc_abs s' = lru_put (fs_max_entries s) key val (fc_abs s) \<and> fc_ok hs c s' | None \<Rightarrow> False)
    \<and> fc_abs (fc_EraseIf_nolock hs sz P s) = lru_erase_if P (fc_abs s) \<and> fc_ok hs c (fc_EraseIf_nolock hs sz P s)
    \<and> fc_abs (fc_Clear_nolock s) = [] \<and> fc_ok hs c (fc_Clear_nolock s)"
  using fc_ok_Get [OF assms(1), of key] fc_ok_Put [where sz = sz, OF assms, of key val] fc_ok_EraseIf [where sz = sz, OF assms, of P] fc_ok_Clear [OF assms(1)]
  by (auto split: prod.splits)

theorem flat_cache_refines_lru_witness:
  "\<exists>s'. fc_Put_nolock (\<lambda>k. k) (\<lambda>v. 32) 7 [1 :: u8] (fc_Init 0 4 1000) = Some s' \<and> fc_abs s' = [(7, [1])]"
proof -
  have ok: "fc_ok (\<lambda>k :: u64. k) 32 (fc_Init 0 4 1000)" and e: "fc_abs (fc_Init 0 4 1000 :: (u64, bytes) fc_shard) = []" by (rule fc_ok_Init [where c = 32], simp_all)+
  have m: "fs_max_entries (fc_Init 0 4 1000 :: (u64, bytes) fc_shard) = 4" by (simp add: fc_Init_def)
  have "case fc_Put_nolock (\<lambda>k. k) (\<lambda>v. 32) 7 [1 :: u8] (fc_Init 0 4 1000) of Some s' \<Rightarrow> fc_abs s' = lru_put 4 7 [1] [] \<and> fc_ok (\<lambda>k. k) 32 s' | None \<Rightarrow> False"
    using flat_cache_refines_lru [where sz = "\<lambda>_ :: bytes. 32" and key = 7 and val = "[1]", OF ok refl] by (simp only: e m)
  then show ?thesis by (cases "fc_Put_nolock (\<lambda>k. k) (\<lambda>v. 32) 7 [1 :: u8] (fc_Init 0 4 1000)") (simp_all add: lru_put_def)
qed

section \<open>Erased entries\<close>

lemma fc_core_Erase:
  assumes "fc_core hs s (x # xs)"
  shows "fc_core hs (fc_Erase_nolock hs sz (fe_key (fs_entries s ! x)) s) xs"
    and "fe_key (fs_entries (fc_Erase_nolock hs sz (fe_key (fs_entries s ! x)) s) ! j) = fe_key (fs_entries s ! j)"
    and "fs_count (fc_Erase_nolock hs sz (fe_key (fs_entries s ! x)) s) = fs_count s" and "fs_max_entries (fc_Erase_nolock hs sz (fe_key (fs_entries s ! x)) s) = fs_max_entries s"
proof -
  obtain l where l: "fc_FindSlot hs (fe_key (fs_entries s ! x)) s = Some l" using fc_core_find [OF assms _ refl, of x] by auto
  note k = fc_core_kill [where ys = "[]", unfolded append_Nil, OF assms l]
  have e: "fc_Erase_nolock hs sz (fe_key (fs_entries s ! x)) s = fc_kill l (fc_LruRemove x (fc_drop_bytes sz x s))" using l k(2) by (simp add: fc_Erase_nolock_def)
  have "fc_kill l (fc_LruRemove x (fc_drop_bytes sz x s)) = fc_drop_bytes sz x (fc_LruRemove x (fc_kill l s))"
    by (simp add: fc_kill_def fc_drop_bytes_def lru_commutes)
  then show "fc_core hs (fc_Erase_nolock hs sz (fe_key (fs_entries s ! x)) s) xs" using k(1) by (simp add: e fc_core_cong)
qed (simp_all add: fc_Erase_nolock_def fc_kill_def fc_drop_bytes_def Let_def split: option.split)

lemma fc_core_erase_all:
  assumes "fc_core hs s xs"
  shows "fc_core hs (fold (fc_Erase_nolock hs sz) (map (\<lambda>x. fe_key (fs_entries s ! x)) xs) s) []
    \<and> fs_count (fold (fc_Erase_nolock hs sz) (map (\<lambda>x. fe_key (fs_entries s ! x)) xs) s) = fs_count s
    \<and> fs_max_entries (fold (fc_Erase_nolock hs sz) (map (\<lambda>x. fe_key (fs_entries s ! x)) xs) s) = fs_max_entries s"
  using assms
proof (induction xs arbitrary: s)
  case (Cons x xs)
  note e = fc_core_Erase [OF Cons.prems, of sz]
  show ?case using Cons.IH [OF e(1)] by (simp add: e(2-4))
qed simp

text \<open>
  erased entries are never used again. \<open>Erase\<close> leaves the counter of entries as it is and does not give the entry back. Once a full shard has lost all its keys to \<open>Erase\<close>, as a shard for the
  metadata of tables does after as many compactions, there is nothing to evict: no \<open>Put\<close> stores anything, and every \<open>Get\<close> misses.
\<close>
theorem flat_cache_erased_entries_lost:
  assumes "fc_ok hs c s" and "unat (fs_count s) = fs_max_entries s" and "s' = fold (fc_Erase_nolock hs sz) (map fst (fc_abs s)) s"
  shows "fc_Put_nolock hs sz key val s' = Some s' \<and> snd (fc_Get_nolock hs key' s') = None"
proof -
  obtain xs where xs: "fc_rep hs c s xs" using assms(1) by (auto simp: fc_ok_def)
  have "map fst (fc_abs s) = map (\<lambda>x. fe_key (fs_entries s ! x)) xs" by (simp add: fc_rep_abs [OF xs] comp_def fc_pair_def)
  moreover have "fc_core hs s xs" using xs by (simp add: fc_rep_def)
  ultimately have e: "fc_core hs s' []" "fs_count s' = fs_count s" "fs_max_entries s' = fs_max_entries s" unfolding assms(3) using fc_core_erase_all [of hs s xs sz] by simp_all
  have "fc_FindSlot hs k s' = None" for k by (rule fc_core_absent [OF e(1)]) simp
  moreover have "fs_tail s' = None" using e(1) by (simp add: fc_core_def dll_def)
  moreover have "fc_make_room hs sz (sz val) None s' = (s', None)"
    using e(2,3) assms(2) calculation(2) by (subst fc_make_room.simps) (simp add: fc_full_def fc_Evict_def)
  ultimately show ?thesis by (simp add: fc_Put_nolock_def fc_Get_nolock_def)
qed

theorem flat_cache_erased_entries_lost_witness:
  "\<exists>s s'. fc_Put_nolock (\<lambda>k. k) (\<lambda>v. 32) 7 [1 :: u8] (fc_Init 0 1 1000) = Some s \<and> s' = fc_Erase_nolock (\<lambda>k. k) (\<lambda>v. 32) 7 s
     \<and> fc_Put_nolock (\<lambda>k. k) (\<lambda>v. 32) 8 [2] s' = Some s'"
proof -
  have ok: "fc_ok (\<lambda>k :: u64. k) 32 (fc_Init 0 1 1000)" and e: "fc_abs (fc_Init 0 1 1000 :: (u64, bytes) fc_shard) = []" by (rule fc_ok_Init [where c = 32], simp_all)+
  obtain s where s: "fc_Put_nolock (\<lambda>k. k) (\<lambda>v. 32) 7 [1 :: u8] (fc_Init 0 1 1000) = Some s" "fc_ok (\<lambda>k. k) 32 s" "fc_abs s = [(7, [1])]" "fs_max_entries s = 1"
    using fc_ok_Put [where sz = "\<lambda>_ :: bytes. 32" and key = 7 and val = "[1]", OF ok refl] e by (auto simp: lru_put_def fc_Init_def)
  obtain xs where xs: "fc_rep (\<lambda>k. k) 32 s xs" using s(2) by (auto simp: fc_ok_def)
  have "length (fc_abs s) = unat (fs_count s)" using fc_rep_abs [OF xs] fc_rep_length [OF xs] by simp
  then have "unat (fs_count s) = fs_max_entries s" using s(3,4) by simp
  from flat_cache_erased_entries_lost [OF s(2) this refl, of "\<lambda>_. 32" 8 "[2]"] s show ?thesis by simp
qed

end
