(* ===== verification/Block_Cache.thy ===== *)
theory Block_Cache
  imports Flat_Cache_Lru Engine
begin

text \<open>
  The cache of table metadata and blocks (\<^verbatim>\<open>include/kvdb/block_cache.hpp\<close>) on top of two generic caches. The theories of the tables and of the engine see a cache as two partial maps
  (\<open>block_cache\<close>); here the block part is shown to refine them. \<open>hs\<close> is \<^verbatim>\<open>std::hash\<close>, \<open>ss\<close> the size of a string object, which is what the generic cache charges for a block.
\<close>

section \<open>Operations\<close>

record sst_cache =
  sc_heavy :: "(u64, CachedHeavy) flat_cache"
  sc_blocks :: "(u64, bytes) flat_cache"

definition sc_new :: "nat \<Rightarrow> nat \<Rightarrow> nat \<Rightarrow> nat \<Rightarrow> sst_cache" where
  "sc_new max_blocks max_meta max_bytes num_shards =
     \<lparr>sc_heavy = fc_new 0 max_meta max_bytes num_shards, sc_blocks = fc_new 0 max_blocks max_bytes num_shards\<rparr>"

definition BlockKey :: "u64 \<Rightarrow> u32 \<Rightarrow> u64" where
  "BlockKey seq idx = or (push_bit 32 seq) (ucast idx)"

definition sc_SizeBytes :: "CachedHeavy \<Rightarrow> u64" where
  "sc_SizeBytes h = of_nat (length (bf_bytes (ch_bloom h)) + length (ch_block_offsets h) * 8 + length (ch_first_key_buf h)
     + length (ch_first_key_offsets h) * 4 + length (ch_aborted h) * 8)"

definition sc_GetHeavy :: "(u64 \<Rightarrow> u64) \<Rightarrow> u64 \<Rightarrow> sst_cache \<Rightarrow> sst_cache \<times> CachedHeavy option" where
  "sc_GetHeavy hs seq c = (case fc_Get hs seq (sc_heavy c) of (f, r) \<Rightarrow> (c\<lparr>sc_heavy := f\<rparr>, r))"

definition sc_PutHeavy ::
  "(u64 \<Rightarrow> u64) \<Rightarrow> u64 \<Rightarrow> BloomFilter \<Rightarrow> u64 list \<Rightarrow> bytes \<Rightarrow> u32 list \<Rightarrow> u64 list \<Rightarrow> sst_cache \<Rightarrow> sst_cache option" where
  "sc_PutHeavy hs seq bloom offsets first_key_buf first_key_offsets aborted c =
     map_option (\<lambda>f. c\<lparr>sc_heavy := f\<rparr>)
       (fc_Put hs sc_SizeBytes seq \<lparr>ch_bloom = bloom, ch_block_offsets = offsets, ch_first_key_buf = first_key_buf,
          ch_first_key_offsets = first_key_offsets, ch_aborted = aborted\<rparr> (sc_heavy c))"

definition sc_GetBlock :: "(u64 \<Rightarrow> u64) \<Rightarrow> u64 \<Rightarrow> u32 \<Rightarrow> sst_cache \<Rightarrow> sst_cache \<times> bytes option" where
  "sc_GetBlock hs seq idx c = (case fc_Get hs (BlockKey seq idx) (sc_blocks c) of (f, r) \<Rightarrow> (c\<lparr>sc_blocks := f\<rparr>, r))"

definition sc_PutBlock :: "(u64 \<Rightarrow> u64) \<Rightarrow> u64 \<Rightarrow> u64 \<Rightarrow> u32 \<Rightarrow> bytes \<Rightarrow> sst_cache \<Rightarrow> sst_cache option" where
  "sc_PutBlock hs ss seq idx data c = map_option (\<lambda>f. c\<lparr>sc_blocks := f\<rparr>) (fc_Put hs (\<lambda>_. ss) (BlockKey seq idx) data (sc_blocks c))"

definition sc_Invalidate :: "(u64 \<Rightarrow> u64) \<Rightarrow> u64 \<Rightarrow> u64 \<Rightarrow> sst_cache \<Rightarrow> sst_cache" where
  "sc_Invalidate hs ss seq c =
     (let lo = BlockKey seq 0; hi = BlockKey (seq + 1) 0
      in c\<lparr>sc_heavy := fc_Erase hs sc_SizeBytes seq (sc_heavy c), sc_blocks := fc_EraseIf hs (\<lambda>_. ss) (\<lambda>key. key \<ge> lo \<and> key < hi) (sc_blocks c)\<rparr>)"

section \<open>Keys\<close>

lemma BlockKey_unat:
  assumes "unat seq < 2 ^ 32"
  shows "unat (BlockKey seq idx) = unat seq * 2 ^ 32 + unat idx"
proof -
  have u: "unat (push_bit 32 seq) = unat seq * 2 ^ 32"
    using assms by (simp add: push_bit_eq_mult unat_word_ariths)
  have "and (push_bit 32 seq) (ucast idx) = 0"
  proof (rule bit_eqI)
    fix n
    have "\<not> bit idx n" if "32 \<le> n" using that bit_imp_le_length [of idx n] by auto
    then show "bit (and (push_bit 32 seq) (ucast idx)) n \<longleftrightarrow> bit (0 :: u64) n"
      by (auto simp: bit_and_iff bit_push_bit_iff bit_ucast_iff)
  qed
  then have "BlockKey seq idx = push_bit 32 seq + ucast idx" by (simp add: BlockKey_def disjunctive_add_eq_or)
  moreover have i: "unat idx < 2 ^ 32" using unsigned_less [of idx] by simp
  then have "unat (ucast idx :: u64) = unat idx" by (simp add: unsigned_ucast_eq take_bit_nat_eq_self)
  ultimately show ?thesis using u assms i by (simp add: unat_word_ariths)
qed

lemma digits_unique:
  assumes "a * n + b = a' * n + b'" and "b < n" and "b' < (n :: nat)"
  shows "a = a' \<and> b = b'"
proof -
  have "(a * n + b) div n = a" "(a' * n + b') div n = a'" "(a * n + b) mod n = b" "(a' * n + b') mod n = b'" using assms(2,3) by simp_all
  then show ?thesis using assms(1) by metis
qed

lemma digits_range:
  assumes "b < (n :: nat)"
  shows "a * n \<le> a' * n + b \<and> a' * n + b < (a + 1) * n \<longleftrightarrow> a' = a"
proof (cases a' a rule: linorder_cases)
  case less
  then have "(a' + 1) * n \<le> a * n" by (intro mult_le_mono1) simp
  then show ?thesis using assms less by simp
next
  case greater
  then have "(a + 1) * n \<le> a' * n" by (intro mult_le_mono1) simp
  then show ?thesis using greater by simp
qed (use assms in simp)

lemma BlockKey_inj:
  assumes "unat seq < 2 ^ 32" and "unat seq' < 2 ^ 32" and "BlockKey seq idx = BlockKey seq' idx'"
  shows "seq = seq' \<and> idx = idx'"
proof -
  have "unat seq * 2 ^ 32 + unat idx = unat seq' * 2 ^ 32 + unat idx'" using BlockKey_unat [OF assms(1)] BlockKey_unat [OF assms(2)] assms(3) by metis
  moreover have "unat idx < 2 ^ 32" "unat idx' < 2 ^ 32" using unsigned_less [of idx] unsigned_less [of idx'] by simp_all
  ultimately have "unat seq = unat seq' \<and> unat idx = unat idx'" by (intro digits_unique [where n = "2 ^ 32"]) simp_all
  then show ?thesis by (simp add: word_unat_eq_iff)
qed

lemma BlockKey_range:
  assumes "unat seq < 2 ^ 32 - 1" and "unat seq' < 2 ^ 32"
  shows "BlockKey seq 0 \<le> BlockKey seq' idx \<and> BlockKey seq' idx < BlockKey (seq + 1) 0 \<longleftrightarrow> seq' = seq"
proof -
  have s: "unat (seq + 1) = unat seq + 1" using assms(1) by (simp add: unat_word_ariths)
  have "unat idx < 2 ^ 32" using unsigned_less [of idx] by simp
  moreover have "unat (BlockKey seq 0) = unat seq * 2 ^ 32" "unat (BlockKey (seq + 1) 0) = (unat seq + 1) * 2 ^ 32" "unat (BlockKey seq' idx) = unat seq' * 2 ^ 32 + unat idx"
    using BlockKey_unat [of seq 0] BlockKey_unat [of "seq + 1" 0] BlockKey_unat [of seq' idx] assms s by simp_all
  ultimately have "BlockKey seq 0 \<le> BlockKey seq' idx \<and> BlockKey seq' idx < BlockKey (seq + 1) 0 \<longleftrightarrow> unat seq' = unat seq"
    using digits_range [of "unat idx" "2 ^ 32" "unat seq" "unat seq'"] by (simp add: word_le_nat_alt word_less_nat_alt)
  then show ?thesis by (simp add: word_unat_eq_iff)
qed

section \<open>The contents of a sharded cache\<close>

definition fc_view :: "('k \<Rightarrow> u64) \<Rightarrow> ('k, 'v) flat_cache \<Rightarrow> 'k \<Rightarrow> 'v option" where
  "fc_view hs f k = map_of (fc_abs (f ! fc_Shard hs k f)) k"

definition fcs_ok :: "('k \<Rightarrow> u64) \<Rightarrow> u64 \<Rightarrow> ('k, 'v) flat_cache \<Rightarrow> bool" where
  "fcs_ok hs c f \<longleftrightarrow> f \<noteq> [] \<and> (\<forall>s \<in> set f. fc_ok hs c s)"

lemma map_of_others: "map_of (filter (\<lambda>p. fst p \<noteq> k) L) k' = (if k' = k then None else map_of L k')"
  by (induction L) auto

lemma map_of_take: "map_of (take n L) k = Some v \<Longrightarrow> map_of L k = Some v"
proof (induction L arbitrary: n)
  case (Cons p L)
  then show ?case by (cases n) (auto split: if_splits)
qed simp

lemma map_of_lru_get: "lru_get k L = (L', r) \<Longrightarrow> r = map_of L k \<and> map_of L' = map_of L"
  by (auto simp: lru_get_def map_of_others fun_eq_iff split: option.splits)

lemma map_of_lru_put: "0 < n \<Longrightarrow> map_of (lru_put n k v L) k = Some v" "k' \<noteq> k \<Longrightarrow> map_of (lru_put n k v L) k' = Some d \<Longrightarrow> map_of L k' = Some d"
  by (cases n; simp add: lru_put_def) (auto simp: lru_put_def map_of_others dest!: map_of_take)

lemma map_of_lru_erase: "map_of (lru_erase_if P L) k = (if P k then None else map_of L k)"
  unfolding lru_erase_if_def by (induction L) auto

lemma fc_ok_room: "fc_ok hs c s \<Longrightarrow> 0 < fs_max_entries s"
  by (auto simp: fc_ok_def fc_rep_def fc_core_def)

lemma fcs_ok_shard:
  assumes "fcs_ok hs c f"
  shows "fc_Shard hs k f < length f" and "fc_ok hs c (f ! fc_Shard hs k f)"
proof -
  show "fc_Shard hs k f < length f" using assms by (simp add: fc_Shard_def fcs_ok_def)
  then show "fc_ok hs c (f ! fc_Shard hs k f)" using assms by (simp add: fcs_ok_def)
qed

lemma fcs_ok_update: "fcs_ok hs c f \<Longrightarrow> fc_ok hs c s \<Longrightarrow> fcs_ok hs c (f[i := s])"
  using set_update_subset_insert [of f i s] by (auto simp: fcs_ok_def)

lemma fc_Shard_update [simp]: "fc_Shard hs k (f[i := s]) = fc_Shard hs k f"
  by (simp add: fc_Shard_def)

lemma fc_Get_view:
  assumes "fcs_ok hs c f" and "fc_Get hs k f = (f', r)"
  shows "r = fc_view hs f k \<and> fcs_ok hs c f' \<and> fc_view hs f' = fc_view hs f"
proof -
  note sh = fcs_ok_shard [where k = k, OF assms(1)]
  obtain s where s: "fc_Get_nolock hs k (f ! fc_Shard hs k f) = (s, r)" "f' = f[fc_Shard hs k f := s]" using assms(2) by (auto simp: fc_Get_def Let_def split: prod.splits)
  note g = fc_ok_Get [OF sh(2) s(1)]
  have m: "r = map_of (fc_abs (f ! fc_Shard hs k f)) k" "map_of (fc_abs s) = map_of (fc_abs (f ! fc_Shard hs k f))" using map_of_lru_get g by metis+
  have "fc_view hs f' k' = fc_view hs f k'" for k' using m(2) sh(1) by (cases "fc_Shard hs k' f = fc_Shard hs k f") (simp_all add: fc_view_def s(2))
  then show ?thesis using m(1) g fcs_ok_update [OF assms(1)] by (auto simp: fc_view_def s(2))
qed

lemma fc_Put_view:
  assumes "fcs_ok hs c f" and "\<And>v. sz v = c"
  shows "\<exists>f'. fc_Put hs sz k v f = Some f' \<and> fcs_ok hs c f' \<and> fc_view hs f' k = Some v \<and> (\<forall>k' d. k' \<noteq> k \<longrightarrow> fc_view hs f' k' = Some d \<longrightarrow> fc_view hs f k' = Some d)"
proof -
  note sh = fcs_ok_shard [where k = k, OF assms(1)]
  let ?s = "f ! fc_Shard hs k f"
  obtain s where s: "fc_Put_nolock hs sz k v ?s = Some s" "fc_ok hs c s" "fc_abs s = lru_put (fs_max_entries ?s) k v (fc_abs ?s)"
    using fc_ok_Put [where sz = sz, OF sh(2) assms(2), of k v] by blast
  let ?f = "f[fc_Shard hs k f := s]"
  have "fc_view hs ?f k = Some v" using s(3) sh(1) map_of_lru_put(1) fc_ok_room [OF sh(2)] by (simp add: fc_view_def)
  moreover have "fc_view hs f k' = Some d" if "k' \<noteq> k" "fc_view hs ?f k' = Some d" for k' d
    using that s(3) sh(1) map_of_lru_put(2) [OF that(1)] by (cases "fc_Shard hs k' f = fc_Shard hs k f") (auto simp: fc_view_def)
  ultimately show ?thesis using s(1) fcs_ok_update [OF assms(1) s(2)] by (intro exI [of _ ?f]) (auto simp: fc_Put_def Let_def)
qed

lemma fc_EraseIf_view:
  assumes "fcs_ok hs c f" and "\<And>v. sz v = c"
  shows "fcs_ok hs c (fc_EraseIf hs sz P f) \<and> fc_view hs (fc_EraseIf hs sz P f) k = (if P k then None else fc_view hs f k)"
proof -
  have e: "fc_ok hs c (fc_EraseIf_nolock hs sz P s) \<and> fc_abs (fc_EraseIf_nolock hs sz P s) = lru_erase_if P (fc_abs s)" if "fc_ok hs c s" for s :: "('a, 'b) fc_shard"
    using fc_ok_EraseIf [where sz = sz, OF that assms(2)] by blast
  have "fc_Shard hs k (fc_EraseIf hs sz P f) = fc_Shard hs k f" by (simp add: fc_Shard_def fc_EraseIf_def)
  then show ?thesis using assms(1) fcs_ok_shard [where k = k, OF assms(1)] e
    by (auto simp: fcs_ok_def fc_view_def fc_EraseIf_def map_of_lru_erase)
qed

section \<open>The blocks\<close>

text \<open>What the cache has of the blocks is in the maps, too.\<close>

definition sc_sim :: "(u64 \<Rightarrow> u64) \<Rightarrow> u64 \<Rightarrow> sst_cache \<Rightarrow> block_cache \<Rightarrow> bool" where
  "sc_sim hs ss c bc \<longleftrightarrow> fcs_ok hs ss (sc_blocks c)
     \<and> (\<forall>seq idx d. unat seq < 2 ^ 32 - 1 \<longrightarrow> fc_view hs (sc_blocks c) (BlockKey seq idx) = Some d \<longrightarrow> bc_blocks bc (seq, idx) = Some d)"

lemma sc_sim_view: "sc_sim hs ss c bc \<Longrightarrow> unat seq < 2 ^ 32 - 1 \<Longrightarrow> fc_view hs (sc_blocks c) (BlockKey seq idx) = Some d \<Longrightarrow> bc_blocks bc (seq, idx) = Some d"
  unfolding sc_sim_def by blast

lemma sc_sim_GetBlock:
  assumes "sc_sim hs ss c bc" and "sc_GetBlock hs seq idx c = (c', r)"
  shows "sc_sim hs ss c' bc \<and> r = fc_view hs (sc_blocks c) (BlockKey seq idx)"
proof -
  obtain f where f: "fc_Get hs (BlockKey seq idx) (sc_blocks c) = (f, r)" "c' = c\<lparr>sc_blocks := f\<rparr>" using assms(2) by (auto simp: sc_GetBlock_def split: prod.splits)
  have "fcs_ok hs ss (sc_blocks c)" using assms(1) by (simp add: sc_sim_def)
  from fc_Get_view [OF this f(1)] show ?thesis using assms(1) by (auto simp: sc_sim_def f(2))
qed

lemma sc_sim_PutBlock:
  assumes "sc_sim hs ss c bc" and "unat seq < 2 ^ 32 - 1"
  shows "\<exists>c'. sc_PutBlock hs ss seq idx d c = Some c' \<and> sc_sim hs ss c' (bc\<lparr>bc_blocks := (bc_blocks bc)((seq, idx) \<mapsto> d)\<rparr>)
    \<and> fc_view hs (sc_blocks c') (BlockKey seq idx) = Some d"
proof -
  have "fcs_ok hs ss (sc_blocks c)" using assms(1) by (simp add: sc_sim_def)
  from fc_Put_view [OF this, of "\<lambda>_. ss" "BlockKey seq idx" d] obtain f where f: "fc_Put hs (\<lambda>_. ss) (BlockKey seq idx) d (sc_blocks c) = Some f" "fcs_ok hs ss f"
    "fc_view hs f (BlockKey seq idx) = Some d" "\<And>k' d'. k' \<noteq> BlockKey seq idx \<Longrightarrow> fc_view hs f k' = Some d' \<Longrightarrow> fc_view hs (sc_blocks c) k' = Some d'" by blast
  have "((bc_blocks bc)((seq, idx) \<mapsto> d)) (s, i) = Some d'" if "unat s < 2 ^ 32 - 1" "fc_view hs f (BlockKey s i) = Some d'" for s i d'
  proof (cases "(s, i) = (seq, idx)")
    case True
    then show ?thesis using that(2) f(3) by simp
  next
    case False
    then have "BlockKey s i \<noteq> BlockKey seq idx" using BlockKey_inj [of s seq i idx] that(1) assms(2) by auto
    then show ?thesis using f(4) that sc_sim_view [OF assms(1)] False by auto
  qed
  then show ?thesis using f by (simp add: sc_PutBlock_def sc_sim_def)
qed

lemma sc_sim_Invalidate:
  assumes "sc_sim hs ss c bc" and "unat seq < 2 ^ 32 - 1"
  shows "sc_sim hs ss (sc_Invalidate hs ss seq c) (bc_Invalidate seq bc) \<and> fc_view hs (sc_blocks (sc_Invalidate hs ss seq c)) (BlockKey seq idx) = None"
proof -
  let ?P = "\<lambda>key. BlockKey seq 0 \<le> key \<and> key < BlockKey (seq + 1) 0"
  have b: "sc_blocks (sc_Invalidate hs ss seq c) = fc_EraseIf hs (\<lambda>_. ss) ?P (sc_blocks c)" by (simp add: sc_Invalidate_def Let_def)
  have "fcs_ok hs ss (sc_blocks c)" using assms(1) by (simp add: sc_sim_def)
  note e = fc_EraseIf_view [where sz = "\<lambda>_. ss", OF this refl, of ?P]
  have r: "?P (BlockKey s i) \<longleftrightarrow> s = seq" if "unat s < 2 ^ 32 - 1" for s i using BlockKey_range [OF assms(2), of s i] that by simp
  have "bc_blocks (bc_Invalidate seq bc) (s, i) = Some d" if "unat s < 2 ^ 32 - 1" "fc_view hs (fc_EraseIf hs (\<lambda>_. ss) ?P (sc_blocks c)) (BlockKey s i) = Some d" for s i d
    using that(2) e r [OF that(1)] sc_sim_view [OF assms(1) that(1)] by (auto simp: bc_Invalidate_def split: if_splits)
  moreover have "?P (BlockKey seq idx)" using r [OF assms(2)] by simp
  ultimately show ?thesis using e by (simp add: sc_sim_def b)
qed

text \<open>
  C23: the block cache refines the maps that the tables and the engine are verified with. For table numbers below \<open>2 ^ 32 - 1\<close>: a block that \<open>GetBlock\<close> returns is in the map, \<open>PutBlock\<close> succeeds and
  corresponds to an update of the map (with evictions the cache may have less), the block is returned at once, and \<open>Invalidate\<close> removes the blocks of the table and no others from the map, after which
  \<open>GetBlock\<close> finds none of them.
\<close>
theorem block_cache_refines_maps:
  assumes "sc_sim hs ss c bc" and "unat seq < 2 ^ 32 - 1"
  shows "(case sc_GetBlock hs seq idx c of (c', r) \<Rightarrow> sc_sim hs ss c' bc \<and> (\<forall>d. r = Some d \<longrightarrow> bc_blocks bc (seq, idx) = Some d))
    \<and> (case sc_PutBlock hs ss seq idx d c of None \<Rightarrow> False
        | Some c' \<Rightarrow> sc_sim hs ss c' (bc\<lparr>bc_blocks := (bc_blocks bc)((seq, idx) \<mapsto> d)\<rparr>) \<and> snd (sc_GetBlock hs seq idx c') = Some d)
    \<and> sc_sim hs ss (sc_Invalidate hs ss seq c) (bc_Invalidate seq bc) \<and> snd (sc_GetBlock hs seq idx (sc_Invalidate hs ss seq c)) = None"
proof (intro conjI)
  show "case sc_GetBlock hs seq idx c of (c', r) \<Rightarrow> sc_sim hs ss c' bc \<and> (\<forall>d. r = Some d \<longrightarrow> bc_blocks bc (seq, idx) = Some d)"
    using sc_sim_GetBlock [OF assms(1), of seq idx] sc_sim_view [OF assms] by (auto split: prod.split)
next
  obtain c' where p: "sc_PutBlock hs ss seq idx d c = Some c'" "sc_sim hs ss c' (bc\<lparr>bc_blocks := (bc_blocks bc)((seq, idx) \<mapsto> d)\<rparr>)"
    "fc_view hs (sc_blocks c') (BlockKey seq idx) = Some d" using sc_sim_PutBlock [OF assms] by blast
  have "snd (sc_GetBlock hs seq idx c') = Some d" using sc_sim_GetBlock [OF p(2), of seq idx] p(3) by (cases "sc_GetBlock hs seq idx c'") simp
  then show "case sc_PutBlock hs ss seq idx d c of None \<Rightarrow> False
      | Some c' \<Rightarrow> sc_sim hs ss c' (bc\<lparr>bc_blocks := (bc_blocks bc)((seq, idx) \<mapsto> d)\<rparr>) \<and> snd (sc_GetBlock hs seq idx c') = Some d" using p by simp
next
  note i = sc_sim_Invalidate [OF assms, of idx]
  then show "sc_sim hs ss (sc_Invalidate hs ss seq c) (bc_Invalidate seq bc)" by blast
  then show "snd (sc_GetBlock hs seq idx (sc_Invalidate hs ss seq c)) = None"
    using sc_sim_GetBlock [of hs ss "sc_Invalidate hs ss seq c" "bc_Invalidate seq bc" seq idx] i by (cases "sc_GetBlock hs seq idx (sc_Invalidate hs ss seq c)") simp
qed

lemma sc_sim_new:
  assumes "0 < n" and "max 1 (mb div n) * unat ss \<le> max 1 (b div n)" and "max 1 (b div n) < 2 ^ 64" and "max 1 (mb div n) < 2 ^ 64"
  shows "sc_sim hs ss (sc_new mb mm b n) \<lparr>bc_heavy = \<lambda>_. None, bc_blocks = \<lambda>_. None\<rparr>"
proof -
  let ?s = "fc_Init 0 (max 1 (mb div n)) (max 1 (b div n)) :: (u64, bytes) fc_shard"
  have i: "fc_ok hs ss ?s" "fc_abs ?s = []" by (rule fc_ok_Init [where c = ss], use assms in simp_all)+
  have "fc_Shard hs k (replicate n ?s) < n" for k using assms(1) by (simp add: fc_Shard_def)
  then have "fc_view hs (replicate n ?s) k = None" for k using i(2) by (simp add: fc_view_def)
  then show ?thesis using i(1) assms(1) by (simp add: sc_sim_def sc_new_def fc_new_def fcs_ok_def)
qed

theorem block_cache_refines_maps_witness:
  "\<exists>c'. sc_PutBlock (\<lambda>k. k) 32 1 2 [9] (sc_new 1024 256 67108864 16) = Some c' \<and> snd (sc_GetBlock (\<lambda>k. k) 1 2 c') = Some [9]"
proof -
  have s: "sc_sim (\<lambda>k. k) 32 (sc_new 1024 256 67108864 16) \<lparr>bc_heavy = \<lambda>_. None, bc_blocks = \<lambda>_. None\<rparr>" by (rule sc_sim_new) simp_all
  show ?thesis using block_cache_refines_maps [OF s, of 1 2 "[9]"] by (auto split: option.splits)
qed

end
