(* ===== verification/Snp_Tracker.thy ===== *)
theory Snp_Tracker
  imports Kv_Types "HOL-Library.Multiset"
begin

text \<open>
  \<open>SnapshotTracker\<close> (\<^verbatim>\<open>include/kvdb/snp_tracker.hpp\<close>): the read timestamps of running readers, in 256 slots and a
  multiset for the overflow. \<open>slot_\<close> is one static variable per thread, for all trackers; \<open>Acquire\<close> returns its
  new value and \<open>Release\<close> takes the current one. The hash of the thread id gives the parameter \<open>start\<close>. Each atomic access
  to a slot is a step of its own only for threads that compete for the same slot, which the compare-and-swap orders.
\<close>

section \<open>Operations\<close>

definition kSlots :: nat where "kSlots = 256"

record tracker =
  tk_slots :: "u64 list"
  tk_fallback :: bool
  tk_active :: "u64 multiset"

definition tk_new :: tracker where
  "tk_new = \<lparr>tk_slots = replicate kSlots 0, tk_fallback = False, tk_active = {#}\<rparr>"

definition tk_Acquire :: "nat \<Rightarrow> u64 \<Rightarrow> tracker \<Rightarrow> tracker \<times> int" where
  "tk_Acquire start read_ts tk =
     (case find (\<lambda>i. tk_slots tk ! i = 0) (map (\<lambda>t. (start + t) mod kSlots) [0..<kSlots]) of
        Some i \<Rightarrow> (tk\<lparr>tk_slots := (tk_slots tk)[i := read_ts]\<rparr>, int i)
      | None \<Rightarrow> (tk\<lparr>tk_fallback := True, tk_active := add_mset read_ts (tk_active tk)\<rparr>, -1))"

definition tk_Release :: "u64 \<Rightarrow> int \<Rightarrow> tracker \<Rightarrow> tracker" where
  "tk_Release read_ts slot tk =
     (if slot \<ge> 0 then tk\<lparr>tk_slots := (tk_slots tk)[nat slot := 0]\<rparr>
      else let active = tk_active tk - {#read_ts#}
           in tk\<lparr>tk_active := active, tk_fallback := (if active = {#} then False else tk_fallback tk)\<rparr>)"

definition min_slot :: "u64 \<Rightarrow> u64 \<Rightarrow> u64" where
  "min_slot ts min_ts = (if ts \<noteq> 0 \<and> ts < min_ts then ts else min_ts)"

definition tk_MinActiveTS :: "tracker \<Rightarrow> u64" where
  "tk_MinActiveTS tk =
     (let min_ts = fold min_slot (tk_slots tk) (-1)
      in if tk_fallback tk \<and> tk_active tk \<noteq> {#}
         then (let set_min = Min (set_mset (tk_active tk)) in if set_min < min_ts then set_min else min_ts)
         else min_ts)"

section \<open>One tracker\<close>

text \<open>
  Readers that each acquire a snapshot and release it before acquiring another: \<open>held t\<close> is the value of \<^verbatim>\<open>slot_\<close> and
  the timestamp of a thread that reads.
\<close>

inductive tk_reach :: "tracker \<Rightarrow> (nat \<Rightarrow> (int \<times> u64) option) \<Rightarrow> bool" where
  start: "tk_reach tk_new (\<lambda>_. None)"
| acquire: "tk_reach tk held \<Longrightarrow> held t = None \<Longrightarrow> ts \<noteq> 0 \<Longrightarrow> tk_Acquire st ts tk = (tk', slot)
    \<Longrightarrow> tk_reach tk' (held(t \<mapsto> (slot, ts)))"
| release: "tk_reach tk held \<Longrightarrow> held t = Some (slot, ts) \<Longrightarrow> tk_reach (tk_Release ts slot tk) (held(t := None))"

lemma fold_min_slot:
  "fold min_slot xs m \<le> m" "x \<in> set xs \<Longrightarrow> x \<noteq> 0 \<Longrightarrow> fold min_slot xs m \<le> x"
  "fold min_slot xs m = m \<or> fold min_slot xs m \<in> set xs - {0}"
proof -
  have le: "fold min_slot xs m \<le> m" for xs m
  proof (induction xs arbitrary: m)
    case (Cons y ys)
    from Cons [of "min_slot y m"] show ?case by (auto simp: min_slot_def split: if_splits)
  qed simp
  then show "fold min_slot xs m \<le> m" .
  show "x \<in> set xs \<Longrightarrow> x \<noteq> 0 \<Longrightarrow> fold min_slot xs m \<le> x"
  proof (induction xs arbitrary: m)
    case (Cons y ys)
    show ?case
    proof (cases "x = y")
      case True
      then have "min_slot y m \<le> x" using Cons.prems by (auto simp: min_slot_def not_less)
      with le [of ys "min_slot y m"] show ?thesis by simp
    qed (use Cons in auto)
  qed simp
  show "fold min_slot xs m = m \<or> fold min_slot xs m \<in> set xs - {0}"
  proof (induction xs arbitrary: m)
    case (Cons y ys)
    from Cons [of "min_slot y m"] show ?case by (auto simp: min_slot_def split: if_splits)
  qed simp
qed

text \<open>
  The invariant: a slot belongs to at most one reader and has its timestamp, the multiset has the timestamps of the
  other readers, and both have nothing else.
\<close>

definition tk_inv :: "tracker \<Rightarrow> (nat \<Rightarrow> (int \<times> u64) option) \<Rightarrow> bool" where
  "tk_inv tk held \<longleftrightarrow> length (tk_slots tk) = kSlots \<and> finite (dom held)
     \<and> (tk_active tk \<noteq> {#} \<longrightarrow> tk_fallback tk)
     \<and> (\<forall>t slot ts. held t = Some (slot, ts) \<longrightarrow> ts \<noteq> 0 \<and> (slot = -1 \<or> 0 \<le> slot \<and> nat slot < kSlots \<and> tk_slots tk ! nat slot = ts))
     \<and> (\<forall>t t' slot ts ts'. held t = Some (slot, ts) \<longrightarrow> held t' = Some (slot, ts') \<longrightarrow> 0 \<le> slot \<longrightarrow> t = t')
     \<and> (\<forall>i < kSlots. tk_slots tk ! i \<noteq> 0 \<longrightarrow> (\<exists>t ts. held t = Some (int i, ts)))
     \<and> tk_active tk = image_mset (snd \<circ> the \<circ> held) (mset_set {t. \<exists>ts. held t = Some (-1, ts)})"

definition overflow :: "(nat \<Rightarrow> (int \<times> u64) option) \<Rightarrow> u64 multiset" where
  "overflow held = image_mset (snd \<circ> the \<circ> held) (mset_set {t. \<exists>ts. held t = Some (-1, ts)})"

lemma overflow_keep:
  assumes "held t = None \<or> (\<exists>ts. held t = Some (slot, ts))" and "x = None \<or> (\<exists>ts. x = Some (slot, ts))" and "0 \<le> slot"
  shows "overflow (held(t := x)) = overflow held"
proof -
  let ?S = "{t'. \<exists>ts. held t' = Some (-1, ts)}"
  have e: "{t'. \<exists>ts. (held(t := x)) t' = Some (-1, ts)} = ?S"
    using assms by (auto split: if_splits)
  have "t \<notin> ?S" using assms by auto
  then have "t' \<noteq> t" if "t' \<in># mset_set ?S" for t' using that by (cases "finite ?S") auto
  then have "image_mset (snd \<circ> the \<circ> held(t := x)) (mset_set ?S) = image_mset (snd \<circ> the \<circ> held) (mset_set ?S)"
    by (intro image_mset_cong) simp
  then show ?thesis unfolding overflow_def e .
qed

lemma overflow_add:
  assumes "held t = None" and "finite (dom held)"
  shows "overflow (held(t \<mapsto> (-1, ts))) = add_mset ts (overflow held)"
proof -
  let ?S = "{t'. \<exists>ts. held t' = Some (-1, ts)}"
  have "{t'. \<exists>ts'. (held(t \<mapsto> (-1, ts))) t' = Some (-1, ts')} = insert t ?S" by auto
  moreover have "finite ?S" using assms(2) by (rule finite_subset [rotated]) auto
  moreover have "t \<notin> ?S" using assms(1) by simp
  moreover have "image_mset (snd \<circ> the \<circ> held(t \<mapsto> (-1, ts))) (mset_set ?S) = image_mset (snd \<circ> the \<circ> held) (mset_set ?S)"
    using \<open>finite ?S\<close> \<open>t \<notin> ?S\<close> by (intro image_mset_cong) auto
  ultimately show ?thesis by (simp add: overflow_def)
qed

lemma overflow_remove:
  assumes "held t = Some (-1, ts)" and "finite (dom held)"
  shows "overflow held = add_mset ts (overflow (held(t := None)))"
  using overflow_add [of "held(t := None)" t ts] assms by (simp add: fun_upd_idem)

lemma tk_invD:
  assumes "tk_inv tk held"
  shows "length (tk_slots tk) = kSlots" "finite (dom held)" "tk_active tk \<noteq> {#} \<Longrightarrow> tk_fallback tk"
    "held t = Some (slot, ts) \<Longrightarrow> ts \<noteq> 0 \<and> (slot = -1 \<or> 0 \<le> slot \<and> nat slot < kSlots \<and> tk_slots tk ! nat slot = ts)"
    "held t = Some (slot, ts) \<Longrightarrow> held t' = Some (slot, ts') \<Longrightarrow> 0 \<le> slot \<Longrightarrow> t = t'"
    "i < kSlots \<Longrightarrow> tk_slots tk ! i \<noteq> 0 \<Longrightarrow> \<exists>t ts. held t = Some (int i, ts)"
    "tk_active tk = overflow held"
  using assms unfolding tk_inv_def overflow_def by blast+

lemma tk_invI:
  assumes "length (tk_slots tk) = kSlots" "finite (dom held)" "tk_active tk \<noteq> {#} \<Longrightarrow> tk_fallback tk"
    "\<And>t slot ts. held t = Some (slot, ts) \<Longrightarrow> ts \<noteq> 0 \<and> (slot = -1 \<or> 0 \<le> slot \<and> nat slot < kSlots \<and> tk_slots tk ! nat slot = ts)"
    "\<And>t t' slot ts ts'. held t = Some (slot, ts) \<Longrightarrow> held t' = Some (slot, ts') \<Longrightarrow> 0 \<le> slot \<Longrightarrow> t = t'"
    "\<And>i. i < kSlots \<Longrightarrow> tk_slots tk ! i \<noteq> 0 \<Longrightarrow> \<exists>t ts. held t = Some (int i, ts)"
    "tk_active tk = overflow held"
  shows "tk_inv tk held"
  using assms unfolding tk_inv_def overflow_def by blast

lemma tk_inv_acquire:
  assumes "tk_inv tk held" and "held t = None" and "ts \<noteq> 0" and "tk_Acquire st ts tk = (tk', slot)"
  shows "tk_inv tk' (held(t \<mapsto> (slot, ts)))"
proof (cases "find (\<lambda>i. tk_slots tk ! i = 0) (map (\<lambda>t. (st + t) mod kSlots) [0..<kSlots])")
  case None
  note D = tk_invD [OF assms(1)]
  from None assms(4) have tk': "tk' = tk\<lparr>tk_fallback := True, tk_active := add_mset ts (tk_active tk)\<rparr>" "slot = -1"
    by (simp_all add: tk_Acquire_def)
  show ?thesis unfolding tk'
  proof (rule tk_invI)
    show "\<And>i. i < kSlots \<Longrightarrow> tk_slots (tk\<lparr>tk_fallback := True, tk_active := add_mset ts (tk_active tk)\<rparr>) ! i \<noteq> 0
        \<Longrightarrow> \<exists>t' ts'. (held(t \<mapsto> (-1, ts))) t' = Some (int i, ts')"
      using D(6) assms(2) by (metis fun_upd_apply option.distinct(1) tracker.select_convs(1) tracker.surjective tracker.update_convs(2,3))
  qed (use D assms(2,3) in \<open>auto simp: overflow_add split: if_splits\<close>)
next
  case (Some i)
  note D = tk_invD [OF assms(1)]
  from Some assms(4) have tk': "tk' = tk\<lparr>tk_slots := (tk_slots tk)[i := ts]\<rparr>" "slot = int i" by (simp_all add: tk_Acquire_def)
  have i: "tk_slots tk ! i = 0" "i < kSlots" using Some by (auto simp: find_Some_iff kSlots_def)
  have free: "held t' \<noteq> Some (int i, ts')" for t' ts' using D(4) [of t' "int i" ts'] i(1) by auto
  show ?thesis unfolding tk'
  proof (rule tk_invI)
    fix j assume j: "j < kSlots" "tk_slots (tk\<lparr>tk_slots := (tk_slots tk)[i := ts]\<rparr>) ! j \<noteq> 0"
    show "\<exists>t' ts'. (held(t \<mapsto> (int i, ts))) t' = Some (int j, ts')"
    proof (cases "j = i")
      case False
      then obtain t' ts' where "held t' = Some (int j, ts')" using D(6) [OF j(1)] j by auto
      moreover from this have "t' \<noteq> t" using assms(2) by auto
      ultimately show ?thesis by auto
    qed auto
  next
    fix t' sl ts' assume h: "(held(t \<mapsto> (int i, ts))) t' = Some (sl, ts')"
    show "ts' \<noteq> 0 \<and> (sl = -1 \<or> 0 \<le> sl \<and> nat sl < kSlots \<and> tk_slots (tk\<lparr>tk_slots := (tk_slots tk)[i := ts]\<rparr>) ! nat sl = ts')"
    proof (cases "t' = t")
      case True
      with h i D(1) assms(3) show ?thesis by auto
    next
      case False
      then have h': "held t' = Some (sl, ts')" using h by simp
      then have "0 \<le> sl \<Longrightarrow> nat sl \<noteq> i" using free [of t' ts'] by auto
      with D(4) [OF h'] show ?thesis by auto
    qed
  next
    fix t1 t2 sl ts1 ts2
    assume "(held(t \<mapsto> (int i, ts))) t1 = Some (sl, ts1)" "(held(t \<mapsto> (int i, ts))) t2 = Some (sl, ts2)" "0 \<le> sl"
    then show "t1 = t2" using D(5) free by (auto split: if_splits)
  qed (use D assms(2) in \<open>auto simp: overflow_keep\<close>)
qed

lemma tk_inv_release:
  assumes "tk_inv tk held" and "held t = Some (slot, ts)"
  shows "tk_inv (tk_Release ts slot tk) (held(t := None))"
proof (cases "0 \<le> slot")
  case True
  note D = tk_invD [OF assms(1)]
  have s: "nat slot < kSlots" "tk_slots tk ! nat slot = ts" using D(4) [OF assms(2)] True by auto
  have r: "tk_Release ts slot tk = tk\<lparr>tk_slots := (tk_slots tk)[nat slot := 0]\<rparr>" using True by (simp add: tk_Release_def)
  show ?thesis unfolding r
  proof (rule tk_invI)
    fix j assume j: "j < kSlots" "tk_slots (tk\<lparr>tk_slots := (tk_slots tk)[nat slot := 0]\<rparr>) ! j \<noteq> 0"
    then have "j \<noteq> nat slot" using D(1) by (auto simp: nth_list_update)
    with j D(6) [OF j(1)] obtain t' ts' where h: "held t' = Some (int j, ts')" by auto
    then have "t' \<noteq> t" using \<open>j \<noteq> nat slot\<close> assms(2) by auto
    with h show "\<exists>t' ts'. (held(t := None)) t' = Some (int j, ts')" by auto
  next
    fix t' sl ts' assume h: "(held(t := None)) t' = Some (sl, ts')"
    then have h': "held t' = Some (sl, ts')" "t' \<noteq> t" by (auto split: if_splits)
    then have "0 \<le> sl \<Longrightarrow> nat sl \<noteq> nat slot" using D(5) [OF h'(1), of t ts] assms(2) True by (metis int_nat_eq)
    with D(4) [OF h'(1)] show "ts' \<noteq> 0 \<and> (sl = -1 \<or> 0 \<le> sl \<and> nat sl < kSlots \<and> tk_slots (tk\<lparr>tk_slots := (tk_slots tk)[nat slot := 0]\<rparr>) ! nat sl = ts')"
      by auto
  next
    fix t1 t2 sl ts1 ts2
    assume "(held(t := None)) t1 = Some (sl, ts1)" "(held(t := None)) t2 = Some (sl, ts2)" "0 \<le> sl"
    then show "t1 = t2" using D(5) by (auto split: if_splits)
  next
    show "tk_active (tk\<lparr>tk_slots := (tk_slots tk)[nat slot := 0]\<rparr>) = overflow (held(t := None))"
      using D(7) overflow_keep [of held t slot None] assms(2) True by simp
  qed (use D in auto)
next
  case False
  note D = tk_invD [OF assms(1)]
  have s: "slot = -1" using D(4) [OF assms(2)] False by auto
  have o: "overflow held = add_mset ts (overflow (held(t := None)))" using overflow_remove assms(2) D(2) s by simp
  show ?thesis
  proof (rule tk_invI)
    show "tk_active (tk_Release ts slot tk) = overflow (held(t := None))" using s o D(7) by (simp add: tk_Release_def Let_def)
    show "tk_active (tk_Release ts slot tk) \<noteq> {#} \<Longrightarrow> tk_fallback (tk_Release ts slot tk)"
      using s o D(3,7) by (simp add: tk_Release_def Let_def)
    fix j assume "j < kSlots" "tk_slots (tk_Release ts slot tk) ! j \<noteq> 0"
    then obtain t' ts' where h: "held t' = Some (int j, ts')" using D(6) [of j] s by (auto simp: tk_Release_def Let_def)
    then have "t' \<noteq> t" using assms(2) s by auto
    with h show "\<exists>t' ts'. (held(t := None)) t' = Some (int j, ts')" by auto
  next
    fix t' sl ts' assume "(held(t := None)) t' = Some (sl, ts')"
    then show "ts' \<noteq> 0 \<and> (sl = -1 \<or> 0 \<le> sl \<and> nat sl < kSlots \<and> tk_slots (tk_Release ts slot tk) ! nat sl = ts')"
      using D(4) [of t' sl ts'] s by (auto simp: tk_Release_def Let_def split: if_splits)
  next
    fix t1 t2 sl ts1 ts2
    assume "(held(t := None)) t1 = Some (sl, ts1)" "(held(t := None)) t2 = Some (sl, ts2)" "0 \<le> sl"
    then show "t1 = t2" using D(5) by (auto split: if_splits)
  qed (use D s in \<open>auto simp: tk_Release_def Let_def\<close>)
qed

lemma tk_reach_inv: "tk_reach tk held \<Longrightarrow> tk_inv tk held"
proof (induction rule: tk_reach.induct)
  case start
  show ?case by (simp add: tk_inv_def tk_new_def)
next
  case (acquire tk held t ts st tk' slot)
  then show ?case by (intro tk_inv_acquire)
next
  case (release tk held t slot ts)
  then show ?case by (intro tk_inv_release)
qed

lemma tk_min_bounds:
  assumes "tk_inv tk held"
  shows "held t = Some (slot, ts) \<Longrightarrow> tk_MinActiveTS tk \<le> ts"
    "tk_MinActiveTS tk = -1 \<or> (\<exists>t slot. held t = Some (slot, tk_MinActiveTS tk))"
proof -
  note D = tk_invD [OF assms]
  let ?m = "fold min_slot (tk_slots tk) (-1)"
  have act: "ts \<in># tk_active tk \<longleftrightarrow> (\<exists>t. held t = Some (-1, ts))" for ts
  proof -
    have "finite {t. \<exists>ts. held t = Some (-1, ts)}" using D(2) by (rule finite_subset [rotated]) auto
    then show ?thesis unfolding D(7) overflow_def by (auto simp: image_iff)
  qed
  have m: "tk_MinActiveTS tk \<le> ?m" "x \<in># tk_active tk \<Longrightarrow> tk_MinActiveTS tk \<le> x" for x
    using D(3) Min_le [of "set_mset (tk_active tk)" x]
    by (cases "tk_active tk = {#}"; auto simp: tk_MinActiveTS_def Let_def not_less intro: order_trans)+
  show "held t = Some (slot, ts) \<Longrightarrow> tk_MinActiveTS tk \<le> ts"
  proof -
    assume h: "held t = Some (slot, ts)"
    show ?thesis
    proof (cases "slot = -1")
      case True
      with h act m(2) show ?thesis by blast
    next
      case False
      with D(1) D(4) [OF h] have "ts \<in> set (tk_slots tk)" "ts \<noteq> 0" by (auto simp: in_set_conv_nth)
      with fold_min_slot(2) [of ts "tk_slots tk" "-1"] m(1) show ?thesis by (auto intro: order_trans)
    qed
  qed
  have "tk_MinActiveTS tk = ?m \<or> tk_MinActiveTS tk \<in># tk_active tk"
    using Min_in [of "set_mset (tk_active tk)"] by (auto simp: tk_MinActiveTS_def Let_def)
  moreover have "?m = -1 \<or> (\<exists>t slot. held t = Some (slot, ?m))"
  proof (cases "?m = -1")
    case False
    with fold_min_slot(3) [of "tk_slots tk" "-1"] obtain i where "i < kSlots" "tk_slots tk ! i = ?m" "?m \<noteq> 0"
      using D(1) by (auto simp: in_set_conv_nth)
    moreover from this obtain t ts where "held t = Some (int i, ts)" using D(6) by metis
    ultimately show ?thesis using D(4) [of t "int i" ts] by auto
  qed simp
  ultimately show "tk_MinActiveTS tk = -1 \<or> (\<exists>t slot. held t = Some (slot, tk_MinActiveTS tk))"
    using act by metis
qed

section \<open>Properties\<close>

text \<open>
  with one tracker, in every order of acquisitions and releases by any number of readers, \<open>MinActiveTS\<close> is at or below the
  snapshot of every reader, and is the snapshot of a reader or, if nobody reads, the greatest number.
\<close>
theorem tracker_min_is_exact:
  assumes "tk_reach tk held"
  shows "(\<forall>t slot ts. held t = Some (slot, ts) \<longrightarrow> tk_MinActiveTS tk \<le> ts)
    \<and> (tk_MinActiveTS tk = -1 \<or> (\<exists>t slot. held t = Some (slot, tk_MinActiveTS tk)))"
  using tk_min_bounds [OF tk_reach_inv [OF assms]] by blast

theorem tracker_min_is_exact_witness: "tk_MinActiveTS (fst (tk_Acquire 3 5 tk_new)) \<le> 5"
proof -
  have "tk_reach (fst (tk_Acquire 3 5 tk_new)) ((\<lambda>_. None)(0 \<mapsto> (snd (tk_Acquire 3 5 tk_new), 5)))"
    by (rule tk_reach.acquire [OF tk_reach.start]) simp_all
  from conjunct1 [OF tracker_min_is_exact [OF this], rule_format, of 0 "snd (tk_Acquire 3 5 tk_new)" 5] show ?thesis by simp
qed

lemma tk_Acquire_first:
  "s < kSlots \<Longrightarrow> tk_slots tk ! s = 0 \<Longrightarrow> tk_Acquire s ts tk = (tk\<lparr>tk_slots := (tk_slots tk)[s := ts]\<rparr>, int s)"
  by (simp add: tk_Acquire_def kSlots_def upt_rec [of 0])

lemma tk_Acquire_second:
  "s < kSlots \<Longrightarrow> tk_slots tk ! s \<noteq> 0 \<Longrightarrow> tk_slots tk ! ((s + 1) mod kSlots) = 0
   \<Longrightarrow> tk_Acquire s ts tk = (tk\<lparr>tk_slots := (tk_slots tk)[(s + 1) mod kSlots := ts]\<rparr>, int ((s + 1) mod kSlots))"
  by (simp add: tk_Acquire_def kSlots_def upt_rec [of 0] upt_rec [of "Suc 0"])

lemma tk_min_single:
  assumes "tk_slots tk = (replicate kSlots 0)[i := ts]" and "i < kSlots" and "ts \<noteq> 0" and "tk_active tk = {#}"
  shows "tk_MinActiveTS tk = ts"
proof -
  have "set (tk_slots tk) \<subseteq> {ts, 0}" "ts \<in> set (tk_slots tk)"
    using assms(1,2) set_update_subset_insert [of "replicate kSlots 0" i ts] by (auto simp: set_update_memI)
  then have "fold min_slot (tk_slots tk) (-1) = ts"
    using fold_min_slot(2) [of ts "tk_slots tk" "-1"] fold_min_slot(3) [of "tk_slots tk" "-1"] word_n1_ge [of ts] assms(3) by (auto dest: antisym)
  with assms(4) show ?thesis by (simp add: tk_MinActiveTS_def)
qed

text \<open>
  the engine's \<open>Lookup\<close> acquires its snapshot in the tracker of the memtables, then in the tracker of the tables,
  and then releases the former, with the slot of the latter. When two readers hash to the same slot, the second one so
  frees the slot of the first, whose older snapshot \<open>tb\<close> is no longer protected, and leaves its own slot taken after both have finished.
\<close>
theorem tracker_release_frees_other_reader:
  assumes "s < kSlots" and "0 < tb" and "tb < ta"
    and "tk_Acquire s tb tk_new = (tk1, slotB)" and "tk_Acquire s ta tk1 = (tk2, slotA)"
    and "tk_Acquire s ta tk_new = (sst, slotS)"
  shows "tk_MinActiveTS (tk_Release ta slotS tk2) = ta
    \<and> tk_MinActiveTS (tk_Release tb slotB (tk_Release ta slotS (tk_Release ta slotS tk2))) = ta"
proof -
  let ?n = "(s + 1) mod kSlots" and ?z = "replicate kSlots (0 :: u64)"
  have n: "?n < kSlots" "?n \<noteq> s" using assms(1) by (auto simp: kSlots_def mod_Suc)
  have tk1: "tk1 = tk_new\<lparr>tk_slots := ?z[s := tb]\<rparr>" "slotB = int s" "slotS = int s"
    using assms(4,6) tk_Acquire_first [of s tk_new] assms(1) by (auto simp: tk_new_def)
  have "tk2 = tk1\<lparr>tk_slots := ?z[s := tb, ?n := ta]\<rparr>"
    using assms(5) tk_Acquire_second [of s tk1 ta] assms(1,2) n tk1(1) by (auto simp: word_gt_0)
  moreover have "?z[s := tb, ?n := ta, s := 0] = ?z[?n := ta]"
    using n(2) assms(1) by (metis list_update_id list_update_overwrite list_update_swap nth_replicate)
  ultimately have r: "tk_Release ta slotS tk2 = tk_new\<lparr>tk_slots := ?z[?n := ta]\<rparr>"
    using tk1 by (simp add: tk_Release_def)
  have "?z[?n := ta, s := 0] = ?z[?n := ta]" using n assms(1) by (metis list_update_id nth_list_update_neq nth_replicate)
  then have r2: "tk_Release x slotS (tk_new\<lparr>tk_slots := ?z[?n := ta]\<rparr>) = tk_new\<lparr>tk_slots := ?z[?n := ta]\<rparr>" for x
    using tk1 by (simp add: tk_Release_def)
  have "tk_MinActiveTS (tk_new\<lparr>tk_slots := ?z[?n := ta]\<rparr>) = ta"
    using n(1) assms(3) by (intro tk_min_single [where i = ?n]) (auto simp: tk_new_def)
  then show ?thesis unfolding r using r2 tk1 by simp
qed

theorem tracker_release_frees_other_reader_witness:
  "tk_MinActiveTS (tk_Release 9 (snd (tk_Acquire 3 9 tk_new)) (fst (tk_Acquire 3 9 (fst (tk_Acquire 3 4 tk_new))))) = 9"
  using tracker_release_frees_other_reader [of 3 4 9 "fst (tk_Acquire 3 4 tk_new)" "snd (tk_Acquire 3 4 tk_new)"
      "fst (tk_Acquire 3 9 (fst (tk_Acquire 3 4 tk_new)))" "snd (tk_Acquire 3 9 (fst (tk_Acquire 3 4 tk_new)))"
      "fst (tk_Acquire 3 9 tk_new)" "snd (tk_Acquire 3 9 tk_new)"]
  by (simp add: kSlots_def)

end
