(* ===== verification/Page_Reclaim.thy ===== *)
theory Page_Reclaim
  imports Snp_Tracker
begin

text \<open>
  The pages of a memtable's tree (\<open>BPlusTree\<close> in \<^verbatim>\<open>include/kvdb/bptree.hpp\<close>): an insertion writes new pages and retires the ones they replace with the
  current timestamp as their fence, or, in a tree without a source of timestamps, with a counter of its own; \<open>DrainRetired\<close> frees retired pages whose fence lies below the snapshots of all readers, and keeps leaf pages in a pool for
  reuse. A page is a number; the contents of the pages are the subject of \<open>Bptree\<close>. The buffers of \<open>DrainRetiredWithFence\<close> and the pool are arrays of
  fixed size without bound checks: a write outside them is the result \<open>None\<close>.
\<close>

section \<open>Operations\<close>

definition kRetiredDrainBufSize :: nat where "kRetiredDrainBufSize = 64"
definition kMaxBTreeDepth :: nat where "kMaxBTreeDepth = 4"
definition kRetiredDrainThreshold :: nat where "kRetiredDrainThreshold = kRetiredDrainBufSize - kMaxBTreeDepth"
definition kLeafPoolSize :: nat where "kLeafPoolSize = 64"

record retired =
  rt_page :: nat
  rt_internal :: bool
  rt_fence :: u64

text \<open>
  \<open>pg_fresh\<close> is the next page of the allocator; \<open>pg_fenced\<close>: the tree was created with a pointer \<^verbatim>\<open>fence_source\<close> (the engine gives \<^verbatim>\<open>&global_ts_\<close> to all memtables
  but the first).
\<close>

record pages =
  pg_pending :: "retired list"
  pg_pool :: "nat list"
  pg_leaves :: "nat list"
  pg_nodes :: "nat list"
  pg_fresh :: nat
  pg_fenced :: bool
  pg_retire_seq :: u64

definition pg_NewLeaf :: "pages \<Rightarrow> pages \<times> nat" where
  "pg_NewLeaf pg =
     (if pg_pool pg \<noteq> [] then (pg\<lparr>pg_pool := butlast (pg_pool pg)\<rparr>, last (pg_pool pg))
      else (pg\<lparr>pg_leaves := pg_leaves pg @ [pg_fresh pg], pg_fresh := pg_fresh pg + 1\<rparr>, pg_fresh pg))"

definition pg_NewInternal :: "pages \<Rightarrow> pages \<times> nat" where
  "pg_NewInternal pg = (pg\<lparr>pg_nodes := pg_nodes pg @ [pg_fresh pg], pg_fresh := pg_fresh pg + 1\<rparr>, pg_fresh pg)"

text \<open>The constructor: an empty leaf under a root.\<close>

definition pg_new :: "bool \<Rightarrow> pages" where
  "pg_new fenced = fst (pg_NewInternal (fst (pg_NewLeaf
     \<lparr>pg_pending = [], pg_pool = [], pg_leaves = [], pg_nodes = [], pg_fresh = 0, pg_fenced = fenced, pg_retire_seq = 1\<rparr>)))"

text \<open>\<open>source\<close> is what \<^verbatim>\<open>fence_source_->load()\<close> gives.\<close>

definition pg_fence :: "u64 \<Rightarrow> pages \<Rightarrow> pages \<times> u64" where
  "pg_fence source pg = (if pg_fenced pg then (pg, source) else (pg\<lparr>pg_retire_seq := pg_retire_seq pg + 1\<rparr>, pg_retire_seq pg + 1))"

definition pg_RetireLeaf :: "u64 \<Rightarrow> nat \<Rightarrow> pages \<Rightarrow> pages" where
  "pg_RetireLeaf source leaf pg =
     (case pg_fence source pg of (pg1, f) \<Rightarrow> pg1\<lparr>pg_pending := pg_pending pg1 @ [\<lparr>rt_page = leaf, rt_internal = False, rt_fence = f\<rparr>]\<rparr>)"

definition pg_RetireNode :: "u64 \<Rightarrow> nat \<Rightarrow> pages \<Rightarrow> pages" where
  "pg_RetireNode source n pg =
     (case pg_fence source (pg\<lparr>pg_nodes := remove1 n (pg_nodes pg)\<rparr>) of
        (pg1, f) \<Rightarrow> pg1\<lparr>pg_pending := pg_pending pg1 @ [\<lparr>rt_page = n, rt_internal = True, rt_fence = f\<rparr>]\<rparr>)"

definition pg_DrainRetiredWithFence :: "u64 \<Rightarrow> pages \<Rightarrow> pages option" where
  "pg_DrainRetiredWithFence min_ts pg =
     (let ready = filter (\<lambda>r. min_ts > rt_fence r) (pg_pending pg); keep = filter (\<lambda>r. \<not> min_ts > rt_fence r) (pg_pending pg);
          leaves = map rt_page (filter (\<lambda>r. \<not> rt_internal r) ready); pool = pg_pool pg @ take kRetiredDrainBufSize leaves
      in if length keep > kRetiredDrainBufSize \<or> length leaves > kRetiredDrainBufSize \<or> length pool > kLeafPoolSize then None
         else Some (pg\<lparr>pg_pending := keep, pg_leaves := filter (\<lambda>p. p \<notin> set leaves) (pg_leaves pg), pg_pool := take kLeafPoolSize pool\<rparr>))"

definition pg_DrainRetired :: "u64 \<Rightarrow> pages \<Rightarrow> pages option" where
  "pg_DrainRetired min_ts pg =
     (if length (pg_pending pg) < kRetiredDrainThreshold then Some pg else pg_DrainRetiredWithFence min_ts pg)"

text \<open>The destructor, when the last reader has left: every retired page goes, and then the pool.\<close>

definition pg_DrainAllRetired :: "pages \<Rightarrow> pages option" where
  "pg_DrainAllRetired pg = map_option (\<lambda>pg. pg\<lparr>pg_pool := []\<rparr>) (pg_DrainRetiredWithFence (-1) pg)"

text \<open>At its end \<open>Insert\<close> drains a tree without a source of timestamps, without a look at the readers.\<close>

definition pg_own_drain :: "pages \<Rightarrow> pages option" where
  "pg_own_drain pg = (if pg_fenced pg then Some pg else pg_DrainRetired (-1) pg)"

text \<open>
  The pages that \<open>Insert\<close> takes and retires: without a split one leaf for another; with a split (\<open>SplitCoW\<close>) the first copy, two halves and \<open>k\<close> new inner nodes for the old
  leaf and at most one inner node. The pages that were taken come with the result.
\<close>

definition pg_insert :: "u64 \<Rightarrow> nat \<Rightarrow> pages \<Rightarrow> (pages \<times> nat set) option" where
  "pg_insert source old pg = (case pg_NewLeaf pg of (pg1, n) \<Rightarrow> map_option (\<lambda>pg2. (pg2, {n})) (pg_own_drain (pg_RetireLeaf source old pg1)))"

primrec pg_inner :: "nat \<Rightarrow> pages \<Rightarrow> pages \<times> nat set" where
  "pg_inner 0 pg = (pg, {})"
| "pg_inner (Suc k) pg = (case pg_NewInternal pg of (pg1, n) \<Rightarrow> apsnd (insert n) (pg_inner k pg1))"

definition pg_split :: "u64 \<Rightarrow> nat \<Rightarrow> nat \<Rightarrow> nat option \<Rightarrow> pages \<Rightarrow> (pages \<times> nat set) option" where
  "pg_split source old k node pg =
     (case pg_NewLeaf pg of (pg1, a) \<Rightarrow> case pg_NewLeaf pg1 of (pg2, b) \<Rightarrow> case pg_NewLeaf pg2 of (pg3, c) \<Rightarrow> case pg_inner k pg3 of (pg4, ns) \<Rightarrow>
        map_option (\<lambda>pg5. (pg5, {a, b, c} \<union> ns))
          (pg_own_drain (pg_RetireLeaf source old (case node of None \<Rightarrow> pg4 | Some n \<Rightarrow> pg_RetireNode source n pg4))))"

section \<open>The fixed-size buffers\<close>

text \<open>
  The writer of the engine: after each insertion it drains until fewer pages than the threshold are pending (\<open>Insert\<close>, \<open>Delete\<close>, \<open>BatchInsert\<close> and \<open>BatchDelete\<close> in
  \<^verbatim>\<open>src/engine.cpp\<close>), with any answers of \<open>MinActiveTS\<close>.
\<close>

inductive pg_reach :: "pages \<Rightarrow> bool" where
  start: "pg_reach (pg_new fenced)"
| insert: "pg_reach pg \<Longrightarrow> length (pg_pending pg) < kRetiredDrainThreshold \<Longrightarrow> pg_insert source old pg = Some (pg', new) \<Longrightarrow> pg_reach pg'"
| split: "pg_reach pg \<Longrightarrow> length (pg_pending pg) < kRetiredDrainThreshold \<Longrightarrow> pg_split source old k node pg = Some (pg', new) \<Longrightarrow> pg_reach pg'"
| drain: "pg_reach pg \<Longrightarrow> pg_DrainRetired min_ts pg = Some pg' \<Longrightarrow> pg_reach pg'"

definition pending_leaves :: "pages \<Rightarrow> nat" where
  "pending_leaves pg = length (filter (\<lambda>r. \<not> rt_internal r) (pg_pending pg))"

definition pg_bounded :: "pages \<Rightarrow> bool" where
  "pg_bounded pg \<longleftrightarrow> length (pg_pending pg) \<le> kRetiredDrainThreshold + 1 \<and> length (pg_pool pg) + pending_leaves pg \<le> kRetiredDrainThreshold"

lemmas pg_consts = kRetiredDrainBufSize_def kMaxBTreeDepth_def kRetiredDrainThreshold_def kLeafPoolSize_def

lemma pg_NewLeaf_sizes:
  "pg_NewLeaf pg = (pg', n) \<Longrightarrow> pg_pending pg' = pg_pending pg \<and> length (pg_pool pg') = length (pg_pool pg) - 1"
  by (auto simp: pg_NewLeaf_def split: if_splits)

lemma pg_inner_fields: "pg_inner k pg = (pg', ns) \<Longrightarrow> pg_pending pg' = pg_pending pg \<and> pg_pool pg' = pg_pool pg"
  by (induction k arbitrary: pg ns) (auto simp: pg_NewInternal_def apsnd_def map_prod_def split: prod.splits)

lemma pending_leaves_le: "pending_leaves pg \<le> length (pg_pending pg)"
  by (simp add: pending_leaves_def)

lemma pg_bounded_retire:
  assumes "length (pg_pool pg') = length (pg_pool pg) - Suc j" and "pg_pending pg' = pg_pending pg @ ns @ [r]" and "list_all rt_internal ns" and "length ns \<le> 1"
    and "pg_bounded pg" and "length (pg_pending pg) < kRetiredDrainThreshold"
  shows "pg_bounded pg'"
proof -
  have "filter (\<lambda>r. \<not> rt_internal r) ns = []" using assms(3) by (simp add: filter_empty_conv list_all_iff)
  then have "pending_leaves pg' \<le> pending_leaves pg + 1" using assms(2) by (simp add: pending_leaves_def)
  moreover have "pending_leaves pg < kRetiredDrainThreshold" using pending_leaves_le [of pg] assms(6) by simp
  ultimately show ?thesis using assms by (simp add: pg_bounded_def)
qed

lemma length_filter_split: "length (filter P xs) + length (filter (\<lambda>x. \<not> P x) xs) = length xs"
  by (induction xs) simp_all

lemma pg_drain_bounded:
  assumes "pg_bounded pg"
  shows "\<exists>pg'. pg_DrainRetiredWithFence min_ts pg = Some pg' \<and> pg_bounded pg'"
proof -
  define ready keep where "ready = filter (\<lambda>r. min_ts > rt_fence r) (pg_pending pg)" and "keep = filter (\<lambda>r. \<not> min_ts > rt_fence r) (pg_pending pg)"
  define leaves where "leaves = map rt_page (filter (\<lambda>r. \<not> rt_internal r) ready)"
  have k: "length keep \<le> length (pg_pending pg)" by (simp add: keep_def)
  have "length leaves + length (filter (\<lambda>r. \<not> rt_internal r) keep) = pending_leaves pg"
    using length_filter_split [of "\<lambda>r. min_ts > rt_fence r" "filter (\<lambda>r. \<not> rt_internal r) (pg_pending pg)"]
    by (simp add: leaves_def ready_def keep_def pending_leaves_def filter_filter conj_commute)
  then have l: "length (pg_pool pg) + length leaves + length (filter (\<lambda>r. \<not> rt_internal r) keep) \<le> 60" "length keep \<le> 61"
    using assms k by (simp_all add: pg_bounded_def pg_consts)
  then have "pg_DrainRetiredWithFence min_ts pg = Some (pg\<lparr>pg_pending := keep, pg_leaves := filter (\<lambda>p. p \<notin> set leaves) (pg_leaves pg), pg_pool := pg_pool pg @ leaves\<rparr>)"
    unfolding pg_DrainRetiredWithFence_def Let_def ready_def [symmetric] keep_def [symmetric] leaves_def [symmetric] by (simp add: pg_consts del: length_map)
  then show ?thesis using l by (simp add: pg_bounded_def pending_leaves_def pg_consts)
qed

lemma pg_own_drain_bounded:
  assumes "pg_bounded pg"
  shows "\<exists>pg'. pg_own_drain pg = Some pg' \<and> pg_bounded pg'"
  using pg_drain_bounded [OF assms, of "-1"] assms by (auto simp: pg_own_drain_def pg_DrainRetired_def)

lemma pg_fence_fields:
  "pg_fence source pg = (pg', f) \<Longrightarrow> pg_pending pg' = pg_pending pg \<and> pg_pool pg' = pg_pool pg \<and> pg_fresh pg' = pg_fresh pg \<and> pg_fenced pg' = pg_fenced pg
    \<and> (pg_fenced pg \<longrightarrow> f = source)"
  by (auto simp: pg_fence_def split: if_splits)

text \<open>Retiring adds one page to the pending ones; its fence is the given timestamp in a tree with a source.\<close>

lemma pg_Retire_fields:
  "\<exists>f. pg_pending (pg_RetireLeaf source p pg) = pg_pending pg @ [\<lparr>rt_page = p, rt_internal = False, rt_fence = f\<rparr>] \<and> (pg_fenced pg \<longrightarrow> f = source)"
  "\<exists>f. pg_pending (pg_RetireNode source p pg) = pg_pending pg @ [\<lparr>rt_page = p, rt_internal = True, rt_fence = f\<rparr>] \<and> (pg_fenced pg \<longrightarrow> f = source)"
  "pg_pool (pg_RetireLeaf source p pg) = pg_pool pg" "pg_pool (pg_RetireNode source p pg) = pg_pool pg"
  "pg_fresh (pg_RetireLeaf source p pg) = pg_fresh pg" "pg_fresh (pg_RetireNode source p pg) = pg_fresh pg"
  "pg_fenced (pg_RetireLeaf source p pg) = pg_fenced pg" "pg_fenced (pg_RetireNode source p pg) = pg_fenced pg"
  by (auto simp: pg_RetireLeaf_def pg_RetireNode_def pg_fence_def)

lemma pg_insert_bounded:
  assumes "pg_bounded pg" and "length (pg_pending pg) < kRetiredDrainThreshold"
  shows "\<exists>pg' new. pg_insert source old pg = Some (pg', new) \<and> pg_bounded pg'"
proof -
  obtain pg1 n where n: "pg_NewLeaf pg = (pg1, n)" by fastforce
  obtain f where "pg_pending (pg_RetireLeaf source old pg1) = pg_pending pg1 @ [\<lparr>rt_page = old, rt_internal = False, rt_fence = f\<rparr>]"
    using pg_Retire_fields(1) [of source old pg1] by blast
  then have "pg_bounded (pg_RetireLeaf source old pg1)" using pg_NewLeaf_sizes [OF n] assms(1,2)
    by (intro pg_bounded_retire [of "pg_RetireLeaf source old pg1" pg 0 "[]"]) (simp_all add: pg_Retire_fields(3))
  from pg_own_drain_bounded [OF this] n show ?thesis by (auto simp: pg_insert_def)
qed

lemma pg_split_bounded:
  assumes "pg_bounded pg" and "length (pg_pending pg) < kRetiredDrainThreshold"
  shows "\<exists>pg' new. pg_split source old k node pg = Some (pg', new) \<and> pg_bounded pg'"
proof -
  obtain pg1 a pg2 b pg3 c pg4 ns where st: "pg_NewLeaf pg = (pg1, a)" "pg_NewLeaf pg1 = (pg2, b)" "pg_NewLeaf pg2 = (pg3, c)" "pg_inner k pg3 = (pg4, ns)"
    by (metis surj_pair)
  have q: "pg_pending pg4 = pg_pending pg" "length (pg_pool pg4) = length (pg_pool pg) - 3"
    using pg_NewLeaf_sizes [OF st(1)] pg_NewLeaf_sizes [OF st(2)] pg_NewLeaf_sizes [OF st(3)] pg_inner_fields [OF st(4)] by simp_all
  let ?pg5 = "case node of None \<Rightarrow> pg4 | Some n \<Rightarrow> pg_RetireNode source n pg4"
  obtain rs where rs: "pg_pending ?pg5 = pg_pending pg @ rs" "list_all rt_internal rs" "length rs \<le> 1" "pg_pool ?pg5 = pg_pool pg4"
  proof (cases node)
    case (Some n)
    then show ?thesis using that pg_Retire_fields(2) [of source n pg4] by (auto simp: q pg_Retire_fields(3,4))
  qed (use that [of "[]"] q in simp)
  obtain f where "pg_pending (pg_RetireLeaf source old ?pg5) = pg_pending ?pg5 @ [\<lparr>rt_page = old, rt_internal = False, rt_fence = f\<rparr>]"
    using pg_Retire_fields(1) [of source old ?pg5] by blast
  then have "pg_bounded (pg_RetireLeaf source old ?pg5)"
    using rs q assms by (intro pg_bounded_retire [of "pg_RetireLeaf source old ?pg5" pg 2 rs]) (simp_all add: pg_Retire_fields(3))
  from pg_own_drain_bounded [OF this] st show ?thesis by (auto simp: pg_split_def)
qed

lemma pg_reach_bounded: "pg_reach pg \<Longrightarrow> pg_bounded pg"
proof (induction rule: pg_reach.induct)
  case (start fenced)
  show ?case by (simp add: pg_new_def pg_NewLeaf_def pg_NewInternal_def pg_bounded_def pending_leaves_def)
next
  case (insert pg source old pg' new)
  then show ?case using pg_insert_bounded [OF insert(4,2), of source old] by auto
next
  case (split pg source old k node pg' new)
  then show ?case using pg_split_bounded [OF split(4,2), of source old k node] by auto
next
  case (drain pg min_ts pg')
  then show ?case using pg_drain_bounded [OF drain(3), of min_ts] by (auto simp: pg_DrainRetired_def split: if_splits)
qed

section \<open>Readers\<close>

text \<open>
  The readers of the engine (\<open>Lookup\<close> and \<open>RangeScan\<close> in \<^verbatim>\<open>src/engine.cpp\<close>) and the writer on the tree of the active memtable. A reader loads the current timestamp, acquires it in the tracker of
  the memtables, follows pointers of the tree, acquires it in the tracker of the tables and releases it in the tracker of the memtables; at the end it releases it in the
  tracker of the tables, and \<open>Lookup\<close>, whose guard object is still alive, once more in the tracker of the memtables. All this goes through the one variable
  \<^verbatim>\<open>slot_\<close> of the thread. \<open>rc_seen\<close> are the pages that were part of the tree since the reader acquired its timestamp, which it may visit. \<open>start\<close> gives the hashes
  of the thread ids and \<open>T\<close> the threads that read. The writer replaces pages, with the timestamp as fence, and drains with the tracker's answer; \<open>MinActiveTS\<close> and the drain
  behind it are one step.
\<close>

datatype phase = Idle | Loaded u64 | Reading u64 | Handing u64 | Tables u64 | Leaving u64

record reclaim =
  rc_ts :: u64
  rc_tracker :: tracker
  rc_sst :: tracker
  rc_slot :: "nat \<Rightarrow> int"
  rc_phase :: "nat \<Rightarrow> phase"
  rc_pages :: pages
  rc_live :: "nat set"
  rc_seen :: "nat \<Rightarrow> nat set"

definition rc_swap :: "pages \<Rightarrow> nat set \<Rightarrow> nat set \<Rightarrow> reclaim \<Rightarrow> reclaim" where
  "rc_swap pg old new st = (let live = (rc_live st - old) \<union> new
     in st\<lparr>rc_pages := pg, rc_live := live, rc_seen := (\<lambda>t. rc_seen st t \<union> live)\<rparr>)"

abbreviation rc_to :: "nat \<Rightarrow> phase \<Rightarrow> reclaim \<Rightarrow> reclaim" where
  "rc_to t ph st \<equiv> st\<lparr>rc_phase := (rc_phase st)(t := ph)\<rparr>"

definition rc_start :: "bool \<Rightarrow> u64 \<Rightarrow> reclaim" where
  "rc_start fenced ts = \<lparr>rc_ts = ts, rc_tracker = tk_new, rc_sst = tk_new, rc_slot = (\<lambda>_. -2), rc_phase = (\<lambda>_. Idle), rc_pages = pg_new fenced, rc_live = {0, 1},
     rc_seen = (\<lambda>_. {})\<rparr>"

inductive rc_reach :: "bool \<Rightarrow> (nat \<Rightarrow> nat) \<Rightarrow> nat set \<Rightarrow> reclaim \<Rightarrow> bool" for fenced start T where
  created: "rc_reach fenced start T (rc_start fenced ts)"
| load: "rc_reach fenced start T st \<Longrightarrow> t \<in> T \<Longrightarrow> rc_phase st t = Idle \<Longrightarrow> rc_reach fenced start T (rc_to t (Loaded (rc_ts st)) st)"
| acquire: "rc_reach fenced start T st \<Longrightarrow> t \<in> T \<Longrightarrow> rc_phase st t = Loaded ts \<Longrightarrow> tk_Acquire (start t) ts (rc_tracker st) = (tk, slot)
    \<Longrightarrow> rc_reach fenced start T (rc_to t (Reading ts) (st\<lparr>rc_tracker := tk, rc_slot := (rc_slot st)(t := slot), rc_seen := (rc_seen st)(t := rc_live st)\<rparr>))"
| acquire_tables: "rc_reach fenced start T st \<Longrightarrow> t \<in> T \<Longrightarrow> rc_phase st t = Reading ts \<Longrightarrow> tk_Acquire (start t) ts (rc_sst st) = (tk, slot)
    \<Longrightarrow> rc_reach fenced start T (rc_to t (Handing ts) (st\<lparr>rc_sst := tk, rc_slot := (rc_slot st)(t := slot)\<rparr>))"
| release: "rc_reach fenced start T st \<Longrightarrow> t \<in> T \<Longrightarrow> rc_phase st t = Handing ts
    \<Longrightarrow> rc_reach fenced start T (rc_to t (Tables ts) (st\<lparr>rc_tracker := tk_Release ts (rc_slot st t) (rc_tracker st)\<rparr>))"
| release_tables: "rc_reach fenced start T st \<Longrightarrow> t \<in> T \<Longrightarrow> rc_phase st t = Tables ts \<Longrightarrow> ph \<in> {Idle, Leaving ts}
    \<Longrightarrow> rc_reach fenced start T (rc_to t ph (st\<lparr>rc_sst := tk_Release ts (rc_slot st t) (rc_sst st)\<rparr>))"
| release_again: "rc_reach fenced start T st \<Longrightarrow> t \<in> T \<Longrightarrow> rc_phase st t = Leaving ts
    \<Longrightarrow> rc_reach fenced start T (rc_to t Idle (st\<lparr>rc_tracker := tk_Release ts (rc_slot st t) (rc_tracker st)\<rparr>))"
| tick: "rc_reach fenced start T st \<Longrightarrow> rc_ts st \<le> ts \<Longrightarrow> rc_reach fenced start T (st\<lparr>rc_ts := ts\<rparr>)"
| insert: "rc_reach fenced start T st \<Longrightarrow> old \<in> rc_live st \<Longrightarrow> pg_insert (rc_ts st) old (rc_pages st) = Some (pg, new)
    \<Longrightarrow> rc_reach fenced start T (rc_swap pg {old} new st)"
| split: "rc_reach fenced start T st \<Longrightarrow> old \<in> rc_live st \<Longrightarrow> (\<And>n. node = Some n \<Longrightarrow> n \<in> rc_live st \<and> n \<noteq> old)
    \<Longrightarrow> pg_split (rc_ts st) old k node (rc_pages st) = Some (pg, new) \<Longrightarrow> rc_reach fenced start T (rc_swap pg (insert old (set_option node)) new st)"
| drain: "rc_reach fenced start T st \<Longrightarrow> pg_DrainRetired (tk_MinActiveTS (rc_tracker st)) (rc_pages st) = Some pg \<Longrightarrow> rc_reach fenced start T (st\<lparr>rc_pages := pg\<rparr>)"

text \<open>
  The invariant on the pages: a page is in at most one of the tree, the pending list (once) and the pool; and what a reader with a timestamp other than 0 may visit is in the tree or pending with
  a fence at or above its timestamp.
\<close>

definition pg_places :: "nat set \<Rightarrow> pages \<Rightarrow> bool" where
  "pg_places live pg \<longleftrightarrow> distinct (map rt_page (pg_pending pg) @ pg_pool pg) \<and> live \<inter> (rt_page ` set (pg_pending pg) \<union> set (pg_pool pg)) = {}
     \<and> (\<forall>p \<in> live \<union> rt_page ` set (pg_pending pg) \<union> set (pg_pool pg). p < pg_fresh pg)"

definition pg_guarded :: "u64 \<Rightarrow> nat set \<Rightarrow> pages \<Rightarrow> nat set" where
  "pg_guarded ts live pg = live \<union> {rt_page r | r. r \<in> set (pg_pending pg) \<and> ts \<le> rt_fence r}"

definition rc_guards :: "nat set \<Rightarrow> reclaim \<Rightarrow> bool" where
  "rc_guards T st \<longleftrightarrow> pg_fenced (rc_pages st) \<and> pg_places (rc_live st) (rc_pages st)
     \<and> (\<forall>t \<in> T. \<forall>ts. (rc_phase st t = Loaded ts \<longrightarrow> ts \<le> rc_ts st)
         \<and> (rc_phase st t = Reading ts \<longrightarrow> ts \<le> rc_ts st \<and> (ts \<noteq> 0 \<longrightarrow> rc_seen st t \<subseteq> pg_guarded ts (rc_live st) (rc_pages st))))"

text \<open>The invariant on a tracker: each thread has its timestamp, or 0, in the slot of its hash.\<close>

definition tk_homes :: "(nat \<Rightarrow> nat) \<Rightarrow> nat set \<Rightarrow> (nat \<Rightarrow> u64) \<Rightarrow> tracker \<Rightarrow> bool" where
  "tk_homes start T f tk \<longleftrightarrow> length (tk_slots tk) = kSlots \<and> tk_active tk = {#} \<and> (\<forall>t \<in> T. tk_slots tk ! (start t mod kSlots) = f t)"

primrec in_tree :: "phase \<Rightarrow> u64" where
  "in_tree Idle = 0" | "in_tree (Loaded ts) = 0" | "in_tree (Reading ts) = ts" | "in_tree (Handing ts) = ts" | "in_tree (Tables ts) = 0" | "in_tree (Leaving ts) = 0"

primrec in_tables :: "phase \<Rightarrow> u64" where
  "in_tables Idle = 0" | "in_tables (Loaded ts) = 0" | "in_tables (Reading ts) = 0" | "in_tables (Handing ts) = ts" | "in_tables (Tables ts) = ts" | "in_tables (Leaving ts) = 0"

definition rc_homes :: "(nat \<Rightarrow> nat) \<Rightarrow> nat set \<Rightarrow> reclaim \<Rightarrow> bool" where
  "rc_homes start T st \<longleftrightarrow> tk_homes start T (in_tree \<circ> rc_phase st) (rc_tracker st) \<and> tk_homes start T (in_tables \<circ> rc_phase st) (rc_sst st)
     \<and> (\<forall>t \<in> T. rc_phase st t = Idle \<or> (\<exists>ts. rc_phase st t = Loaded ts) \<or> rc_slot st t = int (start t mod kSlots))"

lemma tk_Acquire_home:
  "tk_slots tk ! (s mod kSlots) = 0 \<Longrightarrow> tk_Acquire s ts tk = (tk\<lparr>tk_slots := (tk_slots tk)[s mod kSlots := ts]\<rparr>, int (s mod kSlots))"
  by (simp add: tk_Acquire_def kSlots_def upt_rec [of 0])

lemma tk_homes_put:
  assumes "tk_homes start T f tk" and "inj_on (\<lambda>t. start t mod kSlots) T" and "t \<in> T"
  shows "tk_homes start T (f(t := ts)) (tk\<lparr>tk_slots := (tk_slots tk)[start t mod kSlots := ts]\<rparr>)"
  using assms by (auto simp: tk_homes_def kSlots_def nth_list_update dest: inj_onD)

lemma tk_homes_acquire:
  assumes "tk_homes start T f tk" and "inj_on (\<lambda>t. start t mod kSlots) T" and "t \<in> T" and "f t = 0" and "tk_Acquire (start t) ts tk = (tk', slot)"
  shows "tk_homes start T (f(t := ts)) tk' \<and> slot = int (start t mod kSlots)"
proof -
  have "tk_slots tk ! (start t mod kSlots) = 0" using assms(1,3,4) by (simp add: tk_homes_def)
  from tk_Acquire_home [OF this, of ts] assms(5) have "tk' = tk\<lparr>tk_slots := (tk_slots tk)[start t mod kSlots := ts]\<rparr>" "slot = int (start t mod kSlots)" by simp_all
  then show ?thesis using tk_homes_put [OF assms(1-3)] by simp
qed

lemma tk_homes_release:
  assumes "tk_homes start T f tk" and "inj_on (\<lambda>t. start t mod kSlots) T" and "t \<in> T"
  shows "tk_homes start T (f(t := 0)) (tk_Release ts (int (start t mod kSlots)) tk)"
  using tk_homes_put [OF assms, of 0] by (simp add: tk_Release_def)

lemma tk_homes_min:
  assumes "tk_homes start T f tk" and "t \<in> T" and "f t \<noteq> 0"
  shows "tk_MinActiveTS tk \<le> f t"
proof -
  have "f t \<in> set (tk_slots tk)" using assms(1,2) by (metis kSlots_def mod_less_divisor nth_mem tk_homes_def zero_less_numeral)
  from fold_min_slot(2) [OF this assms(3)] assms(1) show ?thesis by (simp add: tk_MinActiveTS_def tk_homes_def)
qed

lemma tk_homes_same: "tk_homes start T f tk \<Longrightarrow> f t = x \<Longrightarrow> tk_homes start T (f(t := x)) tk"
  by (simp add: fun_upd_idem)

lemma rc_homes_to:
  assumes "rc_homes start T st" and "tk_homes start T ((in_tree \<circ> rc_phase st)(t := in_tree ph)) tk" and "tk_homes start T ((in_tables \<circ> rc_phase st)(t := in_tables ph)) tk'"
    and "ph = Idle \<or> (\<exists>ts. ph = Loaded ts) \<or> slot = int (start t mod kSlots)"
  shows "rc_homes start T (rc_to t ph (st\<lparr>rc_tracker := tk, rc_sst := tk', rc_slot := (rc_slot st)(t := slot), rc_seen := seen\<rparr>))"
  using assms by (auto simp: rc_homes_def fun_upd_comp)

lemma rc_homesD:
  assumes "rc_homes start T st" and "t \<in> T"
  shows "tk_homes start T (in_tree \<circ> rc_phase st) (rc_tracker st)" "tk_homes start T (in_tables \<circ> rc_phase st) (rc_sst st)"
    "rc_phase st t = Idle \<or> (\<exists>ts. rc_phase st t = Loaded ts) \<or> rc_slot st t = int (start t mod kSlots)"
  using assms by (auto simp: rc_homes_def)

lemma rc_reach_homes:
  assumes "rc_reach fenced start T st" and "inj_on (\<lambda>t. start t mod kSlots) T"
  shows "rc_homes start T st"
  using assms(1)
proof (induction rule: rc_reach.induct)
  case (created ts)
  show ?case by (simp add: rc_homes_def rc_start_def tk_homes_def tk_new_def kSlots_def)
next
  case (load st t)
  note D = rc_homesD [OF load.IH load.hyps(2)]
  have "tk_homes start T ((in_tree \<circ> rc_phase st)(t := in_tree (Loaded (rc_ts st)))) (rc_tracker st)" "tk_homes start T ((in_tables \<circ> rc_phase st)(t := in_tables (Loaded (rc_ts st)))) (rc_sst st)"
    using D load.hyps by (auto intro!: tk_homes_same)
  from rc_homes_to [OF load.IH this, of "rc_slot st t" "rc_seen st"] show ?case by simp
next
  case (acquire st t ts tk slot)
  note D = rc_homesD [OF acquire.IH acquire.hyps(2)]
  have "tk_homes start T ((in_tree \<circ> rc_phase st)(t := in_tree (Reading ts))) tk" "slot = int (start t mod kSlots)"
    using tk_homes_acquire [OF D(1) assms(2) acquire.hyps(2) _ acquire.hyps(4)] acquire.hyps(3) by simp_all
  moreover have "tk_homes start T ((in_tables \<circ> rc_phase st)(t := in_tables (Reading ts))) (rc_sst st)"
    using D acquire.hyps by (auto intro!: tk_homes_same)
  ultimately show ?case using rc_homes_to [OF acquire.IH, of t "Reading ts" tk "rc_sst st" slot "(rc_seen st)(t := rc_live st)"] by simp
next
  case (acquire_tables st t ts tk slot)
  note D = rc_homesD [OF acquire_tables.IH acquire_tables.hyps(2)]
  have "tk_homes start T ((in_tables \<circ> rc_phase st)(t := in_tables (Handing ts))) tk" "slot = int (start t mod kSlots)"
    using tk_homes_acquire [OF D(2) assms(2) acquire_tables.hyps(2) _ acquire_tables.hyps(4)] acquire_tables.hyps(3) by simp_all
  moreover have "tk_homes start T ((in_tree \<circ> rc_phase st)(t := in_tree (Handing ts))) (rc_tracker st)"
    using D acquire_tables.hyps by (auto intro!: tk_homes_same)
  ultimately show ?case using rc_homes_to [OF acquire_tables.IH, of t "Handing ts" "rc_tracker st" tk slot "rc_seen st"] by simp
next
  case (release st t ts)
  note D = rc_homesD [OF release.IH release.hyps(2)]
  have sl: "rc_slot st t = int (start t mod kSlots)" using D(3) release.hyps(3) by simp
  have "tk_homes start T ((in_tree \<circ> rc_phase st)(t := in_tree (Tables ts))) (tk_Release ts (rc_slot st t) (rc_tracker st))"
    unfolding sl using tk_homes_release [OF D(1) assms(2) release.hyps(2)] by simp
  note A = this
  have "tk_homes start T ((in_tables \<circ> rc_phase st)(t := in_tables (Tables ts))) (rc_sst st)"
    using D release.hyps by (auto intro!: tk_homes_same)
  from rc_homes_to [OF release.IH A this disjI2 [OF disjI2 [OF sl]], of "rc_seen st"] show ?case by simp
next
  case (release_tables st t ts ph)
  note D = rc_homesD [OF release_tables.IH release_tables.hyps(2)]
  have sl: "rc_slot st t = int (start t mod kSlots)" using D(3) release_tables.hyps(3) by simp
  have "in_tables ph = 0" "in_tree ph = 0" using release_tables.hyps(4) by auto
  then have A: "tk_homes start T ((in_tables \<circ> rc_phase st)(t := in_tables ph)) (tk_Release ts (rc_slot st t) (rc_sst st))"
    "tk_homes start T ((in_tree \<circ> rc_phase st)(t := in_tree ph)) (rc_tracker st)"
    unfolding sl using tk_homes_release [OF D(2) assms(2) release_tables.hyps(2)] D release_tables.hyps by (auto intro!: tk_homes_same)
  from rc_homes_to [OF release_tables.IH A(2,1) disjI2 [OF disjI2 [OF sl]], of "rc_seen st"] show ?case by simp
next
  case (release_again st t ts)
  note D = rc_homesD [OF release_again.IH release_again.hyps(2)]
  have sl: "rc_slot st t = int (start t mod kSlots)" using D(3) release_again.hyps(3) by simp
  have "tk_homes start T ((in_tree \<circ> rc_phase st)(t := in_tree Idle)) (tk_Release ts (rc_slot st t) (rc_tracker st))"
    unfolding sl using tk_homes_release [OF D(1) assms(2) release_again.hyps(2)] by simp
  note A = this
  have "tk_homes start T ((in_tables \<circ> rc_phase st)(t := in_tables Idle)) (rc_sst st)"
    using D release_again.hyps by (auto intro!: tk_homes_same)
  from rc_homes_to [OF release_again.IH A this disjI2 [OF disjI2 [OF sl]], of "rc_seen st"] show ?case by simp
qed (simp_all add: rc_homes_def rc_swap_def Let_def)

text \<open>A page that is taken is in none of the places and joins the tree; a page that leaves the tree becomes pending.\<close>

lemma places_NewLeaf:
  assumes "pg_places live pg" and "pg_NewLeaf pg = (pg', n)"
  shows "pg_places (insert n live) pg' \<and> n \<notin> live \<and> pg_pending pg' = pg_pending pg"
proof (cases "pg_pool pg = []")
  case True
  with assms show ?thesis by (auto simp: pg_NewLeaf_def pg_places_def less_Suc_eq)
next
  case False
  then have p: "pg_pool pg = butlast (pg_pool pg) @ [last (pg_pool pg)]" by simp
  define xs x where "xs = butlast (pg_pool pg)" and "x = last (pg_pool pg)"
  have "pg_pool pg = xs @ [x]" using p unfolding xs_def x_def .
  with assms show ?thesis by (auto simp: pg_NewLeaf_def pg_places_def xs_def [symmetric] x_def [symmetric]) blast
qed

lemma places_inner:
  "pg_places live pg \<Longrightarrow> pg_inner k pg = (pg', ns) \<Longrightarrow> pg_places (live \<union> ns) pg' \<and> live \<inter> ns = {} \<and> pg_pending pg' = pg_pending pg"
proof (induction k arbitrary: live pg ns)
  case (Suc k)
  obtain ns' where ns': "pg_inner k (pg\<lparr>pg_nodes := pg_nodes pg @ [pg_fresh pg], pg_fresh := pg_fresh pg + 1\<rparr>) = (pg', ns')" "ns = insert (pg_fresh pg) ns'"
    using Suc.prems(2) by (auto simp: pg_NewInternal_def apsnd_def map_prod_def split: prod.splits)
  have "pg_places (insert (pg_fresh pg) live) (pg\<lparr>pg_nodes := pg_nodes pg @ [pg_fresh pg], pg_fresh := pg_fresh pg + 1\<rparr>)" "pg_fresh pg \<notin> live"
    using Suc.prems(1) by (auto simp: pg_places_def less_Suc_eq)
  moreover have "live \<union> ns = insert (pg_fresh pg) live \<union> ns'" using ns'(2) by simp
  ultimately show ?case using Suc.IH [OF _ ns'(1), of "insert (pg_fresh pg) live"] ns'(2) by auto
qed auto

lemma places_retire:
  assumes "pg_places live pg" and "p \<in> live" and "pg_pending pg' = pg_pending pg @ [r]" and "rt_page r = p" and "pg_pool pg' = pg_pool pg" and "pg_fresh pg' = pg_fresh pg"
  shows "pg_places (live - {p}) pg'"
  using assms by (auto simp: pg_places_def)

lemma rc_guards_swap:
  assumes "rc_guards T st" and "pg_fenced pg" and "pg_places ((rc_live st - old) \<union> new) pg" and "old \<subseteq> rc_live st"
    and "set (pg_pending pg) = set (pg_pending (rc_pages st)) \<union> rs" and "old \<subseteq> rt_page ` rs" and "\<forall>r \<in> rs. rt_fence r = rc_ts st"
  shows "rc_guards T (rc_swap pg old new st)"
proof -
  have "rc_seen st t \<union> (rc_live st - old \<union> new) \<subseteq> pg_guarded tr (rc_live st - old \<union> new) pg"
    if "rc_phase st t = Reading tr" "tr \<noteq> 0" "t \<in> T" for t tr
  proof -
    have tr: "tr \<le> rc_ts st" "rc_seen st t \<subseteq> pg_guarded tr (rc_live st) (rc_pages st)" using assms(1) that by (auto simp: rc_guards_def)
    have "x \<in> pg_guarded tr (rc_live st - old \<union> new) pg" if x: "x \<in> old" for x
    proof -
      obtain r where "r \<in> rs" "rt_page r = x" using assms(6) x by auto
      then show ?thesis using assms(5,7) tr(1) by (auto simp: pg_guarded_def)
    qed
    then have "pg_guarded tr (rc_live st) (rc_pages st) \<subseteq> pg_guarded tr (rc_live st - old \<union> new) pg"
      using assms(5) by (auto simp: pg_guarded_def)
    moreover have "rc_live st - old \<union> new \<subseteq> pg_guarded tr (rc_live st - old \<union> new) pg" by (simp add: pg_guarded_def)
    ultimately show ?thesis using tr(2) by blast
  qed
  with assms(1-3) show ?thesis by (auto simp: rc_guards_def rc_swap_def Let_def)
qed

lemma pg_fenced_new: "pg_NewLeaf pg = (pg', n) \<Longrightarrow> pg_fenced pg' = pg_fenced pg" "pg_inner k pg = (pg', ns) \<Longrightarrow> pg_fenced pg' = pg_fenced pg"
proof -
  show "pg_NewLeaf pg = (pg', n) \<Longrightarrow> pg_fenced pg' = pg_fenced pg" by (auto simp: pg_NewLeaf_def split: if_splits)
  show "pg_inner k pg = (pg', ns) \<Longrightarrow> pg_fenced pg' = pg_fenced pg"
    by (induction k arbitrary: pg ns) (auto simp: pg_NewInternal_def apsnd_def map_prod_def split: prod.splits)
qed

lemma pg_Retire_fenced:
  assumes "pg_fenced pg"
  shows "pg_RetireLeaf ts p pg = pg\<lparr>pg_pending := pg_pending pg @ [\<lparr>rt_page = p, rt_internal = False, rt_fence = ts\<rparr>]\<rparr>"
    "pg_RetireNode ts p pg = pg\<lparr>pg_nodes := remove1 p (pg_nodes pg), pg_pending := pg_pending pg @ [\<lparr>rt_page = p, rt_internal = True, rt_fence = ts\<rparr>]\<rparr>"
  using assms by (simp_all add: pg_RetireLeaf_def pg_RetireNode_def pg_fence_def)

lemma pg_insert_swap:
  assumes "pg_places live pg" and "old \<in> live" and "pg_fenced pg" and "pg_insert ts old pg = Some (pg', new)"
  shows "pg_places (live - {old} \<union> new) pg' \<and> pg_pending pg' = pg_pending pg @ [\<lparr>rt_page = old, rt_internal = False, rt_fence = ts\<rparr>] \<and> pg_fenced pg'"
proof -
  obtain pg1 n where n: "pg_NewLeaf pg = (pg1, n)" by fastforce
  note f1 = pg_fenced_new(1) [OF n]
  have pg': "pg' = pg_RetireLeaf ts old pg1" "new = {n}"
    using assms(3,4) n f1 by (auto simp: pg_insert_def pg_own_drain_def pg_Retire_fields(7))
  note pl = places_NewLeaf [OF assms(1) n]
  have "pg_places (insert n live - {old}) pg'"
    using pl assms(2,3) f1 unfolding pg' by (intro places_retire [of "insert n live" pg1]) (auto simp: pg_Retire_fenced)
  moreover have "insert n live - {old} = live - {old} \<union> {n}" using pl assms(2) by auto
  ultimately show ?thesis using pl pg' f1 assms(3) by (simp add: pg_Retire_fenced)
qed

lemma pg_split_swap:
  assumes "pg_places live pg" and "old \<in> live" and "\<And>n. node = Some n \<Longrightarrow> n \<in> live \<and> n \<noteq> old" and "pg_fenced pg" and "pg_split ts old k node pg = Some (pg', new)"
  shows "pg_places (live - insert old (set_option node) \<union> new) pg'
    \<and> pg_pending pg' = pg_pending pg @ (case node of None \<Rightarrow> [] | Some n \<Rightarrow> [\<lparr>rt_page = n, rt_internal = True, rt_fence = ts\<rparr>])
         @ [\<lparr>rt_page = old, rt_internal = False, rt_fence = ts\<rparr>] \<and> pg_fenced pg'"
proof -
  obtain pg1 a pg2 b pg3 c pg4 ns where st: "pg_NewLeaf pg = (pg1, a)" "pg_NewLeaf pg1 = (pg2, b)" "pg_NewLeaf pg2 = (pg3, c)" "pg_inner k pg3 = (pg4, ns)"
    by (metis surj_pair)
  have f4: "pg_fenced pg4" using pg_fenced_new(1) [OF st(1)] pg_fenced_new(1) [OF st(2)] pg_fenced_new(1) [OF st(3)] pg_fenced_new(2) [OF st(4)] assms(4) by simp
  note p1 = places_NewLeaf [OF assms(1) st(1)]
  note p2 = places_NewLeaf [OF p1 [THEN conjunct1] st(2)]
  note p3 = places_NewLeaf [OF p2 [THEN conjunct1] st(3)]
  note p4 = places_inner [OF p3 [THEN conjunct1] st(4)]
  let ?live = "insert c (insert b (insert a live)) \<union> ns"
  define pg5 where "pg5 = (case node of None \<Rightarrow> pg4 | Some n \<Rightarrow> pg_RetireNode ts n pg4)"
  have f5: "pg_fenced pg5" using f4 by (simp add: pg5_def pg_Retire_fields(8) split: option.split)
  have pg': "pg' = pg_RetireLeaf ts old pg5" "new = {a, b, c} \<union> ns"
    using assms(5) st f5 by (auto simp: pg_split_def pg5_def [symmetric] pg_own_drain_def pg_Retire_fields(7))
  have "pg_places (?live - set_option node) pg5"
  proof (cases node)
    case (Some n)
    then show ?thesis using p4 assms(3) f4 unfolding pg5_def
      by (auto intro!: places_retire [of ?live pg4 n _ "\<lparr>rt_page = n, rt_internal = True, rt_fence = ts\<rparr>", simplified] simp: pg_Retire_fenced)
  qed (use p4 in \<open>simp add: pg5_def\<close>)
  then have "pg_places (?live - set_option node - {old}) pg'"
    using assms(2,3) f5 unfolding pg' by (intro places_retire [of _ pg5]) (auto simp: pg_Retire_fenced)
  moreover have "?live - set_option node - {old} = live - insert old (set_option node) \<union> new"
    using p1 p2 p3 p4 assms(2,3) unfolding pg'(2) by auto
  moreover have "pg_pending pg4 = pg_pending pg" using p1 p2 p3 p4 by simp
  then have "pg_pending pg5 = pg_pending pg @ (case node of None \<Rightarrow> [] | Some n \<Rightarrow> [\<lparr>rt_page = n, rt_internal = True, rt_fence = ts\<rparr>])"
    using f4 by (simp add: pg5_def pg_Retire_fenced split: option.split)
  ultimately show ?thesis using pg'(1) f5 by (simp add: pg_Retire_fenced)
qed

lemma drain_frees:
  assumes "pg_DrainRetiredWithFence m pg = Some pg'"
  shows "pg_pending pg' = filter (\<lambda>r. \<not> m > rt_fence r) (pg_pending pg)
    \<and> pg_pool pg' = pg_pool pg @ map rt_page (filter (\<lambda>r. \<not> rt_internal r) (filter (\<lambda>r. m > rt_fence r) (pg_pending pg))) \<and> pg_fresh pg' = pg_fresh pg \<and> pg_fenced pg' = pg_fenced pg"
  using assms by (auto simp: pg_DrainRetiredWithFence_def Let_def split: if_splits)

lemma places_drain:
  assumes "pg_places live pg" and "pg_DrainRetiredWithFence m pg = Some pg'"
  shows "pg_places live pg'"
proof -
  have d: "distinct (map rt_page (pg_pending pg))" "distinct (pg_pool pg)" "rt_page ` set (pg_pending pg) \<inter> set (pg_pool pg) = {}"
    using assms(1) unfolding pg_places_def by simp_all
  have f: "pg_pending pg' = filter (\<lambda>r. \<not> m > rt_fence r) (pg_pending pg)" "pg_fresh pg' = pg_fresh pg"
    "pg_pool pg' = pg_pool pg @ map rt_page (filter (\<lambda>r. \<not> rt_internal r) (filter (\<lambda>r. m > rt_fence r) (pg_pending pg)))"
    using drain_frees [OF assms(2)] by simp_all
  define keep ready where "keep = filter (\<lambda>r. \<not> m > rt_fence r) (pg_pending pg)"
    and "ready = filter (\<lambda>r. \<not> rt_internal r) (filter (\<lambda>r. m > rt_fence r) (pg_pending pg))"
  have k: "set keep \<subseteq> set (pg_pending pg)" "set ready \<subseteq> set (pg_pending pg)" "set keep \<inter> set ready = {}"
    by (auto simp: keep_def ready_def)
  have dk: "distinct (map rt_page keep)" "distinct (map rt_page ready)" unfolding keep_def ready_def by (intro distinct_map_filter d)+
  have "inj_on rt_page (set (pg_pending pg))" using d(1) by (simp add: distinct_map)
  then have "rt_page ` set keep \<inter> rt_page ` set ready = rt_page ` (set keep \<inter> set ready)" using k by (intro inj_on_image_Int [symmetric]) auto
  then have "rt_page ` set keep \<inter> rt_page ` set ready = {}" unfolding k by simp
  moreover have "rt_page ` set keep \<inter> set (pg_pool pg) = {}" "set (pg_pool pg) \<inter> rt_page ` set ready = {}" using d(3) k by blast+
  ultimately have "distinct (map rt_page keep @ pg_pool pg @ map rt_page ready)" using dk d(2) by (simp only: distinct_append set_append set_map Int_Un_distrib simp_thms Un_empty)
  then have "distinct (map rt_page (pg_pending pg') @ pg_pool pg')" unfolding f keep_def ready_def .
  moreover have sub: "rt_page ` set (pg_pending pg') \<subseteq> rt_page ` set (pg_pending pg)" "set (pg_pool pg') \<subseteq> set (pg_pool pg) \<union> rt_page ` set (pg_pending pg)"
    unfolding f by auto
  have pl: "live \<inter> (rt_page ` set (pg_pending pg) \<union> set (pg_pool pg)) = {}"
    "p \<in> live \<or> p \<in> rt_page ` set (pg_pending pg) \<or> p \<in> set (pg_pool pg) \<Longrightarrow> p < pg_fresh pg" for p
    using assms(1) unfolding pg_places_def by blast+
  have "live \<inter> (rt_page ` set (pg_pending pg') \<union> set (pg_pool pg')) = {}" using pl(1) sub by blast
  moreover have "p < pg_fresh pg'" if "p \<in> live \<union> rt_page ` set (pg_pending pg') \<union> set (pg_pool pg')" for p
    unfolding f(2) using that sub by (intro pl(2)) blast
  then have "\<forall>p \<in> live \<union> rt_page ` set (pg_pending pg') \<union> set (pg_pool pg'). p < pg_fresh pg'" by blast
  ultimately show ?thesis by (simp only: pg_places_def simp_thms)
qed

lemma rc_reach_guards:
  assumes "rc_reach True start T st" and "inj_on (\<lambda>t. start t mod kSlots) T"
  shows "rc_guards T st"
  using assms(1)
proof (induction rule: rc_reach.induct)
  case (created ts)
  show ?case by (simp add: rc_guards_def rc_start_def pg_places_def pg_new_def pg_NewLeaf_def pg_NewInternal_def)
next
  case (acquire st t ts tk slot)
  then show ?case by (auto simp: rc_guards_def pg_guarded_def)
next
  case (tick st ts)
  then show ?case by (fastforce simp: rc_guards_def intro: order_trans)
next
  case (insert st old pg new)
  have "pg_places (rc_live st) (rc_pages st)" "pg_fenced (rc_pages st)" using insert by (simp_all add: rc_guards_def)
  from pg_insert_swap [OF this(1) insert(2) this(2) insert(3)] insert show ?case
    by (intro rc_guards_swap [where rs = "{\<lparr>rt_page = old, rt_internal = False, rt_fence = rc_ts st\<rparr>}"]) auto
next
  case (split st old node k pg new)
  have "pg_places (rc_live st) (rc_pages st)" "pg_fenced (rc_pages st)" using split by (simp_all add: rc_guards_def)
  from pg_split_swap [OF this(1) split(2,3) this(2) split(4)] split show ?case
    by (intro rc_guards_swap [where rs = "insert \<lparr>rt_page = old, rt_internal = False, rt_fence = rc_ts st\<rparr> ((\<lambda>n. \<lparr>rt_page = n, rt_internal = True, rt_fence = rc_ts st\<rparr>) ` set_option node)"])
      (auto split: option.splits)
next
  case (drain st pg)
  show ?case
  proof (cases "length (pg_pending (rc_pages st)) < kRetiredDrainThreshold")
    case True
    then show ?thesis using drain by (auto simp: pg_DrainRetired_def rc_guards_def)
  next
    case False
    then have d: "pg_DrainRetiredWithFence (tk_MinActiveTS (rc_tracker st)) (rc_pages st) = Some pg" using drain by (simp add: pg_DrainRetired_def)
    have "pg_guarded ts (rc_live st) (rc_pages st) \<subseteq> pg_guarded ts (rc_live st) pg" if t: "t \<in> T" "rc_phase st t = Reading ts" "ts \<noteq> 0" for t ts
    proof -
      have "tk_MinActiveTS (rc_tracker st) \<le> ts"
        using tk_homes_min [OF rc_homesD(1) [OF rc_reach_homes [OF drain(1) assms(2)] t(1)] t(1)] t(2,3) by simp
      then show ?thesis using drain_frees [OF d] by (auto simp: pg_guarded_def not_less)
    qed
    with drain places_drain [OF _ d] drain_frees [OF d] show ?thesis by (fastforce simp: rc_guards_def)
  qed
qed (auto simp: rc_guards_def split: if_splits)

section \<open>Properties\<close>

text \<open>
  C35: the arrays of fixed size are never overrun. In every state that the writer can reach, with any answers of the tracker, of a tree with or without a source of timestamps, a drain (also the one of the destructor) stays inside its buffers and the pool, at most one page more than the threshold is pending, the pool is never so full that it has to give pages back, and the next insertion or split does not overrun the buffers either.
\<close>
theorem tree_drain_stays_in_bounds:
  assumes "pg_reach pg"
  shows "(\<exists>pg'. pg_DrainRetired min_ts pg = Some pg') \<and> (\<exists>pg'. pg_DrainAllRetired pg = Some pg')
    \<and> length (pg_pending pg) \<le> kRetiredDrainThreshold + 1 \<and> length (pg_pool pg) \<le> kRetiredDrainThreshold
    \<and> (length (pg_pending pg) < kRetiredDrainThreshold \<longrightarrow> pg_insert source old pg \<noteq> None \<and> pg_split source old k node pg \<noteq> None)"
proof -
  note b = pg_reach_bounded [OF assms]
  then show ?thesis using pg_drain_bounded [OF b] pg_insert_bounded [OF b, of source old] pg_split_bounded [OF b, of source old k node]
    by (auto simp: pg_DrainRetired_def pg_DrainAllRetired_def pg_bounded_def)
qed

definition pg_one :: pages where
  "pg_one = pg_RetireLeaf 5 0 (fst (pg_NewLeaf (pg_new True)))"

lemma pg_insert_one: "pg_insert 5 0 (pg_new True) = Some (pg_one, {2})"
  by (simp add: pg_insert_def pg_own_drain_def pg_one_def pg_new_def pg_NewLeaf_def pg_NewInternal_def pg_RetireLeaf_def pg_fence_def)

theorem tree_drain_stays_in_bounds_witness:
  "(\<exists>pg'. pg_DrainRetired 9 pg_one = Some pg') \<and> (\<exists>pg'. pg_DrainAllRetired pg_one = Some pg')
    \<and> length (pg_pending pg_one) \<le> kRetiredDrainThreshold + 1 \<and> length (pg_pool pg_one) \<le> kRetiredDrainThreshold
    \<and> pg_insert 6 2 pg_one \<noteq> None \<and> pg_split 6 2 1 None pg_one \<noteq> None"
proof -
  have "length (pg_pending (pg_new True)) < kRetiredDrainThreshold" by (simp add: pg_new_def pg_NewLeaf_def pg_NewInternal_def pg_consts)
  then have r: "pg_reach pg_one" by (rule pg_reach.insert [OF pg_reach.start _ pg_insert_one])
  have "length (pg_pending pg_one) < kRetiredDrainThreshold"
    by (simp add: pg_one_def pg_new_def pg_NewLeaf_def pg_NewInternal_def pg_RetireLeaf_def pg_fence_def pg_consts)
  then show ?thesis using tree_drain_stays_in_bounds [OF r, of 9 6 2 1 None] by simp
qed

text \<open>
  C16: no page is freed under a reader of the engine. Let the hashes of the threads that read select different slots of the trackers, and let the tree have the engine's timestamp as
  the source of its fences. Then in every order of the steps of readers and writer, no page that a reader with a timestamp other than 0 may visit is in the pool, where the next insertion could take it,
  and none is among the pages that a drain with the tracker's answer frees.
\<close>
theorem tree_pages_outlive_readers:
  assumes "inj_on (\<lambda>t. start t mod kSlots) T" and "rc_reach True start T st" and "t \<in> T" and "rc_phase st t = Reading ts" and "ts \<noteq> 0" and "p \<in> rc_seen st t"
  shows "p \<notin> set (pg_pool (rc_pages st)) \<and> (\<forall>r \<in> set (pg_pending (rc_pages st)). rt_page r = p \<longrightarrow> \<not> tk_MinActiveTS (rc_tracker st) > rt_fence r)"
proof -
  note inv = rc_reach_guards [OF assms(2,1)]
  have g: "p \<in> pg_guarded ts (rc_live st) (rc_pages st)" and pl: "pg_places (rc_live st) (rc_pages st)" using inv assms(3-6) by (auto simp: rc_guards_def)
  have m: "tk_MinActiveTS (rc_tracker st) \<le> ts"
    using tk_homes_min [OF rc_homesD(1) [OF rc_reach_homes [OF assms(2,1)] assms(3)] assms(3)] assms(4,5) by simp
  have "p \<notin> set (pg_pool (rc_pages st))" using g pl by (auto simp: pg_guarded_def pg_places_def)
  moreover have "\<not> tk_MinActiveTS (rc_tracker st) > rt_fence r" if r: "r \<in> set (pg_pending (rc_pages st))" "rt_page r = p" for r
  proof -
    have "p \<notin> rc_live st" using r pl by (auto simp: pg_places_def)
    then obtain r' where r': "r' \<in> set (pg_pending (rc_pages st))" "rt_page r' = p" "ts \<le> rt_fence r'" using g by (auto simp: pg_guarded_def)
    have "inj_on rt_page (set (pg_pending (rc_pages st)))" using pl by (simp add: pg_places_def distinct_map)
    then have "r' = r" using r r' by (auto dest: inj_onD)
    then show ?thesis using r'(3) m by auto
  qed
  ultimately show ?thesis by blast
qed

text \<open>Thread 7 reads at timestamp 5 while the writer replaces the first leaf.\<close>

definition rc_one :: reclaim where
  "rc_one = rc_swap pg_one {0} {2} (rc_to 7 (Reading 5) ((rc_to 7 (Loaded 5) (rc_start True 5))\<lparr>rc_tracker := fst (tk_Acquire 3 5 tk_new),
     rc_slot := (\<lambda>_. -2)(7 := snd (tk_Acquire 3 5 tk_new)), rc_seen := (\<lambda>_. {})(7 := {0, 1})\<rparr>))"

lemma rc_one_reach: "rc_reach True (\<lambda>_. 3) {7} rc_one"
proof -
  have "rc_reach True (\<lambda>_. 3) {7} (rc_to 7 (Loaded (rc_ts (rc_start True 5))) (rc_start True 5))"
    by (rule rc_reach.load [OF rc_reach.created]) (simp_all add: rc_start_def)
  then have "rc_reach True (\<lambda>_. 3) {7} (rc_to 7 (Loaded 5) (rc_start True 5))" by (simp add: rc_start_def)
  from rc_reach.acquire [OF this, of 7 5 "fst (tk_Acquire 3 5 tk_new)" "snd (tk_Acquire 3 5 tk_new)"]
  have "rc_reach True (\<lambda>_. 3) {7} (rc_to 7 (Reading 5) ((rc_to 7 (Loaded 5) (rc_start True 5))\<lparr>rc_tracker := fst (tk_Acquire 3 5 tk_new),
     rc_slot := (\<lambda>_. -2)(7 := snd (tk_Acquire 3 5 tk_new)), rc_seen := (\<lambda>_. {})(7 := {0, 1})\<rparr>))" by (simp add: rc_start_def)
  from rc_reach.insert [OF this, of 0 pg_one "{2}"] show ?thesis by (simp add: rc_one_def rc_start_def pg_insert_one)
qed

theorem tree_pages_outlive_readers_witness:
  "0 \<notin> set (pg_pool (rc_pages rc_one)) \<and> pg_pending (rc_pages rc_one) = [\<lparr>rt_page = 0, rt_internal = False, rt_fence = 5\<rparr>]
    \<and> \<not> tk_MinActiveTS (rc_tracker rc_one) > 5"
proof -
  have p: "pg_pending (rc_pages rc_one) = [\<lparr>rt_page = 0, rt_internal = False, rt_fence = 5\<rparr>]"
    by (simp add: rc_one_def rc_swap_def Let_def pg_one_def pg_new_def pg_NewLeaf_def pg_NewInternal_def pg_RetireLeaf_def pg_fence_def)
  have "rc_phase rc_one 7 = Reading 5" "0 \<in> rc_seen rc_one 7" by (simp_all add: rc_one_def rc_swap_def Let_def)
  from tree_pages_outlive_readers [OF _ rc_one_reach _ this(1) _ this(2)] p show ?thesis by simp
qed

text \<open>
  a tree without a source of timestamps, as the first memtable of the engine has it, frees its pages whatever the readers do: once the threshold is reached, \<open>Insert\<close> puts the leaf that it has just
  replaced into the pool.
\<close>
theorem tree_without_source_frees_read_page:
  assumes "pg_reach pg" and "\<not> pg_fenced pg" and "Suc (length (pg_pending pg)) = kRetiredDrainThreshold" and "pg_retire_seq pg + 1 < -1"
    and "pg_insert source old pg = Some (pg', new)"
  shows "old \<in> set (pg_pool pg')"
proof -
  obtain pg1 n where n: "pg_NewLeaf pg = (pg1, n)" by fastforce
  have f: "\<not> pg_fenced pg1" "pg_pending pg1 = pg_pending pg" "pg_retire_seq pg1 = pg_retire_seq pg"
    using n assms(2) by (auto simp: pg_NewLeaf_def split: if_splits)
  have "pg_DrainRetiredWithFence (-1) (pg_RetireLeaf source old pg1) = Some pg'"
    using assms(3,5) n f by (auto simp: pg_insert_def pg_own_drain_def pg_DrainRetired_def pg_RetireLeaf_def pg_fence_def)
  from drain_frees [OF this] show ?thesis using f assms(4) by (auto simp: pg_RetireLeaf_def pg_fence_def)
qed

text \<open>
  without readers one drain frees every pending page, so that the loop in which the writer waits for room ends as soon as the readers have gone.
\<close>
theorem tree_drain_frees_all_without_readers:
  assumes "tk_reach tk (\<lambda>_. None)" and "pg_reach pg" and "\<forall>r \<in> set (pg_pending pg). rt_fence r \<noteq> -1"
  shows "\<exists>pg'. pg_DrainRetiredWithFence (tk_MinActiveTS tk) pg = Some pg' \<and> pg_pending pg' = []"
proof -
  have m: "tk_MinActiveTS tk = -1" using tk_min_bounds(2) [OF tk_reach_inv [OF assms(1)]] by auto
  obtain pg' where d: "pg_DrainRetiredWithFence (tk_MinActiveTS tk) pg = Some pg'" using pg_drain_bounded [OF pg_reach_bounded [OF assms(2)]] by blast
  have "rt_fence r < -1" if "r \<in> set (pg_pending pg)" for r
    using assms(3) that word_n1_ge [of "rt_fence r"] by (auto simp: less_le)
  then have "pg_pending pg' = []" using drain_frees [OF d] by (simp add: m filter_empty_conv)
  with d show ?thesis by blast
qed

theorem tree_drain_frees_all_without_readers_witness:
  "\<exists>pg'. pg_DrainRetiredWithFence (tk_MinActiveTS tk_new) (pg_new True) = Some pg' \<and> pg_pending pg' = []"
  by (rule tree_drain_frees_all_without_readers [OF tk_reach.start pg_reach.start]) (simp add: pg_new_def pg_NewLeaf_def pg_NewInternal_def)

end
