(* ===== verification/Leaf_Page.thy ===== *)
theory Leaf_Page
  imports Bptree
begin

text \<open>
  The bytes of a leaf page (\<open>LeafPage\<close> in \<^verbatim>\<open>include/kvdb/bptree.hpp\<close>): a header, slots of 14 bytes that grow up from byte 24, and
  records that grow down from the end. A value of more than half a page lies in a block of its own, whose
  address is in the record. \<open>Bptree\<close> treats a page as the list of its entries; here the operations on the bytes
  are shown to be the operations on that list.

  The fields of the header are natural numbers, with the conversions of the source to 32 and 16 bits written out; the bytes of
  integers are in little-endian order. The heap of large values maps addresses to the blocks there, and the address that the allocator
  returns is an argument. The link to the next page is the order of the leaves in \<open>Bptree\<close>.
\<close>

section \<open>Bytes\<close>

text \<open>\<^verbatim>\<open>memcpy\<close> (or \<^verbatim>\<open>memmove\<close>) into a buffer at position \<open>i\<close>, and out of it.\<close>

definition put :: "nat \<Rightarrow> bytes \<Rightarrow> bytes \<Rightarrow> bytes" where
  "put i bs raw = take i raw @ bs @ drop (i + length bs) raw"

definition get :: "nat \<Rightarrow> nat \<Rightarrow> bytes \<Rightarrow> bytes" where
  "get i n raw = take n (drop i raw)"

lemma length_put [simp]: "i + length bs \<le> length raw \<Longrightarrow> length (put i bs raw) = length raw"
  by (simp add: put_def)

lemma length_get [simp]: "i + n \<le> length raw \<Longrightarrow> length (get i n raw) = n"
  by (simp add: get_def)

lemma get_put_same: "i + length bs \<le> length raw \<Longrightarrow> get i (length bs) (put i bs raw) = bs"
  by (simp add: put_def get_def)

lemma get_put_below: "j + n \<le> i \<Longrightarrow> i \<le> length raw \<Longrightarrow> get j n (put i bs raw) = get j n raw"
  by (simp add: put_def get_def take_drop min_def)

lemma get_put_above: "i + length bs \<le> j \<Longrightarrow> i + length bs \<le> length raw \<Longrightarrow> get j n (put i bs raw) = get j n raw"
  by (simp add: put_def get_def)

lemma get_get: "k + m \<le> n \<Longrightarrow> get (i + k) m raw = get k m (get i n raw)"
  by (simp add: get_def drop_take min_def add.commute)

lemma get_append: "get i n raw = xs @ ys \<Longrightarrow> get i (length xs) raw = xs \<and> get (i + length xs) (length ys) raw = ys"
proof -
  assume a: "get i n raw = xs @ ys"
  then have "length xs + length ys \<le> n" by (metis get_def length_append length_take min.cobounded2)
  with a get_get [of 0 "length xs" n i raw] get_get [of "length xs" "length ys" n i raw] show ?thesis by (simp add: get_def)
qed

lemma put_put: "i + length as \<le> length raw \<Longrightarrow> put (i + length as) bs (put i as raw) = put i (as @ bs) raw"
  by (simp add: put_def ac_simps)

lemma nth_get: "k < n \<Longrightarrow> i + n \<le> length raw \<Longrightarrow> raw ! (i + k) = get i n raw ! k"
  by (simp add: get_def)

lemma rd16_get: "get i 2 raw = WriteUint16LE v \<Longrightarrow> i + 2 \<le> length raw \<Longrightarrow> rd16 raw i = v"
  using nth_get [of 0 2 i raw] nth_get [of 1 2 i raw] by (simp add: rd16_def WriteUint16LE_def codec_simps)

lemma rd64_get:
  assumes "get i 8 raw = WriteUint64LE v" and "i + 8 \<le> length raw"
  shows "rd64 raw i = v"
proof -
  have b: "raw ! (i + k) = WriteUint64LE v ! k" if "k < 8" for k using nth_get [OF that assms(2)] assms(1) by simp
  show ?thesis
    using b [of 0] b [of 1] b [of 2] b [of 3] b [of 4] b [of 5] b [of 6] b [of 7] by (simp add: rd64_def WriteUint64LE_def codec_simps del: Suc_eq_plus1 add_2_eq_Suc')
qed

section \<open>Slots and records\<close>

record leaf_page =
  lp_count :: nat
  lp_data_start :: nat
  lp_slot_end :: nat
  lp_raw :: bytes

type_synonym blobs = "u64 \<rightharpoonup> bytes"

definition kSlotBase :: nat where "kSlotBase = 24"
definition kLargeValFlag :: u16 where "kLargeValFlag = 0x7FFF"

definition lp_new :: "bytes \<Rightarrow> leaf_page" where
  "lp_new stale = \<lparr>lp_count = 0, lp_data_start = kPageSize, lp_slot_end = 24, lp_raw = stale\<rparr>"

definition lp_Slot :: "nat \<Rightarrow> nat" where
  "lp_Slot i = kSlotBase + i * kSlotSize"

definition lp_Offset :: "leaf_page \<Rightarrow> nat \<Rightarrow> u16" where
  "lp_Offset p i = rd16 (lp_raw p) (lp_Slot i)"

definition lp_KeyLen :: "leaf_page \<Rightarrow> nat \<Rightarrow> u16" where
  "lp_KeyLen p i = rd16 (lp_raw p) (lp_Slot i + 2)"

definition lp_ValLen :: "leaf_page \<Rightarrow> nat \<Rightarrow> u16" where
  "lp_ValLen p i = rd16 (lp_raw p) (lp_Slot i + 4) AND 0x7FFF"

definition lp_IsTombstone :: "leaf_page \<Rightarrow> nat \<Rightarrow> bool" where
  "lp_IsTombstone p i = (let v = rd16 (lp_raw p) (lp_Slot i + 4) in v \<noteq> kLargeValFlag \<and> v AND 0x8000 \<noteq> 0)"

definition lp_Timestamp :: "leaf_page \<Rightarrow> nat \<Rightarrow> u64" where
  "lp_Timestamp p i = rd64 (lp_raw p) (lp_Slot i + 6)"

definition lp_SetSlot :: "nat \<Rightarrow> u16 \<Rightarrow> u16 \<Rightarrow> u16 \<Rightarrow> u64 \<Rightarrow> bool \<Rightarrow> bytes \<Rightarrow> bytes" where
  "lp_SetSlot i off klen vlen ts tomb raw =
     (let ev = (if tomb then vlen OR 0x8000 else vlen);
          raw = put (lp_Slot i) (WriteUint16LE off) raw; raw = put (lp_Slot i + 2) (WriteUint16LE klen) raw;
          raw = put (lp_Slot i + 4) (WriteUint16LE ev) raw
      in put (lp_Slot i + 6) (WriteUint64LE ts) raw)"

text \<open>\<open>n\<close> bytes from the start of record \<open>i\<close>, behind the first \<open>k\<close> ones.\<close>

definition lp_Rec :: "leaf_page \<Rightarrow> nat \<Rightarrow> nat \<Rightarrow> nat \<Rightarrow> bytes" where
  "lp_Rec p i k n = get (unat (lp_Offset p i) + k) n (lp_raw p)"

definition lp_Free :: "leaf_page \<Rightarrow> nat" where
  "lp_Free p = (if lp_data_start p > lp_slot_end p then lp_data_start p - lp_slot_end p else 0)"

definition lp_key :: "leaf_page \<Rightarrow> nat \<Rightarrow> bytes" where
  "lp_key p i = lp_Rec p i 0 (unat (lp_KeyLen p i))"

function lp_find :: "bytes \<Rightarrow> leaf_page \<Rightarrow> int \<Rightarrow> int \<Rightarrow> int" where
  "lp_find key p lo hi =
     (if lo \<le> hi then
        let mid = (lo + hi) div 2
        in if key \<le> lp_key p (nat mid) then lp_find key p lo (mid - 1) else lp_find key p (mid + 1) hi
      else lo)"
  by pat_completeness auto
termination
  by (relation "measure (\<lambda>(_, _, lo, hi). nat (hi - lo + 1))") auto

declare lp_find.simps [simp del]

definition lp_Find :: "bytes \<Rightarrow> leaf_page \<Rightarrow> nat \<times> bool" where
  "lp_Find key p = (let idx = nat (lp_find key p 0 (int (lp_count p) - 1)) in (idx, idx < lp_count p \<and> key = lp_key p idx))"

text \<open>The value of a record, from the page or from the block at its address; \<open>None\<close> where there is no block.\<close>

definition lp_value :: "blobs \<Rightarrow> leaf_page \<Rightarrow> nat \<Rightarrow> bytes option" where
  "lp_value h p i =
     (let klen = unat (lp_KeyLen p i)
      in if lp_ValLen p i = kLargeValFlag
         then map_option (\<lambda>blob. get 8 (unat (rd64 blob 0)) blob) (h (rd64 (lp_Rec p i klen 8) 0))
         else Some (lp_Rec p i klen (unat (lp_ValLen p i))))"

definition lp_entry :: "blobs \<Rightarrow> leaf_page \<Rightarrow> nat \<Rightarrow> KeyValuePair option" where
  "lp_entry h p i = map_option (\<lambda>v. \<lparr>kv_key = lp_key p i, kv_value = v, kv_timestamp = lp_Timestamp p i, kv_is_tombstone = lp_IsTombstone p i\<rparr>) (lp_value h p i)"

text \<open>The versions of a key from slot \<open>i\<close> on, as \<open>Lookup\<close> reads them.\<close>

function lp_scan :: "bytes \<Rightarrow> u64 \<Rightarrow> u64 list \<Rightarrow> blobs \<Rightarrow> leaf_page \<Rightarrow> nat \<Rightarrow> bytes option" where
  "lp_scan key ts ab h p i =
     (if i < lp_count p then
        let klen = lp_KeyLen p i
        in if klen \<noteq> of_nat (length key) \<or> lp_Rec p i 0 (unat klen) \<noteq> take (unat klen) key then None
           else if lp_Timestamp p i \<in> set ab then lp_scan key ts ab h p (i + 1)
           else if lp_Timestamp p i \<le> ts then (if lp_IsTombstone p i then None else lp_value h p i)
           else lp_scan key ts ab h p (i + 1)
      else None)"
  by pat_completeness auto
termination
  by (relation "measure (\<lambda>(_, _, _, _, p, i). lp_count p - i)") auto

declare lp_scan.simps [simp del]

definition lp_Lookup :: "bytes \<Rightarrow> u64 \<Rightarrow> u64 list \<Rightarrow> blobs \<Rightarrow> leaf_page \<Rightarrow> bytes option" where
  "lp_Lookup key ts ab h p = (case lp_Find key p of (idx, found) \<Rightarrow> if found then lp_scan key ts ab h p idx else None)"

section \<open>Insertion\<close>

text \<open>The \<^verbatim>\<open>memmove\<close> that makes room for slot \<open>pos\<close>.\<close>

definition lp_shift :: "nat \<Rightarrow> nat \<Rightarrow> bytes \<Rightarrow> bytes" where
  "lp_shift pos n raw = (if pos < n then put (lp_Slot (pos + 1)) (get (lp_Slot pos) ((n - pos) * kSlotSize) raw) raw else raw)"

text \<open>\<open>None\<close> is the result \<^verbatim>\<open>false\<close>; \<open>addr\<close> is the address of the block for a large value.\<close>

definition lp_InsertEntry ::
  "nat \<Rightarrow> bytes \<Rightarrow> bytes \<Rightarrow> u64 \<Rightarrow> bool \<Rightarrow> bool \<Rightarrow> u64 option \<Rightarrow> u64 \<Rightarrow> leaf_page \<Rightarrow> blobs \<Rightarrow> (leaf_page \<times> blobs) option" where
  "lp_InsertEntry pos key v ts store_blob tomb blob_ptr addr p h =
     (let val_sz = (if store_blob then 8 else length v mod 2 ^ 32);
          rec_sz = (length key mod 2 ^ 32 + val_sz) mod 2 ^ 32;
          needed = (rec_sz + kSlotSize) mod 2 ^ 32
      in if lp_Free p < needed then None
         else let rec_off = (lp_data_start p - rec_sz) mod 2 ^ 16;
                  raw = put rec_off key (lp_raw p);
                  (body, h) = (if store_blob
                    then case blob_ptr of
                           Some b \<Rightarrow> (WriteUint64LE b, h)
                         | None \<Rightarrow> (WriteUint64LE addr, h(addr \<mapsto> WriteUint64LE (of_nat (length v)) @ v))
                    else (v, h));
                  raw = put (rec_off + length key) body raw;
                  raw = lp_shift pos (lp_count p) raw;
                  raw = lp_SetSlot pos (of_nat rec_off) (of_nat (length key)) (if store_blob then kLargeValFlag else of_nat (length v)) ts tomb raw
              in Some (p\<lparr>lp_count := lp_count p + 1, lp_data_start := rec_off, lp_slot_end := lp_slot_end p + kSlotSize, lp_raw := raw\<rparr>, h))"

definition lp_CopyEntry :: "leaf_page \<Rightarrow> nat \<Rightarrow> leaf_page \<Rightarrow> nat \<Rightarrow> leaf_page" where
  "lp_CopyEntry src i dst pos =
     (let blob = (lp_ValLen src i = kLargeValFlag); klen = lp_KeyLen src i; vlen = (if blob then 8 else lp_ValLen src i);
          rec_sz = unat klen + unat vlen
      in if lp_Free dst < rec_sz + kSlotSize then dst
         else let rec_off = (lp_data_start dst - rec_sz) mod 2 ^ 16;
                  raw = put rec_off (lp_Rec src i 0 rec_sz) (lp_raw dst);
                  raw = lp_shift pos (lp_count dst) raw;
                  ev = (if lp_IsTombstone src i then (if blob then kLargeValFlag OR 0x8000 else vlen OR 0x8000)
                        else if blob then kLargeValFlag else vlen);
                  raw = lp_SetSlot pos (of_nat rec_off) klen ev (lp_Timestamp src i) False raw
              in dst\<lparr>lp_count := lp_count dst + 1, lp_data_start := rec_off, lp_slot_end := lp_slot_end dst + kSlotSize, lp_raw := raw\<rparr>)"

text \<open>The call that \<open>Insert\<close> and \<open>SplitCoW\<close> make.\<close>

definition lp_put :: "nat \<Rightarrow> KeyValuePair \<Rightarrow> u64 \<Rightarrow> leaf_page \<Rightarrow> blobs \<Rightarrow> (leaf_page \<times> blobs) option" where
  "lp_put pos e addr p h = lp_InsertEntry pos (kv_key e) (kv_value e) (kv_timestamp e) (is_large e) (kv_is_tombstone e) None addr p h"

text \<open>
  The leaves of \<open>SplitCoW\<close>: two new pages, on whatever bytes their memory holds, each with its half; the new record in its half, or else behind the other half.
\<close>

definition lp_half :: "leaf_page \<Rightarrow> nat list \<Rightarrow> bytes \<Rightarrow> leaf_page" where
  "lp_half leaf is stale = fold (\<lambda>i d. lp_CopyEntry leaf i d (lp_count d)) is (lp_new stale)"

definition lp_split :: "nat \<Rightarrow> KeyValuePair \<Rightarrow> u64 \<Rightarrow> bytes \<Rightarrow> bytes \<Rightarrow> leaf_page \<Rightarrow> blobs \<Rightarrow> leaf_page \<times> bytes \<times> leaf_page \<times> blobs" where
  "lp_split pos kv addr stale1 stale2 leaf h =
     (let mid = lp_count leaf div 2;
          left = lp_half leaf [0..<mid] stale1; right = lp_half leaf [mid..<lp_count leaf] stale2;
          ins = (\<lambda>i p. lp_put i kv addr p h);
          (left, right, h) =
            (if pos < mid
             then case ins pos left of Some (l, h) \<Rightarrow> (l, right, h)
                  | None \<Rightarrow> (case ins (lp_count right) right of Some (r, h) \<Rightarrow> (left, r, h) | None \<Rightarrow> (left, right, h))
             else case ins (pos - mid) right of Some (r, h) \<Rightarrow> (left, r, h)
                  | None \<Rightarrow> (case ins (lp_count left) left of Some (l, h) \<Rightarrow> (l, right, h) | None \<Rightarrow> (left, right, h)))
      in (left, lp_key right 0, right, h))"

text \<open>The address that \<open>SplitCoW\<close> then enters among the blocks to free: it reads it where the record would be in its own half.\<close>

definition lp_split_blob :: "nat \<Rightarrow> nat \<Rightarrow> leaf_page \<Rightarrow> leaf_page \<Rightarrow> u64" where
  "lp_split_blob pos mid left right =
     (let dst = (if pos < mid then left else right); p = (if pos < mid then pos else pos - mid)
      in rd64 (lp_Rec dst p (unat (lp_KeyLen dst p)) 8) 0)"

text \<open>
  The leaf in \<open>Insert\<close>: a copy of the page with the record, or the two pages of a split with the separator of the right one.
\<close>

definition lp_CopyLeafContent :: "bytes \<Rightarrow> leaf_page \<Rightarrow> leaf_page" where
  "lp_CopyLeafContent stale src = src\<lparr>lp_raw := put kSlotBase (get kSlotBase 4072 (lp_raw src)) stale\<rparr>"

datatype lp_result = Lp_one leaf_page | Lp_two leaf_page bytes leaf_page

definition lp_Insert :: "KeyValuePair \<Rightarrow> u64 \<Rightarrow> bytes \<Rightarrow> bytes \<Rightarrow> bytes \<Rightarrow> leaf_page \<Rightarrow> blobs \<Rightarrow> lp_result \<times> blobs" where
  "lp_Insert kv addr stale stale1 stale2 leaf h =
     (let pos = fst (lp_Find (kv_key kv) leaf)
      in case lp_put pos kv addr (lp_CopyLeafContent stale leaf) h of
           Some (p, h) \<Rightarrow> (Lp_one p, h)
         | None \<Rightarrow> (case lp_split pos kv addr stale1 stale2 leaf h of (l, sep, r, h) \<Rightarrow> (Lp_two l sep r, h)))"

section \<open>The entries that a page represents\<close>

definition rec_bytes :: "u64 \<Rightarrow> KeyValuePair \<Rightarrow> bytes" where
  "rec_bytes ptr e = kv_key e @ (if is_large e then WriteUint64LE ptr else kv_value e)"

definition val_field :: "KeyValuePair \<Rightarrow> u16" where
  "val_field e = (let v = (if is_large e then kLargeValFlag else of_nat (length (kv_value e))) in if kv_is_tombstone e then v OR 0x8000 else v)"

definition slot_bytes :: "nat \<Rightarrow> KeyValuePair \<Rightarrow> bytes" where
  "slot_bytes off e = WriteUint16LE (of_nat off) @ WriteUint16LE (of_nat (length (kv_key e))) @ WriteUint16LE (val_field e) @ WriteUint64LE (kv_timestamp e)"

definition blob_bytes :: "bytes \<Rightarrow> bytes" where
  "blob_bytes v = WriteUint64LE (of_nat (length v)) @ v"

text \<open>Slot \<open>i\<close> leads to a record at \<open>off\<close> that holds the entry, with a large value in the block at \<open>ptr\<close>.\<close>

definition slot_rep :: "blobs \<Rightarrow> bytes \<Rightarrow> nat \<Rightarrow> nat \<Rightarrow> u64 \<Rightarrow> KeyValuePair \<Rightarrow> bool" where
  "slot_rep h raw i off ptr e \<longleftrightarrow> get (lp_Slot i) kSlotSize raw = slot_bytes off e \<and> get off (rec_size e) raw = rec_bytes ptr e
     \<and> off + rec_size e \<le> kPageSize \<and> (is_large e \<longrightarrow> h ptr = Some (blob_bytes (kv_value e)) \<and> length (kv_value e) < 2 ^ 64)"

definition lp_rep :: "blobs \<Rightarrow> leaf_page \<Rightarrow> KeyValuePair list \<Rightarrow> bool" where
  "lp_rep h p es \<longleftrightarrow> length (lp_raw p) = kPageSize \<and> lp_count p = length es \<and> lp_slot_end p = lp_Slot (length es)
     \<and> lp_data_start p + sum_list (map rec_size es) = kPageSize \<and> lp_slot_end p \<le> lp_data_start p
     \<and> (\<forall>i < length es. \<exists>off ptr. lp_data_start p \<le> off \<and> slot_rep h (lp_raw p) i off ptr (es ! i))"

lemma length_rec_bytes [simp]: "length (rec_bytes ptr e) = rec_size e"
  by (simp add: rec_bytes_def rec_size_def)

lemma length_slot_bytes [simp]: "length (slot_bytes off e) = kSlotSize"
  by (simp add: slot_bytes_def kSlotSize_def)

lemma val_flags:
  fixes x :: u16
  assumes "x < 0x8000"
  shows "x AND 0x7FFF = x" "(x OR 0x8000) AND 0x7FFF = x" "x AND 0x8000 = 0" "(x OR 0x8000) AND 0x8000 = 0x8000"
proof -
  have m: "(0x7FFF :: u16) = mask 15" by (simp add: mask_eq_exp_minus_1)
  have "(0x8000 :: u16) = 2 ^ 15" by simp
  then have t: "bit (0x8000 :: u16) n \<longleftrightarrow> n = 15" for n by (auto simp only: bit_exp_iff possible_bit_word) simp
  have b: "n < 15" if "bit x n" for n
  proof (rule ccontr)
    assume n: "\<not> n < 15"
    have "unat x < 2 ^ 15" using assms by (simp add: word_less_nat_alt)
    also have "(2 :: nat) ^ 15 \<le> 2 ^ n" using n by (intro power_increasing) simp_all
    finally have "\<not> bit (unat x) n" by (simp add: bit_iff_odd)
    with that show False by (simp add: bit_unsigned_iff)
  qed
  show "x AND 0x7FFF = x" "(x OR 0x8000) AND 0x7FFF = x" "x AND 0x8000 = 0" "(x OR 0x8000) AND 0x8000 = 0x8000"
    unfolding m by (rule bit_word_eqI; auto simp: bit_and_iff bit_or_iff bit_mask_iff t simp del: bit_numeral_word_iff dest: b)+
qed

lemma val_field_reads:
  assumes "\<not> is_large e \<Longrightarrow> length (kv_value e) < kPageSize"
  shows "val_field e AND 0x7FFF = (if is_large e then kLargeValFlag else of_nat (length (kv_value e)))"
    and "val_field e \<noteq> kLargeValFlag \<and> val_field e AND 0x8000 \<noteq> 0 \<longleftrightarrow> kv_is_tombstone e"
    and "\<not> is_large e \<Longrightarrow> of_nat (length (kv_value e)) \<noteq> kLargeValFlag"
proof -
  define x :: u16 where "x = (if is_large e then kLargeValFlag else of_nat (length (kv_value e)))"
  have v: "val_field e = (if kv_is_tombstone e then x OR 0x8000 else x)" by (simp add: val_field_def x_def Let_def)
  have n: "unat (of_nat (length (kv_value e)) :: u16) = length (kv_value e)" if "\<not> is_large e"
    using assms [OF that] by (simp add: unat_of_nat kPageSize_def)
  then show "\<not> is_large e \<Longrightarrow> of_nat (length (kv_value e)) \<noteq> kLargeValFlag"
    using assms by (auto simp: word_unat_eq_iff kLargeValFlag_def kPageSize_def)
  have "x < 0x8000" using n assms by (auto simp: x_def word_less_nat_alt kLargeValFlag_def kPageSize_def)
  note f = val_flags [OF this]
  show "val_field e AND 0x7FFF = (if is_large e then kLargeValFlag else of_nat (length (kv_value e)))" using f(1,2) by (simp add: v x_def [symmetric])
  have "x OR 0x8000 \<noteq> kLargeValFlag"
  proof
    assume "x OR 0x8000 = kLargeValFlag"
    with f(4) have "kLargeValFlag AND 0x8000 = (0x8000 :: u16)" by simp
    then show False by (simp add: kLargeValFlag_def)
  qed
  with f(3,4) show "val_field e \<noteq> kLargeValFlag \<and> val_field e AND 0x8000 \<noteq> 0 \<longleftrightarrow> kv_is_tombstone e" by (auto simp: v)
qed

text \<open>What the accessors read from a slot that represents an entry.\<close>

lemma slot_reads:
  assumes "length (lp_raw p) = kPageSize" "lp_Slot (i + 1) \<le> kPageSize" "slot_rep h (lp_raw p) i off ptr e"
  shows "unat (lp_Offset p i) = off" "unat (lp_KeyLen p i) = length (kv_key e)" "lp_Timestamp p i = kv_timestamp e"
    "lp_ValLen p i = (if is_large e then kLargeValFlag else of_nat (length (kv_value e)))" "lp_IsTombstone p i = kv_is_tombstone e"
proof -
  let ?raw = "lp_raw p" and ?s = "lp_Slot i"
  have sl: "?s + 14 \<le> length ?raw" using assms(1,2) by (simp add: lp_Slot_def kSlotSize_def)
  have g: "get ?s 14 ?raw = WriteUint16LE (of_nat off) @ WriteUint16LE (of_nat (length (kv_key e))) @ WriteUint16LE (val_field e) @ WriteUint64LE (kv_timestamp e)"
    using assms(3) by (simp add: slot_rep_def slot_bytes_def kSlotSize_def)
  have bnd: "off + rec_size e \<le> kPageSize" using assms(3) by (simp add: slot_rep_def)
  have vl: "\<not> is_large e \<Longrightarrow> length (kv_value e) < kPageSize" by (simp add: is_large_def kPageSize_def)
  note g1 = get_append [OF g]
  note g2 = get_append [OF g1 [THEN conjunct2]]
  note g3 = get_append [OF g2 [THEN conjunct2]]
  have o: "rd16 ?raw ?s = of_nat off" using g1 sl by (intro rd16_get) simp_all
  have k: "rd16 ?raw (?s + 2) = of_nat (length (kv_key e))" using g2 sl by (intro rd16_get) simp_all
  have v: "rd16 ?raw (?s + 4) = val_field e" using g3 sl by (intro rd16_get) (simp_all add: add.assoc del: add_2_eq_Suc')
  have t: "rd64 ?raw (?s + 6) = kv_timestamp e" using g3 sl by (intro rd64_get) (simp_all add: add.assoc del: add_2_eq_Suc')
  show "unat (lp_Offset p i) = off" using bnd o by (simp add: lp_Offset_def unat_of_nat kPageSize_def)
  show "unat (lp_KeyLen p i) = length (kv_key e)" using bnd k by (simp add: lp_KeyLen_def unat_of_nat kPageSize_def rec_size_def)
  show "lp_Timestamp p i = kv_timestamp e" using t by (simp add: lp_Timestamp_def)
  show "lp_ValLen p i = (if is_large e then kLargeValFlag else of_nat (length (kv_value e)))" using v val_field_reads(1) [OF vl] by (simp add: lp_ValLen_def)
  show "lp_IsTombstone p i = kv_is_tombstone e" using v val_field_reads(2) [OF vl] by (simp add: lp_IsTombstone_def Let_def)
qed

lemma blob_reads: "length v < 2 ^ 64 \<Longrightarrow> get 8 (unat (rd64 (blob_bytes v) 0)) (blob_bytes v) = v"
proof -
  assume v: "length v < 2 ^ 64"
  have "rd64 (blob_bytes v) 0 = of_nat (length v)" by (rule rd64_get) (simp_all add: blob_bytes_def get_def)
  with v show ?thesis by (simp add: blob_bytes_def get_def unat_of_nat)
qed

lemma record_reads:
  assumes "length (lp_raw p) = kPageSize" "lp_Slot (i + 1) \<le> kPageSize" "slot_rep h (lp_raw p) i off ptr e"
  shows "lp_Rec p i 0 (rec_size e) = rec_bytes ptr e" "lp_key p i = kv_key e" "lp_value h p i = Some (kv_value e)" "lp_entry h p i = Some e"
proof -
  note s = slot_reads [OF assms]
  have g: "get off (rec_size e) (lp_raw p) = rec_bytes ptr e" and b: "off + rec_size e \<le> kPageSize"
    and bl: "is_large e \<Longrightarrow> h ptr = Some (blob_bytes (kv_value e)) \<and> length (kv_value e) < 2 ^ 64"
    using assms(3) by (simp_all add: slot_rep_def)
  have vl: "\<not> is_large e \<Longrightarrow> length (kv_value e) < kPageSize" by (simp add: is_large_def kPageSize_def)
  show "lp_Rec p i 0 (rec_size e) = rec_bytes ptr e" using g by (simp add: lp_Rec_def s)
  note ga = get_append [OF g [unfolded rec_bytes_def]]
  from ga show k: "lp_key p i = kv_key e" by (simp add: lp_key_def lp_Rec_def s)
  have v: "get (off + length (kv_key e)) (if is_large e then 8 else length (kv_value e)) (lp_raw p) = (if is_large e then WriteUint64LE ptr else kv_value e)"
    using ga by (auto split: if_splits)
  show vv: "lp_value h p i = Some (kv_value e)"
  proof (cases "is_large e")
    case True
    then have "rd64 (lp_Rec p i (length (kv_key e)) 8) 0 = ptr" using v by (intro rd64_get) (simp_all add: lp_Rec_def s get_def)
    with True bl show ?thesis by (simp add: lp_value_def s blob_reads)
  next
    case False
    then show ?thesis using v vl val_field_reads(3) [OF vl] by (simp add: lp_value_def s lp_Rec_def unat_of_nat kPageSize_def)
  qed
  show "lp_entry h p i = Some e" by (simp add: lp_entry_def k vv s)
qed

lemma lp_rep_slot:
  assumes "lp_rep h p es" "i < length es"
  obtains off ptr where "length (lp_raw p) = kPageSize" "lp_Slot (i + 1) \<le> kPageSize" "slot_rep h (lp_raw p) i off ptr (es ! i)" "lp_data_start p \<le> off"
proof -
  from assms obtain off ptr where "lp_data_start p \<le> off" "slot_rep h (lp_raw p) i off ptr (es ! i)" unfolding lp_rep_def by blast
  moreover have "lp_Slot (i + 1) \<le> lp_Slot (length es)" using assms(2) by (simp add: lp_Slot_def kSlotSize_def)
  moreover have "lp_Slot (length es) \<le> kPageSize" "length (lp_raw p) = kPageSize" using assms(1) by (auto simp: lp_rep_def)
  ultimately show ?thesis by (intro that [of off ptr]) auto
qed

lemma lp_rep_reads:
  assumes "lp_rep h p es" "i < length es"
  shows "lp_key p i = kv_key (es ! i)" "lp_value h p i = Some (kv_value (es ! i))" "lp_entry h p i = Some (es ! i)"
    "lp_Timestamp p i = kv_timestamp (es ! i)" "lp_IsTombstone p i = kv_is_tombstone (es ! i)" "unat (lp_KeyLen p i) = length (kv_key (es ! i))"
  by (rule lp_rep_slot [OF assms], simp add: slot_reads record_reads)+

lemma lp_Free_rep: "lp_rep h p es \<Longrightarrow> lp_Free p = leaf_Free es"
proof -
  assume r: "lp_rep h p es"
  have "sum_list (map (\<lambda>e. rec_size e + kSlotSize) es) = sum_list (map rec_size es) + length es * kSlotSize" by (induction es) simp_all
  with r show ?thesis by (auto simp: lp_rep_def lp_Free_def leaf_Free_def lp_Slot_def kSlotBase_def)
qed

lemma lp_find_rep:
  "lp_rep h p es \<Longrightarrow> 0 \<le> lo \<Longrightarrow> hi < int (length es) \<Longrightarrow> lp_find key p lo hi = leaf_find key es lo hi"
proof (induction key p lo hi rule: lp_find.induct)
  case (1 key p lo hi)
  show ?case
  proof (cases "lo \<le> hi")
    case True
    let ?mid = "(lo + hi) div 2"
    have m: "0 \<le> ?mid" "nat ?mid < length es" "?mid \<le> hi" "lo \<le> ?mid" using True 1(4,5) by linarith+
    with lp_rep_reads(1) [OF 1(3) m(2)] 1 True show ?thesis by (subst lp_find.simps, subst leaf_find.simps) (simp add: Let_def)
  qed (simp add: lp_find.simps leaf_find.simps)
qed

lemma lp_Find_rep:
  assumes "lp_rep h p es"
  shows "lp_Find key p = (leaf_Find key es, leaf_Find key es < length es \<and> kv_key (es ! leaf_Find key es) = key)"
proof -
  have "lp_count p = length es" using assms by (simp add: lp_rep_def)
  moreover have "lp_find key p 0 (int (length es) - 1) = leaf_find key es 0 (int (length es) - 1)" by (rule lp_find_rep [OF assms]) simp_all
  ultimately show ?thesis using lp_rep_reads(1) [OF assms] by (auto simp: lp_Find_def leaf_Find_def Let_def)
qed

lemma lp_scan_rep:
  assumes "lp_rep h p es" "length key < 2 ^ 16"
  shows "lp_scan key ts ab h p i = mt_scan key ts ab (drop i es)"
proof (induction "length es - i" arbitrary: i)
  case 0
  then show ?case using assms by (subst lp_scan.simps) (simp add: lp_rep_def)
next
  case (Suc n)
  then have i: "i < length es" by simp
  note r = lp_rep_reads [OF assms(1) i]
  have c: "lp_count p = length es" using assms(1) by (simp add: lp_rep_def)
  have k: "lp_Rec p i 0 (unat (lp_KeyLen p i)) = kv_key (es ! i)" using r(1) by (simp add: lp_key_def)
  have "lp_KeyLen p i \<noteq> of_nat (length key) \<longleftrightarrow> length (kv_key (es ! i)) \<noteq> length key"
    using r(6) assms(2) by (auto simp: word_unat_eq_iff unat_of_nat)
  then have differ: "lp_KeyLen p i \<noteq> of_nat (length key) \<or> lp_Rec p i 0 (unat (lp_KeyLen p i)) \<noteq> take (unat (lp_KeyLen p i)) key \<longleftrightarrow> kv_key (es ! i) \<noteq> key"
    using k r(6) by auto
  have d: "drop i es = es ! i # drop (Suc i) es" using i by (simp add: Cons_nth_drop_Suc)
  have "lp_scan key ts ab h p (Suc i) = mt_scan key ts ab (drop (Suc i) es)" using Suc by (intro Suc(1)) simp
  then show ?case using i unfolding d by (subst lp_scan.simps) (simp only: Let_def c differ r(2,4,5) mt_scan.simps Suc_eq_plus1 if_True)
qed

section \<open>Putting an entry on a page\<close>

lemma get_put_inside: "k + m \<le> length bs \<Longrightarrow> i + length bs \<le> length raw \<Longrightarrow> get (i + k) m (put i bs raw) = get k m bs"
  using get_put_same [of i bs raw] get_get [of k m "length bs" i "put i bs raw"] by simp

lemma lp_SetSlot_put:
  assumes "lp_Slot (i + 1) \<le> length raw"
  shows "lp_SetSlot i off klen vlen ts tomb raw
    = put (lp_Slot i) (WriteUint16LE off @ WriteUint16LE klen @ WriteUint16LE (if tomb then vlen OR 0x8000 else vlen) @ WriteUint64LE ts) raw"
proof -
  have l: "lp_Slot i + 14 \<le> length raw" using assms by (simp add: lp_Slot_def kSlotSize_def)
  let ?b = "WriteUint16LE off" and ?c = "WriteUint16LE klen" and ?d = "WriteUint16LE (if tomb then vlen OR 0x8000 else vlen)" and ?e = "WriteUint64LE ts"
  have "put (lp_Slot i + 2) ?c (put (lp_Slot i) ?b raw) = put (lp_Slot i) (?b @ ?c) raw" using put_put [of "lp_Slot i" ?b raw ?c] l by simp
  moreover have "put (lp_Slot i + 4) ?d (put (lp_Slot i) (?b @ ?c) raw) = put (lp_Slot i) (?b @ ?c @ ?d) raw"
    using put_put [of "lp_Slot i" "?b @ ?c" raw ?d] l by simp
  moreover have "put (lp_Slot i + 6) ?e (put (lp_Slot i) (?b @ ?c @ ?d) raw) = put (lp_Slot i) (?b @ ?c @ ?d @ ?e) raw"
    using put_put [of "lp_Slot i" "?b @ ?c @ ?d" raw ?e] l by simp
  ultimately show ?thesis by (simp add: lp_SetSlot_def Let_def)
qed

lemma length_lp_shift [simp]: "lp_Slot (n + 1) \<le> length raw \<Longrightarrow> length (lp_shift pos n raw) = length raw"
  by (auto simp: lp_shift_def lp_Slot_def kSlotSize_def)

lemma lp_shift_reads:
  assumes "lp_Slot (n + 1) \<le> length raw"
  shows "i < pos \<Longrightarrow> i < n \<Longrightarrow> get (lp_Slot i) kSlotSize (lp_shift pos n raw) = get (lp_Slot i) kSlotSize raw"
    and "pos \<le> i \<Longrightarrow> i < n \<Longrightarrow> get (lp_Slot (Suc i)) kSlotSize (lp_shift pos n raw) = get (lp_Slot i) kSlotSize raw"
    and "lp_Slot (n + 1) \<le> j \<Longrightarrow> get j m (lp_shift pos n raw) = get j m raw"
proof -
  show "get (lp_Slot i) kSlotSize (lp_shift pos n raw) = get (lp_Slot i) kSlotSize raw" if "i < pos" "i < n"
    using that assms by (auto simp: lp_shift_def lp_Slot_def kSlotSize_def intro!: get_put_below)
  show "get j m (lp_shift pos n raw) = get j m raw" if "lp_Slot (n + 1) \<le> j"
    using that assms by (auto simp: lp_shift_def lp_Slot_def kSlotSize_def intro!: get_put_above)
  show "get (lp_Slot (Suc i)) kSlotSize (lp_shift pos n raw) = get (lp_Slot i) kSlotSize raw" if "pos \<le> i" "i < n"
  proof -
    let ?bs = "get (lp_Slot pos) ((n - pos) * kSlotSize) raw" and ?k = "(i - pos) * kSlotSize"
    have l: "length ?bs = (n - pos) * kSlotSize" using assms that by (intro length_get) (simp add: lp_Slot_def kSlotSize_def)
    have k: "?k + kSlotSize \<le> (n - pos) * kSlotSize" using that by (simp add: kSlotSize_def)
    have "lp_Slot (Suc i) = lp_Slot (pos + 1) + ?k" "lp_Slot i = lp_Slot pos + ?k" using that by (simp_all add: lp_Slot_def kSlotSize_def)
    moreover have "get (lp_Slot (pos + 1) + ?k) kSlotSize (put (lp_Slot (pos + 1)) ?bs raw) = get ?k kSlotSize ?bs"
      using k l assms that by (intro get_put_inside) (simp_all add: lp_Slot_def kSlotSize_def)
    moreover have "get ?k kSlotSize ?bs = get (lp_Slot pos + ?k) kSlotSize raw" using k by (rule get_get [symmetric])
    ultimately show ?thesis using that by (simp add: lp_shift_def)
  qed
qed

text \<open>
  The common part of \<open>InsertEntry\<close> and \<open>CopyEntry\<close>: the record below \<open>data_start\<close>, the slots from \<open>pos\<close> on one
  place up, and the new slot.
\<close>

definition lp_place :: "nat \<Rightarrow> u64 \<Rightarrow> KeyValuePair \<Rightarrow> leaf_page \<Rightarrow> leaf_page" where
  "lp_place pos ptr e p =
     (let off = lp_data_start p - rec_size e
      in p\<lparr>lp_count := lp_count p + 1, lp_data_start := off, lp_slot_end := lp_slot_end p + kSlotSize,
           lp_raw := put (lp_Slot pos) (slot_bytes off e) (lp_shift pos (lp_count p) (put off (rec_bytes ptr e) (lp_raw p)))\<rparr>)"

lemma slot_rep_mono: "slot_rep h raw i off ptr e \<Longrightarrow> h \<subseteq>\<^sub>m h' \<Longrightarrow> slot_rep h' raw i off ptr e"
  by (auto simp: slot_rep_def map_le_def dom_def)

lemma lp_rep_mono: "lp_rep h p es \<Longrightarrow> h \<subseteq>\<^sub>m h' \<Longrightarrow> lp_rep h' p es"
  unfolding lp_rep_def by (meson slot_rep_mono)

lemma lp_place_rep:
  assumes rep: "lp_rep h p es" and pos: "pos \<le> length es" and room: "\<not> leaf_Free es < rec_size e + kSlotSize"
    and large: "is_large e \<Longrightarrow> h ptr = Some (blob_bytes (kv_value e)) \<and> length (kv_value e) < 2 ^ 64"
  shows "lp_rep h (lp_place pos ptr e p) (take pos es @ e # drop pos es)"
proof -
  let ?n = "length es" and ?ds = "lp_data_start p" and ?raw = "lp_raw p" and ?es = "take pos es @ e # drop pos es"
  let ?off = "lp_data_start p - rec_size e"
  let ?raw1 = "put ?off (rec_bytes ptr e) ?raw"
  let ?raw2 = "lp_shift pos ?n ?raw1"
  let ?raw3 = "put (lp_Slot pos) (slot_bytes ?off e) ?raw2"
  have c: "length ?raw = kPageSize" "lp_count p = ?n" "lp_slot_end p = lp_Slot ?n" "?ds + sum_list (map rec_size es) = kPageSize" "lp_Slot ?n \<le> ?ds"
    using rep by (auto simp: lp_rep_def)
  have fit: "lp_Slot (?n + 1) \<le> ?off" "rec_size e \<le> ?ds" "?ds \<le> kPageSize"
    using room lp_Free_rep [OF rep] c by (auto simp: lp_Free_def lp_Slot_def kSlotSize_def split: if_splits)
  have l1: "length ?raw1 = kPageSize" using c fit by simp
  have sl: "lp_Slot (?n + 1) \<le> kPageSize" using fit by simp
  have l2: "length ?raw2 = kPageSize" using l1 sl by simp
  have ps: "lp_Slot pos + kSlotSize \<le> lp_Slot (?n + 1)" using pos by (simp add: lp_Slot_def kSlotSize_def)
  have low: "get (lp_Slot i) kSlotSize ?raw1 = get (lp_Slot i) kSlotSize ?raw" if "i < ?n" for i
    using that fit c by (intro get_put_below) (auto simp: lp_Slot_def kSlotSize_def)
  have other: "get j m ?raw3 = get j m ?raw2" if "j + m \<le> lp_Slot pos \<or> lp_Slot (Suc pos) \<le> j" for j m
    using that
  proof
    assume "j + m \<le> lp_Slot pos"
    then show ?thesis using ps sl l2 by (intro get_put_below) simp_all
  next
    assume "lp_Slot (Suc pos) \<le> j"
    moreover have "lp_Slot (Suc pos) = lp_Slot pos + kSlotSize" by (simp add: lp_Slot_def)
    ultimately show ?thesis using order_trans [OF ps sl] l2 by (intro get_put_above) simp_all
  qed
  have high: "get j m ?raw3 = get j m ?raw1" if "lp_Slot (?n + 1) \<le> j" for j m
  proof -
    have "lp_Slot (Suc pos) \<le> j" using that pos by (simp add: lp_Slot_def kSlotSize_def)
    then show ?thesis using that l1 sl lp_shift_reads(3) [of ?n ?raw1 j m pos] by (simp add: other)
  qed
  have old: "\<exists>off ptr. ?off \<le> off \<and> slot_rep h ?raw3 i' off ptr (es ! i)"
    if i: "i < ?n" and sh: "get (lp_Slot i') kSlotSize ?raw3 = get (lp_Slot i) kSlotSize ?raw" for i i'
  proof -
    obtain off pt where o: "slot_rep h ?raw i off pt (es ! i)" "?ds \<le> off" using lp_rep_slot [OF rep i] by blast
    have "get off (rec_size (es ! i)) ?raw3 = get off (rec_size (es ! i)) ?raw1" using o(2) fit by (intro high) simp
    also have "\<dots> = get off (rec_size (es ! i)) ?raw" using o(2) fit c by (intro get_put_above) simp_all
    finally show ?thesis using o sh by (intro exI [of _ off] exI [of _ pt]) (simp add: slot_rep_def)
  qed
  have new: "slot_rep h ?raw3 pos ?off ptr e"
  proof -
    have "get (lp_Slot pos) kSlotSize ?raw3 = slot_bytes ?off e" using get_put_same [of "lp_Slot pos" "slot_bytes ?off e" ?raw2] ps sl l2 by simp
    moreover have "get ?off (rec_size e) ?raw3 = rec_bytes ptr e" using high [of ?off "rec_size e"] get_put_same [of ?off "rec_bytes ptr e" ?raw] fit c by simp
    ultimately show ?thesis using large fit by (simp add: slot_rep_def)
  qed
  have slots: "\<exists>off ptr. ?off \<le> off \<and> slot_rep h ?raw3 i off ptr (?es ! i)" if i: "i < length ?es" for i
  proof (cases i pos rule: linorder_cases)
    case less
    then have "get (lp_Slot i) kSlotSize ?raw3 = get (lp_Slot i) kSlotSize ?raw"
      using pos sl l1 low lp_shift_reads(1) [of ?n ?raw1 i pos] by (subst other) (auto simp: lp_Slot_def kSlotSize_def)
    with less pos old [of i i] show ?thesis by (simp add: nth_append)
  next
    case equal
    with new pos show ?thesis by (intro exI [of _ ?off] exI [of _ ptr]) (simp add: nth_append)
  next
    case greater
    then obtain j where j: "i = Suc j" "pos \<le> j" "j < ?n" using i pos by (cases i) auto
    then have "get (lp_Slot i) kSlotSize ?raw3 = get (lp_Slot j) kSlotSize ?raw"
      using sl l1 low lp_shift_reads(2) [of ?n ?raw1 pos j] by (subst other) (auto simp: lp_Slot_def kSlotSize_def)
    with j pos old [of j i] show ?thesis by (simp add: nth_append min_def Suc_diff_le)
  qed
  have "sum_list (map rec_size (take pos es)) + sum_list (map rec_size (drop pos es)) = sum_list (map rec_size es)"
    by (metis append_take_drop_id map_append sum_list_append)
  moreover have "length ?raw3 = kPageSize" using ps sl l2 by (subst length_put) simp_all
  moreover have "length ?es = ?n + 1" "lp_Slot (?n + 1) = lp_Slot ?n + kSlotSize" using pos by (simp_all add: lp_Slot_def)
  ultimately show ?thesis using c fit slots by (simp add: lp_rep_def lp_place_def Let_def)
qed

lemma lp_new_rep: "length stale = kPageSize \<Longrightarrow> lp_rep h (lp_new stale) []"
  by (simp add: lp_rep_def lp_new_def lp_Slot_def kSlotBase_def kPageSize_def)

text \<open>A record that the engine admits: its sizes do not wrap at 32 bits.\<close>

definition fits_word :: "KeyValuePair \<Rightarrow> bool" where
  "fits_word e \<longleftrightarrow> length (kv_key e) + length (kv_value e) + 22 < 2 ^ 32"

lemma lp_put_place:
  assumes rep: "lp_rep h p es" and pos: "pos \<le> length es" and w: "fits_word e"
  shows "lp_put pos e addr p h =
    (if leaf_Free es < rec_size e + kSlotSize then None
     else Some (lp_place pos addr e p, if is_large e then h(addr \<mapsto> blob_bytes (kv_value e)) else h))"
proof -
  have c: "length (lp_raw p) = kPageSize" "lp_count p = length es" "lp_data_start p \<le> kPageSize" using rep by (auto simp: lp_rep_def)
  have sz: "(length (kv_key e) mod 2 ^ 32 + (if is_large e then 8 else length (kv_value e) mod 2 ^ 32)) mod 2 ^ 32 = rec_size e"
    "(rec_size e + kSlotSize) mod 2 ^ 32 = rec_size e + kSlotSize"
    using w by (simp_all add: fits_word_def rec_size_def kSlotSize_def)
  show ?thesis
  proof (cases "leaf_Free es < rec_size e + kSlotSize")
    case True
    then show ?thesis by (simp only: lp_put_def lp_InsertEntry_def Let_def sz lp_Free_rep [OF rep] if_True)
  next
    case False
    let ?off = "lp_data_start p - rec_size e"
    have fit: "lp_Slot (length es + 1) \<le> ?off" "rec_size e \<le> lp_data_start p"
      using False lp_Free_rep [OF rep] rep by (auto simp: lp_rep_def lp_Free_def lp_Slot_def kSlotSize_def split: if_splits)
    have off: "?off mod 2 ^ 16 = ?off" using c(3) by (simp add: kPageSize_def)
    have rb: "put (?off + length (kv_key e)) (if is_large e then WriteUint64LE addr else kv_value e) (put ?off (kv_key e) (lp_raw p)) = put ?off (rec_bytes addr e) (lp_raw p)"
      unfolding rec_bytes_def using c fit by (intro put_put) (simp add: rec_size_def)
    have "length (put ?off (rec_bytes addr e) (lp_raw p)) = kPageSize" using c fit by simp
    moreover have "lp_Slot (length es + 1) \<le> kPageSize" "lp_Slot (pos + 1) \<le> lp_Slot (length es + 1)" using fit c pos by (simp_all add: lp_Slot_def kSlotSize_def)
    ultimately have l: "lp_Slot (pos + 1) \<le> length (lp_shift pos (length es) (put ?off (rec_bytes addr e) (lp_raw p)))" by (subst length_lp_shift) simp_all
    have rbs: "is_large e \<Longrightarrow> put (?off + length (kv_key e)) (WriteUint64LE addr) (put ?off (kv_key e) (lp_raw p)) = put ?off (rec_bytes addr e) (lp_raw p)"
      "\<not> is_large e \<Longrightarrow> put (?off + length (kv_key e)) (kv_value e) (put ?off (kv_key e) (lp_raw p)) = put ?off (rec_bytes addr e) (lp_raw p)"
      using rb by simp_all
    show ?thesis using False
      by (simp add: lp_put_def lp_InsertEntry_def Let_def sz [simplified] off [simplified] lp_Free_rep [OF rep] c(2) rbs lp_SetSlot_put [OF l] lp_place_def slot_bytes_def val_field_def blob_bytes_def split: if_splits)
  qed
qed

text \<open>The allocator returns an address that is not in use.\<close>

lemma lp_put_rep:
  assumes rep: "lp_rep h p es" and pos: "pos \<le> length es" and w: "fits_word e" and addr: "is_large e \<Longrightarrow> h addr = None"
  shows "case leaf_InsertEntry pos e es of
      None \<Rightarrow> lp_put pos e addr p h = None
    | Some es' \<Rightarrow> \<exists>p' h'. lp_put pos e addr p h = Some (p', h') \<and> h \<subseteq>\<^sub>m h' \<and> lp_rep h' p' es'"
proof (cases "leaf_Free es < rec_size e + kSlotSize")
  case False
  let ?h = "if is_large e then h(addr \<mapsto> blob_bytes (kv_value e)) else h"
  have h: "h \<subseteq>\<^sub>m ?h" using addr by (auto simp: map_le_def)
  have "lp_rep ?h (lp_place pos addr e p) (take pos es @ e # drop pos es)"
    using w by (intro lp_place_rep [OF lp_rep_mono [OF rep h] pos False]) (simp_all add: fits_word_def)
  with h False show ?thesis by (simp add: lp_put_place [OF rep pos w] leaf_InsertEntry_def)
qed (simp add: lp_put_place [OF rep pos w] leaf_InsertEntry_def)

lemma lp_CopyEntry_place:
  assumes src: "length (lp_raw src) = kPageSize" "lp_Slot (i + 1) \<le> kPageSize" "slot_rep h (lp_raw src) i off ptr e" and rep: "lp_rep h dst es"
  shows "lp_CopyEntry src i dst (length es) = (if leaf_Free es < rec_size e + kSlotSize then dst else lp_place (length es) ptr e dst)"
proof -
  note s = slot_reads [OF src] record_reads [OF src]
  have c: "length (lp_raw dst) = kPageSize" "lp_count dst = length es" "lp_data_start dst \<le> kPageSize" using rep by (auto simp: lp_rep_def)
  have vl: "\<not> is_large e \<Longrightarrow> length (kv_value e) < kPageSize" by (simp add: is_large_def kPageSize_def)
  have bl: "(lp_ValLen src i = kLargeValFlag) = is_large e" using s(4) val_field_reads(3) [OF vl] by simp
  have kl: "lp_KeyLen src i = of_nat (length (kv_key e))" using arg_cong [OF s(2), of "of_nat :: nat \<Rightarrow> u16"] by simp
  have sz: "length (kv_key e) + unat (if is_large e then 8 else of_nat (length (kv_value e)) :: u16) = rec_size e"
    using vl by (cases "is_large e") (simp_all add: rec_size_def unat_of_nat kPageSize_def)
  have sz': "unat (lp_KeyLen src i) + unat (if is_large e then 8 else lp_ValLen src i) = rec_size e" using s(2,4) sz by (simp split: if_splits)
  show ?thesis
  proof (cases "leaf_Free es < rec_size e + kSlotSize")
    case True
    then show ?thesis by (simp only: lp_CopyEntry_def Let_def bl sz' lp_Free_rep [OF rep] if_True)
  next
    case False
    let ?off = "lp_data_start dst - rec_size e"
    have fit: "lp_Slot (length es + 1) \<le> ?off" "rec_size e \<le> lp_data_start dst"
      using False lp_Free_rep [OF rep] rep by (auto simp: lp_rep_def lp_Free_def lp_Slot_def kSlotSize_def split: if_splits)
    have off: "?off mod 2 ^ 16 = ?off" using c(3) by (simp add: kPageSize_def)
    have "length (put ?off (rec_bytes ptr e) (lp_raw dst)) = kPageSize" using c fit by simp
    then have l: "lp_Slot (length es + 1) \<le> length (lp_shift (length es) (length es) (put ?off (rec_bytes ptr e) (lp_raw dst)))"
      using fit c by (subst length_lp_shift) simp_all
    have "(if lp_IsTombstone src i then (if is_large e then kLargeValFlag OR 0x8000 else (if is_large e then 8 else lp_ValLen src i) OR 0x8000)
        else if is_large e then kLargeValFlag else (if is_large e then 8 else lp_ValLen src i)) = val_field e"
      using s(4,5) by (simp add: val_field_def)
    then show ?thesis using False
      by (simp only: lp_CopyEntry_def Let_def bl sz' s(3,6) kl [symmetric] c(2) off lp_Free_rep [OF rep] if_False lp_SetSlot_put [OF l] lp_place_def slot_bytes_def)
  qed
qed

lemma lp_rep_cost: "lp_rep h p es \<Longrightarrow> leaf_cost es \<le> leaf_room"
proof -
  assume r: "lp_rep h p es"
  have "leaf_cost es = sum_list (map rec_size es) + length es * kSlotSize" by (induction es) (simp_all add: rec_cost_def)
  with r show ?thesis by (auto simp: lp_rep_def leaf_room_def lp_Slot_def kSlotBase_def)
qed

lemma lp_CopyEntry_rep:
  assumes "lp_rep h src es" "i < length es" "lp_rep h dst ds"
  shows "lp_rep h (lp_CopyEntry src i dst (lp_count dst)) (leaf_CopyEntry (es ! i) ds)"
proof -
  obtain off ptr where o: "length (lp_raw src) = kPageSize" "lp_Slot (i + 1) \<le> kPageSize" "slot_rep h (lp_raw src) i off ptr (es ! i)"
    by (rule lp_rep_slot [OF assms(1,2)])
  have n: "lp_count dst = length ds" using assms(3) by (simp add: lp_rep_def)
  have "is_large (es ! i) \<Longrightarrow> h ptr = Some (blob_bytes (kv_value (es ! i))) \<and> length (kv_value (es ! i)) < 2 ^ 64" using o(3) by (simp add: slot_rep_def)
  with lp_place_rep [OF assms(3), of "length ds" "es ! i" ptr] assms(3) show ?thesis
    unfolding n lp_CopyEntry_place [OF o assms(3)] by (simp add: leaf_CopyEntry_def)
qed

lemma lp_half_rep:
  assumes "lp_rep h leaf es" "\<forall>i \<in> set is. i < length es" "length stale = kPageSize"
  shows "lp_rep h (lp_half leaf is stale) (fold leaf_CopyEntry (map ((!) es) is) [])"
proof -
  have "lp_rep h d ds \<Longrightarrow> lp_rep h (fold (\<lambda>i d. lp_CopyEntry leaf i d (lp_count d)) is d) (fold leaf_CopyEntry (map ((!) es) is) ds)" for d ds
    using assms(2) by (induction "is" arbitrary: d ds) (simp_all add: lp_CopyEntry_rep [OF assms(1)])
  then show ?thesis using lp_new_rep [OF assms(3)] by (simp add: lp_half_def)
qed

lemma map_nth_upt: "n \<le> length xs \<Longrightarrow> map ((!) xs) [m..<n] = drop m (take n xs)"
  by (rule nth_equalityI) simp_all

lemma lp_split_halves:
  assumes "lp_rep h leaf es" "length stale1 = kPageSize" "length stale2 = kPageSize"
  shows "lp_rep h (lp_half leaf [0..<length es div 2] stale1) (take (length es div 2) es)"
    and "lp_rep h (lp_half leaf [length es div 2..<length es] stale2) (drop (length es div 2) es)"
proof -
  let ?mid = "length es div 2"
  have "leaf_cost (take ?mid es) \<le> leaf_room" "leaf_cost (drop ?mid es) \<le> leaf_room"
    using lp_rep_cost [OF assms(1)] leaf_cost_take_drop [of ?mid es] by simp_all
  then have "fold leaf_CopyEntry (take ?mid es) [] = take ?mid es" "fold leaf_CopyEntry (drop ?mid es) [] = drop ?mid es"
    using leaf_CopyEntry_fold [of "[]"] by simp_all
  moreover have "\<forall>i \<in> set [0..<?mid]. i < length es" "\<forall>i \<in> set [?mid..<length es]. i < length es" by auto
  ultimately show "lp_rep h (lp_half leaf [0..<?mid] stale1) (take ?mid es)" "lp_rep h (lp_half leaf [?mid..<length es] stale2) (drop ?mid es)"
    using lp_half_rep [OF assms(1) _ assms(2), of "[0..<?mid]"] lp_half_rep [OF assms(1) _ assms(3), of "[?mid..<length es]"] by (simp_all add: map_nth_upt)
qed

lemma leaf_InsertEntry_nonempty: "leaf_InsertEntry pos kv es = Some es' \<Longrightarrow> es' \<noteq> []"
  by (auto simp: leaf_InsertEntry_def split: if_splits)

lemma lp_split_rep:
  assumes rep: "lp_rep h leaf es" and pos: "pos \<le> length es" and w: "fits_word kv" and addr: "is_large kv \<Longrightarrow> h addr = None"
    and st: "length stale1 = kPageSize" "length stale2 = kPageSize" and ne: "es \<noteq> []"
    and sp: "leaf_split pos kv es = (l, sep, r)"
  shows "\<exists>left right h'. lp_split pos kv addr stale1 stale2 leaf h = (left, sep, right, h') \<and> h \<subseteq>\<^sub>m h' \<and> lp_rep h' left l \<and> lp_rep h' right r"
proof -
  let ?mid = "length es div 2"
  let ?a = "take ?mid es" and ?b = "drop ?mid es"
  have n: "lp_count leaf = length es" using rep by (simp add: lp_rep_def)
  have folds: "fold leaf_CopyEntry ?a [] = ?a" "fold leaf_CopyEntry ?b [] = ?b"
    using lp_rep_cost [OF rep] leaf_cost_take_drop [of ?mid es] leaf_CopyEntry_fold [of "[]"] by simp_all
  define left where "left = lp_half leaf [0..<?mid] stale1"
  define right where "right = lp_half leaf [?mid..<length es] stale2"
  note L = lp_split_halves(1) [OF rep st, folded left_def] and R = lp_split_halves(2) [OF rep st, folded right_def]
  have len: "length ?a = ?mid" "lp_count left = length ?a" "lp_count right = length ?b" using L R by (simp_all add: lp_rep_def)
  have sepr: "lp_key q 0 = kv_key (hd es')" if "lp_rep h' q es'" "es' \<noteq> []" for q es' h'
    using lp_rep_reads(1) [OF that(1), of 0] that(2) by (simp add: hd_conv_nth)
  have b: "?b \<noteq> []" using ne by (cases es) (simp_all add: not_le)
  note il = lp_put_rep [where h = h and e = kv and addr = addr, OF L _ w addr] and ir = lp_put_rep [where h = h and e = kv and addr = addr, OF R _ w addr]
  note mono = lp_rep_mono [OF L] lp_rep_mono [OF R]
  show ?thesis
  proof (cases "pos < ?mid")
    case True
    then have p: "pos \<le> length ?a" by simp
    show ?thesis using sp True il [OF p] ir [OF order_refl] L R mono sepr sepr [OF R b]
      by (auto simp: leaf_split_def lp_split_def Let_def n folds left_def [symmetric] right_def [symmetric] len split: option.splits dest: leaf_InsertEntry_nonempty)
  next
    case False
    then have p: "pos - ?mid \<le> length ?b" using pos by simp
    show ?thesis using sp False ir [OF p] il [OF order_refl] L R mono sepr sepr [OF R b]
      by (auto simp: leaf_split_def lp_split_def Let_def n folds left_def [symmetric] right_def [symmetric] len split: option.splits dest: leaf_InsertEntry_nonempty)
  qed
qed

lemma lp_CopyLeafContent_rep:
  assumes "lp_rep h leaf es" "length stale = kPageSize"
  shows "lp_rep h (lp_CopyLeafContent stale leaf) es"
proof -
  let ?raw = "lp_raw leaf" and ?raw' = "put kSlotBase (get kSlotBase 4072 (lp_raw leaf)) stale"
  have l: "length ?raw = kPageSize" using assms(1) by (simp add: lp_rep_def)
  have d: "drop kSlotBase ?raw' = drop kSlotBase ?raw"
    using l assms(2) by (simp add: put_def get_def kSlotBase_def kPageSize_def)
  have g: "get j n ?raw' = get j n ?raw" if j: "kSlotBase \<le> j" for j n
  proof -
    obtain k where "j = kSlotBase + k" using j le_Suc_ex by blast
    then have "drop j xs = drop k (drop kSlotBase xs)" for xs :: bytes by (simp add: add.commute)
    then show ?thesis unfolding get_def using d [unfolded get_def] by (metis (no_types))
  qed
  have sr: "slot_rep h ?raw' i off ptr e" if "slot_rep h ?raw i off ptr e" "lp_data_start leaf \<le> off" for i off ptr e
  proof -
    have "kSlotBase \<le> off" using that(2) assms(1) by (auto simp: lp_rep_def lp_Slot_def)
    then show ?thesis using that(1) by (simp add: slot_rep_def g lp_Slot_def)
  qed
  have "length ?raw' = kPageSize" using l assms(2) by (simp add: put_def get_def kSlotBase_def kPageSize_def)
  then show ?thesis using assms(1) sr unfolding lp_rep_def lp_CopyLeafContent_def by (simp del: get_def put_def) meson
qed

lemma leaf_find_le: "lo \<le> hi + 1 \<Longrightarrow> leaf_find key es lo hi \<le> hi + 1"
proof (induction key es lo hi rule: leaf_find.induct)
  case (1 key es lo hi)
  show ?case
  proof (cases "lo \<le> hi")
    case True
    let ?mid = "(lo + hi) div 2"
    have m: "lo \<le> ?mid" "?mid \<le> hi" using True by linarith+
    with 1(1) [OF True refl] 1(2) [OF True refl] show ?thesis using True by (subst leaf_find.simps) (auto simp: Let_def)
  qed (use 1(3) in \<open>simp add: leaf_find.simps\<close>)
qed

lemma leaf_Find_le: "leaf_Find key es \<le> length es"
  using leaf_find_le [of 0 "int (length es) - 1" key es] by (simp add: leaf_Find_def)

fun lp_result_rep :: "blobs \<Rightarrow> lp_result \<Rightarrow> ins_result \<Rightarrow> bool" where
  "lp_result_rep h (Lp_one p) (One (BLeaf es)) = lp_rep h p es"
| "lp_result_rep h (Lp_two l s r) (Two (BLeaf as) sep (BLeaf bs)) \<longleftrightarrow> lp_rep h l as \<and> lp_rep h r bs \<and> s = sep"
| "lp_result_rep h _ _ = False"

section \<open>Properties\<close>

text \<open>
  C6: the bytes of a leaf page carry out the insertion into the list of entries. On a page that represents a list of entries, the binary search, the copy of the page and the
  insertion of the record with its slot, or the split of the page, give pages that represent exactly what \<open>Bptree\<close> computes on the list: the same
  entries in the same order, the same separator, a split in the same cases, all slots and records inside the page and no two of them overlapping; and no
  page that represented a list before loses it by the new block for a large value.
\<close>
theorem page_insert_refines_entries:
  assumes "lp_rep h leaf es" and "fits_word kv" and "rec_cost kv \<le> leaf_room" and "is_large kv \<Longrightarrow> h addr = None"
    and "length stale = kPageSize" and "length stale1 = kPageSize" and "length stale2 = kPageSize"
  shows "\<exists>res h'. lp_Insert kv addr stale stale1 stale2 leaf h = (res, h') \<and> lp_result_rep h' res (ins_leaf kv es) \<and> (\<forall>p fs. lp_rep h p fs \<longrightarrow> lp_rep h' p fs)"
proof -
  let ?pos = "leaf_Find (kv_key kv) es"
  have pos: "fst (lp_Find (kv_key kv) leaf) = ?pos" using lp_Find_rep [OF assms(1)] by simp
  note le = leaf_Find_le [of "kv_key kv" es]
  note c = lp_CopyLeafContent_rep [OF assms(1,5)]
  note i = lp_put_rep [where h = h and e = kv and addr = addr, OF c le assms(2,4)]
  show ?thesis
  proof (cases "leaf_InsertEntry ?pos kv es")
    case (Some es')
    then show ?thesis using i by (auto simp: lp_Insert_def pos ins_leaf_def intro: lp_rep_mono)
  next
    case None
    then have "es \<noteq> []" using assms(3) by (auto simp: leaf_InsertEntry_def leaf_Free_cost rec_cost_def)
    moreover obtain l sep r where sp: "leaf_split ?pos kv es = (l, sep, r)" by (cases "leaf_split ?pos kv es")
    ultimately obtain left right h' where "lp_split ?pos kv addr stale1 stale2 leaf h = (left, sep, right, h')" "h \<subseteq>\<^sub>m h'" "lp_rep h' left l" "lp_rep h' right r"
      using lp_split_rep [OF assms(1) le assms(2,4,6,7)] by blast
    then show ?thesis using None i sp by (auto simp: lp_Insert_def pos ins_leaf_def intro: lp_rep_mono)
  qed
qed

definition blank :: bytes where
  "blank = replicate kPageSize 0"

definition big_entry :: KeyValuePair where
  "big_entry = mk_kv [1] (replicate 3000 7) 5"

lemma big_entry_simps: "is_large big_entry" "fits_word big_entry" "rec_size big_entry = 9" "length blank = kPageSize" "kv_key big_entry = [1]" "kv_timestamp big_entry = 5"
  "kv_value big_entry = replicate 3000 7" "\<not> kv_is_tombstone big_entry"
  by (simp_all add: big_entry_def is_large_def fits_word_def rec_size_def blank_def mk_kv_def kPageSize_def)

lemma leaf_Find_nil: "leaf_Find key [] = 0"
  using leaf_Find_le [of key "[]"] by simp

lemma big_entry_fits: "leaf_InsertEntry 0 big_entry [] = Some [big_entry]"
  by (simp add: leaf_InsertEntry_def leaf_Free_def big_entry_simps kPageSize_def kSlotSize_def)

theorem page_insert_refines_entries_witness:
  "\<exists>p h'. lp_Insert big_entry 0x1000 blank blank blank (lp_new blank) Map.empty = (Lp_one p, h') \<and> lp_rep h' p [big_entry]"
proof -
  have "ins_leaf big_entry [] = One (BLeaf [big_entry])" by (simp add: ins_leaf_def leaf_Find_nil big_entry_fits)
  moreover have "rec_cost big_entry \<le> leaf_room" by (simp add: rec_cost_def big_entry_simps leaf_room_def kPageSize_def kSlotSize_def)
  ultimately obtain res h' where "lp_Insert big_entry 0x1000 blank blank blank (lp_new blank) Map.empty = (res, h')" "lp_result_rep h' res (One (BLeaf [big_entry]))"
    using page_insert_refines_entries [of Map.empty "lp_new blank" "[]" big_entry "0x1000" blank blank blank] lp_new_rep [of blank] big_entry_simps by auto
  then show ?thesis by (cases res) auto
qed

text \<open>
  a lookup on the bytes of a page is the lookup in its entries, large values and tombstones included.
\<close>
theorem page_lookup_refines_entries:
  assumes "lp_rep h p es" and "length key < 2 ^ 16"
  shows "lp_Lookup key ts ab h p = bt_Lookup key ts ab (BLeaf es)"
  using lp_Find_rep [OF assms(1), of key] lp_scan_rep [OF assms] by (simp add: lp_Lookup_def bt_Lookup_def Let_def)

theorem page_lookup_refines_entries_witness:
  "\<exists>p h. lp_rep h p [big_entry] \<and> lp_Lookup [1] 9 [] h p = Some (replicate 3000 7) \<and> lp_Lookup [1] 4 [] h p = None"
proof -
  have "length blank = kPageSize" by (simp add: big_entry_simps)
  from lp_put_rep [OF lp_new_rep [OF this], of 0 big_entry Map.empty "0x1000"] obtain p h where p: "lp_rep h p [big_entry]" by (auto simp: big_entry_simps big_entry_fits)
  have "leaf_Find [1] [big_entry] = 0" by (simp add: leaf_Find_takeWhile key_ordered_def big_entry_simps)
  with page_lookup_refines_entries [OF p, of "[1]" 9 "[]"] page_lookup_refines_entries [OF p, of "[1]" 4 "[]"] p show ?thesis
    by (intro exI [of _ p] exI [of _ h]) (simp add: bt_Lookup_def big_entry_simps)
qed

lemma lp_small_value:
  assumes "lp_rep h p es" "i < length es" "\<not> is_large (es ! i)" "8 \<le> length (kv_value (es ! i))"
  shows "rd64 (lp_Rec p i (unat (lp_KeyLen p i)) 8) 0 = rd64 (kv_value (es ! i)) 0"
proof -
  let ?e = "es ! i"
  obtain off ptr where o: "length (lp_raw p) = kPageSize" "lp_Slot (i + 1) \<le> kPageSize" "slot_rep h (lp_raw p) i off ptr ?e" by (rule lp_rep_slot [OF assms(1,2)])
  have "get off (rec_size ?e) (lp_raw p) = kv_key ?e @ kv_value ?e" using o(3) assms(3) by (simp add: slot_rep_def rec_bytes_def)
  from get_append [OF this] have "get (off + length (kv_key ?e)) (length (kv_value ?e)) (lp_raw p) = kv_value ?e" by simp
  then have "get (off + length (kv_key ?e)) 8 (lp_raw p) = take 8 (kv_value ?e)" 
    using assms(4) get_get [of 0 8 "length (kv_value ?e)" "off + length (kv_key ?e)" "lp_raw p"] by (simp add: get_def [of 0])
  then have "lp_Rec p i (unat (lp_KeyLen p i)) 8 = take 8 (kv_value ?e)" using slot_reads [OF o] by (simp add: lp_Rec_def)
  then show ?thesis by (simp add: rd64_def)
qed

text \<open>
  a split can register an address that is none. When a large value is to go to the right half of a split page and that half has no room for its record, the record goes to the
  left half, but \<open>SplitCoW\<close> reads the address of the block from the right half: it enters eight bytes of another value among the
  blocks that the destructor frees.
\<close>
theorem page_split_registers_foreign_bytes:
  assumes "lp_rep h leaf es" and "fits_word kv" and "is_large kv \<Longrightarrow> h addr = None" and "length stale1 = kPageSize" and "length stale2 = kPageSize"
    and "length es div 2 \<le> pos" and "pos < length es" and "leaf_InsertEntry (pos - length es div 2) kv (drop (length es div 2) es) = None"
    and "\<not> is_large (es ! pos)" and "8 \<le> length (kv_value (es ! pos))"
  shows "case lp_split pos kv addr stale1 stale2 leaf h of (left, sep, right, h') \<Rightarrow>
    lp_split_blob pos (length es div 2) left right = rd64 (kv_value (es ! pos)) 0"
proof -
  let ?mid = "length es div 2"
  let ?right = "lp_half leaf [?mid..<length es] stale2"
  note R = lp_split_halves(2) [OF assms(1,4,5)]
  have n: "lp_count leaf = length es" and nl: "\<not> pos < ?mid" using assms(1,6) by (simp_all add: lp_rep_def)
  have le: "pos - ?mid \<le> length (drop ?mid es)" using assms(6,7) by simp
  have "lp_put (pos - ?mid) kv addr ?right h = None"
    using lp_put_rep [where h = h and e = kv and addr = addr, OF R le assms(2,3)] assms(8) by simp
  then have "\<exists>left sep h'. lp_split pos kv addr stale1 stale2 leaf h = (left, sep, ?right, h')"
    using nl by (auto simp: lp_split_def Let_def n split: option.splits)
  moreover have "drop ?mid es ! (pos - ?mid) = es ! pos" using assms(6,7) by simp
  ultimately show ?thesis
    using lp_small_value [OF R, of "pos - ?mid"] assms(6,7,9,10) nl by (auto simp: lp_split_blob_def)
qed

definition wide_entry :: "u8 \<Rightarrow> nat \<Rightarrow> KeyValuePair" where
  "wide_entry k n = mk_kv [k] (replicate n 7) 5"

definition wide_leaf :: "KeyValuePair list" where
  "wide_leaf = [wide_entry 1 10, wide_entry 2 1500, wide_entry 4 1500]"

definition long_key_entry :: KeyValuePair where
  "long_key_entry = mk_kv (3 # replicate 1023 0) (replicate 3000 7) 6"

lemma wide_simps [simp]: "n \<le> 2048 \<Longrightarrow> \<not> is_large (wide_entry k n)" "n \<le> 2048 \<Longrightarrow> rec_size (wide_entry k n) = Suc n" "kv_value (wide_entry k n) = replicate n 7"
  "n \<le> 2048 \<Longrightarrow> fits_word (wide_entry k n)" "is_large long_key_entry" "rec_size long_key_entry = 1032" "fits_word long_key_entry"
  by (simp_all add: wide_entry_def is_large_def rec_size_def mk_kv_def kPageSize_def fits_word_def long_key_entry_def)

lemma wide_leaf_rep: "\<exists>p. lp_rep Map.empty p wide_leaf"
proof -
  have step: "\<exists>p'. lp_rep Map.empty p' (es @ [e])" if "lp_rep Map.empty p es" "fits_word e" "\<not> is_large e" "rec_size e + kSlotSize \<le> leaf_Free es" for p es e
    using lp_place_rep [OF that(1) order_refl, of e 0] that(3,4) by (auto simp: not_less)
  have "length blank = kPageSize" by (simp add: big_entry_simps)
  from lp_new_rep [OF this, of Map.empty] step [of _ "[]" "wide_entry 1 10"] obtain p1 where "lp_rep Map.empty p1 [wide_entry 1 10]"
    by (auto simp: leaf_Free_def kPageSize_def kSlotSize_def)
  with step [of p1 "[wide_entry 1 10]" "wide_entry 2 1500"] obtain p2 where "lp_rep Map.empty p2 [wide_entry 1 10, wide_entry 2 1500]"
    by (auto simp: leaf_Free_def kPageSize_def kSlotSize_def)
  with step [of p2 "[wide_entry 1 10, wide_entry 2 1500]" "wide_entry 4 1500"] show ?thesis by (auto simp: leaf_Free_def kPageSize_def kSlotSize_def wide_leaf_def)
qed

theorem page_split_registers_foreign_bytes_witness:
  "\<exists>leaf left sep right h'. lp_rep Map.empty leaf wide_leaf \<and> lp_split 2 long_key_entry 0x1000 blank blank leaf Map.empty = (left, sep, right, h')
    \<and> lp_split_blob 2 1 left right = 0x0707070707070707"
proof -
  obtain leaf where leaf: "lp_rep Map.empty leaf wide_leaf" using wide_leaf_rep by blast
  have n: "length wide_leaf = 3" "drop 1 wide_leaf = [wide_entry 2 1500, wide_entry 4 1500]" "wide_leaf ! 2 = wide_entry 4 1500" by (simp_all add: wide_leaf_def)
  have "leaf_InsertEntry 1 long_key_entry [wide_entry 2 1500, wide_entry 4 1500] = None" by (simp add: leaf_InsertEntry_def leaf_Free_def kPageSize_def kSlotSize_def)
  with page_split_registers_foreign_bytes [OF leaf, where kv = long_key_entry and addr = "0x1000" and ?stale1.0 = blank and ?stale2.0 = blank and pos = 2] n have
    "case lp_split 2 long_key_entry 0x1000 blank blank leaf Map.empty of (left, sep, right, h') \<Rightarrow> lp_split_blob 2 1 left right = rd64 (replicate 1500 7) 0"
    by (simp add: big_entry_simps)
  moreover have "rd64 (replicate 1500 7) 0 = 0x0707070707070707" by (simp add: rd64_def le64_def)
  ultimately show ?thesis using leaf by (auto split: prod.splits)
qed

end
