(* ===== verification/Node_Store.thy ===== *)
theory Node_Store
  imports Leaf_Page
begin

text \<open>
  The memory of an inner node (\<open>InternalNode\<close>, its \<open>Store\<close> and \<open>StaticVec\<close> in \<^verbatim>\<open>include/kvdb/bptree.hpp\<close>): separators in a buffer of 1024 bytes with
  arrays of offsets and lengths, and two arrays of pointers, to nodes and to leaves. None of the arrays is checked: a write behind the end of one is the result
  \<open>None\<close>. \<open>Bptree\<close> treats a node as a list of separators and a list of children; here the search and the ascent of a split on the arrays are
  shown to be those on the lists. A pointer is a number, and \<open>None\<close> is the null pointer.
\<close>

section \<open>Arrays with a count\<close>

record 'a static_vec =
  sv_data :: "'a list"
  sv_n :: nat

definition sv_push_back :: "'a \<Rightarrow> 'a static_vec \<Rightarrow> 'a static_vec option" where
  "sv_push_back x v = (if sv_n v < length (sv_data v) then Some (v\<lparr>sv_data := (sv_data v)[sv_n v := x], sv_n := sv_n v + 1\<rparr>) else None)"

text \<open>The loop that moves the elements from \<open>idx\<close> on one place up, from the end.\<close>

fun sv_shift :: "nat \<Rightarrow> nat \<Rightarrow> 'a list \<Rightarrow> 'a list" where
  "sv_shift idx 0 d = d"
| "sv_shift idx (Suc i) d = (if Suc i > idx then sv_shift idx i (d[Suc i := d ! i]) else d)"

definition sv_insert :: "nat \<Rightarrow> 'a \<Rightarrow> 'a static_vec \<Rightarrow> 'a static_vec option" where
  "sv_insert idx x v = (if sv_n v < length (sv_data v)
     then Some (v\<lparr>sv_data := (sv_shift idx (sv_n v) (sv_data v))[idx := x], sv_n := sv_n v + 1\<rparr>) else None)"

lemma sv_shift_list:
  "idx \<le> n \<Longrightarrow> n < length d \<Longrightarrow> (sv_shift idx n d)[idx := x] = take idx d @ x # take (n - idx) (drop idx d) @ drop (Suc n) d"
proof (induction n arbitrary: d)
  case 0
  then show ?case by (simp add: upd_conv_take_nth_drop)
next
  case (Suc n)
  show ?case
  proof (cases "idx = Suc n")
    case True
    then show ?thesis using Suc by (simp add: upd_conv_take_nth_drop)
  next
    case False
    then have i: "idx \<le> n" using Suc by simp
    have "take (Suc (n - idx)) (drop idx d) = take (n - idx) (drop idx d) @ [d ! n]"
      using i Suc(3) by (subst take_Suc_conv_app_nth) simp_all
    moreover have "drop (Suc n) (d[Suc n := d ! n]) = d ! n # drop (Suc (Suc n)) d" using Suc(3) by (simp add: drop_update_swap Cons_nth_drop_Suc [symmetric])
    moreover have "take (n - idx) (drop idx (d[Suc n := d ! n])) = take (n - idx) (drop idx d)" using i by (simp add: drop_update_swap)
    ultimately show ?thesis using Suc(1) [of "d[Suc n := d ! n]"] Suc(3) i by (simp add: Suc_diff_le)
  qed
qed

definition sv_list :: "'a static_vec \<Rightarrow> 'a list" where
  "sv_list v = take (sv_n v) (sv_data v)"

definition sv_ok :: "nat \<Rightarrow> 'a static_vec \<Rightarrow> bool" where
  "sv_ok cap v \<longleftrightarrow> length (sv_data v) = cap \<and> sv_n v \<le> cap"

lemma sv_insert_list:
  assumes "sv_ok cap v" "length (sv_list v) < cap" "idx \<le> length (sv_list v)"
  obtains v' where "sv_insert idx x v = Some v'" "sv_ok cap v'" "sv_list v' = take idx (sv_list v) @ x # drop idx (sv_list v)"
proof -
  let ?d = "sv_data v" and ?n = "sv_n v"
  have n: "?n < length ?d" "idx \<le> ?n" using assms by (simp_all add: sv_ok_def sv_list_def)
  let ?v = "v\<lparr>sv_data := (sv_shift idx ?n ?d)[idx := x], sv_n := ?n + 1\<rparr>"
  note d = sv_shift_list [OF n(2,1), of x]
  have "sv_list ?v = take idx (sv_list v) @ x # drop idx (sv_list v)" using n by (simp add: sv_list_def d min_def drop_take Suc_diff_le) arith
  moreover have "sv_ok cap ?v" using n assms(1) by (simp add: sv_ok_def d)
  ultimately show ?thesis using n by (intro that [of ?v]) (simp_all add: sv_insert_def)
qed

lemma sv_push_back_insert: "sv_push_back x v = sv_insert (sv_n v) x v"
proof -
  have "sv_shift i i (sv_data v) = sv_data v" for i by (cases i) simp_all
  then show ?thesis by (simp add: sv_push_back_def sv_insert_def)
qed

section \<open>The store of a node\<close>

type_synonym child = "nat option \<times> nat option"

record node_store =
  ns_key_count :: nat
  ns_key_data_end :: nat
  ns_key_offs :: "nat list"
  ns_key_lens :: "nat list"
  ns_key_data :: bytes
  ns_children :: "nat option static_vec"
  ns_child_leaves :: "nat option static_vec"

definition kKeyBufSize :: nat where "kKeyBufSize = 1024"

definition ns_new :: node_store where
  "ns_new = \<lparr>ns_key_count = 0, ns_key_data_end = 0, ns_key_offs = replicate kInternalFanout 0, ns_key_lens = replicate kInternalFanout 0,
     ns_key_data = replicate kKeyBufSize 0, ns_children = \<lparr>sv_data = replicate (kInternalFanout + 1) None, sv_n = 0\<rparr>,
     ns_child_leaves = \<lparr>sv_data = replicate (kInternalFanout + 1) None, sv_n = 0\<rparr>\<rparr>"

definition ns_KeyStr :: "node_store \<Rightarrow> nat \<Rightarrow> bytes" where
  "ns_KeyStr s i = get (ns_key_offs s ! i) (ns_key_lens s ! i) (ns_key_data s)"

text \<open>\<open>CompareKey\<close> is positive: the separator is above the key.\<close>

definition ns_above :: "node_store \<Rightarrow> nat \<Rightarrow> bytes \<Rightarrow> bool" where
  "ns_above s i k =
     (let len = ns_key_lens s ! i; m = min len (length k mod 2 ^ 16);
          a = get (ns_key_offs s ! i) m (ns_key_data s); b = take m k
      in if a \<noteq> b then a > b else len > length k)"

definition ns_InsKey :: "nat \<Rightarrow> bytes \<Rightarrow> node_store \<Rightarrow> node_store option" where
  "ns_InsKey pos k s =
     (let len = length k mod 2 ^ 16
      in if ns_key_count s \<ge> kInternalFanout \<or> ns_key_data_end s + len > kKeyBufSize then None
         else Some (s\<lparr>ns_key_offs := (sv_shift pos (ns_key_count s) (ns_key_offs s))[pos := ns_key_data_end s],
                      ns_key_lens := (sv_shift pos (ns_key_count s) (ns_key_lens s))[pos := len],
                      ns_key_data := put (ns_key_data_end s) (take len k) (ns_key_data s),
                      ns_key_data_end := ns_key_data_end s + len, ns_key_count := ns_key_count s + 1\<rparr>))"

definition ns_PushKey :: "bytes \<Rightarrow> node_store \<Rightarrow> node_store option" where
  "ns_PushKey k s = ns_InsKey (ns_key_count s) k s"

definition ns_ResizeKeys :: "nat \<Rightarrow> node_store \<Rightarrow> node_store" where
  "ns_ResizeKeys n s = s\<lparr>ns_key_count := n, ns_key_data_end := (if n > 0 then ns_key_offs s ! (n - 1) + ns_key_lens s ! (n - 1) else 0)\<rparr>"

definition ns_CopyKeysFrom :: "node_store \<Rightarrow> node_store \<Rightarrow> node_store" where
  "ns_CopyKeysFrom src s = s\<lparr>ns_key_count := ns_key_count src, ns_key_data_end := ns_key_data_end src, ns_key_offs := ns_key_offs src, ns_key_lens := ns_key_lens src,
     ns_key_data := put 0 (take (ns_key_data_end src) (ns_key_data src)) (ns_key_data s)\<rparr>"

function ns_find :: "bytes \<Rightarrow> node_store \<Rightarrow> nat \<Rightarrow> nat \<Rightarrow> nat" where
  "ns_find key s lo hi =
     (if lo < hi then
        let mid = (lo + hi) div 2
        in if ns_above s mid key then ns_find key s lo mid else ns_find key s (mid + 1) hi
      else lo)"
  by pat_completeness auto
termination
  by (relation "measure (\<lambda>(_, _, lo, hi). hi - lo)") auto

declare ns_find.simps [simp del]

definition ns_FindChild :: "bytes \<Rightarrow> node_store \<Rightarrow> nat" where
  "ns_FindChild key s = ns_find key s 0 (ns_key_count s)"

text \<open>\<open>PushChild\<close> with \<open>PushLeaf\<close>, \<open>InsChild\<close> with \<open>InsLeaf\<close> and \<open>SetChild\<close> with \<open>SetLeaf\<close>: they are always called together.\<close>

definition ns_push :: "child \<Rightarrow> node_store \<Rightarrow> node_store option" where
  "ns_push c s = Option.bind (sv_push_back (fst c) (ns_children s)) (\<lambda>cs.
     map_option (\<lambda>ls. s\<lparr>ns_children := cs, ns_child_leaves := ls\<rparr>) (sv_push_back (snd c) (ns_child_leaves s)))"

definition ns_insert :: "nat \<Rightarrow> child \<Rightarrow> node_store \<Rightarrow> node_store option" where
  "ns_insert i c s = Option.bind (sv_insert i (fst c) (ns_children s)) (\<lambda>cs.
     map_option (\<lambda>ls. s\<lparr>ns_children := cs, ns_child_leaves := ls\<rparr>) (sv_insert i (snd c) (ns_child_leaves s)))"

definition ns_set :: "nat \<Rightarrow> child \<Rightarrow> node_store \<Rightarrow> node_store" where
  "ns_set i c s = s\<lparr>ns_children := (ns_children s)\<lparr>sv_data := (sv_data (ns_children s))[i := fst c]\<rparr>,
     ns_child_leaves := (ns_child_leaves s)\<lparr>sv_data := (sv_data (ns_child_leaves s))[i := snd c]\<rparr>\<rparr>"

definition ns_child :: "node_store \<Rightarrow> nat \<Rightarrow> child" where
  "ns_child s i = (sv_data (ns_children s) ! i, sv_data (ns_child_leaves s) ! i)"

fun each :: "('a \<Rightarrow> 's \<Rightarrow> 's option) \<Rightarrow> 'a list \<Rightarrow> 's \<Rightarrow> 's option" where
  "each f [] s = Some s"
| "each f (x # xs) s = Option.bind (f x s) (each f xs)"

section \<open>A level of the ascent of a split\<close>

datatype ns_result = Ns_one node_store | Ns_two node_store bytes node_store

definition ns_part :: "node_store \<Rightarrow> nat list \<Rightarrow> nat list \<Rightarrow> node_store option" where
  "ns_part nn ks cs = Option.bind (each ns_PushKey (map (ns_KeyStr nn) ks) (ns_ResizeKeys 0 ns_new)) (each ns_push (map (ns_child nn) cs))"

definition ns_level :: "node_store \<Rightarrow> nat \<Rightarrow> child \<Rightarrow> child \<Rightarrow> bytes \<Rightarrow> ns_result option" where
  "ns_level cp cidx l r sep =
     Option.bind (each ns_push (map (ns_child cp) [0..<sv_n (ns_children cp)]) (ns_CopyKeysFrom cp ns_new)) (\<lambda>nn.
     Option.bind (ns_insert (cidx + 1) r (ns_set cidx l nn)) (\<lambda>nn.
     Option.bind (ns_InsKey cidx sep nn) (\<lambda>nn.
     let n = ns_key_count nn; mid = n div 2
     in if n < kInternalFanout then Some (Ns_one nn)
        else Option.bind (ns_part nn [0..<mid] [0..<mid + 1]) (\<lambda>a.
             map_option (\<lambda>b. Ns_two a (ns_KeyStr nn mid) b) (ns_part nn [mid + 1..<n] [mid + 1..<n + 1])))))"

section \<open>The lists that a store represents\<close>

definition ns_keys :: "node_store \<Rightarrow> bytes list \<Rightarrow> bool" where
  "ns_keys s ks \<longleftrightarrow> ns_key_count s = length ks \<and> length ks \<le> kInternalFanout \<and> length (ns_key_offs s) = kInternalFanout \<and> length (ns_key_lens s) = kInternalFanout
     \<and> length (ns_key_data s) = kKeyBufSize \<and> ns_key_data_end s = sum_list (map length ks) \<and> ns_key_data_end s \<le> kKeyBufSize
     \<and> (\<forall>i < length ks. ns_key_offs s ! i + length (ks ! i) \<le> ns_key_data_end s \<and> ns_key_lens s ! i = length (ks ! i) \<and> ns_KeyStr s i = ks ! i)"

definition ns_kids :: "node_store \<Rightarrow> child list \<Rightarrow> bool" where
  "ns_kids s ps \<longleftrightarrow> sv_ok (kInternalFanout + 1) (ns_children s) \<and> sv_ok (kInternalFanout + 1) (ns_child_leaves s)
     \<and> sv_list (ns_children s) = map fst ps \<and> sv_list (ns_child_leaves s) = map snd ps"

lemma sv_shift_nth:
  assumes "pos \<le> n" "n < length d" "i \<le> n"
  shows "(sv_shift pos n d)[pos := x] ! i = (if i < pos then d ! i else if i = pos then x else d ! (i - 1))"
  unfolding sv_shift_list [OF assms(1,2)] using assms by (auto simp: nth_append nth_Cons')

lemma ns_InsKey_keys:
  assumes s: "ns_keys s ks" and pos: "pos \<le> length ks" and n: "length ks < kInternalFanout" and k: "length k < 2 ^ 16"
  shows "if sum_list (map length ks) + length k \<le> kKeyBufSize
    then \<exists>s'. ns_InsKey pos k s = Some s' \<and> ns_keys s' (take pos ks @ k # drop pos ks) \<and> ns_children s' = ns_children s \<and> ns_child_leaves s' = ns_child_leaves s
    else ns_InsKey pos k s = None"
proof (cases "sum_list (map length ks) + length k \<le> kKeyBufSize")
  case True
  let ?e = "ns_key_data_end s" and ?n = "length ks" and ?ks = "take pos ks @ k # drop pos ks"
  have c: "ns_key_count s = ?n" "length (ns_key_offs s) = kInternalFanout" "length (ns_key_lens s) = kInternalFanout" "length (ns_key_data s) = kKeyBufSize"
    "?e = sum_list (map length ks)" using s by (simp_all add: ns_keys_def)
  have old: "ns_key_offs s ! i + length (ks ! i) \<le> ?e" "ns_key_lens s ! i = length (ks ! i)" "get (ns_key_offs s ! i) (length (ks ! i)) (ns_key_data s) = ks ! i"
    if "i < ?n" for i using s that by (auto simp: ns_keys_def ns_KeyStr_def)
  define s' where "s' = s\<lparr>ns_key_offs := (sv_shift pos ?n (ns_key_offs s))[pos := ?e], ns_key_lens := (sv_shift pos ?n (ns_key_lens s))[pos := length k],
      ns_key_data := put ?e k (ns_key_data s), ns_key_data_end := ?e + length k, ns_key_count := ?n + 1\<rparr>"
  have i: "ns_InsKey pos k s = Some s'" using True c n k by (simp add: ns_InsKey_def s'_def Let_def)
  have dt: "ns_key_data s' = put ?e k (ns_key_data s)" by (simp add: s'_def)
  have keep: "get j m (put ?e k (ns_key_data s)) = get j m (ns_key_data s)" if "j + m \<le> ?e" for j m
    using that True c by (intro get_put_below) simp_all
  have at: "get ?e (length k) (put ?e k (ns_key_data s)) = k" using True c by (intro get_put_same) simp
  have nth: "ns_key_offs s' ! i + length (?ks ! i) \<le> ?e + length k \<and> ns_key_lens s' ! i = length (?ks ! i) \<and> ns_KeyStr s' i = ?ks ! i" if i: "i < length ?ks" for i
  proof -
    have le: "i \<le> ?n" using i pos by simp
    note sh = sv_shift_nth [OF pos _ le]
    have ds: "ns_key_offs s' ! i = (if i < pos then ns_key_offs s ! i else if i = pos then ?e else ns_key_offs s ! (i - 1))"
      "ns_key_lens s' ! i = (if i < pos then ns_key_lens s ! i else if i = pos then length k else ns_key_lens s ! (i - 1))"
      using c n by (simp_all add: s'_def sh)
    have ksi: "?ks ! i = (if i < pos then ks ! i else if i = pos then k else ks ! (i - 1))" using pos le by (auto simp: nth_append nth_Cons')
    consider "i < pos" | "i = pos" | "i > pos" by linarith
    then show ?thesis
    proof cases
      case 1
      then show ?thesis using old [of i] pos keep by (auto simp: ns_KeyStr_def ds ksi dt)
    next
      case 2
      then show ?thesis using at ds ksi by (simp add: ns_KeyStr_def dt)
    next
      case 3
      then have "i - 1 < ?n" using le by simp
      with 3 show ?thesis using old [of "i - 1"] keep by (auto simp: ns_KeyStr_def ds ksi dt)
    qed
  qed
  have sum: "sum_list (map length (take pos ks)) + sum_list (map length (drop pos ks)) = sum_list (map length ks)" by (metis append_take_drop_id map_append sum_list_append)
  have len: "length (ns_key_offs s') = kInternalFanout" "length (ns_key_lens s') = kInternalFanout" "length (ns_key_data s') = kKeyBufSize"
    using True c n pos by (simp_all add: s'_def sv_shift_list)
  have "ns_keys s' ?ks" unfolding ns_keys_def using nth len sum True n c pos by (simp add: s'_def)
  with i True show ?thesis by (simp add: s'_def)
next
  case False
  then show ?thesis using s k by (simp add: ns_InsKey_def ns_keys_def)
qed

lemma greater_by_prefix:
  fixes a b :: "'a::linorder list"
  shows "(if take (min (length a) (length b)) a \<noteq> take (min (length a) (length b)) b then take (min (length a) (length b)) a > take (min (length a) (length b)) b
    else length a > length b) \<longleftrightarrow> a > b"
  by (induction a b rule: list_induct2') auto

lemma ns_above_key:
  assumes "ns_keys s ks" "i < length ks" "length key < 2 ^ 16"
  shows "ns_above s i key \<longleftrightarrow> ks ! i > key"
proof -
  let ?k = "ks ! i" and ?o = "ns_key_offs s ! i"
  have l: "ns_key_lens s ! i = length ?k" and g: "get ?o (length ?k) (ns_key_data s) = ?k" using assms(1,2) by (auto simp: ns_keys_def ns_KeyStr_def)
  let ?m = "min (length ?k) (length key)"
  have "get ?o ?m (ns_key_data s) = take ?m ?k" using get_get [of 0 ?m "length ?k" ?o "ns_key_data s"] g by (simp add: get_def [of 0])
  then show ?thesis using assms(3) l greater_by_prefix [of ?k key] by (simp add: ns_above_def Let_def split del: if_split cong: if_cong)
qed

lemma ns_find_keys:
  assumes "ns_keys s ks" "length key < 2 ^ 16"
  shows "hi \<le> length ks \<Longrightarrow> ns_find key s lo hi = find_child key ks lo hi"
proof (induction "hi - lo" arbitrary: lo hi rule: less_induct)
  case less
  show ?case
  proof (cases "lo < hi")
    case True
    let ?mid = "(lo + hi) div 2"
    have m: "?mid < length ks" "?mid - lo < hi - lo" "hi - (?mid + 1) < hi - lo" "?mid \<le> length ks" using True less(2) by linarith+
    note ih = less(1) [OF m(2) m(4)] less(1) [OF m(3) less(2)]
    show ?thesis using ns_above_key [OF assms(1) m(1) assms(2)] ih True by (subst ns_find.simps, subst find_child.simps) (simp add: Let_def)
  qed (simp add: ns_find.simps find_child.simps)
qed

lemma ns_FindChild_keys: "ns_keys s ks \<Longrightarrow> length key < 2 ^ 16 \<Longrightarrow> ns_FindChild key s = FindChild key ks"
  using ns_find_keys [OF _ _ order_refl] by (simp add: ns_FindChild_def FindChild_def ns_keys_def)

lemma sv_list_length: "sv_ok cap v \<Longrightarrow> length (sv_list v) = sv_n v"
  by (simp add: sv_ok_def sv_list_def)

lemma ns_kids_n: "ns_kids s ps \<Longrightarrow> sv_n (ns_children s) = length ps \<and> sv_n (ns_child_leaves s) = length ps"
  unfolding ns_kids_def by (metis length_map sv_list_length)

lemma ns_push_kids:
  assumes "ns_kids s ps" "length ps \<le> kInternalFanout"
  shows "\<exists>s'. ns_push c s = Some s' \<and> ns_kids s' (ps @ [c]) \<and> (\<forall>ks. ns_keys s' ks = ns_keys s ks)"
proof -
  note n = ns_kids_n [OF assms(1)]
  have ok: "sv_ok (kInternalFanout + 1) (ns_children s)" "sv_ok (kInternalFanout + 1) (ns_child_leaves s)" "sv_list (ns_children s) = map fst ps" "sv_list (ns_child_leaves s) = map snd ps"
    using assms(1) by (simp_all add: ns_kids_def)
  obtain v where v: "sv_push_back (fst c) (ns_children s) = Some v" "sv_ok (kInternalFanout + 1) v" "sv_list v = map fst (ps @ [c])"
    using assms(2) ok by (auto simp: sv_push_back_insert n intro: sv_insert_list [OF ok(1), of "length ps" "fst c"])
  obtain w where w: "sv_push_back (snd c) (ns_child_leaves s) = Some w" "sv_ok (kInternalFanout + 1) w" "sv_list w = map snd (ps @ [c])"
    using assms(2) ok by (auto simp: sv_push_back_insert n intro: sv_insert_list [OF ok(2), of "length ps" "snd c"])
  show ?thesis using v w by (simp add: ns_push_def ns_kids_def ns_keys_def ns_KeyStr_def)
qed

lemma ns_insert_kids:
  assumes "ns_kids s ps" "length ps \<le> kInternalFanout" "i \<le> length ps"
  shows "\<exists>s'. ns_insert i c s = Some s' \<and> ns_kids s' (take i ps @ c # drop i ps) \<and> (\<forall>ks. ns_keys s' ks = ns_keys s ks)"
proof -
  have ok: "sv_ok (kInternalFanout + 1) (ns_children s)" "sv_ok (kInternalFanout + 1) (ns_child_leaves s)" "sv_list (ns_children s) = map fst ps" "sv_list (ns_child_leaves s) = map snd ps"
    using assms(1) by (simp_all add: ns_kids_def)
  obtain v where v: "sv_insert i (fst c) (ns_children s) = Some v" "sv_ok (kInternalFanout + 1) v" "sv_list v = map fst (take i ps @ c # drop i ps)"
    using assms(2,3) ok by (auto simp: take_map drop_map intro: sv_insert_list [OF ok(1), of i "fst c"])
  obtain w where w: "sv_insert i (snd c) (ns_child_leaves s) = Some w" "sv_ok (kInternalFanout + 1) w" "sv_list w = map snd (take i ps @ c # drop i ps)"
    using assms(2,3) ok by (auto simp: take_map drop_map intro: sv_insert_list [OF ok(2), of i "snd c"])
  show ?thesis using v w by (simp add: ns_insert_def ns_kids_def ns_keys_def ns_KeyStr_def)
qed

lemma ns_set_kids: "ns_kids s ps \<Longrightarrow> ns_kids (ns_set i c s) (ps[i := c]) \<and> (\<forall>ks. ns_keys (ns_set i c s) ks = ns_keys s ks)"
  by (simp add: ns_set_def ns_kids_def ns_keys_def ns_KeyStr_def sv_ok_def sv_list_def take_update_swap map_update)

lemma ns_child_nth:
  assumes "ns_kids s ps" "i < length ps"
  shows "ns_child s i = ps ! i"
proof -
  have "take (length ps) (sv_data (ns_children s)) = map fst ps" "take (length ps) (sv_data (ns_child_leaves s)) = map snd ps"
    using assms(1) ns_kids_n [OF assms(1)] by (simp_all add: ns_kids_def sv_list_def)
  then have "sv_data (ns_children s) ! i = map fst ps ! i" "sv_data (ns_child_leaves s) ! i = map snd ps ! i" using nth_take [OF assms(2)] by metis+
  then show ?thesis using assms(2) by (simp add: ns_child_def)
qed

lemma ns_child_list: "ns_kids s ps \<Longrightarrow> n \<le> length ps \<Longrightarrow> map (ns_child s) [m..<n] = drop m (take n ps)"
  by (rule nth_equalityI) (auto simp: ns_child_nth)

lemma ns_KeyStr_list: "ns_keys s ks \<Longrightarrow> n \<le> length ks \<Longrightarrow> map (ns_KeyStr s) [m..<n] = drop m (take n ks)"
  by (rule nth_equalityI) (auto simp: ns_keys_def)

lemma each_push_kids:
  "ns_kids s ps \<Longrightarrow> length (ps @ cs) \<le> kInternalFanout + 1 \<Longrightarrow> \<exists>s'. each ns_push cs s = Some s' \<and> ns_kids s' (ps @ cs) \<and> (\<forall>ks. ns_keys s' ks = ns_keys s ks)"
proof (induction cs arbitrary: s ps)
  case (Cons c cs)
  then obtain s1 where "ns_push c s = Some s1" "ns_kids s1 (ps @ [c])" "\<forall>ks. ns_keys s1 ks = ns_keys s ks" using ns_push_kids [of s ps c] by auto
  with Cons(1) [of s1 "ps @ [c]"] Cons(3) show ?case by auto
qed simp

lemma each_PushKey_keys:
  "ns_keys s ks \<Longrightarrow> length (ks @ ls) \<le> kInternalFanout \<Longrightarrow> sum_list (map length (ks @ ls)) \<le> kKeyBufSize
    \<Longrightarrow> \<exists>s'. each ns_PushKey ls s = Some s' \<and> ns_keys s' (ks @ ls) \<and> ns_children s' = ns_children s \<and> ns_child_leaves s' = ns_child_leaves s"
proof (induction ls arbitrary: s ks)
  case (Cons k ls)
  have "length k < 2 ^ 16" using Cons(4) by (simp add: kKeyBufSize_def)
  then obtain s1 where "ns_PushKey k s = Some s1" "ns_keys s1 (ks @ [k])" "ns_children s1 = ns_children s" "ns_child_leaves s1 = ns_child_leaves s"
    using ns_InsKey_keys [OF Cons(2) order_refl, of k] Cons(2-4) by (auto simp: ns_PushKey_def ns_keys_def split: if_splits)
  with Cons(1) [of s1 "ks @ [k]"] Cons(3,4) show ?case by auto
qed simp

lemma ns_new_rep: "ns_keys (ns_ResizeKeys 0 ns_new) [] \<and> ns_kids (ns_ResizeKeys 0 ns_new) []"
  by (simp add: ns_ResizeKeys_def ns_new_def ns_keys_def ns_kids_def sv_ok_def sv_list_def)

lemma ns_copy_rep:
  assumes "ns_keys cp ks"
  shows "ns_keys (ns_CopyKeysFrom cp ns_new) ks \<and> ns_kids (ns_CopyKeysFrom cp ns_new) []"
proof -
  let ?e = "ns_key_data_end cp" and ?d = "put 0 (take (ns_key_data_end cp) (ns_key_data cp)) (replicate kKeyBufSize 0)"
  have c: "length (ns_key_data cp) = kKeyBufSize" "?e \<le> kKeyBufSize" using assms by (simp_all add: ns_keys_def)
  have "get j m ?d = get j m (ns_key_data cp)" if "j + m \<le> ?e" for j m
    using that c get_put_inside [of j m "take ?e (ns_key_data cp)" 0 "replicate kKeyBufSize 0"] by (simp add: get_def [of j m "take ?e (ns_key_data cp)"]) (simp add: get_def drop_take min_def)
  then show ?thesis using assms c by (auto simp: ns_CopyKeysFrom_def ns_new_def ns_keys_def ns_KeyStr_def ns_kids_def sv_ok_def sv_list_def)
qed

lemma ns_part_rep:
  assumes "ns_keys nn ks" "ns_kids nn ps" "n \<le> length ks" "n' \<le> length ps" "length ps \<le> kInternalFanout + 1"
  shows "\<exists>a. ns_part nn [m..<n] [m'..<n'] = Some a \<and> ns_keys a (drop m (take n ks)) \<and> ns_kids a (drop m' (take n' ps))"
proof -
  let ?ks = "drop m (take n ks)" and ?ps = "drop m' (take n' ps)"
  have "sum_list (map length ks) = sum_list (map length (take m (take n ks))) + sum_list (map length ?ks) + sum_list (map length (drop n ks))"
    by (metis append_take_drop_id map_append sum_list_append)
  then have "length ?ks \<le> kInternalFanout" "sum_list (map length ?ks) \<le> kKeyBufSize" using assms(1) by (auto simp: ns_keys_def)
  then obtain s1 where s1: "each ns_PushKey ?ks (ns_ResizeKeys 0 ns_new) = Some s1" "ns_keys s1 ?ks" "ns_children s1 = ns_children (ns_ResizeKeys 0 ns_new)"
    "ns_child_leaves s1 = ns_child_leaves (ns_ResizeKeys 0 ns_new)" using each_PushKey_keys [of _ "[]" ?ks] ns_new_rep by auto
  then have "ns_kids s1 []" using ns_new_rep by (simp add: ns_kids_def)
  moreover have pl: "length ([] @ ?ps) \<le> kInternalFanout + 1" using assms(5) by simp
  ultimately obtain a where "each ns_push ?ps s1 = Some a" "ns_kids a ?ps" "ns_keys a ?ks" using each_push_kids [of s1 "[]" ?ps] pl s1(2) by auto
  with s1(1) show ?thesis by (simp add: ns_part_def ns_KeyStr_list [OF assms(1,3)] ns_child_list [OF assms(2,4)])
qed

text \<open>The node with child \<open>i\<close> replaced by two, in one store or in two.\<close>

lemma ns_level_lists:
  assumes cp: "ns_keys cp ks" "ns_kids cp ps" "length ps = Suc (length ks)" and n: "length ks < kInternalFanout" and i: "i \<le> length ks" and sep: "length sep < 2 ^ 16"
    and ks': "ks' = take i ks @ sep # drop i ks" and ps': "ps' = take i ps @ l # r # drop (Suc i) ps"
  shows "if sum_list (map length ks) + length sep \<le> kKeyBufSize
    then (if length ks' < kInternalFanout then \<exists>nn. ns_level cp i l r sep = Some (Ns_one nn) \<and> ns_keys nn ks' \<and> ns_kids nn ps'
          else \<exists>a b. ns_level cp i l r sep = Some (Ns_two a (ks' ! (length ks' div 2)) b) \<and> ns_keys a (take (length ks' div 2) ks') \<and> ns_kids a (take (length ks' div 2 + 1) ps')
            \<and> ns_keys b (drop (length ks' div 2 + 1) ks') \<and> ns_kids b (drop (length ks' div 2 + 1) ps'))
    else ns_level cp i l r sep = None"
proof -
  have il: "i < length ps" using cp(3) i by simp
  obtain s1 where s1: "each ns_push (map (ns_child cp) [0..<sv_n (ns_children cp)]) (ns_CopyKeysFrom cp ns_new) = Some s1" "ns_kids s1 ps" "ns_keys s1 ks"
    using each_push_kids [of "ns_CopyKeysFrom cp ns_new" "[]" ps] ns_copy_rep [OF cp(1)] ns_kids_n [OF cp(2)] ns_child_list [OF cp(2) order_refl, of 0] cp(3) n by auto
  have "ns_kids (ns_set i l s1) (ps[i := l])" "ns_keys (ns_set i l s1) ks" using ns_set_kids [OF s1(2)] s1(3) by auto
  moreover have "take (i + 1) (ps[i := l]) @ r # drop (i + 1) (ps[i := l]) = ps'" using il by (simp add: ps' take_Suc_conv_app_nth)
  ultimately obtain s2 where s2: "ns_insert (i + 1) r (ns_set i l s1) = Some s2" "ns_kids s2 ps'" "ns_keys s2 ks"
    using ns_insert_kids [of "ns_set i l s1" "ps[i := l]" "i + 1" r] il n cp(3) by auto
  note k = ns_InsKey_keys [OF s2(3) i n sep, folded ks']
  have lv: "ns_level cp i l r sep = Option.bind (ns_InsKey i sep s2) (\<lambda>nn. let n = ns_key_count nn; mid = n div 2
     in if n < kInternalFanout then Some (Ns_one nn)
        else Option.bind (ns_part nn [0..<mid] [0..<mid + 1]) (\<lambda>a. map_option (\<lambda>b. Ns_two a (ns_KeyStr nn mid) b) (ns_part nn [mid + 1..<n] [mid + 1..<n + 1])))"
    by (simp only: ns_level_def s1(1) s2(1) Option.bind.bind_lunit)
  have len: "length ps' = length ks' + 1" using il i cp(3) by (simp add: ks' ps')
  show ?thesis
  proof (cases "sum_list (map length ks) + length sep \<le> kKeyBufSize")
    case True
    then obtain nn where nn: "ns_InsKey i sep s2 = Some nn" "ns_keys nn ks'" "ns_kids nn ps'" using k s2(2) by (auto simp: ns_kids_def)
    have c: "ns_key_count nn = length ks'" "length ks' \<le> kInternalFanout" using nn(2) by (simp_all add: ns_keys_def)
    show ?thesis
    proof (cases "length ks' < kInternalFanout")
      case small: True
      then show ?thesis using True nn by (simp add: lv Let_def c(1))
    next
      case False
      let ?mid = "length ks' div 2"
      have m: "?mid \<le> length ks'" "?mid + 1 \<le> length ps'" "length ps' \<le> kInternalFanout + 1" "length ks' + 1 \<le> length ps'" using len c(2) by simp_all
      obtain a where a: "ns_part nn [0..<?mid] [0..<?mid + 1] = Some a" "ns_keys a (take ?mid ks')" "ns_kids a (take (?mid + 1) ps')"
        using ns_part_rep [OF nn(2,3) m(1,2,3), of 0 0] by auto
      obtain b where b: "ns_part nn [?mid + 1..<length ks'] [?mid + 1..<length ks' + 1] = Some b" "ns_keys b (drop (?mid + 1) ks')" "ns_kids b (drop (?mid + 1) ps')"
        using ns_part_rep [OF nn(2,3) order_refl m(4,3), of "?mid + 1" "?mid + 1"] len by auto
      have "ks' \<noteq> []" using False by (auto simp: kInternalFanout_def)
      then have "ns_KeyStr nn ?mid = ks' ! ?mid" using nn(2) by (simp add: ns_keys_def)
      then have "ns_level cp i l r sep = Some (Ns_two a (ks' ! ?mid) b)" using False nn(1) a(1) b(1) by (simp add: lv Let_def c(1) del: upt_Suc)
      with a b False True show ?thesis by simp
    qed
  next
    case False
    then show ?thesis using k by (simp add: lv)
  qed
qed

text \<open>What a result of \<open>ns_level\<close> represents, where \<open>f\<close> gives the subtree behind a pair of pointers.\<close>

fun ns_result_rep :: "(child \<Rightarrow> bnode) \<Rightarrow> ns_result \<Rightarrow> ins_result \<Rightarrow> bool" where
  "ns_result_rep f (Ns_one s) (One (BNode ks cs)) \<longleftrightarrow> (\<exists>ps. ns_keys s ks \<and> ns_kids s ps \<and> map f ps = cs)"
| "ns_result_rep f (Ns_two a s b) (Two (BNode ks cs) sep (BNode ks' cs')) \<longleftrightarrow>
     (\<exists>ps ps'. ns_keys a ks \<and> ns_kids a ps \<and> map f ps = cs \<and> ns_keys b ks' \<and> ns_kids b ps' \<and> map f ps' = cs' \<and> s = sep)"
| "ns_result_rep f _ _ = False"

lemma ins_node_map:
  assumes ks': "ks' = take i ks @ sep # drop i ks" and ps': "ps' = take i ps @ l # r # drop (Suc i) ps"
  shows "ins_node ks (map f ps) i (Two (f l) sep (f r)) =
      (if length ks' < kInternalFanout then One (BNode ks' (map f ps'))
       else let mid = length ks' div 2 in Two (BNode (take mid ks') (map f (take (mid + 1) ps'))) (ks' ! mid) (BNode (drop (mid + 1) ks') (map f (drop (mid + 1) ps'))))"
proof -
  have mp: "take i (map f ps) @ f l # f r # drop (Suc i) (map f ps) = map f ps'" by (simp add: ps' take_map drop_map)
  show ?thesis by (simp only: ins_node_def ins_result.case Let_def ks' [symmetric] mp) (simp add: take_map drop_map)
qed

lemma ns_level_rep:
  assumes "ns_keys cp ks" "ns_kids cp ps" "length ps = Suc (length ks)" "length ks < kInternalFanout" "i \<le> length ks" "length sep < 2 ^ 16"
  shows "if sum_list (map length ks) + length sep \<le> kKeyBufSize
    then \<exists>res. ns_level cp i l r sep = Some res \<and> ns_result_rep f res (ins_node ks (map f ps) i (Two (f l) sep (f r)))
    else ns_level cp i l r sep = None"
proof -
  define ks' where "ks' = take i ks @ sep # drop i ks"
  define ps' where "ps' = take i ps @ l # r # drop (Suc i) ps"
  note lv = ns_level_lists [OF assms ks'_def ps'_def]
  note ins = ins_node_map [OF ks'_def ps'_def, of f]
  show ?thesis using lv unfolding ins by (auto simp: Let_def split: if_splits) blast
qed

section \<open>Properties\<close>

text \<open>
  C18: the arrays of an inner node carry out the search and the ascent of a split. On a node that represents separators and children, \<open>FindChild\<close> gives
  the child of the list; and replacing a child by the two halves of a split gives, in one node or in two, exactly the separators and children that \<open>Bptree\<close> computes, with every write inside its array,
  if the separators with the new one have at most 1024 bytes. If they have more, the copy of the separator writes behind the buffer.
\<close>
theorem node_arrays_refine_lists:
  assumes "ns_keys cp ks" and "ns_kids cp ps" and "length ps = Suc (length ks)" and "length ks < kInternalFanout" and "i \<le> length ks"
    and "length sep < 2 ^ 16" and "length key < 2 ^ 16"
  shows "ns_FindChild key cp = FindChild key ks
    \<and> (if sum_list (map length ks) + length sep \<le> kKeyBufSize
       then \<exists>res. ns_level cp i l r sep = Some res \<and> ns_result_rep f res (ins_node ks (map f ps) i (Two (f l) sep (f r)))
       else ns_level cp i l r sep = None)"
  using ns_FindChild_keys [OF assms(1,7)] ns_level_rep [OF assms(1-6)] by simp

definition two_leaves :: node_store where
  "two_leaves = the (Option.bind (ns_PushKey [5] ns_new) (each ns_push [(None, Some 1), (None, Some 2)]))"

definition leaf_at :: "child \<Rightarrow> bnode" where
  "leaf_at c = BLeaf [mk_kv [of_nat (the (snd c))] [] 0]"

lemma two_leaves_rep: "ns_keys two_leaves [[5]] \<and> ns_kids two_leaves [(None, Some 1), (None, Some 2)]"
proof -
  have n: "ns_keys ns_new [] \<and> ns_kids ns_new []" using ns_new_rep by (simp add: ns_ResizeKeys_def ns_new_def)
  have r: "length ([] @ [[5 :: u8]]) \<le> kInternalFanout" "sum_list (map length ([] @ [[5 :: u8]])) \<le> kKeyBufSize" by (simp_all add: kInternalFanout_def kKeyBufSize_def)
  obtain s1 where s1: "each ns_PushKey [[5]] ns_new = Some s1" "ns_keys s1 [[5]]" "ns_children s1 = ns_children ns_new" "ns_child_leaves s1 = ns_child_leaves ns_new"
    using each_PushKey_keys [OF conjunct1 [OF n] r] by auto
  then have "ns_kids s1 []" using n by (simp add: ns_kids_def)
  from each_push_kids [OF this, of "[(None, Some 1), (None, Some 2)]"] obtain s2 where
    "each ns_push [(None, Some 1), (None, Some 2)] s1 = Some s2" "ns_kids s2 [(None, Some 1), (None, Some 2)]" "ns_keys s2 [[5]]"
    using s1(2) by (auto simp: kInternalFanout_def)
  with s1(1) show ?thesis by (auto simp: two_leaves_def split: bind_splits)
qed

theorem node_arrays_refine_lists_witness:
  "ns_FindChild [7] two_leaves = 1 \<and> (\<exists>res. ns_level two_leaves 1 (None, Some 3) (None, Some 4) [8] = Some res
     \<and> ns_result_rep leaf_at res (One (BNode [[5], [8]] (map leaf_at [(None, Some 1), (None, Some 3), (None, Some 4)]))))
   \<and> ns_level two_leaves 1 (None, Some 3) (None, Some 4) (replicate 1024 8) = None"
proof -
  note r = two_leaves_rep [THEN conjunct1] two_leaves_rep [THEN conjunct2]
  have "FindChild [7] [[5 :: u8]] = 1" by (simp add: find_child_eval)
  moreover have "ins_node [[5]] (map leaf_at [(None, Some 1), (None, Some 2)]) 1 (Two (leaf_at (None, Some 3)) [8] (leaf_at (None, Some 4)))
    = One (BNode [[5], [8]] (map leaf_at [(None, Some 1), (None, Some 3), (None, Some 4)]))" by (simp add: ins_node_def kInternalFanout_def)
  moreover have s: "sum_list (map length [[5 :: u8]]) + length [8 :: u8] \<le> kKeyBufSize" "\<not> sum_list (map length [[5 :: u8]]) + length (replicate 1024 (8 :: u8)) \<le> kKeyBufSize"
    by (simp_all add: kKeyBufSize_def)
  have b: "length [(None, Some 1), (None, Some 2 :: nat option)] = Suc (length [[5 :: u8]])" "length [[5 :: u8]] < kInternalFanout" "1 \<le> length [[5 :: u8]]"
    "length [8 :: u8] < 2 ^ 16" "length [7 :: u8] < 2 ^ 16" "length (replicate 1024 (8 :: u8)) < 2 ^ 16" by (simp_all add: kInternalFanout_def)
  note node_arrays_refine_lists [OF r b(1-3) b(4) b(5), of "(None, Some 3)" "(None, Some 4)" leaf_at]
    node_arrays_refine_lists [OF r b(1-3) b(6) b(5), of "(None, Some 3)" "(None, Some 4)" leaf_at]
  ultimately show ?thesis by (simp only: s if_True if_False simp_thms)
qed

end
