(* ===== verification/Node_Version.thy ===== *)
theory Node_Version
  imports Kv_Prelude
begin

text \<open>
  The version of an inner node (\<open>ReadVersion\<close>, \<open>IsLocked\<close>, \<open>TryLock\<close>, \<open>UnlockAndBump\<close> in \<^verbatim>\<open>include/kvdb/bptree.hpp\<close>) and the readers that use it without a lock: \<open>FindLeaf\<close> and
  \<open>FindLeafForWrite\<close> read the version, then a child pointer, then the version again, and start over when it has changed. Each atomic access is a step of its own, in any order
  with the steps of other threads. The separators of a published node never change; its pointers change under the lock.
\<close>

section \<open>Operations\<close>

definition IsLocked :: "u64 \<Rightarrow> bool" where
  "IsLocked ver \<longleftrightarrow> ver AND 1 \<noteq> 0"

text \<open>A try that fails changes nothing; \<^verbatim>\<open>compare_exchange_weak\<close> may also fail without a reason.\<close>

definition TryLock :: "u64 \<Rightarrow> u64 option" where
  "TryLock ver = (if IsLocked ver then None else Some (ver OR 1))"

definition UnlockAndBump :: "u64 \<Rightarrow> u64" where
  "UnlockAndBump ver = ver + 1"

text \<open>Where a reader is in the loop body of \<open>FindLeaf\<close>: before it, behind the first read of the version, or behind the read of pointer \<open>i\<close>.\<close>

datatype reader = Outside | Began u64 | Loaded u64 nat "nat option"

text \<open>\<open>nv_writes\<close> counts the unlocks; \<open>nv_since\<close> is that count at the first read of a reader.\<close>

record node_version =
  nv_version :: u64
  nv_pointer :: "nat \<Rightarrow> nat option"
  nv_readers :: "nat \<Rightarrow> reader"
  nv_writes :: nat
  nv_since :: "nat \<Rightarrow> nat"

definition nv_begin :: "nat \<Rightarrow> node_version \<Rightarrow> node_version" where
  "nv_begin t s = (let v1 = nv_version s in if IsLocked v1 then s else s\<lparr>nv_readers := (nv_readers s)(t := Began v1), nv_since := (nv_since s)(t := nv_writes s)\<rparr>)"

definition nv_load :: "nat \<Rightarrow> nat \<Rightarrow> node_version \<Rightarrow> node_version" where
  "nv_load t i s = (case nv_readers s t of Began v1 \<Rightarrow> s\<lparr>nv_readers := (nv_readers s)(t := Loaded v1 i (nv_pointer s i))\<rparr> | _ \<Rightarrow> s)"

text \<open>The second read of the version: the pointer is taken if the version is the same.\<close>

definition nv_validate :: "nat \<Rightarrow> node_version \<Rightarrow> node_version \<times> (nat \<times> nat option) option" where
  "nv_validate t s =
     (case nv_readers s t of
        Loaded v1 i p \<Rightarrow> (s\<lparr>nv_readers := (nv_readers s)(t := Outside)\<rparr>, if nv_version s = v1 then Some (i, p) else None)
      | _ \<Rightarrow> (s, None))"

inductive nv_reach :: "node_version \<Rightarrow> bool" where
  start: "nv_reach \<lparr>nv_version = 0, nv_pointer = ptrs, nv_readers = (\<lambda>_. Outside), nv_writes = 0, nv_since = (\<lambda>_. 0)\<rparr>"
| lock: "nv_reach s \<Longrightarrow> TryLock (nv_version s) = Some v \<Longrightarrow> nv_reach (s\<lparr>nv_version := v\<rparr>)"
| store: "nv_reach s \<Longrightarrow> IsLocked (nv_version s) \<Longrightarrow> nv_reach (s\<lparr>nv_pointer := (nv_pointer s)(i := p)\<rparr>)"
| unlock: "nv_reach s \<Longrightarrow> IsLocked (nv_version s) \<Longrightarrow> nv_reach (s\<lparr>nv_version := UnlockAndBump (nv_version s), nv_writes := nv_writes s + 1\<rparr>)"
| begins: "nv_reach s \<Longrightarrow> nv_reach (nv_begin t s)"
| load: "nv_reach s \<Longrightarrow> nv_reach (nv_load t i s)"
| validate: "nv_reach s \<Longrightarrow> nv_validate t s = (s', r) \<Longrightarrow> nv_reach s'"

section \<open>The invariant\<close>

lemma IsLocked_odd: "IsLocked v \<longleftrightarrow> odd v"
  by (simp add: IsLocked_def and_one_eq odd_iff_mod_2_eq_one)

text \<open>The version is twice the number of unlocks, and one more while the lock is held.\<close>

fun rd_ok :: "u64 \<Rightarrow> (nat \<Rightarrow> nat option) \<Rightarrow> nat \<Rightarrow> nat \<Rightarrow> reader \<Rightarrow> bool" where
  "rd_ok ver ptrs writes since Outside = True"
| "rd_ok ver ptrs writes since (Began v) \<longleftrightarrow> v = of_nat (2 * since) \<and> since \<le> writes"
| "rd_ok ver ptrs writes since (Loaded v i p) \<longleftrightarrow> v = of_nat (2 * since) \<and> since \<le> writes \<and> (since = writes \<and> \<not> IsLocked ver \<longrightarrow> p = ptrs i)"

definition nv_inv :: "node_version \<Rightarrow> bool" where
  "nv_inv s \<longleftrightarrow> (\<exists>locked. nv_version s = of_nat (2 * nv_writes s + of_bool locked))
     \<and> (\<forall>t. rd_ok (nv_version s) (nv_pointer s) (nv_writes s) (nv_since s t) (nv_readers s t))"

lemma nv_inv_reader: "nv_inv s \<Longrightarrow> rd_ok (nv_version s) (nv_pointer s) (nv_writes s) (nv_since s t) (nv_readers s t)"
  by (simp add: nv_inv_def)

lemma rd_ok_locked: "rd_ok ver ptrs writes since r \<Longrightarrow> IsLocked ver' \<Longrightarrow> rd_ok ver' ptrs' writes since r"
  by (cases r) auto

lemma rd_ok_bump: "rd_ok ver ptrs writes since r \<Longrightarrow> rd_ok ver' ptrs' (Suc writes) since r"
  by (cases r) auto

lemma IsLocked_of_nat: "IsLocked (of_nat (2 * n + of_bool b)) \<longleftrightarrow> b"
  by (simp add: IsLocked_odd)

lemma TryLock_of_nat: "TryLock (of_nat (2 * n)) = Some (of_nat (2 * n + 1))"
proof -
  have "even (of_nat (2 * n) :: u64)" by simp
  then show ?thesis by (simp add: TryLock_def IsLocked_odd or_one_eq)
qed

lemma nv_inv_unlocked:
  assumes "nv_inv s" "\<not> IsLocked (nv_version s)"
  shows "nv_version s = of_nat (2 * nv_writes s)"
proof -
  obtain b where b: "nv_version s = of_nat (2 * nv_writes s + of_bool b)" using assms(1) unfolding nv_inv_def by blast
  then have "\<not> b" using assms(2) IsLocked_of_nat by metis
  with b show ?thesis by simp
qed

lemma nv_inv_locked:
  assumes "nv_inv s" "IsLocked (nv_version s)"
  shows "nv_version s = of_nat (2 * nv_writes s + 1)"
proof -
  obtain b where b: "nv_version s = of_nat (2 * nv_writes s + of_bool b)" using assms(1) unfolding nv_inv_def by blast
  then have b1: "b" using assms(2) IsLocked_of_nat by metis
  with b show ?thesis by simp
qed

lemma nv_reach_inv: "nv_reach s \<Longrightarrow> nv_inv s"
proof (induction rule: nv_reach.induct)
  case (start ptrs)
  show ?case by (auto simp: nv_inv_def intro: exI [of _ False])
next
  case (lock s v)
  have u: "\<not> IsLocked (nv_version s)" using lock(2) by (auto simp: TryLock_def split: if_splits)
  then have v: "v = of_nat (2 * nv_writes s + of_bool True)" using lock(2) nv_inv_unlocked [OF lock(3)] TryLock_of_nat by simp
  then have "IsLocked v" using IsLocked_of_nat by metis
  note r = rd_ok_locked [OF nv_inv_reader [OF lock(3)] this]
  have "nv_version (s\<lparr>nv_version := v\<rparr>) = of_nat (2 * nv_writes (s\<lparr>nv_version := v\<rparr>) + of_bool True)" using v by simp
  with r show ?case unfolding nv_inv_def by (intro conjI exI allI) simp_all
next
  case (store s i p)
  note r = rd_ok_locked [OF nv_inv_reader [OF store(3)] store(2)]
  then show ?case using store(3) by (simp add: nv_inv_def)
next
  case (unlock s)
  have "UnlockAndBump (nv_version s) = of_nat (2 * (nv_writes s + 1) + of_bool False)" using nv_inv_locked [OF unlock(3,2)] by (simp add: UnlockAndBump_def)
  then have "\<exists>b. UnlockAndBump (nv_version s) = of_nat (2 * Suc (nv_writes s) + of_bool b)" by (intro exI [of _ False]) simp
  with rd_ok_bump [OF nv_inv_reader [OF unlock(3)]] show ?case by (simp add: nv_inv_def)
next
  case (begins s t)
  show ?case
  proof (cases "IsLocked (nv_version s)")
    case False
    note v = nv_inv_unlocked [OF begins(2) False]
    have "\<exists>b. nv_version s = of_nat (2 * nv_writes s + of_bool b)" using begins(2) by (simp only: nv_inv_def)
    moreover have "rd_ok (nv_version s) (nv_pointer s) (nv_writes s) (nv_writes s) (Began (nv_version s))" using v by simp
    ultimately show ?thesis using False nv_inv_reader [OF begins(2)] by (simp add: nv_inv_def nv_begin_def Let_def del: rd_ok.simps)
  qed (use begins(2) in \<open>simp add: nv_begin_def Let_def\<close>)
next
  case (load s t i)
  have "nv_readers s t = Began v \<Longrightarrow> v = of_nat (2 * nv_since s t) \<and> nv_since s t \<le> nv_writes s" for v using nv_inv_reader [OF load(2), of t] by simp
  then have b: "rd_ok (nv_version s) (nv_pointer s) (nv_writes s) (nv_since s t) (Loaded v i (nv_pointer s i))" if "nv_readers s t = Began v" for v using that by simp
  show ?case
  proof (cases "nv_readers s t")
    case (Began v)
    then show ?thesis using load(2) b [OF Began] by (simp add: nv_inv_def nv_load_def del: rd_ok.simps)
  qed (use load(2) in \<open>simp_all add: nv_load_def\<close>)
next
  case (validate s t s' r)
  then have "s' = s \<or> s' = s\<lparr>nv_readers := (nv_readers s)(t := Outside)\<rparr>" by (auto simp: nv_validate_def split: reader.splits)
  then show ?case using validate(3) by (elim disjE) (simp_all add: nv_inv_def)
qed

section \<open>Properties\<close>

text \<open>
  C17: a read without a lock that passes its check is consistent. In every order of the steps of readers and writers, if the second read of the version confirms
  the pointer that a reader has loaded, then no writer holds the lock and the pointer is the current one, with fewer than \<open>2 ^ 63\<close> writes to the node between
  the two reads of the version. Pointers that a writer was about to replace or had replaced are refused.
\<close>
theorem optimistic_read_is_consistent:
  assumes "nv_reach s" and "nv_validate t s = (s', Some (i, p))" and "nv_writes s < nv_since s t + 2 ^ 63"
  shows "p = nv_pointer s i \<and> \<not> IsLocked (nv_version s) \<and> nv_since s t = nv_writes s"
proof -
  note inv = nv_reach_inv [OF assms(1)]
  obtain v where v: "nv_readers s t = Loaded v i p" "nv_version s = v" using assms(2) by (auto simp: nv_validate_def split: reader.splits if_splits)
  have "rd_ok (nv_version s) (nv_pointer s) (nv_writes s) (nv_since s t) (nv_readers s t)" using inv unfolding nv_inv_def by blast
  then have r: "v = of_nat (2 * nv_since s t)" "nv_since s t \<le> nv_writes s" "nv_since s t = nv_writes s \<and> \<not> IsLocked (nv_version s) \<longrightarrow> p = nv_pointer s i"
    using v(1) by simp_all
  have u: "\<not> IsLocked (nv_version s)" using v(2) r(1) IsLocked_of_nat [of "nv_since s t" False] by simp
  obtain d where d: "nv_writes s = nv_since s t + d" "d < 2 ^ 63" using r(2) assms(3) by (metis le_Suc_ex nat_add_left_cancel_less)
  have "(of_nat (2 * nv_since s t) :: u64) + of_nat (2 * d) = of_nat (2 * nv_since s t)"
    using nv_inv_unlocked [OF inv u] v(2) r(1) d(1) by (simp add: algebra_simps)
  then have "(of_nat (2 * d) :: u64) = 0" by (metis add_cancel_left_right)
  then have "(2 :: nat) ^ 64 dvd 2 * d" by (simp only: word_of_nat_eq_0_iff) simp
  then have "d = 0" using d(2) by (auto dest: dvd_imp_le)
  with u r(3) d(1) show ?thesis by simp
qed

definition nv_one :: node_version where
  "nv_one = nv_load 7 2 (nv_begin 7 \<lparr>nv_version = 0, nv_pointer = (\<lambda>i. Some (i + 10)), nv_readers = (\<lambda>_. Outside), nv_writes = 0, nv_since = (\<lambda>_. 0)\<rparr>)"

theorem optimistic_read_is_consistent_witness:
  "snd (nv_validate 7 nv_one) = Some (2, Some 12) \<and> Some 12 = nv_pointer nv_one 2 \<and> \<not> IsLocked (nv_version nv_one)"
proof -
  have "nv_reach nv_one" unfolding nv_one_def by (intro nv_reach.load nv_reach.begins nv_reach.start)
  moreover have "nv_validate 7 nv_one = (fst (nv_validate 7 nv_one), Some (2, Some 12))" by (simp add: nv_one_def nv_load_def nv_begin_def nv_validate_def IsLocked_def)
  moreover have "nv_writes nv_one < nv_since nv_one 7 + 2 ^ 63" by (simp add: nv_one_def nv_load_def nv_begin_def IsLocked_def)
  ultimately show ?thesis using optimistic_read_is_consistent [of nv_one 7 _ 2 "Some 12"] by (metis snd_conv)
qed

end
