(* ===== verification/Spec2Isabelle.thy ===== *)
theory Spec2Isabelle
  imports Server_Handler Server_Writes Engine_Tables Engine_Recycle Block_Cache Page_Reclaim Node_Store Node_Version
begin

text \<open>
  Verification of KVDB, a key-value store in C++ built as an LSM tree, with a server and a client.

  \<^bold>\<open>The program.\<close> A client (\<^verbatim>\<open>src/client.cpp\<close>) sends requests over a socket (\<^verbatim>\<open>src/protocol.cpp\<close>). A thread of the server for each
  connection (\<open>HandleClient\<close> in \<^verbatim>\<open>src/server.cpp\<close>) serves reads and scans on the engine and puts writes in a queue; one writer thread (\<open>WriterLoop\<close>) takes them to the engine and
  answers when their log records are on disk. The engine (\<^verbatim>\<open>src/engine.cpp\<close>) gives each write a timestamp, appends it to the write-ahead log
  (\<^verbatim>\<open>src/wal.cpp\<close>) and enters it in the active memtable, a B+-tree (\<^verbatim>\<open>include/kvdb/bptree.hpp\<close>, \<^verbatim>\<open>src/memtable.cpp\<close>). A full memtable is frozen, and the
  flush worker writes it as a sorted table (\<^verbatim>\<open>src/sstable.cpp\<close>) of blocks (\<^verbatim>\<open>include/kvdb/block.hpp\<close>) with a Bloom filter (\<^verbatim>\<open>include/kvdb/bloom.hpp\<close>) and records it in the manifest
  (\<^verbatim>\<open>src/manifest.cpp\<close>). The compaction worker merges tables into the next level. Reads look in the key-value cache (\<^verbatim>\<open>include/kvdb/kv_cache.hpp\<close>), the memtables and the tables, through a
  block cache (\<^verbatim>\<open>include/kvdb/block_cache.hpp\<close>, \<^verbatim>\<open>include/kvdb/internal/flat_cache.hpp\<close>); scans merge iterators over all of them (\<^verbatim>\<open>src/iterator.cpp\<close>,
  \<^verbatim>\<open>include/kvdb/iterator.hpp\<close>). A tracker of snapshots (\<^verbatim>\<open>include/kvdb/snp_tracker.hpp\<close>) tells when pages, memtables and files may be freed. Batches
  are visible as a whole when they commit, and hidden by their timestamp when they abort.

  \<^bold>\<open>Conventions.\<close> Definitions keep the names of the source, with a prefix for the class (\<open>wal_\<close>, \<open>mf_\<close>, \<open>bf_\<close>, \<open>blk_\<close>, \<open>sst_\<close>, \<open>cmp_\<close>, \<open>it_\<close>, \<open>li_\<close>, \<open>ri_\<close>, \<open>bt_\<close>, \<open>lp_\<close>, \<open>ns_\<close>, \<open>nv_\<close>,
  \<open>pg_\<close>, \<open>mt_\<close>, \<open>ww_\<close>, \<open>kc_\<close>, \<open>fc_\<close>, \<open>sc_\<close>, \<open>tk_\<close>, \<open>eng_\<close>, \<open>sv_\<close>, \<open>cl_\<close>). Objects are records and operations return the changed record; fixed-width
  integers are words where they can wrap; strings, files and sockets are lists of bytes; a result that can fail is an option or a sum, and an operation that can throw or wait for ever is an
  \<open>outcome\<close>. An array access that the source does not check and that would leave the array is the result \<open>None\<close>.

  \<^bold>\<open>Theories, the code they model, and what they show.\<close>

  \<^item> \<open>Kv_Prelude\<close>: machine types, little-endian integers, and the locales \<open>byte_codec\<close> (a decoder undoes an encoder in front of any rest), \<open>record_stream\<close> and \<open>record_log\<close> (a scan
    of a sequence of records that may be cut anywhere gives a prefix of them). \<open>Kv_Types\<close>: \<^verbatim>\<open>types.hpp\<close>, \<^verbatim>\<open>config.hpp\<close>.
  \<^item> \<open>Crc32\<close> (\<^verbatim>\<open>crc32.hpp\<close>): the table of 256 entries; a burst of four bytes is always detected; the table differs from the polynomial in one entry. Locale \<open>record_checksum\<close>.
  \<^item> \<open>Wal\<close>: the formats, every append, \<open>Sync\<close> in three parts that interleave with appends and with other calls of \<open>Sync\<close>, both passes of \<open>Recover\<close>, \<open>Clear\<close> and \<open>TrimToLastCheckpoint\<close>. Recovery of a log cut at any byte, durability of what \<open>IsSynced\<close>
    confirms while calls of \<open>Sync\<close> do not overlap, rejection of damaged entries; where overlapping calls confirm too early, and where batch marks hide a checkpoint.
  \<^item> \<open>Manifest\<close>: appends, \<open>Recover\<close>, \<open>Compact\<close>. Recovery of a file cut at any byte, the meaning of the catalogue, and that compaction keeps it.
  \<^item> \<open>Bloom\<close>, \<open>Block\<close>, \<open>Sstable\<close>, \<open>Snappy\<close>: no false negatives (locale \<open>key_filter\<close>); random access in a block; \<open>Write\<close> against \<open>ReadAll\<close>, \<open>ReadMetadata\<close> and \<open>LookupKey\<close> through any cache that agrees with the file;
    compression and decompression and where they do not fit together.
  \<^item> \<open>Compaction\<close> (\<open>SSTable::Compact\<close>): the versions it keeps; reads at or after \<open>visible_ts\<close> find the same version.
  \<^item> \<open>Bptree\<close>: the tree on lists of entries and separators, as a refinement of one flat sorted list, with the space of pages. \<open>Leaf_Page\<close> and \<open>Node_Store\<close>: the bytes of a leaf page and the
    arrays of an inner node carry out the operations on these lists, without a write outside the page or the arrays as long as the separators fit their buffer. \<open>Node_Version\<close>: readers
    without locks take only consistent pointers. \<open>Page_Reclaim\<close>: with any order of readers and writer no page of a tree with a fence source is reused under a reader whose thread has a slot of its own, a tree without one frees
    pages under readers, and the fixed buffers never overflow.
  \<^item> \<open>Memtable\<close>, \<open>Flush\<close> (\<open>WriteFromWalk\<close>): the walk over the leaves; a flush writes the newest version of each key and keeps the lookups of those that no batch aborted.
  \<^item> \<open>Iterators\<close>, \<open>Level_Iter\<close>, \<open>Range_Scan\<close>: the locale \<open>source_iter\<close>, the interface of the sources, with its instances; the iterators deliver the entries of their tables from a hot or a cold
    cache, and the merge delivers each key of the range once, in order, with its newest visible version.
  \<^item> \<open>Kv_Cache\<close>, \<open>Flat_Cache\<close>, \<open>Flat_Cache_Lru\<close>, \<open>Block_Cache\<close>: open addressing, links and eviction. The operations of the key-value cache end; the generic cache refines a list in order of
    use, and the block cache the partial maps that \<open>Sstable\<close> and \<open>Engine\<close> work with.
  \<^item> \<open>Snp_Tracker\<close>: \<open>MinActiveTS\<close> is exact in every order of the steps of the readers.
  \<^item> \<open>Engine\<close>: the state and every operation. \<open>Engine_Reads\<close>: lookups find the newest version over all places when the catalogue lists the tables by age (locale \<open>version_layer\<close>, interpreted for memtables and tables), and a write is read back. \<open>Engine_Batches\<close>:
    which versions are visible in every reachable state; commits are durable, until \<open>TrimWAL\<close> is called, and end. \<open>Engine_Tables\<close>: recovery and compaction of the catalogue. \<open>Engine_Scan\<close>: range and prefix
    scans from end to end. \<open>Engine_Recycle\<close>: the recycling of memtables does not change the engine.
  \<^item> \<open>Protocol\<close>: framing, every client call and every reply; requests survive a cut, and sessions stay in step. \<open>Server_Writer\<close>, \<open>Server_Log\<close>, \<open>Server_Writes\<close>: the queues and the writer thread; acknowledged
    writes are in the log file in every reachable state (locale \<open>ack_log\<close>), no request is lost or doubled, and requests are answered. \<open>Server_Handler\<close>: all of \<open>HandleClient\<close>; reads
    and scans over the connection return what the engine holds, and a compare-and-swap from the client's call to its answer.

  A property that shows a fault of the source states the case in which it appears; the hypotheses of the other properties leave out such cases, and their texts name them.

  \<^bold>\<open>Parameters.\<close> \<^verbatim>\<open>std::hash\<close> (\<open>hs\<close>), the floating-point sizing of a Bloom filter (\<open>bsz\<close>, clamped as in the source), the outcome of writing and opening files (\<open>io_result\<close>), the slot where a thread starts its search in
  the tracker, the content of a moved-from string (\<open>moved\<close>), the order of equal keys in the heap of a merge (\<open>ties\<close>, any permutation), the addresses and the old contents of allocated memory, and what the trackers answer. They are arguments of the
  definitions; \<open>surroundings\<close> collects them for the handler.

  \<^bold>\<open>Loops and fuel.\<close> Loops of the source that always end are total functions with a termination proof. Loops that need not end (\<open>ReadAll\<close> on a truncated file, probing a full hash table, seeking without progress) return
  options, and the theorems about them state that they return. \<open>ri_collect\<close>, \<open>li_collect\<close> and the like take the number of steps; the theorems hold for every number, or for one that
  exceeds the length of what is delivered.

  \<^bold>\<open>Not modelled.\<close> Socket calls, the start and the end of threads, the listener, the clock and the shutdown flag: they have no result that the models use. The preemption of an engine operation by another
  one, except where a theory says so (\<open>Sync\<close>, trackers, page reclamation, optimistic reads, the two snapshots of a scan, the rounds of the workers). The blocks that a scan or a compaction enters in the block
  cache while it runs. The profiling variant of \<open>BPlusTree::Insert\<close>, unused helpers, and the branches for compressed blocks, which a constant switches off. Command-line programs, benchmarks and tests.
\<close>

end
